(* ===== verification/Vdev_Prelude.thy ===== *)
theory Vdev_Prelude
  imports Main "HOL-Library.Char_ord" "HOL-Library.List_Lexorder" "HOL-Library.Sublist" "HOL-Library.Monad_Syntax"
begin

text \<open>
  Shared vocabulary of the development.

  \<^item> Return codes are integers, as in the C code: \<open>0\<close> for success, \<open>- e\<close> for the \<open>errno\<close>
    value \<open>e\<close>, positive values where a function documents them. The \<open>errno\<close> values are
    the ones of Linux (\<^verbatim>\<open>asm-generic/errno-base.h\<close>).
  \<^item> A C string is a \<open>string\<close> (a list of characters without the terminating NUL); a
    \<open>char*\<close> that may be \<open>NULL\<close> is a \<open>string option\<close>.
  \<^item> The functions of the C library that the sources call on strings are defined here:
    \<open>strcmp\<close>, \<open>strcasecmp\<close>, \<open>strchr\<close>, \<open>isspace\<close>, \<open>strtol\<close> and its relatives.

  The collections \<open>vdev_simps\<close> (unfolding equations of the model's operations) and
  \<open>cstr_simps\<close> (facts on C strings) carry the proofs of the component theories.
\<close>

named_theorems vdev_simps \<open>defining equations of the operations of the model\<close>
named_theorems cstr_simps \<open>facts on C string functions\<close>

type_synonym cstr = string
type_synonym rc = int

section \<open>errno values\<close>

abbreviation (input) EPERM :: rc where "EPERM \<equiv> 1"
abbreviation (input) ENOENT :: rc where "ENOENT \<equiv> 2"
abbreviation (input) EINTR :: rc where "EINTR \<equiv> 4"
abbreviation (input) EIO :: rc where "EIO \<equiv> 5"
abbreviation (input) ECHILD :: rc where "ECHILD \<equiv> 10"
abbreviation (input) EAGAIN :: rc where "EAGAIN \<equiv> 11"
abbreviation (input) ENOMEM :: rc where "ENOMEM \<equiv> 12"
abbreviation (input) EACCES :: rc where "EACCES \<equiv> 13"
abbreviation (input) EBUSY :: rc where "EBUSY \<equiv> 16"
abbreviation (input) EEXIST :: rc where "EEXIST \<equiv> 17"
abbreviation (input) ENOTDIR :: rc where "ENOTDIR \<equiv> 20"
abbreviation (input) EISDIR :: rc where "EISDIR \<equiv> 21"
abbreviation (input) EINVAL :: rc where "EINVAL \<equiv> 22"
abbreviation (input) EPIPE :: rc where "EPIPE \<equiv> 32"
abbreviation (input) ERANGE :: rc where "ERANGE \<equiv> 34"
abbreviation (input) ENOTEMPTY :: rc where "ENOTEMPTY \<equiv> 39"
abbreviation (input) ENODATA :: rc where "ENODATA \<equiv> 61"

abbreviation PATH_MAX :: nat where "PATH_MAX \<equiv> 4096"

abbreviation NUL :: char where "NUL \<equiv> CHR 0x00"
abbreviation NL :: char where "NL \<equiv> CHR 0x0A"
abbreviation TAB :: char where "TAB \<equiv> CHR 0x09"
abbreviation SLASH :: char where "SLASH \<equiv> CHR ''/''"

section \<open>String functions of the C library\<close>

text \<open>\<open>strcmp\<close> compares the bytes as \<open>unsigned char\<close>; only the sign of its result is used.\<close>

fun strcmp :: "cstr \<Rightarrow> cstr \<Rightarrow> int" where
  "strcmp [] [] = 0"
| "strcmp [] (y # ys) = - 1"
| "strcmp (x # xs) [] = 1"
| "strcmp (x # xs) (y # ys) =
     (if x = y then strcmp xs ys else int (of_char x) - int (of_char y))"

lemma strcmp_eq_0 [simp, cstr_simps]: "strcmp s t = 0 \<longleftrightarrow> s = t"
  by (induction s t rule: strcmp.induct) auto

lemma strcmp_neg [cstr_simps]: "strcmp s t < 0 \<longleftrightarrow> s < t"
  by (induction s t rule: strcmp.induct) (auto simp: less_char_def)

lemma strcmp_pos [cstr_simps]: "strcmp s t > 0 \<longleftrightarrow> t < s"
  by (induction s t rule: strcmp.induct) (auto simp: less_char_def)

lemma strcmp_le [cstr_simps]: "strcmp s t \<le> 0 \<longleftrightarrow> s \<le> t"
  using strcmp_pos [of s t] by (simp flip: not_less)

text \<open>\<open>tolower\<close> and \<open>isspace\<close> in the C locale.\<close>

definition to_lower :: "char \<Rightarrow> char" where
  "to_lower c = (let n = of_char c :: nat in
     if 65 \<le> n \<and> n \<le> 90 then char_of (n + 32) else c)"

definition strcasecmp_eq :: "cstr \<Rightarrow> cstr \<Rightarrow> bool" where
  "strcasecmp_eq s t \<longleftrightarrow> map to_lower s = map to_lower t"

lemma strcasecmp_eq_refl [simp]: "strcasecmp_eq s s"
  by (simp add: strcasecmp_eq_def)

definition isspace :: "char \<Rightarrow> bool" where
  "isspace c \<longleftrightarrow> c = CHR '' '' \<or> (let n = of_char c :: nat in 9 \<le> n \<and> n \<le> 13)"

text \<open>\<open>strchr\<close>: the suffix from the first occurrence on.\<close>

fun strchr :: "cstr \<Rightarrow> char \<Rightarrow> cstr option" where
  "strchr [] c = None"
| "strchr (x # xs) c = (if x = c then Some (x # xs) else strchr xs c)"

lemma strchr_None [cstr_simps]: "strchr s c = None \<longleftrightarrow> c \<notin> set s"
  by (induction s) auto

lemma strchr_Some [cstr_simps]:
  "strchr s c = Some t \<longleftrightarrow> (\<exists>p. s = p @ t \<and> c \<notin> set p \<and> t \<noteq> [] \<and> hd t = c)"
proof (induction s)
  case Nil
  then show ?case by auto
next
  case (Cons x s)
  show ?case
  proof (cases "x = c")
    case True
    then show ?thesis
      by (auto simp: Cons_eq_append_conv)
  next
    case False
    then show ?thesis using Cons.IH by (auto simp: Cons_eq_append_conv)
  qed
qed

lemma strchr_append_notin: "c \<notin> set p \<Longrightarrow> strchr (p @ c # s) c = Some (c # s)"
  by (induction p) auto

section \<open>Number parsing: strtol, strtoll, strtoul\<close>

definition digit_of :: "char \<Rightarrow> nat" where
  "digit_of c = of_char c - 48"

definition is_digit_in :: "nat \<Rightarrow> char \<Rightarrow> bool" where
  "is_digit_in base c \<longleftrightarrow> 48 \<le> (of_char c :: nat) \<and> (of_char c :: nat) < 48 + base"

text \<open>The digits at the front of a string, and the value they denote (for bases up to 10).\<close>

definition digits_value :: "nat \<Rightarrow> cstr \<Rightarrow> nat" where
  "digits_value base ds = foldl (\<lambda>n c. base * n + digit_of c) 0 ds"

text \<open>
  \<open>strto base s\<close> is the unbounded value and the rest of the string (\<open>endptr\<close>): leading
  white space, an optional sign, then digits. With no digits the rest is the whole string,
  as the C standard requires.
\<close>

definition strto :: "nat \<Rightarrow> cstr \<Rightarrow> int \<times> cstr" where
  "strto base s =
     (let t = dropWhile isspace s;
          neg = (t \<noteq> [] \<and> hd t = CHR ''-'');
          u = (if t \<noteq> [] \<and> (hd t = CHR ''-'' \<or> hd t = CHR ''+'') then tl t else t);
          ds = takeWhile (is_digit_in base) u
      in if ds = [] then (0, s)
         else ((if neg then - int (digits_value base ds) else int (digits_value base ds)),
               dropWhile (is_digit_in base) u))"

definition LLONG_MAX :: int where "LLONG_MAX = 9223372036854775807"
definition LLONG_MIN :: int where "LLONG_MIN = - 9223372036854775808"

text \<open>\<open>strtoll\<close> and \<open>strtol\<close> (64-bit \<open>long\<close>) clamp.\<close>

definition strtoll :: "nat \<Rightarrow> cstr \<Rightarrow> int \<times> cstr" where
  "strtoll base s = (case strto base s of (v, r) \<Rightarrow> (max LLONG_MIN (min LLONG_MAX v), r))"

text \<open>\<open>strtoul\<close> negates modulo \<open>2 ^ 64\<close> and clamps at \<open>ULONG_MAX\<close>.\<close>

definition strtoul :: "nat \<Rightarrow> cstr \<Rightarrow> nat \<times> cstr" where
  "strtoul base s = (case strto base s of (v, r) \<Rightarrow>
     (if \<bar>v\<bar> \<ge> 2 ^ 64 then 2 ^ 64 - 1 else nat (v mod 2 ^ 64), r))"

text \<open>Decimal printing, as \<open>printf\<close> does it with \<open>%u\<close>.\<close>

definition digit_char :: "nat \<Rightarrow> char" where
  "digit_char d = char_of (48 + d)"

fun show_nat :: "nat \<Rightarrow> cstr" where
  "show_nat n = (if n < 10 then [digit_char n]
                 else show_nat (n div 10) @ [digit_char (n mod 10)])"

declare show_nat.simps [simp del]

definition show_int :: "int \<Rightarrow> cstr" where
  "show_int i = (if i < 0 then CHR ''-'' # show_nat (nat (- i)) else show_nat (nat i))"

lemma of_char_digit_char: "d < 10 \<Longrightarrow> (of_char (digit_char d) :: nat) = 48 + d"
  by (simp add: digit_char_def)

lemma digit_of_digit_char [simp]: "d < 10 \<Longrightarrow> digit_of (digit_char d) = d"
  by (simp add: digit_of_def of_char_digit_char)

lemma is_digit_digit_char [simp]: "d < 10 \<Longrightarrow> is_digit_in 10 (digit_char d)"
  by (simp add: is_digit_in_def of_char_digit_char)

lemma show_nat_nonempty [simp]: "show_nat n \<noteq> []"
  by (subst show_nat.simps) simp

lemma show_nat_digits: "\<forall>c \<in> set (show_nat n). is_digit_in 10 c"
proof (induction n rule: show_nat.induct)
  case (1 n)
  then show ?case by (cases "n < 10") (simp_all add: show_nat.simps [of n])
qed

lemma digits_value_snoc [simp]:
  "digits_value b (ds @ [c]) = b * digits_value b ds + digit_of c"
  by (simp add: digits_value_def)

lemma digits_value_show_nat [simp]: "digits_value 10 (show_nat n) = n"
proof (induction n rule: show_nat.induct)
  case (1 n)
  then show ?case
    by (cases "n < 10") (simp_all add: show_nat.simps [of n] digits_value_def [of _ "[_]"])
qed

lemma not_space_digit: "is_digit_in 10 c \<Longrightarrow> \<not> isspace c \<and> c \<noteq> CHR ''-'' \<and> c \<noteq> CHR ''+''"
  by (auto simp: is_digit_in_def isspace_def Let_def)

lemma takeWhile_digits_show_nat:
  assumes "t = [] \<or> \<not> is_digit_in 10 (hd t)"
  shows "takeWhile (is_digit_in 10) (show_nat n @ t) = show_nat n"
    and "dropWhile (is_digit_in 10) (show_nat n @ t) = t"
proof -
  from assms have 1: "takeWhile (is_digit_in 10) t = []" "dropWhile (is_digit_in 10) t = t"
    by (cases t; simp)+
  show "takeWhile (is_digit_in 10) (show_nat n @ t) = show_nat n"
    using show_nat_digits [of n] 1 by (simp add: takeWhile_append2)
  show "dropWhile (is_digit_in 10) (show_nat n @ t) = t"
    using show_nat_digits [of n] 1 by (simp add: dropWhile_append2)
qed

text \<open>Printing a number and reading it back with \<open>strtol\<close> and its relatives.\<close>

lemma strto_show_nat:
  assumes "t = [] \<or> \<not> is_digit_in 10 (hd t)"
  shows "strto 10 (show_nat n @ t) = (int n, t)"
proof -
  obtain d ds where s: "show_nat n = d # ds" by (meson list.exhaust show_nat_nonempty)
  with show_nat_digits [of n] have d: "is_digit_in 10 d" by simp
  then have "\<not> isspace d" and sign: "d \<noteq> CHR ''-''" "d \<noteq> CHR ''+''"
    using not_space_digit by blast+
  with s have 1: "dropWhile isspace (show_nat n @ t) = show_nat n @ t"
    by simp
  from s sign have 2: "hd (show_nat n @ t) \<noteq> CHR ''-''" "hd (show_nat n @ t) \<noteq> CHR ''+''"
    by simp_all
  show ?thesis
    unfolding strto_def Let_def 1 using 2 takeWhile_digits_show_nat [OF assms, of n] by simp
qed

end
