(* ===== verification/Sglib_RBTree.thy ===== *)
theory Sglib_RBTree
  imports Vdev_Prelude "HOL-Library.Multiset"
begin

text \<open>
  The red-black tree of \<^verbatim>\<open>libvdev/sglib.h\<close>, which vdev instantiates for its parameter sets
  (\<^verbatim>\<open>SGLIB_DEFINE_RBTREE_FUNCTIONS\<close>). The macros are generic in the comparator, so the
  definitions take it as an argument \<open>cmp\<close>; \<open>plt e t\<close> stands for the comparison \<open>elem<t\<close> of
  two node addresses, which the code uses to break ties.

  Modelled: insertion with its two repair functions, search, the consistency check of the
  library, the explicit-stack traversal behind \<open>sglib_..._len\<close>, and the iterator. Deletion is
  not used by vdev and is left out.

  Shown: insertion keeps the order, the multiset of elements and the red-black invariants, so
  the library's own consistency check never fails; search finds an element exactly when one
  compares equal; the iterator yields the in-order sequence; and the fixed arrays of
  \<open>SGLIB_MAX_TREE_DEEP\<close> entries cannot overflow below \<open>2 ^ 63\<close> elements.
\<close>

section \<open>Trees\<close>

datatype color = BLACK | RED

datatype 'a rbtree = Leaf | Node color "'a rbtree" 'a "'a rbtree"

fun tree_inorder :: "'a rbtree \<Rightarrow> 'a list" where
  "tree_inorder Leaf = []"
| "tree_inorder (Node c l x r) = tree_inorder l @ x # tree_inorder r"

fun tree_height :: "'a rbtree \<Rightarrow> nat" where
  "tree_height Leaf = 0"
| "tree_height (Node c l x r) = Suc (max (tree_height l) (tree_height r))"

fun is_red :: "'a rbtree \<Rightarrow> bool" where
  "is_red (Node RED l x r) \<longleftrightarrow> True"
| "is_red _ \<longleftrightarrow> False"

fun set_color :: "color \<Rightarrow> 'a rbtree \<Rightarrow> 'a rbtree" where
  "set_color c Leaf = Leaf"
| "set_color c (Node d l x r) = Node c l x r"

section \<open>Insertion\<close>

text \<open>
  \<open>SGLIB___RBTREE_FIX_INSERTION_DISCREPANCY\<close>, once with \<open>(left, right)\<close> and once with
  \<open>(right, left)\<close>. If the sibling is red, a red-red conflict below is repaired by recolouring;
  otherwise by a single or a double rotation.
\<close>

fun fix_left_insertion_discrepancy :: "'a rbtree \<Rightarrow> 'a rbtree" where
  "fix_left_insertion_discrepancy Leaf = Leaf"
| "fix_left_insertion_discrepancy (Node c tleft x tright) =
     (if is_red tright then
        (case tleft of
           Node RED tll y tlr \<Rightarrow>
             (if is_red tll \<or> is_red tlr
              then Node RED (set_color BLACK tleft) x (set_color BLACK tright)
              else Node c tleft x tright)
         | _ \<Rightarrow> Node c tleft x tright)
      else
        (case tleft of
           Node RED tll y tlr \<Rightarrow>
             (if is_red tll then Node BLACK tll y (Node RED tlr x tright)
              else (case tlr of
                      Node RED cl z cr \<Rightarrow> Node BLACK (Node RED tll y cl) z (Node RED cr x tright)
                    | _ \<Rightarrow> Node c tleft x tright))
         | _ \<Rightarrow> Node c tleft x tright))"

fun fix_right_insertion_discrepancy :: "'a rbtree \<Rightarrow> 'a rbtree" where
  "fix_right_insertion_discrepancy Leaf = Leaf"
| "fix_right_insertion_discrepancy (Node c tleft x tright) =
     (if is_red tleft then
        (case tright of
           Node RED trl y trr \<Rightarrow>
             (if is_red trr \<or> is_red trl
              then Node RED (set_color BLACK tleft) x (set_color BLACK tright)
              else Node c tleft x tright)
         | _ \<Rightarrow> Node c tleft x tright)
      else
        (case tright of
           Node RED trl y trr \<Rightarrow>
             (if is_red trr then Node BLACK (Node RED tleft x trl) y trr
              else (case trl of
                      Node RED cl z cr \<Rightarrow> Node BLACK (Node RED tleft x cl) z (Node RED cr y trr)
                    | _ \<Rightarrow> Node c tleft x tright))
         | _ \<Rightarrow> Node c tleft x tright))"

fun add_recursive :: "('a \<Rightarrow> 'a \<Rightarrow> int) \<Rightarrow> ('a \<Rightarrow> 'a \<Rightarrow> bool) \<Rightarrow> 'a \<Rightarrow> 'a rbtree \<Rightarrow> 'a rbtree" where
  "add_recursive cmp plt e Leaf = Node RED Leaf e Leaf"
| "add_recursive cmp plt e (Node c l x r) =
     (if cmp e x < 0 \<or> (cmp e x = 0 \<and> plt e x)
      then (let t = Node c (add_recursive cmp plt e l) x r
            in if c = BLACK then fix_left_insertion_discrepancy t else t)
      else (let t = Node c l x (add_recursive cmp plt e r)
            in if c = BLACK then fix_right_insertion_discrepancy t else t))"

definition sglib_add :: "('a \<Rightarrow> 'a \<Rightarrow> int) \<Rightarrow> ('a \<Rightarrow> 'a \<Rightarrow> bool) \<Rightarrow> 'a rbtree \<Rightarrow> 'a \<Rightarrow> 'a rbtree" where
  "sglib_add cmp plt t e = set_color BLACK (add_recursive cmp plt e t)"

section \<open>Search\<close>

fun sglib_find_member :: "('a \<Rightarrow> 'a \<Rightarrow> int) \<Rightarrow> 'a rbtree \<Rightarrow> 'a \<Rightarrow> 'a option" where
  "sglib_find_member cmp Leaf e = None"
| "sglib_find_member cmp (Node c l x r) e =
     (if cmp e x < 0 then sglib_find_member cmp l e
      else if cmp e x > 0 then sglib_find_member cmp r e
      else Some x)"

section \<open>The library's consistency check\<close>

text \<open>
  \<open>consistency_check_recursive\<close> walks the tree with \<open>*pathdeep\<close>, the black depth of the first
  leaf it reaches (negative before that). \<open>None\<close> is a failed assertion.
\<close>

fun root_elem :: "'a rbtree \<Rightarrow> 'a option" where
  "root_elem Leaf = None"
| "root_elem (Node c l x r) = Some x"

fun consistency_check_recursive ::
  "('a \<Rightarrow> 'a \<Rightarrow> int) \<Rightarrow> 'a rbtree \<Rightarrow> int \<Rightarrow> int \<Rightarrow> int option" where
  "consistency_check_recursive cmp Leaf pathdeep cdeep =
     (if pathdeep < 0 then Some cdeep else if pathdeep = cdeep then Some pathdeep else None)"
| "consistency_check_recursive cmp (Node c l x r) pathdeep cdeep =
     (if (\<forall>y \<in> set_option (root_elem l). cmp y x \<le> 0) \<and>
         (\<forall>y \<in> set_option (root_elem r). cmp x y \<le> 0)
      then (if c = RED
            then (if \<not> is_red l \<and> \<not> is_red r
                  then Option.bind (consistency_check_recursive cmp l pathdeep cdeep)
                         (\<lambda>d. consistency_check_recursive cmp r d cdeep)
                  else None)
            else Option.bind (consistency_check_recursive cmp l pathdeep (cdeep + 1))
                   (\<lambda>d. consistency_check_recursive cmp r d (cdeep + 1)))
      else None)"

definition consistency_check :: "('a \<Rightarrow> 'a \<Rightarrow> int) \<Rightarrow> 'a rbtree \<Rightarrow> bool" where
  "consistency_check cmp t \<longleftrightarrow>
     \<not> is_red t \<and> consistency_check_recursive cmp t (- 1) 0 \<noteq> None"

section \<open>The iterator\<close>

text \<open>
  \<open>struct sglib_..._iterator\<close>: the stack of nodes from the root to the current one with, for
  each, how many of its subtrees were entered (\<open>pass\<close>). The arrays \<open>path\<close> and \<open>pass\<close> up to
  index \<open>pathi\<close> are a list with its top first; a frame holds the two subtrees and the element.
\<close>

type_synonym 'a frame = "'a rbtree \<times> 'a \<times> 'a rbtree \<times> nat"

record 'a iterator =
  it_current :: "'a option"
  it_stack :: "'a frame list"
  it_order :: nat

fun push_node :: "'a rbtree \<Rightarrow> 'a frame list \<Rightarrow> 'a frame list" where
  "push_node Leaf st = st"
| "push_node (Node c l x r) st = (l, x, r, 0) # st"

text \<open>One round of the loop of \<open>it_compute_current_elem\<close>.\<close>

fun it_step :: "'a frame list \<Rightarrow> 'a frame list" where
  "it_step [] = []"
| "it_step ((l, x, r, p) # st) =
     (if p \<ge> 2 then st
      else push_node (if p = 0 then l else r) ((l, x, r, Suc p) # st))"

fun tree_work :: "'a rbtree \<Rightarrow> nat" where
  "tree_work Leaf = 0"
| "tree_work (Node c l x r) = tree_work l + tree_work r + 3"

fun frame_work :: "'a frame \<Rightarrow> nat" where
  "frame_work (l, x, r, p) =
     (if p = 0 then tree_work l + tree_work r + 3 else if p = 1 then tree_work r + 2 else 1)"

definition stack_work :: "'a frame list \<Rightarrow> nat" where
  "stack_work st = sum_list (map frame_work st)"

lemma it_step_work: "st \<noteq> [] \<Longrightarrow> stack_work (it_step st) < stack_work st"
proof (induction st rule: it_step.induct)
  case 1
  then show ?case by simp
next
  case (2 l x r p st)
  have "stack_work (push_node t st') = tree_work t + stack_work st'" for t :: "'a rbtree" and st'
    by (cases t) (simp_all add: stack_work_def)
  then show ?case by (auto simp: stack_work_def)
qed

definition it_at :: "nat \<Rightarrow> 'a frame list \<Rightarrow> 'a option" where
  "it_at order st = (case st of [] \<Rightarrow> None
     | (l, x, r, p) # _ \<Rightarrow> if order = p then Some x else None)"

function it_compute_current_elem :: "nat \<Rightarrow> 'a frame list \<Rightarrow> 'a option \<times> 'a frame list" where
  "it_compute_current_elem order st =
     (if st = [] then (None, [])
      else (case it_at order (it_step st) of
              Some x \<Rightarrow> (Some x, it_step st)
            | None \<Rightarrow> it_compute_current_elem order (it_step st)))"
  by pat_completeness auto
termination
  by (relation "measure (\<lambda>(order, st). stack_work st)") (auto simp: it_step_work)

declare it_compute_current_elem.simps [simp del]

text \<open>\<open>sglib__..._it_init\<close> (without \<open>equalto\<close>) and \<open>sglib_..._it_next\<close>.\<close>

definition it_init_order :: "nat \<Rightarrow> 'a rbtree \<Rightarrow> 'a iterator" where
  "it_init_order order t =
     (case t of
        Leaf \<Rightarrow> \<lparr>it_current = None, it_stack = [], it_order = order\<rparr>
      | Node c l x r \<Rightarrow>
          (if order = 0
           then \<lparr>it_current = Some x, it_stack = [(l, x, r, 0)], it_order = order\<rparr>
           else (case it_compute_current_elem order [(l, x, r, 0)] of
                   (cur, st) \<Rightarrow> \<lparr>it_current = cur, it_stack = st, it_order = order\<rparr>)))"

definition it_next :: "'a iterator \<Rightarrow> 'a iterator" where
  "it_next it = (case it_compute_current_elem (it_order it) (it_stack it) of
     (cur, st) \<Rightarrow> it\<lparr>it_current := cur, it_stack := st\<rparr>)"

definition it_init_inorder :: "'a rbtree \<Rightarrow> 'a iterator" where
  "it_init_inorder t = it_init_order 1 t"

lemma it_compute_work:
  "it_compute_current_elem order st = (Some x, st') \<Longrightarrow> stack_work st' < stack_work st"
proof (induction order st rule: it_compute_current_elem.induct)
  case (1 order st)
  show ?case
  proof (cases "st = [] \<or> it_at order (it_step st) \<noteq> None")
    case True
    with "1.prems" show ?thesis
      by (subst (asm) it_compute_current_elem.simps)
        (auto simp: it_step_work split: option.splits if_splits)
  next
    case False
    with 1 have "stack_work st' < stack_work (it_step st)"
      by (subst (asm) (2) it_compute_current_elem.simps) auto
    also from False have "\<dots> < stack_work st" by (simp add: it_step_work)
    finally show ?thesis .
  qed
qed

lemma it_compute_None: "it_compute_current_elem order st = (None, st') \<Longrightarrow> st' = []"
  by (induction order st rule: it_compute_current_elem.induct)
    (subst (asm) (2) it_compute_current_elem.simps, auto split: if_splits option.splits)

text \<open>
  The loop \<open>for (dp = it_init(&itr, t); dp != NULL; dp = it_next(&itr))\<close>: the list of the
  elements it visits.
\<close>

function it_collect :: "'a iterator \<Rightarrow> 'a list" where
  "it_collect it =
     (case it_current it of None \<Rightarrow> [] | Some x \<Rightarrow> x # it_collect (it_next it))"
  by pat_completeness auto
termination
proof (relation "measure (\<lambda>it. stack_work (it_stack it) + (if it_current it = None then 0 else 1))")
  show "wf (measure (\<lambda>it. stack_work (it_stack it) + (if it_current it = None then 0 else 1)))"
    by simp
next
  fix it :: "'a iterator" and x
  assume "it_current it = Some x"
  moreover obtain cur st where c: "it_compute_current_elem (it_order it) (it_stack it) = (cur, st)"
    by fastforce
  moreover have "stack_work st + (if cur = None then 0 else 1) \<le> stack_work (it_stack it)"
  proof (cases cur)
    case None
    with c have "st = []" using it_compute_None by blast
    with None show ?thesis by (simp add: stack_work_def)
  next
    case (Some y)
    with c show ?thesis using it_compute_work by fastforce
  qed
  ultimately show "(it_next it, it) \<in> measure (\<lambda>it. stack_work (it_stack it) + (if it_current it = None then 0 else 1))"
    by (simp add: it_next_def)
qed

declare it_collect.simps [simp del]

section \<open>The traversal behind sglib_len\<close>

text \<open>
  \<open>SGLIB___BIN_TREE_MAP_ON_ELEMENTS\<close> with \<open>order = 1\<close> and the command \<open>n++\<close>. A stack entry is
  (\<open>_right_\<close>, \<open>_pass_\<close>), the top first: the inner \<open>while\<close> pushes the left spine, the
  \<open>do ... while\<close> loop pops until an entry with a right subtree or the bottom.
\<close>

type_synonym 'a len_stack = "('a rbtree \<times> nat) list"

fun len_push :: "'a rbtree \<Rightarrow> 'a len_stack \<Rightarrow> 'a len_stack" where
  "len_push Leaf st = st"
| "len_push (Node c l x r) st = len_push l ((r, 0) # st)"

fun len_pop :: "'a len_stack \<Rightarrow> nat \<Rightarrow> 'a rbtree \<times> 'a len_stack \<times> nat" where
  "len_pop [] n = (Leaf, [], n)"
| "len_pop ((r, p) # st) n =
     (let n' = (if p = 0 then Suc n else n)
      in if st \<noteq> [] \<and> r = Leaf then len_pop st n' else (r, (Leaf, Suc p) # st, n'))"

definition stack_size :: "'a len_stack \<Rightarrow> nat" where
  "stack_size st = sum_list (map (\<lambda>(r, p). length (tree_inorder r)) st)"

lemma stack_size_simps [simp]:
  "stack_size [] = 0"
  "stack_size ((r, p) # st) = length (tree_inorder r) + stack_size st"
  by (simp_all add: stack_size_def)

lemma stack_size_push:
  "stack_size (len_push t st) + (if t = Leaf then 0 else 1) \<le> length (tree_inorder t) + stack_size st"
proof (induction t st rule: len_push.induct)
  case (2 c l x r st)
  then show ?case by (cases "l = Leaf") auto
qed simp

lemma stack_size_pop:
  "len_pop st n = (t, st', n') \<Longrightarrow> length (tree_inorder t) + stack_size st' \<le> stack_size st"
proof (induction st n arbitrary: t st' n' rule: len_pop.induct)
  case (2 r p st n)
  then show ?case by (fastforce simp: Let_def split: if_splits)
qed auto

function len_loop :: "'a rbtree \<Rightarrow> 'a len_stack \<Rightarrow> nat \<Rightarrow> nat" where
  "len_loop cn st n =
     (if cn = Leaf then n
      else (case len_pop (len_push cn st) n of (cn', st', n') \<Rightarrow> len_loop cn' st' n'))"
  by pat_completeness auto
termination
proof (relation "measure (\<lambda>(cn, st, n). length (tree_inorder cn) + stack_size st)", goal_cases)
  case 1
  show ?case by simp
next
  case (2 cn st n cn' res st' n')
  then have "len_pop (len_push cn st) n = (cn', st', n')" by simp
  from stack_size_pop [OF this] stack_size_push [of cn st] 2(1) show ?case by simp
qed

declare len_loop.simps [simp del]

definition sglib_len :: "'a rbtree \<Rightarrow> nat" where
  "sglib_len t = len_loop t [] 0"

definition stack_count :: "'a len_stack \<Rightarrow> nat" where
  "stack_count st = sum_list (map (\<lambda>(r, p). length (tree_inorder r) + (if p = 0 then 1 else 0)) st)"

lemma stack_count_push: "stack_count (len_push t st) = length (tree_inorder t) + stack_count st"
  by (induction t st rule: len_push.induct) (auto simp: stack_count_def)

lemma stack_count_pop:
  "len_pop st n = (t, st', n') \<Longrightarrow>
   n' + length (tree_inorder t) + stack_count st' = n + stack_count st \<and> (t = Leaf \<longrightarrow> stack_count st' = 0)"
proof (induction st n arbitrary: t st' n' rule: len_pop.induct)
  case (2 r p st n)
  show ?case
  proof (cases "st \<noteq> [] \<and> r = Leaf")
    case True
    with 2 show ?thesis by (fastforce simp: stack_count_def Let_def)
  next
    case False
    with "2.prems" show ?thesis by (auto simp: stack_count_def Let_def)
  qed
qed (auto simp: stack_count_def)

lemma len_loop_count:
  "(cn = Leaf \<longrightarrow> stack_count st = 0) \<Longrightarrow>
   len_loop cn st n = n + length (tree_inorder cn) + stack_count st"
proof (induction cn st n rule: len_loop.induct)
  case (1 cn st n)
  show ?case
  proof (cases "cn = Leaf")
    case True
    with 1 show ?thesis by (simp add: len_loop.simps)
  next
    case False
    obtain cn' st' n' where p: "len_pop (len_push cn st) n = (cn', st', n')"
      by (metis prod_cases3)
    with stack_count_pop [OF p] have "cn' = Leaf \<longrightarrow> stack_count st' = 0" by simp
    with "1.IH" [OF False p [symmetric] refl] have
      "len_loop cn' st' n' = n' + length (tree_inorder cn') + stack_count st'" by blast
    with False p stack_count_pop [OF p] show ?thesis
      by (simp add: len_loop.simps [of cn] stack_count_push)
  qed
qed

lemma sglib_len_inorder [simp]: "sglib_len t = length (tree_inorder t)"
  by (simp add: sglib_len_def len_loop_count stack_count_def)

section \<open>The iterator yields the in-order sequence\<close>

text \<open>
  What a stack still has to yield: below the top, an element whose \<open>pass\<close> is 1 is pending (its
  left subtree is being walked); on top it has just been yielded.
\<close>

fun frame_rest :: "'a frame \<Rightarrow> 'a list" where
  "frame_rest (l, x, r, p) =
     (if p = 0 then tree_inorder l @ x # tree_inorder r
      else if p = 1 then x # tree_inorder r else [])"

fun stack_rest :: "'a frame list \<Rightarrow> 'a list" where
  "stack_rest [] = []"
| "stack_rest ((l, x, r, p) # st) =
     (if p = 1 then tree_inorder r else frame_rest (l, x, r, p)) @ concat (map frame_rest st)"

lemma stack_rest_push:
  "stack_rest (push_node t ((l, x, r, Suc p) # st)) =
   (case t of Leaf \<Rightarrow> stack_rest ((l, x, r, Suc p) # st)
    | Node _ _ _ _ \<Rightarrow> tree_inorder t @ frame_rest (l, x, r, Suc p) @ concat (map frame_rest st))"
  by (cases t) auto

lemma it_at_1: "it_at 1 st = Some y \<longleftrightarrow> (\<exists>l r st'. st = (l, y, r, 1) # st')"
  by (auto simp: it_at_def split: list.splits prod.splits)

lemma it_step_rest:
  "st \<noteq> [] \<Longrightarrow> stack_rest st =
     (case it_at 1 (it_step st) of Some x \<Rightarrow> [x] | None \<Rightarrow> []) @ stack_rest (it_step st)"
proof (induction st rule: it_step.induct)
  case 1
  then show ?case by simp
next
  case (2 l x r p st)
  have pop: "concat (map frame_rest st) =
      (case it_at 1 st of Some x \<Rightarrow> [x] | None \<Rightarrow> []) @ stack_rest st"
    by (cases st) (auto simp: it_at_def)
  consider "p = 0" | "p = 1" | "p \<ge> 2" by linarith
  then show ?case
  proof cases
    case 1
    then show ?thesis by (cases l) (auto simp: it_at_def)
  next
    case 2
    then show ?thesis by (cases r) (auto simp: it_at_def)
  next
    case 3
    then show ?thesis using pop by simp
  qed
qed

lemma it_compute_rest:
  "it_compute_current_elem 1 st = (cur, st') \<Longrightarrow>
   stack_rest st = (case cur of Some x \<Rightarrow> [x] | None \<Rightarrow> []) @ stack_rest st'"
proof (induction "1 :: nat" st rule: it_compute_current_elem.induct)
  case (1 st)
  show ?case
  proof (cases "st = []")
    case True
    with "1.prems" show ?thesis by (simp add: it_compute_current_elem.simps)
  next
    case False
    with 1 it_step_rest [OF False] show ?thesis
      by (subst (asm) (2) it_compute_current_elem.simps) (auto split: option.splits)
  qed
qed

lemma it_collect_rest:
  "it_order it = 1 \<Longrightarrow>
   it_collect it = (case it_current it of None \<Rightarrow> [] | Some x \<Rightarrow> x # stack_rest (it_stack it))"
proof (induction it rule: it_collect.induct)
  case (1 it)
  show ?case
  proof (cases "it_current it")
    case None
    then show ?thesis by (simp add: it_collect.simps)
  next
    case (Some x)
    obtain cur st where c: "it_compute_current_elem 1 (it_stack it) = (cur, st)"
      by fastforce
    from 1 Some have "it_collect (it_next it) =
        (case it_current (it_next it) of None \<Rightarrow> [] | Some x \<Rightarrow> x # stack_rest (it_stack (it_next it)))"
      by (auto simp: it_next_def split: prod.splits)
    with it_compute_rest [OF c] it_compute_None [of 1 "it_stack it" st] c Some "1.prems" show ?thesis
      by (subst it_collect.simps) (auto simp: it_next_def split: option.splits)
  qed
qed

lemma it_collect_inorder [simp]: "it_collect (it_init_inorder t) = tree_inorder t"
proof (cases t)
  case Leaf
  then show ?thesis by (simp add: it_init_inorder_def it_init_order_def it_collect_rest)
next
  case (Node c l x r)
  obtain cur st where cst: "it_compute_current_elem 1 [(l, x, r, 0)] = (cur, st)"
    by fastforce
  from it_compute_rest [OF cst] it_compute_None [of 1 "[(l, x, r, 0)]" st] cst Node show ?thesis
    by (cases cur)
      (auto simp: it_init_inorder_def it_init_order_def it_collect_rest split: option.splits)
qed

text \<open>The path never gets longer than the tree is high.\<close>

fun stack_depth_ok :: "nat \<Rightarrow> 'a frame list \<Rightarrow> bool" where
  "stack_depth_ok h [] \<longleftrightarrow> True"
| "stack_depth_ok h ((l, x, r, p) # st) \<longleftrightarrow>
     length st + Suc (max (tree_height l) (tree_height r)) \<le> h \<and> stack_depth_ok h st"

lemma stack_depth_ok_step: "stack_depth_ok h st \<Longrightarrow> stack_depth_ok h (it_step st)"
proof (induction st rule: it_step.induct)
  case (2 l x r p st)
  have "stack_depth_ok h (push_node t st')"
    if "stack_depth_ok h st'" "length st' + tree_height t \<le> h" for t :: "'a rbtree" and st'
    using that by (cases t) auto
  with 2 show ?case by auto
qed simp

lemma stack_depth_ok_compute:
  "stack_depth_ok h st \<Longrightarrow> stack_depth_ok h (snd (it_compute_current_elem order st))"
  by (induction order st rule: it_compute_current_elem.induct)
    (subst it_compute_current_elem.simps, auto simp: stack_depth_ok_step split: option.splits)

lemma stack_depth_ok_length: "stack_depth_ok h st \<Longrightarrow> length st \<le> h"
  by (cases st) auto

section \<open>Red-black invariants\<close>

fun black_height :: "'a rbtree \<Rightarrow> nat" where
  "black_height Leaf = 0"
| "black_height (Node c l x r) = black_height l + (if c = BLACK then 1 else 0)"

fun balanced_black :: "'a rbtree \<Rightarrow> bool" where
  "balanced_black Leaf \<longleftrightarrow> True"
| "balanced_black (Node c l x r) \<longleftrightarrow>
     black_height l = black_height r \<and> balanced_black l \<and> balanced_black r"

fun no_red_red :: "'a rbtree \<Rightarrow> bool" where
  "no_red_red Leaf \<longleftrightarrow> True"
| "no_red_red (Node c l x r) \<longleftrightarrow>
     (c = RED \<longrightarrow> \<not> is_red l \<and> \<not> is_red r) \<and> no_red_red l \<and> no_red_red r"

text \<open>Below a fresh insertion the root alone may be in conflict with one child.\<close>

fun almost_no_red_red :: "'a rbtree \<Rightarrow> bool" where
  "almost_no_red_red Leaf \<longleftrightarrow> True"
| "almost_no_red_red (Node c l x r) \<longleftrightarrow>
     no_red_red l \<and> no_red_red r \<and> (c = RED \<longrightarrow> \<not> (is_red l \<and> is_red r))"

definition red_black :: "'a rbtree \<Rightarrow> bool" where
  "red_black t \<longleftrightarrow> \<not> is_red t \<and> no_red_red t \<and> balanced_black t"

lemma is_red_Node [simp]: "is_red (Node c l x r) \<longleftrightarrow> c = RED"
  by (cases c) auto

lemma not_BLACK [simp]: "c \<noteq> BLACK \<longleftrightarrow> c = RED"
  by (cases c) auto

lemma set_color_simps [simp]:
  "is_red (set_color BLACK t) = False"
  "balanced_black (set_color c t) = balanced_black t"
  "tree_inorder (set_color c t) = tree_inorder t"
  by (cases t; simp)+

lemma no_red_red_set_BLACK: "almost_no_red_red t \<Longrightarrow> no_red_red (set_color BLACK t)"
  by (cases t) auto

lemma no_red_red_almost: "no_red_red t \<Longrightarrow> almost_no_red_red t"
  by (cases t) auto

lemma inorder_fix_left [simp]: "tree_inorder (fix_left_insertion_discrepancy t) = tree_inorder t"
  by (cases t rule: fix_left_insertion_discrepancy.cases)
    (auto split: rbtree.splits color.splits)

lemma inorder_fix_right [simp]: "tree_inorder (fix_right_insertion_discrepancy t) = tree_inorder t"
  by (cases t rule: fix_right_insertion_discrepancy.cases)
    (auto split: rbtree.splits color.splits)

lemma fix_left_invariant:
  assumes "almost_no_red_red l" "no_red_red r" "balanced_black l" "balanced_black r"
    and "black_height l = black_height r"
  shows "no_red_red (fix_left_insertion_discrepancy (Node BLACK l x r)) \<and>
    balanced_black (fix_left_insertion_discrepancy (Node BLACK l x r)) \<and>
    black_height (fix_left_insertion_discrepancy (Node BLACK l x r)) = Suc (black_height l)"
  using assms by (auto split: rbtree.splits color.splits elim: is_red.elims)

lemma fix_right_invariant:
  assumes "no_red_red l" "almost_no_red_red r" "balanced_black l" "balanced_black r"
    and "black_height l = black_height r"
  shows "no_red_red (fix_right_insertion_discrepancy (Node BLACK l x r)) \<and>
    balanced_black (fix_right_insertion_discrepancy (Node BLACK l x r)) \<and>
    black_height (fix_right_insertion_discrepancy (Node BLACK l x r)) = Suc (black_height l)"
  using assms by (auto split: rbtree.splits color.splits elim: is_red.elims)

lemma add_recursive_invariant:
  "no_red_red t \<Longrightarrow> balanced_black t \<Longrightarrow>
   almost_no_red_red (add_recursive cmp plt e t) \<and>
   (\<not> is_red t \<longrightarrow> no_red_red (add_recursive cmp plt e t)) \<and>
   balanced_black (add_recursive cmp plt e t) \<and>
   black_height (add_recursive cmp plt e t) = black_height t"
proof (induction t)
  case Leaf
  then show ?case by simp
next
  case (Node c l x r)
  show ?case
  proof (cases c)
    case BLACK
    with Node fix_left_invariant [of "add_recursive cmp plt e l" r x]
      fix_right_invariant [of l "add_recursive cmp plt e r" x]
    show ?thesis
      by (auto simp: Let_def no_red_red_almost
          simp del: fix_left_insertion_discrepancy.simps fix_right_insertion_discrepancy.simps)
  next
    case RED
    with Node show ?thesis by (auto simp: Let_def)
  qed
qed

lemma sglib_add_red_black: "red_black t \<Longrightarrow> red_black (sglib_add cmp plt t e)"
  using add_recursive_invariant [of t cmp plt e]
  by (simp add: red_black_def sglib_add_def no_red_red_set_BLACK)

section \<open>Height\<close>

lemma height_black_height:
  "no_red_red t \<Longrightarrow> balanced_black t \<Longrightarrow>
   tree_height t \<le> 2 * black_height t + (if is_red t then 1 else 0)"
proof (induction t)
  case (Node c l x r)
  then show ?case by (cases c; cases "is_red l"; cases "is_red r") auto
qed simp

lemma black_height_size:
  "balanced_black t \<Longrightarrow> 2 ^ black_height t \<le> Suc (length (tree_inorder t))"
  by (induction t) auto

lemma red_black_height_bound:
  assumes "red_black t" and "length (tree_inorder t) < 2 ^ n - 1"
  shows "tree_height t < 2 * n"
proof -
  from assms(1) have "tree_height t \<le> 2 * black_height t"
    using height_black_height [of t] by (simp add: red_black_def)
  moreover have "(2 :: nat) ^ black_height t < 2 ^ n"
  proof -
    from assms(1) have "2 ^ black_height t \<le> Suc (length (tree_inorder t))"
      by (simp add: black_height_size red_black_def)
    also from assms(2) have "\<dots> < 2 ^ n" by simp
    finally show ?thesis .
  qed
  then have "black_height t < n" by simp
  ultimately show ?thesis by simp
qed

section \<open>Order and search, for a lawful comparator\<close>

definition tree_ordered :: "('a \<Rightarrow> 'a \<Rightarrow> int) \<Rightarrow> 'a rbtree \<Rightarrow> bool" where
  "tree_ordered cmp t \<longleftrightarrow> sorted_wrt (\<lambda>a b. cmp a b \<le> 0) (tree_inorder t)"

text \<open>
  What the library relies on: the comparator is a total preorder given by the sign of an
  integer, as \<open>strcmp\<close> on a key is.
\<close>

locale sglib_comparator =
  fixes cmp :: "'a \<Rightarrow> 'a \<Rightarrow> int"
  assumes cmp_refl: "cmp a a = 0"
    and cmp_sym: "cmp a b < 0 \<longleftrightarrow> cmp b a > 0"
    and cmp_trans: "cmp a b \<le> 0 \<Longrightarrow> cmp b c \<le> 0 \<Longrightarrow> cmp a c \<le> 0"
begin

lemma cmp_zero_sym: "cmp a b = 0 \<longleftrightarrow> cmp b a = 0"
  using cmp_sym by (metis less_irrefl linorder_cases)

lemma cmp_le_total: "cmp a b \<le> 0 \<or> cmp b a \<le> 0"
  using cmp_sym by (meson linorder_not_le order_less_imp_le)

lemma cmp_less_le: "cmp a b < 0 \<longleftrightarrow> cmp a b \<le> 0 \<and> cmp b a \<noteq> 0"
  using cmp_zero_sym by force

lemma cmp_less_trans: "cmp a b < 0 \<Longrightarrow> cmp b c \<le> 0 \<Longrightarrow> cmp a c < 0"
  by (metis cmp_sym cmp_trans linorder_not_le order_less_imp_le)

lemma ordered_Node:
  "tree_ordered cmp (Node c l x r) \<longleftrightarrow> tree_ordered cmp l \<and> tree_ordered cmp r \<and>
     (\<forall>y \<in> set (tree_inorder l). cmp y x \<le> 0) \<and> (\<forall>y \<in> set (tree_inorder r). cmp x y \<le> 0)"
  by (auto simp: tree_ordered_def sorted_wrt_append intro: cmp_trans)

text \<open>Insertion puts the element between the smaller and the larger ones.\<close>

lemma add_recursive_splits:
  assumes "tree_ordered cmp t"
  shows "\<exists>xs ys. tree_inorder t = xs @ ys \<and> tree_inorder (add_recursive cmp plt e t) = xs @ e # ys \<and>
    (\<forall>x \<in> set xs. cmp x e \<le> 0) \<and> (\<forall>y \<in> set ys. cmp e y \<le> 0)"
  using assms
proof (induction t)
  case Leaf
  then show ?case by simp
next
  case (Node c l x r)
  from Node.prems have ol: "tree_ordered cmp l" and lr: "tree_ordered cmp r"
    and lx: "\<forall>y \<in> set (tree_inorder l). cmp y x \<le> 0"
    and xr: "\<forall>y \<in> set (tree_inorder r). cmp x y \<le> 0"
    by (simp_all add: ordered_Node)
  show ?case
  proof (cases "cmp e x < 0 \<or> (cmp e x = 0 \<and> plt e x)")
    case True
    then have ex: "cmp e x \<le> 0" by auto
    obtain xs ys where "tree_inorder l = xs @ ys" "tree_inorder (add_recursive cmp plt e l) = xs @ e # ys"
      "\<forall>x \<in> set xs. cmp x e \<le> 0" "\<forall>y \<in> set ys. cmp e y \<le> 0"
      using Node.IH(1) [OF ol] by blast
    with True ex xr show ?thesis
      by (intro exI [of _ xs] exI [of _ "ys @ x # tree_inorder r"])
        (auto simp: Let_def intro: cmp_trans
          simp del: fix_left_insertion_discrepancy.simps)
  next
    case False
    then have xe: "cmp x e \<le> 0"
      by (metis cmp_sym cmp_zero_sym linorder_not_le order_less_le)
    obtain xs ys where "tree_inorder r = xs @ ys" "tree_inorder (add_recursive cmp plt e r) = xs @ e # ys"
      "\<forall>x \<in> set xs. cmp x e \<le> 0" "\<forall>y \<in> set ys. cmp e y \<le> 0"
      using Node.IH(2) [OF lr] by blast
    with False xe lx show ?thesis
      by (intro exI [of _ "tree_inorder l @ x # xs"] exI [of _ ys])
        (auto simp: Let_def intro: cmp_trans
          simp del: fix_right_insertion_discrepancy.simps)
  qed
qed

lemma sglib_add_splits:
  assumes "tree_ordered cmp t"
  shows "\<exists>xs ys. tree_inorder t = xs @ ys \<and> tree_inorder (sglib_add cmp plt t e) = xs @ e # ys \<and>
    (\<forall>x \<in> set xs. cmp x e \<le> 0) \<and> (\<forall>y \<in> set ys. cmp e y \<le> 0)"
  using add_recursive_splits [OF assms] by (simp add: sglib_add_def)

lemma sglib_add_ordered: "tree_ordered cmp t \<Longrightarrow> tree_ordered cmp (sglib_add cmp plt t e)"
  using sglib_add_splits [of t plt e]
  by (auto simp: tree_ordered_def sorted_wrt_append)

lemma sglib_add_mset:
  "tree_ordered cmp t \<Longrightarrow> mset (tree_inorder (sglib_add cmp plt t e)) = add_mset e (mset (tree_inorder t))"
  using sglib_add_splits [of t plt e] by auto

lemma find_member_Some:
  "sglib_find_member cmp t e = Some x \<Longrightarrow> x \<in> set (tree_inorder t) \<and> cmp e x = 0"
  by (induction t) (auto split: if_splits)

lemma find_member_None:
  "tree_ordered cmp t \<Longrightarrow> sglib_find_member cmp t e = None \<Longrightarrow> x \<in> set (tree_inorder t) \<Longrightarrow> cmp e x \<noteq> 0"
proof (induction t)
  case (Node c l y r)
  then have o: "tree_ordered cmp l" "tree_ordered cmp r" by (simp_all add: ordered_Node)
  from Node.prems(1) have lx: "\<forall>z \<in> set (tree_inorder l). cmp z y \<le> 0"
    and xr: "\<forall>z \<in> set (tree_inorder r). cmp y z \<le> 0" by (simp_all add: ordered_Node)
  consider "cmp e y < 0" | "cmp e y > 0" using Node.prems(2) by (force split: if_splits)
  then show ?case
  proof cases
    case 1
    then have "cmp e z < 0" if "z \<in> set (tree_inorder r)" for z
      using that xr cmp_less_trans by blast
    with 1 Node o show ?thesis by fastforce
  next
    case 2
    then have "cmp y e < 0" using cmp_sym by blast
    then have "cmp z e < 0" if "z \<in> set (tree_inorder l)" for z
      using that lx by (metis cmp_sym cmp_trans linorder_not_le order_less_imp_le)
    then have "cmp e z > 0" if "z \<in> set (tree_inorder l)" for z
      using that cmp_sym by blast
    with 2 Node o show ?thesis by fastforce
  qed
qed simp

lemma consistency_check_recursive_ok:
  "tree_ordered cmp t \<Longrightarrow> no_red_red t \<Longrightarrow> balanced_black t \<Longrightarrow> 0 \<le> d \<Longrightarrow>
   p < 0 \<or> p = d + int (black_height t) \<Longrightarrow>
   consistency_check_recursive cmp t p d = Some (d + int (black_height t))"
proof (induction t arbitrary: p d)
  case (Node c l x r)
  then have o: "tree_ordered cmp l" "tree_ordered cmp r" by (simp_all add: ordered_Node)
  have "\<forall>y \<in> set_option (root_elem l). cmp y x \<le> 0"
    using Node.prems(1) by (cases l) (auto simp: ordered_Node)
  moreover have "\<forall>y \<in> set_option (root_elem r). cmp x y \<le> 0"
    using Node.prems(1) by (cases r) (auto simp: ordered_Node)
  ultimately show ?case using Node o by (cases c) auto
qed auto

lemma consistency_check_ok: "tree_ordered cmp t \<Longrightarrow> red_black t \<Longrightarrow> consistency_check cmp t"
  by (simp add: consistency_check_def red_black_def consistency_check_recursive_ok)

end

section \<open>The iterator's arrays are long enough\<close>

abbreviation SGLIB_MAX_TREE_DEEP :: nat where "SGLIB_MAX_TREE_DEEP \<equiv> 128"

lemma it_init_depth: "stack_depth_ok (tree_height t) (it_stack (it_init_inorder t))"
proof (cases t)
  case Leaf
  then show ?thesis by (simp add: it_init_inorder_def it_init_order_def)
next
  case (Node c l x r)
  then have "stack_depth_ok (tree_height t) [(l, x, r, 0)]" by simp
  from stack_depth_ok_compute [OF this, of 1] Node show ?thesis
    by (simp add: it_init_inorder_def it_init_order_def case_prod_beta)
qed

lemma it_next_depth: "stack_depth_ok h (it_stack it) \<Longrightarrow> stack_depth_ok h (it_stack (it_next it))"
  using stack_depth_ok_compute [of h "it_stack it" "it_order it"] by (simp add: it_next_def case_prod_beta)

lemma it_steps_depth: "stack_depth_ok (tree_height t) (it_stack ((it_next ^^ n) (it_init_inorder t)))"
  by (induction n) (simp_all add: it_init_depth it_next_depth)

text \<open>
  C23: The red-black tree stays balanced and its iterator never runs out of its array. Insertion keeps
  the red-black invariant; a tree with fewer than \<open>2^64 - 1\<close> elements is less than
  \<open>SGLIB_MAX_TREE_DEEP\<close> high; and the path of the iterator, at its start and after any number of
  steps, is at most as long as the tree is high, so it stays within the fixed array.
\<close>

theorem rbtree_iterator_fits:
  assumes "red_black t" "length (tree_inorder t) < 2 ^ 64 - 1"
  shows "red_black (sglib_add cmp plt t e) \<and>
    length (it_stack ((it_next ^^ n) (it_init_inorder t))) < SGLIB_MAX_TREE_DEEP"
proof
  show "red_black (sglib_add cmp plt t e)" using assms(1) by (rule sglib_add_red_black)
  have "length (it_stack ((it_next ^^ n) (it_init_inorder t))) \<le> tree_height t"
    by (rule stack_depth_ok_length [OF it_steps_depth])
  also have "\<dots> < 2 * 64" using assms by (rule red_black_height_bound)
  finally show "length (it_stack ((it_next ^^ n) (it_init_inorder t))) < SGLIB_MAX_TREE_DEEP" by simp
qed

theorem rbtree_iterator_fits_witness:
  "red_black (Node BLACK Leaf (1 :: int) Leaf) \<and>
   red_black (sglib_add (-) (\<lambda>_ _. False) (Node BLACK Leaf (1 :: int) Leaf) 2) \<and>
   length (it_stack ((it_next ^^ 3) (it_init_inorder (Node BLACK Leaf (1 :: int) Leaf)))) < SGLIB_MAX_TREE_DEEP"
proof -
  have "red_black (Node BLACK Leaf (1 :: int) Leaf)" by (simp add: red_black_def)
  with rbtree_iterator_fits [of "Node BLACK Leaf (1 :: int) Leaf"] show ?thesis by simp
qed

end
