(* ===== verification/Libvdev_Params.thy ===== *)
theory Libvdev_Params
  imports Sglib_RBTree
begin

text \<open>
  \<^verbatim>\<open>libvdev/param.c\<close>: sets of named string parameters (\<open>vdev_params\<close>), red-black trees of
  key/value nodes compared by \<open>strcmp\<close> on the key.

  The locale \<open>param_set\<close> is the interface the rest of vdev relies on (OS parameters of a
  device request, helper variables of an action, OS-specific configuration): a finite map from
  keys to values that is listed in ascending key order. It is interpreted on the tree
  operations of \<open>Sglib_RBTree\<close>, which discharges its laws for the code.
\<close>

section \<open>The interface\<close>

locale param_set =
  fixes empty :: 's
    and lookup :: "'s \<Rightarrow> cstr \<Rightarrow> cstr option"
    and insert :: "'s \<Rightarrow> cstr \<Rightarrow> cstr \<Rightarrow> 's"
    and items :: "'s \<Rightarrow> (cstr \<times> cstr) list"
    and invar :: "'s \<Rightarrow> bool"
  assumes invar_empty: "invar empty"
    and items_empty: "items empty = []"
    and invar_insert: "invar s \<Longrightarrow> lookup s k = None \<Longrightarrow> invar (insert s k v)"
    and lookup_insert: "invar s \<Longrightarrow> lookup s k = None \<Longrightarrow> lookup (insert s k v) = (lookup s)(k \<mapsto> v)"
    and lookup_items: "invar s \<Longrightarrow> lookup s = map_of (items s)"
    and items_sorted: "invar s \<Longrightarrow> sorted_wrt (<) (map fst (items s))"
begin

lemma items_distinct: "invar s \<Longrightarrow> distinct (map fst (items s))"
  using items_sorted strict_sorted_iff by blast

lemma lookup_empty: "lookup empty = Map.empty"
  by (simp add: invar_empty items_empty lookup_items)

lemma mem_items: "invar s \<Longrightarrow> (k, v) \<in> set (items s) \<longleftrightarrow> lookup s k = Some v"
  by (simp add: items_distinct lookup_items)

lemma dom_lookup: "invar s \<Longrightarrow> dom (lookup s) = fst ` set (items s)"
  by (simp add: dom_map_of_conv_image_fst lookup_items)

text \<open>The listing is determined by the map: the order of insertion does not show.\<close>

lemma items_canonical:
  assumes "invar s" "invar s'" "lookup s = lookup s'"
  shows "items s = items s'"
proof -
  have keys: "items r = map (\<lambda>k. (k, the (lookup r k))) (map fst (items r))" if "invar r" for r
    using that mem_items by (force simp: comp_def intro!: map_idI [symmetric])
  have "set (map fst (items s)) = set (map fst (items s'))"
    using assms dom_lookup by (metis set_map)
  then have "map fst (items s) = map fst (items s')"
    using assms items_sorted strict_sorted_equal by blast
  with keys [OF assms(1)] keys [OF assms(2)] assms(3) show ?thesis by metis
qed

end

section \<open>Parameter sets of vdev\<close>

type_synonym param = "cstr \<times> cstr"
type_synonym vdev_params = "param rbtree"

definition VDEV_PARAM_CMP :: "param \<Rightarrow> param \<Rightarrow> int" where
  "VDEV_PARAM_CMP dp1 dp2 = strcmp (fst dp1) (fst dp2)"

interpretation param_cmp: sglib_comparator VDEV_PARAM_CMP
proof unfold_locales
  show "VDEV_PARAM_CMP a a = 0" for a
    by (simp add: VDEV_PARAM_CMP_def)
  show "VDEV_PARAM_CMP a b < 0 \<longleftrightarrow> VDEV_PARAM_CMP b a > 0" for a b
    by (simp add: VDEV_PARAM_CMP_def cstr_simps)
  show "VDEV_PARAM_CMP a b \<le> 0 \<Longrightarrow> VDEV_PARAM_CMP b c \<le> 0 \<Longrightarrow> VDEV_PARAM_CMP a c \<le> 0" for a b c
    by (simp add: VDEV_PARAM_CMP_def strcmp_le)
qed

text \<open>Look-up by key, as every caller does it: a \<open>lookup\<close> node with only the key filled in.\<close>

definition vdev_params_lookup :: "vdev_params \<Rightarrow> cstr \<Rightarrow> cstr option" where
  "vdev_params_lookup params key =
     map_option snd (sglib_find_member VDEV_PARAM_CMP params (key, []))"

definition vdev_params_items :: "vdev_params \<Rightarrow> param list" where
  "vdev_params_items params = it_collect (it_init_inorder params)"

definition vdev_params_invar :: "vdev_params \<Rightarrow> bool" where
  "vdev_params_invar params \<longleftrightarrow> red_black params \<and>
     sorted_wrt (\<lambda>a b. fst a < fst b) (tree_inorder params)"

text \<open>
  \<open>vdev_params_add\<close>. The three allocations (node, key, value) succeed or fail as \<open>alloc\<close> says;
  \<open>plt\<close> compares node addresses (see \<open>Sglib_RBTree\<close>).
\<close>

definition vdev_params_add_mem ::
  "bool \<times> bool \<times> bool \<Rightarrow> (param \<Rightarrow> param \<Rightarrow> bool) \<Rightarrow> vdev_params \<Rightarrow> cstr \<Rightarrow> cstr \<Rightarrow> rc \<times> vdev_params" where
  "vdev_params_add_mem alloc plt params key val =
     (case sglib_find_member VDEV_PARAM_CMP params (key, []) of
        Some _ \<Rightarrow> (- EEXIST, params)
      | None \<Rightarrow>
          (case alloc of (node_ok, key_ok, value_ok) \<Rightarrow>
             if \<not> node_ok then (- ENOMEM, params)
             else if \<not> key_ok then (- ENOMEM, params)
             else if \<not> value_ok then (- ENOMEM, params)
             else (0, sglib_add VDEV_PARAM_CMP plt params (key, val))))"

text \<open>The clients of parameter sets are modelled with an allocator that does not fail.\<close>

definition vdev_params_add :: "vdev_params \<Rightarrow> cstr \<Rightarrow> cstr \<Rightarrow> rc \<times> vdev_params" where
  "vdev_params_add params key val =
     vdev_params_add_mem (True, True, True) (\<lambda>_ _. False) params key val"

lemma params_invar_ordered: "vdev_params_invar p \<Longrightarrow> tree_ordered VDEV_PARAM_CMP p"
  using sorted_wrt_mono_rel [of "tree_inorder p" "\<lambda>a b. fst a < fst b" "\<lambda>a b. VDEV_PARAM_CMP a b \<le> 0"]
  by (simp add: vdev_params_invar_def tree_ordered_def VDEV_PARAM_CMP_def strcmp_le)

lemma params_items_inorder [simp]: "vdev_params_items p = tree_inorder p"
  by (simp add: vdev_params_items_def)

lemma params_lookup_map_of:
  assumes "vdev_params_invar p"
  shows "vdev_params_lookup p = map_of (tree_inorder p)"
proof (rule ext)
  fix k
  from assms have sorted: "sorted_wrt (<) (map fst (tree_inorder p))"
    by (simp add: vdev_params_invar_def sorted_wrt_map)
  show "vdev_params_lookup p k = map_of (tree_inorder p) k"
  proof (cases "sglib_find_member VDEV_PARAM_CMP p (k, [])")
    case None
    then have "k \<noteq> fst x" if "x \<in> set (tree_inorder p)" for x
      using param_cmp.find_member_None [OF params_invar_ordered [OF assms] None that]
      by (auto simp: VDEV_PARAM_CMP_def)
    then have "map_of (tree_inorder p) k = None" by (auto simp: map_of_eq_None_iff)
    with None show ?thesis by (simp add: vdev_params_lookup_def)
  next
    case (Some x)
    then have "x \<in> set (tree_inorder p)" "fst x = k"
      using param_cmp.find_member_Some [OF Some] by (simp_all add: VDEV_PARAM_CMP_def)
    moreover have "distinct (map fst (tree_inorder p))"
      using sorted strict_sorted_iff by blast
    ultimately have "map_of (tree_inorder p) k = Some (snd x)" by (metis map_of_eq_Some_iff prod.collapse)
    with Some show ?thesis by (simp add: vdev_params_lookup_def)
  qed
qed

lemma params_add_tree:
  assumes "vdev_params_invar p" and "vdev_params_lookup p k = None"
  shows "vdev_params_invar (sglib_add VDEV_PARAM_CMP plt p (k, v))"
    and "map_of (tree_inorder (sglib_add VDEV_PARAM_CMP plt p (k, v))) = (map_of (tree_inorder p))(k \<mapsto> v)"
proof -
  let ?t = "sglib_add VDEV_PARAM_CMP plt p (k, v)"
  obtain xs ys where p: "tree_inorder p = xs @ ys" and t: "tree_inorder ?t = xs @ (k, v) # ys"
    and le: "\<forall>x \<in> set xs. VDEV_PARAM_CMP x (k, v) \<le> 0" "\<forall>y \<in> set ys. VDEV_PARAM_CMP (k, v) y \<le> 0"
    using param_cmp.sglib_add_splits [OF params_invar_ordered [OF assms(1)]] by blast
  have "k \<notin> fst ` set (tree_inorder p)"
    using assms params_lookup_map_of by (metis map_of_eq_None_iff)
  with p le have lt: "\<forall>x \<in> set xs. fst x < k" "\<forall>y \<in> set ys. k < fst y"
    by (auto simp: VDEV_PARAM_CMP_def strcmp_le order_less_le)
  have "sorted_wrt (\<lambda>a b. fst a < fst b) (xs @ (k, v) # ys)"
    using assms(1) p lt by (fastforce simp: vdev_params_invar_def sorted_wrt_append)
  with t assms(1) show "vdev_params_invar ?t"
    by (simp add: vdev_params_invar_def sglib_add_red_black)
  from lt have "map_of xs k = None" by (fastforce simp: map_of_eq_None_iff)
  then show "map_of (tree_inorder ?t) = (map_of (tree_inorder p))(k \<mapsto> v)"
    unfolding t p by (auto simp: fun_eq_iff map_add_def split: option.splits)
qed

interpretation params: param_set Leaf vdev_params_lookup
  "\<lambda>p k v. sglib_add VDEV_PARAM_CMP plt p (k, v)" vdev_params_items vdev_params_invar for plt
proof unfold_locales
  show "vdev_params_invar Leaf"
    by (simp add: vdev_params_invar_def red_black_def)
  show "vdev_params_items Leaf = []"
    by simp
next
  fix s :: vdev_params and k v :: cstr
  assume s: "vdev_params_invar s"
  then show "vdev_params_lookup s = map_of (vdev_params_items s)"
    by (simp add: params_lookup_map_of)
  from s show "sorted_wrt (<) (map fst (vdev_params_items s))"
    by (simp add: vdev_params_invar_def sorted_wrt_map)
  assume n: "vdev_params_lookup s k = None"
  with s show i: "vdev_params_invar (sglib_add VDEV_PARAM_CMP plt s (k, v))"
    by (rule params_add_tree)
  show "vdev_params_lookup (sglib_add VDEV_PARAM_CMP plt s (k, v)) = (vdev_params_lookup s)(k \<mapsto> v)"
    using params_add_tree(2) [OF s n] params_lookup_map_of [OF i] params_lookup_map_of [OF s] by simp
qed

text \<open>What \<open>vdev_params_add\<close> does, over the abstraction.\<close>

lemma params_add_cases:
  assumes "vdev_params_invar p"
  shows "vdev_params_add p k v =
    (case vdev_params_lookup p k of
       Some _ \<Rightarrow> (- EEXIST, p)
     | None \<Rightarrow> (0, sglib_add VDEV_PARAM_CMP (\<lambda>_ _. False) p (k, v)))"
  by (simp add: vdev_params_add_def vdev_params_add_mem_def vdev_params_lookup_def split: option.splits)

lemma params_add_invar: "vdev_params_invar p \<Longrightarrow> vdev_params_invar (snd (vdev_params_add p k v))"
  using params.invar_insert [of p k "\<lambda>_ _. False" v] by (simp add: params_add_cases split: option.splits)

lemma params_add_rc: "fst (vdev_params_add p k v) \<le> 0"
  by (simp add: vdev_params_add_def vdev_params_add_mem_def split: option.splits)

lemma params_add_lookup:
  assumes "vdev_params_invar p"
  shows "vdev_params_lookup (snd (vdev_params_add p k v)) =
    (if vdev_params_lookup p k = None then (vdev_params_lookup p)(k \<mapsto> v) else vdev_params_lookup p)"
  using params.lookup_insert [OF assms, of k "\<lambda>_ _. False" v] assms
  by (auto simp: params_add_cases split: option.splits)

text \<open>
  C22: A parameter set is a finite map with first-wins insertion. On a well-formed set,
  \<open>vdev_params_add\<close> returns 0 and binds a new key, or returns \<open>-EEXIST\<close> and changes nothing when
  the key is bound already; the result is well-formed; and iterating over it yields each binding
  once, in increasing order of the keys.
\<close>

theorem params_add_contract:
  assumes "vdev_params_invar p"
  shows "vdev_params_invar (snd (vdev_params_add p k v)) \<and>
    (if vdev_params_lookup p k = None
     then fst (vdev_params_add p k v) = 0 \<and> vdev_params_lookup (snd (vdev_params_add p k v)) = (vdev_params_lookup p)(k \<mapsto> v)
     else vdev_params_add p k v = (- EEXIST, p)) \<and>
    sorted_wrt (<) (map fst (vdev_params_items (snd (vdev_params_add p k v)))) \<and>
    map_of (vdev_params_items (snd (vdev_params_add p k v))) = vdev_params_lookup (snd (vdev_params_add p k v))"
proof -
  have i: "vdev_params_invar (snd (vdev_params_add p k v))" using assms by (rule params_add_invar)
  moreover have "if vdev_params_lookup p k = None
     then fst (vdev_params_add p k v) = 0 \<and> vdev_params_lookup (snd (vdev_params_add p k v)) = (vdev_params_lookup p)(k \<mapsto> v)
     else vdev_params_add p k v = (- EEXIST, p)"
    using params_add_lookup [OF assms, of k v] by (auto simp: params_add_cases [OF assms])
  moreover have "sorted_wrt (<) (map fst (vdev_params_items (snd (vdev_params_add p k v))))"
    using params.items_sorted [OF i] .
  moreover have "map_of (vdev_params_items (snd (vdev_params_add p k v))) = vdev_params_lookup (snd (vdev_params_add p k v))"
    using params.lookup_items [OF i] by simp
  ultimately show ?thesis by blast
qed

theorem params_add_contract_witness:
  "vdev_params_lookup (snd (vdev_params_add (snd (vdev_params_add Leaf ''a'' ''1'')) ''b'' ''2'')) = [''a'' \<mapsto> ''1'', ''b'' \<mapsto> ''2''] \<and>
   vdev_params_add (snd (vdev_params_add Leaf ''a'' ''1'')) ''a'' ''2'' = (- EEXIST, snd (vdev_params_add Leaf ''a'' ''1''))"
  using params_add_contract [OF params.invar_empty, of "''a''" "''1''"]
    params_add_contract [of "snd (vdev_params_add Leaf ''a'' ''1'')" "''a''" "''2''"]
    params_add_contract [of "snd (vdev_params_add Leaf ''a'' ''1'')" "''b''" "''2''"]
  by (simp add: params.lookup_empty)

end
