(* ===== verification/Libvdev_Util.thy ===== *)
theory Libvdev_Util
  imports Vdev_Prelude "HOL-Library.Word"
begin

text \<open>
  \<^verbatim>\<open>libvdev/util.c\<close>: path joining and splitting on C buffers, key/value splitting, number
  parsing, the log levels, and \<open>read\<close>/\<open>write\<close> loops that mask \<open>EINTR\<close>. (The parts of that file
  that act on the file system are in \<open>Vdevd_World\<close>.)

  Writes to a buffer are checked: a write outside of it is the result \<open>Overflow\<close>. The theorems
  show that no call overflows the buffer the function allocates (with one exception, the empty
  path of \<open>vdev_dirname\<close>) and relate the results to the components of a path, the list of
  names between slashes that the kernel resolves.
\<close>

type_synonym mode_t = "32 word"
type_synonym dev_t = "64 word"

section \<open>Buffers\<close>

type_synonym cbuf = "char list"

datatype ptr_result = NullPtr | Buf cbuf | Overflow

definition cstr_of :: "cbuf \<Rightarrow> cstr" where
  "cstr_of b = takeWhile (\<lambda>c. c \<noteq> NUL) b"

text \<open>Store a list of bytes at an offset.\<close>

definition buf_write :: "nat \<Rightarrow> char list \<Rightarrow> cbuf \<Rightarrow> cbuf option" where
  "buf_write off s b =
     (if off + length s \<le> length b then Some (take off b @ s @ drop (off + length s) b) else None)"

definition buf_result :: "cbuf option \<Rightarrow> ptr_result" where
  "buf_result r = (case r of None \<Rightarrow> Overflow | Some b \<Rightarrow> Buf b)"

text \<open>\<open>strcpy\<close>, \<open>strcat\<close> and \<open>strncpy\<close> (which writes exactly \<open>n\<close> bytes, padding with NUL).\<close>

definition buf_strcpy :: "cstr \<Rightarrow> cbuf \<Rightarrow> cbuf option" where
  "buf_strcpy s b = buf_write 0 (s @ [NUL]) b"

definition buf_strcat :: "cstr \<Rightarrow> cbuf \<Rightarrow> cbuf option" where
  "buf_strcat s b = buf_write (length (cstr_of b)) (s @ [NUL]) b"

definition buf_strncpy :: "cstr \<Rightarrow> nat \<Rightarrow> cbuf \<Rightarrow> cbuf option" where
  "buf_strncpy s n b = buf_write 0 (take n s @ replicate (n - length s) NUL) b"

definition calloc :: "nat \<Rightarrow> cbuf" where
  "calloc n = replicate n NUL"

text \<open>Reading \<open>s[i]\<close> of a C string, the terminator included.\<close>

definition char_at :: "cstr \<Rightarrow> nat \<Rightarrow> char" where
  "char_at s i = (if i < length s then s ! i else NUL)"

section \<open>Log levels\<close>

abbreviation (input) VDEV_LOGLEVEL_DEBUG :: int where "VDEV_LOGLEVEL_DEBUG \<equiv> 2"
abbreviation (input) VDEV_LOGLEVEL_INFO :: int where "VDEV_LOGLEVEL_INFO \<equiv> 1"
abbreviation (input) VDEV_LOGLEVEL_NONE :: int where "VDEV_LOGLEVEL_NONE \<equiv> 0"
abbreviation (input) VDEV_LOGLEVEL_WARN :: int where "VDEV_LOGLEVEL_WARN \<equiv> 2"
abbreviation (input) VDEV_LOGLEVEL_ERROR :: int where "VDEV_LOGLEVEL_ERROR \<equiv> 1"

record log_levels =
  debug_messages :: int
  info_messages :: int
  warn_messages :: int
  error_messages :: int

definition default_log_levels :: log_levels where
  "default_log_levels = \<lparr>debug_messages = 0, info_messages = 0, warn_messages = 1, error_messages = 1\<rparr>"

definition vdev_set_debug_level :: "int \<Rightarrow> log_levels \<Rightarrow> log_levels" where
  "vdev_set_debug_level d l =
     (let l1 = (if d \<ge> 1 then l\<lparr>info_messages := 1\<rparr> else l)
      in if d \<ge> 2 then l1\<lparr>debug_messages := 1\<rparr> else l1)"

definition vdev_set_error_level :: "int \<Rightarrow> log_levels \<Rightarrow> log_levels" where
  "vdev_set_error_level e l =
     (let l1 = (if e \<ge> 1 then l\<lparr>error_messages := 1\<rparr> else l)
      in if e \<ge> 2 then l1\<lparr>warn_messages := 1\<rparr> else l1)"

definition vdev_get_debug_level :: "log_levels \<Rightarrow> int" where
  "vdev_get_debug_level l = debug_messages l + info_messages l"

definition vdev_get_error_level :: "log_levels \<Rightarrow> int" where
  "vdev_get_error_level l = error_messages l + warn_messages l"

section \<open>Joining paths\<close>

definition vdev_fullpath_buf :: "cstr option \<Rightarrow> cstr option \<Rightarrow> cbuf option \<Rightarrow> ptr_result" where
  "vdev_fullpath_buf root path dest =
     (case (root, path) of
        (Some root, Some path) \<Rightarrow>
          (let len = length path + length root + 2;
               need_delim = (root \<noteq> [] \<and> last root \<noteq> SLASH \<and> char_at path 0 \<noteq> SLASH);
               skip = (root \<noteq> [] \<and> last root = SLASH \<and> char_at path 0 = SLASH);
               len = (if need_delim then len + 1 else len);
               path_off = (if skip then 1 else 0);
               dest = (case dest of None \<Rightarrow> calloc len | Some b \<Rightarrow> b)
           in buf_result
                (do {
                  b \<leftarrow> buf_write 0 (calloc len) dest;
                  b \<leftarrow> buf_strcpy root b;
                  b \<leftarrow> (if need_delim then buf_write (length (cstr_of b)) [SLASH] b else Some b);
                  buf_strcat (drop path_off path) b
                }))
      | _ \<Rightarrow> NullPtr)"

text \<open>The string it returns, for the callers.\<close>

definition vdev_fullpath :: "cstr \<Rightarrow> cstr \<Rightarrow> cstr" where
  "vdev_fullpath root path =
     (if root \<noteq> [] \<and> last root \<noteq> SLASH \<and> char_at path 0 \<noteq> SLASH then root @ SLASH # path
      else if root \<noteq> [] \<and> last root = SLASH \<and> char_at path 0 = SLASH then root @ drop 1 path
      else root @ path)"

section \<open>Splitting paths\<close>

text \<open>The loop \<open>for (; i >= 0; i--) if (path[i] == '/') break;\<close>: the index it stops at.\<close>

fun scan_slash :: "cstr \<Rightarrow> nat \<Rightarrow> int" where
  "scan_slash p 0 = (if char_at p 0 = SLASH then 0 else - 1)"
| "scan_slash p (Suc i) = (if char_at p (Suc i) = SLASH then int (Suc i) else scan_slash p i)"

text \<open>
  \<open>path[delim_i] == '/'\<close> with \<open>delim_i = strlen(path)\<close> reads the terminator, so the first
  decrement never happens; it is kept as the code has it.
\<close>

definition dirname_delim :: "cstr \<Rightarrow> nat" where
  "dirname_delim path =
     (let d0 = length path;
          d1 = (if char_at path d0 = SLASH then d0 - 1 else d0);
          d2 = scan_slash path d1;
          d3 = (if d2 < 0 then 0 else d2)
      in nat (if d3 = 0 \<and> char_at path 0 = SLASH then 1 else d3))"

definition vdev_dirname_buf :: "cstr option \<Rightarrow> cbuf option \<Rightarrow> ptr_result" where
  "vdev_dirname_buf path dest =
     (case path of
        None \<Rightarrow> NullPtr
      | Some path \<Rightarrow>
          (let dest = (case dest of None \<Rightarrow> calloc (length path + 1) | Some b \<Rightarrow> b)
           in if length path = 0 \<or> path = ''/''
              then buf_result (buf_strcpy ''/'' dest)
              else (let delim_i = dirname_delim path
                    in buf_result
                         (do {
                           b \<leftarrow> buf_strncpy path delim_i dest;
                           buf_write (delim_i + 1) [NUL] b
                         }))))"

definition vdev_dirname :: "cstr \<Rightarrow> cstr" where
  "vdev_dirname path =
     (if length path = 0 \<or> path = ''/'' then ''/'' else take (dirname_delim path) path)"

definition vdev_basename_len :: "cstr option \<Rightarrow> nat" where
  "vdev_basename_len path =
     (case path of
        None \<Rightarrow> 0
      | Some path \<Rightarrow>
          (let d0 = int (length path) - 1
           in if d0 \<le> 0 then 0
              else (let d1 = (if char_at path (nat d0) = SLASH then (if d0 > 0 then d0 - 1 else d0) else d0);
                        d2 = scan_slash path (nat d1)
                    in length path - nat (d2 + 1))))"

definition vdev_basename_buf :: "cstr option \<Rightarrow> cbuf option \<Rightarrow> ptr_result" where
  "vdev_basename_buf path dest =
     (case path of
        None \<Rightarrow> NullPtr
      | Some p \<Rightarrow>
          (let len = vdev_basename_len path
           in buf_result
                (do {
                  b \<leftarrow> (case dest of None \<Rightarrow> Some (calloc (len + 1))
                         | Some b \<Rightarrow> buf_write 0 (calloc (len + 1)) b);
                  buf_strncpy (drop (length p - len) p) len b
                })))"

definition vdev_basename :: "cstr \<Rightarrow> cstr" where
  "vdev_basename path = drop (length path - vdev_basename_len (Some path)) path"

section \<open>Key/value pairs and numbers\<close>

text \<open>
  \<open>vdev_keyvalue_next\<close>: the return code (the length of the string) with the key and the value.
\<close>

definition vdev_keyvalue_next :: "cstr \<Rightarrow> rc \<times> (cstr \<times> cstr) option" where
  "vdev_keyvalue_next keyvalue =
     (case strchr keyvalue CHR ''='' of
        None \<Rightarrow> (- EINVAL, None)
      | Some t \<Rightarrow> (int (length keyvalue),
                     Some (take (length keyvalue - length t) keyvalue, drop 1 t)))"

type_synonym uint64 = "64 word"

definition vdev_parse_uint64 :: "cstr \<Rightarrow> uint64 \<times> bool" where
  "vdev_parse_uint64 s =
     (case strtoll 10 s of (v, end) \<Rightarrow> (word_of_int v, \<not> end = s))"

section \<open>Reading and writing with EINTR masked\<close>

text \<open>
  The other end of a descriptor is a script of what the next calls find: an error, or bytes
  that are available (the empty list is end of file). A call takes at most the bytes it asks
  for and leaves the rest. When the script ends the call blocks, and the result is \<open>None\<close>.
  \<open>num_read\<close> is compared as \<open>(unsigned)num_read\<close>, a 32-bit value.
\<close>

datatype io_event = IoError rc | IoData "char list"

fun read_loop ::
  "io_event list \<Rightarrow> nat \<Rightarrow> char list \<Rightarrow> ((rc + char list) \<times> io_event list) option" where
  "read_loop [] len acc = (if length acc mod 2 ^ 32 < len then None else Some (Inr acc, []))"
| "read_loop (ev # evs) len acc =
     (if \<not> length acc mod 2 ^ 32 < len then Some (Inr acc, ev # evs)
      else (case ev of
              IoError e \<Rightarrow> (if e = EINTR then read_loop evs len acc else Some (Inl (- e), evs))
            | IoData bs \<Rightarrow>
                (let got = take (len - length acc) bs
                 in if got = [] then Some (Inr acc, if bs = [] then evs else ev # evs)
                    else if length got < length bs
                      then Some (Inr (acc @ got), IoData (drop (length got) bs) # evs)
                    else read_loop evs len (acc @ got))))"

definition vdev_read_uninterrupted ::
  "io_event list \<Rightarrow> nat \<Rightarrow> ((rc + char list) \<times> io_event list) option" where
  "vdev_read_uninterrupted evs len = read_loop evs len []"

text \<open>For \<open>write\<close>, a script of errors and of the number of bytes each call accepts.\<close>

datatype io_accept = AcceptError rc | Accept nat

fun write_loop :: "io_accept list \<Rightarrow> char list \<Rightarrow> nat \<Rightarrow> char list \<Rightarrow> (rc \<times> char list) option" where
  "write_loop [] buf n out = (if \<not> n mod 2 ^ 32 < length buf then Some (int n, out) else None)"
| "write_loop (ev # evs) buf n out =
     (if \<not> n mod 2 ^ 32 < length buf then Some (int n, out)
      else (case ev of
              AcceptError e \<Rightarrow> (if e = EINTR then write_loop evs buf n out else Some (- e, out))
            | Accept k \<Rightarrow>
                (let nw = min k (length buf - n)
                 in if nw = 0 then Some (int n, out)
                    else write_loop evs buf (n + nw) (out @ take nw (drop n buf)))))"

definition vdev_write_uninterrupted :: "io_accept list \<Rightarrow> char list \<Rightarrow> (rc \<times> char list) option" where
  "vdev_write_uninterrupted evs buf = write_loop evs buf 0 []"

section \<open>Path components\<close>

fun split_on :: "char \<Rightarrow> cstr \<Rightarrow> cstr list" where
  "split_on c [] = [[]]"
| "split_on c (x # xs) =
     (if x = c then [] # split_on c xs
      else (case split_on c xs of [] \<Rightarrow> [[x]] | w # ws \<Rightarrow> (x # w) # ws))"

definition path_components :: "cstr \<Rightarrow> cstr list" where
  "path_components p = filter (\<lambda>w. w \<noteq> []) (split_on SLASH p)"

lemma split_on_nonempty [simp]: "split_on c s \<noteq> []"
  by (cases s) (auto split: list.splits)

lemma split_on_append: "split_on c (a @ c # b) = split_on c a @ split_on c b"
  by (induction a) (auto split: list.splits)

lemma split_on_notin: "c \<notin> set s \<Longrightarrow> split_on c s = [s]"
  by (induction s) auto

lemma split_on_notin_elem: "w \<in> set (split_on c s) \<Longrightarrow> c \<notin> set w"
  by (induction s arbitrary: w) (auto split: if_splits list.splits)

lemma components_Nil [simp]: "path_components [] = []"
  by (simp add: path_components_def)

lemma components_slash: "path_components (a @ SLASH # b) = path_components a @ path_components b"
  by (simp add: path_components_def split_on_append)

lemma components_Cons_slash [simp]: "path_components (SLASH # b) = path_components b"
  using components_slash [of "[]" b] by simp

lemma components_snoc_slash [simp]: "path_components (a @ [SLASH]) = path_components a"
  using components_slash [of a "[]"] by simp

lemma components_name: "w \<noteq> [] \<Longrightarrow> SLASH \<notin> set w \<Longrightarrow> path_components w = [w]"
  by (simp add: path_components_def split_on_notin)

lemma char_at_0 [simp]: "char_at (x # xs) 0 = x" "char_at [] i = NUL"
  by (simp_all add: char_at_def)

lemma fullpath_components:
  "path_components (vdev_fullpath a b) = path_components a @ path_components b"
proof -
  consider (empty) "a = []" | (slash) a' where "a = a' @ [SLASH]" | (name) "a \<noteq> []" "last a \<noteq> SLASH"
    by (cases a rule: rev_cases) auto
  then show ?thesis
  proof cases
    case empty
    then show ?thesis by (simp add: vdev_fullpath_def)
  next
    case slash
    then show ?thesis
      by (cases b) (auto simp: vdev_fullpath_def components_slash)
  next
    case name
    then show ?thesis
      by (cases b) (auto simp: vdev_fullpath_def components_slash)
  qed
qed

section \<open>The joined path fits its buffer\<close>

lemma takeWhile_NUL_free: "NUL \<notin> set s \<Longrightarrow> cstr_of (s @ NUL # t) = s"
  unfolding cstr_of_def by (subst takeWhile_append2) auto

lemma buf_write_calloc:
  "off + length s \<le> n \<Longrightarrow> buf_write off s (calloc n) = Some (calloc off @ s @ calloc (n - (off + length s)))"
  by (simp add: buf_write_def calloc_def)

lemma calloc_Suc: "0 < n \<Longrightarrow> calloc n = NUL # calloc (n - 1)"
  by (cases n) (simp_all add: calloc_def)

lemma calloc_drop [simp]: "drop k (calloc n) = calloc (n - k)" "length (calloc n) = n" "calloc 0 = []"
  by (simp_all add: calloc_def)

text \<open>Writing a string after the string a zeroed buffer holds.\<close>

lemma buf_write_end:
  assumes "NUL \<notin> set s" and "length s + length t \<le> n"
  shows "buf_write (length s) t (s @ calloc (n - length s)) = Some (s @ t @ calloc (n - (length s + length t)))"
  using assms by (simp add: buf_write_def)

lemma cstr_of_calloc: "NUL \<notin> set s \<Longrightarrow> 0 < n \<Longrightarrow> cstr_of (s @ calloc n) = s"
  by (simp add: calloc_Suc takeWhile_NUL_free)

lemma fullpath_buf_fits:
  assumes "NUL \<notin> set r" "NUL \<notin> set p"
  shows "\<exists>b. vdev_fullpath_buf (Some r) (Some p) None = Buf b \<and> cstr_of b = vdev_fullpath r p"
proof -
  let ?d = "r \<noteq> [] \<and> last r \<noteq> SLASH \<and> char_at p 0 \<noteq> SLASH"
  let ?s = "r \<noteq> [] \<and> last r = SLASH \<and> char_at p 0 = SLASH"
  define n where "n = length p + length r + 2 + (if ?d then 1 else 0)"
  define q where "q = drop (if ?s then 1 else 0) p"
  define r' where "r' = r @ (if ?d then [SLASH] else [])"
  have q: "NUL \<notin> set q" "length q \<le> length p" using assms by (auto simp: q_def dest: in_set_dropD)
  have r': "NUL \<notin> set r'" "length r' + length q + 1 < n"
    using assms q by (auto simp: r'_def n_def)
  have nul: "[NUL] @ calloc (n - Suc k) = calloc (n - k)" if "k < n" for k
    using that calloc_Suc [of "n - k"] by simp
  have n: "length r + 1 < n" by (simp add: n_def)
  have 1: "buf_strcpy r (calloc n) = Some (r @ calloc (n - length r))"
    using nul [of "length r"] by (simp add: buf_strcpy_def buf_write_calloc n_def)
  have 2: "(if ?d then buf_write (length (cstr_of (r @ calloc (n - length r)))) [SLASH] (r @ calloc (n - length r))
      else Some (r @ calloc (n - length r))) = Some (r' @ calloc (n - length r'))"
    using assms n cstr_of_calloc [of r "n - length r"] buf_write_end [of r "[SLASH]" n]
    by (auto simp: r'_def)
  have 3: "buf_strcat q (r' @ calloc (n - length r')) = Some (r' @ q @ calloc (n - (length r' + length q)))"
    using r' q cstr_of_calloc [of r' "n - length r'"] buf_write_end [of r' "q @ [NUL]" n]
      nul [of "length r' + length q"] by (simp add: buf_strcat_def)
  have w: "buf_write 0 (calloc n) (calloc n) = Some (calloc n)" by (simp add: buf_write_calloc)
  have e: "vdev_fullpath_buf (Some r) (Some p) None = buf_result (buf_write 0 (calloc n) (calloc n) \<bind>
      (\<lambda>b. buf_strcpy r b \<bind>
      (\<lambda>b. (if ?d then buf_write (length (cstr_of b)) [SLASH] b else Some b) \<bind> buf_strcat q)))"
    unfolding vdev_fullpath_buf_def n_def q_def by (cases ?d; cases ?s) (auto simp: Let_def)
  have "vdev_fullpath_buf (Some r) (Some p) None = Buf (r' @ q @ calloc (n - (length r' + length q)))"
    by (simp only: e w 1 2 3 bind.bind_lunit buf_result_def option.case)
  moreover have "cstr_of (r' @ q @ calloc (n - (length r' + length q))) = r' @ q"
    using cstr_of_calloc [of "r' @ q" "n - (length r' + length q)"] r' q by simp
  moreover have "r' @ q = vdev_fullpath r p"
    by (auto simp: r'_def q_def vdev_fullpath_def)
  ultimately show ?thesis by metis
qed

section \<open>Splitting a path\<close>

lemma scan_slash_none: "(\<forall>j \<le> i. char_at p j \<noteq> SLASH) \<Longrightarrow> scan_slash p i = - 1"
  by (induction p i rule: scan_slash.induct) auto

lemma scan_slash_found:
  "k \<le> i \<Longrightarrow> char_at p k = SLASH \<Longrightarrow> (\<forall>j. k < j \<and> j \<le> i \<longrightarrow> char_at p j \<noteq> SLASH) \<Longrightarrow>
   scan_slash p i = int k"
proof (induction p i rule: scan_slash.induct)
  case (2 p i)
  show ?case
  proof (cases "k = Suc i")
    case True
    with 2 show ?thesis by simp
  next
    case False
    with 2 show ?thesis by auto
  qed
qed simp

lemma char_at_append: "char_at (a @ b) i = (if i < length a then a ! i else char_at b (i - length a))"
  by (auto simp: char_at_def nth_append)

lemma char_at_Cons: "char_at (c # s) i = (if i = 0 then c else char_at s (i - 1))"
  by (auto simp: char_at_def nth_Cons')

lemma char_at_notin: "c \<notin> set s \<Longrightarrow> c \<noteq> NUL \<Longrightarrow> char_at s i \<noteq> c"
  by (metis char_at_def nth_mem)

text \<open>The two shapes of a path: no slash at all, or a directory part and a last name.\<close>

lemma path_shape:
  obtains (name) "SLASH \<notin> set p" | (slash) d b where "p = d @ SLASH # b" "SLASH \<notin> set b"
proof (cases "SLASH \<in> set p")
  case True
  then obtain xs ys where "p = xs @ SLASH # ys" "SLASH \<notin> set ys"
    by (metis split_list_last)
  then show ?thesis by (rule slash)
next
  case False
  then show ?thesis by (rule name)
qed

lemma scan_slash_split:
  assumes "SLASH \<notin> set b" and "length d \<le> i"
  shows "scan_slash (d @ SLASH # b) i = int (length d)"
proof (rule scan_slash_found)
  show "char_at (d @ SLASH # b) (length d) = SLASH" by (simp add: char_at_append)
  show "\<forall>j. length d < j \<and> j \<le> i \<longrightarrow> char_at (d @ SLASH # b) j \<noteq> SLASH"
  proof (intro allI impI)
    fix j assume j: "length d < j \<and> j \<le> i"
    then have "char_at (d @ SLASH # b) j = char_at b (j - length d - 1)"
      by (auto simp: char_at_append char_at_Cons)
    with assms(1) show "char_at (d @ SLASH # b) j \<noteq> SLASH" by (simp add: char_at_notin)
  qed
qed (rule assms(2))

lemma dirname_delim_name: "SLASH \<notin> set p \<Longrightarrow> dirname_delim p = 0"
  by (simp add: dirname_delim_def scan_slash_none char_at_notin Let_def)

lemma dirname_delim_slash:
  assumes "SLASH \<notin> set b"
  shows "dirname_delim (d @ SLASH # b) = (if d = [] then 1 else length d)"
proof -
  have "char_at (d @ SLASH # b) (length (d @ SLASH # b)) = NUL" by (simp add: char_at_def)
  with scan_slash_split [OF assms, of d "length (d @ SLASH # b)"] show ?thesis
    by (simp add: dirname_delim_def Let_def)
qed

lemma dirname_name: "SLASH \<notin> set p \<Longrightarrow> p \<noteq> [] \<Longrightarrow> vdev_dirname p = []"
  by (auto simp: vdev_dirname_def dirname_delim_name)

lemma dirname_slash:
  "SLASH \<notin> set b \<Longrightarrow> vdev_dirname (d @ SLASH # b) = (if d = [] then ''/'' else d)"
  using dirname_delim_slash [of b d]
  by (cases "d @ SLASH # b = [SLASH]") (auto simp: vdev_dirname_def append_eq_Cons_conv)

lemma dirname_delim_le: "p \<noteq> [] \<Longrightarrow> p \<noteq> ''/'' \<Longrightarrow> dirname_delim p < length p"
  by (cases p rule: path_shape) (auto simp: dirname_delim_name dirname_delim_slash)

lemma basename_slash:
  assumes "SLASH \<notin> set b" "b \<noteq> []"
  shows "vdev_basename (d @ SLASH # b) = b"
proof -
  let ?p = "d @ SLASH # b"
  have "last ?p \<noteq> SLASH" using assms by (metis last.simps last_appendR last_in_set list.discI)
  then have "char_at ?p (length d + length b) \<noteq> SLASH"
    by (simp add: char_at_def last_conv_nth)
  moreover have "\<not> int (length d) + int (length b) \<le> 0" using assms(2) by (cases b) auto
  ultimately show ?thesis using scan_slash_split [OF assms(1), of d "length d + length b"] assms
    by (simp add: vdev_basename_def vdev_basename_len_def Let_def nat_add_distrib)
qed

lemma dirname_basename_components:
  assumes "SLASH \<in> set p" "last p \<noteq> SLASH"
  shows "path_components p = path_components (vdev_dirname p) @ [vdev_basename p]"
proof (cases p rule: path_shape)
  case name
  with assms show ?thesis by simp
next
  case (slash d b)
  with assms have b: "b \<noteq> []" by auto
  with slash have "path_components ''/'' = []" "path_components b = [b]"
    using components_Cons_slash [of "[]"] components_name by simp_all
  with slash b show ?thesis
    by (simp add: dirname_slash basename_slash components_slash)
qed

lemma dirname_buf_fits:
  assumes "NUL \<notin> set p" "p \<noteq> []"
  shows "\<exists>b. vdev_dirname_buf (Some p) None = Buf b \<and> cstr_of b = vdev_dirname p"
proof (cases "p = ''/''")
  case True
  then show ?thesis
    by (simp add: vdev_dirname_buf_def buf_strcpy_def buf_write_def calloc_def buf_result_def
        cstr_of_def vdev_dirname_def)
next
  case False
  define d where "d = dirname_delim p"
  define n where "n = length p - d"
  have d: "d < length p" and n: "0 < n" "length p + 1 = d + n + 1"
    using False assms(2) dirname_delim_le [of p] by (simp_all add: d_def n_def)
  have c: "calloc (length p + 1) = calloc (d + n + 1)" using n by simp
  have "buf_strncpy p d (calloc (length p + 1)) = Some (take d p @ calloc (n + 1))"
    using d unfolding c by (simp add: buf_strncpy_def buf_write_def)
  moreover have "buf_write (d + 1) [NUL] (take d p @ calloc (n + 1)) =
      Some (take d p @ NUL # NUL # calloc (n - 1))"
    using d n by (simp add: buf_write_def calloc_def)
  ultimately have "vdev_dirname_buf (Some p) None = Buf (take d p @ NUL # NUL # calloc (n - 1))"
    using False assms(2) by (simp add: vdev_dirname_buf_def buf_result_def d_def [symmetric])
  moreover have "NUL \<notin> set (take d p)" using assms(1) by (meson in_set_takeD)
  ultimately show ?thesis
    using False assms(2) by (simp add: takeWhile_NUL_free vdev_dirname_def d_def)
qed

lemma dirname_buf_empty: "vdev_dirname_buf (Some []) None = Overflow"
  by (simp add: vdev_dirname_buf_def buf_strcpy_def buf_write_def calloc_def buf_result_def)

section \<open>Key/value pairs and numbers: round trips\<close>

lemma keyvalue_next_Some:
  "vdev_keyvalue_next s = (n, Some (k, v)) \<longleftrightarrow>
   s = k @ CHR ''='' # v \<and> CHR ''='' \<notin> set k \<and> n = int (length s)"
proof
  assume "vdev_keyvalue_next s = (n, Some (k, v))"
  then obtain t where t: "strchr s CHR ''='' = Some t" and n: "n = int (length s)"
    and k: "k = take (length s - length t) s" and v: "v = drop 1 t"
    by (auto simp: vdev_keyvalue_next_def split: option.splits)
  from t obtain p where p: "s = p @ t" "CHR ''='' \<notin> set p" "t \<noteq> []" "hd t = CHR ''=''"
    by (auto simp: strchr_Some)
  then obtain w where "t = CHR ''='' # w" by (cases t) auto
  with p k v n show "s = k @ CHR ''='' # v \<and> CHR ''='' \<notin> set k \<and> n = int (length s)" by simp
next
  assume "s = k @ CHR ''='' # v \<and> CHR ''='' \<notin> set k \<and> n = int (length s)"
  then show "vdev_keyvalue_next s = (n, Some (k, v))"
    by (auto simp: vdev_keyvalue_next_def strchr_append_notin)
qed

lemma keyvalue_next_None:
  "vdev_keyvalue_next s = (n, None) \<longleftrightarrow> CHR ''='' \<notin> set s \<and> n = - EINVAL"
proof (cases "strchr s CHR ''=''")
  case None
  then have "CHR ''='' \<notin> set s" by (simp add: strchr_None)
  with None show ?thesis by (auto simp: vdev_keyvalue_next_def)
next
  case (Some t)
  then have "CHR ''='' \<in> set s" using strchr_None [of s "CHR ''=''"] by auto
  with Some show ?thesis by (simp add: vdev_keyvalue_next_def)
qed

lemma parse_uint64_show_nat:
  assumes "int n \<le> LLONG_MAX"
  shows "vdev_parse_uint64 (show_nat n) = (of_nat n, True)"
  using strto_show_nat [of "[]" n] assms show_nat_nonempty [of n, symmetric]
  by (simp add: vdev_parse_uint64_def strtoll_def LLONG_MIN_def)

section \<open>EINTR is masked\<close>

lemma read_loop_done: "\<not> length acc mod 2 ^ 32 < len \<Longrightarrow> read_loop evs len acc = Some (Inr acc, evs)"
  by (cases evs) simp_all

lemma read_loop_eintr:
  "map_option fst (read_loop (filter (\<lambda>e. e \<noteq> IoError EINTR) evs) len acc) =
   map_option fst (read_loop evs len acc)"
proof (induction evs len acc rule: read_loop.induct)
  case (2 ev evs len acc)
  show ?case
  proof (cases "length acc mod 2 ^ 32 < len")
    case False
    from read_loop_done [OF this] show ?thesis by simp
  next
    case True
    with 2 show ?thesis by (cases ev) (auto simp: Let_def)
  qed
qed simp

lemma read_loop_length:
  "read_loop evs len acc = Some (Inr bs, rest) \<Longrightarrow> length acc \<le> len \<Longrightarrow>
   length bs \<le> len \<and> prefix acc bs"
proof (induction evs len acc rule: read_loop.induct)
  case (2 ev evs len acc)
  show ?case
  proof (cases "length acc mod 2 ^ 32 < len")
    case False
    then have "read_loop (ev # evs) len acc = Some (Inr acc, ev # evs)" by simp
    with "2.prems" show ?thesis by simp
  next
    case True
    show ?thesis
    proof (cases ev)
      case (IoError e)
      with 2 True show ?thesis by (auto split: if_splits)
    next
      case (IoData b)
      have "prefix acc bs \<and> length bs \<le> len" if "prefix (acc @ take (len - length acc) b) bs" "length bs \<le> len"
        using that append_prefixD by blast
      with 2 True IoData show ?thesis by (auto simp: Let_def split: if_splits)
    qed
  qed
qed (auto split: if_splits)

lemma write_loop_prefix:
  "write_loop evs buf n (take n buf) = Some (r, out) \<Longrightarrow> n \<le> length buf \<Longrightarrow>
   (\<forall>e. AcceptError e \<in> set evs \<longrightarrow> 0 < e) \<Longrightarrow>
   \<exists>m. n \<le> m \<and> m \<le> length buf \<and> out = take m buf \<and> (0 \<le> r \<longrightarrow> r = int m)"
proof (induction evs arbitrary: n)
  case Nil
  then show ?case by (auto split: if_splits)
next
  case (Cons ev evs)
  show ?case
  proof (cases "n mod 2 ^ 32 < length buf")
    case False
    then have "write_loop (ev # evs) buf n (take n buf) = Some (int n, take n buf)" by simp
    with Cons.prems show ?thesis by auto
  next
    case True
    show ?thesis
    proof (cases ev)
      case (AcceptError e)
      show ?thesis
      proof (cases "e = EINTR")
        case e: True
        with Cons True AcceptError show ?thesis by auto
      next
        case False
        with Cons.prems True AcceptError have "r = - e" "out = take n buf" "0 < e" by auto
        with Cons.prems(2) show ?thesis by (intro exI [of _ n]) auto
      qed
    next
      case (Accept k)
      define nw where "nw = min k (length buf - n)"
      have step: "write_loop (ev # evs) buf n (take n buf) =
          (if nw = 0 then Some (int n, take n buf) else write_loop evs buf (n + nw) (take (n + nw) buf))"
        using True Accept by (simp only: write_loop.simps io_accept.case nw_def [symmetric] Let_def
            not_not if_False if_True simp_thms take_add)
      have le: "n + nw \<le> length buf" using Cons.prems(2) by (simp add: nw_def)
      show ?thesis
      proof (cases "nw = 0")
        case True
        with step Cons.prems show ?thesis by auto
      next
        case False
        with step Cons.prems have "write_loop evs buf (n + nw) (take (n + nw) buf) = Some (r, out)"
          "\<forall>e. AcceptError e \<in> set evs \<longrightarrow> 0 < e" by auto
        from Cons.IH [OF this(1) le this(2)] show ?thesis using add_leD1 by blast
      qed
    qed
  qed
qed

section \<open>The contract of the path and descriptor functions\<close>

text \<open>
  Joining and splitting paths. \<open>vdev_fullpath\<close> fits the buffer it allocates and names the path whose components are
  those of the directory followed by those of the rest; for a path with a slash that does not
  end in one, \<open>vdev_dirname\<close> and \<open>vdev_basename\<close> split off exactly the last component, and
  \<open>vdev_dirname\<close> fits its buffer as well.
\<close>

theorem path_join_split:
  assumes "NUL \<notin> set r" "NUL \<notin> set p" "SLASH \<in> set p" "last p \<noteq> SLASH"
  shows "(\<exists>b. vdev_fullpath_buf (Some r) (Some p) None = Buf b \<and> cstr_of b = vdev_fullpath r p) \<and>
    path_components (vdev_fullpath r p) = path_components r @ path_components p \<and>
    (\<exists>b. vdev_dirname_buf (Some p) None = Buf b \<and> cstr_of b = vdev_dirname p) \<and>
    path_components p = path_components (vdev_dirname p) @ [vdev_basename p]"
  using assms fullpath_buf_fits [of r p] fullpath_components [of r p] dirname_buf_fits [of p]
    dirname_basename_components [of p] by force

theorem path_join_split_witness:
  "(\<exists>b. vdev_fullpath_buf (Some ''/dev'') (Some ''disk/by-id'') None = Buf b \<and> cstr_of b = vdev_fullpath ''/dev'' ''disk/by-id'') \<and>
   path_components ''disk/by-id'' = path_components (vdev_dirname ''disk/by-id'') @ [vdev_basename ''disk/by-id'']"
  using path_join_split [of "''/dev''" "''disk/by-id''"] by simp

text \<open>
  Reads are not disturbed by signals. The result of \<open>vdev_read_uninterrupted\<close> is the same as if no call
  had been interrupted (the \<open>EINTR\<close> results taken out of the script), whatever else the calls
  meet; and it never stores more than the buffer holds.
\<close>

theorem read_uninterrupted_masks_eintr:
  "map_option fst (vdev_read_uninterrupted (filter (\<lambda>e. e \<noteq> IoError EINTR) evs) len) =
     map_option fst (vdev_read_uninterrupted evs len) \<and>
   (case vdev_read_uninterrupted evs len of Some (Inr bs, rest) \<Rightarrow> length bs \<le> len | _ \<Rightarrow> True)"
proof
  show "map_option fst (vdev_read_uninterrupted (filter (\<lambda>e. e \<noteq> IoError EINTR) evs) len) =
      map_option fst (vdev_read_uninterrupted evs len)"
    by (simp only: vdev_read_uninterrupted_def read_loop_eintr)
  show "case vdev_read_uninterrupted evs len of Some (Inr bs, rest) \<Rightarrow> length bs \<le> len | _ \<Rightarrow> True"
    using read_loop_length [of evs len "[]"] by (auto simp: vdev_read_uninterrupted_def split: option.splits sum.splits)
qed

end
