(* ===== verification/Libvdev_Ini.thy ===== *)
theory Libvdev_Ini
  imports Vdev_Prelude
begin

text \<open>
  \<^verbatim>\<open>libvdev/ini.c\<close>: the INI parser that reads vdevd's configuration, its actions and vdevfs's
  access control lists, with the options of \<^verbatim>\<open>ini.h\<close> (no multi-line values, a byte order mark is
  skipped, parsing stops at the first error, lines are read in pieces of at most 4095
  characters).

  A handler is a function on a user state that returns a C truth value, as the callback of
  \<open>ini_parse_file\<close> does; the locale \<open>ini_handler\<close> is the contract of a handler that keeps an
  invariant of the user state. The round trip lemma \<open>ini_parse_print\<close> shows that the parser
  feeds a handler exactly the pairs of a printed file, in order, and reports the line of the
  first pair the handler rejects.
\<close>

abbreviation MAX_SECTION :: nat where "MAX_SECTION \<equiv> 50"
abbreviation INI_MAX_LINE :: nat where "INI_MAX_LINE \<equiv> 4096"

type_synonym 'u ini_callback = "'u \<Rightarrow> cstr \<Rightarrow> cstr \<Rightarrow> cstr \<Rightarrow> int \<times> 'u"

section \<open>The parser\<close>

definition rstrip :: "cstr \<Rightarrow> cstr" where
  "rstrip s = rev (dropWhile isspace (rev s))"

definition lskip :: "cstr \<Rightarrow> cstr" where
  "lskip s = dropWhile isspace s"

text \<open>
  \<open>find_char_or_comment\<close> returns a pointer into the string: here the text before it and the
  text from it on. \<open>None\<close> stands for the character \<open>NUL\<close>, which no C string contains.
\<close>

fun find_char_or_comment :: "bool \<Rightarrow> cstr \<Rightarrow> char option \<Rightarrow> cstr \<times> cstr" where
  "find_char_or_comment was_ws [] c = ([], [])"
| "find_char_or_comment was_ws (x # xs) c =
     (if Some x \<noteq> c \<and> \<not> (was_ws \<and> x = CHR '';'')
      then (case find_char_or_comment (isspace x) xs c of (a, b) \<Rightarrow> (x # a, b))
      else ([], x # xs))"

text \<open>\<open>strncpy0\<close> into a buffer of \<open>sz\<close> bytes keeps the first \<open>sz - 1\<close> characters.\<close>

definition strncpy0 :: "cstr \<Rightarrow> nat \<Rightarrow> cstr" where
  "strncpy0 src sz = take (sz - 1) src"

text \<open>\<open>fgets(line, n, file)\<close>: the characters read, and the rest of the file.\<close>

definition fgets :: "nat \<Rightarrow> char list \<Rightarrow> char list \<times> char list" where
  "fgets n file = (let k = min (n - 1) (Suc (length (takeWhile (\<lambda>c. c \<noteq> NL) file)))
                   in (take k file, drop k file))"

definition skip_bom :: "nat \<Rightarrow> cstr \<Rightarrow> cstr" where
  "skip_bom lineno s =
     (if lineno = 1 \<and> take 3 s = [CHR 0xEF, CHR 0xBB, CHR 0xBF] then drop 3 s else s)"

text \<open>
  The body of the loop of \<open>ini_parse_file\<close> for a line already stripped: the new value of
  \<open>error\<close> (which is 0 before, since the loop stops at the first error), the section and the user
  state. \<open>prev_name\<close> is only read by the multi-line mode, which is compiled out.
\<close>

definition ini_pair ::
  "'u ini_callback \<Rightarrow> nat \<Rightarrow> cstr \<Rightarrow> 'u \<Rightarrow> cstr \<Rightarrow> cstr \<Rightarrow> nat \<times> cstr \<times> 'u" where
  "ini_pair handler lineno sect user before after =
     (let name = rstrip before;
          value = rstrip (fst (find_char_or_comment False (lskip after) None));
          (ok, user') = handler user sect name value
      in (if ok = 0 then lineno else 0, sect, user'))"

definition ini_line ::
  "'u ini_callback \<Rightarrow> nat \<Rightarrow> cstr \<Rightarrow> 'u \<Rightarrow> cstr \<Rightarrow> nat \<times> cstr \<times> 'u" where
  "ini_line handler lineno sect user start =
     (case start of
        [] \<Rightarrow> (0, sect, user)
      | c # rest \<Rightarrow>
          if c = CHR '';'' \<or> c = CHR ''#'' then (0, sect, user)
          else if c = CHR ''['' then
            (case find_char_or_comment False rest (Some CHR '']'') of (before, after) \<Rightarrow>
               if after \<noteq> [] \<and> hd after = CHR '']'' then (0, strncpy0 before MAX_SECTION, user)
               else (lineno, sect, user))
          else
            (case find_char_or_comment False start (Some CHR ''='') of (before, after) \<Rightarrow>
               if after \<noteq> [] \<and> hd after = CHR ''='' then ini_pair handler lineno sect user before (tl after)
               else
                 (case find_char_or_comment False start (Some CHR '':'') of (before, after) \<Rightarrow>
                    if after \<noteq> [] \<and> hd after = CHR '':'' then ini_pair handler lineno sect user before (tl after)
                    else (lineno, sect, user))))"

lemma fgets_decreases: "file \<noteq> [] \<Longrightarrow> 1 < n \<Longrightarrow> length (snd (fgets n file)) < length file"
  by (auto simp: fgets_def Let_def)

function ini_loop :: "'u ini_callback \<Rightarrow> nat \<Rightarrow> cstr \<Rightarrow> 'u \<Rightarrow> char list \<Rightarrow> nat \<times> 'u" where
  "ini_loop handler lineno sect user file =
     (if file = [] then (0, user)
      else (case fgets INI_MAX_LINE file of (buf, rest) \<Rightarrow>
        (let line = takeWhile (\<lambda>c. c \<noteq> NUL) buf;
             start = lskip (rstrip (skip_bom (Suc lineno) line))
         in case ini_line handler (Suc lineno) sect user start of
              (error, sect', user') \<Rightarrow>
                if error \<noteq> 0 then (error, user')
                else ini_loop handler (Suc lineno) sect' user' rest)))"
  by pat_completeness auto
termination
  by (relation "measure (\<lambda>(h, l, s, u, f). length f)") (auto simp: fgets_def Let_def split: if_splits)

declare ini_loop.simps [simp del]

definition ini_parse_file :: "'u ini_callback \<Rightarrow> 'u \<Rightarrow> char list \<Rightarrow> int \<times> 'u" where
  "ini_parse_file handler user file =
     (case ini_loop handler 0 [] user file of (error, user') \<Rightarrow> (int error, user'))"

text \<open>\<open>ini_parse\<close>: \<open>None\<close> is a file that \<open>fopen\<close> does not open.\<close>

definition ini_parse :: "'u ini_callback \<Rightarrow> 'u \<Rightarrow> char list option \<Rightarrow> int \<times> 'u" where
  "ini_parse handler user file =
     (case file of None \<Rightarrow> (- 1, user) | Some f \<Rightarrow> ini_parse_file handler user f)"

section \<open>The contract of a handler\<close>

text \<open>A line either leaves the user state alone or hands it one pair.\<close>

lemma ini_line_cases:
  obtains (other) "snd (snd (ini_line handler n s u l)) = u"
  | (pair) a b where "ini_line handler n s u l = ini_pair handler n s u a b"
proof (cases l)
  case Nil
  then show thesis by (intro other) (simp add: ini_line_def)
next
  case (Cons c rest)
  define eq where "eq = find_char_or_comment False l (Some CHR ''='')"
  define co where "co = find_char_or_comment False l (Some CHR '':'')"
  consider "c = CHR '';'' \<or> c = CHR ''#'' \<or> c = CHR ''[''" | "c \<noteq> CHR '';'' \<and> c \<noteq> CHR ''#'' \<and> c \<noteq> CHR ''[''" by blast
  then show thesis
  proof cases
    case 1
    with Cons show thesis by (intro other) (auto simp: ini_line_def case_prod_beta)
  next
    case 2
    with Cons have "ini_line handler n s u l =
        (if snd eq \<noteq> [] \<and> hd (snd eq) = CHR ''='' then ini_pair handler n s u (fst eq) (tl (snd eq))
         else if snd co \<noteq> [] \<and> hd (snd co) = CHR '':'' then ini_pair handler n s u (fst co) (tl (snd co))
         else (n, s, u))"
      by (simp add: ini_line_def case_prod_beta eq_def co_def)
    then show thesis
      using pair other by (cases "snd eq \<noteq> [] \<and> hd (snd eq) = CHR ''=''"; cases "snd co \<noteq> [] \<and> hd (snd co) = CHR '':''") auto
  qed
qed

text \<open>A handler that keeps an invariant on the pairs it accepts: it holds after a parse without error.\<close>

locale ini_acceptor =
  fixes handler :: "'u ini_callback"
    and invar :: "'u \<Rightarrow> bool"
  assumes accept_invar: "invar u \<Longrightarrow> fst (handler u sect name val) \<noteq> 0 \<Longrightarrow> invar (snd (handler u sect name val))"
begin

lemma pair_accept: "invar u \<Longrightarrow> fst (ini_pair handler (Suc n) s u a b) = 0 \<Longrightarrow> invar (snd (snd (ini_pair handler (Suc n) s u a b)))"
  using accept_invar by (auto simp: ini_pair_def Let_def case_prod_beta split: if_splits)

lemma line_accept: "invar u \<Longrightarrow> fst (ini_line handler (Suc n) s u l) = 0 \<Longrightarrow> invar (snd (snd (ini_line handler (Suc n) s u l)))"
  using pair_accept by (cases rule: ini_line_cases [of handler "Suc n" s u l]) auto

lemma loop_accept: "invar u \<Longrightarrow> fst (ini_loop handler n s u f) = 0 \<Longrightarrow> invar (snd (ini_loop handler n s u f))"
proof (induction f arbitrary: n s u rule: measure_induct_rule [of length])
  case (less f)
  show ?case
  proof (cases "f = []")
    case True
    with less.prems show ?thesis by (simp add: ini_loop.simps)
  next
    case False
    define r where "r = ini_line handler (Suc n) s u
      (lskip (rstrip (skip_bom (Suc n) (takeWhile (\<lambda>c. c \<noteq> NUL) (fst (fgets INI_MAX_LINE f))))))"
    have step: "ini_loop handler n s u f = (if fst r \<noteq> 0 then (fst r, snd (snd r))
        else ini_loop handler (Suc n) (fst (snd r)) (snd (snd r)) (snd (fgets INI_MAX_LINE f)))"
      using False by (subst ini_loop.simps) (simp add: case_prod_beta Let_def r_def)
    have "length (snd (fgets INI_MAX_LINE f)) < length f" using False by (rule fgets_decreases) simp
    moreover have "fst r = 0 \<Longrightarrow> invar (snd (snd r))" using line_accept less.prems(1) by (simp add: r_def)
    ultimately show ?thesis using less step by (auto split: if_splits)
  qed
qed

lemma parse_accept:
  assumes "invar u" "ini_parse_file handler u f = (0, u')"
  shows "invar u'"
proof -
  from assms(2) have "fst (ini_loop handler 0 [] u f) = 0" "snd (ini_loop handler 0 [] u f) = u'"
    by (auto simp: ini_parse_file_def split: prod.splits)
  with loop_accept [OF assms(1)] show ?thesis by blast
qed

end

text \<open>A handler that keeps the invariant on every pair.\<close>

locale ini_handler =
  fixes handler :: "'u ini_callback"
    and invar :: "'u \<Rightarrow> bool"
  assumes handler_invar: "invar u \<Longrightarrow> invar (snd (handler u sect name val))"
begin

lemma pair_invar: "invar u \<Longrightarrow> invar (snd (snd (ini_pair handler n s u a b)))"
  using handler_invar by (simp add: ini_pair_def Let_def case_prod_beta)

lemma line_invar: "invar u \<Longrightarrow> invar (snd (snd (ini_line handler n s u l)))"
  using pair_invar by (cases rule: ini_line_cases [of handler n s u l]) auto

lemma loop_invar: "invar u \<Longrightarrow> invar (snd (ini_loop handler n s u f))"
proof (induction f arbitrary: n s u rule: measure_induct_rule [of length])
  case (less f)
  show ?case
  proof (cases "f = []")
    case True
    with less.prems show ?thesis by (simp add: ini_loop.simps)
  next
    case False
    then have "length (snd (fgets INI_MAX_LINE f)) < length f" by (rule fgets_decreases) simp
    with less False show ?thesis
      by (subst ini_loop.simps) (simp add: case_prod_beta Let_def line_invar)
  qed
qed

lemma parse_invar: "invar u \<Longrightarrow> invar (snd (ini_parse handler u f))"
  using loop_invar by (simp add: ini_parse_def ini_parse_file_def case_prod_beta split: option.splits)

end

sublocale ini_handler \<subseteq> accept: ini_acceptor
  by unfold_locales (rule handler_invar)

section \<open>Printing and parsing\<close>

text \<open>A file of sections with \<open>name=value\<close> lines, and what it asks of the handler.\<close>

type_synonym ini_file = "(cstr \<times> (cstr \<times> cstr) list) list"

definition ini_print_pair :: "cstr \<times> cstr \<Rightarrow> cstr" where
  "ini_print_pair p = fst p @ CHR ''='' # snd p @ [NL]"

definition ini_print_section :: "cstr \<times> (cstr \<times> cstr) list \<Rightarrow> cstr" where
  "ini_print_section sec = CHR ''['' # fst sec @ [CHR '']'', NL] @ concat (map ini_print_pair (snd sec))"

definition ini_print :: "ini_file \<Rightarrow> cstr" where
  "ini_print secs = concat (map ini_print_section secs)"

fun ini_feed_pairs :: "'u ini_callback \<Rightarrow> nat \<Rightarrow> cstr \<Rightarrow> 'u \<Rightarrow> (cstr \<times> cstr) list \<Rightarrow> nat \<times> nat \<times> 'u" where
  "ini_feed_pairs handler lineno sect user [] = (0, lineno, user)"
| "ini_feed_pairs handler lineno sect user (p # ps) =
     (case handler user sect (fst p) (snd p) of (ok, user') \<Rightarrow>
        if ok = 0 then (Suc lineno, Suc lineno, user')
        else ini_feed_pairs handler (Suc lineno) sect user' ps)"

fun ini_feed :: "'u ini_callback \<Rightarrow> nat \<Rightarrow> 'u \<Rightarrow> ini_file \<Rightarrow> nat \<times> 'u" where
  "ini_feed handler lineno user [] = (0, user)"
| "ini_feed handler lineno user (sec # secs) =
     (case ini_feed_pairs handler (Suc lineno) (fst sec) user (snd sec) of (error, lineno', user') \<Rightarrow>
        if error \<noteq> 0 then (error, user') else ini_feed handler lineno' user' secs)"

text \<open>Texts that survive the trip: nothing that the parser strips, splits or cuts.\<close>

definition ini_plain :: "cstr \<Rightarrow> bool" where
  "ini_plain s \<longleftrightarrow> NL \<notin> set s \<and> NUL \<notin> set s \<and> CHR '';'' \<notin> set s"

definition ini_text :: "cstr \<Rightarrow> bool" where
  "ini_text s \<longleftrightarrow> ini_plain s \<and>
     (s = [] \<or> \<not> isspace (hd s) \<and> \<not> isspace (last s))"

definition ini_ok_pair :: "cstr \<times> cstr \<Rightarrow> bool" where
  "ini_ok_pair p \<longleftrightarrow> ini_text (fst p) \<and> ini_text (snd p) \<and> CHR ''='' \<notin> set (fst p) \<and>
     (fst p = [] \<or> hd (fst p) \<noteq> CHR ''['' \<and> hd (fst p) \<noteq> CHR ''#'') \<and>
     length (fst p) + length (snd p) + 2 < INI_MAX_LINE"

definition ini_ok_section :: "cstr \<times> (cstr \<times> cstr) list \<Rightarrow> bool" where
  "ini_ok_section sec \<longleftrightarrow> ini_plain (fst sec) \<and> CHR '']'' \<notin> set (fst sec) \<and>
     length (fst sec) < MAX_SECTION \<and> list_all ini_ok_pair (snd sec)"

lemma find_char_found:
  "c \<notin> set a \<Longrightarrow> CHR '';'' \<notin> set a \<Longrightarrow> c \<noteq> CHR '';'' \<Longrightarrow>
   find_char_or_comment w (a @ c # b) (Some c) = (a, c # b)"
  by (induction a arbitrary: w) auto

lemma find_char_none: "CHR '';'' \<notin> set a \<Longrightarrow> find_char_or_comment w a None = (a, [])"
  by (induction a arbitrary: w) auto

lemma rstrip_id: "s = [] \<or> \<not> isspace (last s) \<Longrightarrow> rstrip s = s"
  by (cases s rule: rev_cases) (auto simp: rstrip_def)

lemma rstrip_snoc_space: "isspace c \<Longrightarrow> rstrip (s @ [c]) = rstrip s"
  by (simp add: rstrip_def)

lemma lskip_id: "s = [] \<or> \<not> isspace (hd s) \<Longrightarrow> lskip s = s"
  by (cases s) (auto simp: lskip_def)

lemma isspace_NL [simp]: "isspace NL"
  by (simp add: isspace_def)

lemma fgets_line:
  "NL \<notin> set l \<Longrightarrow> length l + 1 < n \<Longrightarrow> fgets n (l @ NL # rest) = (l @ [NL], rest)"
proof -
  assume l: "NL \<notin> set l" "length l + 1 < n"
  then have "\<forall>x \<in> set l. x \<noteq> NL" by auto
  then have "takeWhile (\<lambda>c. c \<noteq> NL) (l @ NL # rest) = l" by simp
  with l show ?thesis by (simp add: fgets_def Let_def)
qed

text \<open>One line of a printed file, read by the loop.\<close>

lemma ini_loop_line:
  assumes "NL \<notin> set l" "NUL \<notin> set l" "length l + 1 < INI_MAX_LINE"
    and "l \<noteq> []" "\<not> isspace (hd l)" "\<not> isspace (last l)"
    and "lineno = 0 \<longrightarrow> hd l \<noteq> CHR 0xEF"
  shows "ini_loop handler lineno sect user (l @ NL # rest) =
    (case ini_line handler (Suc lineno) sect user l of (error, sect', user') \<Rightarrow>
       if error \<noteq> 0 then (error, user') else ini_loop handler (Suc lineno) sect' user' rest)"
proof -
  have nul: "takeWhile (\<lambda>c. c \<noteq> NUL) (l @ [NL]) = l @ [NL]"
    using assms(2) by (auto simp: takeWhile_eq_all_conv)
  have "take 3 (l @ [NL]) \<noteq> [CHR 0xEF, CHR 0xBB, CHR 0xBF] \<or> lineno \<noteq> 0"
    using assms(4,7) by (cases l) auto
  then have bom: "skip_bom (Suc lineno) (l @ [NL]) = l @ [NL]"
    by (auto simp: skip_bom_def)
  have "lskip (rstrip (l @ [NL])) = l"
    using assms by (simp add: rstrip_snoc_space rstrip_id lskip_id)
  with nul bom show ?thesis
    using fgets_line [OF assms(1,3)] by (subst ini_loop.simps) (simp add: Let_def)
qed

lemma ini_line_section:
  assumes "ini_plain sec" "CHR '']'' \<notin> set sec" "length sec < MAX_SECTION"
  shows "ini_line handler n sect user (CHR ''['' # sec @ [CHR '']'']) = (0, sec, user)"
  using assms find_char_found [of "CHR '']''" sec False "[]"]
  by (auto simp: ini_line_def ini_plain_def strncpy0_def)

lemma ini_line_pair:
  assumes "ini_ok_pair (n, v)"
  shows "ini_line handler lineno sect user (n @ CHR ''='' # v) =
    (case handler user sect n v of (ok, user') \<Rightarrow> (if ok = 0 then lineno else 0, sect, user'))"
proof -
  have n: "rstrip n = n" and v: "lskip v = v" "rstrip v = v"
    using assms by (auto simp: ini_ok_pair_def ini_text_def rstrip_id lskip_id)
  have eq: "find_char_or_comment False (n @ CHR ''='' # v) (Some CHR ''='') = (n, CHR ''='' # v)"
    using assms by (auto simp: ini_ok_pair_def ini_text_def ini_plain_def intro!: find_char_found)
  have val: "find_char_or_comment False v None = (v, [])"
    using assms by (auto simp: ini_ok_pair_def ini_text_def ini_plain_def intro!: find_char_none)
  obtain c cs where l: "n @ CHR ''='' # v = c # cs" by (cases n) auto
  then have "c \<noteq> CHR '';'' \<and> c \<noteq> CHR ''#'' \<and> c \<noteq> CHR ''[''"
    using assms by (cases n) (auto simp: ini_ok_pair_def ini_text_def ini_plain_def)
  with eq [unfolded l] val n v show ?thesis
    unfolding l ini_line_def by (simp add: ini_pair_def)
qed

lemma ini_loop_pair:
  assumes "ini_ok_pair p"
  shows "ini_loop handler (Suc lineno) sect user (ini_print_pair p @ rest) =
    (case handler user sect (fst p) (snd p) of (ok, user') \<Rightarrow>
       if ok = 0 then (Suc (Suc lineno), user')
       else ini_loop handler (Suc (Suc lineno)) sect user' rest)"
proof -
  let ?l = "fst p @ CHR ''='' # snd p"
  have "\<not> isspace CHR ''=''" by (simp add: isspace_def)
  then have "\<not> isspace (hd ?l)" "\<not> isspace (last ?l)"
    using assms by (auto simp: ini_ok_pair_def ini_text_def hd_append)
  moreover have "NL \<notin> set ?l" "NUL \<notin> set ?l" "length ?l + 1 < INI_MAX_LINE"
    using assms by (auto simp: ini_ok_pair_def ini_text_def ini_plain_def)
  ultimately have "ini_loop handler (Suc lineno) sect user (?l @ NL # rest) =
      (case ini_line handler (Suc (Suc lineno)) sect user ?l of (error, sect', user') \<Rightarrow>
        if error \<noteq> 0 then (error, user') else ini_loop handler (Suc (Suc lineno)) sect' user' rest)"
    by (intro ini_loop_line) auto
  then show ?thesis
    using ini_line_pair [of "fst p" "snd p" handler "Suc (Suc lineno)" sect user] assms
    by (simp add: ini_print_pair_def split: prod.splits)
qed

lemma ini_loop_section:
  assumes "ini_plain sec" "CHR '']'' \<notin> set sec" "length sec < MAX_SECTION"
  shows "ini_loop handler lineno sect user (CHR ''['' # sec @ CHR '']'' # NL # rest) =
    ini_loop handler (Suc lineno) sec user rest"
proof -
  let ?l = "CHR ''['' # sec @ [CHR '']'']"
  have "\<not> isspace (hd ?l)" "\<not> isspace (last ?l)"
    by (auto simp: isspace_def)
  then have "ini_loop handler lineno sect user (?l @ NL # rest) =
      (case ini_line handler (Suc lineno) sect user ?l of (error, sect', user') \<Rightarrow>
        if error \<noteq> 0 then (error, user') else ini_loop handler (Suc lineno) sect' user' rest)"
    using assms by (intro ini_loop_line) (auto simp: ini_plain_def)
  then show ?thesis using ini_line_section [OF assms, of handler "Suc lineno" sect user] by simp
qed

lemma ini_loop_pairs:
  "list_all ini_ok_pair ps \<Longrightarrow>
   ini_loop handler (Suc lineno) sect user (concat (map ini_print_pair ps) @ rest) =
   (case ini_feed_pairs handler (Suc lineno) sect user ps of (error, lineno', user') \<Rightarrow>
      if error \<noteq> 0 then (error, user') else ini_loop handler lineno' sect user' rest)"
  by (induction ps arbitrary: lineno user) (auto simp: ini_loop_pair split: prod.splits)

lemma ini_loop_print:
  "list_all ini_ok_section secs \<Longrightarrow>
   ini_loop handler lineno sect user (ini_print secs) = ini_feed handler lineno user secs"
proof (induction secs arbitrary: lineno sect user)
  case Nil
  then show ?case by (simp add: ini_print_def ini_loop.simps)
next
  case (Cons sec secs)
  from Cons.prems have sec: "ini_plain (fst sec)" "CHR '']'' \<notin> set (fst sec)"
      "length (fst sec) < MAX_SECTION" "list_all ini_ok_pair (snd sec)"
    by (auto simp: ini_ok_section_def)
  have "ini_print (sec # secs) = CHR ''['' # fst sec @ CHR '']'' # NL #
      concat (map ini_print_pair (snd sec)) @ ini_print secs"
    by (simp add: ini_print_def ini_print_section_def)
  with Cons sec show ?case
    by (auto simp: ini_loop_section ini_loop_pairs split: prod.splits)
qed

lemma ini_feed_pairs_accept:
  assumes "\<And>u s n v. fst (handler u s n v) \<noteq> 0"
  shows "ini_feed_pairs handler l sect u ps =
    (0, l + length ps, foldl (\<lambda>u p. snd (handler u sect (fst p) (snd p))) u ps)"
  using assms by (induction ps arbitrary: l u) (auto simp: case_prod_beta)

text \<open>
  C20: Round trip of the INI parser. For every handler and every file of well-formed sections
  and pairs, parsing the printed file calls the handler on exactly the pairs of the file, in
  order and each under its own section, and stops at the first pair the handler rejects with
  the number of its line; with no rejection the result is 0. (\<^verbatim>\<open>ini.h\<close> says that parsing does not stop at the first error; the
  code is compiled with \<open>INI_STOP_ON_FIRST_ERROR\<close> set to 1, and does.)
\<close>

theorem ini_parse_print:
  assumes "list_all ini_ok_section secs"
  shows "ini_parse handler user (Some (ini_print secs)) =
    (case ini_feed handler 0 user secs of (error, user') \<Rightarrow> (int error, user'))"
  by (simp add: ini_parse_def ini_parse_file_def ini_loop_print [OF assms])

definition ini_collect :: "(cstr \<times> cstr \<times> cstr) list ini_callback" where
  "ini_collect u sect name val = (if name = ''bad'' then 0 else 1, u @ [(sect, name, val)])"

theorem ini_parse_print_witness:
  "ini_parse ini_collect [] (Some (ini_print
     [(''a'', [(''x'', ''1'')]), (''b'', [(''y'', ''two words''), (''bad'', []), (''z'', ''3'')])])) =
   (5, [(''a'', ''x'', ''1''), (''b'', ''y'', ''two words''), (''b'', ''bad'', [])])"
proof -
  let ?secs = "[(''a'', [(''x'', ''1'')]), (''b'', [(''y'', ''two words''), (''bad'', []), (''z'', ''3'')])]"
  have "list_all ini_ok_section ?secs"
    by (simp add: ini_ok_section_def ini_ok_pair_def ini_text_def ini_plain_def isspace_def)
  from ini_parse_print [OF this, of ini_collect "[]"] show ?thesis by (simp add: ini_collect_def)
qed

end
