(* ===== verification/Libvdev_Config.thy ===== *)
theory Libvdev_Config
  imports Libvdev_Params Libvdev_Util Libvdev_Ini
begin

text \<open>
  \<^verbatim>\<open>libvdev/config.c\<close>: the configuration of vdevd and vdevfs, from the configuration file (through
  the INI parser), from the command line, and the conversion of its paths to absolute ones.

  The working directory (\<open>getcwd\<close>), the resolution of the mountpoint (\<open>realpath\<close>), the options
  that \<open>getopt_long\<close> delivers and the random bytes of \<open>mrand48\<close> are arguments.
\<close>

record vdev_config =
  conf_config_path :: "cstr option"
  conf_preseed_path :: "cstr option"
  conf_acls_dir :: "cstr option"
  conf_acts_dir :: "cstr option"
  conf_helpers_dir :: "cstr option"
  conf_default_policy :: int
  conf_debug_level :: int
  conf_error_level :: int
  conf_pidfile_path :: "cstr option"
  conf_logfile_path :: "cstr option"
  conf_mountpoint :: "cstr option"
  conf_coldplug_only :: bool
  conf_foreground :: bool
  conf_os_config :: vdev_params
  conf_default_mode :: "32 word"
  conf_instance_str :: cstr
  conf_OS_quirks :: uint64

definition vdev_config_init :: vdev_config where
  "vdev_config_init = \<lparr>conf_config_path = None, conf_preseed_path = None, conf_acls_dir = None,
     conf_acts_dir = None, conf_helpers_dir = None, conf_default_policy = 0, conf_debug_level = 0,
     conf_error_level = 0, conf_pidfile_path = None, conf_logfile_path = None, conf_mountpoint = None,
     conf_coldplug_only = False, conf_foreground = False, conf_os_config = Leaf, conf_default_mode = 0,
     conf_instance_str = [], conf_OS_quirks = 0\<rparr>"

section \<open>Quirks\<close>

definition VDEV_OS_QUIRK_DEVICE_EXISTS :: uint64 where
  "VDEV_OS_QUIRK_DEVICE_EXISTS = 1"

definition vdev_config_has_OS_quirk :: "uint64 \<Rightarrow> uint64 \<Rightarrow> bool" where
  "vdev_config_has_OS_quirk quirk_field quirk \<longleftrightarrow> and quirk_field quirk \<noteq> 0"

definition vdev_config_set_OS_quirk :: "uint64 \<Rightarrow> uint64 \<Rightarrow> uint64" where
  "vdev_config_set_OS_quirk quirk_field quirk = or quirk_field quirk"

section \<open>The configuration file\<close>

text \<open>A field that is kept if it is already set: the first setting wins.\<close>

definition set_if_null :: "cstr \<Rightarrow> cstr option \<Rightarrow> cstr option" where
  "set_if_null v old = (case old of None \<Rightarrow> Some v | Some x \<Rightarrow> Some x)"

definition config_log_level :: "vdev_config \<Rightarrow> cstr \<Rightarrow> int \<times> vdev_config" where
  "config_log_level conf value =
     (if strcasecmp_eq value ''debug'' then
        (1, conf\<lparr>conf_debug_level := VDEV_LOGLEVEL_DEBUG, conf_error_level := VDEV_LOGLEVEL_WARN\<rparr>)
      else if strcasecmp_eq value ''info'' then
        (1, conf\<lparr>conf_debug_level := VDEV_LOGLEVEL_INFO, conf_error_level := VDEV_LOGLEVEL_WARN\<rparr>)
      else if strcasecmp_eq value ''warn'' \<or> strcasecmp_eq value ''warning'' then
        (1, conf\<lparr>conf_debug_level := VDEV_LOGLEVEL_NONE, conf_error_level := VDEV_LOGLEVEL_WARN\<rparr>)
      else if strcasecmp_eq value ''error'' \<or> strcasecmp_eq value ''critical'' then
        (1, conf\<lparr>conf_debug_level := VDEV_LOGLEVEL_NONE, conf_error_level := VDEV_LOGLEVEL_ERROR\<rparr>)
      else (0, conf))"

text \<open>\<open>coldplug_only\<close>: the code compares the \<^emph>\<open>name\<close> of the key with \<open>true\<close> and \<open>false\<close>.\<close>

definition config_coldplug :: "vdev_config \<Rightarrow> cstr \<Rightarrow> cstr \<Rightarrow> int \<times> vdev_config" where
  "config_coldplug conf name value =
     (if strcasecmp_eq name ''true'' then (1, conf\<lparr>conf_coldplug_only := True\<rparr>)
      else if strcasecmp_eq name ''false'' then (1, conf\<lparr>conf_coldplug_only := False\<rparr>)
      else if \<not> conf_coldplug_only conf then
        (case vdev_parse_uint64 value of (v, success) \<Rightarrow>
           (if success then 1 else 0, conf\<lparr>conf_coldplug_only := (v \<noteq> 0)\<rparr>))
      else (1, conf))"

definition vdev_config_ini_parser :: "vdev_config ini_callback" where
  "vdev_config_ini_parser conf sect name value =
     (if sect = ''vdev-config'' then
        if name = ''acls'' then (1, conf\<lparr>conf_acls_dir := set_if_null value (conf_acls_dir conf)\<rparr>)
        else if name = ''actions'' then (1, conf\<lparr>conf_acts_dir := set_if_null value (conf_acts_dir conf)\<rparr>)
        else if name = ''helpers'' then (1, conf\<lparr>conf_helpers_dir := set_if_null value (conf_helpers_dir conf)\<rparr>)
        else if name = ''default_permissions'' then
          (case strtoul 8 value of (m, tmp) \<Rightarrow>
             (if tmp \<noteq> [] then 0 else 1, conf\<lparr>conf_default_mode := of_nat m\<rparr>))
        else if name = ''default_policy'' then
          (1, conf\<lparr>conf_default_policy := (if \<not> strcasecmp_eq value ''allow'' then 1 else 0)\<rparr>)
        else if name = ''pidfile'' then (1, conf\<lparr>conf_pidfile_path := set_if_null value (conf_pidfile_path conf)\<rparr>)
        else if name = ''logfile'' then (1, conf\<lparr>conf_logfile_path := set_if_null value (conf_logfile_path conf)\<rparr>)
        else if name = ''loglevel'' then config_log_level conf value
        else if name = ''mountpoint'' then (1, conf\<lparr>conf_mountpoint := set_if_null value (conf_mountpoint conf)\<rparr>)
        else if name = ''coldplug_only'' then config_coldplug conf name value
        else if name = ''preseed'' then (1, conf\<lparr>conf_preseed_path := set_if_null value (conf_preseed_path conf)\<rparr>)
        else (1, conf)
      else if sect = ''vdev-OS'' then
        (case vdev_params_add (conf_os_config conf) name value of (rc, os_config) \<Rightarrow>
           (if rc \<noteq> 0 then 0 else 1, conf\<lparr>conf_os_config := os_config\<rparr>))
      else (1, conf))"

definition vdev_config_sanity_check :: "vdev_config \<Rightarrow> rc" where
  "vdev_config_sanity_check conf =
     (if conf_acls_dir conf = None \<or> conf_acts_dir conf = None \<or> conf_mountpoint conf = None
      then - EINVAL else 0)"

section \<open>The instance nonce\<close>

definition vdev_bin_to_hex :: "8 word \<Rightarrow> cstr" where
  "vdev_bin_to_hex num =
     (let upper = drop_bit 4 num; lower = and num 0xf;
          digit = (\<lambda>d::8 word. char_of (unat (if d < 10 then d + 48 else d + 65)))
      in [digit upper, digit lower])"

abbreviation VDEV_CONFIG_INSTANCE_NONCE_LEN :: nat where "VDEV_CONFIG_INSTANCE_NONCE_LEN \<equiv> 32"

definition vdev_config_make_instance_nonce :: "(nat \<Rightarrow> 8 word) \<Rightarrow> vdev_config \<Rightarrow> vdev_config" where
  "vdev_config_make_instance_nonce rand conf =
     conf\<lparr>conf_instance_str := concat (map (\<lambda>i. vdev_bin_to_hex (rand i)) [0..<VDEV_CONFIG_INSTANCE_NONCE_LEN])\<rparr>"

section \<open>Absolute paths\<close>

definition absolute_path :: "cstr \<Rightarrow> bool" where
  "absolute_path p \<longleftrightarrow> p \<noteq> [] \<and> hd p = SLASH"

definition conf_fullpath :: "cstr \<Rightarrow> cstr option \<Rightarrow> cstr option" where
  "conf_fullpath cwd p = map_option (\<lambda>s. if absolute_path s then s else vdev_fullpath cwd s) p"

text \<open>\<open>vdev_config_fullpaths\<close>: \<open>None\<close> is a working directory longer than \<open>PATH_MAX\<close>.\<close>

definition vdev_config_fullpaths :: "cstr option \<Rightarrow> vdev_config \<Rightarrow> rc \<times> vdev_config" where
  "vdev_config_fullpaths getcwd conf =
     (case getcwd of
        None \<Rightarrow> (- ERANGE, conf)
      | Some cwd \<Rightarrow>
          (0, conf\<lparr>conf_config_path := conf_fullpath cwd (conf_config_path conf),
                   conf_acls_dir := conf_fullpath cwd (conf_acls_dir conf),
                   conf_acts_dir := conf_fullpath cwd (conf_acts_dir conf),
                   conf_helpers_dir := conf_fullpath cwd (conf_helpers_dir conf),
                   conf_pidfile_path := conf_fullpath cwd (conf_pidfile_path conf),
                   conf_logfile_path := (if conf_logfile_path conf = Some ''syslog'' then Some ''syslog''
                                         else conf_fullpath cwd (conf_logfile_path conf)),
                   conf_preseed_path := conf_fullpath cwd (conf_preseed_path conf)\<rparr>))"

definition vdev_config_free :: "vdev_config \<Rightarrow> vdev_config" where
  "vdev_config_free conf =
     conf\<lparr>conf_acls_dir := None, conf_acts_dir := None, conf_os_config := Leaf, conf_helpers_dir := None,
          conf_config_path := None, conf_mountpoint := None, conf_preseed_path := None,
          conf_logfile_path := None, conf_pidfile_path := None\<rparr>"

definition vdev_config_load_file :: "cstr option \<Rightarrow> char list \<Rightarrow> vdev_config \<Rightarrow> rc \<times> vdev_config" where
  "vdev_config_load_file getcwd file conf =
     (case ini_parse_file vdev_config_ini_parser conf file of (rc, conf1) \<Rightarrow>
        if rc \<noteq> 0 then (rc, vdev_config_free conf1)
        else (case vdev_config_fullpaths getcwd conf1 of (rc, conf2) \<Rightarrow>
                if rc \<noteq> 0 then (rc, vdev_config_free conf2) else (rc, conf2)))"

text \<open>\<open>fopen\<close> delivers the file or an error.\<close>

definition vdev_config_load ::
  "cstr option \<Rightarrow> (nat \<Rightarrow> 8 word) \<Rightarrow> rc + char list \<Rightarrow> vdev_config \<Rightarrow> rc \<times> vdev_config" where
  "vdev_config_load getcwd rand fopen conf =
     (case fopen of
        Inl errno \<Rightarrow> (- errno, conf)
      | Inr file \<Rightarrow>
          (case vdev_config_load_file getcwd file conf of (rc, conf1) \<Rightarrow>
             (rc, if rc = 0 then vdev_config_make_instance_nonce rand conf1 else conf1)))"

section \<open>The command line\<close>

text \<open>
  \<open>getopt_long\<close> delivers the options as characters with their arguments, and leaves the other
  arguments. Its position in the command line (\<open>optind\<close>) is a global variable that the code never resets: \<open>opts\<close> are the options that it has
  still to deliver, and what remains of them is returned for the next call; \<open>fuse_argv\<close> is \<open>None\<close> for vdevd and the argument vector being built for vdevfs.
\<close>

definition fuse_push :: "cstr list \<Rightarrow> cstr list option \<Rightarrow> cstr list option" where
  "fuse_push args fuse_argv = map_option (\<lambda>f. f @ args) fuse_argv"

definition config_opt ::
  "char \<Rightarrow> cstr \<Rightarrow> vdev_config \<Rightarrow> cstr list option \<Rightarrow> rc \<times> vdev_config \<times> cstr list option" where
  "config_opt c optarg config fuse =
     (if c = CHR ''c'' then (0, config\<lparr>conf_config_path := Some optarg\<rparr>, fuse)
      else if c = CHR ''l'' then (0, config\<lparr>conf_logfile_path := Some optarg\<rparr>, fuse)
      else if c = CHR ''p'' then (0, config\<lparr>conf_pidfile_path := Some optarg\<rparr>, fuse)
      else if c = CHR ''v'' then
        (case strtoll 10 optarg of (debug_level, tmp) \<Rightarrow>
           if tmp \<noteq> [] then (- 1, config, fuse)
           else (0, config\<lparr>conf_debug_level := signed_take_bit 31 debug_level\<rparr>, fuse))
      else if c = CHR ''n'' \<or> c = CHR ''1'' then (0, config\<lparr>conf_coldplug_only := True\<rparr>, fuse)
      else if c = CHR ''s'' then (0, config, fuse_push [''-s''] fuse)
      else if c = CHR ''d'' then (0, config, fuse_push [''-d''] fuse)
      else if c = CHR ''f'' then (0, config\<lparr>conf_foreground := True\<rparr>, fuse_push [''-f''] fuse)
      else if c = CHR ''o'' then (0, config, fuse_push [''-o'', optarg] fuse)
      else (- 1, config, fuse))"

fun config_opts ::
  "(char \<times> cstr) list \<Rightarrow> vdev_config \<Rightarrow> cstr list option \<Rightarrow> rc \<times> vdev_config \<times> cstr list option \<times> (char \<times> cstr) list" where
  "config_opts [] config fuse = (0, config, fuse, [])"
| "config_opts ((c, optarg) # opts) config fuse =
     (case config_opt c optarg config fuse of (rc, config', fuse') \<Rightarrow>
        if rc \<noteq> 0 then (rc, config', fuse', opts) else config_opts opts config' fuse')"

definition vdev_config_get_mountpoint_from_fuse ::
  "(cstr \<Rightarrow> rc + cstr) \<Rightarrow> cstr list \<Rightarrow> rc \<times> cstr option" where
  "vdev_config_get_mountpoint_from_fuse realpath fuse_argv =
     (case realpath (last fuse_argv) of
        Inl errno \<Rightarrow> (- EINVAL, None)
      | Inr p \<Rightarrow> (0, Some p))"

text \<open>
  Without a FUSE argument vector, \<open>argv[optind]\<close> is \<open>NULL\<close> when no argument is left:
  \<open>realpath(NULL)\<close> fails with \<open>EINVAL\<close>.
\<close>

definition vdev_config_load_from_args ::
  "(cstr \<Rightarrow> rc + cstr) \<Rightarrow> cstr \<Rightarrow> (char \<times> cstr) list \<Rightarrow> cstr list \<Rightarrow> bool \<Rightarrow> vdev_config \<Rightarrow>
   rc \<times> vdev_config \<times> cstr list option \<times> (char \<times> cstr) list" where
  "vdev_config_load_from_args realpath argv0 opts args use_fuse config =
     (case config_opts opts config (if use_fuse then Some [argv0] else None) of (rc, config1, fuse1, rest) \<Rightarrow>
        if rc \<noteq> 0 then (rc, config1, fuse1, rest)
        else (case fuse1 of
                Some f \<Rightarrow>
                  (case vdev_config_get_mountpoint_from_fuse realpath (f @ args) of (rc, mp) \<Rightarrow>
                     (rc, config1\<lparr>conf_mountpoint := mp\<rparr>, Some (f @ args), rest))
              | None \<Rightarrow>
                  (case (if args = [] then Inl EINVAL else realpath (hd args)) of
                     Inl errno \<Rightarrow> (- errno, config1\<lparr>conf_mountpoint := None\<rparr>, None, rest)
                   | Inr p \<Rightarrow> (0, config1\<lparr>conf_mountpoint := Some p\<rparr>, None, rest))))"

section \<open>What the configuration file may change\<close>

definition conf_path_fields :: "(vdev_config \<Rightarrow> cstr option) list" where
  "conf_path_fields = [conf_config_path, conf_acls_dir, conf_acts_dir, conf_helpers_dir,
     conf_pidfile_path, conf_preseed_path]"

text \<open>Settings made before the file is read (on the command line) stay, except for the debug level.\<close>

definition config_keeps :: "vdev_config \<Rightarrow> vdev_config \<Rightarrow> bool" where
  "config_keeps c0 c \<longleftrightarrow>
     (\<forall>f \<in> set (conf_logfile_path # conf_mountpoint # conf_path_fields). f c0 \<noteq> None \<longrightarrow> f c = f c0) \<and>
     (conf_coldplug_only c0 \<longrightarrow> conf_coldplug_only c) \<and>
     conf_foreground c = conf_foreground c0 \<and>
     conf_debug_level c \<in> {conf_debug_level c0, VDEV_LOGLEVEL_DEBUG, VDEV_LOGLEVEL_INFO, VDEV_LOGLEVEL_NONE} \<and>
     vdev_params_invar (conf_os_config c)"

lemma set_if_null_keeps: "(x0 \<noteq> None \<longrightarrow> x = x0) \<Longrightarrow> x0 \<noteq> None \<longrightarrow> set_if_null v x = x0"
  by (auto simp: set_if_null_def)

lemma config_log_level_keeps: "config_keeps c0 c \<Longrightarrow> config_keeps c0 (snd (config_log_level c v))"
  by (simp add: config_log_level_def config_keeps_def conf_path_fields_def)

lemma config_coldplug_keeps:
  "config_keeps c0 c \<Longrightarrow> config_keeps c0 (snd (config_coldplug c ''coldplug_only'' v))"
  by (auto simp: config_coldplug_def config_keeps_def conf_path_fields_def strcasecmp_eq_def
      to_lower_def Let_def split: prod.splits)

interpretation config_file: ini_handler vdev_config_ini_parser "config_keeps c0" for c0
proof unfold_locales
  fix c sect name val
  assume c: "config_keeps c0 c"
  then have os: "vdev_params_invar (conf_os_config c)" by (simp add: config_keeps_def)
  consider (config) "sect = ''vdev-config''" | (os) "sect \<noteq> ''vdev-config''" "sect = ''vdev-OS''"
    | (other) "sect \<noteq> ''vdev-config''" "sect \<noteq> ''vdev-OS''" by blast
  then show "config_keeps c0 (snd (vdev_config_ini_parser c sect name val))"
  proof cases
    case config
    consider "name = ''loglevel''" | "name = ''coldplug_only''"
      | "name \<noteq> ''loglevel''" "name \<noteq> ''coldplug_only''" by blast
    then show ?thesis
    proof cases
      case 1
      with c config show ?thesis by (simp add: vdev_config_ini_parser_def config_log_level_keeps)
    next
      case 2
      with c config show ?thesis by (simp add: vdev_config_ini_parser_def config_coldplug_keeps)
    next
      case 3
      with c config show ?thesis
        by (simp add: vdev_config_ini_parser_def config_keeps_def conf_path_fields_def
            set_if_null_keeps split: prod.splits)
    qed
  next
    case os
    with c params_add_invar [OF \<open>vdev_params_invar (conf_os_config c)\<close>, of name val] show ?thesis
      by (simp add: vdev_config_ini_parser_def config_keeps_def conf_path_fields_def case_prod_beta)
  next
    case other
    with c show ?thesis by (simp add: vdev_config_ini_parser_def)
  qed
qed

lemma vdev_fullpath_absolute: "absolute_path r \<Longrightarrow> absolute_path (vdev_fullpath r p)"
  by (auto simp: vdev_fullpath_def absolute_path_def)

lemma conf_fullpath_absolute:
  "absolute_path cwd \<Longrightarrow> conf_fullpath cwd x = Some p \<Longrightarrow> absolute_path p"
  using vdev_fullpath_absolute [of cwd] by (auto simp: conf_fullpath_def split: if_splits)

lemma config_fullpaths_fields:
  "vdev_config_fullpaths (Some cwd) c = (rc, c') \<Longrightarrow> f \<in> set conf_path_fields \<Longrightarrow>
   f c' = conf_fullpath cwd (f c)"
  by (auto simp: vdev_config_fullpaths_def conf_path_fields_def)

lemma config_keeps_field:
  "config_keeps c0 c \<Longrightarrow> f \<in> set conf_path_fields \<Longrightarrow> f c0 \<noteq> None \<Longrightarrow> f c = f c0"
  by (simp add: config_keeps_def)

lemma config_load_file_cases:
  assumes "vdev_config_load_file (Some cwd) file c = (0, c')"
  obtains c1 where "ini_parse_file vdev_config_ini_parser c file = (0, c1)"
    and "vdev_config_fullpaths (Some cwd) c1 = (0, c')"
  using assms by (auto simp: vdev_config_load_file_def split: prod.splits if_splits)

lemma config_load_file_keeps:
  assumes "vdev_params_invar (conf_os_config c)"
    and "ini_parse_file vdev_config_ini_parser c file = (rc, c1)"
  shows "config_keeps c c1"
proof -
  have "config_keeps c c" using assms(1) by (simp add: config_keeps_def)
  from config_file.parse_invar [OF this, of "Some file"] assms(2) show ?thesis
    by (simp add: ini_parse_def)
qed


definition config_witness_file :: "char list" where
  "config_witness_file = ini_print [(''vdev-config'', [(''acls'', ''acls''), (''pidfile'', ''/run/x'')])]"


section \<open>Findings: keys that do not do what they say\<close>

text \<open>The comment in \<open>vdev_init\<close> says that the file's level counts only if the command line gives none.\<close>

lemma config_loglevel_overrides:
  "conf_debug_level (snd (vdev_config_ini_parser c ''vdev-config'' ''loglevel'' ''debug'')) = VDEV_LOGLEVEL_DEBUG"
  "conf_debug_level (snd (vdev_config_ini_parser c ''vdev-config'' ''loglevel'' ''warning'')) = VDEV_LOGLEVEL_NONE"
  by (simp_all add: vdev_config_ini_parser_def config_log_level_def strcasecmp_eq_def to_lower_def)

text \<open>\<^verbatim>\<open>config.h\<close> documents policy 0 as deny and 1 as allow.\<close>

lemma config_policy_inverted:
  "conf_default_policy (snd (vdev_config_ini_parser c ''vdev-config'' ''default_policy'' ''allow'')) = 0"
  "conf_default_policy (snd (vdev_config_ini_parser c ''vdev-config'' ''default_policy'' ''deny'')) = 1"
  by (simp_all add: vdev_config_ini_parser_def strcasecmp_eq_def to_lower_def)

lemma config_coldplug_true_rejected:
  "\<not> conf_coldplug_only c \<Longrightarrow>
   vdev_config_ini_parser c ''vdev-config'' ''coldplug_only'' ''true'' = (0, c)"
  by (simp add: vdev_config_ini_parser_def config_coldplug_def strcasecmp_eq_def to_lower_def
      vdev_parse_uint64_def strtoll_def strto_def isspace_def is_digit_in_def LLONG_MIN_def LLONG_MAX_def)

section \<open>The nonce identifies the instance\<close>

definition hex_value :: "char \<Rightarrow> nat" where
  "hex_value c = (let n = of_char c in if n < 58 then n - 48 else n - 65)"

definition hex_byte :: "cstr \<Rightarrow> nat" where
  "hex_byte s = 16 * hex_value (s ! 0) + hex_value (s ! 1)"

lemma hex_value_digit:
  fixes d :: "8 word"
  assumes "unat d < 16"
  shows "hex_value (char_of (unat (if d < 10 then d + 48 else d + 65))) = unat d"
proof -
  have "unat (d + 48) = unat d + 48" "unat (d + 65) = unat d + 65"
    using assms by (simp_all add: unat_word_ariths)
  moreover have "d < 10 \<longleftrightarrow> unat d < 10" by (simp add: word_less_nat_alt)
  ultimately show ?thesis using assms by (simp add: hex_value_def)
qed

lemma hex_byte_bin_to_hex: "hex_byte (vdev_bin_to_hex b) = unat b"
proof -
  have u: "unat (drop_bit 4 b) = unat b div 16"
    unfolding unat_drop_bit_eq by (simp add: drop_bit_eq_div)
  have l: "unat (and b 0xf) = unat b mod 16"
  proof -
    have "and b 0xf = take_bit 4 b" by (simp add: take_bit_eq_mask mask_eq_exp_minus_1)
    then show ?thesis by (simp add: unsigned_take_bit_eq take_bit_eq_mod unat_mod_distrib)
  qed
  have "unat b < 256" using unsigned_less [of b] by simp
  with u l have "unat (drop_bit 4 b) < 16" "unat (and b 0xf) < 16" by simp_all
  from this [THEN hex_value_digit] u l show ?thesis
    by (simp add: hex_byte_def vdev_bin_to_hex_def Let_def)
qed

lemma length_bin_to_hex: "length (vdev_bin_to_hex b) = 2"
  by (simp add: vdev_bin_to_hex_def Let_def)

lemma concat_hex_inj:
  "length bs = length cs \<Longrightarrow>
   concat (map vdev_bin_to_hex bs) = concat (map vdev_bin_to_hex cs) \<Longrightarrow> bs = cs"
proof (induction bs cs rule: list_induct2)
  case (Cons b bs c cs)
  then have "vdev_bin_to_hex b = vdev_bin_to_hex c"
    "concat (map vdev_bin_to_hex bs) = concat (map vdev_bin_to_hex cs)"
    by (simp_all add: append_eq_append_conv length_bin_to_hex)
  moreover from this(1) have "unat b = unat c" using hex_byte_bin_to_hex by metis
  ultimately show ?case using Cons.IH by (simp add: word_unat_eq_iff)
qed simp

text \<open>
  The instance nonce is a faithful encoding: two runs of vdevd have the same instance string
  exactly when they drew the same 32 random bytes, and the string has 64 characters, the size
  of the buffer without its terminator. (The digits above 9 are the letters K to P.)
\<close>

theorem instance_nonce_faithful:
  "(conf_instance_str (vdev_config_make_instance_nonce rand c) =
      conf_instance_str (vdev_config_make_instance_nonce rand' c')) =
     (map rand [0..<VDEV_CONFIG_INSTANCE_NONCE_LEN] = map rand' [0..<VDEV_CONFIG_INSTANCE_NONCE_LEN]) \<and>
   length (conf_instance_str (vdev_config_make_instance_nonce rand c)) = 64"
proof -
  let ?bs = "\<lambda>r :: nat \<Rightarrow> 8 word. map r [0..<VDEV_CONFIG_INSTANCE_NONCE_LEN]"
  have str: "conf_instance_str (vdev_config_make_instance_nonce r d) = concat (map vdev_bin_to_hex (?bs r))" for r d
    unfolding vdev_config_make_instance_nonce_def map_map comp_def by simp
  have "length (concat (map vdev_bin_to_hex (?bs rand))) = 64"
    by (simp add: length_concat comp_def length_bin_to_hex sum_list_triv)
  moreover have "concat (map vdev_bin_to_hex (?bs rand)) = concat (map vdev_bin_to_hex (?bs rand')) \<longleftrightarrow>
      ?bs rand = ?bs rand'"
    using concat_hex_inj [of "?bs rand" "?bs rand'"] by (metis length_map)
  ultimately show ?thesis unfolding str by blast
qed

end
