(* ===== verification/Libvdev_Match.thy ===== *)
theory Libvdev_Match
  imports Vdev_Prelude
begin

text \<open>
  \<^verbatim>\<open>libvdev/match.c\<close>: regular expressions of actions and access control lists.

  The POSIX functions \<open>regcomp\<close> and \<open>regexec\<close> are not part of the sources: they are the fields
  of a record \<open>regex_lib\<close> that every operation takes. A compiled \<open>regex_t\<close> is represented by
  the pattern it was compiled from.

  The locale \<open>first_match\<close> is the contract that the three search loops of vdev share
  (\<open>vdev_match_first_regex\<close>, \<open>vdev_action_find_next\<close>, \<open>vdev_acl_find_next\<close>): return the index
  of the first entry that matches, the number of entries if none does, and the error of the
  first entry whose test fails.
\<close>

record regex_lib =
  rx_valid :: "cstr \<Rightarrow> bool"           \<comment> \<open>\<open>regcomp\<close> returns 0\<close>
  rx_exec :: "cstr \<Rightarrow> cstr \<Rightarrow> int"    \<comment> \<open>what \<open>regexec\<close> returns for a pattern and a string\<close>

abbreviation REG_NOMATCH :: int where "REG_NOMATCH \<equiv> 1"

definition vdev_match_regex_init :: "regex_lib \<Rightarrow> cstr \<Rightarrow> rc" where
  "vdev_match_regex_init lib str = (if rx_valid lib str then 0 else - EINVAL)"

text \<open>
  \<open>vdev_match_regex_append\<close>: the strings and the compiled expressions with their common length;
  \<open>alloc\<close> says whether the two reallocations succeed.
\<close>

record regex_list =
  rl_strings :: "cstr list"
  rl_regexes :: "cstr list"
  rl_len :: nat

definition vdev_match_regex_append ::
  "regex_lib \<Rightarrow> bool \<times> bool \<Rightarrow> regex_list \<Rightarrow> cstr \<Rightarrow> rc \<times> regex_list" where
  "vdev_match_regex_append lib alloc rl next =
     (if \<not> rx_valid lib next then (- EINVAL, rl)
      else if \<not> fst alloc \<or> \<not> snd alloc then (- ENOMEM, rl)
      else (0, \<lparr>rl_strings = take (rl_len rl) (rl_strings rl) @ [next],
                rl_regexes = take (rl_len rl) (rl_regexes rl) @ [next],
                rl_len = rl_len rl + 1\<rparr>))"

definition vdev_match_regex :: "regex_lib \<Rightarrow> cstr \<Rightarrow> cstr \<Rightarrow> rc" where
  "vdev_match_regex lib path regex =
     (let rc = rx_exec lib regex path
      in if rc \<noteq> 0 then (if rc = REG_NOMATCH then 0 else - \<bar>rc\<bar>) else 1)"

fun match_first_loop :: "regex_lib \<Rightarrow> cstr \<Rightarrow> nat \<Rightarrow> cstr list \<Rightarrow> rc" where
  "match_first_loop lib path i [] = int i"
| "match_first_loop lib path i (r # rs) =
     (let matched = vdev_match_regex lib path r
      in if matched > 0 then int i
         else if matched < 0 then matched
         else match_first_loop lib path (Suc i) rs)"

definition vdev_match_first_regex :: "regex_lib \<Rightarrow> cstr \<Rightarrow> cstr list \<Rightarrow> rc" where
  "vdev_match_first_regex lib path regexes = match_first_loop lib path 0 regexes"

section \<open>The contract of a search loop\<close>

locale first_match =
  fixes test :: "'a \<Rightarrow> int"
    and scan :: "nat \<Rightarrow> 'a list \<Rightarrow> int"
  assumes scan_Nil: "scan i [] = int i"
    and scan_Cons: "scan i (x # xs) =
      (if test x > 0 then int i else if test x < 0 then test x else scan (Suc i) xs)"
begin

lemma scan_skip: "(\<forall>x \<in> set ys. test x = 0) \<Longrightarrow> scan i (ys @ xs) = scan (i + length ys) xs"
  by (induction ys arbitrary: i) (auto simp: scan_Cons)

lemma scan_none: "(\<forall>x \<in> set xs. test x = 0) \<Longrightarrow> scan i xs = int (i + length xs)"
  using scan_skip [of xs i "[]"] by (simp add: scan_Nil)

lemma scan_found:
  "(\<forall>y \<in> set ys. test y = 0) \<Longrightarrow> test x > 0 \<Longrightarrow> scan i (ys @ x # zs) = int (i + length ys)"
  by (simp add: scan_skip scan_Cons)

lemma scan_error:
  "(\<forall>y \<in> set ys. test y = 0) \<Longrightarrow> test x < 0 \<Longrightarrow> scan i (ys @ x # zs) = test x"
  by (simp add: scan_skip scan_Cons)

text \<open>Every list has one of three shapes, which decide the result.\<close>

lemma scan_cases:
  obtains (none) "\<forall>x \<in> set xs. test x = 0" "scan i xs = int (i + length xs)"
  | (found) ys x zs where "xs = ys @ x # zs" "\<forall>y \<in> set ys. test y = 0" "test x > 0"
      "scan i xs = int (i + length ys)"
  | (error) ys x zs where "xs = ys @ x # zs" "\<forall>y \<in> set ys. test y = 0" "test x < 0"
      "scan i xs = test x"
proof (cases "\<forall>x \<in> set xs. test x = 0")
  case True
  then show thesis by (rule none) (simp add: True scan_none)
next
  case False
  then obtain ys x zs where xs: "xs = ys @ x # zs" "\<forall>y \<in> set ys. test y = 0" "test x \<noteq> 0"
    using split_list_first_prop [of xs "\<lambda>x. test x \<noteq> 0"] by blast
  then consider "test x > 0" | "test x < 0" by linarith
  then show thesis
  proof cases
    case 1
    with xs show thesis by (intro found [of ys x zs]) (auto simp: scan_found)
  next
    case 2
    with xs show thesis by (intro error [of ys x zs]) (auto simp: scan_error)
  qed
qed

lemma scan_bounds: "scan i xs \<le> int (i + length xs)"
  by (rule scan_cases [of xs i]) auto

end

interpretation rx: first_match "vdev_match_regex lib path" "match_first_loop lib path" for lib path
  by unfold_locales (auto simp: Let_def)

text \<open>A concrete library for examples: a pattern matches itself only, and the empty pattern is invalid.\<close>

definition literal_regex_lib :: regex_lib where
  "literal_regex_lib = \<lparr>rx_valid = (\<lambda>p. p \<noteq> []), rx_exec = (\<lambda>p s. if p = s then 0 else REG_NOMATCH)\<rparr>"

text \<open>
  Matching against a list of regular expressions finds the first match. The result is the index of the first
  expression that matches, all before it failing to match; or the number of expressions, when
  none matches; or the error code of an expression that cannot be evaluated, with none before it matching.
\<close>

theorem match_first_regex_spec:
  "(let rc = vdev_match_first_regex lib path rs; t = vdev_match_regex lib path
    in (\<exists>ys x zs. rs = ys @ x # zs \<and> list_all (\<lambda>y. t y = 0) ys \<and>
          (0 < t x \<and> rc = int (length ys) \<or> t x < 0 \<and> rc = t x)) \<or>
       list_all (\<lambda>r. t r = 0) rs \<and> rc = int (length rs))"
proof (cases rule: rx.scan_cases [of rs lib path 0])
  case none
  then show ?thesis by (simp add: vdev_match_first_regex_def Let_def list_all_iff)
next
  case (found ys x zs)
  then have "rs = ys @ x # zs \<and> list_all (\<lambda>y. vdev_match_regex lib path y = 0) ys \<and>
      (0 < vdev_match_regex lib path x \<and> vdev_match_first_regex lib path rs = int (length ys) \<or>
       vdev_match_regex lib path x < 0 \<and> vdev_match_first_regex lib path rs = vdev_match_regex lib path x)"
    by (simp add: vdev_match_first_regex_def list_all_iff)
  then show ?thesis unfolding Let_def by blast
next
  case (error ys x zs)
  then have "rs = ys @ x # zs \<and> list_all (\<lambda>y. vdev_match_regex lib path y = 0) ys \<and>
      (0 < vdev_match_regex lib path x \<and> vdev_match_first_regex lib path rs = int (length ys) \<or>
       vdev_match_regex lib path x < 0 \<and> vdev_match_first_regex lib path rs = vdev_match_regex lib path x)"
    by (simp add: vdev_match_first_regex_def list_all_iff)
  then show ?thesis unfolding Let_def by blast
qed

end
