(* ===== verification/Vdevd_World.thy ===== *)
theory Vdevd_World
  imports Libvdev_Util
begin

text \<open>
  The operating system as vdevd sees it, and the parts of \<^verbatim>\<open>libvdev/util.c\<close> that act on it.

  A \<open>world\<close> holds a file system (a finite list of paths, each a list of names, with the node
  there), the faults that system calls meet, the behaviour of programs that are started,
  and the trace of what has been done. A system call first meets its fault, an \<open>errno\<close> value
  chosen by \<open>w_fault\<close> (0 for none), and otherwise does what POSIX says. Paths are resolved from
  the root directory; there are no symbolic links.

  The locale \<open>dir_loader\<close> is the contract of a loader that \<open>vdev_load_all\<close> calls on every file
  of a directory.
\<close>

section \<open>File system\<close>

type_synonym fpath = "cstr list"

datatype fnode = FDir | FReg "char list" | FDev "32 word" "64 word"

type_synonym fs = "(fpath \<times> fnode) list"

definition fs_get :: "fs \<Rightarrow> fpath \<Rightarrow> fnode option" where
  "fs_get fs p = (if p = [] then Some FDir else map_of fs p)"

definition fs_put :: "fs \<Rightarrow> fpath \<Rightarrow> fnode \<Rightarrow> fs" where
  "fs_put fs p n = (p, n) # filter (\<lambda>e. fst e \<noteq> p) fs"

definition fs_del :: "fs \<Rightarrow> fpath \<Rightarrow> fs" where
  "fs_del fs p = filter (\<lambda>e. fst e \<noteq> p) fs"

definition fs_children :: "fs \<Rightarrow> fpath \<Rightarrow> cstr list" where
  "fs_children fs p = remdups (map (\<lambda>e. last (fst e)) (filter (\<lambda>e. fst e \<noteq> [] \<and> butlast (fst e) = p) fs))"

text \<open>Path resolution: empty names and \<open>.\<close> stay, \<open>..\<close> goes to the parent.\<close>

definition resolve :: "cstr \<Rightarrow> fpath" where
  "resolve p = foldl (\<lambda>acc c. if c = ''.'' then acc else if c = ''..'' then butlast acc else acc @ [c])
                 [] (path_components p)"

lemma map_of_remove: "map_of (filter (\<lambda>e. fst e \<noteq> p) fs) q = (if q = p then None else map_of fs q)"
  by (induction fs) auto

lemma fs_get_put [simp]: "fs_get (fs_put fs p n) q = (if q = p \<and> p \<noteq> [] then Some n else fs_get fs q)"
  by (simp add: fs_get_def fs_put_def map_of_remove)

lemma fs_get_del [simp]: "fs_get (fs_del fs p) q = (if q = p \<and> p \<noteq> [] then None else fs_get fs q)"
  by (simp add: fs_get_def fs_del_def map_of_remove)

lemma fs_get_root [simp]: "fs_get fs [] = Some FDir"
  by (simp add: fs_get_def)

section \<open>Processes that are started\<close>

datatype wait_status = Exited int | Signaled int | OtherStatus

text \<open>A started program: what its creation meets, what it prints, and how it ends.\<close>

record subproc_result =
  sp_pipe :: rc                       \<comment> \<open>errno of \<open>pipe\<close>, 0 if it succeeds\<close>
  sp_fork :: rc
  sp_output :: "io_event list"        \<comment> \<open>what reading its standard output finds, before its end\<close>
  sp_wait :: rc
  sp_status :: wait_status
  sp_effect :: "fs \<Rightarrow> fs"             \<comment> \<open>what it does to the file system\<close>

datatype sysop = SysStat | SysMkdir | SysRmdir | SysUnlink | SysMknod | SysOpen | SysWrite | SysRead | SysScandir

datatype event =
    EvMkdir cstr
  | EvRmdir cstr
  | EvUnlink cstr
  | EvMknod cstr "32 word" "64 word"
  | EvWrite cstr "char list"
  | EvExec cstr "cstr list" bool      \<comment> \<open>command, environment, through a shell\<close>
  | EvAsync cstr "cstr list" bool
  | EvDaemonletStart cstr
  | EvDaemonletStop cstr
  | EvDaemonletSend cstr "cstr list"

text \<open>
  A daemonlet's side of its two pipes and of \<open>waitpid\<close>. Errno values are 0 for success; the
  result of a \<open>waitpid\<close> that waits is an error, or the child's raw status. The errors after
  \<open>EINTR\<close> carry what the second \<open>waitpid\<close>, with \<open>WNOHANG\<close>, returns.
\<close>

datatype wait_result = WaitError rc | WaitIntr int int | WaitJoined int

record daemonlet_io =
  dm_executable :: bool
  dm_pipe_stdin :: rc
  dm_pipe_stdout :: rc
  dm_fork :: rc
  dm_pid :: int
  dm_stdin :: int
  dm_stdout :: int
  dm_ready :: "io_event list"
  dm_write :: "nat \<Rightarrow> rc"         \<comment> \<open>errno that the n-th write meets first\<close>
  dm_reply :: "io_event list"
  dm_nohang :: int
  dm_close :: rc
  dm_waits :: "wait_result list"

record world =
  w_fs :: fs
  w_fault :: "sysop \<Rightarrow> cstr \<Rightarrow> rc"
  w_exec :: "event list \<Rightarrow> event \<Rightarrow> subproc_result"
  w_daemonlet :: "event list \<Rightarrow> daemonlet_io"
  w_clock :: "event list \<Rightarrow> nat"     \<comment> \<open>\<open>CLOCK_MONOTONIC\<close> in milliseconds, after a trace\<close>
  w_trace :: "event list"

text \<open>A world for examples: nothing fails, programs print nothing and exit with 0.\<close>

definition calm_daemonlet :: daemonlet_io where
  "calm_daemonlet = \<lparr>dm_executable = True, dm_pipe_stdin = 0, dm_pipe_stdout = 0, dm_fork = 0, dm_pid = 100,
     dm_stdin = 4, dm_stdout = 5, dm_ready = [IoData ''x''], dm_write = (\<lambda>_. 0), dm_reply = [IoData (''0'' @ [NL])],
     dm_nohang = 0, dm_close = 0, dm_waits = []\<rparr>"

definition calm_world :: world where
  "calm_world = \<lparr>w_fs = [], w_fault = (\<lambda>_ _. 0),
     w_exec = (\<lambda>_ _. \<lparr>sp_pipe = 0, sp_fork = 0, sp_output = [], sp_wait = 0, sp_status = Exited 0, sp_effect = id\<rparr>),
     w_daemonlet = (\<lambda>_. calm_daemonlet), w_clock = (\<lambda>_. 0), w_trace = []\<rparr>"

definition emit :: "event \<Rightarrow> world \<Rightarrow> world" where
  "emit e w = w\<lparr>w_trace := w_trace w @ [e]\<rparr>"

section \<open>System calls\<close>

text \<open>The errno value of the directories on the way to a path, and of the path itself.\<close>

definition parent_errno :: "fs \<Rightarrow> fpath \<Rightarrow> rc" where
  "parent_errno fs p =
     (case find (\<lambda>q. fs_get fs q \<noteq> Some FDir) (map (\<lambda>k. take k p) [1..<length p]) of
        None \<Rightarrow> 0
      | Some q \<Rightarrow> if fs_get fs q = None then ENOENT else ENOTDIR)"

definition lookup_errno :: "fs \<Rightarrow> fpath \<Rightarrow> rc" where
  "lookup_errno fs p =
     (if parent_errno fs p \<noteq> 0 then parent_errno fs p else if fs_get fs p = None then ENOENT else 0)"

definition sys_pre :: "sysop \<Rightarrow> cstr \<Rightarrow> world \<Rightarrow> rc" where
  "sys_pre op p w = (if w_fault w op p \<noteq> 0 then w_fault w op p else if p = [] then ENOENT else 0)"

definition sys_stat :: "cstr \<Rightarrow> world \<Rightarrow> rc + fnode" where
  "sys_stat p w =
     (if sys_pre SysStat p w \<noteq> 0 then Inl (sys_pre SysStat p w)
      else if lookup_errno (w_fs w) (resolve p) \<noteq> 0 then Inl (lookup_errno (w_fs w) (resolve p))
      else case fs_get (w_fs w) (resolve p) of None \<Rightarrow> Inl ENOENT | Some n \<Rightarrow> Inr n)"

definition sys_create :: "sysop \<Rightarrow> cstr \<Rightarrow> fnode \<Rightarrow> event \<Rightarrow> world \<Rightarrow> rc \<times> world" where
  "sys_create op p n ev w =
     (if sys_pre op p w \<noteq> 0 then (sys_pre op p w, w)
      else if parent_errno (w_fs w) (resolve p) \<noteq> 0 then (parent_errno (w_fs w) (resolve p), w)
      else if fs_get (w_fs w) (resolve p) \<noteq> None then (EEXIST, w)
      else (0, emit ev (w\<lparr>w_fs := fs_put (w_fs w) (resolve p) n\<rparr>)))"

definition sys_mkdir :: "cstr \<Rightarrow> world \<Rightarrow> rc \<times> world" where
  "sys_mkdir p w = sys_create SysMkdir p FDir (EvMkdir p) w"

definition sys_mknod :: "cstr \<Rightarrow> 32 word \<Rightarrow> 64 word \<Rightarrow> world \<Rightarrow> rc \<times> world" where
  "sys_mknod p mode dev w = sys_create SysMknod p (FDev mode dev) (EvMknod p mode dev) w"

definition sys_rmdir :: "cstr \<Rightarrow> world \<Rightarrow> rc \<times> world" where
  "sys_rmdir p w =
     (if sys_pre SysRmdir p w \<noteq> 0 then (sys_pre SysRmdir p w, w)
      else if lookup_errno (w_fs w) (resolve p) \<noteq> 0 then (lookup_errno (w_fs w) (resolve p), w)
      else if resolve p = [] then (EBUSY, w)
      else if fs_get (w_fs w) (resolve p) \<noteq> Some FDir then (ENOTDIR, w)
      else if fs_children (w_fs w) (resolve p) \<noteq> [] then (ENOTEMPTY, w)
      else (0, emit (EvRmdir p) (w\<lparr>w_fs := fs_del (w_fs w) (resolve p)\<rparr>)))"

definition sys_unlink :: "cstr \<Rightarrow> world \<Rightarrow> rc \<times> world" where
  "sys_unlink p w =
     (if sys_pre SysUnlink p w \<noteq> 0 then (sys_pre SysUnlink p w, w)
      else if lookup_errno (w_fs w) (resolve p) \<noteq> 0 then (lookup_errno (w_fs w) (resolve p), w)
      else if fs_get (w_fs w) (resolve p) = Some FDir then (EISDIR, w)
      else (0, emit (EvUnlink p) (w\<lparr>w_fs := fs_del (w_fs w) (resolve p)\<rparr>)))"

text \<open>\<open>scandir\<close> with \<open>alphasort\<close>: every name of the directory, \<open>.\<close> and \<open>..\<close> included, in order.\<close>

definition sys_scandir :: "cstr \<Rightarrow> world \<Rightarrow> rc + cstr list" where
  "sys_scandir p w =
     (if sys_pre SysScandir p w \<noteq> 0 then Inl (sys_pre SysScandir p w)
      else if lookup_errno (w_fs w) (resolve p) \<noteq> 0 then Inl (lookup_errno (w_fs w) (resolve p))
      else if fs_get (w_fs w) (resolve p) \<noteq> Some FDir then Inl ENOTDIR
      else Inr (sort (''.'' # ''..'' # fs_children (w_fs w) (resolve p))))"

text \<open>\<open>open\<close> for reading: the content of the file (a directory or a device has none here).\<close>

definition sys_open_read :: "cstr \<Rightarrow> world \<Rightarrow> rc + char list" where
  "sys_open_read p w =
     (if sys_pre SysOpen p w \<noteq> 0 then Inl (sys_pre SysOpen p w)
      else if lookup_errno (w_fs w) (resolve p) \<noteq> 0 then Inl (lookup_errno (w_fs w) (resolve p))
      else case fs_get (w_fs w) (resolve p) of Some (FReg d) \<Rightarrow> Inr d | _ \<Rightarrow> Inr [])"

text \<open>\<open>open\<close> for writing with \<open>O_TRUNC\<close>, and \<open>O_CREAT\<close> if \<open>creat\<close>.\<close>

definition sys_open_write :: "bool \<Rightarrow> cstr \<Rightarrow> world \<Rightarrow> rc \<times> world" where
  "sys_open_write creat p w =
     (let e = (if creat then parent_errno (w_fs w) (resolve p) else lookup_errno (w_fs w) (resolve p))
      in if sys_pre SysOpen p w \<noteq> 0 then (sys_pre SysOpen p w, w)
         else if e \<noteq> 0 then (e, w)
         else (case fs_get (w_fs w) (resolve p) of
                 Some FDir \<Rightarrow> (EISDIR, w)
               | Some (FDev m d) \<Rightarrow> (0, w)
               | _ \<Rightarrow> (0, w\<lparr>w_fs := fs_put (w_fs w) (resolve p) (FReg [])\<rparr>)))"

definition file_append :: "cstr \<Rightarrow> char list \<Rightarrow> world \<Rightarrow> world" where
  "file_append p out w =
     (case fs_get (w_fs w) (resolve p) of
        Some (FReg d) \<Rightarrow> emit (EvWrite p out) (w\<lparr>w_fs := fs_put (w_fs w) (resolve p) (FReg (d @ out))\<rparr>)
      | _ \<Rightarrow> emit (EvWrite p out) w)"

section \<open>util.c: files\<close>

text \<open>The script of the other end (see \<open>Libvdev_Util\<close>): one fault, if any, before the data.\<close>

definition vdev_read_file :: "cstr option \<Rightarrow> nat \<Rightarrow> world \<Rightarrow> rc + cbuf" where
  "vdev_read_file path len w =
     (case path of
        None \<Rightarrow> Inl (- EINVAL)
      | Some p \<Rightarrow>
          (case sys_open_read p w of
             Inl e \<Rightarrow> Inl (- e)
           | Inr d \<Rightarrow>
               (case vdev_read_uninterrupted
                       ((if w_fault w SysRead p \<noteq> 0 then [IoError (w_fault w SysRead p)] else []) @ [IoData d, IoData []])
                       len of
                  Some (Inl rc, _) \<Rightarrow> Inl rc
                | Some (Inr bs, _) \<Rightarrow> Inr (bs @ calloc (len - length bs))
                | None \<Rightarrow> Inl (- EINTR))))"

definition vdev_write_file :: "cstr option \<Rightarrow> char list option \<Rightarrow> bool \<Rightarrow> world \<Rightarrow> rc \<times> world" where
  "vdev_write_file path buf creat w =
     (case (path, buf) of
        (Some p, Some b) \<Rightarrow>
          (case sys_open_write creat p w of (e, w1) \<Rightarrow>
             if e \<noteq> 0 then (- e, w1)
             else (case vdev_write_uninterrupted
                          ((if w_fault w SysWrite p \<noteq> 0 then [AcceptError (w_fault w SysWrite p)] else []) @ [Accept (length b)]) b of
                     Some (rc, out) \<Rightarrow> (rc, file_append p out w1)
                   | None \<Rightarrow> (- EINTR, w1)))
      | _ \<Rightarrow> (- EINVAL, w))"

section \<open>util.c: directories\<close>

fun load_all_loop :: "(cstr \<Rightarrow> 's \<Rightarrow> rc \<times> 's) \<Rightarrow> cstr \<Rightarrow> cstr list \<Rightarrow> 's \<Rightarrow> rc \<times> 's" where
  "load_all_loop loader dir_path [] s = (0, s)"
| "load_all_loop loader dir_path (n # ns) s =
     (case loader (vdev_fullpath dir_path n) s of (rc, s') \<Rightarrow>
        if rc \<noteq> 0 then (rc, s') else load_all_loop loader dir_path ns s')"

text \<open>
  \<open>vdev_load_all\<close>: the loader works on a state of its own (which may contain the world);
  \<open>w\<close> is the world at the time of the \<open>scandir\<close>.
\<close>

definition vdev_load_all :: "cstr option \<Rightarrow> (cstr \<Rightarrow> 's \<Rightarrow> rc \<times> 's) \<Rightarrow> world \<Rightarrow> 's \<Rightarrow> rc \<times> 's" where
  "vdev_load_all dir_path loader w s =
     (case dir_path of
        None \<Rightarrow> (- EINVAL, s)
      | Some d \<Rightarrow>
          (case sys_scandir d w of
             Inl e \<Rightarrow> (- e, s)
           | Inr names \<Rightarrow> load_all_loop loader d names s))"

text \<open>One turn of the loop of \<open>vdev_mkdirs\<close>, at index \<open>i\<close>.\<close>

definition mkdirs_step :: "cstr \<Rightarrow> nat \<Rightarrow> world \<Rightarrow> rc \<times> world" where
  "mkdirs_step dirp i w =
     (if char_at dirp i = SLASH \<or> i = length dirp then
        (let currdir = take (if i = 0 then 1 else i) dirp
         in case sys_stat currdir w of
              Inr n \<Rightarrow> (if n \<noteq> FDir then - ENOTDIR else 0, w)
            | Inl _ \<Rightarrow> (case sys_mkdir currdir w of (e, w1) \<Rightarrow> (- e, w1)))
      else (0, w))"

fun mkdirs_loop :: "cstr \<Rightarrow> nat list \<Rightarrow> world \<Rightarrow> rc \<times> world" where
  "mkdirs_loop dirp [] w = (0, w)"
| "mkdirs_loop dirp (i # is) w =
     (case mkdirs_step dirp i w of (rc, w1) \<Rightarrow> if rc \<noteq> 0 then (rc, w1) else mkdirs_loop dirp is w1)"

definition vdev_mkdirs :: "cstr \<Rightarrow> nat \<Rightarrow> world \<Rightarrow> rc \<times> world" where
  "vdev_mkdirs dirp start w = mkdirs_loop dirp [start..<Suc (length dirp)] w"

lemma vdev_dirname_shorter: "p \<noteq> [] \<Longrightarrow> p \<noteq> ''/'' \<Longrightarrow> length (vdev_dirname p) < length p"
  using dirname_delim_le [of p] by (simp add: vdev_dirname_def min_def)

text \<open>
  \<open>vdev_rmdirs\<close>: removes the directory, then its parent, and so on until an \<open>rmdir\<close> fails.
  The root directory is never removed, so the loop ends there at the latest.
\<close>

function vdev_rmdirs :: "cstr \<Rightarrow> world \<Rightarrow> rc \<times> world" where
  "vdev_rmdirs dirname w =
     (if dirname = [] then (0, w)
      else (case sys_rmdir dirname w of (e, w1) \<Rightarrow>
              if e \<noteq> 0 then (- e, w1) else vdev_rmdirs (vdev_dirname dirname) w1))"
  by pat_completeness auto

lemma sys_rmdir_root: "fst (sys_rmdir ''/'' w) \<noteq> 0"
  by (simp add: sys_rmdir_def resolve_def components_Cons_slash [of "[]"] lookup_errno_def)

termination vdev_rmdirs
proof (relation "measure (\<lambda>(d, w). length d)")
  fix d :: cstr and w e w1
  assume "d \<noteq> []" "(e, w1) = sys_rmdir d w" "\<not> e \<noteq> 0"
  then have "d \<noteq> ''/''" using sys_rmdir_root [of w] by (metis fst_conv)
  with \<open>d \<noteq> []\<close> show "((vdev_dirname d, w1), (d, w)) \<in> measure (\<lambda>(d, w). length d)"
    by (simp add: vdev_dirname_shorter)
qed simp

declare vdev_rmdirs.simps [simp del]

section \<open>util.c: subprocesses\<close>

text \<open>
  \<open>vdev_subprocess\<close>: the result, the exit status and the output (\<open>None\<close> when no output is asked
  for). A program's end closes its side of the pipe. On an error the exit status is left as the
  caller set it, which is 0 at every call.
\<close>

definition vdev_subprocess ::
  "cstr option \<Rightarrow> cstr list \<Rightarrow> nat \<Rightarrow> bool \<Rightarrow> world \<Rightarrow> rc \<times> int \<times> cbuf option \<times> world" where
  "vdev_subprocess cmd env max_output use_shell w =
     (case cmd of
        None \<Rightarrow> (- EINVAL, 0, None, w)
      | Some c \<Rightarrow>
          (let ev = EvExec c env use_shell; r = w_exec w (w_trace w) ev
           in if sp_pipe r \<noteq> 0 then (- sp_pipe r, 0, None, w)
              else if sp_fork r \<noteq> 0 then (- sp_fork r, 0, None, w)
              else
                (let w1 = emit ev (w\<lparr>w_fs := sp_effect r (w_fs w)\<rparr>);
                     out = (if max_output > 0
                            then (case vdev_read_uninterrupted (sp_output r @ [IoData []]) max_output of
                                    Some (Inl rc, _) \<Rightarrow> Inl rc
                                  | Some (Inr bs, _) \<Rightarrow> Inr (Some (bs @ calloc (max_output - length bs)))
                                  | None \<Rightarrow> Inl (- EINTR))
                            else Inr None)
                 in case out of
                      Inl rc \<Rightarrow> (rc, 0, None, w1)
                    | Inr buf \<Rightarrow>
                        if sp_wait r \<noteq> 0 then (- sp_wait r, 0, None, w1)
                        else (0, case sp_status r of Exited c \<Rightarrow> c | Signaled s \<Rightarrow> s | OtherStatus \<Rightarrow> - EPERM,
                              buf, w1))))"

section \<open>Reading a stream to its end always returns\<close>

lemma read_loop_eof: "\<exists>r. read_loop (evs @ [IoData []]) len acc = Some r"
proof (induction evs arbitrary: acc)
  case Nil
  then show ?case by simp
next
  case (Cons ev evs)
  then show ?case by (cases ev) (auto simp: Let_def)
qed

lemma read_eof_cases:
  obtains (error) rc rest where "vdev_read_uninterrupted (evs @ [IoData []]) len = Some (Inl rc, rest)"
  | (data) bs rest where "vdev_read_uninterrupted (evs @ [IoData []]) len = Some (Inr bs, rest)"
      "length bs \<le> len"
proof -
  obtain r rest where r: "vdev_read_uninterrupted (evs @ [IoData []]) len = Some (r, rest)"
    using read_loop_eof [of evs len "[]"] by (auto simp: vdev_read_uninterrupted_def)
  show thesis
  proof (cases r)
    case (Inl rc)
    with r show thesis by (intro error) simp
  next
    case (Inr bs)
    with r show thesis
      using read_loop_length [of "evs @ [IoData []]" len "[]" bs rest]
      by (intro data [of bs]) (simp_all add: vdev_read_uninterrupted_def)
  qed
qed

section \<open>The contract of a loader\<close>

locale dir_loader =
  fixes loader :: "cstr \<Rightarrow> 's \<Rightarrow> rc \<times> 's"
    and invar :: "'s \<Rightarrow> bool"
  assumes loader_invar: "invar s \<Longrightarrow> invar (snd (loader fp s))"
begin

lemma loop_invar: "invar s \<Longrightarrow> invar (snd (load_all_loop loader d ns s))"
proof (induction ns arbitrary: s)
  case (Cons n ns)
  then show ?case using loader_invar [of s "vdev_fullpath d n"] by (simp add: case_prod_beta)
qed simp

lemma load_all_invar: "invar s \<Longrightarrow> invar (snd (vdev_load_all d loader w s))"
  by (simp add: vdev_load_all_def loop_invar split: option.splits sum.splits)

end

lemma load_all_loop_append:
  "load_all_loop loader d (ms @ ns) s =
    (case load_all_loop loader d ms s of (rc, s') \<Rightarrow>
       if rc \<noteq> 0 then (rc, s') else load_all_loop loader d ns s')"
  by (induction ms arbitrary: s) (auto split: prod.splits)

section \<open>What directory operations change\<close>

definition fs_dirs_added :: "fs \<Rightarrow> fs \<Rightarrow> bool" where
  "fs_dirs_added fs fs' \<longleftrightarrow>
     (\<forall>q. fs_get fs' q = fs_get fs q \<or> fs_get fs q = None \<and> fs_get fs' q = Some FDir)"

lemma fs_dirs_added_refl [simp]: "fs_dirs_added fs fs"
  by (simp add: fs_dirs_added_def)

lemma fs_dirs_added_trans: "fs_dirs_added a b \<Longrightarrow> fs_dirs_added b c \<Longrightarrow> fs_dirs_added a c"
  unfolding fs_dirs_added_def by (metis option.distinct(1))

lemma sys_mkdir_cases:
  obtains (fail) e where "sys_mkdir p w = (e, w)" "e \<noteq> 0"
  | (made) "sys_mkdir p w = (0, emit (EvMkdir p) (w\<lparr>w_fs := fs_put (w_fs w) (resolve p) FDir\<rparr>))"
      "fs_get (w_fs w) (resolve p) = None"
  by (cases "fst (sys_mkdir p w) = 0") (auto simp: sys_mkdir_def sys_create_def split: if_splits)

lemma emit_fields [simp]:
  "w_fs (emit e w) = w_fs w" "w_fault (emit e w) = w_fault w" "w_exec (emit e w) = w_exec w" "w_clock (emit e w) = w_clock w"
  "w_daemonlet (emit e w) = w_daemonlet w"
  "w_trace (emit e w) = w_trace w @ [e]"
  by (simp_all add: emit_def)

lemma sys_stat_Inr: "sys_stat p w = Inr n \<Longrightarrow> fs_get (w_fs w) (resolve p) = Some n"
  by (auto simp: sys_stat_def split: if_splits option.splits)

text \<open>What one step, and then a whole run, leaves unchanged.\<close>

definition mkdirs_frame :: "world \<Rightarrow> world \<Rightarrow> bool" where
  "mkdirs_frame w w' \<longleftrightarrow>
     fs_dirs_added (w_fs w) (w_fs w') \<and> w_fault w' = w_fault w \<and> w_exec w' = w_exec w"

lemma mkdirs_frame_refl [simp]: "mkdirs_frame w w"
  by (simp add: mkdirs_frame_def)

lemma mkdirs_frame_trans: "mkdirs_frame a b \<Longrightarrow> mkdirs_frame b c \<Longrightarrow> mkdirs_frame a c"
  using fs_dirs_added_trans by (auto simp: mkdirs_frame_def)

lemma sys_mkdir_frame: "mkdirs_frame w (snd (sys_mkdir p w))"
  by (cases rule: sys_mkdir_cases [of p w]) (auto simp: mkdirs_frame_def fs_dirs_added_def)

lemma mkdirs_step_frame: "mkdirs_frame w (snd (mkdirs_step dirp i w))"
  using sys_mkdir_frame by (simp add: mkdirs_step_def Let_def case_prod_beta split: sum.splits)

lemma mkdirs_loop_frame: "mkdirs_frame w (snd (mkdirs_loop dirp is w))"
proof (induction "is" arbitrary: w)
  case (Cons i "is")
  show ?case using mkdirs_frame_trans [OF mkdirs_step_frame [of w dirp i] Cons] mkdirs_step_frame [of w dirp i]
    by (simp add: case_prod_beta)
qed simp

lemma mkdirs_loop_append:
  "mkdirs_loop dirp (is @ js) w =
    (case mkdirs_loop dirp is w of (rc, w') \<Rightarrow> if rc \<noteq> 0 then (rc, w') else mkdirs_loop dirp js w')"
  by (induction "is" arbitrary: w) (simp_all add: case_prod_beta)

lemma mkdirs_step_end:
  assumes "mkdirs_step dirp (length dirp) w = (0, w')" "dirp \<noteq> []"
  shows "fs_get (w_fs w') (resolve dirp) = Some FDir"
proof (cases "sys_stat dirp w")
  case (Inl e)
  with assms show ?thesis
    by (cases rule: sys_mkdir_cases [of dirp w]) (auto simp: mkdirs_step_def Let_def)
next
  case (Inr n)
  with assms sys_stat_Inr [OF Inr] show ?thesis by (auto simp: mkdirs_step_def Let_def split: if_splits)
qed

text \<open>After a successful call the directory is there.\<close>

lemma mkdirs_dir:
  assumes "vdev_mkdirs dirp start w = (0, w')" "start \<le> length dirp" "dirp \<noteq> []"
  shows "fs_get (w_fs w') (resolve dirp) = Some FDir"
proof -
  have "vdev_mkdirs dirp start w = mkdirs_loop dirp ([start..<length dirp] @ [length dirp]) w"
    using assms(2) by (simp add: vdev_mkdirs_def)
  with assms(1) obtain w1 where "mkdirs_step dirp (length dirp) w1 = (0, w')"
    by (auto simp: mkdirs_loop_append split: prod.splits if_splits)
  with assms(3) show ?thesis by (rule mkdirs_step_end [rotated])
qed

section \<open>Making directories and files succeeds\<close>

lemma foldl_no_dots:
  "\<forall>c \<in> set cs. c \<noteq> ''.'' \<and> c \<noteq> ''..'' \<Longrightarrow>
   foldl (\<lambda>acc c. if c = ''.'' then acc else if c = ''..'' then butlast acc else acc @ [c]) acc cs = acc @ cs"
  by (induction cs arbitrary: acc) auto

text \<open>Paths without \<open>.\<close> and \<open>..\<close> mean their components.\<close>

definition dot_free :: "cstr \<Rightarrow> bool" where
  "dot_free p \<longleftrightarrow> ''.'' \<notin> set (path_components p) \<and> ''..'' \<notin> set (path_components p)"

lemma resolve_dot_free: "dot_free p \<Longrightarrow> resolve p = path_components p"
  unfolding resolve_def dot_free_def by (subst foldl_no_dots) auto

lemma resolve_append_name:
  "n \<noteq> ''.'' \<Longrightarrow> n \<noteq> ''..'' \<Longrightarrow> n \<noteq> [] \<Longrightarrow> SLASH \<notin> set n \<Longrightarrow>
   resolve (vdev_fullpath d n) = resolve d @ [n]"
  by (simp add: resolve_def fullpath_components components_name)

text \<open>All ancestors of a path, and the path itself, are directories.\<close>

definition dirs_upto :: "fs \<Rightarrow> fpath \<Rightarrow> bool" where
  "dirs_upto fs p \<longleftrightarrow> (\<forall>k \<le> length p. fs_get fs (take k p) = Some FDir)"

lemma dirs_upto_snoc: "dirs_upto fs (p @ [c]) \<longleftrightarrow> dirs_upto fs p \<and> fs_get fs (p @ [c]) = Some FDir"
  by (auto simp: dirs_upto_def le_Suc_eq)

lemma dirs_upto_self: "dirs_upto fs p \<Longrightarrow> fs_get fs p = Some FDir"
  by (auto simp: dirs_upto_def)

lemma dirs_upto_parent_errno:
  assumes "dirs_upto fs (butlast p)"
  shows "parent_errno fs p = 0"
proof -
  have "find (\<lambda>q. fs_get fs q \<noteq> Some FDir) (map (\<lambda>k. take k p) [1..<length p]) = None"
    using assms by (auto simp: find_None_iff dirs_upto_def take_butlast)
  then show ?thesis by (simp add: parent_errno_def)
qed

lemma dirs_upto_added: "dirs_upto fs p \<Longrightarrow> fs_dirs_added fs fs' \<Longrightarrow> dirs_upto fs' p"
  unfolding dirs_upto_def fs_dirs_added_def by (metis option.distinct(1))

lemma mkdirs_step_creates:
  assumes "\<And>op p. w_fault w op p = 0" "char_at dirp i = SLASH \<or> i = length dirp" "0 < i" "i \<le> length dirp" "dirp \<noteq> []"
    and "dirs_upto (w_fs w) (butlast (resolve (take i dirp)))"
    and "fs_get (w_fs w) (resolve (take i dirp)) \<in> {None, Some FDir}"
  shows "fst (mkdirs_step dirp i w) = 0 \<and> dirs_upto (w_fs (snd (mkdirs_step dirp i w))) (resolve (take i dirp))"
proof -
  let ?p = "resolve (take i dirp)"
  from assms have ne: "take i dirp \<noteq> []" by auto
  have pe: "parent_errno (w_fs w) ?p = 0" using assms(6) by (rule dirs_upto_parent_errno)
  show ?thesis
  proof (cases "fs_get (w_fs w) ?p")
    case None
    then have "?p \<noteq> []" by auto
    then obtain q c where qc: "?p = q @ [c]" by (metis append_butlast_last_id)
    have m: "sys_mkdir (take i dirp) w = (0, emit (EvMkdir (take i dirp)) (w\<lparr>w_fs := fs_put (w_fs w) ?p FDir\<rparr>))"
      using None pe ne assms(1) by (simp add: sys_mkdir_def sys_create_def sys_pre_def)
    have s: "sys_stat (take i dirp) w = Inl ENOENT"
      using None pe ne assms(1) by (simp add: sys_stat_def sys_pre_def lookup_errno_def)
    have "dirs_upto (fs_put (w_fs w) ?p FDir) q"
      using assms(6) qc by (auto simp: dirs_upto_def)
    with qc show ?thesis
      using s m assms(2,3) by (auto simp: mkdirs_step_def Let_def dirs_upto_snoc)
  next
    case (Some n)
    with assms have n: "n = FDir" by simp
    have s: "sys_stat (take i dirp) w = Inr FDir"
      using Some n pe ne assms(1) by (simp add: sys_stat_def sys_pre_def lookup_errno_def)
    have "dirs_upto (w_fs w) ?p"
    proof (cases "?p = []")
      case True
      then show ?thesis by (simp add: dirs_upto_def)
    next
      case False
      then obtain q c where qc: "?p = q @ [c]" by (metis append_butlast_last_id)
      with assms(6) Some n show ?thesis by (simp add: dirs_upto_snoc)
    qed
    with s show ?thesis using assms(2,3) by (auto simp: mkdirs_step_def Let_def)
  qed
qed

lemma dirs_upto_prefix: "dirs_upto fs (p @ q) \<Longrightarrow> dirs_upto fs p"
  by (auto simp: dirs_upto_def dest: spec [where x = "_ :: nat"]) (metis diff_is_0_eq le_add1 le_trans take0 append_Nil2)

lemma dirs_upto_butlast: "dirs_upto fs p \<Longrightarrow> dirs_upto fs (butlast p)"
  by (cases p rule: rev_cases) (auto simp: dirs_upto_snoc)

text \<open>The places where \<open>vdev_mkdirs\<close> cuts a path.\<close>

definition path_cut :: "cstr \<Rightarrow> nat \<Rightarrow> bool" where
  "path_cut p i \<longleftrightarrow> i \<le> length p \<and> (char_at p i = SLASH \<or> i = length p)"

lemma path_cut_prefix:
  assumes "path_cut p i"
  obtains r where "path_components p = path_components (take i p) @ r"
proof (cases "i = length p")
  case True
  with that [of "[]"] show thesis by simp
next
  case False
  with assms have "i < length p" "p ! i = SLASH"
    by (auto simp: path_cut_def char_at_def split: if_splits)
  then have "p = take i p @ SLASH # drop (Suc i) p" by (metis id_take_nth_drop)
  with that show thesis by (metis components_slash)
qed

lemma path_cut_dirs:
  assumes "path_cut p i" "start < i" "start = 0 \<or> char_at p start = SLASH \<or> char_at p (start - 1) = SLASH"
    and start: "dirs_upto fs (path_components (take start p))"
    and before: "\<And>j. start \<le> j \<Longrightarrow> j < i \<Longrightarrow> path_cut p j \<Longrightarrow> dirs_upto fs (path_components (take j p))"
  shows "dirs_upto fs (butlast (path_components (take i p)))"
proof (cases "take i p" rule: path_shape)
  case name
  then have "butlast (path_components (take i p)) = []"
    by (cases "take i p = []") (auto simp: components_name)
  then show ?thesis by (simp add: dirs_upto_def)
next
  case (slash d b)
  let ?j = "length d"
  from assms(1) have i: "i \<le> length p" by (simp add: path_cut_def)
  have p: "p = d @ SLASH # b @ drop i p" using slash(1) append_take_drop_id [of i p] by simp
  have li: "i = Suc (?j + length b)" using arg_cong [OF slash(1), of length] i by simp
  have "dirs_upto fs (path_components d)"
  proof (cases "start \<le> ?j")
    case True
    have "path_cut p ?j" by (subst p) (simp add: path_cut_def char_at_append)
    with before [OF True] li have "dirs_upto fs (path_components (take ?j p))" by simp
    then show ?thesis using p by (metis append_eq_conv_conj)
  next
    case False
    have nb: "char_at p k \<noteq> SLASH" if "?j < k" "k < i" for k
      using that li slash(2) by (subst p) (auto simp: char_at_append char_at_Cons in_set_conv_nth)
    have "\<not> (?j < start - 1)" using nb [of "start - 1"] nb [of start] assms(2,3) False by fastforce
    with False have "start = Suc ?j" by simp
    then have "take start p = d @ [SLASH]" by (subst p) simp
    with start show ?thesis by simp
  qed
  moreover have "butlast (path_components (take i p)) = (if b = [] then butlast (path_components d) else path_components d)"
    using slash(2) by (simp add: slash(1) components_slash components_name)
  ultimately show ?thesis by (simp add: dirs_upto_butlast)
qed


lemma mkdirs_loop_creates:
  assumes calm: "\<And>op p. w_fault w op p = 0" and "dot_free dirp" "0 < start" "start \<le> i" "i \<le> Suc (length dirp)"
    and cut: "start = length dirp \<or> char_at dirp start = SLASH \<or> char_at dirp (start - 1) = SLASH"
    and start: "dirs_upto (w_fs w) (path_components (take start dirp))"
    and free: "\<And>k. fs_get (w_fs w) (take k (path_components dirp)) \<in> {None, Some FDir}"
  shows "fst (mkdirs_loop dirp [start..<i] w) = 0 \<and>
    (\<forall>j. start \<le> j \<and> j < i \<and> path_cut dirp j \<longrightarrow>
       dirs_upto (w_fs (snd (mkdirs_loop dirp [start..<i] w))) (path_components (take j dirp)))"
  using assms(4,5)
proof (induction i rule: dec_induct)
  case base
  then show ?case by auto
next
  case (step i)
  define wi where "wi = snd (mkdirs_loop dirp [start..<i] w)"
  from step have IH: "mkdirs_loop dirp [start..<i] w = (0, wi)"
      "\<And>j. start \<le> j \<Longrightarrow> j < i \<Longrightarrow> path_cut dirp j \<Longrightarrow> dirs_upto (w_fs wi) (path_components (take j dirp))"
    by (auto simp: wi_def prod_eq_iff)
  have fr: "mkdirs_frame w wi" unfolding wi_def by (rule mkdirs_loop_frame)
  then have calm': "w_fault wi op p = 0" and added: "fs_dirs_added (w_fs w) (w_fs wi)" for op p
    using calm by (simp_all add: mkdirs_frame_def)
  have loop: "mkdirs_loop dirp [start..<Suc i] w = mkdirs_step dirp i wi"
    using step(1) IH(1) by (simp add: mkdirs_loop_append prod_eq_iff case_prod_beta)
  have keep: "dirs_upto (w_fs (snd (mkdirs_step dirp i wi))) q" if "dirs_upto (w_fs wi) q" for q
    using dirs_upto_added [OF that] mkdirs_step_frame [of wi dirp i] by (simp add: mkdirs_frame_def)
  show ?case
  proof (cases "path_cut dirp i")
    case False
    with step.prems have "mkdirs_step dirp i wi = (0, wi)" by (simp add: mkdirs_step_def path_cut_def)
    with IH(2) False show ?thesis unfolding loop by (auto simp: less_Suc_eq)
  next
    case True
    obtain r where r: "path_components dirp = path_components (take i dirp) @ r" using True by (rule path_cut_prefix)
    with \<open>dot_free dirp\<close> have res: "resolve (take i dirp) = path_components (take i dirp)"
      by (intro resolve_dot_free) (auto simp: dot_free_def)
    have s0: "dirs_upto (w_fs wi) (path_components (take start dirp))" using start added by (rule dirs_upto_added)
    have up: "dirs_upto (w_fs wi) (butlast (path_components (take i dirp)))"
    proof (cases "i = start")
      case True
      with s0 show ?thesis by (simp add: dirs_upto_butlast)
    next
      case False
      with step have "start < i" by simp
      from True this _ s0 IH(2) show ?thesis
        by (rule path_cut_dirs) (use cut \<open>start < i\<close> True in \<open>auto simp: path_cut_def\<close>)
    qed
    have "fs_get (w_fs wi) (path_components (take i dirp)) \<in> {None, Some FDir}"
      using free [of "length (path_components (take i dirp))"] r
        spec [OF added [unfolded fs_dirs_added_def], of "path_components (take i dirp)"] by auto
    with True up have "fst (mkdirs_step dirp i wi) = 0 \<and>
        dirs_upto (w_fs (snd (mkdirs_step dirp i wi))) (resolve (take i dirp))"
      using step(1) assms(3) by (intro mkdirs_step_creates [OF calm']) (auto simp: path_cut_def res)
    with IH(2) keep show ?thesis unfolding loop by (auto simp: less_Suc_eq res)
  qed
qed

text \<open>The directories that are made are all on the way.\<close>

lemma mkdirs_step_where:
  assumes "fs_get (w_fs (snd (mkdirs_step dirp i w))) q \<noteq> fs_get (w_fs w) q" "0 < i" "i \<le> length dirp"
  shows "path_cut dirp i \<and> q = resolve (take i dirp)"
proof (cases rule: sys_mkdir_cases [of "take i dirp" w])
  case (fail e)
  with assms show ?thesis by (auto simp: mkdirs_step_def Let_def split: sum.splits if_splits)
next
  case made
  with assms show ?thesis
    by (auto simp: mkdirs_step_def path_cut_def Let_def split: sum.splits if_splits)
qed

lemma mkdirs_loop_where:
  "fs_get (w_fs (snd (mkdirs_loop dirp is w))) q \<noteq> fs_get (w_fs w) q \<Longrightarrow> \<forall>i \<in> set is. 0 < i \<and> i \<le> length dirp \<Longrightarrow>
   \<exists>i. path_cut dirp i \<and> q = resolve (take i dirp)"
proof (induction "is" arbitrary: w)
  case (Cons i "is")
  show ?case
  proof (cases "fs_get (w_fs (snd (mkdirs_step dirp i w))) q = fs_get (w_fs w) q")
    case True
    with Cons.prems Cons.IH [of "snd (mkdirs_step dirp i w)"] show ?thesis
      by (auto simp: case_prod_beta split: if_splits)
  next
    case False
    with Cons.prems mkdirs_step_where show ?thesis by (metis list.set_intros(1))
  qed
qed simp

lemma mkdirs_creates:
  assumes "\<And>op p. w_fault w op p = 0" "dot_free dirp" "0 < start" "start \<le> length dirp"
    and "start = length dirp \<or> char_at dirp start = SLASH \<or> char_at dirp (start - 1) = SLASH"
    and "dirs_upto (w_fs w) (path_components (take start dirp))"
    and "\<And>k. fs_get (w_fs w) (take k (path_components dirp)) \<in> {None, Some FDir}"
  obtains w' where "vdev_mkdirs dirp start w = (0, w')" "dirs_upto (w_fs w') (path_components dirp)" "mkdirs_frame w w'"
    "\<And>q. fs_get (w_fs w') q \<noteq> fs_get (w_fs w) q \<Longrightarrow> \<exists>k. q = take k (path_components dirp)"
proof -
  let ?w = "snd (vdev_mkdirs dirp start w)"
  have c: "path_cut dirp (length dirp)" by (simp add: path_cut_def)
  have "fst (vdev_mkdirs dirp start w) = 0 \<and> dirs_upto (w_fs ?w) (path_components dirp)"
    using mkdirs_loop_creates [OF assms(1-3) _ _ assms(5-7), of "Suc (length dirp)"] assms(4) c
    unfolding vdev_mkdirs_def by (metis le_SucI lessI order_refl take_all)
  moreover have "mkdirs_frame w ?w"
    unfolding vdev_mkdirs_def by (rule mkdirs_loop_frame)
  moreover have "\<exists>k. q = take k (path_components dirp)" if d: "fs_get (w_fs ?w) q \<noteq> fs_get (w_fs w) q" for q
  proof -
    obtain i where i: "path_cut dirp i" "q = resolve (take i dirp)"
      using mkdirs_loop_where [OF d [unfolded vdev_mkdirs_def]] assms(3) by fastforce
    obtain r where r: "path_components dirp = path_components (take i dirp) @ r" using i(1) by (rule path_cut_prefix)
    with assms(2) have "q = path_components (take i dirp)"
      unfolding i(2) by (intro resolve_dot_free) (auto simp: dot_free_def)
    with r show ?thesis by (metis append_eq_conv_conj)
  qed
  ultimately show thesis using that by (metis prod.collapse)
qed

lemma snoc_not_take: "xs @ [x] \<noteq> take k xs"
proof
  assume "xs @ [x] = take k xs"
  then have "length (xs @ [x]) = length (take k xs)" by simp
  then show False by simp
qed

lemma write_once: "b \<noteq> [] \<Longrightarrow> length b < 2 ^ 32 \<Longrightarrow> vdev_write_uninterrupted [Accept (length b)] b = Some (int (length b), b)"
  by (simp add: vdev_write_uninterrupted_def)

lemma write_file_stores:
  assumes "\<And>op p. w_fault w op p = 0" "p \<noteq> []" "b \<noteq> []" "length b < 2 ^ 32"
    and "dirs_upto (w_fs w) (butlast (resolve p))" "\<And>m d. fs_get (w_fs w) (resolve p) \<noteq> Some (FDev m d)"
    and "fs_get (w_fs w) (resolve p) \<noteq> Some FDir"
  obtains w' where "vdev_write_file (Some p) (Some b) True w = (int (length b), w')"
    "\<And>q. fs_get (w_fs w') q = (if q = resolve p then Some (FReg b) else fs_get (w_fs w) q)"
    "\<And>op p. w_fault w' op p = 0"
proof -
  let ?r = "resolve p"
  have r: "?r \<noteq> []" using assms(7) by auto
  have pe: "parent_errno (w_fs w) ?r = 0" using assms(5) by (rule dirs_upto_parent_errno)
  define w1 where "w1 = w\<lparr>w_fs := fs_put (w_fs w) ?r (FReg [])\<rparr>"
  have o: "sys_open_write True p w = (0, w1)"
    using assms(1,2,6,7) pe by (auto simp: sys_open_write_def sys_pre_def w1_def Let_def split: option.splits fnode.splits)
  have g: "fs_get (w_fs w1) ?r = Some (FReg [])" using r by (simp add: w1_def)
  define w2 where "w2 = emit (EvWrite p b) (w1\<lparr>w_fs := fs_put (w_fs w1) ?r (FReg b)\<rparr>)"
  have "vdev_write_file (Some p) (Some b) True w = (int (length b), w2)"
    using write_once [OF assms(3,4)] g assms(1) by (simp add: vdev_write_file_def o file_append_def w2_def)
  then show thesis
    by (rule that) (use r assms(1) in \<open>simp_all add: w2_def w1_def\<close>)
qed

lemma fullpath_take: "take (length mp) (vdev_fullpath mp p) = mp"
  by (simp add: vdev_fullpath_def)

lemma fullpath_cut:
  "mp \<noteq> [] \<Longrightarrow> p \<noteq> [] \<Longrightarrow> char_at (vdev_fullpath mp p) (length mp) = SLASH \<or> char_at (vdev_fullpath mp p) (length mp - 1) = SLASH"
  by (cases mp rule: rev_cases) (auto simp: vdev_fullpath_def char_at_append char_at_Cons)

text \<open>A file system with some nodes set, and directories added.\<close>

definition fs_extends :: "fs \<Rightarrow> (fpath \<rightharpoonup> fnode) \<Rightarrow> fs \<Rightarrow> bool" where
  "fs_extends fs m fs' \<longleftrightarrow>
     (\<forall>q. case m q of Some n \<Rightarrow> fs_get fs' q = Some n
          | None \<Rightarrow> fs_get fs' q = fs_get fs q \<or> fs_get fs q = None \<and> fs_get fs' q = Some FDir)"

lemma fs_extends_dirs: "fs_dirs_added fs fs' \<Longrightarrow> fs_extends fs Map.empty fs'"
  by (simp add: fs_extends_def fs_dirs_added_def)

lemma fs_extends_upd:
  "(\<And>q. fs_get fs' q = (if q = p then Some n else fs_get fs q)) \<Longrightarrow> fs_extends fs [p \<mapsto> n] fs'"
  by (simp add: fs_extends_def)

lemma fs_extends_trans:
  assumes "fs_extends a m b" "fs_extends b m' c"
  shows "fs_extends a (m ++ m') c"
  unfolding fs_extends_def
proof
  fix q
  show "case (m ++ m') q of Some n \<Rightarrow> fs_get c q = Some n
      | None \<Rightarrow> fs_get c q = fs_get a q \<or> fs_get a q = None \<and> fs_get c q = Some FDir"
    using spec [OF assms(1) [unfolded fs_extends_def], of q] spec [OF assms(2) [unfolded fs_extends_def], of q]
    by (cases "m q"; cases "m' q") (auto simp: map_add_def)
qed

lemma fullpath_dirname:
  "d \<noteq> [] \<Longrightarrow> hd d \<noteq> SLASH \<Longrightarrow> SLASH \<notin> set b \<Longrightarrow> b \<noteq> [] \<Longrightarrow> vdev_dirname (vdev_fullpath mp (d @ SLASH # b)) = vdev_fullpath mp d"
  using dirname_slash [of b "mp @ SLASH # d"] dirname_slash [of b "mp @ d"]
  by (cases d) (auto simp: vdev_fullpath_def)

lemma mknod_creates:
  assumes "\<And>op p. w_fault w op p = 0" "p \<noteq> []" "dirs_upto (w_fs w) (butlast (resolve p))" "fs_get (w_fs w) (resolve p) = None"
  obtains w' where "sys_mknod p m d w = (0, w')" "\<And>op p. w_fault w' op p = 0"
    "\<And>q. fs_get (w_fs w') q = (if q = resolve p then Some (FDev m d) else fs_get (w_fs w) q)"
proof -
  from assms(4) have "resolve p \<noteq> []" by auto
  with assms dirs_upto_parent_errno [OF assms(3)] show thesis
    by (intro that [of "emit (EvMknod p m d) (w\<lparr>w_fs := fs_put (w_fs w) (resolve p) (FDev m d)\<rparr>)"])
      (auto simp: sys_mknod_def sys_create_def sys_pre_def)
qed

end
