(* ===== verification/Vdevfs_Acl.thy ===== *)
theory Vdevfs_Acl
  imports Libvdev_Config Libvdev_Match Vdevd_World
begin

text \<open>
  \<^verbatim>\<open>fs/acl.c\<close>: access control lists of vdevfs. An ACL selects callers (user, group, process) and
  device paths (regular expressions), and rewrites owner, group and permission bits of what
  \<open>stat\<close> reports. A device that no ACL matches is hidden.

  Parameters: the user and group databases (\<open>getpwnam_r\<close> and its relatives), the regular
  expression library, and the description of the calling process that \<open>libpstat\<close> delivers.
\<close>

section \<open>Users and groups\<close>

type_synonym uid_t = "32 word"
type_synonym gid_t = "32 word"

text \<open>A database look-up meets an error, finds nothing, or finds an entry with an id.\<close>

record accounts =
  ac_getpwnam :: "cstr \<Rightarrow> rc + uid_t option"
  ac_getgrnam :: "cstr \<Rightarrow> rc + gid_t option"
  ac_getpwuid :: "uid_t \<Rightarrow> rc + uid_t option"
  ac_getgrgid :: "gid_t \<Rightarrow> rc + gid_t option"

definition vdev_get_passwd :: "accounts \<Rightarrow> cstr \<Rightarrow> rc + uid_t" where
  "vdev_get_passwd db username =
     (case ac_getpwnam db username of
        Inl errno \<Rightarrow> Inl (- errno) | Inr None \<Rightarrow> Inl (- ENOENT) | Inr (Some uid) \<Rightarrow> Inr uid)"

definition vdev_get_group :: "accounts \<Rightarrow> cstr \<Rightarrow> rc + gid_t" where
  "vdev_get_group db groupname =
     (case ac_getgrnam db groupname of
        Inl errno \<Rightarrow> Inl (- errno) | Inr None \<Rightarrow> Inl (- ENOENT) | Inr (Some gid) \<Rightarrow> Inr gid)"

definition vdev_parse_uid :: "accounts \<Rightarrow> cstr \<Rightarrow> rc + uid_t" where
  "vdev_parse_uid db uid_str =
     (case vdev_parse_uint64 uid_str of (v, parsed) \<Rightarrow>
        if parsed then Inr (ucast v) else vdev_get_passwd db uid_str)"

definition vdev_parse_gid :: "accounts \<Rightarrow> cstr \<Rightarrow> rc + gid_t" where
  "vdev_parse_gid db gid_str =
     (case vdev_parse_uint64 gid_str of (v, parsed) \<Rightarrow>
        if parsed then Inr (ucast v) else vdev_get_group db gid_str)"

definition vdev_validate_uid :: "accounts \<Rightarrow> uid_t \<Rightarrow> rc" where
  "vdev_validate_uid db uid =
     (case ac_getpwuid db uid of
        Inl errno \<Rightarrow> - errno
      | Inr None \<Rightarrow> - ENOENT
      | Inr (Some pw_uid) \<Rightarrow> if uid \<noteq> pw_uid then - EINVAL else 0)"

definition vdev_validate_gid :: "accounts \<Rightarrow> gid_t \<Rightarrow> rc" where
  "vdev_validate_gid db gid =
     (case ac_getgrgid db gid of
        Inl errno \<Rightarrow> - errno
      | Inr None \<Rightarrow> - ENOENT
      | Inr (Some gr_gid) \<Rightarrow> if gid \<noteq> gr_gid then - EINVAL else 0)"

section \<open>The ACL and its parser\<close>

record vdev_acl =
  acl_has_uid :: bool
  acl_uid :: uid_t
  acl_has_gid :: bool
  acl_gid :: gid_t
  acl_has_proc :: bool
  acl_proc_path :: "cstr option"
  acl_proc_predicate_cmd :: "cstr option"
  acl_has_proc_inode :: bool
  acl_proc_inode :: uint64
  acl_has_setuid :: bool
  acl_setuid :: uid_t
  acl_has_setgid :: bool
  acl_setgid :: gid_t
  acl_has_setmode :: bool
  acl_setmode :: mode_t
  acl_paths :: regex_list

definition vdev_acl_init :: vdev_acl where
  "vdev_acl_init = \<lparr>acl_has_uid = False, acl_uid = 0, acl_has_gid = False, acl_gid = 0,
     acl_has_proc = False, acl_proc_path = None, acl_proc_predicate_cmd = None,
     acl_has_proc_inode = False, acl_proc_inode = 0, acl_has_setuid = False, acl_setuid = 0,
     acl_has_setgid = False, acl_setgid = 0, acl_has_setmode = False, acl_setmode = 0,
     acl_paths = \<lparr>rl_strings = [], rl_regexes = [], rl_len = 0\<rparr>\<rparr>"

definition vdev_acl_parse_mode :: "cstr \<Rightarrow> rc \<times> mode_t" where
  "vdev_acl_parse_mode mode_str =
     (case strtoll 8 mode_str of (v, tmp) \<Rightarrow>
        (if tmp \<noteq> [] then - EINVAL else 0, and (word_of_int v) 0x1FF))"

definition vdev_acl_ini_parser :: "accounts \<Rightarrow> regex_lib \<Rightarrow> vdev_acl ini_callback" where
  "vdev_acl_ini_parser db lib acl sect name value =
     (if sect \<noteq> ''vdev-acl'' then (0, acl)
      else if name = ''uid'' then
        (case vdev_parse_uid db value of
           Inl rc \<Rightarrow> (0, acl) | Inr uid \<Rightarrow> (1, acl\<lparr>acl_has_uid := True, acl_uid := uid\<rparr>))
      else if name = ''setuid'' then
        (case vdev_parse_uid db value of
           Inl rc \<Rightarrow> (0, acl) | Inr uid \<Rightarrow> (1, acl\<lparr>acl_has_setuid := True, acl_setuid := uid\<rparr>))
      else if name = ''gid'' then
        (case vdev_parse_gid db value of
           Inl rc \<Rightarrow> (0, acl) | Inr gid \<Rightarrow> (1, acl\<lparr>acl_has_gid := True, acl_gid := gid\<rparr>))
      else if name = ''setgid'' then
        (case vdev_parse_gid db value of
           Inl rc \<Rightarrow> (0, acl) | Inr gid \<Rightarrow> (1, acl\<lparr>acl_has_setgid := True, acl_setgid := gid\<rparr>))
      else if name = ''setmode'' then
        (case vdev_acl_parse_mode value of (rc, mode) \<Rightarrow>
           if rc \<noteq> 0 then (0, acl) else (1, acl\<lparr>acl_has_setmode := True, acl_setmode := mode\<rparr>))
      else if name = ''paths'' then
        (case vdev_match_regex_append lib (True, True) (acl_paths acl) value of (rc, rl) \<Rightarrow>
           (if rc \<noteq> 0 then 0 else 1, acl\<lparr>acl_paths := rl\<rparr>))
      else if name = ''bin'' then
        (if acl_proc_path acl \<noteq> None then (0, acl)
         else (1, acl\<lparr>acl_has_proc := True, acl_proc_path := Some value\<rparr>))
      else if name = ''predicate'' then
        (if acl_proc_predicate_cmd acl \<noteq> None then (0, acl)
         else (1, acl\<lparr>acl_has_proc := True, acl_proc_predicate_cmd := Some value\<rparr>))
      else if name = ''inode'' then
        (case vdev_parse_uint64 value of (inode, success) \<Rightarrow>
           if \<not> success then (0, acl) else (1, acl\<lparr>acl_has_proc := True, acl_proc_inode := inode\<rparr>))
      else (0, acl))"

text \<open>\<open>vdev_acl_sanity_check\<close>, with the ids it really validates.\<close>

definition vdev_acl_sanity_check :: "accounts \<Rightarrow> vdev_acl \<Rightarrow> rc" where
  "vdev_acl_sanity_check db acl =
     (let rc1 = (if acl_has_gid acl then vdev_validate_gid db (acl_gid acl) else 0)
      in if rc1 \<noteq> 0 then rc1
         else let rc2 = (if acl_has_setgid acl then vdev_validate_gid db (acl_gid acl) else rc1)
         in if rc2 \<noteq> 0 then rc2
         else let rc3 = (if acl_has_uid acl then vdev_validate_uid db (acl_uid acl) else rc2)
         in if rc3 \<noteq> 0 then rc3
         else (if acl_has_setuid acl then vdev_validate_uid db (acl_uid acl) else rc3))"

definition vdev_acl_load_file :: "accounts \<Rightarrow> regex_lib \<Rightarrow> char list \<Rightarrow> rc \<times> vdev_acl" where
  "vdev_acl_load_file db lib file =
     (case ini_parse_file (vdev_acl_ini_parser db lib) vdev_acl_init file of (rc, acl) \<Rightarrow>
        if rc \<noteq> 0 then (rc, acl)
        else (let rc = vdev_acl_sanity_check db acl
              in if rc \<noteq> 0 then (rc, vdev_acl_init) else (rc, acl)))"

definition vdev_acl_load :: "accounts \<Rightarrow> regex_lib \<Rightarrow> cstr \<Rightarrow> world \<Rightarrow> vdev_acl \<Rightarrow> rc \<times> vdev_acl" where
  "vdev_acl_load db lib path w acl =
     (case sys_open_read path w of
        Inl e \<Rightarrow> (- e, acl)
      | Inr file \<Rightarrow> vdev_acl_load_file db lib file)"

text \<open>The loader appends to the vector of ACLs; what is not a regular file is skipped.\<close>

definition vdev_acl_loader :: "accounts \<Rightarrow> regex_lib \<Rightarrow> world \<Rightarrow> cstr \<Rightarrow> vdev_acl list \<Rightarrow> rc \<times> vdev_acl list" where
  "vdev_acl_loader db lib w fp acls =
     (case sys_stat fp w of
        Inl e \<Rightarrow> (- e, acls)
      | Inr (FReg _) \<Rightarrow>
          (case vdev_acl_load db lib fp w vdev_acl_init of (rc, acl) \<Rightarrow>
             if rc \<noteq> 0 then (rc, acls) else (0, acls @ [acl]))
      | Inr _ \<Rightarrow> (0, acls))"

definition vdev_acl_load_all :: "accounts \<Rightarrow> regex_lib \<Rightarrow> cstr \<Rightarrow> world \<Rightarrow> rc + vdev_acl list" where
  "vdev_acl_load_all db lib dir_path w =
     (case vdev_load_all (Some dir_path) (vdev_acl_loader db lib w) w [] of (rc, acls) \<Rightarrow>
        if rc \<noteq> 0 then Inl rc else Inr acls)"

section \<open>Matching and applying\<close>

text \<open>The fields of \<open>struct stat\<close> that ACLs rewrite.\<close>

record vstat =
  st_uid :: uid_t
  st_gid :: gid_t
  st_mode :: mode_t

text \<open>What \<open>libpstat\<close> knows of the calling process.\<close>

record pstat =
  ps_pid :: int
  ps_path :: cstr
  ps_ino :: uint64

definition vdev_acl_do_set_user :: "vdev_acl \<Rightarrow> uid_t \<Rightarrow> vstat \<Rightarrow> vstat" where
  "vdev_acl_do_set_user acl caller_uid sb =
     (if acl_has_setuid acl \<and> acl_has_uid acl \<and> acl_uid acl = caller_uid
      then sb\<lparr>st_uid := acl_setuid acl\<rparr> else sb)"

definition vdev_acl_do_set_group :: "vdev_acl \<Rightarrow> gid_t \<Rightarrow> vstat \<Rightarrow> vstat" where
  "vdev_acl_do_set_group acl caller_gid sb =
     (if acl_has_setgid acl \<and> acl_has_gid acl \<and> acl_gid acl = caller_gid
      then sb\<lparr>st_gid := acl_setgid acl\<rparr> else sb)"

definition vdev_acl_do_set_mode :: "vdev_acl \<Rightarrow> vstat \<Rightarrow> vstat" where
  "vdev_acl_do_set_mode acl sb =
     (if acl_has_setmode acl
      then sb\<lparr>st_mode := or (and (st_mode sb) (not 0x1FF)) (acl_setmode acl)\<rparr> else sb)"

definition vdev_acl_apply :: "vdev_acl \<Rightarrow> uid_t \<Rightarrow> gid_t \<Rightarrow> vstat \<Rightarrow> vstat" where
  "vdev_acl_apply acl caller_uid caller_gid sb =
     vdev_acl_do_set_mode acl (vdev_acl_do_set_group acl caller_gid (vdev_acl_do_set_user acl caller_uid sb))"

text \<open>The command buffer of \<open>vdev_acl_run_predicate\<close> is never filled: it is \<open>NULL\<close> at the call.\<close>

definition vdev_acl_run_predicate :: "vdev_acl \<Rightarrow> pstat \<Rightarrow> uid_t \<Rightarrow> gid_t \<Rightarrow> world \<Rightarrow> rc \<times> int" where
  "vdev_acl_run_predicate acl ps caller_uid caller_gid w =
     (let cmd_buf = None;
          env = [''VDEV_UID='' @ show_nat (unat caller_uid), ''VDEV_GID='' @ show_nat (unat caller_gid),
                 ''VDEV_PID='' @ show_int (ps_pid ps)]
      in case vdev_subprocess cmd_buf env 0 True w of (rc, exit_status, _, _) \<Rightarrow>
           if rc \<noteq> 0 then (rc, 0) else (0, exit_status))"

definition vdev_acl_match_process :: "vdev_acl \<Rightarrow> pstat \<Rightarrow> uid_t \<Rightarrow> gid_t \<Rightarrow> world \<Rightarrow> rc" where
  "vdev_acl_match_process acl ps caller_uid caller_gid w =
     (if \<not> acl_has_proc acl then 1
      else if acl_proc_path acl \<noteq> None \<and> acl_proc_path acl \<noteq> Some (ps_path ps) then 0
      else if acl_has_proc_inode acl \<and> acl_proc_inode acl \<noteq> ps_ino ps then 0
      else if acl_proc_predicate_cmd acl \<noteq> None then
        (case vdev_acl_run_predicate acl ps caller_uid caller_gid w of (rc, exit_status) \<Rightarrow>
           if rc \<noteq> 0 then rc else if exit_status = 0 then 1 else 0)
      else 1)"

text \<open>The calling context of a request to vdevfs.\<close>

record acl_caller =
  cl_path :: cstr
  cl_proc :: pstat
  cl_uid :: uid_t
  cl_gid :: gid_t

text \<open>One turn of the loop of \<open>vdev_acl_find_next\<close>: positive on a match, 0 to go on, negative on error.\<close>

definition acl_test :: "regex_lib \<Rightarrow> world \<Rightarrow> acl_caller \<Rightarrow> vdev_acl \<Rightarrow> rc" where
  "acl_test lib w cl acl =
     (if acl_has_uid acl \<and> acl_uid acl \<noteq> cl_uid cl then 0
      else if acl_has_gid acl \<and> acl_gid acl \<noteq> cl_gid cl then 0
      else
        (let rc = (if rl_len (acl_paths acl) > 0
                   then vdev_match_first_regex lib (cl_path cl) (take (rl_len (acl_paths acl)) (rl_regexes (acl_paths acl)))
                   else 0)
         in if rl_len (acl_paths acl) > 0 \<and> rc \<ge> int (rl_len (acl_paths acl)) then 0
            else if rc < 0 then rc
            else vdev_acl_match_process acl (cl_proc cl) (cl_uid cl) (cl_gid cl) w))"

fun acl_find_loop :: "regex_lib \<Rightarrow> world \<Rightarrow> acl_caller \<Rightarrow> nat \<Rightarrow> vdev_acl list \<Rightarrow> rc" where
  "acl_find_loop lib w cl i [] = int i"
| "acl_find_loop lib w cl i (acl # acls) =
     (let rc = acl_test lib w cl acl
      in if rc = 0 then acl_find_loop lib w cl (Suc i) acls else if rc < 0 then rc else int i)"

definition vdev_acl_find_next :: "regex_lib \<Rightarrow> world \<Rightarrow> acl_caller \<Rightarrow> vdev_acl list \<Rightarrow> rc" where
  "vdev_acl_find_next lib w cl acls = acl_find_loop lib w cl 0 acls"

text \<open>The loop of \<open>vdev_acl_apply_all\<close> over the ACLs from \<open>acl_offset\<close> on.\<close>

function acl_apply_loop ::
  "regex_lib \<Rightarrow> world \<Rightarrow> acl_caller \<Rightarrow> vdev_acl list \<Rightarrow> bool \<Rightarrow> vstat \<Rightarrow> rc \<times> bool \<times> vstat" where
  "acl_apply_loop lib w cl acls found sb =
     (if acls = [] then (0, found, sb)
      else
        (let rc = vdev_acl_find_next lib w cl acls
         in if rc = int (length acls) then (0, found, sb)
            else if rc < 0 then (rc, found, sb)
            else acl_apply_loop lib w cl (drop (nat rc + 1) acls) True
                   (vdev_acl_apply (acls ! nat rc) (cl_uid cl) (cl_gid cl) sb)))"
  by pat_completeness auto
termination
  by (relation "measure (\<lambda>(lib, w, cl, acls, f, sb). length acls)") auto

declare acl_apply_loop.simps [simp del]

definition vdev_acl_apply_all ::
  "regex_lib \<Rightarrow> world \<Rightarrow> vdev_config \<Rightarrow> vdev_acl list \<Rightarrow> acl_caller \<Rightarrow> vstat \<Rightarrow> rc \<times> vstat" where
  "vdev_acl_apply_all lib w config acls cl sb =
     (if acls = [] then (conf_default_policy config, sb)
      else (case acl_apply_loop lib w cl acls False sb of (rc, found, sb') \<Rightarrow>
              (if rc = 0 \<and> found then 1 else rc, sb')))"

section \<open>The search loop\<close>

interpretation acl_scan: first_match "acl_test lib w cl" "acl_find_loop lib w cl" for lib w cl
  by unfold_locales (auto simp: Let_def)

text \<open>The whole list in one pass: apply every ACL that matches, stop at the first error.\<close>

fun acl_pass ::
  "(vdev_acl \<Rightarrow> rc) \<Rightarrow> (vdev_acl \<Rightarrow> vstat \<Rightarrow> vstat) \<Rightarrow> vdev_acl list \<Rightarrow> bool \<Rightarrow> vstat \<Rightarrow> rc \<times> bool \<times> vstat" where
  "acl_pass test app [] found sb = (0, found, sb)"
| "acl_pass test app (a # as) found sb =
     (if test a > 0 then acl_pass test app as True (app a sb)
      else if test a < 0 then (test a, found, sb)
      else acl_pass test app as found sb)"

lemma acl_pass_skip: "(\<forall>a \<in> set ys. test a = 0) \<Longrightarrow> acl_pass test app (ys @ xs) f sb = acl_pass test app xs f sb"
  by (induction ys) auto

lemma acl_apply_loop_pass:
  "acl_apply_loop lib w cl acls found sb =
   acl_pass (acl_test lib w cl) (\<lambda>a. vdev_acl_apply a (cl_uid cl) (cl_gid cl)) acls found sb"
proof (induction acls arbitrary: found sb rule: length_induct)
  case (1 acls)
  show ?case
  proof (cases rule: acl_scan.scan_cases [of acls lib w cl 0])
    case none
    with acl_pass_skip [of acls "acl_test lib w cl" _ "[]"] show ?thesis
      by (subst acl_apply_loop.simps) (simp add: vdev_acl_find_next_def)
  next
    case (found ys x zs)
    then have "acl_apply_loop lib w cl acls found sb =
        acl_apply_loop lib w cl zs True (vdev_acl_apply x (cl_uid cl) (cl_gid cl) sb)" for found sb
      by (subst acl_apply_loop.simps) (simp add: vdev_acl_find_next_def Let_def)
    with 1 found show ?thesis by (simp add: acl_pass_skip)
  next
    case (error ys x zs)
    then show ?thesis
      by (subst acl_apply_loop.simps) (simp add: vdev_acl_find_next_def Let_def acl_pass_skip)
  qed
qed

lemma acl_pass_result:
  "acl_pass test app acls found sb =
    (let ok = takeWhile (\<lambda>a. 0 \<le> test a) acls; matched = filter (\<lambda>a. 0 < test a) ok
     in (if length ok < length acls then test (acls ! length ok) else 0,
         found \<or> matched \<noteq> [], foldl (\<lambda>sb a. app a sb) sb matched))"
  by (induction acls arbitrary: found sb) (auto simp: Let_def)

text \<open>
  C19: What a request to vdevfs sees under a non-empty list of ACLs, in every case. The ACLs are
  tried in order up to the first one whose test fails with an error; every one that matches is
  applied, in order. With an error the request gets that error; without one the device is
  visible (1) exactly when some ACL matched and hidden (0) otherwise.
\<close>

theorem acl_apply_all_result:
  assumes "acls \<noteq> []"
  shows "vdev_acl_apply_all lib w config acls cl sb =
    (let test = acl_test lib w cl;
         ok = takeWhile (\<lambda>a. 0 \<le> test a) acls;
         matched = filter (\<lambda>a. 0 < test a) ok
     in (if length ok < length acls then test (acls ! length ok) else if matched = [] then 0 else 1,
         foldl (\<lambda>sb a. vdev_acl_apply a (cl_uid cl) (cl_gid cl) sb) sb matched))"
proof -
  let ?test = "acl_test lib w cl"
  let ?ok = "takeWhile (\<lambda>a. 0 \<le> ?test a) acls"
  have "?test (acls ! length ?ok) \<noteq> 0" if "length ?ok < length acls"
    using nth_length_takeWhile [OF that] by auto
  then show ?thesis
    using assms by (simp add: vdev_acl_apply_all_def acl_apply_loop_pass acl_pass_result Let_def)
qed

definition acl_witness_caller :: acl_caller where
  "acl_witness_caller = \<lparr>cl_path = ''tty1'', cl_proc = \<lparr>ps_pid = 7, ps_path = ''/bin/sh'', ps_ino = 3\<rparr>,
     cl_uid = 1000, cl_gid = 100\<rparr>"

definition acl_witness_list :: "vdev_acl list" where
  "acl_witness_list =
     [vdev_acl_init\<lparr>acl_has_uid := True, acl_uid := 5, acl_has_setmode := True, acl_setmode := 0\<rparr>,
      vdev_acl_init\<lparr>acl_has_uid := True, acl_uid := 1000, acl_has_setuid := True, acl_setuid := 1000,
        acl_has_setmode := True, acl_setmode := 0x180,
        acl_paths := \<lparr>rl_strings = [''tty1''], rl_regexes = [''tty1''], rl_len = 1\<rparr>\<rparr>]"

theorem acl_apply_all_result_witness:
  "acl_witness_list \<noteq> [] \<and>
   vdev_acl_apply_all literal_regex_lib calm_world vdev_config_init acl_witness_list acl_witness_caller
     \<lparr>st_uid = 0, st_gid = 0, st_mode = 0x21B6\<rparr> = (1, \<lparr>st_uid = 1000, st_gid = 0, st_mode = 0x2180\<rparr>)"
proof
  show ne: "acl_witness_list \<noteq> []" by (simp add: acl_witness_list_def)
  have t: "acl_test literal_regex_lib calm_world acl_witness_caller (acl_witness_list ! 0) = 0"
    "acl_test literal_regex_lib calm_world acl_witness_caller (acl_witness_list ! 1) = 1"
    by (simp_all add: acl_test_def acl_witness_list_def acl_witness_caller_def literal_regex_lib_def vdev_acl_init_def
        vdev_match_first_regex_def vdev_match_regex_def vdev_acl_match_process_def Let_def)
  show "vdev_acl_apply_all literal_regex_lib calm_world vdev_config_init acl_witness_list acl_witness_caller
     \<lparr>st_uid = 0, st_gid = 0, st_mode = 0x21B6\<rparr> = (1, \<lparr>st_uid = 1000, st_gid = 0, st_mode = 0x2180\<rparr>)"
    unfolding acl_apply_all_result [OF ne] using t
    by (simp add: acl_witness_list_def Let_def vdev_acl_apply_def vdev_acl_do_set_mode_def vdev_acl_do_set_user_def
        vdev_acl_do_set_group_def vdev_acl_init_def acl_witness_caller_def)
qed

section \<open>ACLs that come from files\<close>

definition acl_wf :: "regex_lib \<Rightarrow> vdev_acl \<Rightarrow> bool" where
  "acl_wf lib acl \<longleftrightarrow> and (acl_setmode acl) (not 0x1FF) = 0 \<and>
     rl_len (acl_paths acl) = length (rl_regexes (acl_paths acl)) \<and>
     rl_strings (acl_paths acl) = rl_regexes (acl_paths acl) \<and>
     (\<forall>r \<in> set (rl_regexes (acl_paths acl)). rx_valid lib r) \<and>
     \<not> acl_has_proc_inode acl"

lemma acl_init_wf [simp]: "acl_wf lib vdev_acl_init"
  by (simp add: acl_wf_def vdev_acl_init_def)

lemma acl_mode_bits: "and (and m 0x1FF) (- 0x200) = (0 :: mode_t)"
  by (simp add: and.assoc)

interpretation acl_file: ini_handler "vdev_acl_ini_parser db lib" "acl_wf lib" for db lib
proof unfold_locales
  fix acl sect name val
  assume wf: "acl_wf lib acl"
  have "acl_wf lib (acl\<lparr>acl_paths := snd (vdev_match_regex_append lib (True, True) (acl_paths acl) val)\<rparr>)"
    using wf by (auto simp: acl_wf_def vdev_match_regex_append_def)
  with wf show "acl_wf lib (snd (vdev_acl_ini_parser db lib acl sect name val))"
    by (simp add: vdev_acl_ini_parser_def acl_wf_def vdev_acl_parse_mode_def acl_mode_bits case_prod_beta
        split: sum.splits)
qed

lemma acl_load_file_wf: "vdev_acl_load_file db lib file = (0, acl) \<Longrightarrow> acl_wf lib acl"
  using acl_file.parse_invar [OF acl_init_wf [of lib], where db = db and f = "Some file"]
  by (auto simp: vdev_acl_load_file_def ini_parse_def Let_def split: prod.splits if_splits)

lemma acl_load_wf: "vdev_acl_load db lib fp w a = (0, acl) \<Longrightarrow> acl_wf lib acl \<or> acl = a"
  by (auto simp: vdev_acl_load_def acl_load_file_wf split: sum.splits)

interpretation acl_loader: dir_loader "vdev_acl_loader db lib w" "list_all (acl_wf lib)" for db lib w
proof unfold_locales
  fix acls fp
  assume "list_all (acl_wf lib) acls"
  then show "list_all (acl_wf lib) (snd (vdev_acl_loader db lib w fp acls))"
    using acl_load_wf [of db lib fp w vdev_acl_init]
    by (auto simp: vdev_acl_loader_def split: sum.splits fnode.splits prod.splits)
qed

lemma acl_load_all_wf: "vdev_acl_load_all db lib dir w = Inr acls \<Longrightarrow> list_all (acl_wf lib) acls"
  using acl_loader.load_all_invar [of lib "[]" "Some dir" db w w]
  by (auto simp: vdev_acl_load_all_def split: prod.splits if_splits)

lemma acl_apply_type_bits:
  "acl_wf lib acl \<Longrightarrow> and (st_mode (vdev_acl_apply acl u g sb)) (not 0x1FF) = and (st_mode sb) (not 0x1FF)"
  by (simp add: acl_wf_def vdev_acl_apply_def vdev_acl_do_set_mode_def vdev_acl_do_set_group_def
      vdev_acl_do_set_user_def bit.conj_disj_distrib2 and.assoc)

lemma acl_pass_type_bits:
  "list_all (acl_wf lib) acls \<Longrightarrow>
   and (st_mode (snd (snd (acl_pass test (\<lambda>a. vdev_acl_apply a u g) acls f sb)))) (not 0x1FF) =
   and (st_mode sb) (not 0x1FF)"
  by (induction acls arbitrary: f sb) (auto simp: acl_apply_type_bits [simplified])

text \<open>
  Whatever ACLs are loaded from a directory, applying them never changes the file type, the
  set-user-id, set-group-id or sticky bits that a caller sees: a device node stays a device node.
  Only the nine permission bits of the mode may change.
\<close>

theorem acl_keeps_type_bits:
  assumes "vdev_acl_load_all db lib dir w = Inr acls"
  shows "and (st_mode (snd (vdev_acl_apply_all lib w' config acls cl sb))) (not 0x1FF) =
    and (st_mode sb) (not 0x1FF)"
  using acl_pass_type_bits [OF acl_load_all_wf [OF assms]]
  by (simp add: vdev_acl_apply_all_def acl_apply_loop_pass case_prod_beta)

definition acl_witness_dir :: world where
  "acl_witness_dir = calm_world\<lparr>w_fs := [([''acls''], FDir),
     ([''acls'', ''a''], FReg (ini_print [(''vdev-acl'', [(''setmode'', ''0600'')])]))]\<rparr>"

definition acl_witness_db :: accounts where
  "acl_witness_db = \<lparr>ac_getpwnam = (\<lambda>_. Inr None), ac_getgrnam = (\<lambda>_. Inr None),
     ac_getpwuid = (\<lambda>_. Inr None), ac_getgrgid = (\<lambda>_. Inr None)\<rparr>"

definition acl_witness_loaded :: "vdev_acl list" where
  "acl_witness_loaded = [vdev_acl_init\<lparr>acl_has_setmode := True, acl_setmode := 0x180\<rparr>]"

theorem acl_keeps_type_bits_witness:
  "vdev_acl_load_all acl_witness_db literal_regex_lib ''/acls'' acl_witness_dir = Inr acl_witness_loaded \<and>
   and (st_mode (snd (vdev_acl_apply_all literal_regex_lib acl_witness_dir vdev_config_init acl_witness_loaded
     acl_witness_caller \<lparr>st_uid = 0, st_gid = 0, st_mode = 0x21B6\<rparr>))) (not 0x1FF) = 0x2000"
proof
  show l: "vdev_acl_load_all acl_witness_db literal_regex_lib ''/acls'' acl_witness_dir = Inr acl_witness_loaded"
    by code_simp
  show "and (st_mode (snd (vdev_acl_apply_all literal_regex_lib acl_witness_dir vdev_config_init acl_witness_loaded
     acl_witness_caller \<lparr>st_uid = 0, st_gid = 0, st_mode = 0x21B6\<rparr>))) (not 0x1FF) = 0x2000"
    unfolding acl_keeps_type_bits [OF l] by simp
qed

text \<open>Findings.\<close>

lemma acl_predicate_never_runs:
  assumes "acl_has_proc acl" "acl_proc_predicate_cmd acl \<noteq> None"
    and "acl_proc_path acl = None \<or> acl_proc_path acl = Some (ps_path ps)" "\<not> acl_has_proc_inode acl"
  shows "vdev_acl_match_process acl ps u g w = - EINVAL"
  using assms by (auto simp: vdev_acl_match_process_def vdev_acl_run_predicate_def vdev_subprocess_def)

lemma acl_inode_ignored:
  assumes "vdev_acl_load_all db lib dir w = Inr acls" "acl \<in> set acls"
    and "acl_proc_path acl = None" "acl_proc_predicate_cmd acl = None"
  shows "vdev_acl_match_process acl ps u g w' = 1"
  using acl_load_all_wf [OF assms(1)] assms
  by (auto simp: vdev_acl_match_process_def list_all_iff acl_wf_def)

end
