(* ===== verification/Vdevd_Request.thy ===== *)
theory Vdevd_Request
  imports Libvdev_Config Vdevd_World
begin

text \<open>
  The first half of \<^verbatim>\<open>vdevd/device.c\<close>: device requests, their setters and sanity check, and their
  translation to the environment of the helper programs (\<open>vdev_device_request_to_env\<close>).

  A pointer to the global state that a request carries is the argument \<open>st\<close>. The result \<open>None\<close> of
  the translation stands for a \<open>strlen(NULL)\<close>, a crash.
\<close>

section \<open>Device requests\<close>

datatype vdev_device_request_t =
  VDEV_DEVICE_INVALID | VDEV_DEVICE_ADD | VDEV_DEVICE_REMOVE | VDEV_DEVICE_CHANGE | VDEV_DEVICE_ANY

record vdev_device_request =
  req_type :: vdev_device_request_t
  req_path :: "cstr option"
  req_renamed_path :: "cstr option"
  req_dev :: dev_t
  req_mode :: mode_t
  req_params :: vdev_params
  req_exists :: bool

text \<open>The part of \<open>struct vdev_state\<close> that requests read, and the global log levels.\<close>

record vdev_base_state =
  st_config :: vdev_config
  st_mountpoint :: cstr
  st_levels :: log_levels

definition VDEV_METADATA_PREFIX :: cstr where "VDEV_METADATA_PREFIX = ''metadata/''"
definition VDEV_DEVICE_PATH_UNKNOWN :: cstr where "VDEV_DEVICE_PATH_UNKNOWN = ''UNKNOWN''"
definition VDEV_METADATA_PARAM_INSTANCE :: cstr where "VDEV_METADATA_PARAM_INSTANCE = ''vdev_instance''"

definition vdev_device_request_init :: "vdev_device_request_t \<Rightarrow> cstr option \<Rightarrow> vdev_device_request" where
  "vdev_device_request_init t path =
     \<lparr>req_type = t, req_path = path, req_renamed_path = None, req_dev = 0, req_mode = 0,
      req_params = Leaf, req_exists = False\<rparr>"

definition vdev_device_request_add_param ::
  "vdev_device_request \<Rightarrow> cstr \<Rightarrow> cstr \<Rightarrow> rc \<times> vdev_device_request" where
  "vdev_device_request_add_param req key value =
     (case vdev_params_add (req_params req) key value of (rc, ps) \<Rightarrow> (rc, req\<lparr>req_params := ps\<rparr>))"

definition vdev_device_request_set_path :: "vdev_device_request \<Rightarrow> cstr option \<Rightarrow> vdev_device_request" where
  "vdev_device_request_set_path req path = req\<lparr>req_path := path\<rparr>"

definition vdev_device_request_set_dev :: "vdev_device_request \<Rightarrow> dev_t \<Rightarrow> vdev_device_request" where
  "vdev_device_request_set_dev req dev = req\<lparr>req_dev := dev\<rparr>"

definition vdev_device_request_set_exists :: "vdev_device_request \<Rightarrow> bool \<Rightarrow> vdev_device_request" where
  "vdev_device_request_set_exists req ex = req\<lparr>req_exists := ex\<rparr>"

definition vdev_device_request_set_type ::
  "vdev_device_request \<Rightarrow> vdev_device_request_t \<Rightarrow> vdev_device_request" where
  "vdev_device_request_set_type req t = req\<lparr>req_type := t\<rparr>"

definition vdev_device_request_set_mode :: "vdev_device_request \<Rightarrow> mode_t \<Rightarrow> vdev_device_request" where
  "vdev_device_request_set_mode req mode = req\<lparr>req_mode := mode\<rparr>"

definition vdev_device_request_sanity_check :: "vdev_device_request \<Rightarrow> rc" where
  "vdev_device_request_sanity_check req =
     (if req_path req = None then - EINVAL
      else if req_type req = VDEV_DEVICE_INVALID then - EINVAL else 0)"

section \<open>Device numbers and modes\<close>

text \<open>\<open>makedev\<close>, \<open>major\<close> and \<open>minor\<close> of glibc; the numbers are \<open>unsigned int\<close>.\<close>

definition makedev :: "32 word \<Rightarrow> 32 word \<Rightarrow> dev_t" where
  "makedev mj mn =
     or (or (push_bit 8 (ucast (and mj 0xfff))) (push_bit 32 (ucast (and mj 0xfffff000))))
        (or (ucast (and mn 0xff)) (push_bit 12 (ucast (and mn 0xffffff00))))"

definition dev_major :: "dev_t \<Rightarrow> 32 word" where
  "dev_major dev = ucast (or (and (drop_bit 8 dev) 0xfff) (and (drop_bit 32 dev) 0xfffff000))"

definition dev_minor :: "dev_t \<Rightarrow> 32 word" where
  "dev_minor dev = ucast (or (and dev 0xff) (and (drop_bit 12 dev) 0xffffff00))"

abbreviation (input) S_IFCHR :: mode_t where "S_IFCHR \<equiv> 0x2000"
abbreviation (input) S_IFBLK :: mode_t where "S_IFBLK \<equiv> 0x6000"
abbreviation (input) S_IFMT :: mode_t where "S_IFMT \<equiv> 0xF000"

definition S_ISBLK :: "mode_t \<Rightarrow> bool" where "S_ISBLK mode \<longleftrightarrow> and mode S_IFMT = S_IFBLK"
definition S_ISCHR :: "mode_t \<Rightarrow> bool" where "S_ISCHR mode \<longleftrightarrow> and mode S_IFMT = S_IFCHR"

definition vdev_device_request_type_to_string :: "vdev_device_request_t \<Rightarrow> cstr" where
  "vdev_device_request_type_to_string req =
     (if req = VDEV_DEVICE_ADD then ''add''
      else if req = VDEV_DEVICE_REMOVE then ''remove''
      else if req = VDEV_DEVICE_CHANGE then ''change'' else ''none'')"

definition vdev_device_request_mode_to_string :: "mode_t \<Rightarrow> cstr" where
  "vdev_device_request_mode_to_string mode =
     (if S_ISBLK mode then ''block'' else if S_ISCHR mode then ''char'' else ''none'')"

section \<open>The environment of a helper\<close>

definition vdev_device_request_make_env_str :: "cstr \<times> cstr \<Rightarrow> cstr" where
  "vdev_device_request_make_env_str kv = fst kv @ CHR ''='' # snd kv"

text \<open>\<open>snprintf\<close> into a buffer of \<open>n\<close> bytes.\<close>

definition snprintf :: "nat \<Rightarrow> cstr \<Rightarrow> cstr" where
  "snprintf n s = take (n - 1) s"

definition env_loglevel :: "log_levels \<Rightarrow> cstr" where
  "env_loglevel l =
     (if vdev_get_debug_level l > 0 then (if vdev_get_debug_level l = 1 then ''info'' else ''debug'')
      else if vdev_get_error_level l > 0 then (if vdev_get_error_level l = 1 then ''error'' else ''warning'')
      else ''warning'')"

text \<open>The path a helper sees: the renamed path, else the kernel's.\<close>

definition env_path :: "vdev_device_request \<Rightarrow> cstr option" where
  "env_path req = (case req_renamed_path req of None \<Rightarrow> req_path req | Some p \<Rightarrow> Some p)"

text \<open>The variables up to the device numbers, in order.\<close>

definition env_where :: "'z vdev_base_state_scheme \<Rightarrow> vdev_device_request \<Rightarrow> cstr \<Rightarrow> (cstr \<times> cstr) list" where
  "env_where st req config_path =
     [(''VDEV_MOUNTPOINT'', st_mountpoint st), (''VDEV_ACTION'', vdev_device_request_type_to_string (req_type req))] @
     (case env_path req of
        None \<Rightarrow> []
      | Some p \<Rightarrow>
          [(''VDEV_PATH'', p),
           (''VDEV_METADATA'', snprintf PATH_MAX (st_mountpoint st @ ''/'' @ VDEV_METADATA_PREFIX @ ''/dev/'' @ p))]) @
     [(''VDEV_GLOBAL_METADATA'', snprintf PATH_MAX (st_mountpoint st @ ''/'' @ VDEV_METADATA_PREFIX)),
      (''VDEV_CONFIG_FILE'', config_path)]"

text \<open>Device numbers, mode, and the settings of the daemon.\<close>

definition env_device :: "vdev_device_request \<Rightarrow> (cstr \<times> cstr) list" where
  "env_device req =
     (if req_dev req \<noteq> 0
      then [(''VDEV_MAJOR'', show_nat (unat (dev_major (req_dev req)))),
            (''VDEV_MINOR'', show_nat (unat (dev_minor (req_dev req))))] else []) @
     (if and (req_mode req) (or S_IFBLK S_IFCHR) \<noteq> 0
      then [(''VDEV_MODE'', vdev_device_request_mode_to_string (req_mode req))] else [])"

definition env_daemon :: "'z vdev_base_state_scheme \<Rightarrow> cstr \<Rightarrow> bool \<Rightarrow> (cstr \<times> cstr) list" where
  "env_daemon st helpers_dir is_daemonlet =
     [(''VDEV_HELPERS'', helpers_dir)] @
     (case conf_logfile_path (st_config st) of
        None \<Rightarrow> []
      | Some l \<Rightarrow> if strcasecmp_eq l ''syslog'' then [] else [(''VDEV_LOGFILE'', l)]) @
     [(''VDEV_INSTANCE'', conf_instance_str (st_config st)),
      (''VDEV_DAEMONLET'', if is_daemonlet then ''1'' else ''0''),
      (''VDEV_LOGLEVEL'', env_loglevel (st_levels st))]"

definition env_os_params :: "vdev_params \<Rightarrow> (cstr \<times> cstr) list" where
  "env_os_params ps = map (\<lambda>kv. (''VDEV_OS_'' @ fst kv, snd kv)) (vdev_params_items ps)"

definition env_helper_vars :: "vdev_params \<Rightarrow> (cstr \<times> cstr) list" where
  "env_helper_vars ps = map (\<lambda>kv. (''VDEV_VAR_'' @ fst kv, snd kv)) (vdev_params_items ps)"

definition vdev_device_request_to_env ::
  "'z vdev_base_state_scheme \<Rightarrow> vdev_device_request \<Rightarrow> vdev_params \<Rightarrow> bool \<Rightarrow> cstr list option" where
  "vdev_device_request_to_env st req helper_vars is_daemonlet =
     (case (conf_config_path (st_config st), conf_helpers_dir (st_config st)) of
        (Some config_path, Some helpers_dir) \<Rightarrow>
          Some (map vdev_device_request_make_env_str
            (env_where st req config_path @ env_device req @ env_daemon st helpers_dir is_daemonlet @
             env_os_params (req_params req) @ env_helper_vars helper_vars))
      | _ \<Rightarrow> None)"

text \<open>The size of the vector that the code allocates, without its terminating \<open>NULL\<close>.\<close>

definition env_num_vars :: "vdev_device_request \<Rightarrow> vdev_params \<Rightarrow> nat" where
  "env_num_vars req helper_vars = 15 + sglib_len (req_params req) + sglib_len helper_vars"

section \<open>The vector is large enough, and complete\<close>

text \<open>
  C17: The environment vector never overflows: the number of variables, with the terminating
  \<open>NULL\<close>, is smaller than the number of slots that are allocated, whatever the request and the
  helper variables are.
\<close>

theorem to_env_fits:
  assumes "vdev_device_request_to_env st req helper_vars is_daemonlet = Some env"
  shows "length env < env_num_vars req helper_vars"
  using assms
  by (auto simp: vdev_device_request_to_env_def env_num_vars_def env_where_def env_device_def env_daemon_def
      env_os_params_def env_helper_vars_def split: option.splits if_splits)

definition env_witness_state :: vdev_base_state where
  "env_witness_state = \<lparr>st_config = vdev_config_init\<lparr>conf_config_path := Some ''/etc/vdev'', conf_helpers_dir := Some ''/lib/vdev''\<rparr>,
     st_mountpoint = ''/dev'', st_levels = default_log_levels\<rparr>"

definition env_witness_request :: vdev_device_request where
  "env_witness_request = snd (vdev_device_request_add_param
     (vdev_device_request_init VDEV_DEVICE_ADD (Some ''sda'')\<lparr>req_dev := 0x800, req_mode := S_IFBLK\<rparr>) ''SUBSYSTEM'' ''block'')"

theorem to_env_fits_witness:
  "length (the (vdev_device_request_to_env env_witness_state env_witness_request Leaf False)) < 16 \<and>
   vdev_device_request_to_env env_witness_state env_witness_request Leaf False \<noteq> None"
proof -
  obtain env where e: "vdev_device_request_to_env env_witness_state env_witness_request Leaf False = Some env"
    by (simp add: vdev_device_request_to_env_def env_witness_state_def)
  have "env_num_vars env_witness_request Leaf = 16"
    by (simp add: env_num_vars_def env_witness_request_def vdev_device_request_add_param_def vdev_params_add_def
        vdev_params_add_mem_def vdev_device_request_init_def sglib_add_def)
  with to_env_fits [OF e] e show ?thesis by simp
qed

text \<open>Reading a variable back, as a helper does.\<close>

definition env_lookup :: "cstr list \<Rightarrow> cstr \<Rightarrow> cstr option" where
  "env_lookup env name = map_of (map (\<lambda>s. the (snd (vdev_keyvalue_next s))) env) name"

lemma parse_env_str:
  "CHR ''='' \<notin> set (fst kv) \<Longrightarrow> the (snd (vdev_keyvalue_next (vdev_device_request_make_env_str kv))) = kv"
  using keyvalue_next_Some [of "fst kv @ CHR ''='' # snd kv" "int (length (fst kv @ CHR ''='' # snd kv))" "fst kv" "snd kv"]
  by (simp add: vdev_device_request_make_env_str_def)

lemma env_lookup_pairs:
  assumes "\<forall>kv \<in> set kvs. CHR ''='' \<notin> set (fst kv)"
  shows "env_lookup (map vdev_device_request_make_env_str kvs) = map_of kvs"
proof -
  have "map (\<lambda>s. the (snd (vdev_keyvalue_next s))) (map vdev_device_request_make_env_str kvs) = kvs"
    using assms by (induction kvs) (simp_all add: parse_env_str)
  then show ?thesis by (simp add: env_lookup_def fun_eq_iff)
qed

lemma map_of_prefixed: "map_of (map (\<lambda>kv. (pre @ fst kv, snd kv)) kvs) (pre @ k) = map_of kvs k"
  by (induction kvs) auto

lemma map_of_other_prefix:
  assumes "take (length pre) n \<noteq> pre"
  shows "map_of (map (\<lambda>kv. (pre @ fst kv, snd kv)) kvs) n = None"
proof -
  from assms have "n \<noteq> pre @ k" for k by auto
  then show ?thesis by (induction kvs) auto
qed

definition env_keys_ok :: "vdev_params \<Rightarrow> bool" where
  "env_keys_ok ps \<longleftrightarrow> vdev_params_invar ps \<and> (\<forall>kv \<in> set (vdev_params_items ps). CHR ''='' \<notin> set (fst kv))"

lemma env_os_params_lookup:
  "env_keys_ok ps \<Longrightarrow> map_of (env_os_params ps) (''VDEV_OS_'' @ k) = vdev_params_lookup ps k"
  unfolding env_os_params_def map_of_prefixed using params.lookup_items by (simp add: env_keys_ok_def)

lemma env_helper_vars_lookup:
  "env_keys_ok ps \<Longrightarrow> map_of (env_helper_vars ps) (''VDEV_VAR_'' @ k) = vdev_params_lookup ps k"
  unfolding env_helper_vars_def map_of_prefixed using params.lookup_items by (simp add: env_keys_ok_def)

lemma env_where_lookup:
  "map_of (env_where st req c) (''VDEV_OS_'' @ k) = None" "map_of (env_where st req c) (''VDEV_VAR_'' @ k) = None"
  "map_of (env_where st req c) ''VDEV_PATH'' = env_path req"
  "map_of (env_where st req c) ''VDEV_ACTION'' = Some (vdev_device_request_type_to_string (req_type req))"
  by (auto simp: env_where_def split: option.splits)

lemma env_device_lookup:
  "map_of (env_device req) (''VDEV_OS_'' @ k) = None" "map_of (env_device req) (''VDEV_VAR_'' @ k) = None"
  "map_of (env_device req) ''VDEV_PATH'' = None"
  by (auto simp: env_device_def)

lemma env_daemon_lookup:
  "map_of (env_daemon st h d) (''VDEV_OS_'' @ k) = None" "map_of (env_daemon st h d) (''VDEV_VAR_'' @ k) = None"
  "map_of (env_daemon st h d) ''VDEV_PATH'' = None"
  by (auto simp: env_daemon_def split: option.splits)

lemma env_params_lookup_other:
  "map_of (env_os_params ps) (''VDEV_VAR_'' @ k) = None" "map_of (env_helper_vars ps) (''VDEV_OS_'' @ k) = None"
  "map_of (env_os_params ps) ''VDEV_PATH'' = None" "map_of (env_helper_vars ps) ''VDEV_PATH'' = None"
  unfolding env_os_params_def env_helper_vars_def by (rule map_of_other_prefix, simp)+

lemma env_fixed_keys:
  "\<forall>kv \<in> set (env_where st req c @ env_device req @ env_daemon st h d). CHR ''='' \<notin> set (fst kv)"
  by (auto simp: env_where_def env_device_def env_daemon_def split: option.splits)

text \<open>
  C18: The environment of a helper is a faithful copy of the request. Splitting the strings at their
  first equals sign gives back, for every key, exactly the OS parameter of the request
  (\<open>VDEV_OS_*\<close>) and the variable of the action (\<open>VDEV_VAR_*\<close>), the action, and the path: the
  renamed one, if there is one. No name hides another.
\<close>

theorem to_env_lookup:
  assumes "env_keys_ok (req_params req)" "env_keys_ok helper_vars"
    and "vdev_device_request_to_env st req helper_vars is_daemonlet = Some env"
  shows "env_lookup env (''VDEV_OS_'' @ k) = vdev_params_lookup (req_params req) k \<and>
    env_lookup env (''VDEV_VAR_'' @ k) = vdev_params_lookup helper_vars k \<and>
    env_lookup env ''VDEV_ACTION'' = Some (vdev_device_request_type_to_string (req_type req)) \<and>
    env_lookup env ''VDEV_PATH'' = env_path req"
proof -
  from assms(3) obtain c h where env: "env = map vdev_device_request_make_env_str
      (env_where st req c @ env_device req @ env_daemon st h is_daemonlet @
       env_os_params (req_params req) @ env_helper_vars helper_vars)" (is "env = map _ ?kvs")
    by (auto simp: vdev_device_request_to_env_def split: option.splits)
  have "\<forall>kv \<in> set ?kvs. CHR ''='' \<notin> set (fst kv)"
    using env_fixed_keys [of st req c h is_daemonlet] assms(1,2)
    by (auto simp: env_keys_ok_def env_os_params_def env_helper_vars_def)
  then have "env_lookup env = map_of ?kvs" unfolding env by (rule env_lookup_pairs)
  then show ?thesis
    by (simp only: map_of_append map_add_def env_where_lookup env_device_lookup env_daemon_lookup
        env_os_params_lookup [OF assms(1)] env_helper_vars_lookup [OF assms(2)] env_params_lookup_other)
      (auto split: option.splits)
qed

theorem to_env_lookup_witness:
  "env_lookup (the (vdev_device_request_to_env env_witness_state env_witness_request Leaf False)) ''VDEV_OS_SUBSYSTEM'' =
     Some ''block''"
proof -
  obtain env where e: "vdev_device_request_to_env env_witness_state env_witness_request Leaf False = Some env"
    by (simp add: vdev_device_request_to_env_def env_witness_state_def)
  have p: "req_params env_witness_request = sglib_add VDEV_PARAM_CMP (\<lambda>_ _. False) Leaf (''SUBSYSTEM'', ''block'')"
    by (simp add: env_witness_request_def vdev_device_request_add_param_def vdev_params_add_def
        vdev_params_add_mem_def vdev_device_request_init_def)
  have n: "vdev_params_lookup Leaf ''SUBSYSTEM'' = None" by (simp add: params.lookup_empty)
  have ok: "env_keys_ok (req_params env_witness_request)" "env_keys_ok Leaf"
    using params.invar_insert [OF params.invar_empty n] params.invar_empty
    by (auto simp: env_keys_ok_def p sglib_add_def)
  have "vdev_params_lookup (req_params env_witness_request) ''SUBSYSTEM'' = Some ''block''"
    unfolding p using params.lookup_insert [OF params.invar_empty n, of "\<lambda>_ _. False" "''block''"] by simp
  with to_env_lookup [OF ok e, of "''SUBSYSTEM''"] e show ?thesis by simp
qed

end
