(* ===== verification/Vdevd_Uevent.thy ===== *)
theory Vdevd_Uevent
  imports Vdevd_Request
begin

text \<open>
  The first half of \<^verbatim>\<open>vdevd/os/linux.c\<close>: from a kernel uevent to a device request.

  A uevent is a block of NUL-terminated strings \<open>KEY=VALUE\<close>, after an optional line
  \<open>action@devpath\<close>. Some attributes are looked up in sysfs, whose files are part of the world;
  symbolic links are not, and \<open>lx_readlink\<close> stands for them. The result \<open>None\<close> of a parser
  means that a string runs past the end of the block.
\<close>

section \<open>The system, as the Linux back end sees it\<close>

record linux_os =
  lx_readlink :: "cstr \<Rightarrow> rc + cstr"       \<comment> \<open>an errno value, or where the link points\<close>
  lx_st_size :: "cstr \<Rightarrow> nat"              \<comment> \<open>\<open>st_size\<close> of a file, in sysfs not the length of its content\<close>
  lx_socket :: rc                          \<comment> \<open>errno values of setting up the netlink socket\<close>
  lx_euid :: nat
  lx_rcvbuf :: rc
  lx_passcred :: rc
  lx_bind :: rc
  lx_mounts :: "rc + (cstr \<times> cstr) list"   \<comment> \<open>directory and type of every mount\<close>
  lx_realpath :: "cstr \<Rightarrow> rc + cstr"

text \<open>A system for examples: nothing fails, sysfs is mounted and has no links.\<close>

definition calm_linux :: linux_os where
  "calm_linux = \<lparr>lx_readlink = (\<lambda>_. Inl ENOENT), lx_st_size = (\<lambda>_. 4096), lx_socket = 0, lx_euid = 0, lx_rcvbuf = 0,
     lx_passcred = 0, lx_bind = 0, lx_mounts = Inr [(''/sys'', ''sysfs'')], lx_realpath = Inr\<rparr>"

section \<open>linux.c: attributes\<close>

definition vdev_linux_parse_device_request_type :: "cstr \<Rightarrow> vdev_device_request_t" where
  "vdev_linux_parse_device_request_type type =
     (if strcmp type ''add'' = 0 then VDEV_DEVICE_ADD
      else if strcmp type ''remove'' = 0 then VDEV_DEVICE_REMOVE
      else if strcmp type ''change'' = 0 then VDEV_DEVICE_CHANGE
      else VDEV_DEVICE_INVALID)"

definition vdev_linux_sysfs_fullpath :: "cstr \<Rightarrow> cstr \<Rightarrow> cstr \<Rightarrow> cstr" where
  "vdev_linux_sysfs_fullpath sysfs_mountpoint devpath attr_path =
     vdev_fullpath (vdev_fullpath sysfs_mountpoint devpath) attr_path"

text \<open>\<open>%u\<close> of \<open>sscanf\<close>: \<open>strtoul\<close>, which must find a digit, stored in an \<open>unsigned int\<close>.\<close>

definition scan_uint :: "cstr \<Rightarrow> (32 word \<times> cstr) option" where
  "scan_uint s = (case strtoul 10 s of (v, r) \<Rightarrow> if r = s then None else Some (of_nat v, r))"

definition vdev_linux_sysfs_parse_device_nums :: "cstr \<Rightarrow> rc + 32 word \<times> 32 word" where
  "vdev_linux_sysfs_parse_device_nums devbuf =
     (case scan_uint devbuf of
        Some (major, CHR '':'' # r) \<Rightarrow>
          (case scan_uint r of Some (minor, _) \<Rightarrow> Inr (major, minor) | None \<Rightarrow> Inl (- EINVAL))
      | _ \<Rightarrow> Inl (- EINVAL))"

definition vdev_linux_sysfs_read_dev_nums :: "cstr \<Rightarrow> cstr \<Rightarrow> world \<Rightarrow> rc + 32 word \<times> 32 word" where
  "vdev_linux_sysfs_read_dev_nums sysfs_mountpoint devpath w =
     (let full_devpath = vdev_linux_sysfs_fullpath sysfs_mountpoint devpath ''dev''
      in case vdev_read_file (Some full_devpath) 100 w of
           Inl rc \<Rightarrow> Inl rc
         | Inr devbuf \<Rightarrow>
             (case vdev_linux_sysfs_parse_device_nums (cstr_of devbuf) of
                Inl _ \<Rightarrow> Inl (- EIO)
              | Inr nums \<Rightarrow> Inr nums))"

definition vdev_linux_sysfs_read_subsystem :: "linux_os \<Rightarrow> cstr \<Rightarrow> cstr \<Rightarrow> rc + cstr" where
  "vdev_linux_sysfs_read_subsystem os sysfs_mountpoint devpath =
     (case lx_readlink os (vdev_linux_sysfs_fullpath sysfs_mountpoint devpath ''subsystem'') of
        Inl e \<Rightarrow> Inl (- e)
      | Inr linkpath \<Rightarrow> Inr (vdev_basename (take PATH_MAX linkpath)))"

section \<open>linux.c: parsing a uevent\<close>

text \<open>The local variables of \<open>vdev_linux_parse_request\<close>; a number is \<open>None\<close> while its \<open>have\<close> flag is off.\<close>

record uevent_state =
  ue_req :: vdev_device_request
  ue_type :: vdev_device_request_t
  ue_devpath :: "cstr option"
  ue_devname :: cstr
  ue_subsystem :: "cstr option"
  ue_major :: "32 word option"
  ue_minor :: "32 word option"

definition uevent_init :: "vdev_device_request \<Rightarrow> uevent_state" where
  "uevent_init vreq = \<lparr>ue_req = vreq, ue_type = VDEV_DEVICE_INVALID, ue_devpath = None,
     ue_devname = VDEV_DEVICE_PATH_UNKNOWN, ue_subsystem = None, ue_major = None, ue_minor = None\<rparr>"

text \<open>\<open>strtol\<close> on a whole string, cut to an \<open>int\<close>.\<close>

definition uevent_number :: "cstr \<Rightarrow> 32 word option" where
  "uevent_number value = (case strtoll 10 value of (v, tmp) \<Rightarrow> if tmp \<noteq> [] then None else Some (word_of_int v))"

definition uevent_param :: "cstr \<Rightarrow> cstr \<Rightarrow> uevent_state \<Rightarrow> rc \<times> uevent_state" where
  "uevent_param key value s =
     (case vdev_device_request_add_param (ue_req s) key value of (rc, req) \<Rightarrow> (rc, s\<lparr>ue_req := req\<rparr>))"

text \<open>One turn of the loop, for a key and a value; a code other than 0 is returned at once.\<close>

definition uevent_line :: "cstr \<Rightarrow> cstr \<Rightarrow> uevent_state \<Rightarrow> rc \<times> uevent_state" where
  "uevent_line key value s =
     (if key = ''ACTION'' then
        (let reqtype = vdev_linux_parse_device_request_type value
         in if reqtype = VDEV_DEVICE_INVALID then (- EINVAL, s\<lparr>ue_type := reqtype\<rparr>)
            else (0, s\<lparr>ue_type := reqtype, ue_req := vdev_device_request_set_type (ue_req s) reqtype\<rparr>))
      else if key = ''DEVPATH'' then uevent_param key value (s\<lparr>ue_devpath := Some value\<rparr>)
      else if key = ''DEVNAME'' then uevent_param key value (s\<lparr>ue_devname := value\<rparr>)
      else if key = ''SUBSYSTEM'' then uevent_param key value (s\<lparr>ue_subsystem := Some value\<rparr>)
      else if key = ''MAJOR'' \<and> ue_major s = None then
        (case uevent_number value of
           None \<Rightarrow> (- EINVAL, s)
         | Some n \<Rightarrow> (0, s\<lparr>ue_major := Some n\<rparr>))
      else if key = ''MINOR'' \<and> ue_minor s = None then
        (case uevent_number value of
           None \<Rightarrow> (- EINVAL, s)
         | Some n \<Rightarrow> (0, s\<lparr>ue_minor := Some n\<rparr>))
      else uevent_param key value s)"

text \<open>The C string at the start of a block, if the block has its end.\<close>

definition block_str :: "cbuf \<Rightarrow> cstr option" where
  "block_str b = (if NUL \<in> set b then Some (cstr_of b) else None)"

text \<open>The loop over the rest of the block.\<close>

function uevent_loop :: "cbuf \<Rightarrow> uevent_state \<Rightarrow> (rc \<times> uevent_state) option" where
  "uevent_loop buf s =
     (if buf = [] then Some (0, s)
      else
        (case block_str buf of
           None \<Rightarrow> None
         | Some line \<Rightarrow>
             (case vdev_keyvalue_next line of
                (rc, None) \<Rightarrow> Some (- EINVAL, s)
              | (rc, Some (key, value)) \<Rightarrow>
                  (case uevent_line key value s of (rc', s') \<Rightarrow>
                     if rc' \<noteq> 0 then Some (rc', s') else uevent_loop (drop (nat rc + 1) buf) s'))))"
  by pat_completeness auto

termination uevent_loop
  by (relation "measure (\<lambda>(buf, s). length buf)") simp_all

declare uevent_loop.simps [simp del]

text \<open>What is not in the uevent is looked up in sysfs.\<close>

definition uevent_sysfs_nums :: "cstr \<Rightarrow> cstr \<Rightarrow> world \<Rightarrow> uevent_state \<Rightarrow> uevent_state" where
  "uevent_sysfs_nums mp devpath w s =
     (if ue_major s = None \<or> ue_minor s = None then
        (case vdev_linux_sysfs_read_dev_nums mp devpath w of
           Inr (major, minor) \<Rightarrow>
             s\<lparr>ue_req := vdev_device_request_set_dev (ue_req s) (makedev major minor), ue_major := Some major, ue_minor := Some minor\<rparr>
         | Inl _ \<Rightarrow> s)
      else s)"

definition uevent_sysfs_subsystem :: "linux_os \<Rightarrow> cstr \<Rightarrow> cstr \<Rightarrow> uevent_state \<Rightarrow> rc \<times> uevent_state" where
  "uevent_sysfs_subsystem os mp devpath s =
     (if ue_subsystem s = None then
        (case vdev_linux_sysfs_read_subsystem os mp devpath of
           Inr subsystem \<Rightarrow> uevent_param ''SUBSYSTEM'' subsystem (s\<lparr>ue_subsystem := Some subsystem\<rparr>)
         | Inl _ \<Rightarrow> (0, s))
      else (0, s))"

definition uevent_sysfs :: "linux_os \<Rightarrow> cstr \<Rightarrow> world \<Rightarrow> uevent_state \<Rightarrow> rc \<times> uevent_state" where
  "uevent_sysfs os mp w s =
     (case ue_devpath s of
        None \<Rightarrow> (0, s)
      | Some devpath \<Rightarrow> uevent_sysfs_subsystem os mp devpath (uevent_sysfs_nums mp devpath w s))"

definition uevent_mode :: "uevent_state \<Rightarrow> vdev_device_request" where
  "uevent_mode s =
     (if ue_major s \<noteq> None \<and> ue_minor s \<noteq> None then
        vdev_device_request_set_mode (ue_req s)
          (case ue_subsystem s of
             Some subsystem \<Rightarrow> if strcasecmp_eq subsystem ''block'' then S_IFBLK else S_IFCHR
           | None \<Rightarrow> S_IFCHR)
      else ue_req s)"

definition uevent_finish :: "linux_os \<Rightarrow> cstr \<Rightarrow> world \<Rightarrow> uevent_state \<Rightarrow> rc \<times> vdev_device_request" where
  "uevent_finish os mp w s =
     (if ue_type s = VDEV_DEVICE_INVALID then (- EINVAL, ue_req s)
      else if (ue_major s = None) \<noteq> (ue_minor s = None) then (- EINVAL, ue_req s)
      else
        (let req1 = (case (ue_major s, ue_minor s) of
                       (Some major, Some minor) \<Rightarrow> vdev_device_request_set_dev (ue_req s) (makedev major minor)
                     | _ \<Rightarrow> ue_req s);
             req2 = vdev_device_request_set_path req1 (Some (ue_devname s))
         in case uevent_sysfs os mp w (s\<lparr>ue_req := req2\<rparr>) of (rc, s') \<Rightarrow>
              if rc \<noteq> 0 then (rc, ue_req s')
              else vdev_device_request_add_param (uevent_mode s') ''SYSFS_MOUNTPOINT'' mp))"

definition vdev_linux_parse_request ::
  "linux_os \<Rightarrow> cstr \<Rightarrow> vdev_device_request \<Rightarrow> cbuf \<Rightarrow> world \<Rightarrow> (rc \<times> vdev_device_request) option" where
  "vdev_linux_parse_request os mp vreq nlbuf w =
     (case block_str nlbuf of
        None \<Rightarrow> None
      | Some line \<Rightarrow>
          (case uevent_loop (if strchr line CHR ''@'' \<noteq> None then drop (length line + 1) nlbuf else nlbuf) (uevent_init vreq) of
             None \<Rightarrow> None
           | Some (rc, s) \<Rightarrow> Some (if rc \<noteq> 0 then (rc, ue_req s) else uevent_finish os mp w s)))"

section \<open>A printed uevent is parsed back\<close>

definition uevent_print :: "(cstr \<times> cstr) list \<Rightarrow> cbuf" where
  "uevent_print kvs = concat (map (\<lambda>(k, v). k @ CHR ''='' # v @ [NUL]) kvs)"

definition uevent_pair :: "cstr \<times> cstr \<Rightarrow> bool" where
  "uevent_pair kv \<longleftrightarrow> CHR ''='' \<notin> set (fst kv) \<and> NUL \<notin> set (fst kv) \<and> NUL \<notin> set (snd kv)"

text \<open>The keys that do not become parameters of the request.\<close>

definition uevent_keys :: "cstr list" where
  "uevent_keys = [''ACTION'', ''MAJOR'', ''MINOR'']"

lemma block_str_line: "NUL \<notin> set l \<Longrightarrow> block_str (l @ NUL # r) = Some l"
  by (simp add: block_str_def takeWhile_NUL_free)

lemma uevent_loop_Cons:
  assumes "uevent_pair (k, v)" "uevent_line k v s = (0, s')"
  shows "uevent_loop (uevent_print ((k, v) # kvs)) s = uevent_loop (uevent_print kvs) s'"
proof -
  define l where "l = k @ CHR ''='' # v"
  have l: "NUL \<notin> set l" "vdev_keyvalue_next l = (int (length l), Some (k, v))"
    using assms(1) by (auto simp: l_def uevent_pair_def keyvalue_next_Some)
  have p: "uevent_print ((k, v) # kvs) = l @ NUL # uevent_print kvs"
    by (simp add: uevent_print_def l_def)
  show ?thesis
    by (subst uevent_loop.simps) (simp add: p l block_str_line assms(2))
qed

text \<open>What one pair does to the state, field by field; \<open>n\<close> is the new value of a number.\<close>

definition got :: "cstr \<Rightarrow> (cstr \<Rightarrow> 'a) \<Rightarrow> (cstr \<times> cstr) list \<Rightarrow> 'a \<Rightarrow> 'a" where
  "got key f kvs old = (case map_of kvs key of None \<Rightarrow> old | Some v \<Rightarrow> f v)"

lemma got_Nil [simp]: "got key f [] old = old"
  by (simp add: got_def)

lemma got_Cons: "k \<notin> fst ` set kvs \<Longrightarrow> got key f ((k, v) # kvs) old = got key f kvs (if key = k then f v else old)"
  by (cases "key = k") (simp_all add: got_def flip: map_of_eq_None_iff)

lemma got_single: "got key f [(k, v)] old = (if key = k then f v else old)"
  by (simp add: got_def)

definition uevent_params :: "(cstr \<times> cstr) list \<Rightarrow> (cstr \<times> cstr) list" where
  "uevent_params kvs = filter (\<lambda>kv. fst kv \<notin> set uevent_keys) kvs"

text \<open>The state after a list of pairs.\<close>

definition uevent_after :: "(cstr \<times> cstr) list \<Rightarrow> uevent_state \<Rightarrow> uevent_state \<Rightarrow> bool" where
  "uevent_after kvs s s' \<longleftrightarrow>
     ue_type s' = got ''ACTION'' vdev_linux_parse_device_request_type kvs (ue_type s) \<and>
     ue_devpath s' = got ''DEVPATH'' Some kvs (ue_devpath s) \<and>
     ue_devname s' = got ''DEVNAME'' (\<lambda>v. v) kvs (ue_devname s) \<and>
     ue_subsystem s' = got ''SUBSYSTEM'' Some kvs (ue_subsystem s) \<and>
     ue_major s' = got ''MAJOR'' uevent_number kvs (ue_major s) \<and>
     ue_minor s' = got ''MINOR'' uevent_number kvs (ue_minor s) \<and>
     (\<exists>ps. vdev_params_invar ps \<and> vdev_params_lookup ps = vdev_params_lookup (req_params (ue_req s)) ++ map_of (uevent_params kvs) \<and>
       ue_req s' = (ue_req s)\<lparr>req_type := got ''ACTION'' vdev_linux_parse_device_request_type kvs (req_type (ue_req s)), req_params := ps\<rparr>)"

text \<open>Pairs that the parser accepts in a state.\<close>

definition uevent_accept :: "uevent_state \<Rightarrow> cstr \<times> cstr \<Rightarrow> bool" where
  "uevent_accept s kv \<longleftrightarrow>
     (fst kv = ''ACTION'' \<longrightarrow> vdev_linux_parse_device_request_type (snd kv) \<noteq> VDEV_DEVICE_INVALID) \<and>
     (fst kv = ''MAJOR'' \<longrightarrow> ue_major s = None \<and> uevent_number (snd kv) \<noteq> None) \<and>
     (fst kv = ''MINOR'' \<longrightarrow> ue_minor s = None \<and> uevent_number (snd kv) \<noteq> None) \<and>
     (fst kv \<notin> set uevent_keys \<longrightarrow> vdev_params_lookup (req_params (ue_req s)) (fst kv) = None)"

definition uevent_accepts :: "(cstr \<times> cstr) list \<Rightarrow> uevent_state \<Rightarrow> bool" where
  "uevent_accepts kvs s \<longleftrightarrow> vdev_params_invar (req_params (ue_req s)) \<and> (\<forall>kv \<in> set kvs. uevent_accept s kv)"

lemma uevent_param_ok:
  assumes "vdev_params_invar (req_params (ue_req s))" "vdev_params_lookup (req_params (ue_req s)) k = None"
  obtains ps where "uevent_param k v s = (0, s\<lparr>ue_req := (ue_req s)\<lparr>req_params := ps\<rparr>\<rparr>)" "vdev_params_invar ps"
    "vdev_params_lookup ps = (vdev_params_lookup (req_params (ue_req s)))(k \<mapsto> v)"
proof
  let ?r = "vdev_params_add (req_params (ue_req s)) k v"
  have "fst ?r = 0" using assms by (simp add: params_add_cases)
  then show "uevent_param k v s = (0, s\<lparr>ue_req := (ue_req s)\<lparr>req_params := snd ?r\<rparr>\<rparr>)"
    by (cases ?r) (simp add: uevent_param_def vdev_device_request_add_param_def)
  show "vdev_params_invar (snd ?r)" using assms(1) by (rule params_add_invar)
  show "vdev_params_lookup (snd ?r) = (vdev_params_lookup (req_params (ue_req s)))(k \<mapsto> v)"
    using params_add_lookup [OF assms(1)] assms(2) by simp
qed

lemma uevent_line_ok:
  assumes "uevent_accepts [(k, v)] s"
  shows "\<exists>s'. uevent_line k v s = (0, s') \<and> uevent_after [(k, v)] s s'"
proof -
  have inv: "vdev_params_invar (req_params (ue_req s))" using assms by (simp add: uevent_accepts_def)
  consider "k = ''ACTION''" | "k = ''MAJOR''" | "k = ''MINOR''" | "k \<notin> set uevent_keys"
    by (auto simp: uevent_keys_def)
  then show ?thesis
  proof cases
    case 4
    then have "vdev_params_lookup (req_params (ue_req s)) k = None" using assms by (simp add: uevent_accepts_def uevent_accept_def)
    note free = this
    define s1 where "s1 = (if k = ''DEVPATH'' then s\<lparr>ue_devpath := Some v\<rparr> else if k = ''DEVNAME'' then s\<lparr>ue_devname := v\<rparr>
      else if k = ''SUBSYSTEM'' then s\<lparr>ue_subsystem := Some v\<rparr> else s)"
    have s1: "ue_req s1 = ue_req s" by (simp add: s1_def)
    obtain ps where ps: "uevent_param k v s1 = (0, s1\<lparr>ue_req := (ue_req s)\<lparr>req_params := ps\<rparr>\<rparr>)" "vdev_params_invar ps"
      "vdev_params_lookup ps = (vdev_params_lookup (req_params (ue_req s)))(k \<mapsto> v)"
      using uevent_param_ok [of s1 k v] inv free unfolding s1 by metis
    have "uevent_line k v s = uevent_param k v s1"
      using 4 by (simp add: uevent_line_def s1_def uevent_keys_def)
    moreover have "uevent_after [(k, v)] s (s1\<lparr>ue_req := (ue_req s)\<lparr>req_params := ps\<rparr>\<rparr>)"
    proof -
      have ne: "''ACTION'' \<noteq> k" "''MAJOR'' \<noteq> k" "''MINOR'' \<noteq> k" using 4 by (auto simp: uevent_keys_def)
      have "uevent_params [(k, v)] = [(k, v)]" using 4 by (simp add: uevent_params_def)
      with ps(2,3) show ?thesis
        unfolding uevent_after_def got_single if_not_P [OF ne(1)] if_not_P [OF ne(2)] if_not_P [OF ne(3)]
        by (simp add: s1_def) (use ps(2) in \<open>auto intro!: exI [of _ ps]\<close>)
    qed
    ultimately show ?thesis by (simp add: ps(1))
  qed (use assms inv in \<open>auto simp: uevent_accepts_def uevent_accept_def uevent_line_def uevent_after_def got_def uevent_params_def uevent_keys_def
      Let_def vdev_device_request_set_type_def intro!: exI [of _ "req_params (ue_req s)"]\<close>)
qed

lemma uevent_accepts_Cons:
  assumes "uevent_accepts ((k, v) # kvs) s" "k \<notin> fst ` set kvs" "uevent_after [(k, v)] s s'"
  shows "uevent_accepts kvs s'"
proof -
  obtain ps where ps: "vdev_params_invar (req_params (ue_req s'))" 
    "vdev_params_lookup (req_params (ue_req s')) = vdev_params_lookup (req_params (ue_req s)) ++ map_of (uevent_params [(k, v)])"
    using assms(3) by (auto simp: uevent_after_def)
  have "vdev_params_lookup (req_params (ue_req s')) k' = vdev_params_lookup (req_params (ue_req s)) k'" if "k' \<noteq> k" for k'
    using ps(2) that by (simp add: map_add_def uevent_params_def)
  moreover have "ue_major s' = ue_major s" if "k \<noteq> ''MAJOR''" using that assms(3) by (simp add: uevent_after_def got_def)
  moreover have "ue_minor s' = ue_minor s" if "k \<noteq> ''MINOR''" using that assms(3) by (simp add: uevent_after_def got_def)
  moreover have "k' \<noteq> k" if "(k', v') \<in> set kvs" for k' v' using that assms(2) by force
  ultimately have "uevent_accept s' (k', v')" if "(k', v') \<in> set kvs" for k' v'
    using that assms(1) unfolding uevent_accepts_def uevent_accept_def by (metis fst_conv insert_iff list.set(2) snd_conv)
  with ps(1) show ?thesis by (auto simp: uevent_accepts_def)
qed

lemma uevent_after_Cons:
  assumes "k \<notin> fst ` set kvs" "uevent_after [(k, v)] s s1" "uevent_after kvs s1 s2"
  shows "uevent_after ((k, v) # kvs) s s2"
proof -
  have "map_of (uevent_params ((k, v) # kvs)) = map_of (uevent_params [(k, v)]) ++ map_of (uevent_params kvs)"
    using assms(1) by (force simp: uevent_params_def fun_eq_iff map_add_def split: option.splits dest!: map_of_SomeD)
  with assms show ?thesis
    by (auto simp: uevent_after_def got_Cons [OF assms(1)] got_Cons [of k "[]"])
qed

lemma uevent_loop_print:
  "distinct (map fst kvs) \<Longrightarrow> list_all uevent_pair kvs \<Longrightarrow> uevent_accepts kvs s \<Longrightarrow>
   \<exists>s'. uevent_loop (uevent_print kvs) s = Some (0, s') \<and> uevent_after kvs s s'"
proof (induction kvs arbitrary: s)
  case Nil
  then show ?case by (subst uevent_loop.simps) (auto simp: uevent_print_def uevent_after_def uevent_accepts_def uevent_params_def
        intro!: exI [of _ "req_params (ue_req s)"])
next
  case (Cons kv kvs)
  obtain k v where kv: "kv = (k, v)" by (cases kv)
  have k: "k \<notin> fst ` set kvs" using Cons.prems(1) kv by simp
  have "uevent_accepts [(k, v)] s" using Cons.prems(3) kv by (simp add: uevent_accepts_def)
  then obtain s1 where s1: "uevent_line k v s = (0, s1)" "uevent_after [(k, v)] s s1"
    using uevent_line_ok by blast
  obtain s2 where "uevent_loop (uevent_print kvs) s1 = Some (0, s2)" "uevent_after kvs s1 s2"
    using Cons.IH [of s1] Cons.prems uevent_accepts_Cons [OF _ k s1(2)] kv by auto
  then show ?case
    using uevent_loop_Cons [OF _ s1(1)] uevent_after_Cons [OF k s1(2)] Cons.prems(2) kv by auto
qed


lemma uevent_number_show: "n < 2 ^ 32 \<Longrightarrow> uevent_number (show_nat n) = Some (of_nat n)"
  using strto_show_nat [of "[]" n] by (simp add: uevent_number_def strtoll_def LLONG_MAX_def LLONG_MIN_def)

text \<open>
  C26: A kernel uevent is parsed back. Whatever the order of its pairs, the request has the type of
  \<open>ACTION\<close>, the numbers of \<open>MAJOR\<close> and \<open>MINOR\<close>, the name of \<open>DEVNAME\<close> (or \<open>UNKNOWN\<close>), and is a block device
  exactly if the subsystem is \<open>block\<close>; every other pair becomes a parameter of the request, and
  the mount point of sysfs is the only parameter that is added.
\<close>

theorem uevent_parse_print:
  assumes "distinct (map fst kvs)" "list_all uevent_pair kvs"
    and "map_of kvs ''ACTION'' = Some act" "vdev_linux_parse_device_request_type act \<noteq> VDEV_DEVICE_INVALID"
    and "map_of kvs ''MAJOR'' = Some (show_nat major)" "major < 2 ^ 32"
    and "map_of kvs ''MINOR'' = Some (show_nat minor)" "minor < 2 ^ 32"
    and "map_of kvs ''SUBSYSTEM'' = Some sub" "map_of kvs ''SYSFS_MOUNTPOINT'' = None"
    and "NUL \<notin> set hdr" "CHR ''@'' \<in> set hdr"
  shows "\<exists>req. vdev_linux_parse_request os mp (vdev_device_request_init VDEV_DEVICE_INVALID None)
      (hdr @ [NUL] @ uevent_print kvs) w = Some (0, req) \<and>
    req_type req = vdev_linux_parse_device_request_type act \<and>
    req_path req = Some (case map_of kvs ''DEVNAME'' of None \<Rightarrow> VDEV_DEVICE_PATH_UNKNOWN | Some name \<Rightarrow> name) \<and>
    req_renamed_path req = None \<and> \<not> req_exists req \<and>
    req_dev req = makedev (of_nat major) (of_nat minor) \<and>
    req_mode req = (if strcasecmp_eq sub ''block'' then S_IFBLK else S_IFCHR) \<and>
    vdev_params_lookup (req_params req) =
      (map_of (filter (\<lambda>kv. fst kv \<notin> set uevent_keys) kvs))(''SYSFS_MOUNTPOINT'' \<mapsto> mp)"
proof -
  let ?req = "vdev_device_request_init VDEV_DEVICE_INVALID None"
  have init: "vdev_params_invar (req_params ?req)" "vdev_params_lookup (req_params ?req) = Map.empty"
    by (simp_all add: vdev_device_request_init_def params.invar_empty params.lookup_empty)
  have val: "map_of kvs k = Some v" if "(k, v) \<in> set kvs" for k v using that assms(1) by simp
  have "uevent_accepts kvs (uevent_init ?req)"
    using init val assms(3-8) uevent_number_show [of major] uevent_number_show [of minor]
    by (force simp: uevent_accepts_def uevent_accept_def uevent_init_def)
  then obtain s where s: "uevent_loop (uevent_print kvs) (uevent_init ?req) = Some (0, s)" "uevent_after kvs (uevent_init ?req) s"
    using uevent_loop_print assms(1,2) by blast
  obtain ps where ps: "vdev_params_invar ps" "vdev_params_lookup ps = map_of (uevent_params kvs)"
    "ue_req s = ?req\<lparr>req_type := vdev_linux_parse_device_request_type act, req_params := ps\<rparr>"
    and f: "ue_type s = vdev_linux_parse_device_request_type act"
    "ue_devname s = (case map_of kvs ''DEVNAME'' of None \<Rightarrow> VDEV_DEVICE_PATH_UNKNOWN | Some n \<Rightarrow> n)"
    "ue_major s = Some (of_nat major)" "ue_minor s = Some (of_nat minor)" "ue_subsystem s = Some sub"
    using s(2) assms(3,5,7,9) uevent_number_show [OF assms(6)] uevent_number_show [OF assms(8)] init
    by (auto simp: uevent_after_def got_def uevent_init_def)
  have "map_of (uevent_params kvs) ''SYSFS_MOUNTPOINT'' = None"
    using assms(10) by (auto simp: uevent_params_def map_of_eq_None_iff)
  then obtain ps' where add: "vdev_params_add ps ''SYSFS_MOUNTPOINT'' mp = (0, ps')"
    "vdev_params_lookup ps' = (map_of (uevent_params kvs))(''SYSFS_MOUNTPOINT'' \<mapsto> mp)"
    using params_add_lookup [OF ps(1), of "''SYSFS_MOUNTPOINT''" mp] ps(2) by (simp add: params_add_cases [OF ps(1)])
  have sysfs: "uevent_sysfs os mp w (s\<lparr>ue_req := r\<rparr>) = (0, s\<lparr>ue_req := r\<rparr>)" for r
    using f by (simp add: uevent_sysfs_def uevent_sysfs_nums_def uevent_sysfs_subsystem_def split: option.splits)
  have "vdev_linux_parse_request os mp ?req (hdr @ [NUL] @ uevent_print kvs) w = Some (uevent_finish os mp w s)"
    using assms(11,12) s(1) strchr_None [of hdr "CHR ''@''"]
    by (simp add: vdev_linux_parse_request_def block_str_line)
  moreover have "uevent_finish os mp w s = (0, ?req\<lparr>req_type := vdev_linux_parse_device_request_type act,
      req_path := Some (ue_devname s), req_dev := makedev (of_nat major) (of_nat minor),
      req_mode := (if strcasecmp_eq sub ''block'' then S_IFBLK else S_IFCHR),
      req_params := ps'\<rparr>)"
    using f ps(3) assms(4) add(1)
    by (simp add: uevent_finish_def sysfs uevent_mode_def vdev_device_request_set_dev_def vdev_device_request_set_path_def
        vdev_device_request_set_mode_def vdev_device_request_add_param_def vdev_device_request_init_def)
  ultimately show ?thesis using add(2) f(2) by (simp add: vdev_device_request_init_def uevent_params_def)
qed

theorem uevent_parse_print_witness:
  "\<exists>req. vdev_linux_parse_request calm_linux ''/sys'' (vdev_device_request_init VDEV_DEVICE_INVALID None)
      (''add@/devices/sda'' @ [NUL] @ uevent_print [(''ACTION'', ''add''), (''DEVNAME'', ''sda''), (''MAJOR'', show_nat 8),
         (''MINOR'', show_nat 0), (''SUBSYSTEM'', ''block'')]) calm_world = Some (0, req) \<and>
    req_type req = VDEV_DEVICE_ADD \<and> req_path req = Some ''sda'' \<and>
    req_renamed_path req = None \<and> \<not> req_exists req \<and> req_dev req = makedev 8 0 \<and> req_mode req = S_IFBLK \<and>
    vdev_params_lookup (req_params req) = [''DEVNAME'' \<mapsto> ''sda'', ''SUBSYSTEM'' \<mapsto> ''block'', ''SYSFS_MOUNTPOINT'' \<mapsto> ''/sys'']"
proof -
  have nz: "NUL \<notin> set (show_nat n)" for n using show_nat_digits [of n] by (auto simp: is_digit_in_def)
  show ?thesis
    using uevent_parse_print [of "[(''ACTION'', ''add''), (''DEVNAME'', ''sda''), (''MAJOR'', show_nat 8),
        (''MINOR'', show_nat 0), (''SUBSYSTEM'', ''block'')]" "''add''" 8 0 "''block''" "''add@/devices/sda''" calm_linux "''/sys''" calm_world] nz
    by (simp add: uevent_pair_def uevent_keys_def vdev_linux_parse_device_request_type_def fun_upd_twist)
qed

section \<open>What the parser refuses\<close>

text \<open>A key that occurs twice, although a uevent may well repeat itself.\<close>

lemma uevent_duplicate_refused:
  assumes "vdev_params_invar (req_params (ue_req s))" "vdev_params_lookup (req_params (ue_req s)) k \<noteq> None"
    and "k \<notin> set uevent_keys"
  shows "fst (uevent_line k v s) = - EEXIST"
proof -
  have "fst (uevent_param k v s') = - EEXIST" if "ue_req s' = ue_req s" for s'
    using assms(1,2) that
    by (auto simp: uevent_param_def vdev_device_request_add_param_def params_add_cases)
  then have "fst (uevent_param k v s) = - EEXIST" "fst (uevent_param k v (s\<lparr>ue_devpath := Some v\<rparr>)) = - EEXIST"
    "fst (uevent_param k v (s\<lparr>ue_devname := v\<rparr>)) = - EEXIST" "fst (uevent_param k v (s\<lparr>ue_subsystem := Some v\<rparr>)) = - EEXIST"
    by simp_all
  with assms(3) show ?thesis by (simp add: uevent_line_def uevent_keys_def) metis
qed

end
