(* ===== verification/Sglib_Vector.thy ===== *)
theory Sglib_Vector
  imports Vdev_Prelude
begin

text \<open>
  The growable array at the end of \<^verbatim>\<open>libvdev/sglib.h\<close>, which the directory walks of vdevd use as a
  stack and as a queue.

  The buffer is \<open>NULL\<close> or a block of cells; a result \<open>None\<close> stands for an access outside the block
  or through \<open>NULL\<close>, or for \<open>abort\<close>. \<open>alloc\<close> says whether \<open>realloc\<close> succeeds. Sizes are compared
  after a cast to 32 bits. The locale \<open>vector_spec\<close> is the contract: a list.
\<close>

record 'a vector =
  vec_buf :: "'a list option"
  vec_len :: nat
  vec_exp :: nat

definition vector_init :: "'a vector" where
  "vector_init = \<lparr>vec_buf = None, vec_len = 0, vec_exp = 0\<rparr>"

text \<open>\<open>realloc\<close> keeps the cells it can keep; the new ones hold \<open>x\<close>, which stands for any content.\<close>

definition vector_realloc :: "'a \<Rightarrow> nat \<Rightarrow> 'a list option \<Rightarrow> 'a list" where
  "vector_realloc x n buf =
     (case buf of None \<Rightarrow> replicate n x | Some b \<Rightarrow> take n b @ replicate (n - length b) x)"

definition vector_grow :: "bool \<Rightarrow> 'a \<Rightarrow> 'a vector \<Rightarrow> rc \<times> 'a vector" where
  "vector_grow alloc x v =
     (let v1 = v\<lparr>vec_exp := Suc (vec_exp v)\<rparr>
      in if \<not> alloc then (- ENOMEM, v1)
         else (0, v1\<lparr>vec_buf := Some (vector_realloc x (2 ^ vec_exp v1) (vec_buf v1))\<rparr>))"

definition vector_store :: "nat \<Rightarrow> 'a \<Rightarrow> 'a vector \<Rightarrow> 'a vector option" where
  "vector_store i t v =
     (case vec_buf v of
        None \<Rightarrow> None
      | Some b \<Rightarrow> if i < length b then Some (v\<lparr>vec_buf := Some (b[i := t])\<rparr>) else None)"

definition vector_push_back :: "bool \<Rightarrow> 'a \<Rightarrow> 'a vector \<Rightarrow> (rc \<times> 'a vector) option" where
  "vector_push_back alloc t v =
     (case (if vec_len v + 1 \<ge> 2 ^ vec_exp v mod 2 ^ 32 then vector_grow alloc t v else (0, v)) of (rc, v1) \<Rightarrow>
        if rc = - ENOMEM then Some (rc, v1)
        else map_option (\<lambda>v2. (0, v2\<lparr>vec_len := vec_len v2 + 1\<rparr>)) (vector_store (vec_len v1) t v1))"

definition vector_at :: "nat \<Rightarrow> 'a vector \<Rightarrow> 'a option" where
  "vector_at i v = (case vec_buf v of None \<Rightarrow> None | Some b \<Rightarrow> if i < length b then Some (b ! i) else None)"

definition vector_pop_back :: "'a vector \<Rightarrow> ('a \<times> 'a vector) option" where
  "vector_pop_back v =
     (if vec_len v = 0 then None
      else map_option (\<lambda>x. (x, v\<lparr>vec_len := vec_len v - 1\<rparr>)) (vector_at (vec_len v - 1) v))"

definition vector_set :: "'a \<Rightarrow> nat \<Rightarrow> 'a vector \<Rightarrow> (rc \<times> 'a vector) option" where
  "vector_set t i v = (if i \<ge> vec_len v then Some (- EINVAL, v) else map_option (\<lambda>v'. (0, v')) (vector_store i t v))"

definition vector_size :: "'a vector \<Rightarrow> nat" where
  "vector_size v = vec_len v"

definition vector_free :: "'a vector \<Rightarrow> 'a vector" where
  "vector_free v = \<lparr>vec_buf = None, vec_len = 0, vec_exp = 0\<rparr>"

definition vector_yoink :: "'a vector \<Rightarrow> 'a list option \<times> nat \<times> 'a vector" where
  "vector_yoink v = (vec_buf v, vec_len v, v\<lparr>vec_buf := None, vec_len := 0, vec_exp := 1\<rparr>)"

text \<open>The cast of the size to 32 bits, for evaluation.\<close>

lemma vector_push_back_code [code]:
  "vector_push_back alloc t v =
     (case (if vec_len v + 1 \<ge> (if vec_exp v < 32 then 2 ^ vec_exp v else 0) then vector_grow alloc t v else (0, v)) of (rc, v1) \<Rightarrow>
        if rc = - ENOMEM then Some (rc, v1)
        else map_option (\<lambda>v2. (0, v2\<lparr>vec_len := vec_len v2 + 1\<rparr>)) (vector_store (vec_len v1) t v1))"
proof -
  have "(2 :: nat) ^ e mod 2 ^ 32 = (if e < 32 then 2 ^ e else 0)" for e
  proof (cases "e < 32")
    case True
    then have "(2 :: nat) ^ e < 2 ^ 32" by (intro power_strict_increasing) auto
    with True show ?thesis by simp
  next
    case False
    then have "(2 :: nat) ^ 32 dvd 2 ^ e" by (intro le_imp_power_dvd) simp
    with False show ?thesis by (simp add: dvd_imp_mod_0)
  qed
  then show ?thesis unfolding vector_push_back_def by presburger
qed

section \<open>The contract\<close>

locale vector_spec =
  fixes elems :: "'v \<Rightarrow> 'a list"
    and invar :: "'v \<Rightarrow> bool"
    and empty :: 'v
    and push :: "'a \<Rightarrow> 'v \<Rightarrow> (rc \<times> 'v) option"
    and pop :: "'v \<Rightarrow> ('a \<times> 'v) option"
    and get :: "nat \<Rightarrow> 'v \<Rightarrow> 'a option"
    and put :: "'a \<Rightarrow> nat \<Rightarrow> 'v \<Rightarrow> (rc \<times> 'v) option"
    and size :: "'v \<Rightarrow> nat"
    and bound :: nat
  assumes empty_ok: "invar empty" "elems empty = []"
    and push_ok: "invar v \<Longrightarrow> length (elems v) < bound \<Longrightarrow>
      \<exists>v'. push x v = Some (0, v') \<and> invar v' \<and> elems v' = elems v @ [x]"
    and pop_ok: "invar v \<Longrightarrow> elems v \<noteq> [] \<Longrightarrow>
      \<exists>v'. pop v = Some (last (elems v), v') \<and> invar v' \<and> elems v' = butlast (elems v)"
    and get_ok: "invar v \<Longrightarrow> i < length (elems v) \<Longrightarrow> get i v = Some (elems v ! i)"
    and put_ok: "invar v \<Longrightarrow> i < length (elems v) \<Longrightarrow>
      \<exists>v'. put x i v = Some (0, v') \<and> invar v' \<and> elems v' = (elems v)[i := x]"
    and size_ok: "invar v \<Longrightarrow> size v = length (elems v)"
begin

text \<open>Pushing a whole list, as the directory walks do.\<close>

fun push_all :: "'a list \<Rightarrow> 'v \<Rightarrow> 'v option" where
  "push_all [] v = Some v"
| "push_all (x # xs) v = (case push x v of Some (rc, v') \<Rightarrow> if rc = 0 then push_all xs v' else None | None \<Rightarrow> None)"

lemma push_all_ok:
  "invar v \<Longrightarrow> length (elems v) + length xs \<le> bound \<Longrightarrow>
   \<exists>v'. push_all xs v = Some v' \<and> invar v' \<and> elems v' = elems v @ xs"
proof (induction xs arbitrary: v)
  case (Cons x xs)
  then obtain v1 where "push x v = Some (0, v1)" "invar v1" "elems v1 = elems v @ [x]"
    using push_ok [of v x] by auto
  with Cons show ?case by fastforce
qed simp

text \<open>Last in, first out.\<close>

lemma push_pop:
  assumes "invar v" "length (elems v) < bound"
  shows "\<exists>v1 v2. push x v = Some (0, v1) \<and> pop v1 = Some (x, v2) \<and> invar v2 \<and> elems v2 = elems v"
proof -
  obtain v1 where v1: "push x v = Some (0, v1)" "invar v1" "elems v1 = elems v @ [x]"
    using push_ok [OF assms] by blast
  moreover obtain v2 where "pop v1 = Some (last (elems v1), v2)" "invar v2" "elems v2 = butlast (elems v1)"
    using pop_ok [OF v1(2)] v1(3) by auto
  ultimately show ?thesis by auto
qed

end

section \<open>The vector keeps the contract\<close>

definition vec_elems :: "'a vector \<Rightarrow> 'a list" where
  "vec_elems v = (case vec_buf v of None \<Rightarrow> [] | Some b \<Rightarrow> take (vec_len v) b)"

definition vec_inv :: "'a vector \<Rightarrow> bool" where
  "vec_inv v \<longleftrightarrow>
     (case vec_buf v of
        None \<Rightarrow> vec_len v = 0 \<and> vec_exp v = 0
      | Some b \<Rightarrow> length b = 2 ^ vec_exp v \<and> vec_len v < 2 ^ vec_exp v) \<and> vec_exp v < 32"

lemma vec_push_cases:
  assumes "vec_inv v" "vec_len v < 2 ^ 30"
  shows "\<exists>v'. vector_push_back True x v = Some (0, v') \<and> vec_inv v' \<and> vec_elems v' = vec_elems v @ [x]"
proof (cases "vec_len v + 1 \<ge> 2 ^ vec_exp v")
  case False
  with assms obtain b where b: "vec_buf v = Some b" "length b = 2 ^ vec_exp v" "vec_exp v < 32"
    by (auto simp: vec_inv_def split: option.splits)
  have "(2 :: nat) ^ vec_exp v < 2 ^ 32" using b(3) by (intro power_strict_increasing) auto
  with False b assms(1) show ?thesis
    by (auto simp: vector_push_back_def vector_store_def vec_inv_def vec_elems_def take_Suc_conv_app_nth)
next
  case True
  define n where "n = (2 :: nat) ^ Suc (vec_exp v)"
  have e: "vec_exp v < 31"
  proof (rule ccontr)
    assume "\<not> vec_exp v < 31"
    then have "(2 :: nat) ^ 31 \<le> 2 ^ vec_exp v" by (intro power_increasing) auto
    with True assms(2) show False by simp
  qed
  then have "(2 :: nat) ^ vec_exp v < 2 ^ 32" by (intro power_strict_increasing) auto
  moreover have n: "vec_len v + 1 < n"
    using assms(1) by (auto simp: vec_inv_def n_def split: option.splits)
  ultimately have push: "vector_push_back True x v =
      Some (0, \<lparr>vec_buf = Some ((vector_realloc x n (vec_buf v))[vec_len v := x]), vec_len = vec_len v + 1, vec_exp = Suc (vec_exp v)\<rparr>)"
    using True by (cases v) (auto simp: vector_push_back_def vector_grow_def vector_store_def n_def Let_def
        vector_realloc_def split: option.splits)
  have len: "length (vector_realloc x n (vec_buf v)) = n"
    using assms(1) by (auto simp: vector_realloc_def vec_inv_def n_def split: option.splits)
  have "take (vec_len v) (vector_realloc x n (vec_buf v)) = vec_elems v"
    using assms(1) by (auto simp: vector_realloc_def vec_inv_def vec_elems_def n_def split: option.splits)
  then show ?thesis unfolding push using n len e
    by (simp add: vec_inv_def vec_elems_def n_def take_Suc_conv_app_nth)
qed

interpretation vec: vector_spec vec_elems vec_inv vector_init "vector_push_back True" vector_pop_back
  vector_at vector_set vector_size "2 ^ 30"
proof unfold_locales
  show "vec_inv vector_init" "vec_elems vector_init = []"
    by (simp_all add: vec_inv_def vec_elems_def vector_init_def)
next
  fix v :: "'a vector" and x :: 'a and i :: nat
  assume v: "vec_inv v"
  then have len: "length (vec_elems v) = vec_len v"
    by (auto simp: vec_inv_def vec_elems_def split: option.splits)
  then show "vector_size v = length (vec_elems v)" by (simp add: vector_size_def)
  show "\<exists>v'. vector_push_back True x v = Some (0, v') \<and> vec_inv v' \<and> vec_elems v' = vec_elems v @ [x]"
    if "length (vec_elems v) < 2 ^ 30"
    using vec_push_cases [OF v] that len by simp
  show "\<exists>v'. vector_pop_back v = Some (last (vec_elems v), v') \<and> vec_inv v' \<and> vec_elems v' = butlast (vec_elems v)"
    if "vec_elems v \<noteq> []"
    using v that by (auto simp: vector_pop_back_def vector_at_def vec_inv_def vec_elems_def last_conv_nth butlast_take
        split: option.splits)
  assume i: "i < length (vec_elems v)"
  then show "vector_at i v = Some (vec_elems v ! i)"
    using v by (auto simp: vector_at_def vec_inv_def vec_elems_def split: option.splits)
  from i show "\<exists>v'. vector_set x i v = Some (0, v') \<and> vec_inv v' \<and> vec_elems v' = (vec_elems v)[i := x]"
    using v len by (auto simp: vector_set_def vector_store_def vec_inv_def vec_elems_def take_update_swap split: option.splits)
qed

text \<open>
  The vector is a list. While it has fewer than \<open>2^30\<close> elements and memory lasts, pushing never
  leaves the block, adds the element at the end and keeps all others, although the block moves
  and doubles; and what was pushed last is popped first, leaving the list as it was.
\<close>

theorem vector_push_pop:
  assumes "vec_inv v" "length (vec_elems v) < 2 ^ 30"
  shows "\<exists>v1 v2. vector_push_back True x v = Some (0, v1) \<and> vec_inv v1 \<and> vec_elems v1 = vec_elems v @ [x] \<and>
    vector_pop_back v1 = Some (x, v2) \<and> vec_inv v2 \<and> vec_elems v2 = vec_elems v"
  using vec.push_ok [OF assms, of x] vec.push_pop [OF assms, of x] by fastforce

theorem vector_push_pop_witness:
  "\<exists>v1 v2. vector_push_back True (7 :: int) vector_init = Some (0, v1) \<and> vec_elems v1 = [7] \<and>
     vector_pop_back v1 = Some (7, v2) \<and> vec_elems v2 = []"
  using vector_push_pop [OF vec.empty_ok(1), of "7 :: int"] vec.empty_ok(2) by force

section \<open>Where the vector leaves its block\<close>

text \<open>A push after \<open>vector_yoink\<close> writes through \<open>NULL\<close>: \<open>yoink\<close> sets the exponent to 1, not 0.\<close>

lemma vector_push_after_yoink: "vector_push_back alloc x (snd (snd (vector_yoink v))) = None"
  by (simp add: vector_push_back_def vector_yoink_def vector_store_def)

text \<open>A failed \<open>realloc\<close> has already raised the exponent, so a later push writes past the block.\<close>

lemma vector_push_after_failure:
  "vector_push_back False x \<lparr>vec_buf = Some [a, b], vec_len = 1, vec_exp = 1\<rparr> =
     Some (- ENOMEM, \<lparr>vec_buf = Some [a, b], vec_len = 1, vec_exp = 2\<rparr>)"
  "vector_push_back True x \<lparr>vec_buf = Some [a, b], vec_len = 1, vec_exp = 2\<rparr> =
     Some (0, \<lparr>vec_buf = Some [a, x], vec_len = 2, vec_exp = 2\<rparr>)"
  "vector_push_back True x \<lparr>vec_buf = Some [a, x], vec_len = 2, vec_exp = 2\<rparr> = None"
  by (simp_all add: vector_push_back_def vector_grow_def vector_store_def)

end
