(* ===== verification/Vdevd_Action.thy ===== *)
theory Vdevd_Action
  imports Vdevd_Request Libvdev_Match
begin

text \<open>
  The first part of \<^verbatim>\<open>vdevd/action.c\<close>: actions, their files, and which requests they match.

  An action names the requests it is for (event, path pattern, device type, OS parameters) and
  what to run: a command that chooses the device's name, a shell command, or a helper program,
  possibly kept running as a daemonlet (\<open>Vdevd_Daemonlet\<close>). \<open>Vdevd_Run\<close> runs them.
\<close>

section \<open>Actions\<close>

record vdev_action =
  act_name :: "cstr option"
  act_trigger :: vdev_device_request_t
  act_path :: "cstr option"             \<comment> \<open>and \<open>path_regex\<close>, which is compiled from it\<close>
  act_has_type :: bool
  act_type :: "cstr option"
  act_rename_command :: "cstr option"
  act_command :: "cstr option"
  act_helper :: "cstr option"
  act_use_shell :: bool
  act_dev_params :: vdev_params
  act_helper_vars :: vdev_params
  act_async :: bool
  act_if_exists :: int
  act_is_daemonlet :: bool
  act_daemonlet_stdin :: int
  act_daemonlet_stdout :: int
  act_daemonlet_pid :: int
  act_num_successful_calls :: uint64
  act_cumulative_time_millis :: uint64

abbreviation (input) VDEV_IF_EXISTS_ERROR :: int where "VDEV_IF_EXISTS_ERROR \<equiv> 1"
abbreviation (input) VDEV_IF_EXISTS_MASK :: int where "VDEV_IF_EXISTS_MASK \<equiv> 2"
abbreviation (input) VDEV_IF_EXISTS_RUN :: int where "VDEV_IF_EXISTS_RUN \<equiv> 3"

definition action_zero :: vdev_action where
  "action_zero = \<lparr>act_name = None, act_trigger = VDEV_DEVICE_INVALID, act_path = None, act_has_type = False,
     act_type = None, act_rename_command = None, act_command = None, act_helper = None, act_use_shell = False,
     act_dev_params = Leaf, act_helper_vars = Leaf, act_async = False, act_if_exists = 0, act_is_daemonlet = False,
     act_daemonlet_stdin = 0, act_daemonlet_stdout = 0, act_daemonlet_pid = 0, act_num_successful_calls = 0,
     act_cumulative_time_millis = 0\<rparr>"

text \<open>\<open>vdev_action_free\<close> leaves the daemonlet fields, the trigger and the flags alone.\<close>

definition vdev_action_free :: "vdev_action \<Rightarrow> vdev_action" where
  "vdev_action_free act = act\<lparr>act_name := None, act_command := None, act_rename_command := None,
     act_dev_params := Leaf, act_helper_vars := Leaf, act_helper := None, act_path := None, act_type := None\<rparr>"

definition vdev_action_init ::
  "regex_lib \<Rightarrow> vdev_device_request_t \<Rightarrow> cstr option \<Rightarrow> cstr option \<Rightarrow> cstr option \<Rightarrow> bool \<Rightarrow> rc \<times> vdev_action" where
  "vdev_action_init lib trigger path command helper async =
     (let act = action_zero\<lparr>act_trigger := trigger, act_path := path, act_command := command, act_helper := helper,
                 act_async := async, act_daemonlet_stdin := - 1, act_daemonlet_stdout := - 1, act_daemonlet_pid := - 1\<rparr>;
          rc = (case path of None \<Rightarrow> 0 | Some p \<Rightarrow> vdev_match_regex_init lib p)
      in if rc \<noteq> 0 then (rc, vdev_action_free act) else (0, act))"

definition vdev_action_add_param :: "vdev_action \<Rightarrow> cstr \<Rightarrow> cstr \<Rightarrow> rc \<times> vdev_action" where
  "vdev_action_add_param act name value =
     (case vdev_params_add (act_dev_params act) name value of (rc, ps) \<Rightarrow> (rc, act\<lparr>act_dev_params := ps\<rparr>))"

definition vdev_action_add_var :: "vdev_action \<Rightarrow> cstr \<Rightarrow> cstr \<Rightarrow> rc \<times> vdev_action" where
  "vdev_action_add_var act name value =
     (case vdev_params_add (act_helper_vars act) name value of (rc, ps) \<Rightarrow> (rc, act\<lparr>act_helper_vars := ps\<rparr>))"

section \<open>Action files\<close>

definition vdev_action_parse_trigger :: "cstr \<Rightarrow> vdev_device_request_t" where
  "vdev_action_parse_trigger t =
     (if t = ''add'' then VDEV_DEVICE_ADD else if t = ''remove'' then VDEV_DEVICE_REMOVE
      else if t = ''change'' then VDEV_DEVICE_CHANGE else if t = ''any'' then VDEV_DEVICE_ANY
      else VDEV_DEVICE_INVALID)"

definition action_parse_async :: "vdev_action \<Rightarrow> cstr \<Rightarrow> int \<times> vdev_action" where
  "action_parse_async act value =
     (if strcasecmp_eq value ''true'' \<or> value = ''1'' then (1, act\<lparr>act_async := True\<rparr>)
      else if strcasecmp_eq value ''false'' \<or> value = ''0'' then (1, act\<lparr>act_async := False\<rparr>)
      else (0, act))"

definition action_parse_if_exists :: "vdev_action \<Rightarrow> cstr \<Rightarrow> int \<times> vdev_action" where
  "action_parse_if_exists act value =
     (if value = ''error'' then (1, act\<lparr>act_if_exists := VDEV_IF_EXISTS_ERROR\<rparr>)
      else if value = ''mask'' then (1, act\<lparr>act_if_exists := VDEV_IF_EXISTS_MASK\<rparr>)
      else if value = ''run'' then (1, act\<lparr>act_if_exists := VDEV_IF_EXISTS_RUN\<rparr>)
      else (0, act))"

text \<open>Keys with the prefixes \<open>OS_\<close> and \<open>VAR_\<close>.\<close>

definition action_parse_prefixed :: "vdev_action \<Rightarrow> cstr \<Rightarrow> cstr \<Rightarrow> int \<times> vdev_action" where
  "action_parse_prefixed act name value =
     (if take 3 name = ''OS_'' then
        (case vdev_action_add_param act (drop 3 name) value of (rc, act') \<Rightarrow> (if rc = 0 then 1 else 0, act'))
      else if take 4 name = ''VAR_'' then
        (case vdev_action_add_var act (drop 4 name) value of (rc, act') \<Rightarrow> (if rc = 0 then 1 else 0, act'))
      else (0, act))"

definition vdev_action_ini_parser :: "regex_lib \<Rightarrow> vdev_action ini_callback" where
  "vdev_action_ini_parser lib act sect name value =
     (if sect \<noteq> ''vdev-action'' then (0, act)
      else if name = ''path'' then
        (if vdev_match_regex_init lib value \<noteq> 0 then 0 else 1, act\<lparr>act_path := Some value\<rparr>)
      else if name = ''rename_command'' then (1, act\<lparr>act_rename_command := Some value\<rparr>)
      else if name = ''event'' then
        (let t = vdev_action_parse_trigger value
         in (if t = VDEV_DEVICE_INVALID then 0 else 1, act\<lparr>act_trigger := t\<rparr>))
      else if name = ''command'' then (1, act\<lparr>act_command := Some value\<rparr>)
      else if name = ''helper'' then (1, act\<lparr>act_helper := Some value\<rparr>)
      else if name = ''async'' then action_parse_async act value
      else if name = ''type'' then (1, act\<lparr>act_has_type := True, act_type := Some value\<rparr>)
      else if name = ''if_exists'' then action_parse_if_exists act value
      else if name = ''daemonlet'' then
        (1, if strcasecmp_eq value ''true'' then act\<lparr>act_is_daemonlet := True\<rparr> else act)
      else action_parse_prefixed act name value)"

definition vdev_action_sanity_check :: "vdev_action \<Rightarrow> rc" where
  "vdev_action_sanity_check act =
     (if act_command act = None \<and> act_rename_command act = None \<and> act_helper act = None \<or>
         act_command act \<noteq> None \<and> act_helper act \<noteq> None \<or>
         act_trigger act = VDEV_DEVICE_INVALID
      then - EINVAL else 0)"

text \<open>The helpers directory is \<open>NULL\<close> when it is not configured; the code would then crash (\<open>None\<close>).\<close>

definition vdev_action_postprocess :: "vdev_config \<Rightarrow> vdev_action \<Rightarrow> vdev_action option" where
  "vdev_action_postprocess config act =
     (case (act_command act, act_helper act) of
        (None, Some h) \<Rightarrow>
          (case conf_helpers_dir config of
             None \<Rightarrow> None
           | Some d \<Rightarrow> Some (act\<lparr>act_command := Some (d @ ''/'' @ h), act_use_shell := False\<rparr>))
      | _ \<Rightarrow> Some (act\<lparr>act_use_shell := True\<rparr>))"

definition vdev_action_load_file ::
  "regex_lib \<Rightarrow> vdev_config \<Rightarrow> vdev_action \<Rightarrow> char list \<Rightarrow> (rc \<times> vdev_action) option" where
  "vdev_action_load_file lib config act file =
     (case ini_parse_file (vdev_action_ini_parser lib) act file of (rc, act1) \<Rightarrow>
        if rc \<noteq> 0 then Some (rc, act1)
        else if vdev_action_sanity_check act1 \<noteq> 0 then Some (vdev_action_sanity_check act1, act1)
        else map_option (\<lambda>act2. (0, act2)) (vdev_action_postprocess config act1))"

definition vdev_action_load ::
  "regex_lib \<Rightarrow> vdev_config \<Rightarrow> cstr \<Rightarrow> world \<Rightarrow> (rc \<times> vdev_action) option" where
  "vdev_action_load lib config path w =
     (case vdev_action_init lib VDEV_DEVICE_INVALID None None None False of (rc, act) \<Rightarrow>
        if rc \<noteq> 0 then Some (rc, act)
        else (case sys_open_read path w of
                Inl e \<Rightarrow> Some (- e, vdev_action_free act)
              | Inr file \<Rightarrow>
                  (case vdev_action_load_file lib config act file of
                     None \<Rightarrow> None
                   | Some (rc, act1) \<Rightarrow>
                       Some (rc, if rc = - EINVAL then vdev_action_free act1
                                 else if rc = 0 then act1\<lparr>act_name := Some path\<rparr> else act1))))"

text \<open>The loader: a crash ends the daemon, so the state of the loop is \<open>None\<close> from then on.\<close>

definition vdev_action_loader ::
  "regex_lib \<Rightarrow> vdev_config \<Rightarrow> world \<Rightarrow> cstr \<Rightarrow> vdev_action list option \<Rightarrow> rc \<times> vdev_action list option" where
  "vdev_action_loader lib config w path s =
     (case s of
        None \<Rightarrow> (- EIO, None)
      | Some acts \<Rightarrow>
          (case sys_stat path w of
             Inl e \<Rightarrow> (- e, Some acts)
           | Inr (FReg _) \<Rightarrow>
               (case vdev_action_load lib config path w of
                  None \<Rightarrow> (- EIO, None)
                | Some (rc, act) \<Rightarrow> if rc \<noteq> 0 then (rc, Some acts) else (0, Some (acts @ [act])))
           | Inr _ \<Rightarrow> (0, Some acts)))"

definition vdev_action_load_all ::
  "regex_lib \<Rightarrow> vdev_config \<Rightarrow> world \<Rightarrow> (rc + vdev_action list) option" where
  "vdev_action_load_all lib config w =
     (case vdev_load_all (conf_acts_dir config) (vdev_action_loader lib config w) w (Some []) of
        (rc, None) \<Rightarrow> None
      | (rc, Some acts) \<Rightarrow> Some (if rc \<noteq> 0 then Inl rc else Inr acts))"

section \<open>Matching\<close>

text \<open>A path that is \<open>NULL\<close> does not occur in a request that was accepted; it is matched as the empty string.\<close>

definition the_path :: "vdev_device_request \<Rightarrow> cstr" where
  "the_path req = (case req_path req of None \<Rightarrow> [] | Some p \<Rightarrow> p)"

definition the_type :: "vdev_action \<Rightarrow> cstr" where
  "the_type act = (case act_type act of None \<Rightarrow> [] | Some t \<Rightarrow> t)"

fun params_match_loop :: "vdev_params \<Rightarrow> (cstr \<times> cstr) list \<Rightarrow> rc" where
  "params_match_loop ps [] = 1"
| "params_match_loop ps (dp # dps) =
     (case sglib_find_member VDEV_PARAM_CMP ps dp of
        Some m \<Rightarrow> if snd dp = [] then params_match_loop ps dps
                  else if snd m \<noteq> snd dp then 0 else params_match_loop ps dps
      | None \<Rightarrow> 0)"

definition vdev_action_match :: "regex_lib \<Rightarrow> vdev_device_request \<Rightarrow> vdev_action \<Rightarrow> rc" where
  "vdev_action_match lib vreq act =
     (if act_trigger act \<noteq> req_type vreq \<and> act_trigger act \<noteq> VDEV_DEVICE_ANY then 0
      else
        (let rc = (case act_path act of None \<Rightarrow> 1 | Some p \<Rightarrow> vdev_match_regex lib (the_path vreq) p)
         in if rc = 0 then 0
            else if rc < 0 then rc
            else if act_has_type act \<and> \<not> S_ISBLK (req_mode vreq) \<and> \<not> S_ISCHR (req_mode vreq) then 0
            else if act_has_type act \<and> S_ISBLK (req_mode vreq) \<and> \<not> strcasecmp_eq (the_type act) ''block'' then 0
            else if act_has_type act \<and> S_ISCHR (req_mode vreq) \<and> \<not> strcasecmp_eq (the_type act) ''char'' then 0
            else if act_dev_params act \<noteq> Leaf
              then params_match_loop (req_params vreq) (vdev_params_items (act_dev_params act))
            else 1))"

fun action_find_loop :: "regex_lib \<Rightarrow> vdev_device_request \<Rightarrow> nat \<Rightarrow> vdev_action list \<Rightarrow> rc" where
  "action_find_loop lib vreq i [] = int i"
| "action_find_loop lib vreq i (act # acts) =
     (let rc = vdev_action_match lib vreq act
      in if rc > 0 then int i else if rc < 0 then rc else action_find_loop lib vreq (Suc i) acts)"

definition vdev_action_find_next :: "regex_lib \<Rightarrow> vdev_device_request \<Rightarrow> vdev_action list \<Rightarrow> rc" where
  "vdev_action_find_next lib vreq acts = action_find_loop lib vreq 0 acts"

interpretation action_scan: first_match "vdev_action_match lib vreq" "action_find_loop lib vreq" for lib vreq
  by unfold_locales (auto simp: Let_def)

section \<open>What a match means\<close>

text \<open>Every parameter of the action is a parameter of the request, with the same value or with none given.\<close>

definition params_cover :: "vdev_params \<Rightarrow> vdev_params \<Rightarrow> bool" where
  "params_cover wanted given \<longleftrightarrow>
     (\<forall>k v. vdev_params_lookup wanted k = Some v \<longrightarrow>
        (\<exists>v'. vdev_params_lookup given k = Some v' \<and> (v = [] \<or> v' = v)))"

lemma find_member_key: "sglib_find_member VDEV_PARAM_CMP ps (k, v) = sglib_find_member VDEV_PARAM_CMP ps (k, [])"
  by (induction ps) (auto simp: VDEV_PARAM_CMP_def Let_def)

lemma find_member_lookup: "map_option snd (sglib_find_member VDEV_PARAM_CMP ps dp) = vdev_params_lookup ps (fst dp)"
  using find_member_key [of ps "fst dp" "snd dp"] by (simp add: vdev_params_lookup_def)

definition param_ok :: "vdev_params \<Rightarrow> cstr \<times> cstr \<Rightarrow> bool" where
  "param_ok ps dp \<longleftrightarrow>
     (case vdev_params_lookup ps (fst dp) of None \<Rightarrow> False | Some v' \<Rightarrow> snd dp = [] \<or> v' = snd dp)"

lemma params_match_loop_iff: "params_match_loop ps dps = (if list_all (param_ok ps) dps then 1 else 0)"
proof (induction dps)
  case (Cons dp dps)
  then show ?case using find_member_lookup [of ps dp, symmetric]
    by (cases "sglib_find_member VDEV_PARAM_CMP ps dp") (auto simp: param_ok_def)
qed simp

lemma params_match_cover:
  assumes "vdev_params_invar wanted"
  shows "params_match_loop given (vdev_params_items wanted) = (if params_cover wanted given then 1 else 0)"
proof -
  have "list_all (param_ok given) (vdev_params_items wanted) \<longleftrightarrow>
      (\<forall>k v. (k, v) \<in> set (vdev_params_items wanted) \<longrightarrow> param_ok given (k, v))"
    by (auto simp: list_all_iff)
  also have "\<dots> \<longleftrightarrow> params_cover wanted given"
  proof -
    have "param_ok given (k, v) \<longleftrightarrow> (\<exists>v'. vdev_params_lookup given k = Some v' \<and> (v = [] \<or> v' = v))" for k v
      by (cases "vdev_params_lookup given k") (auto simp: param_ok_def)
    then show ?thesis unfolding params.mem_items [OF assms] params_cover_def by blast
  qed
  finally show ?thesis by (simp only: params_match_loop_iff)
qed

definition type_ok :: "vdev_action \<Rightarrow> mode_t \<Rightarrow> bool" where
  "type_ok act mode \<longleftrightarrow> \<not> act_has_type act \<or>
     S_ISBLK mode \<and> strcasecmp_eq (the_type act) ''block'' \<or> S_ISCHR mode \<and> strcasecmp_eq (the_type act) ''char''"

lemma blk_not_chr: "S_ISBLK m \<Longrightarrow> \<not> S_ISCHR m"
  by (simp add: S_ISBLK_def S_ISCHR_def)

lemma params_cover_Leaf [simp]: "params_cover Leaf given"
  by (simp add: params_cover_def params.lookup_empty)

text \<open>
  C12: What it means that an action matches a request. The result is positive exactly when the event,
  the path pattern, the device type and all OS parameters of the action agree with the request;
  it is negative exactly when the event agrees but the regular expression cannot be evaluated;
  in every other case it is 0.
\<close>

theorem action_match_iff:
  assumes "vdev_params_invar (act_dev_params act)"
  shows "vdev_action_match lib vreq act =
    (let event = (act_trigger act = req_type vreq \<or> act_trigger act = VDEV_DEVICE_ANY);
         path = (case act_path act of None \<Rightarrow> 1 | Some p \<Rightarrow> vdev_match_regex lib (the_path vreq) p)
     in if \<not> event \<or> path = 0 then 0 else if path < 0 then path
        else if type_ok act (req_mode vreq) \<and> params_cover (act_dev_params act) (req_params vreq) then 1 else 0)"
proof -
  have "(if act_dev_params act \<noteq> Leaf then params_match_loop (req_params vreq) (vdev_params_items (act_dev_params act)) else 1) =
      (if params_cover (act_dev_params act) (req_params vreq) then 1 else (0::int))"
    using params_match_cover [OF assms] by simp
  then show ?thesis
    using blk_not_chr [of "req_mode vreq"]
    by (auto simp: vdev_action_match_def type_ok_def Let_def)
qed

section \<open>Actions that come from files\<close>

definition action_file_inv :: "regex_lib \<Rightarrow> vdev_action \<Rightarrow> bool" where
  "action_file_inv lib act \<longleftrightarrow>
     vdev_params_invar (act_dev_params act) \<and> vdev_params_invar (act_helper_vars act) \<and>
     (\<forall>p. act_path act = Some p \<longrightarrow> rx_valid lib p) \<and> (act_has_type act \<longrightarrow> act_type act \<noteq> None) \<and>
     act_if_exists act \<in> {0, VDEV_IF_EXISTS_ERROR, VDEV_IF_EXISTS_MASK, VDEV_IF_EXISTS_RUN} \<and>
     act_daemonlet_pid act = - 1 \<and> act_daemonlet_stdin act = - 1 \<and> act_daemonlet_stdout act = - 1"

lemma action_prefixed_inv:
  assumes "action_file_inv lib act"
  shows "action_file_inv lib (snd (action_parse_prefixed act name val))"
  using assms params_add_invar
  by (simp add: action_parse_prefixed_def vdev_action_add_param_def vdev_action_add_var_def action_file_inv_def
      case_prod_beta)

text \<open>The keys of an action file one by one.\<close>

lemma action_parser_inv:
  assumes "action_file_inv lib act" "fst (vdev_action_ini_parser lib act ''vdev-action'' name val) \<noteq> 0"
  shows "action_file_inv lib (snd (vdev_action_ini_parser lib act ''vdev-action'' name val))"
proof (cases "name = ''path''")
  case True
  with assms show ?thesis
    by (simp add: vdev_action_ini_parser_def vdev_match_regex_init_def action_file_inv_def split: if_splits)
next
  case p: False
  show ?thesis
  proof (cases "name = ''async''")
    case True
    with assms show ?thesis
      by (simp add: vdev_action_ini_parser_def action_parse_async_def action_file_inv_def)
  next
    case a: False
    show ?thesis
    proof (cases "name = ''if_exists''")
      case True
      with assms show ?thesis
        by (simp add: vdev_action_ini_parser_def action_parse_if_exists_def action_file_inv_def)
    next
      case False
      from p a False assms(1) action_prefixed_inv [OF assms(1), of name val] show ?thesis
        by (simp add: vdev_action_ini_parser_def action_file_inv_def Let_def)
    qed
  qed
qed

interpretation action_file: ini_acceptor "vdev_action_ini_parser lib" "action_file_inv lib" for lib
proof unfold_locales
  fix act sect name val
  assume a: "action_file_inv lib act" "fst (vdev_action_ini_parser lib act sect name val) \<noteq> 0"
  have "fst (vdev_action_ini_parser lib act sect name val) = 0" if "sect \<noteq> ''vdev-action''"
    using that by (simp add: vdev_action_ini_parser_def)
  with a(2) have "sect = ''vdev-action''" by blast
  with a action_parser_inv [of lib act name val] show
    "action_file_inv lib (snd (vdev_action_ini_parser lib act sect name val))" by blast
qed

definition action_wf :: "regex_lib \<Rightarrow> vdev_action \<Rightarrow> bool" where
  "action_wf lib act \<longleftrightarrow> action_file_inv lib act \<and> act_trigger act \<noteq> VDEV_DEVICE_INVALID \<and>
     (act_command act \<noteq> None \<or> act_rename_command act \<noteq> None) \<and>
     (act_helper act \<noteq> None \<longrightarrow> act_command act \<noteq> None \<and> \<not> act_use_shell act)"

lemma action_load_wf:
  assumes "vdev_action_load lib config path w = Some (0, act)" "sys_open_read path w = Inr file"
  shows "action_wf lib act \<and> act_name act = Some path"
proof -
  let ?a0 = "action_zero\<lparr>act_daemonlet_stdin := - 1, act_daemonlet_stdout := - 1, act_daemonlet_pid := - 1\<rparr>"
  have init: "vdev_action_init lib VDEV_DEVICE_INVALID None None None False = (0, ?a0)"
    by (simp add: vdev_action_init_def action_zero_def)
  from assms init obtain act1 where "vdev_action_load_file lib config ?a0 file = Some (0, act1)"
    and act: "act = act1\<lparr>act_name := Some path\<rparr>"
    by (auto simp: vdev_action_load_def split: option.splits prod.splits if_splits)
  then obtain act2 where p: "ini_parse_file (vdev_action_ini_parser lib) ?a0 file = (0, act2)"
    and s: "vdev_action_sanity_check act2 = 0" and q: "vdev_action_postprocess config act2 = Some act1"
    by (auto simp: vdev_action_load_file_def split: prod.splits if_splits)
  have "action_file_inv lib ?a0"
    using params.invar_empty by (simp add: action_file_inv_def action_zero_def)
  from action_file.parse_accept [OF this p] have "action_file_inv lib act2" .
  with s q act show ?thesis
    by (auto simp: action_wf_def action_file_inv_def vdev_action_postprocess_def vdev_action_sanity_check_def
        split: option.splits if_splits)
qed

definition is_regular :: "world \<Rightarrow> cstr \<Rightarrow> bool" where
  "is_regular w p \<longleftrightarrow> (case sys_stat p w of Inr (FReg _) \<Rightarrow> True | _ \<Rightarrow> False)"

lemma sys_stat_open:
  "sys_stat p w = Inr (FReg d) \<Longrightarrow> w_fault w SysOpen p = 0 \<Longrightarrow> sys_open_read p w = Inr d"
  by (auto simp: sys_stat_def sys_open_read_def sys_pre_def split: if_splits option.splits)

lemma sys_open_read_errno: "sys_open_read p w = Inl e \<Longrightarrow> e \<noteq> 0"
  by (auto simp: sys_open_read_def split: if_splits option.splits fnode.splits)

lemma sys_stat_errno: "sys_stat p w = Inl e \<Longrightarrow> e \<noteq> 0"
  by (auto simp: sys_stat_def split: if_splits option.splits)

lemma action_load_open: "vdev_action_load lib config p w = Some (0, act) \<Longrightarrow> \<exists>file. sys_open_read p w = Inr file"
  using sys_open_read_errno [of p w]
  by (auto simp: vdev_action_load_def vdev_action_init_def Let_def split: sum.splits)

lemma action_loader_Some:
  assumes "vdev_action_loader lib config w p (Some acts) = (0, Some acts')"
  shows "acts' = acts \<and> \<not> is_regular w p \<or>
    (\<exists>act. acts' = acts @ [act] \<and> is_regular w p \<and> action_wf lib act \<and> act_name act = Some p)"
proof (cases "sys_stat p w")
  case (Inl e)
  with assms sys_stat_errno [OF Inl] show ?thesis by (simp add: vdev_action_loader_def)
next
  case (Inr n)
  show ?thesis
  proof (cases n)
    case (FReg d)
    with assms Inr obtain act where l: "vdev_action_load lib config p w = Some (0, act)" and "acts' = acts @ [act]"
      by (auto simp: vdev_action_loader_def split: option.splits if_splits)
    with FReg Inr action_load_open [OF l] action_load_wf [OF l] show ?thesis by (auto simp: is_regular_def)
  qed (use assms Inr in \<open>simp_all add: vdev_action_loader_def is_regular_def\<close>)
qed

lemma action_load_loop:
  "load_all_loop (vdev_action_loader lib config w) d ns (Some acts) = (0, Some acts') \<Longrightarrow>
   \<exists>new. acts' = acts @ new \<and> list_all (action_wf lib) new \<and>
     map act_name new = map Some (filter (is_regular w) (map (vdev_fullpath d) ns))"
proof (induction ns arbitrary: acts)
  case (Cons n ns)
  obtain rc s where l: "vdev_action_loader lib config w (vdev_fullpath d n) (Some acts) = (rc, s)" by fastforce
  with Cons.prems have rc: "rc = 0" by (auto split: if_splits)
  with l Cons.prems have rest: "load_all_loop (vdev_action_loader lib config w) d ns s = (0, Some acts')" by simp
  show ?case
  proof (cases s)
    case None
    with l rc show ?thesis
      by (auto simp: vdev_action_loader_def split: sum.splits fnode.splits option.splits prod.splits if_splits)
  next
    case (Some acts1)
    with rest Cons.IH obtain new where "acts' = acts1 @ new" "list_all (action_wf lib) new"
      "map act_name new = map Some (filter (is_regular w) (map (vdev_fullpath d) ns))" by blast
    with action_loader_Some [of lib config w "vdev_fullpath d n" acts acts1] l rc Some show ?thesis by auto
  qed
qed simp

text \<open>
  C13: Loading the actions. When the directory of actions loads, there is exactly one action for
  each regular file in it, in the alphabetical order of the file names, named after its file;
  every action is triggered by some event, has something to run, a pattern that compiles and
  well-formed parameters, uses no shell for a helper, and has no daemonlet yet.
\<close>

theorem action_load_all_ok:
  assumes "conf_acts_dir config = Some d" "vdev_action_load_all lib config w = Some (Inr acts)"
  shows "\<exists>names. sys_scandir d w = Inr names \<and> sorted names \<and>
    map act_name acts = map Some (filter (is_regular w) (map (vdev_fullpath d) names)) \<and>
    list_all (action_wf lib) acts"
proof -
  from assms obtain names where n: "sys_scandir d w = Inr names"
    and l: "load_all_loop (vdev_action_loader lib config w) d names (Some []) = (0, Some acts)"
    by (auto simp: vdev_action_load_all_def vdev_load_all_def sys_scandir_def split: prod.splits option.splits sum.splits if_splits)
  from n have "sorted names" by (auto simp: sys_scandir_def sorted_insort split: if_splits)
  with n action_load_loop [OF l] show ?thesis by auto
qed

definition action_witness :: vdev_action where
  "action_witness = action_zero\<lparr>act_trigger := VDEV_DEVICE_ADD, act_path := Some ''sda'', act_command := Some ''true'',
     act_use_shell := True, act_has_type := True, act_type := Some ''block''\<rparr>"

theorem action_match_iff_witness:
  "vdev_params_invar (act_dev_params action_witness) \<and>
   vdev_action_match literal_regex_lib env_witness_request action_witness = 1"
proof
  show i: "vdev_params_invar (act_dev_params action_witness)"
    using params.invar_empty by (simp add: action_witness_def action_zero_def)
  have "the_path env_witness_request = ''sda''" "req_type env_witness_request = VDEV_DEVICE_ADD"
    "req_mode env_witness_request = S_IFBLK"
    by (simp_all add: the_path_def env_witness_request_def vdev_device_request_add_param_def
        vdev_device_request_init_def case_prod_beta)
  then show "vdev_action_match literal_regex_lib env_witness_request action_witness = 1"
    unfolding action_match_iff [OF i]
    by (simp add: action_witness_def action_zero_def vdev_match_regex_def literal_regex_lib_def type_ok_def
        S_ISBLK_def the_type_def strcasecmp_eq_def to_lower_def)
qed

definition action_witness_world :: world where
  "action_witness_world = calm_world\<lparr>w_fs := [([''a''], FDir), ([''a'', ''z''], FDir),
     ([''a'', ''y''], FReg (ini_print [(''vdev-action'', [(''event'', ''add''), (''command'', ''true'')])])),
     ([''a'', ''x''], FReg (ini_print [(''vdev-action'', [(''event'', ''any''), (''helper'', ''h'')])]))]\<rparr>"

definition action_witness_config :: vdev_config where
  "action_witness_config = vdev_config_init\<lparr>conf_acts_dir := Some ''/a'', conf_helpers_dir := Some ''/lib''\<rparr>"

definition action_witness_list :: "vdev_action list" where
  "action_witness_list =
     (let a = action_zero\<lparr>act_daemonlet_stdin := - 1, act_daemonlet_stdout := - 1, act_daemonlet_pid := - 1\<rparr>
      in [a\<lparr>act_name := Some ''/a/x'', act_trigger := VDEV_DEVICE_ANY, act_helper := Some ''h'', act_command := Some ''/lib/h''\<rparr>,
          a\<lparr>act_name := Some ''/a/y'', act_trigger := VDEV_DEVICE_ADD, act_command := Some ''true'', act_use_shell := True\<rparr>])"

theorem action_load_all_ok_witness:
  "vdev_action_load_all literal_regex_lib action_witness_config action_witness_world = Some (Inr action_witness_list) \<and>
   (\<exists>names. sys_scandir ''/a'' action_witness_world = Inr names \<and> sorted names \<and>
     map Some (filter (is_regular action_witness_world) (map (vdev_fullpath ''/a'') names)) = [Some ''/a/x'', Some ''/a/y''])"
proof
  show l: "vdev_action_load_all literal_regex_lib action_witness_config action_witness_world = Some (Inr action_witness_list)"
    by code_simp
  have d: "conf_acts_dir action_witness_config = Some ''/a''" by (simp add: action_witness_config_def)
  have "map act_name action_witness_list = [Some ''/a/x'', Some ''/a/y'']"
    by (simp add: action_witness_list_def Let_def)
  with action_load_all_ok [OF d l] show "\<exists>names. sys_scandir ''/a'' action_witness_world = Inr names \<and> sorted names \<and>
     map Some (filter (is_regular action_witness_world) (map (vdev_fullpath ''/a'') names)) = [Some ''/a/x'', Some ''/a/y'']"
    by metis
qed

end
