(* ===== verification/Vdevd_Daemonlet.thy ===== *)
theory Vdevd_Daemonlet
  imports Vdevd_Action
begin

text \<open>
  The daemonlet part of \<^verbatim>\<open>vdevd/action.c\<close>: helpers that stay running. vdevd starts one on first
  use, writes the environment of a request to its standard input, line by line and closed by
  \<open>done\<close>, and reads an exit status from its standard output.

  The daemonlet's behaviour is the field \<open>w_daemonlet\<close> of the world, a function of what has
  happened so far. Assumed of it: its output ends when it does, and once told to stop it ends.
  The flag \<open>dm_executable\<close> is the permission test on the runner program.
\<close>

section \<open>Stopping\<close>

definition vdev_action_daemonlet_clean :: "vdev_action \<Rightarrow> vdev_action" where
  "vdev_action_daemonlet_clean act =
     act\<lparr>act_daemonlet_pid := - 1,
         act_daemonlet_stdin := (if act_daemonlet_stdin act \<ge> 0 then - 1 else act_daemonlet_stdin act),
         act_daemonlet_stdout := (if act_daemonlet_stdout act \<ge> 0 then - 1 else act_daemonlet_stdout act)\<rparr>"

text \<open>The loop that joins with the child: any other error than \<open>ECHILD\<close> and \<open>EINTR\<close> is tried again.\<close>

fun daemonlet_join :: "wait_result list \<Rightarrow> vdev_action \<Rightarrow> rc \<times> vdev_action" where
  "daemonlet_join [] act = (0, act)"
| "daemonlet_join (r # rs) act =
     (case r of
        WaitError e \<Rightarrow> if e = ECHILD then (0, vdev_action_daemonlet_clean act) else daemonlet_join rs act
      | WaitIntr child status \<Rightarrow> if child > 0 then (status, act) else daemonlet_join rs act
      | WaitJoined status \<Rightarrow> (status, act))"

definition act_label :: "vdev_action \<Rightarrow> cstr" where
  "act_label act = (case act_name act of None \<Rightarrow> [] | Some n \<Rightarrow> n)"

definition vdev_action_daemonlet_stop :: "vdev_action \<Rightarrow> world \<Rightarrow> rc \<times> vdev_action \<times> world" where
  "vdev_action_daemonlet_stop act w =
     (if act_daemonlet_pid act \<le> 0 \<or> act_daemonlet_stdin act < 0 \<or> act_daemonlet_stdout act < 0 then (0, act, w)
      else
        (let io = w_daemonlet w (w_trace w); w1 = emit (EvDaemonletStop (act_label act)) w
         in if dm_nohang io = act_daemonlet_pid act \<or> dm_nohang io < 0
            then (0, vdev_action_daemonlet_clean act, w1)
            else
              (let act1 = act\<lparr>act_daemonlet_stdin := - 1\<rparr>;
                   act2 = (if dm_close io \<noteq> 0 then vdev_action_daemonlet_clean act1 else act1)
               in case daemonlet_join (dm_waits io @ [WaitJoined 0]) act2 of (rc, act3) \<Rightarrow>
                    (rc, vdev_action_daemonlet_clean act3, w1))))"

fun vdev_action_daemonlet_stop_all :: "vdev_action list \<Rightarrow> world \<Rightarrow> vdev_action list \<times> world" where
  "vdev_action_daemonlet_stop_all [] w = ([], w)"
| "vdev_action_daemonlet_stop_all (act # acts) w =
     (case (if \<not> act_is_daemonlet act then (act, w)
            else (case vdev_action_daemonlet_stop act w of (_, act', w') \<Rightarrow> (act', w'))) of (act', w') \<Rightarrow>
        (case vdev_action_daemonlet_stop_all acts w' of (acts', w'') \<Rightarrow> (act' # acts', w'')))"

section \<open>Starting\<close>

text \<open>The readiness hint: one byte; its absence is \<open>ECHILD\<close>.\<close>

definition daemonlet_wait_ready :: "io_event list \<Rightarrow> rc" where
  "daemonlet_wait_ready evs =
     (case vdev_read_uninterrupted (evs @ [IoData []]) 1 of
        Some (Inl rc, _) \<Rightarrow> rc
      | Some (Inr bs, _) \<Rightarrow> if bs = [] then - ECHILD else 0
      | None \<Rightarrow> - EINTR)"

definition vdev_action_daemonlet_start ::
  "vdev_config \<Rightarrow> vdev_action \<Rightarrow> world \<Rightarrow> (rc \<times> vdev_action \<times> world) option" where
  "vdev_action_daemonlet_start config act w =
     (if act_daemonlet_pid act > 0 then Some (0, act, w)
      else
        (case conf_helpers_dir config of
           None \<Rightarrow> None
         | Some helpers_dir \<Rightarrow>
             (let runner = snprintf PATH_MAX (helpers_dir @ ''/daemonlet'');
                  io = w_daemonlet w (w_trace w);
                  w1 = emit (EvDaemonletStart (act_label act)) w
              in case sys_stat runner w of
                   Inl _ \<Rightarrow> Some (- 1, act, w)
                 | Inr n \<Rightarrow>
                     if \<not> (case n of FReg _ \<Rightarrow> dm_executable io | _ \<Rightarrow> False) then Some (- EPERM, act, w)
                     else if dm_pipe_stdin io \<noteq> 0 then Some (- dm_pipe_stdin io, act, w)
                     else if dm_pipe_stdout io \<noteq> 0 then Some (- dm_pipe_stdout io, act, w)
                     else if dm_fork io \<noteq> 0 then Some (- dm_fork io, act, w)
                     else if \<not> act_async act \<and> daemonlet_wait_ready (dm_ready io) \<noteq> 0
                       then Some (daemonlet_wait_ready (dm_ready io), act, w1)
                     else Some (0, act\<lparr>act_is_daemonlet := True, act_daemonlet_pid := dm_pid io,
                                     act_daemonlet_stdin := dm_stdin io, act_daemonlet_stdout := dm_stdout io\<rparr>, w1))))"

section \<open>Reading a reply\<close>

fun script_size :: "io_event list \<Rightarrow> nat" where
  "script_size [] = 0"
| "script_size (IoError e # evs) = Suc (script_size evs)"
| "script_size (IoData d # evs) = Suc (length d + script_size evs)"

lemma read_one_smaller:
  "read_loop evs (Suc 0) [] = Some (Inr bs, rest) \<Longrightarrow> bs \<noteq> [] \<Longrightarrow> script_size rest < script_size evs"
proof (induction evs)
  case Nil
  then show ?case by simp
next
  case (Cons ev evs)
  show ?case
  proof (cases ev)
    case (IoError e)
    with Cons show ?thesis by (auto split: if_splits)
  next
    case (IoData d)
    with Cons.prems show ?thesis
      by (cases d; cases "tl d") (auto simp: Let_def read_loop_done)
  qed
qed

text \<open>
  \<open>vdev_action_daemonlet_read_int64\<close>: the value so far is a 64-bit integer; \<open>s\<close> is its sign. A
  character that is not a digit ends the number; its error code is dropped by the code.
\<close>

function daemonlet_read_loop ::
  "io_event list \<Rightarrow> nat \<Rightarrow> 64 word \<Rightarrow> 64 word \<Rightarrow> rc \<times> int" where
  "daemonlet_read_loop evs cnt value s =
     (case vdev_read_uninterrupted evs 1 of
        None \<Rightarrow> (- EAGAIN, 0)
      | Some (Inl rc, _) \<Rightarrow> (rc, 0)
      | Some (Inr [], _) \<Rightarrow> (- EAGAIN, 0)
      | Some (Inr (c # _), rest) \<Rightarrow>
          if c = NL then (0, sint (value * s))
          else if cnt = 0 \<and> c = CHR ''-''
            then daemonlet_read_loop rest (Suc cnt) (value * 10 + (of_nat (of_char c) - 48)) (- 1)
          else if (of_char c :: nat) < 48 \<or> (of_char c :: nat) > 57 then (0, sint (value * s))
          else daemonlet_read_loop rest (Suc cnt) (value * 10 + (of_nat (of_char c) - 48)) s)"
  by pat_completeness auto
termination
  by (relation "measure (\<lambda>(evs, c, v, s). script_size evs)")
    (auto simp: vdev_read_uninterrupted_def dest: read_one_smaller)

declare daemonlet_read_loop.simps [simp del]

definition vdev_action_daemonlet_read_int64 :: "io_event list \<Rightarrow> rc \<times> int" where
  "vdev_action_daemonlet_read_int64 evs = daemonlet_read_loop evs 0 0 1"

section \<open>Sending a request\<close>

text \<open>\<open>daemonlet_rc\<close> is a pointer: it keeps its value when no reply is read.\<close>

text \<open>Write the lines in turn; \<open>i\<close> counts the writes. The lines written and the last result.\<close>

definition daemonlet_write :: "daemonlet_io \<Rightarrow> nat \<Rightarrow> cstr \<Rightarrow> rc" where
  "daemonlet_write io i line =
     (case vdev_write_uninterrupted ((if dm_write io i \<noteq> 0 then [AcceptError (dm_write io i)] else []) @ [Accept (length line)]) line of
        Some (rc, _) \<Rightarrow> rc | None \<Rightarrow> - EINTR)"

fun daemonlet_feed :: "daemonlet_io \<Rightarrow> nat \<Rightarrow> cstr list \<Rightarrow> rc \<times> cstr list" where
  "daemonlet_feed io i [] = (0, [])"
| "daemonlet_feed io i (e # es) =
     (let line = snprintf PATH_MAX (e @ [NL]); rc = daemonlet_write io i line
      in if rc < 0 then (rc, [])
         else if es = [] then (rc, [line])
         else (case daemonlet_feed io (Suc i) es of (rc', ls) \<Rightarrow> (rc', line # ls)))"

definition vdev_action_daemonlet_send_command ::
  "'z vdev_base_state_scheme \<Rightarrow> vdev_device_request \<Rightarrow> vdev_action \<Rightarrow> int \<Rightarrow> world \<Rightarrow> (rc \<times> int \<times> world) option" where
  "vdev_action_daemonlet_send_command st vreq act daemonlet_rc w =
     (case vdev_device_request_to_env st vreq (act_helper_vars act) True of
        None \<Rightarrow> None
      | Some env \<Rightarrow>
          (let io = w_daemonlet w (w_trace w);
               (rc1, lines1) = daemonlet_feed io 0 env;
               done = ''done'' @ [NL];
               rc2 = (if rc1 > 0 then daemonlet_write io (length env) done else rc1);
               lines2 = (if rc1 > 0 \<and> rc2 \<ge> 0 then lines1 @ [done] else lines1);
               w1 = emit (EvDaemonletSend (act_label act) lines2) w
           in if rc2 < 0 then Some (if rc2 = - EPIPE then - EAGAIN else - EPERM, daemonlet_rc, w1)
              else if act_async act then Some (0, 0, w1)
              else
                (case vdev_action_daemonlet_read_int64 (dm_reply io @ [IoData []]) of (rc3, v) \<Rightarrow>
                   if rc3 < 0 then Some (if rc3 = - EPIPE then - EAGAIN else - EPERM, daemonlet_rc, w1)
                   else if v < 0 \<or> v > 255 then Some (- EAGAIN, v, w1)
                   else Some (0, v, w1))))"

section \<open>Running a request\<close>

text \<open>
  The loop of \<open>vdev_action_run_daemonlet\<close>, with the attempts that are left. \<open>daemonlet_rc\<close> is
  the last value a reply had; a send that reads no reply leaves it.
\<close>

fun run_daemonlet_loop ::
  "nat \<Rightarrow> 'z vdev_base_state_scheme \<Rightarrow> vdev_device_request \<Rightarrow> vdev_action \<Rightarrow> rc \<Rightarrow> int \<Rightarrow> world \<Rightarrow>
   (rc \<times> vdev_action \<times> world) option" where
  "run_daemonlet_loop 0 st vreq act rc daemonlet_rc w = Some (if rc = 0 then daemonlet_rc else rc, act, w)"
| "run_daemonlet_loop (Suc n) st vreq act rc daemonlet_rc w =
     (case vdev_action_daemonlet_send_command st vreq act daemonlet_rc w of
        None \<Rightarrow> None
      | Some (rc1, v, w1) \<Rightarrow>
          if rc1 = 0 then Some (v, act, w1)
          else if rc1 \<noteq> - EAGAIN then Some (- EPERM, act, w1)
          else
            (case vdev_action_daemonlet_stop act w1 of (rc2, act2, w2) \<Rightarrow>
               if rc2 < 0 then Some (- EPERM, act2, w2)
               else
                 (case vdev_action_daemonlet_start (st_config st) act2 w2 of
                    None \<Rightarrow> None
                  | Some (rc3, act3, w3) \<Rightarrow>
                      if rc3 < 0 then Some (- EPERM, act3, w3)
                      else run_daemonlet_loop n st vreq act3 rc3 v w3)))"

definition vdev_action_run_daemonlet ::
  "'z vdev_base_state_scheme \<Rightarrow> vdev_device_request \<Rightarrow> vdev_action \<Rightarrow> world \<Rightarrow> (rc \<times> vdev_action \<times> world) option" where
  "vdev_action_run_daemonlet st vreq act w =
     (if \<not> act_is_daemonlet act then Some (- EINVAL, act, w)
      else if act_daemonlet_pid act \<le> 0 then
        (case vdev_action_daemonlet_start (st_config st) act w of
           None \<Rightarrow> None
         | Some (rc, act1, w1) \<Rightarrow>
             if rc < 0 then Some (- EPERM, act1, w1) else run_daemonlet_loop 2 st vreq act1 rc 0 w1)
      else run_daemonlet_loop 2 st vreq act 0 0 w)"

section \<open>The reply is read as it was written\<close>

text \<open>Scripts that deliver data in any pieces, with interruptions, and the bytes they deliver.\<close>

fun script_bytes :: "io_event list \<Rightarrow> char list" where
  "script_bytes [] = []"
| "script_bytes (IoError e # evs) = script_bytes evs"
| "script_bytes (IoData d # evs) = d @ script_bytes evs"

definition script_smooth :: "io_event list \<Rightarrow> bool" where
  "script_smooth evs \<longleftrightarrow> list_all (\<lambda>e. e = IoError EINTR \<or> (\<exists>d. e = IoData d \<and> d \<noteq> [])) evs"

lemma read_one:
  "script_smooth evs \<Longrightarrow> script_bytes evs = c # cs \<Longrightarrow>
   \<exists>rest. vdev_read_uninterrupted (evs @ t) 1 = Some (Inr [c], rest @ t) \<and> script_smooth rest \<and> script_bytes rest = cs"
proof (induction evs)
  case (Cons ev evs)
  show ?case
  proof (cases ev)
    case (IoError e)
    with Cons show ?thesis by (auto simp: vdev_read_uninterrupted_def script_smooth_def)
  next
    case (IoData d)
    with Cons.prems obtain ds where d: "d = c # ds" "ds @ script_bytes evs = cs"
      by (cases d) (auto simp: script_smooth_def)
    show ?thesis
    proof (cases ds)
      case Nil
      with d IoData Cons.prems show ?thesis
        by (intro exI [of _ evs]) (auto simp: vdev_read_uninterrupted_def script_smooth_def Let_def read_loop_done)
    next
      case (Cons x xs)
      with d IoData Cons.prems show ?thesis
        by (intro exI [of _ "IoData ds # evs"]) (auto simp: vdev_read_uninterrupted_def script_smooth_def Let_def)
    qed
  qed
qed simp

lemma read_loop_digits:
  assumes "script_smooth evs" "script_bytes evs = ds @ NL # after" "\<forall>c \<in> set ds. is_digit_in 10 c" and "0 < cnt \<or> ds \<noteq> []"
  shows "daemonlet_read_loop (evs @ t) cnt v0 s =
    (0, sint (foldl (\<lambda>v c. v * 10 + of_nat (digit_of c)) v0 ds * s))"
  using assms
proof (induction ds arbitrary: evs cnt v0)
  case Nil
  then obtain rest where "vdev_read_uninterrupted (evs @ t) 1 = Some (Inr [NL], rest @ t)"
    using read_one [of evs NL after t] by auto
  then show ?case by (subst daemonlet_read_loop.simps) simp
next
  case (Cons d ds)
  then obtain rest where r: "vdev_read_uninterrupted (evs @ t) 1 = Some (Inr [d], rest @ t)"
    "script_smooth rest" "script_bytes rest = ds @ NL # after"
    using read_one [of evs d "ds @ NL # after" t] by auto
  from Cons.prems(3) have dig: "is_digit_in 10 d" by simp
  then have d: "48 \<le> (of_char d :: nat)" "(of_char d :: nat) \<le> 57" "d \<noteq> NL" "d \<noteq> CHR ''-''"
    by (auto simp: is_digit_in_def)
  have v: "(of_nat (of_char d) - 48 :: 64 word) = of_nat (digit_of d)"
    using d(1) by (simp add: digit_of_def of_nat_diff)
  have "daemonlet_read_loop (evs @ t) cnt v0 s =
      daemonlet_read_loop (rest @ t) (Suc cnt) (v0 * 10 + of_nat (digit_of d)) s"
    using r(1) d v by (subst daemonlet_read_loop.simps) simp
  also have "\<dots> = (0, sint (foldl (\<lambda>v c. v * 10 + of_nat (digit_of c)) (v0 * 10 + of_nat (digit_of d)) ds * s))"
    using Cons.IH [OF r(2,3)] Cons.prems(3) by simp
  finally show ?case by simp
qed

lemma foldl_digits_word:
  "foldl (\<lambda>v c. v * 10 + of_nat (digit_of c)) (of_nat n) ds =
   (of_nat (foldl (\<lambda>n c. 10 * n + digit_of c) n ds) :: 64 word)"
proof (induction ds arbitrary: n)
  case (Cons c cs)
  have "(of_nat n * 10 + of_nat (digit_of c) :: 64 word) = of_nat (10 * n + digit_of c)" by simp
  with Cons show ?case by (simp only: foldl_Cons)
qed simp

lemma daemonlet_read_show:
  assumes "script_smooth evs" "script_bytes evs = show_nat n @ NL # after" "n < 2 ^ 63"
  shows "vdev_action_daemonlet_read_int64 (evs @ t) = (0, int n)"
proof -
  have "foldl (\<lambda>v c. v * 10 + of_nat (digit_of c)) 0 (show_nat n) = (of_nat n :: 64 word)"
    using foldl_digits_word [of 0 "show_nat n"] digits_value_show_nat [of n] by (simp add: digits_value_def)
  moreover have "sint (of_nat n :: 64 word) = int n"
    using assms(3) by (simp add: signed_of_nat signed_take_bit_int_eq_self)
  ultimately show ?thesis
    using read_loop_digits [OF assms(1,2) show_nat_digits, of 0 t 0 1] show_nat_nonempty [of n]
    by (simp add: vdev_action_daemonlet_read_int64_def)
qed

text \<open>
  C16: A daemonlet's exit status is read as it was written: for every status below \<open>2 ^ 63\<close>, printed
  in decimal and followed by a newline, the number read is that status, whatever pieces the
  pipe delivers it in, however often the read is interrupted, and whatever follows it.
\<close>

theorem daemonlet_reply_roundtrip:
  assumes "script_smooth evs" "script_bytes evs = show_nat n @ NL # after" "n < 2 ^ 63"
  shows "vdev_action_daemonlet_read_int64 (evs @ t) = (0, int n)"
  using assms by (rule daemonlet_read_show)

theorem daemonlet_reply_roundtrip_witness:
  "vdev_action_daemonlet_read_int64 [IoError EINTR, IoData ''4'', IoData (''2'' @ [NL]), IoData []] = (0, 42)"
proof -
  have "script_smooth [IoError EINTR, IoData ''4'', IoData (''2'' @ [NL])]" by (simp add: script_smooth_def)
  moreover have "show_nat 42 = ''42''" by code_simp
  then have "script_bytes [IoError EINTR, IoData ''4'', IoData (''2'' @ [NL])] = show_nat 42 @ NL # []" by simp
  ultimately show ?thesis
    using daemonlet_reply_roundtrip [of "[IoError EINTR, IoData ''4'', IoData (''2'' @ [NL])]" 42 "[]" "[IoData []]"] by simp
qed

text \<open>Finding: a negative reply is not read as one.\<close>

lemma daemonlet_reply_negative:
  "vdev_action_daemonlet_read_int64 [IoData (''-1'' @ [NL])] = (0, 29)"
  by (simp add: vdev_action_daemonlet_read_int64_def daemonlet_read_loop.simps vdev_read_uninterrupted_def Let_def)

section \<open>The protocol\<close>

lemma daemonlet_write_ok:
  assumes "dm_write io i = 0" "length line < 2 ^ 32"
  shows "daemonlet_write io i line = int (length line)"
  using assms by (cases line) (simp_all add: daemonlet_write_def vdev_write_uninterrupted_def Let_def)

lemma snprintf_length: "length (snprintf PATH_MAX s) < 2 ^ 32"
  by (simp add: snprintf_def)

lemma snprintf_nonempty: "s \<noteq> [] \<Longrightarrow> snprintf PATH_MAX s \<noteq> []"
  by (simp add: snprintf_def)

lemma daemonlet_feed_ok:
  assumes "\<And>i. dm_write io i = 0" "es \<noteq> []"
  shows "\<exists>rc > 0. daemonlet_feed io i es = (rc, map (\<lambda>e. snprintf PATH_MAX (e @ [NL])) es)"
  using assms(2)
proof (induction es arbitrary: i)
  case (Cons e es)
  have w: "daemonlet_write io i (snprintf PATH_MAX (e @ [NL])) = int (length (snprintf PATH_MAX (e @ [NL])))"
    by (rule daemonlet_write_ok [OF assms(1) snprintf_length])
  moreover have "0 < length (snprintf PATH_MAX (e @ [NL]))" using snprintf_nonempty by blast
  ultimately show ?case
    using Cons.IH [of "Suc i"] by (cases "es = []") (auto simp: Let_def)
qed simp

lemma env_nonempty: "vdev_device_request_to_env st vreq hv d = Some env \<Longrightarrow> env \<noteq> []"
  by (auto simp: vdev_device_request_to_env_def env_where_def split: option.splits)

definition daemonlet_lines :: "cstr list \<Rightarrow> cstr list" where
  "daemonlet_lines env = map (\<lambda>e. snprintf PATH_MAX (e @ [NL])) env @ [''done'' @ [NL]]"

lemma daemonlet_send:
  assumes "vdev_device_request_to_env st vreq (act_helper_vars act) True = Some env"
    and "\<And>i. dm_write (w_daemonlet w (w_trace w)) i = 0"
    and "\<not> act_async act" "vdev_action_daemonlet_read_int64 (dm_reply (w_daemonlet w (w_trace w)) @ [IoData []]) = (0, v)"
  shows "vdev_action_daemonlet_send_command st vreq act old w =
    Some (if v < 0 \<or> v > 255 then - EAGAIN else 0, v, emit (EvDaemonletSend (act_label act) (daemonlet_lines env)) w)"
proof -
  let ?io = "w_daemonlet w (w_trace w)"
  obtain rc where "rc > 0" "daemonlet_feed ?io 0 env = (rc, map (\<lambda>e. snprintf PATH_MAX (e @ [NL])) env)"
    using daemonlet_feed_ok [of ?io env 0] assms(2) env_nonempty [OF assms(1)] by blast
  moreover have "daemonlet_write ?io (length env) (''done'' @ [NL]) = 5"
    using daemonlet_write_ok [of ?io "length env" "''done'' @ [NL]"] assms(2) by simp
  ultimately show ?thesis
    using assms(1,3,4) by (simp add: vdev_action_daemonlet_send_command_def Let_def daemonlet_lines_def)
qed

text \<open>
  C15: The daemonlet protocol. To a running synchronous daemonlet whose pipes work, vdevd writes
  each variable of the request's environment on a line of its own, in order, then the line
  \<open>done\<close>, and nothing else; the exit status between 0 and 255 that comes back, in whatever
  pieces, is the result of the action, after one attempt and without a restart.
\<close>

theorem run_daemonlet_protocol:
  assumes "act_is_daemonlet act" "act_daemonlet_pid act > 0" "\<not> act_async act"
    and "vdev_device_request_to_env st vreq (act_helper_vars act) True = Some env"
    and "\<And>i. dm_write (w_daemonlet w (w_trace w)) i = 0"
    and "script_smooth (dm_reply (w_daemonlet w (w_trace w)))" "n \<le> 255"
    and "script_bytes (dm_reply (w_daemonlet w (w_trace w))) = show_nat n @ NL # after"
  shows "vdev_action_run_daemonlet st vreq act w =
    Some (int n, act, emit (EvDaemonletSend (act_label act) (daemonlet_lines env)) w)"
proof -
  have "vdev_action_daemonlet_read_int64 (dm_reply (w_daemonlet w (w_trace w)) @ [IoData []]) = (0, int n)"
    using assms(6-8) daemonlet_read_show by simp
  from daemonlet_send [OF assms(4,5,3) this, of 0] assms(1,2,7) show ?thesis
    by (simp add: vdev_action_run_daemonlet_def numeral_2_eq_2)
qed

section \<open>A daemonlet is either running with both pipes open, or not at all\<close>

definition daemonlet_ok :: "vdev_action \<Rightarrow> bool" where
  "daemonlet_ok act \<longleftrightarrow>
     act_daemonlet_pid act > 0 \<and> act_daemonlet_stdin act \<ge> 0 \<and> act_daemonlet_stdout act \<ge> 0 \<or>
     act_daemonlet_pid act \<le> 0 \<and> act_daemonlet_stdin act < 0 \<and> act_daemonlet_stdout act < 0"

text \<open>What the kernel guarantees of a process and of pipes that it makes.\<close>

definition kernel_ids_ok :: "world \<Rightarrow> bool" where
  "kernel_ids_ok w \<longleftrightarrow> (\<forall>t. dm_pid (w_daemonlet w t) > 0 \<and> dm_stdin (w_daemonlet w t) \<ge> 0 \<and> dm_stdout (w_daemonlet w t) \<ge> 0)"

lemma daemonlet_clean_ok: "daemonlet_ok (vdev_action_daemonlet_clean act)"
  by (simp add: daemonlet_ok_def vdev_action_daemonlet_clean_def)

lemma daemonlet_stop_ok: "daemonlet_ok act \<Longrightarrow> vdev_action_daemonlet_stop act w = (rc, act', w') \<Longrightarrow> daemonlet_ok act'"
  using daemonlet_clean_ok
  by (auto simp: vdev_action_daemonlet_stop_def Let_def split: if_splits prod.splits)

lemma daemonlet_stop_world: "vdev_action_daemonlet_stop act w = (rc, act', w') \<Longrightarrow> w_daemonlet w' = w_daemonlet w"
  by (auto simp: vdev_action_daemonlet_stop_def Let_def split: if_splits prod.splits)

lemma daemonlet_start_ok:
  "kernel_ids_ok w \<Longrightarrow> daemonlet_ok act \<Longrightarrow> vdev_action_daemonlet_start c act w = Some (rc, act', w') \<Longrightarrow>
   daemonlet_ok act' \<and> w_daemonlet w' = w_daemonlet w"
  by (auto simp: vdev_action_daemonlet_start_def kernel_ids_ok_def daemonlet_ok_def Let_def
      split: if_splits option.splits sum.splits)

lemma daemonlet_send_world:
  "vdev_action_daemonlet_send_command st vreq act v w = Some (rc, v', w') \<Longrightarrow> w_daemonlet w' = w_daemonlet w"
  by (auto simp: vdev_action_daemonlet_send_command_def Let_def split: option.splits if_splits prod.splits)

lemma kernel_ids_cong: "w_daemonlet w' = w_daemonlet w \<Longrightarrow> kernel_ids_ok w' = kernel_ids_ok w"
  by (simp add: kernel_ids_ok_def)

lemma run_daemonlet_loop_ok:
  "kernel_ids_ok w \<Longrightarrow> daemonlet_ok act \<Longrightarrow> run_daemonlet_loop n st vreq act rc v w = Some (rc', act', w') \<Longrightarrow>
   daemonlet_ok act' \<and> w_daemonlet w' = w_daemonlet w"
proof (induction n arbitrary: act rc v w)
  case (Suc n)
  from Suc.prems(3) obtain rc1 v1 w1 where s: "vdev_action_daemonlet_send_command st vreq act v w = Some (rc1, v1, w1)"
    by (auto split: option.splits)
  obtain rc2 act2 w2 where p: "vdev_action_daemonlet_stop act w1 = (rc2, act2, w2)" by (metis prod_cases3)
  note worlds = daemonlet_send_world [OF s] daemonlet_stop_world [OF p]
  note ok2 = daemonlet_stop_ok [OF Suc.prems(2) p]
  show ?case
  proof (cases "rc1 = - EAGAIN \<and> \<not> rc2 < 0")
    case False
    with Suc.prems s p worlds ok2 show ?thesis by (auto split: if_splits)
  next
    case True
    with Suc.prems(3) s p obtain rc3 act3 w3 where t: "vdev_action_daemonlet_start (st_config st) act2 w2 = Some (rc3, act3, w3)"
      by (auto split: option.splits)
    have "kernel_ids_ok w2" using Suc.prems(1) worlds kernel_ids_cong by metis
    from daemonlet_start_ok [OF this ok2 t] have ok3: "daemonlet_ok act3" "w_daemonlet w3 = w_daemonlet w2" by auto
    show ?thesis
    proof (cases "rc3 < 0")
      case True
      with Suc.prems s p t ok3 worlds \<open>rc1 = - EAGAIN \<and> \<not> rc2 < 0\<close> show ?thesis by auto
    next
      case False
      with Suc.prems s p t True have "run_daemonlet_loop n st vreq act3 rc3 v1 w3 = Some (rc', act', w')" by auto
      moreover have "kernel_ids_ok w3" using \<open>kernel_ids_ok w2\<close> ok3 kernel_ids_cong by metis
      ultimately show ?thesis using Suc.IH [OF _ ok3(1)] ok3 worlds by auto
    qed
  qed
qed auto

text \<open>
  C14: No half-open daemonlet. If an action's daemonlet is either running with both of its pipes
  open or not running with neither, then this is so again after a request has been run through
  it, on every path: first start, success, dead daemonlet, restart, failed restart.
\<close>

theorem run_daemonlet_ok:
  assumes "kernel_ids_ok w" "daemonlet_ok act" "vdev_action_run_daemonlet st vreq act w = Some (rc, act', w')"
  shows "daemonlet_ok act'"
proof (cases "act_is_daemonlet act \<and> act_daemonlet_pid act \<le> 0")
  case True
  with assms(3) obtain rc1 act1 w1 where s: "vdev_action_daemonlet_start (st_config st) act w = Some (rc1, act1, w1)"
    by (auto simp: vdev_action_run_daemonlet_def split: option.splits if_splits)
  from daemonlet_start_ok [OF assms(1,2) s] have "daemonlet_ok act1" "w_daemonlet w1 = w_daemonlet w" by auto
  moreover from this(2) have "kernel_ids_ok w1" using assms(1) kernel_ids_cong by metis
  ultimately show ?thesis
    using assms(3) s True run_daemonlet_loop_ok [of w1 act1 2 st vreq rc1 0 rc act' w']
    by (auto simp: vdev_action_run_daemonlet_def split: if_splits)
next
  case False
  with assms run_daemonlet_loop_ok [of w act 2 st vreq 0 0 rc act' w'] show ?thesis
    by (auto simp: vdev_action_run_daemonlet_def split: if_splits)
qed

section \<open>Examples\<close>

definition daemonlet_witness_action :: vdev_action where
  "daemonlet_witness_action = action_witness\<lparr>act_is_daemonlet := True, act_name := Some ''d'',
     act_daemonlet_pid := 100, act_daemonlet_stdin := 4, act_daemonlet_stdout := 5\<rparr>"

definition daemonlet_witness_world :: "char list \<Rightarrow> world" where
  "daemonlet_witness_world reply = calm_world\<lparr>w_fs := [([''lib''], FDir), ([''lib'', ''vdev''], FDir),
     ([''lib'', ''vdev'', ''daemonlet''], FReg [])],
     w_daemonlet := (\<lambda>_. calm_daemonlet\<lparr>dm_reply := [IoData (reply @ [NL])]\<rparr>)\<rparr>"

lemma show_seven: "show_nat 7 = ''7''"
  by code_simp

lemma witness_env: "\<exists>env. vdev_device_request_to_env env_witness_state env_witness_request (act_helper_vars a) True = Some env"
  by (simp add: vdev_device_request_to_env_def env_witness_state_def)

theorem run_daemonlet_protocol_witness:
  "\<exists>env. vdev_device_request_to_env env_witness_state env_witness_request Leaf True = Some env \<and>
     vdev_action_run_daemonlet env_witness_state env_witness_request daemonlet_witness_action (daemonlet_witness_world ''7'') =
       Some (7, daemonlet_witness_action, emit (EvDaemonletSend ''d'' (daemonlet_lines env)) (daemonlet_witness_world ''7''))"
proof -
  have hv: "act_helper_vars daemonlet_witness_action = Leaf"
    by (simp add: daemonlet_witness_action_def action_witness_def action_zero_def)
  obtain env where e: "vdev_device_request_to_env env_witness_state env_witness_request (act_helper_vars daemonlet_witness_action) True = Some env"
    using witness_env by blast
  have "vdev_action_run_daemonlet env_witness_state env_witness_request daemonlet_witness_action (daemonlet_witness_world ''7'') =
      Some (int 7, daemonlet_witness_action, emit (EvDaemonletSend (act_label daemonlet_witness_action) (daemonlet_lines env)) (daemonlet_witness_world ''7''))"
    by (rule run_daemonlet_protocol [OF _ _ _ e, where after = "[]"])
      (simp_all add: daemonlet_witness_action_def daemonlet_witness_world_def calm_world_def calm_daemonlet_def
        action_witness_def action_zero_def script_smooth_def show_seven)
  moreover have "act_label daemonlet_witness_action = ''d''" by (simp add: daemonlet_witness_action_def act_label_def)
  ultimately show ?thesis using e hv by auto
qed

theorem run_daemonlet_ok_witness:
  "kernel_ids_ok (daemonlet_witness_world ''7'') \<and> daemonlet_ok daemonlet_witness_action \<and>
   (\<exists>rc act' w'. vdev_action_run_daemonlet env_witness_state env_witness_request daemonlet_witness_action
      (daemonlet_witness_world ''7'') = Some (rc, act', w') \<and> daemonlet_ok act')"
proof -
  let ?w = "daemonlet_witness_world ''7''"
  have k: "kernel_ids_ok ?w"
    by (simp add: kernel_ids_ok_def daemonlet_witness_world_def calm_daemonlet_def)
  have d: "daemonlet_ok daemonlet_witness_action" by (simp add: daemonlet_ok_def daemonlet_witness_action_def)
  obtain env where e: "vdev_device_request_to_env env_witness_state env_witness_request (act_helper_vars daemonlet_witness_action) True = Some env"
    using witness_env by blast
  have "vdev_action_daemonlet_read_int64 ([IoData (''7'' @ [NL])] @ [IoData []]) = (0, 7)"
    using daemonlet_read_show [of "[IoData (''7'' @ [NL])]" 7 "[]" "[IoData []]"] by (simp add: script_smooth_def show_seven)
  then have "vdev_action_daemonlet_send_command env_witness_state env_witness_request daemonlet_witness_action 0 ?w =
      Some (0, 7, emit (EvDaemonletSend (act_label daemonlet_witness_action) (daemonlet_lines env)) ?w)"
    using daemonlet_send [OF e, of ?w 7 0]
    by (simp add: daemonlet_witness_action_def daemonlet_witness_world_def calm_world_def calm_daemonlet_def action_witness_def action_zero_def)
  then obtain rc act' w' where r: "vdev_action_run_daemonlet env_witness_state env_witness_request daemonlet_witness_action ?w = Some (rc, act', w')"
    by (simp add: vdev_action_run_daemonlet_def daemonlet_witness_action_def numeral_2_eq_2)
  from run_daemonlet_ok [OF k d r] k d r show ?thesis by blast
qed

text \<open>
  Finding: when the reply is out of range twice and the restarts succeed, the stale reply is
  returned as if the daemonlet had processed the request.
\<close>

lemma read_300: "vdev_action_daemonlet_read_int64 [IoData (''300'' @ [NL]), IoData []] = (0, 300)"
  by (simp add: vdev_action_daemonlet_read_int64_def daemonlet_read_loop.simps vdev_read_uninterrupted_def Let_def)

definition daemonlet_bad_world :: "world \<Rightarrow> bool" where
  "daemonlet_bad_world w \<longleftrightarrow> w_fs w = w_fs (daemonlet_witness_world ''300'') \<and>
     w_fault w = w_fault (daemonlet_witness_world ''300'') \<and> w_daemonlet w = w_daemonlet (daemonlet_witness_world ''300'')"

lemma bad_world_runner:
  "daemonlet_bad_world w \<Longrightarrow> sys_stat (snprintf PATH_MAX ''/lib/vdev/daemonlet'') w = Inr (FReg [])"
proof -
  assume w: "daemonlet_bad_world w"
  have r: "resolve ''/lib/vdev/daemonlet'' = [''lib'', ''vdev'', ''daemonlet'']" by code_simp
  from w show ?thesis
    by (simp add: daemonlet_bad_world_def daemonlet_witness_world_def calm_world_def sys_stat_def sys_pre_def snprintf_def
        r lookup_errno_def parent_errno_def fs_get_def upt_rec)
qed

lemma bad_world_step:
  assumes "daemonlet_bad_world w"
  shows "\<exists>w'. daemonlet_bad_world w' \<and>
    run_daemonlet_loop (Suc n) env_witness_state env_witness_request daemonlet_witness_action rc v w =
    run_daemonlet_loop n env_witness_state env_witness_request daemonlet_witness_action 0 300 w'"
proof -
  let ?a = daemonlet_witness_action
  obtain env where e: "vdev_device_request_to_env env_witness_state env_witness_request (act_helper_vars ?a) True = Some env"
    using witness_env by blast
  have io: "w_daemonlet w t = calm_daemonlet\<lparr>dm_reply := [IoData (''300'' @ [NL])]\<rparr>" for t
    using assms by (simp add: daemonlet_bad_world_def daemonlet_witness_world_def)
  define w1 where "w1 = emit (EvDaemonletSend (act_label ?a) (daemonlet_lines env)) w"
  define w2 where "w2 = emit (EvDaemonletStop (act_label ?a)) w1"
  define w3 where "w3 = emit (EvDaemonletStart (act_label ?a)) w2"
  have bad: "daemonlet_bad_world w2" "daemonlet_bad_world w3"
    using assms by (simp_all add: daemonlet_bad_world_def w1_def w2_def w3_def)
  have fields: "act_daemonlet_pid ?a = 100" "act_daemonlet_stdin ?a = 4" "act_daemonlet_stdout ?a = 5"
      "\<not> act_async ?a" "act_is_daemonlet ?a" "act_label ?a = ''d''"
    by (simp_all add: daemonlet_witness_action_def action_witness_def action_zero_def act_label_def)
  have send: "vdev_action_daemonlet_send_command env_witness_state env_witness_request ?a v w = Some (- EAGAIN, 300, w1)"
    using daemonlet_send [OF e, of w 300 v] fields read_300 by (simp add: io calm_daemonlet_def w1_def)
  define a2 where "a2 = ?a\<lparr>act_daemonlet_pid := - 1, act_daemonlet_stdin := - 1, act_daemonlet_stdout := - 1\<rparr>"
  have stop: "vdev_action_daemonlet_stop ?a w1 = (0, a2, w2)"
    using fields by (simp add: vdev_action_daemonlet_stop_def vdev_action_daemonlet_clean_def w1_def w2_def a2_def io calm_daemonlet_def)
  have ready: "daemonlet_wait_ready [IoData ''x''] = 0"
    by (simp add: daemonlet_wait_ready_def vdev_read_uninterrupted_def Let_def)
  have "vdev_action_daemonlet_start (st_config env_witness_state) a2 w2 =
      Some (0, a2\<lparr>act_is_daemonlet := True, act_daemonlet_pid := 100, act_daemonlet_stdin := 4, act_daemonlet_stdout := 5\<rparr>, w3)"
    using bad_world_runner [OF bad(1)] ready fields
    by (simp add: vdev_action_daemonlet_start_def env_witness_state_def w1_def w2_def w3_def a2_def io calm_daemonlet_def act_label_def)
  also have "a2\<lparr>act_is_daemonlet := True, act_daemonlet_pid := 100, act_daemonlet_stdin := 4, act_daemonlet_stdout := 5\<rparr> = ?a"
    by (simp add: a2_def daemonlet_witness_action_def)
  finally show ?thesis using send stop bad(2) by auto
qed

lemma run_daemonlet_stale_reply:
  "map_option fst (vdev_action_run_daemonlet env_witness_state env_witness_request daemonlet_witness_action
     (daemonlet_witness_world ''300'')) = Some 300"
proof -
  let ?loop = "\<lambda>n rc v w. run_daemonlet_loop n env_witness_state env_witness_request daemonlet_witness_action rc v w"
  have "daemonlet_bad_world (daemonlet_witness_world ''300'')" by (simp add: daemonlet_bad_world_def)
  from bad_world_step [OF this, of 1 0 0] obtain w where w: "daemonlet_bad_world w"
    "?loop 2 0 0 (daemonlet_witness_world ''300'') = ?loop 1 0 300 w" by (auto simp: numeral_2_eq_2)
  from bad_world_step [OF w(1), of 0 0 300] obtain w' where "?loop 1 0 300 w = ?loop 0 0 300 w'" by auto
  with w show ?thesis by (simp add: vdev_action_run_daemonlet_def daemonlet_witness_action_def)
qed

end
