(* ===== verification/Vdevd_Run.thy ===== *)
theory Vdevd_Run
  imports Vdevd_Daemonlet
begin

text \<open>
  The last part of \<^verbatim>\<open>vdevd/action.c\<close>: running the actions that match a request, to choose the
  device's name (\<open>vdev_action_create_path\<close>) and to process the event
  (\<open>vdev_action_run_commands\<close>).

  Both walk through the list with \<open>vdev_action_find_next\<close> and offsets. They are shown to be
  equal to a plain pass over the list (\<open>rename_pass\<close>, \<open>command_pass\<close>), from which the
  properties follow: which of the rename commands gives the name, and which commands are run. An asynchronous command is recorded in the
  trace when it is started; what it does later is not part of the model.
\<close>

section \<open>Running one command\<close>

definition vdev_action_run_sync ::
  "'z vdev_base_state_scheme \<Rightarrow> vdev_device_request \<Rightarrow> cstr \<Rightarrow> vdev_params \<Rightarrow> bool \<Rightarrow> nat \<Rightarrow> world \<Rightarrow>
   (rc \<times> cbuf option \<times> world) option" where
  "vdev_action_run_sync st vreq command helper_vars use_shell max_output w =
     (case vdev_device_request_to_env st vreq helper_vars False of
        None \<Rightarrow> None
      | Some env \<Rightarrow>
          (case vdev_subprocess (Some command) env max_output use_shell w of (rc, exit_status, output, w1) \<Rightarrow>
             if rc \<noteq> 0 then Some (rc, output, w1) else Some (exit_status, output, w1)))"

definition vdev_action_run_async ::
  "'z vdev_base_state_scheme \<Rightarrow> vdev_device_request \<Rightarrow> cstr \<Rightarrow> vdev_params \<Rightarrow> bool \<Rightarrow> world \<Rightarrow> (rc \<times> world) option" where
  "vdev_action_run_async st vreq command helper_vars use_shell w =
     (case vdev_device_request_to_env st vreq helper_vars False of
        None \<Rightarrow> None
      | Some env \<Rightarrow>
          (let ev = EvAsync command env use_shell; r = w_exec w (w_trace w) ev
           in if sp_fork r \<noteq> 0 then Some (- sp_fork r, w)
              else if sp_wait r \<noteq> 0 then Some (- sp_wait r, emit ev w)
              else Some (case sp_status r of Exited c \<Rightarrow> - c | Signaled s \<Rightarrow> s | OtherStatus \<Rightarrow> 127, emit ev w)))"

section \<open>Choosing the name\<close>

text \<open>The loop keeps the buffer of \<open>PATH_MAX + 1\<close> bytes that the last command filled.\<close>

function create_path_loop ::
  "regex_lib \<Rightarrow> 'z vdev_base_state_scheme \<Rightarrow> vdev_device_request \<Rightarrow> vdev_action list \<Rightarrow> rc \<Rightarrow> cbuf option \<Rightarrow> world \<Rightarrow>
   (rc \<times> cbuf option \<times> world) option" where
  "create_path_loop lib st vreq acts rc path w =
     (if acts = [] then Some (rc, path, w)
      else if act_rename_command (hd acts) = None then create_path_loop lib st vreq (tl acts) 0 path w
      else
        (let i = vdev_action_find_next lib vreq acts
         in if i = int (length acts) then Some (0, path, w)
            else if i < 0 then Some (i, path, w)
            else
              (case act_rename_command (acts ! nat i) of
                 None \<Rightarrow> create_path_loop lib st vreq (drop (Suc (nat i)) acts) 0 path w
               | Some cmd \<Rightarrow>
                   (case vdev_action_run_sync st vreq cmd (act_helper_vars (acts ! nat i)) True (PATH_MAX + 1) w of
                      None \<Rightarrow> None
                    | Some (rc', out, w') \<Rightarrow>
                        if rc' < 0 then Some (rc', path, w')
                        else create_path_loop lib st vreq (drop (Suc (nat i)) acts) rc' out w'))))"
  by pat_completeness auto
termination
  by (relation "measure (\<lambda>(lib, st, vreq, acts, rc, path, w). length acts)") (auto simp: neq_Nil_conv)

declare create_path_loop.simps [simp del]

text \<open>
  What happens to the name after the loop. A command that prints more than \<open>PATH_MAX\<close> bytes leaves the buffer
  without a terminator, and \<open>strlen\<close> reads past its end.
\<close>

definition create_path_finish :: "vdev_device_request \<Rightarrow> rc \<Rightarrow> cbuf option \<Rightarrow> (rc \<times> cstr option) option" where
  "create_path_finish vreq rc path =
     (case path of
        None \<Rightarrow> Some (rc, None)
      | Some buf \<Rightarrow>
          if NUL \<notin> set buf then None
          else if cstr_of buf = [] then
            (if the_path vreq = VDEV_DEVICE_PATH_UNKNOWN then Some (rc, Some VDEV_DEVICE_PATH_UNKNOWN)
             else Some (- ENODATA, None))
          else Some (rc, Some (cstr_of buf)))"

definition vdev_action_create_path ::
  "regex_lib \<Rightarrow> 'z vdev_base_state_scheme \<Rightarrow> vdev_device_request \<Rightarrow> vdev_action list \<Rightarrow> world \<Rightarrow>
   (rc \<times> cstr option \<times> world) option" where
  "vdev_action_create_path lib st vreq acts w =
     (case req_renamed_path vreq of
        Some p \<Rightarrow> Some (- EINVAL, Some p, w)
      | None \<Rightarrow>
          (case create_path_loop lib st vreq acts 0 None w of
             None \<Rightarrow> None
           | Some (rc, path, w') \<Rightarrow>
               (case create_path_finish vreq rc path of
                  None \<Rightarrow> None
                | Some (rc', path') \<Rightarrow> Some (rc', path', w'))))"

section \<open>Processing the event\<close>

text \<open>The work for one matched action: how it is run, and its statistics.\<close>

definition action_dispatch ::
  "'z vdev_base_state_scheme \<Rightarrow> vdev_device_request \<Rightarrow> vdev_action \<Rightarrow> cstr \<Rightarrow> world \<Rightarrow> (rc \<times> vdev_action \<times> world) option" where
  "action_dispatch st vreq act cmd w =
     (if \<not> act_is_daemonlet act then
        if act_async act then
          map_option (\<lambda>(rc, w'). (rc, act, w')) (vdev_action_run_async st vreq cmd (act_helper_vars act) (act_use_shell act) w)
        else
          map_option (\<lambda>(rc, out, w'). (rc, act, w')) (vdev_action_run_sync st vreq cmd (act_helper_vars act) (act_use_shell act) 0 w)
      else vdev_action_run_daemonlet st vreq act w)"

definition action_benchmark :: "rc \<Rightarrow> world \<Rightarrow> world \<Rightarrow> vdev_action \<Rightarrow> vdev_action" where
  "action_benchmark rc w w' act =
     (if rc = 0
      then act\<lparr>act_num_successful_calls := act_num_successful_calls act + 1,
               act_cumulative_time_millis := act_cumulative_time_millis act +
                 (of_nat (w_clock w' (w_trace w')) - of_nat (w_clock w (w_trace w)))\<rparr>
      else act)"

text \<open>An existing device: only actions with \<open>if_exists=run\<close> are run when it is added.\<close>

definition action_masked :: "vdev_device_request \<Rightarrow> bool \<Rightarrow> vdev_action \<Rightarrow> bool" where
  "action_masked vreq ex act \<longleftrightarrow> req_type vreq = VDEV_DEVICE_ADD \<and> ex \<and> act_if_exists act \<noteq> VDEV_IF_EXISTS_RUN"

text \<open>The actions of a result, put behind those that were passed over before.\<close>

definition put_front ::
  "vdev_action list \<Rightarrow> (rc \<times> vdev_action list \<times> world) option \<Rightarrow> (rc \<times> vdev_action list \<times> world) option" where
  "put_front ys r = map_option (\<lambda>x. (fst x, ys @ fst (snd x), snd (snd x))) r"

lemma put_front_simps [simp]:
  "put_front ys (put_front zs r) = put_front (ys @ zs) r"
  "put_front ys (Some (rc, as, w)) = Some (rc, ys @ as, w)" "put_front ys None = None" "put_front [] r = r"
  by (simp_all add: put_front_def option.map_comp comp_def option.map_ident)

function run_commands_loop ::
  "regex_lib \<Rightarrow> 'z vdev_base_state_scheme \<Rightarrow> vdev_device_request \<Rightarrow> bool \<Rightarrow> vdev_action list \<Rightarrow> world \<Rightarrow>
   (rc \<times> vdev_action list \<times> world) option" where
  "run_commands_loop lib st vreq ex acts w =
     (if acts = [] then Some (0, [], w)
      else if act_command (hd acts) = None then
        put_front [hd acts] (run_commands_loop lib st vreq ex (tl acts) w)
      else
        (let i = vdev_action_find_next lib vreq acts; before = take (Suc (nat i)) acts; after = drop (Suc (nat i)) acts
         in if i = int (length acts) then Some (0, acts, w)
            else if i < 0 then Some (i, acts, w)
            else
              (case act_command (acts ! nat i) of
                 None \<Rightarrow> put_front before (run_commands_loop lib st vreq ex after w)
               | Some cmd \<Rightarrow>
                   if action_masked vreq ex (acts ! nat i) then
                     if act_if_exists (acts ! nat i) = VDEV_IF_EXISTS_ERROR then Some (1, acts, w)
                     else put_front before (run_commands_loop lib st vreq ex after w)
                   else
                     (case action_dispatch st vreq (acts ! nat i) cmd w of
                        None \<Rightarrow> None
                      | Some (rc, act', w') \<Rightarrow>
                          (let act'' = action_benchmark rc w w' act'
                           in if rc < 0 then Some (rc, take (nat i) acts @ act'' # after, w')
                              else put_front (take (nat i) acts @ [act'']) (run_commands_loop lib st vreq ex after w'))))))"
  by pat_completeness auto
termination
  by (relation "measure (\<lambda>(lib, st, vreq, ex, acts, w). length acts)") (auto simp: neq_Nil_conv)

declare run_commands_loop.simps [simp del]

definition vdev_action_run_commands ::
  "regex_lib \<Rightarrow> 'z vdev_base_state_scheme \<Rightarrow> vdev_device_request \<Rightarrow> vdev_action list \<Rightarrow> bool \<Rightarrow> world \<Rightarrow>
   (rc \<times> vdev_action list \<times> world) option" where
  "vdev_action_run_commands lib st vreq acts ex w =
     map_option (\<lambda>(rc, as, w'). (if rc > 0 then 0 else rc, as, w')) (run_commands_loop lib st vreq ex acts w)"

section \<open>The specification: one pass over the list\<close>

text \<open>
  Each action in turn: skip it if it does not match or has no command; stop on an error.
\<close>

fun command_pass ::
  "regex_lib \<Rightarrow> 'z vdev_base_state_scheme \<Rightarrow> vdev_device_request \<Rightarrow> bool \<Rightarrow> vdev_action list \<Rightarrow> world \<Rightarrow>
   (rc \<times> vdev_action list \<times> world) option" where
  "command_pass lib st vreq ex [] w = Some (0, [], w)"
| "command_pass lib st vreq ex (a # as) w =
     (if vdev_action_match lib vreq a = 0 \<or> act_command a = None \<or>
         action_masked vreq ex a \<and> act_if_exists a \<noteq> VDEV_IF_EXISTS_ERROR
      then put_front [a] (command_pass lib st vreq ex as w)
      else if action_masked vreq ex a then Some (1, a # as, w)
      else (case action_dispatch st vreq a (the (act_command a)) w of
              None \<Rightarrow> None
            | Some (rc, a', w') \<Rightarrow>
                if rc < 0 then Some (rc, action_benchmark rc w w' a' # as, w')
                else put_front [action_benchmark rc w w' a'] (command_pass lib st vreq ex as w')))"

fun rename_pass ::
  "regex_lib \<Rightarrow> 'z vdev_base_state_scheme \<Rightarrow> vdev_device_request \<Rightarrow> vdev_action list \<Rightarrow> rc \<Rightarrow> cbuf option \<Rightarrow> world \<Rightarrow>
   (rc \<times> cbuf option \<times> world) option" where
  "rename_pass lib st vreq [] rc path w = Some (rc, path, w)"
| "rename_pass lib st vreq (a # as) rc path w =
     (if vdev_action_match lib vreq a = 0 \<or> act_rename_command a = None
      then rename_pass lib st vreq as 0 path w
      else (case vdev_action_run_sync st vreq (the (act_rename_command a)) (act_helper_vars a) True (PATH_MAX + 1) w of
              None \<Rightarrow> None
            | Some (rc', out, w') \<Rightarrow>
                if rc' < 0 then Some (rc', path, w') else rename_pass lib st vreq as rc' out w'))"

text \<open>No action's pattern fails to evaluate on this request.\<close>

definition no_match_errors :: "regex_lib \<Rightarrow> vdev_device_request \<Rightarrow> vdev_action list \<Rightarrow> bool" where
  "no_match_errors lib vreq acts \<longleftrightarrow> list_all (\<lambda>a. 0 \<le> vdev_action_match lib vreq a) acts"

lemma action_scan_ok:
  assumes "no_match_errors lib vreq acts"
  obtains (none) "\<forall>a \<in> set acts. vdev_action_match lib vreq a = 0" "vdev_action_find_next lib vreq acts = int (length acts)"
  | (found) ys x zs where "acts = ys @ x # zs" "\<forall>y \<in> set ys. vdev_action_match lib vreq y = 0"
      "vdev_action_match lib vreq x > 0" "vdev_action_find_next lib vreq acts = int (length ys)" "no_match_errors lib vreq zs"
proof (cases rule: action_scan.scan_cases [of acts lib vreq 0])
  case none
  then show thesis by (intro that(1)) (auto simp: vdev_action_find_next_def)
next
  case (found ys x zs)
  with assms show thesis by (intro that(2) [of ys x zs]) (auto simp: vdev_action_find_next_def no_match_errors_def)
next
  case (error ys x zs)
  with assms show thesis by (auto simp: no_match_errors_def)
qed

lemma found_parts:
  assumes "acts = ys @ x # zs"
  shows "acts ! length ys = x" "drop (Suc (length ys)) acts = zs" "take (length ys) acts = ys"
    "take (Suc (length ys)) acts = ys @ [x]" "length ys \<noteq> length acts"
  using assms by simp_all

lemma command_pass_skip:
  "(\<forall>a \<in> set ys. vdev_action_match lib vreq a = 0) \<Longrightarrow>
   command_pass lib st vreq ex (ys @ xs) w = put_front ys (command_pass lib st vreq ex xs w)"
  by (induction ys) auto

lemma rename_pass_skip:
  "(\<forall>a \<in> set ys. vdev_action_match lib vreq a = 0 \<or> act_rename_command a = None) \<Longrightarrow>
   rename_pass lib st vreq (ys @ xs) rc path w = rename_pass lib st vreq xs (if ys = [] then rc else 0) path w"
  by (induction ys arbitrary: rc) auto

lemma run_commands_loop_pass:
  "no_match_errors lib vreq acts \<Longrightarrow> run_commands_loop lib st vreq ex acts w = command_pass lib st vreq ex acts w"
proof (induction acts arbitrary: w rule: length_induct)
  case (1 acts)
  show ?case
  proof (cases "acts = [] \<or> act_command (hd acts) = None")
    case True
    with 1 show ?thesis
      by (cases acts; subst run_commands_loop.simps) (auto simp: no_match_errors_def)
  next
    case False
    then obtain c where nonskip: "acts \<noteq> []" "act_command (hd acts) = Some c" by auto
    from "1.prems" show ?thesis
    proof (cases rule: action_scan_ok)
      case none
      with False command_pass_skip [of acts lib vreq st ex "[]" w] show ?thesis
        by (subst run_commands_loop.simps) auto
    next
      case (found ys x zs)
      have IH: "run_commands_loop lib st vreq ex zs v = command_pass lib st vreq ex zs v" for v
        using 1 found by auto
      from found(3) have m: "vdev_action_match lib vreq x \<noteq> 0" by simp
      have "run_commands_loop lib st vreq ex acts w =
          (case act_command x of
             None \<Rightarrow> put_front (ys @ [x]) (command_pass lib st vreq ex zs w)
           | Some cmd \<Rightarrow>
               if action_masked vreq ex x then
                 if act_if_exists x = VDEV_IF_EXISTS_ERROR then Some (1, acts, w)
                 else put_front (ys @ [x]) (command_pass lib st vreq ex zs w)
               else (case action_dispatch st vreq x cmd w of
                       None \<Rightarrow> None
                     | Some (rc, act', w') \<Rightarrow>
                         if rc < 0 then Some (rc, ys @ action_benchmark rc w w' act' # zs, w')
                         else put_front (ys @ [action_benchmark rc w w' act']) (command_pass lib st vreq ex zs w')))"
        using nonskip found_parts [OF found(1)] found(4) IH
        by (subst run_commands_loop.simps) (simp add: Let_def cong: option.case_cong prod.case_cong if_cong)
      then show ?thesis
        unfolding found(1) command_pass_skip [OF found(2)] using m
        by (auto split: option.splits)
    qed
  qed
qed

lemma create_path_loop_pass:
  "no_match_errors lib vreq acts \<Longrightarrow> create_path_loop lib st vreq acts rc path w = rename_pass lib st vreq acts rc path w"
proof (induction acts arbitrary: rc path w rule: length_induct)
  case (1 acts)
  show ?case
  proof (cases "acts = [] \<or> act_rename_command (hd acts) = None")
    case True
    with 1 show ?thesis
      by (cases acts; subst create_path_loop.simps) (auto simp: no_match_errors_def)
  next
    case False
    then obtain c where nonskip: "acts \<noteq> []" "act_rename_command (hd acts) = Some c" by auto
    from "1.prems" show ?thesis
    proof (cases rule: action_scan_ok)
      case none
      with False rename_pass_skip [of acts lib vreq st "[]" rc path w] show ?thesis
        by (subst create_path_loop.simps) auto
    next
      case (found ys x zs)
      have IH: "create_path_loop lib st vreq zs r p v = rename_pass lib st vreq zs r p v" for r p v
        using 1 found by auto
      from found(3) have m: "vdev_action_match lib vreq x \<noteq> 0" by simp
      have "create_path_loop lib st vreq acts rc path w =
          (case act_rename_command x of
             None \<Rightarrow> rename_pass lib st vreq zs 0 path w
           | Some cmd \<Rightarrow>
               (case vdev_action_run_sync st vreq cmd (act_helper_vars x) True (PATH_MAX + 1) w of
                  None \<Rightarrow> None
                | Some (rc', out, w') \<Rightarrow>
                    if rc' < 0 then Some (rc', path, w') else rename_pass lib st vreq zs rc' out w'))"
        using nonskip found_parts [OF found(1)] found(4) IH
        by (subst create_path_loop.simps) (simp add: Let_def cong: option.case_cong prod.case_cong if_cong)
      then show ?thesis
        using m found(1,2) by (auto simp: rename_pass_skip split: option.splits)
    qed
  qed
qed

text \<open>
  C10: Running the actions of an event refines one pass over the list: the search with offsets
  visits every action once, in order, runs those that match and have a command, stops at the
  first one that cannot be run or that forbids an existing device, and puts each action's new
  state (daemonlet, statistics) back at its own place.
\<close>

theorem run_commands_refines_pass:
  assumes "no_match_errors lib vreq acts"
  shows "vdev_action_run_commands lib st vreq acts ex w =
    map_option (\<lambda>(rc, as, w'). (if rc > 0 then 0 else rc, as, w')) (command_pass lib st vreq ex acts w)"
  by (simp add: vdev_action_run_commands_def run_commands_loop_pass [OF assms])

lemma witness_request:
  "the_path env_witness_request = ''sda''" "req_type env_witness_request = VDEV_DEVICE_ADD"
  "req_mode env_witness_request = S_IFBLK" "req_renamed_path env_witness_request = None"
  by (simp_all add: the_path_def env_witness_request_def vdev_device_request_add_param_def
      vdev_device_request_init_def case_prod_beta)

lemma witness_no_errors:
  "no_match_errors literal_regex_lib env_witness_request [action_witness]"
  "no_match_errors literal_regex_lib env_witness_request [action_zero, action_witness]"
  using witness_request
  by (simp_all add: no_match_errors_def vdev_action_match_def action_zero_def action_witness_def
      vdev_match_regex_def literal_regex_lib_def Let_def)

theorem run_commands_refines_pass_witness:
  "no_match_errors literal_regex_lib env_witness_request [action_zero, action_witness] \<and>
   vdev_action_run_commands literal_regex_lib env_witness_state env_witness_request [action_zero, action_witness] False calm_world =
     map_option (\<lambda>(rc, as, w'). (if rc > 0 then 0 else rc, as, w'))
       (command_pass literal_regex_lib env_witness_state env_witness_request False [action_zero, action_witness] calm_world)"
  using witness_no_errors(2) run_commands_refines_pass [OF witness_no_errors(2)] by blast

section \<open>What the pass does\<close>

text \<open>On an existing device that is added again, actions without \<open>if_exists=run\<close> do nothing at all.\<close>

lemma command_pass_masked:
  "(\<forall>a \<in> set acts. action_masked vreq ex a) \<Longrightarrow>
   \<exists>rc. (rc = 0 \<or> rc = 1) \<and> command_pass lib st vreq ex acts w = Some (rc, acts, w)"
proof (induction acts)
  case (Cons a as)
  then obtain rc where "rc = 0 \<or> rc = 1" "command_pass lib st vreq ex as w = Some (rc, as, w)" by auto
  with Cons.prems show ?case by auto
qed simp

lemma run_existing_device:
  assumes "no_match_errors lib vreq acts" "req_type vreq = VDEV_DEVICE_ADD"
    and "\<forall>a \<in> set acts. act_if_exists a \<noteq> VDEV_IF_EXISTS_RUN"
  shows "vdev_action_run_commands lib st vreq acts True w = Some (0, acts, w)"
proof -
  have "\<forall>a \<in> set acts. action_masked vreq True a" using assms by (simp add: action_masked_def)
  then obtain rc where "rc = 0 \<or> rc = 1" "command_pass lib st vreq True acts w = Some (rc, acts, w)"
    using command_pass_masked [of acts vreq True lib st w] by blast
  then show ?thesis by (auto simp: vdev_action_run_commands_def run_commands_loop_pass [OF assms(1)])
qed

text \<open>
  A device that already exists is not processed twice. If the request adds a device that
  exists and no action has \<open>if_exists=run\<close>, nothing is run: the world and all actions stay as
  they are and the result is success.
\<close>

theorem run_commands_existing_device:
  assumes "no_match_errors lib vreq acts" "req_type vreq = VDEV_DEVICE_ADD"
    and "\<forall>a \<in> set acts. act_if_exists a \<noteq> VDEV_IF_EXISTS_RUN"
  shows "vdev_action_run_commands lib st vreq acts True w = Some (0, acts, w)"
  by (rule run_existing_device [OF assms])

theorem run_commands_existing_device_witness:
  "vdev_action_run_commands literal_regex_lib env_witness_state env_witness_request [action_witness] True calm_world =
     Some (0, [action_witness], calm_world)"
  by (rule run_commands_existing_device [OF witness_no_errors(1) witness_request(2)])
    (simp add: action_witness_def action_zero_def)

text \<open>Programs only run for actions that match: otherwise the world does not change.\<close>

lemma command_pass_no_match:
  "(\<forall>a \<in> set acts. vdev_action_match lib vreq a = 0) \<Longrightarrow> command_pass lib st vreq ex acts w = Some (0, acts, w)"
  by (induction acts) auto

text \<open>Finding: a rename command that fails only counts as an error when it belongs to the last action.\<close>

lemma rename_exit_status_leaks:
  assumes "vdev_action_match lib vreq a > 0" "act_rename_command a = Some cmd"
    and "vdev_action_run_sync st vreq cmd (act_helper_vars a) True (PATH_MAX + 1) w = Some (1, Some (p @ [NUL]), w')"
    and "act_rename_command b = None" "vdev_action_match lib vreq b \<ge> 0"
  shows "map_option fst (create_path_loop lib st vreq [a] 0 None w) = Some 1"
    and "map_option fst (create_path_loop lib st vreq [a, b] 0 None w) = Some 0"
proof -
  have n: "no_match_errors lib vreq [a]" "no_match_errors lib vreq [a, b]"
    using assms by (simp_all add: no_match_errors_def)
  show "map_option fst (create_path_loop lib st vreq [a] 0 None w) = Some 1"
    unfolding create_path_loop_pass [OF n(1)] using assms by simp
  show "map_option fst (create_path_loop lib st vreq [a, b] 0 None w) = Some 0"
    unfolding create_path_loop_pass [OF n(2)] using assms by simp
qed

section \<open>The name of a device\<close>

text \<open>Which rename commands concern a request, and what they do when all of them can be run.\<close>

definition action_applies :: "regex_lib \<Rightarrow> vdev_device_request \<Rightarrow> vdev_action \<Rightarrow> bool" where
  "action_applies lib vreq act \<longleftrightarrow> (act_trigger act = req_type vreq \<or> act_trigger act = VDEV_DEVICE_ANY) \<and>
     (case act_path act of None \<Rightarrow> True | Some p \<Rightarrow> vdev_match_regex lib (the_path vreq) p > 0) \<and>
     type_ok act (req_mode vreq) \<and> params_cover (act_dev_params act) (req_params vreq)"

definition renamers :: "regex_lib \<Rightarrow> vdev_device_request \<Rightarrow> vdev_action list \<Rightarrow> vdev_action list" where
  "renamers lib vreq acts = filter (\<lambda>a. action_applies lib vreq a \<and> act_rename_command a \<noteq> None) acts"

definition rename_output ::
  "'z vdev_base_state_scheme \<Rightarrow> vdev_device_request \<Rightarrow> vdev_action \<Rightarrow> world \<Rightarrow> (rc \<times> cbuf option \<times> world) option" where
  "rename_output st vreq a w =
     vdev_action_run_sync st vreq (the (act_rename_command a)) (act_helper_vars a) True (PATH_MAX + 1) w"

fun run_renamers ::
  "'z vdev_base_state_scheme \<Rightarrow> vdev_device_request \<Rightarrow> vdev_action list \<Rightarrow> cbuf option \<Rightarrow> world \<Rightarrow> (cbuf option \<times> world) option" where
  "run_renamers st vreq [] prev w = Some (prev, w)"
| "run_renamers st vreq (a # as) prev w =
     (case rename_output st vreq a w of
        None \<Rightarrow> None
      | Some (rc, out, w') \<Rightarrow> if rc < 0 then None else run_renamers st vreq as out w')"

lemma action_applies_match:
  assumes "vdev_params_invar (act_dev_params a)" "0 \<le> vdev_action_match lib vreq a"
  shows "action_applies lib vreq a \<longleftrightarrow> vdev_action_match lib vreq a \<noteq> 0"
  using assms(2) params_match_cover [OF assms(1), of "req_params vreq"] blk_not_chr [of "req_mode vreq"]
  by (auto simp: action_applies_def vdev_action_match_def type_ok_def Let_def split: option.splits if_splits)

lemma renamers_match:
  assumes "no_match_errors lib vreq acts" "\<forall>a \<in> set acts. vdev_params_invar (act_dev_params a)"
  shows "renamers lib vreq acts = filter (\<lambda>a. vdev_action_match lib vreq a \<noteq> 0 \<and> act_rename_command a \<noteq> None) acts"
  using assms action_applies_match unfolding renamers_def
  by (intro filter_cong) (auto simp: no_match_errors_def list_all_iff)

text \<open>The pass, up to one of the commands.\<close>

lemma rename_pass_at:
  "filter (\<lambda>a. vdev_action_match lib vreq a \<noteq> 0 \<and> act_rename_command a \<noteq> None) acts = bs @ a # cs \<Longrightarrow>
   run_renamers st vreq bs path w = Some (prev, w1) \<Longrightarrow>
   \<exists>us zs. acts = us @ a # zs \<and>
     filter (\<lambda>a. vdev_action_match lib vreq a \<noteq> 0 \<and> act_rename_command a \<noteq> None) zs = cs \<and>
     rename_pass lib st vreq acts rc path w =
       (case rename_output st vreq a w1 of
          None \<Rightarrow> None
        | Some (rc', out, w2) \<Rightarrow> if rc' < 0 then Some (rc', prev, w2) else rename_pass lib st vreq zs rc' out w2)"
proof (induction bs arbitrary: acts rc path w)
  case Nil
  then obtain us zs where z: "acts = us @ a # zs" "\<forall>u \<in> set us. vdev_action_match lib vreq u = 0 \<or> act_rename_command u = None"
    "vdev_action_match lib vreq a \<noteq> 0" "act_rename_command a \<noteq> None"
    "filter (\<lambda>a. vdev_action_match lib vreq a \<noteq> 0 \<and> act_rename_command a \<noteq> None) zs = cs"
    by (auto simp: filter_eq_Cons_iff)
  have "rename_pass lib st vreq acts rc path w =
      (case rename_output st vreq a w1 of
         None \<Rightarrow> None
       | Some (rc', out, w2) \<Rightarrow> if rc' < 0 then Some (rc', prev, w2) else rename_pass lib st vreq zs rc' out w2)"
    using z(1-4) Nil(2) by (auto simp: rename_pass_skip rename_output_def)
  with z(1,5) show ?case by blast
next
  case (Cons b bs)
  then obtain us zs where z: "acts = us @ b # zs" "\<forall>u \<in> set us. vdev_action_match lib vreq u = 0 \<or> act_rename_command u = None"
    "vdev_action_match lib vreq b \<noteq> 0" "act_rename_command b \<noteq> None"
    "filter (\<lambda>a. vdev_action_match lib vreq a \<noteq> 0 \<and> act_rename_command a \<noteq> None) zs = bs @ a # cs"
    by (auto simp: filter_eq_Cons_iff)
  from Cons.prems(2) obtain rc1 out w' where o: "rename_output st vreq b w = Some (rc1, out, w')" "\<not> rc1 < 0"
    "run_renamers st vreq bs out w' = Some (prev, w1)" by (auto split: option.splits if_splits)
  obtain us' zs' where IH: "zs = us' @ a # zs'" "filter (\<lambda>a. vdev_action_match lib vreq a \<noteq> 0 \<and> act_rename_command a \<noteq> None) zs' = cs"
    "rename_pass lib st vreq zs rc1 out w' =
       (case rename_output st vreq a w1 of
          None \<Rightarrow> None
        | Some (rc', out, w2) \<Rightarrow> if rc' < 0 then Some (rc', prev, w2) else rename_pass lib st vreq zs' rc' out w2)"
    using Cons.IH [OF z(5) o(3), of rc1] by blast
  have "rename_pass lib st vreq acts rc path w = rename_pass lib st vreq zs rc1 out w'"
    using z(1-4) o(1,2) by (auto simp: rename_pass_skip rename_output_def)
  then have "acts = (us @ b # us') @ a # zs'" "rename_pass lib st vreq acts rc path w =
       (case rename_output st vreq a w1 of
          None \<Rightarrow> None
        | Some (rc', out, w2) \<Rightarrow> if rc' < 0 then Some (rc', prev, w2) else rename_pass lib st vreq zs' rc' out w2)"
    using IH z(1) by simp_all
  with IH(2) show ?case by blast
qed

lemma rename_pass_none:
  "filter (\<lambda>a. vdev_action_match lib vreq a \<noteq> 0 \<and> act_rename_command a \<noteq> None) acts = [] \<Longrightarrow>
   rename_pass lib st vreq acts rc path w = Some (if acts = [] then rc else 0, path, w)"
  using rename_pass_skip [of acts lib vreq st "[]" rc path w] by (auto simp: filter_empty_conv)

lemma rename_pass_last:
  assumes "no_match_errors lib vreq acts" "\<forall>a \<in> set acts. vdev_params_invar (act_dev_params a)"
    and "renamers lib vreq acts = bs @ [a]" "run_renamers st vreq bs None w = Some (prev, w1)"
    and "rename_output st vreq a w1 = Some (rc, out, w2)" "0 \<le> rc"
  shows "rename_pass lib st vreq acts 0 None w = Some (if last acts = a then rc else 0, out, w2)"
proof -
  note f = assms(3) [unfolded renamers_match [OF assms(1,2)]]
  from rename_pass_at [OF f assms(4), of 0] obtain us zs where z: "acts = us @ a # zs"
    "filter (\<lambda>a. vdev_action_match lib vreq a \<noteq> 0 \<and> act_rename_command a \<noteq> None) zs = []"
    "rename_pass lib st vreq acts 0 None w = rename_pass lib st vreq zs rc out w2" using assms(5,6) by auto
  have "vdev_action_match lib vreq a \<noteq> 0 \<and> act_rename_command a \<noteq> None"
    using arg_cong [OF f, of set] by auto
  then have "last acts = a \<longleftrightarrow> zs = []" using z(1,2) by (auto simp: filter_empty_conv)
  with z(2,3) show ?thesis by (simp add: rename_pass_none)
qed

text \<open>
  C11: The name of a device, for a request that has no new name yet and actions whose patterns evaluate. The commands that count are the rename commands of the actions whose trigger, path pattern, type and
  parameters agree with the request (\<open>renamers\<close>). If there are none, no program is run and the device keeps the name the
  kernel gave it (no new name is produced). If all of them can be run, the name is what the last one printed, up to the first
  NUL byte; an empty name is an error (\<open>ENODATA\<close>) unless the device's own name is unknown. The
  result is 0, or the last command's exit status if it belongs to the last action of the list. If one of them cannot be
  run, the result is an error and none of those behind it is run.
\<close>

theorem create_path_result:
  assumes "no_match_errors lib vreq acts" "\<forall>a \<in> set acts. vdev_params_invar (act_dev_params a)" "req_renamed_path vreq = None"
  shows "(renamers lib vreq acts = [] \<longrightarrow> vdev_action_create_path lib st vreq acts w = Some (0, None, w)) \<and>
    (\<forall>bs a prev w1 rc name rest w2.
       renamers lib vreq acts = bs @ [a] \<and> run_renamers st vreq bs None w = Some (prev, w1) \<and>
       rename_output st vreq a w1 = Some (rc, Some (name @ NUL # rest), w2) \<and> 0 \<le> rc \<and> NUL \<notin> set name \<longrightarrow>
       vdev_action_create_path lib st vreq acts w =
         Some (if name = [] \<and> the_path vreq \<noteq> VDEV_DEVICE_PATH_UNKNOWN then - ENODATA else if last acts = a then rc else 0,
               if name \<noteq> [] then Some name else if the_path vreq = VDEV_DEVICE_PATH_UNKNOWN then Some VDEV_DEVICE_PATH_UNKNOWN else None,
               w2)) \<and>
    (\<forall>bs a cs prev w1 rc out w2.
       renamers lib vreq acts = bs @ a # cs \<and> run_renamers st vreq bs None w = Some (prev, w1) \<and>
       rename_output st vreq a w1 = Some (rc, out, w2) \<and> rc < 0 \<and> (\<forall>b. prev = Some b \<longrightarrow> NUL \<in> set b) \<longrightarrow>
       (\<exists>e path. vdev_action_create_path lib st vreq acts w = Some (e, path, w2) \<and> e < 0 \<and> (prev = None \<longrightarrow> e = rc \<and> path = None)))"
proof (intro conjI allI impI)
  note loop = vdev_action_create_path_def create_path_loop_pass [OF assms(1)] assms(3)
  show "vdev_action_create_path lib st vreq acts w = Some (0, None, w)" if "renamers lib vreq acts = []"
  proof -
    have "rename_pass lib st vreq acts 0 None w = Some (0, None, w)"
      by (subst rename_pass_none) (use that renamers_match [OF assms(1,2)] in simp_all)
    then show ?thesis by (simp add: loop create_path_finish_def)
  qed
  show "vdev_action_create_path lib st vreq acts w =
      Some (if name = [] \<and> the_path vreq \<noteq> VDEV_DEVICE_PATH_UNKNOWN then - ENODATA else if last acts = a then rc else 0,
            if name \<noteq> [] then Some name else if the_path vreq = VDEV_DEVICE_PATH_UNKNOWN then Some VDEV_DEVICE_PATH_UNKNOWN else None, w2)"
    if "renamers lib vreq acts = bs @ [a] \<and> run_renamers st vreq bs None w = Some (prev, w1) \<and>
       rename_output st vreq a w1 = Some (rc, Some (name @ NUL # rest), w2) \<and> 0 \<le> rc \<and> NUL \<notin> set name"
    for bs a prev w1 rc name rest w2
  proof -
    have "rename_pass lib st vreq acts 0 None w = Some (if last acts = a then rc else 0, Some (name @ NUL # rest), w2)"
      using rename_pass_last [OF assms(1,2)] that by blast
    with that show ?thesis by (simp add: loop create_path_finish_def takeWhile_NUL_free)
  qed
  show "\<exists>e path. vdev_action_create_path lib st vreq acts w = Some (e, path, w2) \<and> e < 0 \<and> (prev = None \<longrightarrow> e = rc \<and> path = None)"
    if h: "renamers lib vreq acts = bs @ a # cs \<and> run_renamers st vreq bs None w = Some (prev, w1) \<and>
       rename_output st vreq a w1 = Some (rc, out, w2) \<and> rc < 0 \<and> (\<forall>b. prev = Some b \<longrightarrow> NUL \<in> set b)"
    for bs a cs prev w1 rc out w2
  proof -
    have "rename_pass lib st vreq acts 0 None w = Some (rc, prev, w2)"
      using rename_pass_at [of lib vreq acts bs a cs st None w prev w1 0] h renamers_match [OF assms(1,2)] by auto
    with h show ?thesis by (cases prev) (auto simp: loop create_path_finish_def)
  qed
qed

text \<open>Finding: a name of more than \<open>PATH_MAX\<close> bytes makes \<open>strlen\<close> read past the buffer.\<close>

lemma create_path_unterminated:
  assumes "no_match_errors lib vreq acts" "\<forall>a \<in> set acts. vdev_params_invar (act_dev_params a)" "req_renamed_path vreq = None"
    and "renamers lib vreq acts = bs @ [a]" "run_renamers st vreq bs None w = Some (prev, w1)"
    and "rename_output st vreq a w1 = Some (rc, Some buf, w2)" "0 \<le> rc" "NUL \<notin> set buf"
  shows "vdev_action_create_path lib st vreq acts w = None"
  using rename_pass_last [OF assms(1,2,4,5,6,7)] assms(3,8)
  by (simp add: vdev_action_create_path_def create_path_loop_pass [OF assms(1)] create_path_finish_def)

text \<open>Two rename commands, in a world in which a command prints its own text.\<close>

definition rename_witness :: "cstr \<Rightarrow> vdev_action" where
  "rename_witness cmd = action_witness\<lparr>act_command := None, act_rename_command := Some cmd\<rparr>"

definition echo_world :: world where
  "echo_world = calm_world\<lparr>w_exec := (\<lambda>_ ev. \<lparr>sp_pipe = 0, sp_fork = 0,
     sp_output = [IoData (case ev of EvExec c _ _ \<Rightarrow> c | _ \<Rightarrow> [])], sp_wait = 0, sp_status = Exited 0, sp_effect = id\<rparr>)\<rparr>"

definition rename_list :: "vdev_action list" where
  "rename_list = [rename_witness ''sda1'', rename_witness ''disk'', action_zero]"

lemma rename_list_ok:
  "no_match_errors literal_regex_lib env_witness_request rename_list" "\<forall>a \<in> set rename_list. vdev_params_invar (act_dev_params a)"
  "renamers literal_regex_lib env_witness_request rename_list = [rename_witness ''sda1''] @ [rename_witness ''disk'']"
  using witness_request params.invar_empty
  by (simp_all add: rename_list_def no_match_errors_def vdev_action_match_def action_zero_def action_witness_def rename_witness_def
      vdev_match_regex_def literal_regex_lib_def Let_def renamers_def action_applies_def type_ok_def S_ISBLK_def the_type_def
      strcasecmp_eq_def to_lower_def)

lemma echo_rename:
  assumes "w_exec w = w_exec echo_world" "0 < length cmd" "length cmd < 4096"
  shows "\<exists>w' rest. rename_output env_witness_state env_witness_request (rename_witness cmd) w = Some (0, Some (cmd @ NUL # rest), w') \<and>
    w_exec w' = w_exec echo_world"
proof -
  obtain env where "vdev_device_request_to_env env_witness_state env_witness_request Leaf False = Some env"
    by (simp add: vdev_device_request_to_env_def env_witness_state_def)
  moreover have "calloc (4097 - length cmd) = NUL # calloc (4096 - length cmd)"
    using assms(3) by (simp add: calloc_def Suc_diff_le replicate_Suc [symmetric] del: replicate_Suc)
  ultimately show ?thesis using assms
    by (auto simp: rename_output_def vdev_action_run_sync_def rename_witness_def action_witness_def action_zero_def vdev_subprocess_def
        echo_world_def vdev_read_uninterrupted_def emit_def Let_def)
qed

theorem create_path_result_witness:
  "\<exists>w'. vdev_action_create_path literal_regex_lib env_witness_state env_witness_request rename_list echo_world = Some (0, Some ''disk'', w')"
proof -
  obtain w1 r1 where 1: "rename_output env_witness_state env_witness_request (rename_witness ''sda1'') echo_world = Some (0, Some (''sda1'' @ NUL # r1), w1)"
    "w_exec w1 = w_exec echo_world" using echo_rename [of echo_world "''sda1''"] by auto
  obtain w2 r2 where 2: "rename_output env_witness_state env_witness_request (rename_witness ''disk'') w1 = Some (0, Some (''disk'' @ NUL # r2), w2)"
    using echo_rename [OF 1(2), of "''disk''"] by auto
  have "last rename_list \<noteq> rename_witness ''disk''"
    by (simp add: rename_list_def rename_witness_def action_zero_def action_witness_def)
  moreover have "run_renamers env_witness_state env_witness_request [rename_witness ''sda1''] None echo_world = Some (Some (''sda1'' @ NUL # r1), w1)"
    using 1(1) by simp
  moreover have "NUL \<notin> set ''disk''" by simp
  ultimately have "vdev_action_create_path literal_regex_lib env_witness_state env_witness_request rename_list echo_world =
      Some (0, Some ''disk'', w2)"
    using create_path_result [OF rename_list_ok(1,2) witness_request(4), THEN conjunct2, THEN conjunct1, rule_format,
        OF conjI [OF rename_list_ok(3) conjI [OF _ conjI [OF 2]]]] by simp
  then show ?thesis by blast
qed

end
