(* ===== verification/Vdevd_Metadata.thy ===== *)
theory Vdevd_Metadata
  imports Vdevd_Run "HOL-Library.Sublist"
begin

text \<open>
  The metadata that vdevd keeps for each device (\<^verbatim>\<open>vdevd/device.c\<close>): a directory
  \<open>metadata/dev/\<close>\<^emph>\<open>name\<close> below the mount point, with the nonce of the vdevd instance that made it.

  \<open>put_metadata_stores\<close> and \<open>remove_metadata_succeeds\<close> say what writing and removing it do when
  no system call fails; \<open>remove_metadata_returns\<close> says that removing it always ends, and never
  touches anything outside the directory that it is about. It is written for the name that a rename command has chosen, but
  removed for the name that the kernel gave.
\<close>

section \<open>Metadata\<close>

text \<open>\<open>vdev_device_metadata_fullpath\<close>: \<open>sprintf\<close> into a buffer whose size the code computes.\<close>

definition vdev_device_metadata_fullpath :: "cstr \<Rightarrow> cstr \<Rightarrow> cstr option" where
  "vdev_device_metadata_fullpath mountpoint device_path =
     (let bufsize = length mountpoint + 1 + length VDEV_METADATA_PREFIX + 2 + length device_path + 1;
          metadata_dir = VDEV_METADATA_PREFIX @ ''/dev/'' @ device_path
      in if length metadata_dir + 1 \<le> bufsize then Some (vdev_fullpath mountpoint metadata_dir) else None)"

definition vdev_device_put_metadata_item :: "cstr \<Rightarrow> cstr \<Rightarrow> cstr \<Rightarrow> bool \<Rightarrow> world \<Rightarrow> rc \<times> world" where
  "vdev_device_put_metadata_item base_dir param_name param_value creat w =
     (case vdev_write_file (Some (vdev_fullpath base_dir param_name)) (Some (param_value @ [NL])) creat w of (rc, w1) \<Rightarrow>
        (if rc < 0 then rc else 0, w1))"

definition vdev_device_put_metadata ::
  "'z vdev_base_state_scheme \<Rightarrow> vdev_device_request \<Rightarrow> world \<Rightarrow> (rc \<times> world) option" where
  "vdev_device_put_metadata st req w =
     (case env_path req of
        None \<Rightarrow> Some (- EINVAL, w)
      | Some device_path \<Rightarrow>
          if device_path = VDEV_DEVICE_PATH_UNKNOWN then Some (- EINVAL, w)
          else
            (case req_renamed_path req of
               None \<Rightarrow> None
             | Some renamed \<Rightarrow>
                 (case vdev_device_metadata_fullpath (st_mountpoint st) renamed of
                    None \<Rightarrow> None
                  | Some base_dir \<Rightarrow>
                      (case vdev_mkdirs base_dir (length (st_mountpoint st)) w of (rc, w1) \<Rightarrow>
                         if rc \<noteq> 0 then Some (rc, w1)
                         else
                           (case vdev_device_put_metadata_item base_dir VDEV_METADATA_PARAM_INSTANCE
                                   (conf_instance_str (st_config st)) True w1 of (rc, w2) \<Rightarrow>
                              if rc = - EEXIST then
                                Some (vdev_device_put_metadata_item base_dir VDEV_METADATA_PARAM_INSTANCE
                                        (conf_instance_str (st_config st)) False w2)
                              else Some (rc, w2))))))"

text \<open>
  \<open>vdev_device_remove_metadata_file\<close> calls itself through \<open>vdev_load_all\<close> on what a directory
  contains. The fuel is the depth of the tree that is left; the state is \<open>None\<close> when it is used up,
  which \<open>remove_metadata_returns\<close> excludes.
\<close>

fun vdev_device_remove_metadata_file :: "nat \<Rightarrow> cstr \<Rightarrow> world option \<Rightarrow> rc \<times> world option" where
  "vdev_device_remove_metadata_file 0 fp s = (0, None)"
| "vdev_device_remove_metadata_file (Suc n) fp s =
     (case s of
        None \<Rightarrow> (0, None)
      | Some w \<Rightarrow>
          if vdev_basename fp = ''.'' \<or> vdev_basename fp = ''..'' then (0, Some w)
          else
            (case sys_stat fp w of
               Inl e \<Rightarrow> (- e, Some w)
             | Inr FDir \<Rightarrow>
                 (case vdev_load_all (Some fp) (vdev_device_remove_metadata_file n) w (Some w) of
                    (rc, None) \<Rightarrow> (rc, None)
                  | (rc, Some w1) \<Rightarrow>
                      if rc \<noteq> 0 then (rc, Some w1)
                      else (case sys_rmdir fp w1 of (e, w2) \<Rightarrow> (- e, Some w2)))
             | Inr _ \<Rightarrow> (case sys_unlink fp w of (e, w2) \<Rightarrow> (- e, Some w2))))"

definition fs_depth :: "fs \<Rightarrow> nat" where
  "fs_depth fs = foldr (\<lambda>e d. max (length (fst e)) d) fs 0"

text \<open>The \<open>sprintf\<close> of the path goes to a buffer of \<open>PATH_MAX + 1\<close> bytes, and prints a \<open>NULL\<close> path as \<open>(null)\<close>.\<close>

definition vdev_device_remove_metadata ::
  "'z vdev_base_state_scheme \<Rightarrow> vdev_device_request \<Rightarrow> world \<Rightarrow> (rc \<times> world) option" where
  "vdev_device_remove_metadata st req w =
     (let path = (case req_path req of None \<Rightarrow> ''(null)'' | Some p \<Rightarrow> p);
          metadata_dir = VDEV_METADATA_PREFIX @ ''/dev/'' @ path;
          base_dir = vdev_fullpath (st_mountpoint st) metadata_dir
      in if PATH_MAX < length metadata_dir then None
         else
           (case vdev_load_all (Some base_dir) (vdev_device_remove_metadata_file (Suc (fs_depth (w_fs w)))) w (Some w) of
              (_, None) \<Rightarrow> None
            | (_, Some w1) \<Rightarrow> (case sys_rmdir base_dir w1 of (e, w2) \<Rightarrow> Some (- e, w2))))"

text \<open>Zero means that there is metadata.\<close>

definition vdev_device_has_metadata :: "'z vdev_base_state_scheme \<Rightarrow> vdev_device_request \<Rightarrow> world \<Rightarrow> rc option" where
  "vdev_device_has_metadata st req w =
     (case req_renamed_path req of
        None \<Rightarrow> None
      | Some renamed \<Rightarrow>
          (case vdev_device_metadata_fullpath (st_mountpoint st) renamed of
             None \<Rightarrow> None
           | Some md_fp \<Rightarrow> Some (case sys_stat md_fp w of Inl e \<Rightarrow> - e | Inr _ \<Rightarrow> 0)))"

section \<open>Writing metadata\<close>

lemma metadata_fullpath_fits:
  "vdev_device_metadata_fullpath mp dp = (if length mp < 2 then None else Some (vdev_fullpath mp (VDEV_METADATA_PREFIX @ ''/dev/'' @ dp)))"
  by (auto simp: vdev_device_metadata_fullpath_def Let_def)

text \<open>The directory that holds a device's metadata.\<close>

definition metadata_path :: "cstr \<Rightarrow> cstr \<Rightarrow> fpath" where
  "metadata_path mp name = path_components mp @ [''metadata'', ''dev''] @ path_components name"

lemma metadata_components:
  "path_components (vdev_fullpath mp (VDEV_METADATA_PREFIX @ ''/dev/'' @ name)) = metadata_path mp name"
proof -
  have "path_components ''metadata/'' = [''metadata'']"
    using components_snoc_slash [of "''metadata''"] components_name [of "''metadata''"] by simp
  moreover have "path_components (''/dev/'' @ name) = [''dev''] @ path_components name"
    using components_slash [of "''/dev''" name] components_Cons_slash [of "''dev''"] components_name [of "''dev''"] by simp
  ultimately have "path_components (''metadata/'' @ ''/dev/'' @ name) = [''metadata'', ''dev''] @ path_components name"
    using components_slash [of "''metadata/''" "''dev/'' @ name"] by simp
  then show ?thesis by (simp add: fullpath_components metadata_path_def VDEV_METADATA_PREFIX_def)
qed

lemma put_metadata_stores:
  assumes calm: "\<And>op p. w_fault w op p = 0" and mp: "2 \<le> length mp" "dot_free mp" "dot_free name"
    and st: "st_mountpoint st = mp" "length (conf_instance_str (st_config st)) < 2 ^ 32 - 1"
    and req: "req_renamed_path req = Some name" "name \<noteq> VDEV_DEVICE_PATH_UNKNOWN"
    and mount: "dirs_upto (w_fs w) (path_components mp)"
    and free: "\<And>k. fs_get (w_fs w) (take k (metadata_path mp name)) \<in> {None, Some FDir}"
    and old: "\<And>n. fs_get (w_fs w) (metadata_path mp name @ [VDEV_METADATA_PARAM_INSTANCE]) = Some n \<Longrightarrow> \<exists>d. n = FReg d"
  obtains w' where "vdev_device_put_metadata st req w = Some (0, w')"
    "fs_extends (w_fs w) [metadata_path mp name @ [VDEV_METADATA_PARAM_INSTANCE] \<mapsto>
       FReg (conf_instance_str (st_config st) @ [NL])] (w_fs w')"
proof -
  define base where "base = vdev_fullpath mp (VDEV_METADATA_PREFIX @ ''/dev/'' @ name)"
  let ?mp = "metadata_path mp name"
  let ?b = "conf_instance_str (st_config st) @ [NL]"
  let ?i = VDEV_METADATA_PARAM_INSTANCE
  have mf: "vdev_device_metadata_fullpath mp name = Some base" using mp(1) by (simp add: metadata_fullpath_fits base_def)
  have pc: "path_components base = ?mp" unfolding base_def by (rule metadata_components)
  have df: "dot_free base" using mp(2,3) by (auto simp: dot_free_def pc metadata_path_def)
  have cut: "char_at base (length mp) = SLASH \<or> char_at base (length mp - 1) = SLASH"
    unfolding base_def using mp(1) by (intro fullpath_cut) (auto simp: VDEV_METADATA_PREFIX_def)
  have len: "length mp \<le> length base" by (auto simp: base_def vdev_fullpath_def VDEV_METADATA_PREFIX_def)
  have tk: "take (length mp) base = mp" by (simp add: base_def fullpath_take)
  have ne: "base \<noteq> []" using len mp(1) by auto
  obtain w1 where w1: "vdev_mkdirs base (length mp) w = (0, w1)" "dirs_upto (w_fs w1) ?mp" "mkdirs_frame w w1"
      "\<And>q. fs_get (w_fs w1) q \<noteq> fs_get (w_fs w) q \<Longrightarrow> \<exists>k. q = take k ?mp"
    by (rule mkdirs_creates [of w base "length mp"])
      (use calm df mp(1) cut len mount free in \<open>auto simp: pc tk\<close>)
  then have calm1: "w_fault w1 op p = 0" and ext: "fs_extends (w_fs w) Map.empty (w_fs w1)" for op p
    using calm by (simp_all add: mkdirs_frame_def fs_extends_dirs)
  have res: "resolve (vdev_fullpath base ?i) = ?mp @ [?i]"
    using resolve_append_name [of ?i base] resolve_dot_free [OF df] by (simp add: pc VDEV_METADATA_PARAM_INSTANCE_def)
  have ne2: "vdev_fullpath base ?i \<noteq> []" using ne by (simp add: vdev_fullpath_def)
  have len2: "length ?b < 2 ^ 32" using st(2) by simp
  have "fs_get (w_fs w1) (?mp @ [?i]) = fs_get (w_fs w) (?mp @ [?i])" using w1(4) snoc_not_take by metis
  with old have kind: "\<exists>d. n = FReg d" if "fs_get (w_fs w1) (?mp @ [?i]) = Some n" for n using that by simp
  have kd: "fs_get (w_fs w1) (?mp @ [?i]) \<noteq> Some (FDev m d)" "fs_get (w_fs w1) (?mp @ [?i]) \<noteq> Some FDir" for m d
    using kind by blast+
  have up: "dirs_upto (w_fs w1) (butlast (?mp @ [?i]))" using w1(2) by simp
  obtain w2 where w2: "vdev_write_file (Some (vdev_fullpath base ?i)) (Some ?b) True w1 = (int (length ?b), w2)"
      "\<And>q. fs_get (w_fs w2) q = (if q = ?mp @ [?i] then Some (FReg ?b) else fs_get (w_fs w1) q)"
      "\<And>op p. w_fault w2 op p = 0"
    by (rule write_file_stores [OF calm1 ne2 _ len2, unfolded res, OF _ up kd]) simp_all
  have "fs_extends (w_fs w) (Map.empty ++ [?mp @ [?i] \<mapsto> FReg ?b]) (w_fs w2)"
    by (rule fs_extends_trans [OF ext fs_extends_upd]) (rule w2(2))
  moreover have "vdev_device_put_metadata st req w = Some (0, w2)"
    using req w1(1) w2(1) mf
    by (simp add: vdev_device_put_metadata_def env_path_def st(1) vdev_device_put_metadata_item_def)
  ultimately show thesis by (intro that) simp_all
qed


section \<open>Removing metadata always returns\<close>

text \<open>Names in a directory are not empty, have no slash, and are not \<open>.\<close> or \<open>..\<close>.\<close>

definition file_name :: "cstr \<Rightarrow> bool" where
  "file_name n \<longleftrightarrow> n \<noteq> [] \<and> SLASH \<notin> set n \<and> n \<noteq> ''.'' \<and> n \<noteq> ''..''"

definition fs_wf :: "fs \<Rightarrow> bool" where
  "fs_wf fs \<longleftrightarrow> list_all (\<lambda>e. list_all file_name (fst e)) fs"

lemma fs_depth_le: "e \<in> set fs \<Longrightarrow> length (fst e) \<le> fs_depth fs"
  by (induction fs) (auto simp: fs_depth_def)

lemma fs_wf_subset: "fs_wf fs \<Longrightarrow> set fs' \<subseteq> set fs \<Longrightarrow> fs_wf fs'"
  by (auto simp: fs_wf_def list_all_iff)

lemma fs_get_entry: "fs_get fs p = Some n \<Longrightarrow> p \<noteq> [] \<Longrightarrow> (p, n) \<in> set fs"
  by (auto simp: fs_get_def dest: map_of_SomeD)

lemma fs_children_iff: "c \<in> set (fs_children fs p) \<longleftrightarrow> (\<exists>n. (p @ [c], n) \<in> set fs)"
proof
  assume "c \<in> set (fs_children fs p)"
  then obtain e where e: "e \<in> set fs" "fst e \<noteq> []" "butlast (fst e) = p" "last (fst e) = c"
    by (auto simp: fs_children_def)
  then have "fst e = p @ [c]" by (metis append_butlast_last_id)
  with e(1) show "\<exists>n. (p @ [c], n) \<in> set fs" by (metis prod.collapse)
next
  assume "\<exists>n. (p @ [c], n) \<in> set fs"
  then obtain n where "(p @ [c], n) \<in> set fs" ..
  then have "(p @ [c], n) \<in> set (filter (\<lambda>e. fst e \<noteq> [] \<and> butlast (fst e) = p) fs)" by simp
  then have "last (fst (p @ [c], n)) \<in> (\<lambda>e. last (fst e)) ` set (filter (\<lambda>e. fst e \<noteq> [] \<and> butlast (fst e) = p) fs)"
    by (rule imageI)
  then show "c \<in> set (fs_children fs p)" by (simp add: fs_children_def)
qed

lemma fs_children_get: "c \<in> set (fs_children fs p) \<longleftrightarrow> fs_get fs (p @ [c]) \<noteq> None"
  unfolding fs_children_iff fs_get_def map_of_eq_None_iff if_not_P [OF snoc_eq_iff_butlast [THEN iffD1, THEN conjunct1, OF refl]]
  by force

lemma fs_children_name: "fs_wf fs \<Longrightarrow> c \<in> set (fs_children fs p) \<Longrightarrow> file_name c"
  by (auto simp: fs_wf_def list_all_iff fs_children_iff)

lemma fs_del_subset: "set (fs_del fs p) \<subseteq> set fs"
  by (auto simp: fs_del_def)

lemma basename_fullpath:
  assumes "d \<noteq> []" "n \<noteq> []" "SLASH \<notin> set n"
  shows "vdev_basename (vdev_fullpath d n) = n"
proof -
  obtain a as where n: "n = a # as" "a \<noteq> SLASH" using assms by (cases n) auto
  obtain d' c where d: "d = d' @ [c]" using assms(1) by (cases d rule: rev_cases) auto
  have "vdev_fullpath d n = (if c = SLASH then d' @ SLASH # n else d @ SLASH # n)"
    using n by (simp add: vdev_fullpath_def d)
  with basename_slash [OF assms(3,2)] show ?thesis by simp
qed

lemma scandir_names:
  assumes "sys_scandir d w = Inr ns"
  shows "ns = sort (''.'' # ''..'' # fs_children (w_fs w) (resolve d))" "d \<noteq> []" "fs_get (w_fs w) (resolve d) = Some FDir"
  using assms by (auto simp: sys_scandir_def sys_pre_def split: if_splits)

text \<open>What a removal may do: take away entries at or below a path.\<close>

definition fs_pruned :: "fpath \<Rightarrow> fs \<Rightarrow> fs \<Rightarrow> bool" where
  "fs_pruned p fs fs' \<longleftrightarrow> set fs' \<subseteq> set fs \<and>
     (\<forall>q. fs_get fs' q = fs_get fs q \<or> prefix p q \<and> fs_get fs' q = None)"

lemma fs_pruned_refl [simp]: "fs_pruned p fs fs"
  by (simp add: fs_pruned_def)

lemma fs_pruned_trans: "fs_pruned p a b \<Longrightarrow> fs_pruned p b c \<Longrightarrow> fs_pruned p a c"
  unfolding fs_pruned_def by (metis subset_trans)

lemma fs_pruned_below: "fs_pruned (p @ q) a b \<Longrightarrow> fs_pruned p a b"
  unfolding fs_pruned_def by (metis append_prefixD)

lemma fs_pruned_del: "fs_pruned p fs (fs_del fs p)"
  by (simp add: fs_pruned_def fs_del_subset)

lemma sys_rmdir_pruned: "fs_pruned (resolve p) (w_fs w) (w_fs (snd (sys_rmdir p w)))"
  by (simp add: sys_rmdir_def fs_pruned_del)

lemma sys_unlink_pruned: "fs_pruned (resolve p) (w_fs w) (w_fs (snd (sys_unlink p w)))"
  by (simp add: sys_unlink_def fs_pruned_del)

text \<open>Enough fuel for a path: it is \<open>.\<close> or \<open>..\<close>, or what is below it is not deeper than the fuel.\<close>

definition prune_fuel :: "nat \<Rightarrow> nat \<Rightarrow> cstr \<Rightarrow> bool" where
  "prune_fuel D n fp \<longleftrightarrow> 0 < n \<and> (vdev_basename fp \<in> {''.'', ''..''} \<or> D + 2 \<le> n + length (resolve fp))"

lemma fs_depth_le_iff: "fs_depth fs \<le> D \<longleftrightarrow> (\<forall>e \<in> set fs. length (fst e) \<le> D)"
  by (induction fs) (auto simp: fs_depth_def)

lemma prune_loop:
  assumes step: "\<And>c w. c \<in> set ns \<Longrightarrow> fs_wf (w_fs w) \<Longrightarrow> fs_depth (w_fs w) \<le> D \<Longrightarrow>
      \<exists>rc w'. f (vdev_fullpath d c) (Some w) = (rc, Some w') \<and> fs_pruned p (w_fs w) (w_fs w')"
    and "fs_wf (w_fs (w :: world))" "fs_depth (w_fs w) \<le> D"
  shows "\<exists>rc w'. load_all_loop f d ns (Some w) = (rc, Some w') \<and> fs_pruned p (w_fs w) (w_fs w')"
  using assms
proof (induction ns arbitrary: w)
  case (Cons c ns)
  obtain rc w1 where w1: "f (vdev_fullpath d c) (Some w) = (rc, Some w1)" "fs_pruned p (w_fs w) (w_fs w1)"
    using Cons.prems by (metis list.set_intros(1))
  then have sub: "set (w_fs w1) \<subseteq> set (w_fs w)" by (simp add: fs_pruned_def)
  then have "fs_wf (w_fs w1)" "fs_depth (w_fs w1) \<le> D"
    using Cons.prems fs_wf_subset by (auto simp: fs_depth_le_iff)
  then obtain rc' w2 where "load_all_loop f d ns (Some w1) = (rc', Some w2)" "fs_pruned p (w_fs w1) (w_fs w2)"
    using Cons.IH [of w1] Cons.prems(1) by (metis list.set_intros(2))
  with w1 show ?case using fs_pruned_trans by auto
qed simp

lemma load_all_prunes:
  assumes call: "\<And>fp w. prune_fuel D n fp \<Longrightarrow> fs_wf (w_fs w) \<Longrightarrow> fs_depth (w_fs w) \<le> D \<Longrightarrow>
      \<exists>rc w'. f fp (Some w) = (rc, Some w') \<and> (vdev_basename fp \<in> {''.'', ''..''} \<longrightarrow> w' = w) \<and>
        fs_pruned (resolve fp) (w_fs w) (w_fs w')"
    and "fs_wf (w_fs w)" "fs_depth (w_fs w) \<le> D" "0 < n" "D + 1 \<le> n + length (resolve d)"
  shows "\<exists>rc w'. vdev_load_all (Some d) f w (Some w) = (rc, Some w') \<and> fs_pruned (resolve d) (w_fs w) (w_fs w')"
proof (cases "sys_scandir d w")
  case (Inl e)
  then show ?thesis by (simp add: vdev_load_all_def)
next
  case (Inr ns)
  note ns = scandir_names [OF Inr]
  have "\<exists>rc w'. load_all_loop f d ns (Some w) = (rc, Some w') \<and> fs_pruned (resolve d) (w_fs w) (w_fs w')"
  proof (rule prune_loop [OF _ assms(2,3)])
    fix c and v :: world assume c: "c \<in> set ns" and v: "fs_wf (w_fs v)" "fs_depth (w_fs v) \<le> D"
    let ?fp = "vdev_fullpath d c"
    show "\<exists>rc w'. f ?fp (Some v) = (rc, Some w') \<and> fs_pruned (resolve d) (w_fs v) (w_fs w')"
    proof (cases "c \<in> {''.'', ''..''}")
      case True
      then have "vdev_basename ?fp \<in> {''.'', ''..''}" using basename_fullpath [OF ns(2), of c] by auto
      with call [of ?fp v] v assms(4) show ?thesis by (auto simp: prune_fuel_def)
    next
      case False
      with c ns(1) have "c \<in> set (fs_children (w_fs w) (resolve d))" unfolding ns(1) set_sort by simp
      then have "file_name c" by (rule fs_children_name [OF assms(2)])
      then have "resolve ?fp = resolve d @ [c]" by (intro resolve_append_name) (auto simp: file_name_def)
      with call [of ?fp v] v assms(4,5) show ?thesis using fs_pruned_below by (fastforce simp: prune_fuel_def)
    qed
  qed
  with Inr show ?thesis by (simp add: vdev_load_all_def)
qed

lemma remove_file_returns:
  "prune_fuel D n fp \<Longrightarrow> fs_wf (w_fs w) \<Longrightarrow> fs_depth (w_fs w) \<le> D \<Longrightarrow>
   \<exists>rc w'. vdev_device_remove_metadata_file n fp (Some w) = (rc, Some w') \<and>
     (vdev_basename fp \<in> {''.'', ''..''} \<longrightarrow> w' = w) \<and> fs_pruned (resolve fp) (w_fs w) (w_fs w')"
proof (induction n arbitrary: fp w)
  case 0
  then show ?case by (simp add: prune_fuel_def)
next
  case (Suc n)
  show ?case
  proof (cases "vdev_basename fp \<in> {''.'', ''..''}")
    case True
    then show ?thesis by auto
  next
    case nodot: False
    show ?thesis
    proof (cases "sys_stat fp w = Inr FDir")
      case True
      then have "length (resolve fp) \<le> D"
        using fs_get_entry [OF sys_stat_Inr [OF True]] Suc.prems(3) by (cases "resolve fp = []") (auto simp: fs_depth_le_iff)
      with Suc.prems(1) nodot have "0 < n" "D + 1 \<le> n + length (resolve fp)" by (auto simp: prune_fuel_def)
      from load_all_prunes [OF Suc.IH Suc.prems(2,3) this] obtain rc w1 where
        w1: "vdev_load_all (Some fp) (vdev_device_remove_metadata_file n) w (Some w) = (rc, Some w1)"
          "fs_pruned (resolve fp) (w_fs w) (w_fs w1)" by blast
      then show ?thesis
        using True nodot fs_pruned_trans [OF w1(2) sys_rmdir_pruned] by (auto simp: case_prod_beta)
    next
      case False
      with nodot show ?thesis
        using sys_unlink_pruned [of fp w] by (auto simp: case_prod_beta split: sum.splits fnode.splits)
    qed
  qed
qed

lemma remove_all_prunes:
  assumes "fs_wf (w_fs w)" "fs_depth (w_fs w) \<le> D" "0 < n" "D + 1 \<le> n + length (resolve d)"
  shows "\<exists>rc w'. vdev_load_all (Some d) (vdev_device_remove_metadata_file n) w (Some w) = (rc, Some w') \<and>
    fs_pruned (resolve d) (w_fs w) (w_fs w')"
  by (rule load_all_prunes [OF _ assms]) (rule remove_file_returns)

lemma metadata_resolve:
  assumes "dot_free mp" "dot_free name"
  shows "resolve (vdev_fullpath mp (VDEV_METADATA_PREFIX @ ''/dev/'' @ name)) = metadata_path mp name"
proof -
  have "dot_free (vdev_fullpath mp (VDEV_METADATA_PREFIX @ ''/dev/'' @ name))"
    using assms unfolding dot_free_def metadata_components by (auto simp: metadata_path_def)
  then show ?thesis unfolding metadata_components [symmetric] by (rule resolve_dot_free)
qed

text \<open>
  Finding: metadata is made in the directory of the device's new name (\<^verbatim>\<open>device.c\<close>, line 612), but removed from the directory of the name the kernel
  gave it (line 718). So the name that a rename command chose does not matter here, and the metadata of a renamed device stays.
\<close>

lemma remove_metadata_ignores_rename:
  "vdev_device_remove_metadata st (req\<lparr>req_renamed_path := new\<rparr>) w = vdev_device_remove_metadata st req w"
  by (simp add: vdev_device_remove_metadata_def)

text \<open>The directories of two names, neither of which lies in the other.\<close>

definition elsewhere :: "cstr \<Rightarrow> cstr \<Rightarrow> bool" where
  "elsewhere name new \<longleftrightarrow> \<not> prefix (path_components name) (path_components new) \<and> \<not> prefix (path_components new) (path_components name)"

lemma elsewhere_metadata: "elsewhere name new \<Longrightarrow> \<not> prefix (metadata_path mp name) (metadata_path mp new @ q)"
  using prefix_same_cases [of "path_components name" "path_components new @ q" "path_components new"]
  by (auto simp: elsewhere_def metadata_path_def)

text \<open>
  C8: Removing metadata is total and confined. Whatever system calls fail, the recursive removal
  returns (the depth of the tree is enough fuel), and it takes away only files and directories
  that lie in the metadata directory of the name the kernel gave the device (\<open>req->path\<close>); everything else in the file system is as before. In
  particular, the metadata directory of another name, such as that of a renamed device, is untouched.
\<close>

theorem remove_metadata_returns:
  assumes "fs_wf (w_fs w)" "dot_free (st_mountpoint st)" "req_path req = Some name" "dot_free name" "length name \<le> 4000"
  shows "\<exists>rc w'. vdev_device_remove_metadata st req w = Some (rc, w') \<and>
    fs_pruned (metadata_path (st_mountpoint st) name) (w_fs w) (w_fs w') \<and>
    (\<forall>new q. elsewhere name new \<longrightarrow>
       fs_get (w_fs w') (metadata_path (st_mountpoint st) new @ q) = fs_get (w_fs w) (metadata_path (st_mountpoint st) new @ q))"
proof -
  let ?base = "vdev_fullpath (st_mountpoint st) (VDEV_METADATA_PREFIX @ ''/dev/'' @ name)"
  let ?D = "fs_depth (w_fs w)"
  note res = metadata_resolve [OF assms(2,4)]
  obtain rc w1 where w1: "vdev_load_all (Some ?base) (vdev_device_remove_metadata_file (Suc ?D)) w (Some w) = (rc, Some w1)"
      "fs_pruned (resolve ?base) (w_fs w) (w_fs w1)"
    using remove_all_prunes [OF assms(1) order_refl, of "Suc ?D" ?base] by auto
  have "vdev_device_remove_metadata st req w = Some (- fst (sys_rmdir ?base w1), snd (sys_rmdir ?base w1))"
    using w1(1) assms(3,5) unfolding vdev_device_remove_metadata_def
    by (simp add: case_prod_beta Let_def VDEV_METADATA_PREFIX_def)
  moreover have "fs_pruned (metadata_path (st_mountpoint st) name) (w_fs w) (w_fs (snd (sys_rmdir ?base w1)))"
    using fs_pruned_trans [OF w1(2) sys_rmdir_pruned] unfolding res .
  ultimately show ?thesis using elsewhere_metadata [of name] by (auto simp: fs_pruned_def)
qed

section \<open>Success\<close>

definition fs_closed :: "fs \<Rightarrow> bool" where
  "fs_closed fs \<longleftrightarrow> list_all (\<lambda>e. fst e \<noteq> [] \<and> fs_get fs (butlast (fst e)) = Some FDir) fs"

lemma fs_closedD: "fs_closed fs \<Longrightarrow> fs_get fs (q @ [c]) \<noteq> None \<Longrightarrow> fs_get fs q = Some FDir"
  by (auto simp: fs_closed_def list_all_iff dest!: fs_get_entry) (metis butlast_snoc fst_conv)

lemma fs_closed_prefix: "fs_closed fs \<Longrightarrow> fs_get fs (p @ q) \<noteq> None \<Longrightarrow> fs_get fs p \<noteq> None"
proof (induction q rule: rev_induct)
  case (snoc c q)
  then show ?case using fs_closedD [of fs "p @ q" c] by auto
qed simp

lemma dirs_upto_Nil [simp]: "dirs_upto fs []"
  by (simp add: dirs_upto_def)

lemma fs_closed_dirs: "fs_closed fs \<Longrightarrow> fs_get fs p \<noteq> None \<Longrightarrow> dirs_upto fs (butlast p)"
proof (induction p rule: rev_induct)
  case (snoc c p)
  then have "fs_get fs p = Some FDir" using fs_closedD by blast
  with snoc have "dirs_upto fs p" by (cases p rule: rev_cases) (auto simp: dirs_upto_snoc)
  then show ?case by simp
qed (simp add: dirs_upto_def)

text \<open>Exactly what is at or below a path is gone.\<close>

definition fs_without :: "fpath \<Rightarrow> fs \<Rightarrow> fs \<Rightarrow> bool" where
  "fs_without p fs fs' \<longleftrightarrow> set fs' \<subseteq> set fs \<and> (\<forall>q. fs_get fs' q = (if prefix p q then None else fs_get fs q))"

definition prunable :: "nat \<Rightarrow> world \<Rightarrow> bool" where
  "prunable D w \<longleftrightarrow> (\<forall>op p. w_fault w op p = 0) \<and> fs_wf (w_fs w) \<and> fs_closed (w_fs w) \<and> fs_depth (w_fs w) \<le> D"

lemma prunable_subset:
  assumes "prunable D w" "set (w_fs w') \<subseteq> set (w_fs w)" "w_fault w' = w_fault w"
    and P: "\<And>q. fs_get (w_fs w') q = (if P q then None else fs_get (w_fs w) q)" "\<And>q c. P q \<Longrightarrow> P (q @ [c])"
  shows "prunable D w'"
proof -
  have "fst e \<noteq> [] \<and> fs_get (w_fs w') (butlast (fst e)) = Some FDir" if e: "e \<in> set (w_fs w')" for e
  proof -
    from e assms(1,2) have "e \<in> set (w_fs w)" "fs_closed (w_fs w)" by (auto simp: prunable_def)
    then have ne: "fst e \<noteq> []" "fs_get (w_fs w) (butlast (fst e)) = Some FDir" by (auto simp: fs_closed_def list_all_iff)
    obtain p c where pc: "fst e = p @ [c]" using ne(1) by (metis append_butlast_last_id)
    with e have "fs_get (w_fs w') (p @ [c]) \<noteq> None" by (metis fs_children_get fs_children_iff prod.collapse)
    with P have "\<not> P p" by metis
    with ne pc P(1) show ?thesis by simp
  qed
  with assms(1-3) show ?thesis
    using fs_wf_subset [OF _ assms(2)] by (auto simp: prunable_def fs_closed_def list_all_iff fs_depth_le_iff)
qed

lemma prunable_without:
  "prunable D w \<Longrightarrow> fs_without p (w_fs w) (w_fs w') \<Longrightarrow> w_fault w' = w_fault w \<Longrightarrow> prunable D w'"
  by (rule prunable_subset [where P = "prefix p"]) (auto simp: fs_without_def intro: prefix_prefix)

text \<open>The names of a directory, removed one after the other.\<close>

lemma remove_names_loop:
  assumes call: "\<And>c w. c \<in> set ns \<Longrightarrow> prunable D w \<Longrightarrow> c \<notin> dots \<Longrightarrow> fs_get (w_fs w) (p @ [c]) \<noteq> None \<Longrightarrow>
      \<exists>w'. f (vdev_fullpath d c) (Some w) = (0, Some w') \<and> fs_without (p @ [c]) (w_fs w) (w_fs w') \<and> w_fault w' = w_fault w"
    and skip: "\<And>c w. c \<in> dots \<Longrightarrow> f (vdev_fullpath d c) (Some w) = (0, Some w)"
    and "prunable D w" "distinct ns" "\<And>c. c \<in> set ns \<Longrightarrow> c \<notin> dots \<Longrightarrow> fs_get (w_fs w) (p @ [c]) \<noteq> None"
  shows "\<exists>w'. load_all_loop f d ns (Some w) = (0, Some w') \<and> prunable D w' \<and> set (w_fs w') \<subseteq> set (w_fs w) \<and>
    w_fault w' = w_fault w \<and>
    (\<forall>q. fs_get (w_fs w') q = (if \<exists>c \<in> set ns - dots. prefix (p @ [c]) q then None else fs_get (w_fs w) q))"
  using assms
proof (induction ns arbitrary: w)
  case (Cons c ns)
  show ?case
  proof (cases "c \<in> dots")
    case True
    with Cons.prems(2) have f: "f (vdev_fullpath d c) (Some w) = (0, Some w)" by blast
    have "insert c (set ns) - dots = set ns - dots" using True by blast
    with f Cons.IH [of w] Cons.prems show ?thesis by simp
  next
    case False
    obtain w1 where w1: "f (vdev_fullpath d c) (Some w) = (0, Some w1)" "fs_without (p @ [c]) (w_fs w) (w_fs w1)"
        "w_fault w1 = w_fault w"
      using Cons.prems(1) [of c w] Cons.prems(3,5) False by auto
    have p1: "prunable D w1" using prunable_without [OF Cons.prems(3) w1(2,3)] .
    have "fs_get (w_fs w1) (p @ [b]) \<noteq> None" if "b \<in> set ns" "b \<notin> dots" for b
      using that Cons.prems(4,5) w1(2) by (auto simp: fs_without_def)
    then obtain w2 where w2: "load_all_loop f d ns (Some w1) = (0, Some w2)" "prunable D w2"
        "set (w_fs w2) \<subseteq> set (w_fs w1)" "w_fault w2 = w_fault w1"
        "\<forall>q. fs_get (w_fs w2) q = (if \<exists>c \<in> set ns - dots. prefix (p @ [c]) q then None else fs_get (w_fs w1) q)"
      using Cons.IH [OF _ _ p1] Cons.prems by auto
    with w1 False show ?thesis
      by (intro exI [of _ w2]) (auto simp: fs_without_def)
  qed
qed simp


lemma closed_lookup: "fs_closed fs \<Longrightarrow> fs_get fs p \<noteq> None \<Longrightarrow> lookup_errno fs p = 0"
  by (simp add: lookup_errno_def dirs_upto_parent_errno fs_closed_dirs)

lemma rmdir_empty:
  assumes "prunable D w" "p \<noteq> []" "resolve p \<noteq> []" "fs_get (w_fs w) (resolve p) = Some FDir"
    and "\<And>c. fs_get (w_fs w) (resolve p @ [c]) = None"
  shows "\<exists>w'. sys_rmdir p w = (0, w') \<and> set (w_fs w') \<subseteq> set (w_fs w) \<and> w_fault w' = w_fault w \<and>
    (\<forall>q. fs_get (w_fs w') q = (if q = resolve p then None else fs_get (w_fs w) q))"
proof -
  have "fs_children (w_fs w) (resolve p) = []"
    using fs_children_get assms(5) by (metis all_not_in_conv set_empty)
  then show ?thesis using assms closed_lookup [of "w_fs w" "resolve p"] fs_del_subset
    by (auto simp: sys_rmdir_def sys_pre_def prunable_def)
qed

lemma unlink_node:
  assumes "prunable D w" "p \<noteq> []" "fs_get (w_fs w) (resolve p) = Some n" "n \<noteq> FDir"
  shows "\<exists>w'. sys_unlink p w = (0, w') \<and> w_fault w' = w_fault w \<and> fs_without (resolve p) (w_fs w) (w_fs w')"
proof -
  have "resolve p \<noteq> []" using assms(3,4) by auto
  moreover have "fs_get (w_fs w) q = None" if "strict_prefix (resolve p) q" for q
    using that
  proof (induction q rule: rev_induct)
    case (snoc c q)
    then have "resolve p = q \<or> strict_prefix (resolve p) q" by (auto simp: strict_prefix_def)
    then have "fs_get (w_fs w) q \<noteq> Some FDir" using snoc.IH assms(3,4) by auto
    with assms(1) fs_closedD [of "w_fs w" q c] show ?case unfolding prunable_def by blast
  qed simp
  ultimately have "fs_without (resolve p) (w_fs w) (fs_del (w_fs w) (resolve p))"
    by (auto simp: fs_without_def strict_prefix_def fs_del_subset)
  then show ?thesis using assms closed_lookup [of "w_fs w" "resolve p"]
    by (auto simp: sys_unlink_def sys_pre_def prunable_def)
qed

lemma remove_children:
  assumes call: "\<And>fp w. prunable D w \<Longrightarrow> fp \<noteq> [] \<Longrightarrow> vdev_basename fp \<notin> {''.'', ''..''} \<Longrightarrow> resolve fp \<noteq> [] \<Longrightarrow>
      fs_get (w_fs w) (resolve fp) \<noteq> None \<Longrightarrow> D + 2 \<le> n + length (resolve fp) \<Longrightarrow>
      \<exists>w'. f fp (Some w) = (0, Some w') \<and> fs_without (resolve fp) (w_fs w) (w_fs w') \<and> w_fault w' = w_fault w"
    and skip: "\<And>fp w. vdev_basename fp \<in> {''.'', ''..''} \<Longrightarrow> f fp (Some w) = (0, Some w)"
    and w: "prunable D w" "d \<noteq> []" "fs_get (w_fs w) (resolve d) = Some FDir" "D + 1 \<le> n + length (resolve d)"
  shows "\<exists>w'. vdev_load_all (Some d) f w (Some w) = (0, Some w') \<and> prunable D w' \<and> set (w_fs w') \<subseteq> set (w_fs w) \<and>
    w_fault w' = w_fault w \<and>
    (\<forall>q. fs_get (w_fs w') q = (if strict_prefix (resolve d) q then None else fs_get (w_fs w) q))"
proof -
  let ?p = "resolve d" and ?dots = "{''.'', ''..''}"
  define ns where "ns = sort (''.'' # ''..'' # fs_children (w_fs w) ?p)"
  have sd: "sys_scandir d w = Inr ns"
    using w closed_lookup [of "w_fs w" ?p] by (simp add: sys_scandir_def sys_pre_def prunable_def ns_def)
  have names: "set ns = ?dots \<union> set (fs_children (w_fs w) ?p)" unfolding ns_def set_sort by auto
  have fn: "file_name c" if "c \<in> set ns" "c \<notin> ?dots" for c
    using that names fs_children_name w(1) by (auto simp: prunable_def)
  have "''.'' \<notin> set (fs_children (w_fs w) ?p)" "''..'' \<notin> set (fs_children (w_fs w) ?p)"
    using fs_children_name [of "w_fs w"] w(1) by (auto simp: prunable_def file_name_def)
  then have dist: "distinct ns" unfolding ns_def distinct_sort by (simp add: fs_children_def)
  obtain w' where w': "load_all_loop f d ns (Some w) = (0, Some w')" "prunable D w'" "set (w_fs w') \<subseteq> set (w_fs w)"
      "w_fault w' = w_fault w"
      "\<forall>q. fs_get (w_fs w') q = (if \<exists>c \<in> set ns - ?dots. prefix (?p @ [c]) q then None else fs_get (w_fs w) q)"
  proof -
    have "\<exists>w'. load_all_loop f d ns (Some w) = (0, Some w') \<and> prunable D w' \<and> set (w_fs w') \<subseteq> set (w_fs w) \<and>
      w_fault w' = w_fault w \<and>
      (\<forall>q. fs_get (w_fs w') q = (if \<exists>c \<in> set ns - ?dots. prefix (?p @ [c]) q then None else fs_get (w_fs w) q))"
    proof (rule remove_names_loop [OF _ _ w(1) dist])
      fix c and v :: world assume c: "c \<in> set ns" "prunable D v" "c \<notin> ?dots" "fs_get (w_fs v) (?p @ [c]) \<noteq> None"
      have "resolve (vdev_fullpath d c) = ?p @ [c]" "vdev_basename (vdev_fullpath d c) = c"
        using fn [OF c(1,3)] w(2) by (auto simp: file_name_def resolve_append_name basename_fullpath)
      with call [of v "vdev_fullpath d c"] c w(2,4)
      show "\<exists>w'. f (vdev_fullpath d c) (Some v) = (0, Some w') \<and> fs_without (?p @ [c]) (w_fs v) (w_fs w') \<and> w_fault w' = w_fault v"
        by (auto simp: vdev_fullpath_def)
    next
      fix c and v :: world assume "c \<in> ?dots"
      then show "f (vdev_fullpath d c) (Some v) = (0, Some v)"
        using basename_fullpath [OF w(2), of c] by (intro skip) auto
    next
      fix c assume "c \<in> set ns" "c \<notin> ?dots"
      then show "fs_get (w_fs w) (?p @ [c]) \<noteq> None" using names fs_children_get by auto
    qed
    then show thesis using that by blast
  qed
  have "(if \<exists>c \<in> set ns - ?dots. prefix (?p @ [c]) q then None else fs_get (w_fs w) q) =
      (if strict_prefix ?p q then None else fs_get (w_fs w) q)" for q
  proof (cases "strict_prefix ?p q")
    case False
    then have "\<not> prefix (?p @ [c]) q" for c by (metis append_prefixD prefix_snoc strict_prefixI' strict_prefix_def prefix_order.dual_order.strict_trans2 prefix_order.less_irrefl)
    with False show ?thesis by simp
  next
    case True
    then obtain c r where q: "q = ?p @ c # r" by (auto elim: strict_prefixE')
    show ?thesis
    proof (cases "fs_get (w_fs w) q")
      case None
      with True show ?thesis by simp
    next
      case (Some n)
      then have "fs_get (w_fs w) (?p @ [c]) \<noteq> None"
        using fs_closed_prefix [of "w_fs w" "?p @ [c]" r] w(1) q by (simp add: prunable_def)
      then have "c \<in> set (fs_children (w_fs w) ?p)" by (simp only: fs_children_get not_False_eq_True)
      with names \<open>''.'' \<notin> _\<close> \<open>''..'' \<notin> _\<close> have "c \<in> set ns - ?dots" by auto
      moreover have "prefix (?p @ [c]) q" by (simp add: q)
      ultimately show ?thesis using True by auto
    qed
  qed
  with w' sd show ?thesis by (auto simp: vdev_load_all_def)
qed


lemma prunable_length: "prunable D w \<Longrightarrow> fs_get (w_fs w) p \<noteq> None \<Longrightarrow> length p \<le> D"
  using fs_get_entry [of "w_fs w" p] by (cases "p = []") (fastforce simp: prunable_def fs_depth_le_iff)+

lemma remove_file_succeeds:
  "prunable D w \<Longrightarrow> fp \<noteq> [] \<Longrightarrow> vdev_basename fp \<notin> {''.'', ''..''} \<Longrightarrow> resolve fp \<noteq> [] \<Longrightarrow>
   fs_get (w_fs w) (resolve fp) \<noteq> None \<Longrightarrow> D + 2 \<le> n + length (resolve fp) \<Longrightarrow>
   \<exists>w'. vdev_device_remove_metadata_file n fp (Some w) = (0, Some w') \<and>
     fs_without (resolve fp) (w_fs w) (w_fs w') \<and> w_fault w' = w_fault w"
proof (induction n arbitrary: fp w)
  case (0 fp w)
  then have "length (resolve fp) \<le> D" by (intro prunable_length) auto
  with 0 show ?case by simp
next
  case (Suc n fp w)
  then obtain nd where nd: "fs_get (w_fs w) (resolve fp) = Some nd" by blast
  then have len: "length (resolve fp) \<le> D" using Suc.prems(1) by (intro prunable_length) auto
  have st: "sys_stat fp w = Inr nd"
    using nd Suc.prems(1,2) closed_lookup [of "w_fs w" "resolve fp"] by (simp add: sys_stat_def sys_pre_def prunable_def)
  show ?case
  proof (cases "nd = FDir")
    case False
    then show ?thesis
      using unlink_node [OF Suc.prems(1,2) nd] st Suc.prems(3) by (auto split: fnode.splits)
  next
    case True
    have pos: "0 < n" using Suc.prems(6) len by simp
    then have skip: "vdev_device_remove_metadata_file n f (Some v) = (0, Some v)" if "vdev_basename f \<in> {''.'', ''..''}" for f v
      using that by (cases n) auto
    obtain w1 where w1: "vdev_load_all (Some fp) (vdev_device_remove_metadata_file n) w (Some w) = (0, Some w1)" "prunable D w1"
        "set (w_fs w1) \<subseteq> set (w_fs w)" "w_fault w1 = w_fault w"
        "\<forall>q. fs_get (w_fs w1) q = (if strict_prefix (resolve fp) q then None else fs_get (w_fs w) q)"
      using remove_children [where f = "vdev_device_remove_metadata_file n" and n = n, OF Suc.IH skip Suc.prems(1,2)] nd True Suc.prems(6) by auto
    obtain w2 where "sys_rmdir fp w1 = (0, w2)" "set (w_fs w2) \<subseteq> set (w_fs w1)" "w_fault w2 = w_fault w1"
        "\<forall>q. fs_get (w_fs w2) q = (if q = resolve fp then None else fs_get (w_fs w1) q)"
      using rmdir_empty [OF w1(2) Suc.prems(2,4)] w1(5) nd True by (auto simp: strict_prefix_def)
    with w1 st True Suc.prems(3) show ?thesis
      by (auto simp: fs_without_def strict_prefix_def)
  qed
qed

lemma remove_all_succeeds:
  assumes "0 < n" "prunable D w" "d \<noteq> []" "fs_get (w_fs w) (resolve d) = Some FDir" "D + 1 \<le> n + length (resolve d)"
  shows "\<exists>w'. vdev_load_all (Some d) (vdev_device_remove_metadata_file n) w (Some w) = (0, Some w') \<and>
    prunable D w' \<and> set (w_fs w') \<subseteq> set (w_fs w) \<and> w_fault w' = w_fault w \<and>
    (\<forall>q. fs_get (w_fs w') q = (if strict_prefix (resolve d) q then None else fs_get (w_fs w) q))"
proof (rule remove_children [OF _ _ assms(2-)])
  show "vdev_device_remove_metadata_file n fp (Some v) = (0, Some v)" if "vdev_basename fp \<in> {''.'', ''..''}" for fp v
    using that assms(1) by (cases n) auto
qed (rule remove_file_succeeds)

text \<open>
  C9: When no system call fails and the device has a metadata directory under the name the kernel gave it (\<open>req->path\<close>), the removal
  succeeds and removes exactly this directory with everything below it, on any well-formed file system tree; the metadata directory
  of another name, such as that of a renamed device, is left as it is.
\<close>

theorem remove_metadata_succeeds:
  assumes "prunable (fs_depth (w_fs w)) w" "dot_free (st_mountpoint st)"
    and "req_path req = Some name" "dot_free name" "length name \<le> 4000"
    and "fs_get (w_fs w) (metadata_path (st_mountpoint st) name) = Some FDir"
  shows "\<exists>w'. vdev_device_remove_metadata st req w = Some (0, w') \<and>
    fs_without (metadata_path (st_mountpoint st) name) (w_fs w) (w_fs w') \<and>
    (\<forall>new q. elsewhere name new \<longrightarrow>
       fs_get (w_fs w') (metadata_path (st_mountpoint st) new @ q) = fs_get (w_fs w) (metadata_path (st_mountpoint st) new @ q))"
proof -
  let ?base = "vdev_fullpath (st_mountpoint st) (VDEV_METADATA_PREFIX @ ''/dev/'' @ name)"
  let ?D = "fs_depth (w_fs w)"
  note res = metadata_resolve [OF assms(2,4)]
  have ne: "?base \<noteq> []" by (simp add: vdev_fullpath_def VDEV_METADATA_PREFIX_def)
  have rne: "resolve ?base \<noteq> []" unfolding res by (simp add: metadata_path_def)
  have dir: "fs_get (w_fs w) (resolve ?base) = Some FDir" unfolding res by (rule assms(6))
  obtain w1 where w1: "vdev_load_all (Some ?base) (vdev_device_remove_metadata_file (Suc ?D)) w (Some w) = (0, Some w1)"
      "prunable ?D w1" "set (w_fs w1) \<subseteq> set (w_fs w)"
      "\<forall>q. fs_get (w_fs w1) q = (if strict_prefix (resolve ?base) q then None else fs_get (w_fs w) q)"
    using remove_all_succeeds [OF _ assms(1) ne dir, of "Suc ?D"] by auto
  obtain w2 where w2: "sys_rmdir ?base w1 = (0, w2)" "set (w_fs w2) \<subseteq> set (w_fs w1)"
      "\<forall>q. fs_get (w_fs w2) q = (if q = resolve ?base then None else fs_get (w_fs w1) q)"
    using rmdir_empty [OF w1(2) ne rne] w1(4) dir by (auto simp: strict_prefix_def)
  have "vdev_device_remove_metadata st req w = Some (0, w2)"
    using w1(1) w2(1) assms(3,5) unfolding vdev_device_remove_metadata_def
    by (simp add: Let_def VDEV_METADATA_PREFIX_def)
  moreover have "fs_without (metadata_path (st_mountpoint st) name) (w_fs w) (w_fs w2)"
    using w1 w2 unfolding res by (auto simp: fs_without_def strict_prefix_def)
  ultimately show ?thesis using elsewhere_metadata [of name] by (auto simp: fs_without_def)
qed

section \<open>An example\<close>

definition metadata_witness_world :: world where
  "metadata_witness_world = calm_world\<lparr>w_fs :=
     [([''dev''], FDir), ([''dev'', ''metadata''], FDir), ([''dev'', ''metadata'', ''dev''], FDir),
      ([''dev'', ''metadata'', ''dev'', ''sda''], FDir),
      ([''dev'', ''metadata'', ''dev'', ''sda'', ''vdev_instance''], FReg ''x''),
      ([''dev'', ''metadata'', ''dev'', ''disk''], FDir),
      ([''dev'', ''sda''], FDev S_IFBLK 0x800)]\<rparr>"

lemma witness_paths:
  "dot_free ''/dev''" "dot_free ''sda''" "path_components ''dev'' = [''dev'']" "path_components ''sda'' = [''sda'']"
  by (simp_all add: dot_free_def path_components_def)

lemma metadata_witness_tree: "prunable 5 metadata_witness_world" "fs_depth (w_fs metadata_witness_world) = 5"
  by (simp_all add: prunable_def metadata_witness_world_def calm_world_def fs_wf_def file_name_def fs_closed_def fs_get_def fs_depth_def)

lemma witness_state_request:
  "st_mountpoint env_witness_state = ''/dev''" "req_path env_witness_request = Some ''sda''" "req_renamed_path env_witness_request = None"
  "req_dev env_witness_request = 0x800" "req_mode env_witness_request = S_IFBLK" "req_exists env_witness_request = False"
  by (simp_all add: env_witness_state_def env_witness_request_def vdev_device_request_add_param_def
      vdev_device_request_init_def case_prod_beta)

lemma elsewhere_witness: "elsewhere ''sda'' ''disk''" "path_components ''disk'' = [''disk'']"
  by (simp_all add: elsewhere_def path_components_def)

theorem remove_metadata_returns_witness:
  "fs_wf (w_fs metadata_witness_world) \<and>
   (\<exists>rc w'. vdev_device_remove_metadata env_witness_state env_witness_request metadata_witness_world = Some (rc, w') \<and>
     fs_pruned [''dev'', ''metadata'', ''dev'', ''sda''] (w_fs metadata_witness_world) (w_fs w'))"
proof -
  have "fs_wf (w_fs metadata_witness_world)" using metadata_witness_tree(1) by (simp add: prunable_def)
  with remove_metadata_returns [of metadata_witness_world env_witness_state env_witness_request "''sda''"] show ?thesis
    by (auto simp: witness_paths witness_state_request metadata_path_def)
qed

text \<open>The device has been renamed to \<open>disk\<close>: what goes is the directory for \<open>sda\<close>.\<close>

theorem remove_metadata_succeeds_witness:
  "\<exists>w'. vdev_device_remove_metadata env_witness_state (env_witness_request\<lparr>req_renamed_path := Some ''disk''\<rparr>) metadata_witness_world = Some (0, w') \<and>
     fs_without [''dev'', ''metadata'', ''dev'', ''sda''] (w_fs metadata_witness_world) (w_fs w') \<and>
     fs_get (w_fs w') [''dev'', ''metadata'', ''dev'', ''disk''] = Some FDir"
proof -
  let ?req = "env_witness_request\<lparr>req_renamed_path := Some ''disk''\<rparr>"
  have dir: "fs_get (w_fs metadata_witness_world) [''dev'', ''metadata'', ''dev'', ''sda''] = Some FDir"
    "fs_get (w_fs metadata_witness_world) [''dev'', ''metadata'', ''dev'', ''disk''] = Some FDir"
    by (simp_all add: metadata_witness_world_def fs_get_def)
  have paths: "metadata_path ''/dev'' ''sda'' = [''dev'', ''metadata'', ''dev'', ''sda'']" "metadata_path ''/dev'' ''disk'' = [''dev'', ''metadata'', ''dev'', ''disk'']"
    using elsewhere_witness(2) by (simp_all add: metadata_path_def witness_paths)
  obtain w' where w': "vdev_device_remove_metadata env_witness_state ?req metadata_witness_world = Some (0, w')"
    "fs_without (metadata_path ''/dev'' ''sda'') (w_fs metadata_witness_world) (w_fs w')"
    "fs_get (w_fs w') (metadata_path ''/dev'' ''disk'' @ []) = fs_get (w_fs metadata_witness_world) (metadata_path ''/dev'' ''disk'' @ [])"
    using remove_metadata_succeeds [of metadata_witness_world env_witness_state ?req "''sda''"] dir(1) metadata_witness_tree elsewhere_witness(1)
    by (auto simp: witness_paths witness_state_request paths)
  with dir(2) show ?thesis by (auto simp: paths)
qed

end
