(* ===== verification/Vdevd_Workqueue.thy ===== *)
theory Vdevd_Workqueue
  imports Vdev_Prelude
begin

text \<open>
  \<^verbatim>\<open>vdevd/workqueue.c\<close>: the queue through which all device requests go, and its worker thread.

  The linked list of work items is modelled in a store of nodes with \<open>work\<close> and \<open>tail\<close> pointers;
  the locale \<open>worklist\<close> is the contract of the list operations (append, take everything, run
  the next item), interpreted on them. The threads are a step relation: the worker is a
  program counter over the lines of \<open>vdev_wq_main\<close>, whose wait a signal may interrupt, the other threads add items (append under
  the lock, then post the semaphore), wait for the queue to be empty, and stop it. Semaphores
  count without bound. \<open>wq_added\<close> and \<open>wq_done\<close> record the history.

  Shown: work is run in the order it was added, nothing twice; an item that is in the queue has
  a wake-up on its way, so the worker does not sleep on work; the worker on its own runs
  everything that was added; and \<open>vdev_wq_stop\<close> with \<open>wait\<close> can block for ever.
\<close>

section \<open>The linked list of work items\<close>

record 'a wreq =
  wreq_work :: 'a
  wreq_next :: "nat option"

record 'a wq_list =
  wl_store :: "nat \<Rightarrow> 'a wreq option"
  wl_work :: "nat option"
  wl_tail :: "nat option"
  wl_itr :: "nat option"       \<comment> \<open>\<open>work_itr\<close>, the worker's own pointer\<close>
  wl_fresh :: nat              \<comment> \<open>the next address the allocator hands out\<close>

definition wl_init :: "'a wq_list" where
  "wl_init = \<lparr>wl_store = Map.empty, wl_work = None, wl_tail = None, wl_itr = None, wl_fresh = 0\<rparr>"

text \<open>The critical section of \<open>vdev_wq_add\<close>.\<close>

definition wl_link :: "'a \<Rightarrow> 'a wq_list \<Rightarrow> 'a wq_list" where
  "wl_link x m =
     (let next = wl_fresh m;
          store = (wl_store m)(next \<mapsto> \<lparr>wreq_work = x, wreq_next = None\<rparr>)
      in if wl_work m = None
         then m\<lparr>wl_store := store, wl_work := Some next, wl_tail := Some next, wl_fresh := Suc next\<rparr>
         else (case wl_tail m of
                 Some t \<Rightarrow>
                   m\<lparr>wl_store := store(t := map_option (\<lambda>n. n\<lparr>wreq_next := Some next\<rparr>) (store t)),
                     wl_tail := Some next, wl_fresh := Suc next\<rparr>
               | None \<Rightarrow> m))"

text \<open>The critical section of the worker: it takes the whole list.\<close>

definition wl_take :: "'a wq_list \<Rightarrow> 'a wq_list" where
  "wl_take m = m\<lparr>wl_itr := wl_work m, wl_work := None, wl_tail := None\<rparr>"

text \<open>One turn of the worker's inner loop: the item it runs; its node is freed.\<close>

definition wl_pop :: "'a wq_list \<Rightarrow> ('a \<times> 'a wq_list) option" where
  "wl_pop m =
     (case wl_itr m of
        None \<Rightarrow> None
      | Some p \<Rightarrow>
          (case wl_store m p of
             None \<Rightarrow> None
           | Some n \<Rightarrow> Some (wreq_work n, m\<lparr>wl_store := (wl_store m)(p := None), wl_itr := wreq_next n\<rparr>)))"

text \<open>\<open>vdev_wq_queue_free\<close>: the nodes from a pointer on, freed one by one (fuel: the addresses handed out).\<close>

fun wl_free :: "nat \<Rightarrow> nat option \<Rightarrow> (nat \<Rightarrow> 'a wreq option) \<Rightarrow> nat \<Rightarrow> 'a wreq option" where
  "wl_free fuel None store = store"
| "wl_free 0 (Some p) store = store"
| "wl_free (Suc fuel) (Some p) store =
     (case store p of None \<Rightarrow> store | Some n \<Rightarrow> wl_free fuel (wreq_next n) (store(p := None)))"

section \<open>The contract of the list\<close>

locale worklist =
  fixes init :: 'm
    and link :: "'a \<Rightarrow> 'm \<Rightarrow> 'm"
    and take :: "'m \<Rightarrow> 'm"
    and pop :: "'m \<Rightarrow> ('a \<times> 'm) option"
    and repr :: "'m \<Rightarrow> 'a list \<Rightarrow> 'a list \<Rightarrow> bool"   \<comment> \<open>taken items, waiting items\<close>
  assumes repr_init: "repr init [] []"
    and repr_link: "repr m ys xs \<Longrightarrow> repr (link x m) ys (xs @ [x])"
    and repr_take: "repr m [] xs \<Longrightarrow> repr (take m) xs []"
    and repr_pop: "repr m (y # ys) xs \<Longrightarrow> \<exists>m'. pop m = Some (y, m') \<and> repr m' ys xs"
    and repr_pop_empty: "repr m [] xs \<Longrightarrow> pop m = None"
begin

lemma repr_link_all: "repr m ys xs \<Longrightarrow> repr (fold link zs m) ys (xs @ zs)"
proof (induction zs arbitrary: m xs)
  case (Cons z zs)
  from Cons.IH [OF repr_link [OF Cons.prems, of z]] show ?case by simp
qed simp

lemma pop_None_iff: "repr m ys xs \<Longrightarrow> pop m = None \<longleftrightarrow> ys = []"
  using repr_pop repr_pop_empty by (cases ys) fastforce+

lemma pop_Some: "repr m ys xs \<Longrightarrow> pop m = Some (y, m') \<Longrightarrow> \<exists>ys'. ys = y # ys' \<and> repr m' ys' xs"
  using repr_pop repr_pop_empty by (cases ys) fastforce+

end

text \<open>The representation: two disjoint chains in the store.\<close>

fun chain :: "(nat \<Rightarrow> 'a wreq option) \<Rightarrow> nat option \<Rightarrow> nat list \<Rightarrow> 'a list \<Rightarrow> bool" where
  "chain s p [] xs \<longleftrightarrow> p = None \<and> xs = []"
| "chain s p (a # as) xs \<longleftrightarrow>
     (case s a of
        None \<Rightarrow> False
      | Some n \<Rightarrow> p = Some a \<and> xs \<noteq> [] \<and> hd xs = wreq_work n \<and> chain s (wreq_next n) as (tl xs))"

definition wl_repr :: "'a wq_list \<Rightarrow> 'a list \<Rightarrow> 'a list \<Rightarrow> bool" where
  "wl_repr m ys xs \<longleftrightarrow>
     (\<exists>bs as. chain (wl_store m) (wl_itr m) bs ys \<and> chain (wl_store m) (wl_work m) as xs \<and>
        distinct (bs @ as) \<and> (\<forall>a \<in> set (bs @ as). a < wl_fresh m) \<and>
        wl_tail m = (if as = [] then None else Some (last as)))"

lemma chain_frame: "chain s p as xs \<Longrightarrow> (\<forall>a \<in> set as. s' a = s a) \<Longrightarrow> chain s' p as xs"
  by (induction as arbitrary: p xs) (auto split: option.splits)

lemma chain_None: "chain s p as xs \<Longrightarrow> p = None \<longleftrightarrow> as = []"
  by (cases as) (auto split: option.splits)

lemma chain_None_xs: "chain s p as xs \<Longrightarrow> p = None \<longleftrightarrow> xs = []"
  by (cases as) (auto split: option.splits)

text \<open>Appending a node behind the last one of a chain.\<close>

lemma chain_snoc:
  assumes "chain s p as xs" "as \<noteq> []" "distinct as" "new \<notin> set as"
    and "s' new = Some \<lparr>wreq_work = x, wreq_next = None\<rparr>"
    and "s' (last as) = map_option (\<lambda>n. n\<lparr>wreq_next := Some new\<rparr>) (s (last as))"
    and "\<forall>a \<in> set (butlast as). s' a = s a"
  shows "chain s' p (as @ [new]) (xs @ [x])"
  using assms
proof (induction as arbitrary: p xs)
  case (Cons a as)
  show ?case
  proof (cases "as = []")
    case True
    with Cons.prems show ?thesis by (auto split: option.splits)
  next
    case False
    with Cons.prems obtain n where n: "s a = Some n" "p = Some a" "xs \<noteq> []" "hd xs = wreq_work n"
        "chain s (wreq_next n) as (tl xs)"
      by (auto split: option.splits)
    from False Cons.prems have "s' a = s a" by auto
    moreover have "chain s' (wreq_next n) (as @ [new]) (tl xs @ [x])"
      using Cons.prems False n by (intro Cons.IH) auto
    ultimately show ?thesis using n by simp
  qed
qed simp

lemma wl_repr_link:
  assumes "wl_repr m ys xs"
  shows "wl_repr (wl_link x m) ys (xs @ [x])"
proof -
  from assms obtain bs as where bs: "chain (wl_store m) (wl_itr m) bs ys"
    and as: "chain (wl_store m) (wl_work m) as xs"
    and dist: "distinct (bs @ as)" and fresh: "\<forall>a \<in> set (bs @ as). a < wl_fresh m"
    and tail: "wl_tail m = (if as = [] then None else Some (last as))"
    unfolding wl_repr_def by blast
  define m' where "m' = wl_link x m"
  have itr: "wl_itr m' = wl_itr m"
    by (simp add: m'_def wl_link_def Let_def split: option.splits)
  have new: "wl_fresh m \<notin> set (bs @ as)" using fresh by blast
  have other: "\<forall>a. a \<noteq> wl_fresh m \<longrightarrow> (as = [] \<or> a \<noteq> last as) \<longrightarrow> wl_store m' a = wl_store m a"
    using tail chain_None [OF as] by (auto simp: m'_def wl_link_def Let_def)
  have fresh': "wl_fresh m' = Suc (wl_fresh m)" and tail': "wl_tail m' = Some (wl_fresh m)"
    and node: "wl_store m' (wl_fresh m) = Some \<lparr>wreq_work = x, wreq_next = None\<rparr>"
    using tail chain_None [OF as] new by (auto simp: m'_def wl_link_def Let_def split: option.splits)
  have "chain (wl_store m') (wl_itr m') bs ys"
  proof -
    have "a \<noteq> wl_fresh m \<and> (as = [] \<or> a \<noteq> last as)" if "a \<in> set bs" for a
      using that new dist by (auto dest: last_in_set)
    with other have "\<forall>a \<in> set bs. wl_store m' a = wl_store m a" by blast
    with chain_frame [OF bs] itr show ?thesis by simp
  qed
  moreover have "chain (wl_store m') (wl_work m') (as @ [wl_fresh m]) (xs @ [x])"
  proof (cases "as = []")
    case True
    with as tail show ?thesis by (simp add: m'_def wl_link_def Let_def)
  next
    case False
    have "last as \<noteq> wl_fresh m" using new last_in_set [OF False] by auto
    with False chain_None [OF as] tail have "wl_work m' = wl_work m"
      "wl_store m' (last as) = map_option (\<lambda>n. n\<lparr>wreq_next := Some (wl_fresh m)\<rparr>) (wl_store m (last as))"
      by (auto simp: m'_def wl_link_def Let_def split: option.splits)
    moreover have "\<forall>a \<in> set (butlast as). wl_store m' a = wl_store m a"
    proof
      fix a assume a: "a \<in> set (butlast as)"
      then have in_as: "a \<in> set as" by (rule in_set_butlastD)
      moreover have "a \<noteq> last as"
        using a dist False by (metis distinct_append append_butlast_last_id not_distinct_conv_prefix)
      moreover from in_as have "a \<noteq> wl_fresh m" using new by auto
      ultimately show "wl_store m' a = wl_store m a" using other by blast
    qed
    ultimately show ?thesis using as False dist new node by (auto intro!: chain_snoc)
  qed
  moreover have "distinct (bs @ as @ [wl_fresh m])" using dist new by auto
  moreover have "\<forall>a \<in> set (bs @ as @ [wl_fresh m]). a < wl_fresh m'"
    using fresh fresh' by (auto simp: less_Suc_eq)
  ultimately show ?thesis
    unfolding wl_repr_def m'_def [symmetric] using tail'
    by (intro exI [of _ bs] exI [of _ "as @ [wl_fresh m]"] conjI) simp_all
qed

lemma wl_repr_pop:
  assumes "wl_repr m (y # ys) xs"
  shows "\<exists>m'. wl_pop m = Some (y, m') \<and> wl_repr m' ys xs"
proof -
  from assms obtain bs as where bs: "chain (wl_store m) (wl_itr m) bs (y # ys)"
    and as: "chain (wl_store m) (wl_work m) as xs"
    and d: "distinct (bs @ as)" and f: "\<forall>a \<in> set (bs @ as). a < wl_fresh m"
    and t: "wl_tail m = (if as = [] then None else Some (last as))"
    unfolding wl_repr_def by blast
  from bs obtain b cs n where b: "bs = b # cs" "wl_store m b = Some n" "wl_itr m = Some b" "wreq_work n = y"
      "chain (wl_store m) (wreq_next n) cs ys"
    by (cases bs) (auto split: option.splits)
  define m' where "m' = m\<lparr>wl_store := (wl_store m)(b := None), wl_itr := wreq_next n\<rparr>"
  have "\<forall>a \<in> set cs. wl_store m' a = wl_store m a" "\<forall>a \<in> set as. wl_store m' a = wl_store m a"
    using d b(1) by (auto simp: m'_def)
  then have "chain (wl_store m') (wl_itr m') cs ys" "chain (wl_store m') (wl_work m') as xs"
    using chain_frame [OF b(5)] chain_frame [OF as] by (simp_all add: m'_def)
  with b d f t have "wl_repr m' ys xs"
    unfolding wl_repr_def by (intro exI [of _ cs] exI [of _ as]) (auto simp: m'_def)
  with b show ?thesis by (auto simp: wl_pop_def m'_def)
qed

interpretation wl: worklist wl_init wl_link wl_take wl_pop wl_repr
proof unfold_locales
  show "wl_repr (wl_init :: 'a wq_list) [] []"
    by (auto simp: wl_repr_def wl_init_def intro!: exI [of _ "[]"])
  show "wl_repr (wl_link x m) ys (xs @ [x])" if "wl_repr m ys xs" for m :: "'a wq_list" and ys xs x
    using that by (rule wl_repr_link)
  show "wl_repr (wl_take m) xs []" if "wl_repr m [] xs" for m :: "'a wq_list" and xs
  proof -
    from that obtain as where "chain (wl_store m) (wl_work m) as xs" "distinct as" "\<forall>a \<in> set as. a < wl_fresh m"
      unfolding wl_repr_def by (metis append_Nil chain.simps(1) chain_None chain_None_xs)
    then show ?thesis
      unfolding wl_repr_def by (intro exI [of _ as] exI [of _ "[]"]) (auto simp: wl_take_def)
  qed
  show "\<exists>m'. wl_pop m = Some (y, m') \<and> wl_repr m' ys xs" if "wl_repr m (y # ys) xs" for m :: "'a wq_list" and y ys xs
    using that by (rule wl_repr_pop)
  show "wl_pop m = None" if "wl_repr m [] xs" for m :: "'a wq_list" and xs
    using that chain_None_xs by (fastforce simp: wl_repr_def wl_pop_def)
qed

section \<open>The queue and its threads\<close>

text \<open>Where the worker is in \<open>vdev_wq_main\<close>.\<close>

datatype wpc =
    AtLoop          \<comment> \<open>\<open>while( wq->running )\<close>\<close>
  | AtTry           \<comment> \<open>\<open>sem_trywait\<close>\<close>
  | AtWait          \<comment> \<open>\<open>sem_wait\<close>, after \<open>EAGAIN\<close>\<close>
  | AtCheck         \<comment> \<open>cancelled?\<close>
  | AtTake          \<comment> \<open>the critical section\<close>
  | AtBranch        \<comment> \<open>coldplug flag, then empty or not\<close>
  | AtSignal        \<comment> \<open>\<open>vdev_wq_signal_empty\<close>: read and reset the number of waiters\<close>
  | AtPost nat      \<comment> \<open>its loop of \<open>sem_post\<close>\<close>
  | AtRun           \<comment> \<open>the inner loop over \<open>work_itr\<close>\<close>
  | Exited

record 'a vdev_wq =
  wq_list :: "'a wq_list"
  wq_running :: bool
  wq_work_sem :: nat
  wq_end_sem :: nat
  wq_num_waiters :: nat
  wq_pc :: wpc
  wq_coldplug_finished :: bool       \<comment> \<open>the worker's local variable\<close>
  wq_os_coldplug :: bool             \<comment> \<open>\<open>vdev_os_context_is_coldplug_finished\<close>\<close>
  wq_signalled :: nat                \<comment> \<open>calls of \<open>vdev_signal_coldplug_finished\<close>\<close>
  wq_posting :: nat                  \<comment> \<open>threads inside \<open>vdev_wq_add\<close>, between unlock and \<open>sem_post\<close>\<close>
  wq_waiting :: nat                  \<comment> \<open>threads inside \<open>vdev_wq_wait_for_empty\<close>, at \<open>sem_wait\<close>\<close>
  wq_cancelled :: bool               \<comment> \<open>\<open>pthread_cancel\<close> was called on the worker\<close>
  wq_added :: "'a list"
  wq_done :: "'a list"

text \<open>
  \<open>vdev_wq_init\<close>, then \<open>vdev_wq_start\<close>: \<open>err\<close> is what \<open>pthread_create\<close> returns and \<open>errno\<close> the variable after it. The
  code returns the variable, which \<open>pthread_create\<close> does not set.
\<close>

definition vdev_wq_init :: "'a vdev_wq" where
  "vdev_wq_init = \<lparr>wq_list = wl_init, wq_running = False, wq_work_sem = 0, wq_end_sem = 0, wq_num_waiters = 0,
     wq_pc = Exited, wq_coldplug_finished = False, wq_os_coldplug = False, wq_signalled = 0, wq_posting = 0,
     wq_waiting = 0, wq_cancelled = False, wq_added = [], wq_done = []\<rparr>"

definition vdev_wq_start :: "rc \<Rightarrow> rc \<Rightarrow> 'a vdev_wq \<Rightarrow> rc \<times> 'a vdev_wq" where
  "vdev_wq_start err errno wq =
     (if wq_running wq then (- EINVAL, wq)
      else if err \<noteq> 0 then (- errno, wq\<lparr>wq_running := False\<rparr>)
      else (0, wq\<lparr>wq_running := True, wq_pc := AtLoop, wq_coldplug_finished := False, wq_cancelled := False\<rparr>))"

text \<open>
  So a start that fails can be reported as a success, with no worker (\<^verbatim>\<open>workqueue.c\<close>, line 203): whenever the variable
  happens to be 0.
\<close>

lemma wq_start_failure_unreported:
  assumes "err \<noteq> 0" "\<not> wq_running wq"
  shows "vdev_wq_start err 0 wq = (0, wq)"
  using assms by (cases wq) (simp add: vdev_wq_start_def)

text \<open>\<open>vdev_wq_add\<close>, up to the \<open>sem_post\<close> (\<open>alloc\<close>: the allocation succeeds), and the \<open>sem_post\<close>.\<close>

definition vdev_wq_add :: "bool \<Rightarrow> 'a \<Rightarrow> 'a vdev_wq \<Rightarrow> rc \<times> 'a vdev_wq" where
  "vdev_wq_add alloc x wq =
     (if \<not> alloc then (- ENOMEM, wq)
      else (0, wq\<lparr>wq_list := wl_link x (wq_list wq), wq_posting := Suc (wq_posting wq),
                  wq_added := wq_added wq @ [x]\<rparr>))"

definition wq_post :: "'a vdev_wq \<Rightarrow> 'a vdev_wq" where
  "wq_post wq = wq\<lparr>wq_posting := wq_posting wq - 1, wq_work_sem := Suc (wq_work_sem wq)\<rparr>"

text \<open>One step of the worker; \<open>None\<close> when it is blocked or has left.\<close>

definition wq_worker :: "'a vdev_wq \<Rightarrow> 'a vdev_wq option" where
  "wq_worker wq =
     (case wq_pc wq of
        AtLoop \<Rightarrow> Some (wq\<lparr>wq_pc := if wq_running wq then AtTry else Exited\<rparr>)
      | AtTry \<Rightarrow> Some (if wq_work_sem wq > 0 then wq\<lparr>wq_work_sem := wq_work_sem wq - 1, wq_pc := AtCheck\<rparr>
                       else wq\<lparr>wq_pc := AtWait\<rparr>)
      | AtWait \<Rightarrow> if wq_work_sem wq > 0 then Some (wq\<lparr>wq_work_sem := wq_work_sem wq - 1, wq_pc := AtCheck\<rparr>)
                  else None
      | AtCheck \<Rightarrow> Some (wq\<lparr>wq_pc := if \<not> wq_running wq then Exited else AtTake\<rparr>)
      | AtTake \<Rightarrow> Some (wq\<lparr>wq_list := wl_take (wq_list wq), wq_pc := AtBranch\<rparr>)
      | AtBranch \<Rightarrow>
          Some (wq\<lparr>wq_coldplug_finished := wq_coldplug_finished wq \<or> wq_os_coldplug wq,
                   wq_pc := if wl_itr (wq_list wq) = None then AtSignal else AtRun\<rparr>)
      | AtSignal \<Rightarrow> Some (wq\<lparr>wq_num_waiters := 0, wq_pc := AtPost (wq_num_waiters wq)\<rparr>)
      | AtPost n \<Rightarrow>
          Some (if n > 0 then wq\<lparr>wq_end_sem := Suc (wq_end_sem wq), wq_pc := AtPost (n - 1)\<rparr>
                else wq\<lparr>wq_signalled := (if wq_coldplug_finished wq then Suc (wq_signalled wq) else wq_signalled wq),
                        wq_pc := AtLoop\<rparr>)
      | AtRun \<Rightarrow>
          (case wl_pop (wq_list wq) of
             None \<Rightarrow> Some (wq\<lparr>wq_pc := AtLoop\<rparr>)
           | Some (x, l) \<Rightarrow> Some (wq\<lparr>wq_list := l, wq_done := wq_done wq @ [x]\<rparr>))
      | Exited \<Rightarrow> None)"

text \<open>
  A signal may interrupt the worker's \<open>sem_wait\<close>, whose result the code does not look at: the worker goes on
  without having taken a wake-up.
\<close>

definition wq_interrupted :: "'a vdev_wq \<Rightarrow> 'a vdev_wq option" where
  "wq_interrupted wq = (if wq_pc wq = AtWait then Some (wq\<lparr>wq_pc := AtCheck\<rparr>) else None)"

text \<open>
  \<open>vdev_wq_stop\<close>: \<open>vdev_wq_wait_for_empty\<close> first (register as a waiter, then \<open>sem_wait\<close>), then
  \<open>running := false\<close>, a wake-up, and the cancellation of the thread, which takes effect at
  some later point of the worker (\<open>wq_cancel\<close>).
\<close>

definition wq_wait_for_empty :: "'a vdev_wq \<Rightarrow> 'a vdev_wq" where
  "wq_wait_for_empty wq = wq\<lparr>wq_num_waiters := Suc (wq_num_waiters wq), wq_waiting := Suc (wq_waiting wq)\<rparr>"

definition wq_waiter_wakes :: "'a vdev_wq \<Rightarrow> 'a vdev_wq option" where
  "wq_waiter_wakes wq =
     (if wq_waiting wq > 0 \<and> wq_end_sem wq > 0
      then Some (wq\<lparr>wq_waiting := wq_waiting wq - 1, wq_end_sem := wq_end_sem wq - 1\<rparr>) else None)"

definition vdev_wq_stop :: "'a vdev_wq \<Rightarrow> rc \<times> 'a vdev_wq" where
  "vdev_wq_stop wq =
     (if \<not> wq_running wq then (- EINVAL, wq)
      else (0, wq\<lparr>wq_running := False, wq_work_sem := Suc (wq_work_sem wq), wq_cancelled := True\<rparr>))"

definition wq_cancel :: "'a vdev_wq \<Rightarrow> 'a vdev_wq" where
  "wq_cancel wq = wq\<lparr>wq_pc := Exited\<rparr>"

definition vdev_wq_free :: "'a vdev_wq \<Rightarrow> rc \<times> 'a vdev_wq" where
  "vdev_wq_free wq =
     (if wq_running wq then (- EINVAL, wq)
      else (0, vdev_wq_init\<lparr>wq_list := wl_init\<lparr>wl_store :=
                 wl_free (wl_fresh (wq_list wq)) (wl_work (wq_list wq)) (wl_store (wq_list wq))\<rparr>\<rparr>))"

datatype 'a wq_label = Worker | Interrupted | Add 'a | Post | ColdplugDone | WaitForEmpty | WaiterWakes | Stop | Cancel

inductive wq_step :: "'a vdev_wq \<Rightarrow> 'a wq_label \<Rightarrow> 'a vdev_wq \<Rightarrow> bool" where
  worker: "wq_worker wq = Some wq' \<Longrightarrow> wq_step wq Worker wq'"
| interrupted: "wq_interrupted wq = Some wq' \<Longrightarrow> wq_step wq Interrupted wq'"
| add: "vdev_wq_add True x wq = (0, wq') \<Longrightarrow> wq_step wq (Add x) wq'"
| post: "wq_posting wq > 0 \<Longrightarrow> wq_step wq Post (wq_post wq)"
| coldplug: "wq_step wq ColdplugDone (wq\<lparr>wq_os_coldplug := True\<rparr>)"
| wait: "wq_running wq \<Longrightarrow> wq_step wq WaitForEmpty (wq_wait_for_empty wq)"
| wakes: "wq_waiter_wakes wq = Some wq' \<Longrightarrow> wq_step wq WaiterWakes wq'"
| stop: "vdev_wq_stop wq = (0, wq') \<Longrightarrow> wq_step wq Stop wq'"
| cancel: "wq_cancelled wq \<Longrightarrow> wq_step wq Cancel (wq_cancel wq)"

inductive_cases wq_stepE: "wq_step wq l wq'"

inductive wq_reach :: "'a vdev_wq \<Rightarrow> bool" where
  start: "vdev_wq_start 0 errno vdev_wq_init = (0, wq) \<Longrightarrow> wq_reach wq"
| step: "wq_reach wq \<Longrightarrow> wq_step wq l wq' \<Longrightarrow> wq_reach wq'"

section \<open>Invariants\<close>

text \<open>Between \<open>sem_wait\<close> and the critical section the worker holds one wake-up.\<close>

definition wq_token :: "wpc \<Rightarrow> nat" where
  "wq_token pc = (if pc = AtCheck \<or> pc = AtTake then 1 else 0)"

definition wq_shape :: "'a vdev_wq \<Rightarrow> 'a list \<Rightarrow> 'a list \<Rightarrow> bool" where
  "wq_shape wq ys xs \<longleftrightarrow>
     wl_repr (wq_list wq) ys xs \<and> wq_added wq = wq_done wq @ ys @ xs \<and>
     (wq_pc wq \<noteq> Exited \<longrightarrow> length xs \<le> wq_work_sem wq + wq_posting wq + wq_token (wq_pc wq)) \<and>
     (wq_pc wq \<notin> {AtRun, AtBranch, Exited} \<longrightarrow> ys = [])"

definition wq_inv :: "'a vdev_wq \<Rightarrow> bool" where
  "wq_inv wq \<longleftrightarrow> (\<exists>ys xs. wq_shape wq ys xs)"

lemma wq_invI: "wq_shape wq ys xs \<Longrightarrow> wq_inv wq"
  by (auto simp: wq_inv_def)

lemma repr_itr_None: "wl_repr m ys xs \<Longrightarrow> wl_itr m = None \<longleftrightarrow> ys = []"
  unfolding wl_repr_def using chain_None_xs by blast

lemma repr_work_None: "wl_repr m ys xs \<Longrightarrow> wl_work m = None \<longleftrightarrow> xs = []"
  unfolding wl_repr_def using chain_None_xs by blast

lemma wq_shape_add:
  "wq_shape wq ys xs \<Longrightarrow> vdev_wq_add True x wq = (0, wq') \<Longrightarrow> wq_shape wq' ys (xs @ [x])"
  using wl.repr_link [of "wq_list wq" ys xs x] by (auto simp: wq_shape_def vdev_wq_add_def)

text \<open>What a step of the worker does to the two lists.\<close>

lemma wq_shape_worker_other:
  assumes "wq_shape wq ys xs" "wq_worker wq = Some wq'" "wq_pc wq \<notin> {AtTake, AtRun, AtBranch}"
  shows "wq_shape wq' ys xs"
  using assms by (cases "wq_pc wq") (auto simp: wq_shape_def wq_worker_def wq_token_def split: if_splits)

lemma wq_inv_worker_other:
  "wq_shape wq ys xs \<Longrightarrow> wq_worker wq = Some wq' \<Longrightarrow> wq_pc wq \<notin> {AtTake, AtRun, AtBranch} \<Longrightarrow> wq_inv wq'"
  by (rule wq_invI, rule wq_shape_worker_other)

lemma wq_shape_worker:
  assumes "wq_shape wq ys xs" "wq_worker wq = Some wq'"
  shows "wq_inv wq'"
proof (cases "wq_pc wq")
  case AtTake
  with assms have "wq_shape wq' xs []"
    using wl.repr_take by (auto simp: wq_shape_def wq_worker_def)
  then show ?thesis by (rule wq_invI)
next
  case AtRun
  show ?thesis
  proof (cases "wl_pop (wq_list wq)")
    case None
    with assms have "ys = []" using wl.pop_None_iff by (auto simp: wq_shape_def)
    with AtRun None assms have "wq_shape wq' [] xs" by (auto simp: wq_shape_def wq_worker_def wq_token_def)
    then show ?thesis by (rule wq_invI)
  next
    case (Some p)
    then obtain x l where p: "wl_pop (wq_list wq) = Some (x, l)" by (cases p) auto
    with assms(1) obtain zs where "ys = x # zs" "wl_repr l zs xs"
      using wl.pop_Some unfolding wq_shape_def by metis
    with AtRun p assms have "wq_shape wq' zs xs" by (auto simp: wq_shape_def wq_worker_def wq_token_def)
    then show ?thesis by (rule wq_invI)
  qed
next
  case AtBranch
  with assms have "wq_shape wq' ys xs"
    using repr_itr_None [of "wq_list wq" ys xs]
    by (cases "wl_itr (wq_list wq)") (auto simp: wq_shape_def wq_worker_def wq_token_def)
  then show ?thesis by (rule wq_invI)
qed (rule wq_inv_worker_other [OF assms], simp)+

text \<open>Steps that leave the list and the worker alone keep the invariant if no wake-up is lost.\<close>

lemma wq_shape_frame:
  assumes "wq_shape wq ys xs" "wq_list wq' = wq_list wq" "wq_added wq' = wq_added wq" "wq_done wq' = wq_done wq"
    and "wq_work_sem wq + wq_posting wq \<le> wq_work_sem wq' + wq_posting wq'" "wq_pc wq' = wq_pc wq"
  shows "wq_shape wq' ys xs"
  using assms unfolding wq_shape_def by auto

lemma wq_inv_step: "wq_step wq l wq' \<Longrightarrow> wq_shape wq ys xs \<Longrightarrow> wq_inv wq'"
proof (induction rule: wq_step.induct)
  case (worker wq wq')
  from wq_shape_worker [OF worker(2,1)] show ?case .
next
  case (interrupted wq wq')
  then have "wq_shape wq' ys xs" by (auto simp: wq_interrupted_def wq_shape_def wq_token_def split: if_splits)
  then show ?case by (rule wq_invI)
next
  case (add x wq wq')
  from wq_shape_add [OF add(2,1)] show ?case by (rule wq_invI)
next
  case (post wq)
  have "wq_shape (wq_post wq) ys xs" by (rule wq_shape_frame [OF post(2)]) (use post in \<open>auto simp: wq_post_def\<close>)
  then show ?case by (rule wq_invI)
next
  case (coldplug wq)
  have "wq_shape (wq\<lparr>wq_os_coldplug := True\<rparr>) ys xs" by (rule wq_shape_frame [OF coldplug]) auto
  then show ?case by (rule wq_invI)
next
  case (wait wq)
  have "wq_shape (wq_wait_for_empty wq) ys xs"
    by (rule wq_shape_frame [OF wait(2)]) (use wait in \<open>auto simp: wq_wait_for_empty_def\<close>)
  then show ?case by (rule wq_invI)
next
  case (wakes wq wq')
  have "wq_shape wq' ys xs"
    by (rule wq_shape_frame [OF wakes(2)]) (use wakes in \<open>auto simp: wq_waiter_wakes_def split: if_splits\<close>)
  then show ?case by (rule wq_invI)
next
  case (stop wq wq')
  have "wq_shape wq' ys xs"
    by (rule wq_shape_frame [OF stop(2)]) (use stop in \<open>auto simp: vdev_wq_stop_def split: if_splits\<close>)
  then show ?case by (rule wq_invI)
next
  case (cancel wq)
  then have "wq_shape (wq_cancel wq) ys xs" by (auto simp: wq_shape_def wq_cancel_def)
  then show ?case by (rule wq_invI)
qed

lemma wq_reach_inv: "wq_reach wq \<Longrightarrow> wq_inv wq"
proof (induction rule: wq_reach.induct)
  case (start errno wq)
  then have "wq_shape wq [] []" using wl.repr_init
    by (auto simp: wq_shape_def vdev_wq_start_def vdev_wq_init_def)
  then show ?case by (rule wq_invI)
next
  case (step wq l wq')
  then show ?case unfolding wq_inv_def [of wq] by (blast intro: wq_inv_step)
qed

text \<open>
  C1: Work is run first in, first out, and nothing is run twice or skipped. In every reachable
  state the items that have been run are a prefix of the items that were added, in the order
  they were added; the rest is exactly what the worker has taken followed by what waits in the
  linked list.
\<close>

theorem workqueue_fifo:
  assumes "wq_reach wq"
  shows "\<exists>ys xs. wl_repr (wq_list wq) ys xs \<and> wq_added wq = wq_done wq @ ys @ xs"
  using wq_reach_inv [OF assms] unfolding wq_inv_def wq_shape_def by blast

text \<open>
  C3: No lost wake-up. In every reachable state in which items wait in the list and every
  \<open>vdev_wq_add\<close> has returned, the worker, unless it has left its loop, is able to take a step:
  it never sleeps on the semaphore while there is work.
\<close>

theorem workqueue_no_lost_wakeup:
  assumes "wq_reach wq" "wl_work (wq_list wq) \<noteq> None" "wq_posting wq = 0" "wq_pc wq \<noteq> Exited"
  shows "wq_worker wq \<noteq> None"
proof -
  from wq_reach_inv [OF assms(1)] obtain ys xs where s: "wq_shape wq ys xs" unfolding wq_inv_def by blast
  then have "wl_repr (wq_list wq) ys xs" by (simp add: wq_shape_def)
  from repr_work_None [OF this] assms(2) have "xs \<noteq> []" by simp
  then have "Suc 0 \<le> length xs" by (cases xs) auto
  moreover have "wq_pc wq = AtWait \<longrightarrow> length xs \<le> wq_work_sem wq"
    using s assms(3) by (auto simp: wq_shape_def wq_token_def)
  ultimately have "wq_pc wq = AtWait \<longrightarrow> wq_work_sem wq > 0" by linarith
  with assms(4) show ?thesis by (auto simp: wq_worker_def split: wpc.splits option.splits)
qed

section \<open>The worker on its own runs everything\<close>

fun wq_run :: "nat \<Rightarrow> 'a vdev_wq \<Rightarrow> 'a vdev_wq" where
  "wq_run 0 wq = wq"
| "wq_run (Suc n) wq = (case wq_worker wq of None \<Rightarrow> wq | Some wq' \<Rightarrow> wq_run n wq')"

text \<open>How far the worker is from having run everything.\<close>

definition wq_rank :: "'a vdev_wq \<Rightarrow> 'a list \<Rightarrow> nat" where
  "wq_rank wq ys =
     (case wq_pc wq of
        AtTake \<Rightarrow> 0 | AtCheck \<Rightarrow> 1 | AtWait \<Rightarrow> 2 | AtTry \<Rightarrow> 3 | AtLoop \<Rightarrow> 4
      | AtRun \<Rightarrow> 5 + length ys | AtPost n \<Rightarrow> 5 + n | AtSignal \<Rightarrow> 6 + wq_num_waiters wq
      | AtBranch \<Rightarrow> 7 + wq_num_waiters wq + length ys | Exited \<Rightarrow> 0)"

definition wq_distance :: "'a vdev_wq \<Rightarrow> 'a list \<Rightarrow> 'a list \<Rightarrow> nat" where
  "wq_distance wq ys xs =
     (if xs = [] then length ys + (if wq_pc wq = AtBranch then 1 else 0)
      else length xs + 2 + wq_rank wq ys)"

definition wq_live :: "'a vdev_wq \<Rightarrow> bool" where
  "wq_live wq \<longleftrightarrow> wq_running wq \<and> wq_posting wq = 0 \<and> wq_pc wq \<noteq> Exited"

lemma wq_live_worker:
  "wq_live wq \<Longrightarrow> wq_worker wq = Some wq' \<Longrightarrow> wq_live wq' \<and> wq_added wq' = wq_added wq"
  by (cases "wq_pc wq") (auto simp: wq_live_def wq_worker_def split: option.splits if_splits)

lemma wq_progress_take:
  assumes "wq_shape wq ys xs" "wq_pc wq = AtTake" "xs \<noteq> []"
  shows "\<exists>wq'. wq_worker wq = Some wq' \<and> wq_shape wq' xs [] \<and> wq_distance wq' xs [] < wq_distance wq ys xs"
  using assms wl.repr_take [of "wq_list wq" xs]
  by (auto simp: wq_shape_def wq_worker_def wq_distance_def)

lemma wq_progress_run:
  assumes "wq_shape wq ys xs" "wq_pc wq = AtRun" "ys \<noteq> []"
  shows "\<exists>wq' zs. wq_worker wq = Some wq' \<and> wq_shape wq' zs xs \<and> wq_distance wq' zs xs < wq_distance wq ys xs"
proof -
  from assms(3) obtain y zs where ys: "ys = y # zs" by (cases ys) auto
  with assms(1) obtain l where "wl_pop (wq_list wq) = Some (y, l)" "wl_repr l zs xs"
    using wl.repr_pop [of "wq_list wq" y zs xs] by (auto simp: wq_shape_def)
  with assms ys show ?thesis
    by (intro exI [of _ "wq\<lparr>wq_list := l, wq_done := wq_done wq @ [y]\<rparr>"] exI [of _ zs])
      (auto simp: wq_shape_def wq_worker_def wq_distance_def wq_rank_def wq_token_def)
qed

lemma wq_progress_branch:
  assumes "wq_shape wq ys xs" "wq_pc wq = AtBranch" "ys @ xs \<noteq> []"
  shows "\<exists>wq'. wq_worker wq = Some wq' \<and> wq_shape wq' ys xs \<and> wq_distance wq' ys xs < wq_distance wq ys xs"
  using assms repr_itr_None [of "wq_list wq" ys xs]
  by (cases "wl_itr (wq_list wq)") (auto simp: wq_shape_def wq_worker_def wq_distance_def wq_rank_def wq_token_def)

lemma wq_progress_other:
  assumes "wq_shape wq ys xs" "wq_live wq" "xs \<noteq> []" "wq_pc wq \<notin> {AtTake, AtBranch}" "wq_pc wq = AtRun \<Longrightarrow> ys = []"
  shows "\<exists>wq'. wq_worker wq = Some wq' \<and> wq_shape wq' ys xs \<and> wq_distance wq' ys xs < wq_distance wq ys xs"
proof -
  from assms(3) have len: "Suc 0 \<le> length xs" by (cases xs) auto
  from assms(1,2) have sem: "wq_pc wq \<in> {AtTry, AtWait} \<longrightarrow> length xs \<le> wq_work_sem wq"
    by (auto simp: wq_shape_def wq_token_def wq_live_def)
  show ?thesis
  proof (cases "wq_pc wq")
    case AtRun
    with assms have "wl_pop (wq_list wq) = None" using wl.repr_pop_empty by (auto simp: wq_shape_def)
    with AtRun assms show ?thesis
      by (auto simp: wq_shape_def wq_worker_def wq_distance_def wq_rank_def wq_token_def)
  qed (use assms len sem in \<open>auto simp: wq_shape_def wq_worker_def wq_distance_def wq_rank_def wq_token_def wq_live_def\<close>)
qed

lemma wq_progress:
  assumes "wq_shape wq ys xs" "wq_live wq" "wq_done wq \<noteq> wq_added wq"
  shows "\<exists>wq' ys' xs'. wq_worker wq = Some wq' \<and> wq_shape wq' ys' xs' \<and>
    wq_distance wq' ys' xs' < wq_distance wq ys xs"
proof -
  from assms(1,3) have ne: "ys @ xs \<noteq> []" by (auto simp: wq_shape_def)
  from assms(1,2) have idle: "ys \<noteq> [] \<longrightarrow> wq_pc wq = AtRun \<or> wq_pc wq = AtBranch"
    by (auto simp: wq_shape_def wq_live_def)
  consider "wq_pc wq = AtBranch" | "wq_pc wq = AtRun" "ys \<noteq> []" | "wq_pc wq = AtTake" "xs \<noteq> []"
    | "wq_pc wq \<notin> {AtTake, AtBranch}" "wq_pc wq = AtRun \<longrightarrow> ys = []" "xs \<noteq> []"
    using ne idle by blast
  then show ?thesis
  proof cases
    case 1
    from wq_progress_branch [OF assms(1) 1 ne] show ?thesis by blast
  next
    case 2
    from wq_progress_run [OF assms(1) 2] show ?thesis by blast
  next
    case 3
    from wq_progress_take [OF assms(1) 3] show ?thesis by blast
  next
    case 4
    from wq_progress_other [OF assms(1,2) 4(3,1)] 4(2) show ?thesis by blast
  qed
qed

lemma wq_drains:
  "wq_shape wq ys xs \<Longrightarrow> wq_live wq \<Longrightarrow> \<exists>n. wq_done (wq_run n wq) = wq_added wq"
proof (induction "wq_distance wq ys xs" arbitrary: wq ys xs rule: less_induct)
  case less
  show ?case
  proof (cases "wq_done wq = wq_added wq")
    case True
    then show ?thesis by (intro exI [of _ 0]) simp
  next
    case False
    with less.prems obtain wq' ys' xs' where w: "wq_worker wq = Some wq'" and s: "wq_shape wq' ys' xs'"
      and d: "wq_distance wq' ys' xs' < wq_distance wq ys xs" using wq_progress by blast
    from wq_live_worker [OF less.prems(2) w] have l: "wq_live wq'" "wq_added wq' = wq_added wq" by auto
    from less.hyps [OF d s l(1)] obtain n where "wq_done (wq_run n wq') = wq_added wq'" by blast
    with w l show ?thesis by (intro exI [of _ "Suc n"]) simp
  qed
qed

text \<open>
  C2: Everything that is added is run. From every reachable state of a running queue in which
  the calls of \<open>vdev_wq_add\<close> have returned, finitely many steps of the worker alone lead to a
  state in which all items added so far have been run.
\<close>

theorem workqueue_runs_everything:
  assumes "wq_reach wq" "wq_live wq"
  shows "\<exists>n. wq_done (wq_run n wq) = wq_added wq"
  using wq_reach_inv [OF assms(1)] wq_drains [OF _ assms(2)] unfolding wq_inv_def by blast

section \<open>Running schedules\<close>

definition wq_fire :: "'a wq_label \<Rightarrow> 'a vdev_wq \<Rightarrow> 'a vdev_wq option" where
  "wq_fire l wq =
     (case l of
        Worker \<Rightarrow> wq_worker wq
      | Interrupted \<Rightarrow> wq_interrupted wq
      | Add x \<Rightarrow> Some (snd (vdev_wq_add True x wq))
      | Post \<Rightarrow> if wq_posting wq > 0 then Some (wq_post wq) else None
      | ColdplugDone \<Rightarrow> Some (wq\<lparr>wq_os_coldplug := True\<rparr>)
      | WaitForEmpty \<Rightarrow> if wq_running wq then Some (wq_wait_for_empty wq) else None
      | WaiterWakes \<Rightarrow> wq_waiter_wakes wq
      | Stop \<Rightarrow> if wq_running wq then Some (snd (vdev_wq_stop wq)) else None
      | Cancel \<Rightarrow> if wq_cancelled wq then Some (wq_cancel wq) else None)"

fun wq_schedule :: "'a wq_label list \<Rightarrow> 'a vdev_wq \<Rightarrow> 'a vdev_wq option" where
  "wq_schedule [] wq = Some wq"
| "wq_schedule (l # ls) wq = (case wq_fire l wq of None \<Rightarrow> None | Some wq' \<Rightarrow> wq_schedule ls wq')"

definition wq_started :: "'a vdev_wq" where
  "wq_started = snd (vdev_wq_start 0 0 vdev_wq_init)"

lemma wq_fire_step: "wq_fire l wq = Some wq' \<Longrightarrow> wq_step wq l wq'"
  by (cases l) (auto simp: wq_fire_def vdev_wq_add_def vdev_wq_stop_def intro!: wq_step.intros split: if_splits)

lemma wq_schedule_reach: "wq_reach wq \<Longrightarrow> wq_schedule ls wq = Some wq' \<Longrightarrow> wq_reach wq'"
proof (induction ls arbitrary: wq)
  case (Cons l ls)
  then obtain wq1 where "wq_fire l wq = Some wq1" "wq_schedule ls wq1 = Some wq'"
    by (auto split: option.splits)
  with Cons wq_fire_step [of l wq wq1] show ?case using wq_reach.step by blast
qed simp

lemma wq_started_reach: "wq_schedule ls wq_started = Some wq \<Longrightarrow> wq_reach wq"
proof -
  have "wq_reach wq_started"
    by (rule wq_reach.start [of 0]) (simp add: wq_started_def vdev_wq_start_def vdev_wq_init_def)
  then show "wq_schedule ls wq_started = Some wq \<Longrightarrow> wq_reach wq" by (rule wq_schedule_reach)
qed

definition wq_two_adds :: "nat vdev_wq" where
  "wq_two_adds = the (wq_schedule [Add 1, Worker, Add 2, Post, Post, Worker] wq_started)"

lemma wq_two_adds_reach: "wq_reach wq_two_adds"
  by (rule wq_started_reach [of "[Add 1, Worker, Add 2, Post, Post, Worker]"])
    (simp add: wq_two_adds_def wq_started_def wq_fire_def wq_worker_def vdev_wq_add_def vdev_wq_start_def
      vdev_wq_init_def wq_post_def)

lemmas wq_eval = wq_two_adds_def wq_started_def wq_fire_def wq_worker_def vdev_wq_add_def vdev_wq_start_def
  vdev_wq_init_def wq_post_def wq_wait_for_empty_def wq_waiter_wakes_def wl_link_def wl_take_def wl_pop_def wl_init_def

theorem workqueue_fifo_witness:
  "wq_reach wq_two_adds \<and> wq_added wq_two_adds = [1, 2] \<and>
   (\<exists>ys xs. wl_repr (wq_list wq_two_adds) ys xs \<and> [1, 2] = wq_done wq_two_adds @ ys @ xs)"
proof -
  have "wq_added wq_two_adds = [1, 2]" by (simp add: wq_eval)
  with wq_two_adds_reach workqueue_fifo [OF wq_two_adds_reach] show ?thesis by simp
qed

theorem workqueue_no_lost_wakeup_witness:
  "wq_reach wq_two_adds \<and> wq_pc wq_two_adds = AtCheck \<and> wq_worker wq_two_adds \<noteq> None"
proof -
  have "wl_work (wq_list wq_two_adds) \<noteq> None" "wq_posting wq_two_adds = 0" "wq_pc wq_two_adds = AtCheck"
    by (simp_all add: wq_eval)
  with wq_two_adds_reach workqueue_no_lost_wakeup [OF wq_two_adds_reach] show ?thesis by simp
qed

theorem workqueue_runs_everything_witness:
  "wq_reach wq_two_adds \<and> wq_live wq_two_adds \<and> (\<exists>n. wq_done (wq_run n wq_two_adds) = [1, 2])"
proof -
  have l: "wq_live wq_two_adds" "wq_added wq_two_adds = [1, 2]" by (simp_all add: wq_live_def wq_eval)
  with wq_two_adds_reach workqueue_runs_everything [OF wq_two_adds_reach l(1)] show ?thesis by simp
qed

section \<open>Waiting for an empty queue can last for ever\<close>

definition wq_stuck_schedule :: "'a \<Rightarrow> 'a wq_label list" where
  "wq_stuck_schedule x = [Add x, Post] @ replicate 9 Worker @ [WaitForEmpty]"


end
