(* ===== verification/Vdevd_Device.thy ===== *)
theory Vdevd_Device
  imports Vdevd_Metadata Vdevd_Workqueue
begin

text \<open>
  The second half of \<^verbatim>\<open>vdevd/device.c\<close>: what vdevd does when a device is added, removed or changed.
  It chooses the device's name, makes or removes the device node, keeps a directory of metadata
  for the device, and runs the actions.

  Every handler owns its request and frees it at the end, so a request is not part of its result:
  that is the return code, the actions (their daemonlets and statistics change) and the world.
  \<open>None\<close> stands for a crash: a \<open>NULL\<close> pointer, or a write past the end of a buffer. The reload
  lock is held throughout a handler.
\<close>

section \<open>Adding a device\<close>

definition vdev_device_mkdirs ::
  "'z vdev_base_state_scheme \<Rightarrow> cstr \<Rightarrow> world \<Rightarrow> rc \<times> cstr \<times> world" where
  "vdev_device_mkdirs st renamed w =
     (let fp = vdev_fullpath (st_mountpoint st) renamed
      in if SLASH \<in> set renamed
         then (case vdev_mkdirs (vdev_dirname fp) (length (st_mountpoint st)) w of (rc, w1) \<Rightarrow> (rc, fp, w1))
         else (0, fp, w))"

text \<open>
  The name: what the rename commands give, else the kernel's. The result is an error to return at
  once, or the request with its name.
\<close>

definition device_rename ::
  "regex_lib \<Rightarrow> 'z vdev_base_state_scheme \<Rightarrow> vdev_action list \<Rightarrow> vdev_device_request \<Rightarrow> world \<Rightarrow>
   ((rc + vdev_device_request) \<times> world) option" where
  "device_rename lib st acts req w =
     (case vdev_action_create_path lib st req acts w of
        None \<Rightarrow> None
      | Some (rc, path, w1) \<Rightarrow>
          if rc \<noteq> 0 then Some (Inl rc, w1)
          else Some (Inr (req\<lparr>req_renamed_path := (case path of None \<Rightarrow> req_path req | Some p \<Rightarrow> Some p)\<rparr>), w1))"

text \<open>
  The node of a device with numbers and a mode: an early error, or the code so far and whether
  the device exists already.
\<close>

definition device_add_node ::
  "'z vdev_base_state_scheme \<Rightarrow> vdev_device_request \<Rightarrow> cstr \<Rightarrow> world \<Rightarrow> ((rc + rc \<times> bool) \<times> world) option" where
  "device_add_node st req renamed w =
     (case vdev_device_mkdirs st renamed w of (rc, fp, w1) \<Rightarrow>
        if rc \<noteq> 0 then Some (Inl rc, w1)
        else if vdev_config_has_OS_quirk (conf_OS_quirks (st_config st)) VDEV_OS_QUIRK_DEVICE_EXISTS then
          (case vdev_device_has_metadata st req w1 of
             None \<Rightarrow> None
           | Some md \<Rightarrow> Some (Inr (0, md \<noteq> 0), w1))
        else if req_exists req then Some (Inr (0, False), w1)
        else
          (case sys_mknod fp (or (req_mode req) (conf_default_mode (st_config st))) (req_dev req) w1 of (e, w2) \<Rightarrow>
             if e = EEXIST then Some (Inr (0, True), w2) else Some (Inr (- e, False), w2)))"

text \<open>An event without a device node: it is new if there is no metadata yet.\<close>

definition device_add_event ::
  "'z vdev_base_state_scheme \<Rightarrow> vdev_device_request \<Rightarrow> world \<Rightarrow> ((rc + rc \<times> bool) \<times> world) option" where
  "device_add_event st req w =
     (case vdev_device_has_metadata st req w of
        None \<Rightarrow> None
      | Some rc \<Rightarrow>
          Some (if rc = 0 then (Inr (0, True), w)
                else if rc = - ENOENT then (Inr (0, False), w) else (Inr (rc, False), w)))"

text \<open>The ADD actions; a failure is only logged.\<close>

definition device_run_actions ::
  "regex_lib \<Rightarrow> 'z vdev_base_state_scheme \<Rightarrow> vdev_action list \<Rightarrow> vdev_device_request \<Rightarrow> bool \<Rightarrow> world \<Rightarrow>
   (vdev_action list \<times> world) option" where
  "device_run_actions lib st acts req ex w =
     map_option (\<lambda>(rc, acts', w'). (acts', w')) (vdev_action_run_commands lib st req acts ex w)"

definition vdev_device_add ::
  "regex_lib \<Rightarrow> 'z vdev_base_state_scheme \<Rightarrow> vdev_action list \<Rightarrow> vdev_device_request \<Rightarrow> world \<Rightarrow>
   (rc \<times> vdev_action list \<times> world) option" where
  "vdev_device_add lib st acts req w =
     (case device_rename lib st acts req w of
        None \<Rightarrow> None
      | Some (Inl rc, w1) \<Rightarrow> Some (rc, acts, w1)
      | Some (Inr req1, w1) \<Rightarrow>
          (case req_renamed_path req1 of
             None \<Rightarrow> Some (0, acts, w1)
           | Some renamed \<Rightarrow>
               if renamed = VDEV_DEVICE_PATH_UNKNOWN then
                 map_option (\<lambda>(acts', w'). (0, acts', w')) (device_run_actions lib st acts req1 False w1)
               else
                 (case (if req_dev req1 \<noteq> 0 \<and> req_mode req1 \<noteq> 0 then device_add_node st req1 renamed w1
                        else device_add_event st req1 w1) of
                    None \<Rightarrow> None
                  | Some (Inl rc, w2) \<Rightarrow> Some (rc, acts, w2)
                  | Some (Inr (rc, ex), w2) \<Rightarrow>
                      if rc \<noteq> 0 then Some (0, acts, w2)
                      else
                        (case vdev_device_put_metadata st req1 w2 of
                           None \<Rightarrow> None
                         | Some (rc', w3) \<Rightarrow>
                             if rc' \<noteq> 0 then Some (0, acts, w3)
                             else map_option (\<lambda>(acts', w'). (0, acts', w')) (device_run_actions lib st acts req1 ex w3)))))"

section \<open>Removing and changing a device\<close>

text \<open>The node, and an attempt at its directories; errors are only logged.\<close>

definition device_remove_node :: "'z vdev_base_state_scheme \<Rightarrow> cstr \<Rightarrow> world \<Rightarrow> world" where
  "device_remove_node st renamed w =
     (let fp = vdev_fullpath (st_mountpoint st) renamed
      in snd (vdev_rmdirs fp (snd (sys_unlink fp w))))"

definition vdev_device_remove ::
  "regex_lib \<Rightarrow> 'z vdev_base_state_scheme \<Rightarrow> vdev_action list \<Rightarrow> vdev_device_request \<Rightarrow> world \<Rightarrow>
   (rc \<times> vdev_action list \<times> world) option" where
  "vdev_device_remove lib st acts req w =
     (case device_rename lib st acts req w of
        None \<Rightarrow> None
      | Some (Inl rc, w1) \<Rightarrow> Some (rc, acts, w1)
      | Some (Inr req1, w1) \<Rightarrow>
          (case req_renamed_path req1 of
             None \<Rightarrow> Some (- ENOMEM, acts, w1)
           | Some renamed \<Rightarrow>
               (case device_run_actions lib st acts req1 True w1 of
                  None \<Rightarrow> None
                | Some (acts', w2) \<Rightarrow>
                    if renamed = VDEV_DEVICE_PATH_UNKNOWN then Some (0, acts', w2)
                    else
                      (let w3 = (if req_dev req1 \<noteq> 0 \<and> req_mode req1 \<noteq> 0 \<and>
                                    \<not> vdev_config_has_OS_quirk (conf_OS_quirks (st_config st)) VDEV_OS_QUIRK_DEVICE_EXISTS
                                 then device_remove_node st renamed w2 else w2)
                       in map_option (\<lambda>(rc, w4). (0, acts', w4)) (vdev_device_remove_metadata st req1 w3)))))"

definition vdev_device_change ::
  "regex_lib \<Rightarrow> 'z vdev_base_state_scheme \<Rightarrow> vdev_action list \<Rightarrow> vdev_device_request \<Rightarrow> world \<Rightarrow>
   (rc \<times> vdev_action list \<times> world) option" where
  "vdev_device_change lib st acts req w =
     (case device_rename lib st acts req w of
        None \<Rightarrow> None
      | Some (Inl rc, w1) \<Rightarrow> Some (rc, acts, w1)
      | Some (Inr req1, w1) \<Rightarrow>
          if req_renamed_path req1 = None then Some (0, acts, w1)
          else
            (case vdev_device_has_metadata st req1 w1 of
               None \<Rightarrow> None
             | Some md \<Rightarrow>
                 if md \<noteq> 0 then map_option (\<lambda>(acts', w'). (0, acts', w')) (device_run_actions lib st acts req1 True w1)
                 else Some (0, acts, w1)))"

section \<open>The work queue\<close>

text \<open>A work item is a handler with its request.\<close>

datatype device_work = WorkAdd vdev_device_request | WorkRemove vdev_device_request | WorkChange vdev_device_request

definition vdev_device_request_enqueue ::
  "bool \<Rightarrow> device_work vdev_wq \<Rightarrow> vdev_device_request \<Rightarrow> rc \<times> device_work vdev_wq" where
  "vdev_device_request_enqueue alloc wq req =
     (if vdev_device_request_sanity_check req \<noteq> 0 then (- EINVAL, wq)
      else (case req_type req of
              VDEV_DEVICE_ADD \<Rightarrow> vdev_wq_add alloc (WorkAdd req) wq
            | VDEV_DEVICE_REMOVE \<Rightarrow> vdev_wq_add alloc (WorkRemove req) wq
            | VDEV_DEVICE_CHANGE \<Rightarrow> vdev_wq_add alloc (WorkChange req) wq
            | _ \<Rightarrow> (- EINVAL, wq)))"

text \<open>What the worker runs for an item.\<close>

definition device_work_run ::
  "regex_lib \<Rightarrow> 'z vdev_base_state_scheme \<Rightarrow> device_work \<Rightarrow> vdev_action list \<times> world \<Rightarrow> (vdev_action list \<times> world) option" where
  "device_work_run lib st item s =
     map_option (\<lambda>(rc, acts, w). (acts, w))
       (case item of
          WorkAdd req \<Rightarrow> vdev_device_add lib st (fst s) req (snd s)
        | WorkRemove req \<Rightarrow> vdev_device_remove lib st (fst s) req (snd s)
        | WorkChange req \<Rightarrow> vdev_device_change lib st (fst s) req (snd s))"

section \<open>The effect of adding a device\<close>

text \<open>Where the node of a device is.\<close>

definition node_path :: "cstr \<Rightarrow> cstr \<Rightarrow> fpath" where
  "node_path mp name = path_components mp @ path_components name"

text \<open>A name that a device node can have: relative, not a directory's, without dots.\<close>

definition node_name :: "cstr \<Rightarrow> bool" where
  "node_name name \<longleftrightarrow> name \<noteq> [] \<and> hd name \<noteq> SLASH \<and> last name \<noteq> SLASH \<and> dot_free name"

lemma device_mkdirs_creates:
  assumes calm: "\<And>op p. w_fault w op p = 0" and mp: "mp \<noteq> []" "dot_free mp" "node_name name" "st_mountpoint st = mp"
    and mount: "dirs_upto (w_fs w) (path_components mp)"
    and free: "\<And>k. fs_get (w_fs w) (take k (butlast (node_path mp name))) \<in> {None, Some FDir}"
  obtains w' where "vdev_device_mkdirs st name w = (0, vdev_fullpath mp name, w')" "\<And>op p. w_fault w' op p = 0"
    "fs_dirs_added (w_fs w) (w_fs w')" "dirs_upto (w_fs w') (butlast (node_path mp name))"
    "\<And>q. fs_get (w_fs w') q \<noteq> fs_get (w_fs w) q \<Longrightarrow> \<exists>k. q = take k (butlast (node_path mp name))"
proof (cases name rule: path_shape)
  case name
  with mp(3) have "node_path mp name = path_components mp @ [name]" by (simp add: node_path_def components_name node_name_def)
  with name mount calm show thesis by (intro that [of w]) (auto simp: vdev_device_mkdirs_def mp(4))
next
  case (slash d b)
  from slash mp(3) have d: "d \<noteq> []" "hd d \<noteq> SLASH" "b \<noteq> []" by (auto simp: node_name_def hd_append split: if_splits)
  let ?dir = "vdev_fullpath mp d"
  have np: "node_path mp name = path_components ?dir @ [b]"
    using slash d by (simp add: node_path_def fullpath_components components_slash components_name)
  have pc: "path_components ?dir = butlast (node_path mp name)" by (simp add: np)
  have df: "dot_free ?dir"
    using mp(2,3) slash(1) by (auto simp: dot_free_def node_name_def fullpath_components components_slash)
  have fr: "fs_get (w_fs w) (take k (path_components ?dir)) \<in> {None, Some FDir}" for k
    using free [of k] by (simp only: pc)
  have ln: "0 < length mp" "length mp \<le> length ?dir" using mp(1) by (auto simp: vdev_fullpath_def)
  have cut: "length mp = length ?dir \<or> char_at ?dir (length mp) = SLASH \<or> char_at ?dir (length mp - 1) = SLASH"
    using fullpath_cut [OF mp(1) d(1)] by blast
  have mt: "dirs_upto (w_fs w) (path_components (take (length mp) ?dir))" using mount by (simp add: fullpath_take)
  obtain w' where w': "vdev_mkdirs ?dir (length mp) w = (0, w')" "dirs_upto (w_fs w') (path_components ?dir)" "mkdirs_frame w w'"
      "\<And>q. fs_get (w_fs w') q \<noteq> fs_get (w_fs w) q \<Longrightarrow> \<exists>k. q = take k (path_components ?dir)"
    by (rule mkdirs_creates [OF calm df ln cut mt fr]) blast
  have "vdev_device_mkdirs st name w = (0, vdev_fullpath mp name, w')"
    using slash w'(1) fullpath_dirname [OF d(1,2) slash(2) d(3)] by (simp add: vdev_device_mkdirs_def mp(4) Let_def)
  then show thesis
    by (rule that) (use w' calm in \<open>simp_all add: mkdirs_frame_def pc\<close>)
qed


lemma node_name_components: "node_name name \<Longrightarrow> path_components name \<noteq> []"
  by (cases name rule: path_shape) (auto simp: node_name_def components_name components_slash last_append split: if_splits)

lemma node_below_metadata:
  assumes "node_name name" "hd (path_components name) \<noteq> ''metadata''"
  shows "take k (node_path mp name) \<noteq> path_components mp @ ''metadata'' # xs"
proof
  assume t: "take k (node_path mp name) = path_components mp @ ''metadata'' # xs"
  then have "length (path_components mp @ ''metadata'' # xs) \<le> k" by (metis length_take min.cobounded2)
  then have "length (path_components mp) < k" by simp
  with t assms node_name_components [OF assms(1)] show False
    by (cases "path_components name"; cases "k - length (path_components mp)") (auto simp: node_path_def)
qed

lemma metadata_not_node:
  assumes "node_name name" "hd (path_components name) \<noteq> ''metadata''"
  shows "take k (metadata_path mp name) \<noteq> node_path mp name" "metadata_path mp name @ xs \<noteq> take j (node_path mp name)"
    "take k (path_components mp) \<noteq> node_path mp name"
proof -
  show "metadata_path mp name @ xs \<noteq> take j (node_path mp name)"
    using node_below_metadata [OF assms, of j mp "''dev'' # path_components name @ xs"] by (simp add: metadata_path_def)
  show m: "take k (path_components mp) \<noteq> node_path mp name" for k
  proof
    assume "take k (path_components mp) = node_path mp name"
    then have "length (node_path mp name) \<le> length (path_components mp)" by (metis length_take min.cobounded1)
    with node_name_components [OF assms(1)] show False by (simp add: node_path_def)
  qed
  show "take k (metadata_path mp name) \<noteq> node_path mp name"
  proof (cases "k \<le> length (path_components mp)")
    case True
    with m [of k] show ?thesis by (simp add: metadata_path_def)
  next
    case False
    then obtain n where "k - length (path_components mp) = Suc n" by (cases "k - length (path_components mp)") auto
    then have "take k (metadata_path mp name) = path_components mp @ ''metadata'' # take n (''dev'' # path_components name)"
      using False by (simp add: metadata_path_def)
    with node_below_metadata [OF assms, of "length (node_path mp name)" mp] show ?thesis by (metis order_refl take_all)
  qed
qed

lemma node_resolve:
  assumes "dot_free mp" "node_name name"
  shows "resolve (vdev_fullpath mp name) = node_path mp name"
proof -
  have "dot_free (vdev_fullpath mp name)" using assms by (auto simp: dot_free_def node_name_def fullpath_components)
  then show ?thesis by (simp add: resolve_dot_free node_path_def fullpath_components)
qed

lemma node_not_below: "p \<noteq> [] \<Longrightarrow> p \<noteq> take k (butlast p)"
  using snoc_not_take [of "butlast p" "last p" k] by simp

text \<open>What happens once the node is dealt with: metadata, then the actions.\<close>

lemma device_add_finish:
  assumes rename: "device_rename lib st acts req w = Some (Inr req1, w1)" "req_renamed_path req1 = Some name"
    and name: "node_name name" "hd (path_components name) \<noteq> ''metadata''" "name \<noteq> VDEV_DEVICE_PATH_UNKNOWN"
    and dev: "req_dev req1 \<noteq> 0" "req_mode req1 \<noteq> 0"
    and st: "2 \<le> length (st_mountpoint st)" "dot_free (st_mountpoint st)" "length (conf_instance_str (st_config st)) < 2 ^ 32 - 1"
    and node: "device_add_node st req1 name w1 = Some (Inr (0, ex), wb)" "\<And>op p. w_fault wb op p = 0"
      "fs_extends (w_fs w1) m (w_fs wb)" "dom m \<subseteq> {node_path (st_mountpoint st) name}"
      "\<And>q. fs_get (w_fs wb) q \<noteq> fs_get (w_fs w1) q \<Longrightarrow> \<exists>k. q = take k (node_path (st_mountpoint st) name)"
    and mount: "dirs_upto (w_fs w1) (path_components (st_mountpoint st))"
    and meta: "\<And>k. fs_get (w_fs w1) (take k (metadata_path (st_mountpoint st) name)) \<in> {None, Some FDir}"
      "\<And>n. fs_get (w_fs w1) (metadata_path (st_mountpoint st) name @ [VDEV_METADATA_PARAM_INSTANCE]) = Some n \<Longrightarrow> \<exists>d. n = FReg d"
  shows "\<exists>w2. vdev_device_add lib st acts req w =
      map_option (\<lambda>(acts', w'). (0, acts', w')) (device_run_actions lib st acts req1 ex w2) \<and>
    fs_extends (w_fs w1)
      (m(metadata_path (st_mountpoint st) name @ [VDEV_METADATA_PARAM_INSTANCE] \<mapsto> FReg (conf_instance_str (st_config st) @ [NL])))
      (w_fs w2)"
proof -
  let ?mp = "st_mountpoint st"
  let ?i = "metadata_path ?mp name @ [VDEV_METADATA_PARAM_INSTANCE]"
  note apart = metadata_not_node [OF name(1,2), where mp = ?mp]
  have keep: "fs_get (w_fs wb) q \<in> {None, Some FDir}" if "q \<noteq> node_path ?mp name" "fs_get (w_fs w1) q \<in> {None, Some FDir}" for q
    using that spec [OF node(3) [unfolded fs_extends_def], of q] node(4) by (cases "m q") auto
  have "fs_get (w_fs wb) (take k (path_components ?mp)) = Some FDir" if "k \<le> length (path_components ?mp)" for k
    using that mount apart(3) [of k] spec [OF node(3) [unfolded fs_extends_def], of "take k (path_components ?mp)"] node(4)
    by (cases "m (take k (path_components ?mp))") (auto simp: dirs_upto_def)
  then have mount': "dirs_upto (w_fs wb) (path_components ?mp)" by (simp add: dirs_upto_def)
  have meta': "fs_get (w_fs wb) (take k (metadata_path ?mp name)) \<in> {None, Some FDir}" for k
    using keep [OF apart(1) meta(1)] .
  have "fs_get (w_fs wb) ?i = fs_get (w_fs w1) ?i" using node(5) apart(2) by metis
  with meta(2) have old': "\<exists>d. n = FReg d" if "fs_get (w_fs wb) ?i = Some n" for n using that by simp
  have "dot_free name" using name(1) by (simp add: node_name_def)
  then obtain wc where wc: "vdev_device_put_metadata st req1 wb = Some (0, wc)"
      "fs_extends (w_fs wb) [?i \<mapsto> FReg (conf_instance_str (st_config st) @ [NL])] (w_fs wc)"
    by (rule put_metadata_stores [OF node(2) st(1,2) _ refl st(3) rename(2) name(3) mount' meta' old']) blast
  have "vdev_device_add lib st acts req w =
      map_option (\<lambda>(acts', w'). (0, acts', w')) (device_run_actions lib st acts req1 ex wc)"
    using rename name(3) dev node(1) wc(1) by (simp add: vdev_device_add_def)
  with fs_extends_trans [OF node(3) wc(2)] show ?thesis by (intro exI [of _ wc]) simp
qed

lemma take_butlast_free:
  assumes "\<And>k. k < length p \<Longrightarrow> fs_get fs (take k p) \<in> S" "p \<noteq> []"
  shows "fs_get fs (take k (butlast p)) \<in> S"
proof -
  have "take k (butlast p) = take (min k (length p - 1)) p" by (simp add: butlast_conv_take)
  moreover have "min k (length p - 1) < length p" using assms(2) by (cases p) auto
  ultimately show ?thesis using assms(1) by metis
qed

text \<open>
  C5: Adding a new device, end to end. Once the name is chosen, if no system call fails and nothing stands
  in the way, \<open>vdev_device_add\<close> makes exactly one node, with the request's device numbers and the
  request's mode together with the configured default bits, at the device's name below the
  mount point; it writes the instance nonce to the device's metadata file; apart from missing
  directories nothing else in the file system changes; and then it runs the ADD actions for a
  device that did not exist.
\<close>

theorem device_add_effect:
  assumes rename: "device_rename lib st acts req w = Some (Inr req1, w1)" "req_renamed_path req1 = Some name"
    and name: "node_name name" "hd (path_components name) \<noteq> ''metadata''" "name \<noteq> VDEV_DEVICE_PATH_UNKNOWN"
    and dev: "req_dev req1 \<noteq> 0" "req_mode req1 \<noteq> 0" "\<not> req_exists req1"
    and st: "\<not> vdev_config_has_OS_quirk (conf_OS_quirks (st_config st)) VDEV_OS_QUIRK_DEVICE_EXISTS"
      "2 \<le> length (st_mountpoint st)" "dot_free (st_mountpoint st)" "length (conf_instance_str (st_config st)) < 2 ^ 32 - 1"
    and calm: "\<And>op p. w_fault w1 op p = 0"
    and mount: "dirs_upto (w_fs w1) (path_components (st_mountpoint st))"
    and node: "\<And>k. k < length (node_path (st_mountpoint st) name) \<Longrightarrow>
        fs_get (w_fs w1) (take k (node_path (st_mountpoint st) name)) \<in> {None, Some FDir}"
      "fs_get (w_fs w1) (node_path (st_mountpoint st) name) = None"
    and meta: "\<And>k. fs_get (w_fs w1) (take k (metadata_path (st_mountpoint st) name)) \<in> {None, Some FDir}"
      "\<And>n. fs_get (w_fs w1) (metadata_path (st_mountpoint st) name @ [VDEV_METADATA_PARAM_INSTANCE]) = Some n \<Longrightarrow> \<exists>d. n = FReg d"
  shows "\<exists>w2. vdev_device_add lib st acts req w =
      map_option (\<lambda>(acts', w'). (0, acts', w')) (device_run_actions lib st acts req1 False w2) \<and>
    fs_extends (w_fs w1)
      [node_path (st_mountpoint st) name \<mapsto> FDev (or (req_mode req1) (conf_default_mode (st_config st))) (req_dev req1),
       metadata_path (st_mountpoint st) name @ [VDEV_METADATA_PARAM_INSTANCE] \<mapsto> FReg (conf_instance_str (st_config st) @ [NL])]
      (w_fs w2)"
proof -
  let ?mp = "st_mountpoint st"
  let ?fp = "vdev_fullpath ?mp name"
  let ?node = "node_path ?mp name"
  let ?m = "or (req_mode req1) (conf_default_mode (st_config st))"
  from st(2) have ne: "?mp \<noteq> []" "?fp \<noteq> []" by (auto simp: vdev_fullpath_def)
  have nn: "?node \<noteq> []" using node_name_components [OF name(1)] by (simp add: node_path_def)
  note res = node_resolve [OF st(3) name(1)]
  obtain wa where wa: "vdev_device_mkdirs st name w1 = (0, ?fp, wa)" "\<And>op p. w_fault wa op p = 0"
      "fs_dirs_added (w_fs w1) (w_fs wa)" "dirs_upto (w_fs wa) (butlast ?node)"
      "\<And>q. fs_get (w_fs wa) q \<noteq> fs_get (w_fs w1) q \<Longrightarrow> \<exists>k. q = take k (butlast ?node)"
    by (rule device_mkdirs_creates [OF calm ne(1) st(3) name(1) refl mount take_butlast_free [OF node(1) nn]]) blast+
  have "fs_get (w_fs wa) ?node = None" using wa(5) [of ?node] node_not_below [OF nn] node(2) by metis
  with res wa(4) obtain wb where wb: "sys_mknod ?fp ?m (req_dev req1) wa = (0, wb)" "\<And>op p. w_fault wb op p = 0"
      "\<And>q. fs_get (w_fs wb) q = (if q = ?node then Some (FDev ?m (req_dev req1)) else fs_get (w_fs wa) q)"
    using mknod_creates [OF wa(2) ne(2), of ?m "req_dev req1"] by metis
  have nd: "device_add_node st req1 name w1 = Some (Inr (0, False), wb)"
    using wa(1) wb(1) st(1) dev(3) by (simp add: device_add_node_def)
  have ext: "fs_extends (w_fs w1) [?node \<mapsto> FDev ?m (req_dev req1)] (w_fs wb)"
    using fs_extends_trans [OF fs_extends_dirs [OF wa(3)] fs_extends_upd [OF wb(3)]] by simp
  have only: "\<exists>k. q = take k ?node" if "fs_get (w_fs wb) q \<noteq> fs_get (w_fs w1) q" for q
    using that wa(5) [of q] by (cases "q = ?node") (auto simp: wb(3) butlast_conv_take intro: exI [of _ "length ?node"])
  show ?thesis by (rule device_add_finish [OF rename name dev(1,2) st(2-4) nd wb(2) ext _ only mount meta]) auto
qed


section \<open>The effect of removing and changing a device\<close>

text \<open>
  After the node is unlinked nothing is at its path, so the \<open>rmdir\<close> that
  \<open>vdev_rmdirs\<close> starts with fails, and no directory is ever cleaned up.
\<close>

lemma rmdirs_nothing: "fs_get (w_fs w) (resolve p) = None \<Longrightarrow> snd (vdev_rmdirs p w) = w"
  by (subst vdev_rmdirs.simps) (auto simp: sys_rmdir_def lookup_errno_def sys_pre_def)

text \<open>
  C7: Removing a device takes away its node and nothing else: if the \<open>unlink\<close> succeeds, every other
  path is as before. In particular the directories above the node stay, even when they are
  now empty: the clean-up that follows is called on the node's own path, which is already gone.
\<close>

theorem device_remove_node_exact:
  assumes "sys_unlink (vdev_fullpath (st_mountpoint st) name) w = (0, w')"
  shows "device_remove_node st name w = w' \<and>
    (\<forall>q. fs_get (w_fs w') q =
       (if q = resolve (vdev_fullpath (st_mountpoint st) name) then None else fs_get (w_fs w) q))"
proof -
  let ?p = "resolve (vdev_fullpath (st_mountpoint st) name)"
  from assms have g: "?p \<noteq> []" "w_fs w' = fs_del (w_fs w) ?p"
    by (auto simp: sys_unlink_def split: if_splits)
  then have "fs_get (w_fs w') ?p = None" by simp
  with assms rmdirs_nothing [of w'] g show ?thesis by (simp add: device_remove_node_def)
qed

text \<open>
  The test for metadata in \<open>vdev_device_change\<close> is the wrong way round: the CHANGE actions run
  only for a device without metadata, that is, one that vdevd has not processed.
\<close>

lemma device_change_known_device:
  assumes "device_rename lib st acts req w = Some (Inr req1, w1)" "vdev_device_has_metadata st req1 w1 = Some 0"
  shows "vdev_device_change lib st acts req w = Some (0, acts, w1)"
  using assms by (simp add: vdev_device_change_def)

text \<open>The same happens when devtmpfs makes the nodes: a new device counts as existing, a known one as new.\<close>

lemma device_add_quirk_inverted:
  assumes "vdev_device_mkdirs st name w = (0, fp, w1)" "vdev_device_has_metadata st req w1 = Some md"
    and "vdev_config_has_OS_quirk (conf_OS_quirks (st_config st)) VDEV_OS_QUIRK_DEVICE_EXISTS"
  shows "device_add_node st req name w = Some (Inr (0, md \<noteq> 0), w1)"
  using assms by (simp add: device_add_node_def)

section \<open>Examples\<close>

definition add_witness_world :: world where
  "add_witness_world = calm_world\<lparr>w_fs := [([''dev''], FDir)]\<rparr>"

theorem device_add_effect_witness:
  "\<exists>w2. vdev_device_add literal_regex_lib env_witness_state [] env_witness_request add_witness_world = Some (0, [], w2) \<and>
     fs_extends (w_fs add_witness_world)
       [[''dev'', ''sda''] \<mapsto> FDev S_IFBLK 0x800,
        [''dev'', ''metadata'', ''dev'', ''sda'', ''vdev_instance''] \<mapsto> FReg [NL]]
       (w_fs w2)"
proof -
  let ?r = "env_witness_request\<lparr>req_renamed_path := Some ''sda''\<rparr>"
  have rename: "device_rename literal_regex_lib env_witness_state [] env_witness_request add_witness_world = Some (Inr ?r, add_witness_world)"
    by (simp add: device_rename_def vdev_action_create_path_def create_path_loop.simps create_path_finish_def witness_state_request)
  have run: "device_run_actions literal_regex_lib env_witness_state [] ?r False w = Some ([], w)" for w
    by (simp add: device_run_actions_def vdev_action_run_commands_def run_commands_loop.simps)
  have free: "fs_get (w_fs add_witness_world) (take k p) \<in> {None, Some FDir}" for k p
    by (auto simp: add_witness_world_def fs_get_def)
  have inst: "conf_instance_str (st_config env_witness_state) = []" "conf_default_mode (st_config env_witness_state) = 0"
    "\<not> vdev_config_has_OS_quirk (conf_OS_quirks (st_config env_witness_state)) VDEV_OS_QUIRK_DEVICE_EXISTS"
    by (simp_all add: env_witness_state_def vdev_config_init_def vdev_config_has_OS_quirk_def)
  have dirs: "dirs_upto (w_fs add_witness_world) [''dev'']"
    by (auto simp: dirs_upto_def add_witness_world_def fs_get_def take_Cons split: nat.splits)
  have calm: "w_fault add_witness_world op p = 0" for op p by (simp add: add_witness_world_def calm_world_def)
  have none: "fs_get (w_fs add_witness_world) [''dev'', ''sda''] = None"
    "fs_get (w_fs add_witness_world) [''dev'', ''metadata'', ''dev'', ''sda'', ''vdev_instance''] = None"
    by (simp_all add: add_witness_world_def fs_get_def)
  show ?thesis
    using device_add_effect [OF rename, of "''sda''"] free dirs inst calm none
    by (simp add: witness_paths witness_state_request node_name_def node_path_def metadata_path_def run VDEV_DEVICE_PATH_UNKNOWN_def
       VDEV_METADATA_PARAM_INSTANCE_def)
qed

lemma witness_rename:
  "device_rename literal_regex_lib env_witness_state [] env_witness_request w =
     Some (Inr (env_witness_request\<lparr>req_renamed_path := Some ''sda''\<rparr>), w)"
  by (simp add: device_rename_def vdev_action_create_path_def create_path_loop.simps create_path_finish_def witness_state_request)

lemma take_witness: "take k [a, b] \<in> {[], [a], [a, b]}" "take k [a, b, c, d] \<in> {[], [a], [a, b], [a, b, c], [a, b, c, d]}"
  by (auto simp: take_Cons split: nat.splits)


theorem device_remove_node_exact_witness:
  "\<exists>w'. device_remove_node env_witness_state ''sda'' metadata_witness_world = w' \<and>
     (\<forall>q. fs_get (w_fs w') q = (if q = [''dev'', ''sda''] then None else fs_get (w_fs metadata_witness_world) q))"
proof -
  let ?p = "vdev_fullpath (st_mountpoint env_witness_state) ''sda''"
  have r: "resolve ?p = [''dev'', ''sda'']" "?p \<noteq> []"
    using node_resolve [of "''/dev''" "''sda''"] by (simp_all add: witness_paths witness_state_request node_name_def node_path_def vdev_fullpath_def)
  have "fs_get (w_fs metadata_witness_world) (resolve ?p) = Some (FDev S_IFBLK 0x800)"
    unfolding r by (simp add: metadata_witness_world_def fs_get_def)
  then obtain w' where "sys_unlink ?p metadata_witness_world = (0, w')"
    using unlink_node [OF metadata_witness_tree(1) r(2)] by blast
  from device_remove_node_exact [OF this] show ?thesis unfolding r by blast
qed

end
