(* ===== verification/Vdevd_Linux.thy ===== *)
theory Vdevd_Linux
  imports Vdevd_Uevent Sglib_Vector Vdevd_Device
begin

text \<open>
  The second half of \<^verbatim>\<open>vdevd/os/linux.c\<close>, and \<^verbatim>\<open>vdevd/os/common.c\<close>: the devices that sysfs lists when vdevd
  starts (coldplug), then the messages that the kernel sends over a netlink socket, each turned into
  a request on the work queue.

  A script of netlink messages stands for what the socket delivers; its end means that \<open>poll\<close> waits.
\<close>

section \<open>linux.c: mount points\<close>

text \<open>\<open>getmntent_r\<close> returns \<open>NULL\<close> at the end of the list.\<close>

definition vdev_linux_find_sysfs_mountpoint :: "linux_os \<Rightarrow> rc + cstr" where
  "vdev_linux_find_sysfs_mountpoint os =
     (case lx_mounts os of
        Inl e \<Rightarrow> Inl (- e)
      | Inr mounts \<Rightarrow>
          (case find (\<lambda>m. strcmp (snd m) ''sysfs'' = 0) mounts of
             None \<Rightarrow> Inl (- EINVAL)
           | Some m \<Rightarrow> Inr (take (PATH_MAX - 1) (fst m))))"

definition devtmpfs_contains :: "cstr \<Rightarrow> cstr \<Rightarrow> bool" where
  "devtmpfs_contains devtmpfs mountpoint \<longleftrightarrow>
     (let min_len = min (length devtmpfs) (length mountpoint)
      in take min_len devtmpfs = take min_len mountpoint \<and>
         (strchr (drop min_len mountpoint) SLASH \<noteq> None \<or> strcmp devtmpfs mountpoint = 0))"

fun devtmpfs_loop :: "linux_os \<Rightarrow> cstr \<Rightarrow> (cstr \<times> cstr) list \<Rightarrow> rc" where
  "devtmpfs_loop os mountpoint [] = 0"
| "devtmpfs_loop os mountpoint (m # ms) =
     (if strcmp (snd m) ''devtmpfs'' = 0 then
        (case lx_realpath os mountpoint of
           Inl e \<Rightarrow> - e
         | Inr rp \<Rightarrow>
             (case lx_realpath os (take PATH_MAX (fst m)) of
                Inl e \<Rightarrow> - e
              | Inr drp \<Rightarrow> if devtmpfs_contains drp rp then 1 else devtmpfs_loop os mountpoint ms))
      else devtmpfs_loop os mountpoint ms)"

definition vdev_linux_mountpoint_on_devtmpfs :: "linux_os \<Rightarrow> cstr \<Rightarrow> rc" where
  "vdev_linux_mountpoint_on_devtmpfs os mountpoint =
     (case lx_mounts os of Inl e \<Rightarrow> - e | Inr mounts \<Rightarrow> devtmpfs_loop os mountpoint mounts)"

section \<open>linux.c: one device of sysfs\<close>

text \<open>How many bytes of the block are strings: up to the first empty one. \<open>None\<close>: a string has no end.\<close>

function uevent_length :: "cbuf \<Rightarrow> nat option" where
  "uevent_length buf =
     (if buf = [] then Some 0
      else if hd buf = NUL then Some 0
      else
        (case block_str buf of
           None \<Rightarrow> None
         | Some line \<Rightarrow> map_option (\<lambda>n. length line + 1 + n) (uevent_length (drop (length line + 1) buf))))"
  by pat_completeness auto

termination uevent_length
  by (relation "measure length") auto

declare uevent_length.simps [simp del]

definition vdev_linux_sysfs_read_uevent :: "linux_os \<Rightarrow> cstr \<Rightarrow> world \<Rightarrow> (rc + cbuf) option" where
  "vdev_linux_sysfs_read_uevent os fp_uevent w =
     (case sys_stat fp_uevent w of
        Inl e \<Rightarrow> Some (Inl (- e))
      | Inr _ \<Rightarrow>
          (case vdev_read_file (Some fp_uevent) (lx_st_size os fp_uevent) w of
             Inl rc \<Rightarrow> Some (Inl rc)
           | Inr buf \<Rightarrow>
               (let uevent_buf = map (\<lambda>c. if c = NL then NUL else c) buf
                in map_option (\<lambda>n. Inr (take n uevent_buf)) (uevent_length uevent_buf))))"

definition vdev_linux_uevent_append :: "cbuf \<Rightarrow> cstr \<Rightarrow> cstr \<Rightarrow> cbuf" where
  "vdev_linux_uevent_append buf key value = buf @ key @ CHR ''='' # value @ [NUL]"

text \<open>\<open>strstr\<close>: the rest of the string from the first occurrence on.\<close>

fun strstr :: "cstr \<Rightarrow> cstr \<Rightarrow> cstr option" where
  "strstr [] t = (if t = [] then Some [] else None)"
| "strstr (x # xs) t = (if prefix t (x # xs) then Some (x # xs) else strstr xs t)"

text \<open>
  The name that is cut out of the first line of the uevent. It is only passed to the request's
  constructor, whose path is overwritten later. If nothing is left of it, the code frees a pointer
  into the middle of the block: the result is \<open>False\<close>.
\<close>

definition register_devname_safe :: "cbuf \<Rightarrow> bool" where
  "register_devname_safe buf =
     (case strstr (cstr_of buf) ''DEVNAME='' of
        None \<Rightarrow> True
      | Some t \<Rightarrow>
          (let start = length (cstr_of buf) - length t + length ''DEVNAME='' + 1
           in takeWhile (\<lambda>c. c \<noteq> NL) (cstr_of (drop start buf)) \<noteq> []))"

text \<open>The state of the back end: \<open>struct vdev_linux_context\<close>, and what it uses of \<open>struct vdev_os_context\<close>.\<close>

record vdev_linux_context =
  lc_sysfs_mountpoint :: cstr
  lc_initial_requests :: "vdev_device_request list"
  lc_coldplug_only :: bool
  lc_coldplug_finished :: bool

definition vdev_linux_sysfs_register_device ::
  "linux_os \<Rightarrow> world \<Rightarrow> vdev_linux_context \<Rightarrow> cstr \<Rightarrow> (rc \<times> vdev_linux_context) option" where
  "vdev_linux_sysfs_register_device os w ctx fp_uevent =
     (let full_devpath = vdev_dirname fp_uevent; mp = lc_sysfs_mountpoint ctx
      in case vdev_linux_sysfs_read_uevent os fp_uevent w of
           None \<Rightarrow> None
         | Some (Inl rc) \<Rightarrow> Some (rc, ctx)
         | Some (Inr uevent) \<Rightarrow>
             if uevent = [] then Some (0, ctx)
             else if length full_devpath < length mp then None
             else
               (let buf1 = vdev_linux_uevent_append uevent ''ACTION'' ''add'';
                    buf2 = vdev_linux_uevent_append buf1 ''DEVPATH'' (drop (length mp) full_devpath)
                in if \<not> register_devname_safe buf1 then None
                   else
                     (case vdev_linux_parse_request os mp (vdev_device_request_init VDEV_DEVICE_INVALID None) buf2 w of
                        None \<Rightarrow> None
                      | Some (rc, vreq) \<Rightarrow>
                          if rc \<noteq> 0 then Some (rc, ctx)
                          else Some (0, ctx\<lparr>lc_initial_requests := lc_initial_requests ctx @ [vreq]\<rparr>))))"

section \<open>linux.c: all devices of sysfs\<close>

text \<open>\<open>rindex\<close>: the rest of the string from the last occurrence on.\<close>

definition rindex :: "cstr \<Rightarrow> char \<Rightarrow> cstr option" where
  "rindex s c = (if c \<in> set s then Some (c # rev (takeWhile (\<lambda>x. x \<noteq> c) (rev s))) else None)"

record sysfs_scan_context =
  sc_uevent_path :: "cstr option"
  sc_frontier :: "cstr option vector"

definition vdev_linux_sysfs_scan_device_directory ::
  "world \<Rightarrow> cstr \<Rightarrow> sysfs_scan_context option \<Rightarrow> rc \<times> sysfs_scan_context option" where
  "vdev_linux_sysfs_scan_device_directory w fp s =
     (case (s, rindex fp SLASH) of
        (None, _) \<Rightarrow> (0, None)
      | (_, None) \<Rightarrow> (0, s)
      | (Some scan_ctx, Some fp_base) \<Rightarrow>
          if fp_base = ''/.'' \<or> fp_base = ''/..'' then (0, s)
          else
            (case sys_stat fp w of
               Inl e \<Rightarrow> (- e, s)
             | Inr sb \<Rightarrow>
                 if sb \<noteq> FDir \<and> fp_base \<noteq> ''/uevent'' then (0, s)
                 else if sb = FDir then
                   (case vector_push_back True (Some fp) (sc_frontier scan_ctx) of
                      None \<Rightarrow> (0, None)
                    | Some (rc, v) \<Rightarrow> (rc, Some (scan_ctx\<lparr>sc_frontier := v\<rparr>)))
                 else (0, Some (scan_ctx\<lparr>sc_uevent_path := Some fp\<rparr>))))"

text \<open>
  The loop over the frontier. Each turn takes one directory off the end and adds its
  subdirectories; the fuel is the number of turns, and \<open>None\<close> its end, or a crash.
  \<open>find_devices_complete\<close> shows that it suffices.
\<close>

fun find_devices_loop ::
  "nat \<Rightarrow> world \<Rightarrow> sysfs_scan_context \<Rightarrow> cstr option vector \<Rightarrow> (rc \<times> cstr option vector) option" where
  "find_devices_loop 0 w sc uevent_paths = None"
| "find_devices_loop (Suc n) w sc uevent_paths =
     (let len = vector_size (sc_frontier sc)
      in if len = 0 then Some (0, uevent_paths)
         else do {
           device_root \<leftarrow> vector_at (len - 1) (sc_frontier sc);
           (_, v1) \<leftarrow> vector_set None (len - 1) (sc_frontier sc);
           (_, v2) \<leftarrow> vector_pop_back v1;
           (case vdev_load_all device_root (vdev_linux_sysfs_scan_device_directory w) w (Some (sc\<lparr>sc_frontier := v2\<rparr>)) of
              (_, None) \<Rightarrow> None
            | (rc, Some sc1) \<Rightarrow>
                if rc \<noteq> 0 then Some (rc, uevent_paths)
                else
                  (case sc_uevent_path sc1 of
                     None \<Rightarrow> find_devices_loop n w sc1 uevent_paths
                   | Some p \<Rightarrow> do {
                       (rc', paths') \<leftarrow> vector_push_back True (Some p) uevent_paths;
                       if rc' < 0 then Some (rc', paths')
                       else find_devices_loop n w (sc1\<lparr>sc_uevent_path := None\<rparr>) paths'
                     }))
         })"

definition vdev_linux_sysfs_find_devices :: "cstr \<Rightarrow> world \<Rightarrow> (rc \<times> cstr option vector) option" where
  "vdev_linux_sysfs_find_devices sysfs_mountpoint w =
     (case vdev_load_all (Some (vdev_fullpath sysfs_mountpoint ''/devices'')) (vdev_linux_sysfs_scan_device_directory w) w
             (Some \<lparr>sc_uevent_path = None, sc_frontier = vector_init\<rparr>) of
        (_, None) \<Rightarrow> None
      | (rc, Some sc) \<Rightarrow>
          if rc \<noteq> 0 then Some (rc, vector_init)
          else find_devices_loop (Suc (length (w_fs w))) w sc vector_init)"

text \<open>The code of the last device is returned.\<close>

fun register_loop ::
  "linux_os \<Rightarrow> world \<Rightarrow> cstr option vector \<Rightarrow> nat list \<Rightarrow> rc \<Rightarrow> vdev_linux_context \<Rightarrow> (rc \<times> vdev_linux_context) option" where
  "register_loop os w uevent_paths [] rc ctx = Some (rc, ctx)"
| "register_loop os w uevent_paths (i # is) rc ctx = do {
     p \<leftarrow> vector_at i uevent_paths;
     (case p of
        None \<Rightarrow> register_loop os w uevent_paths is rc ctx
      | Some uevent_path \<Rightarrow> do {
          (rc', ctx') \<leftarrow> vdev_linux_sysfs_register_device os w ctx uevent_path;
          register_loop os w uevent_paths is rc' ctx'
        })
   }"

definition vdev_linux_sysfs_register_devices ::
  "linux_os \<Rightarrow> world \<Rightarrow> vdev_linux_context \<Rightarrow> (rc \<times> vdev_linux_context) option" where
  "vdev_linux_sysfs_register_devices os w ctx =
     (case vdev_linux_sysfs_find_devices (lc_sysfs_mountpoint ctx) w of
        None \<Rightarrow> None
      | Some (rc, uevent_paths) \<Rightarrow>
          if rc \<noteq> 0 then Some (rc, ctx)
          else register_loop os w uevent_paths [0..<vector_size uevent_paths] rc ctx)"

section \<open>linux.c: the context\<close>

text \<open>The netlink socket.\<close>

definition linux_netlink_init :: "linux_os \<Rightarrow> rc" where
  "linux_netlink_init os =
     (if lx_socket os \<noteq> 0 then - lx_socket os
      else if lx_euid os = 0 \<and> lx_rcvbuf os \<noteq> 0 then - lx_rcvbuf os
      else if lx_passcred os \<noteq> 0 then - lx_passcred os
      else if lx_bind os \<noteq> 0 then - lx_bind os
      else 0)"

definition vdev_linux_context_init :: "linux_os \<Rightarrow> world \<Rightarrow> bool \<Rightarrow> (rc \<times> vdev_linux_context option) option" where
  "vdev_linux_context_init os w coldplug_only =
     (let rc = (if coldplug_only then 0 else linux_netlink_init os)
      in if rc \<noteq> 0 then Some (rc, None)
         else
           (case vdev_linux_find_sysfs_mountpoint os of
              Inl rc \<Rightarrow> Some (rc, None)
            | Inr mp \<Rightarrow>
                (case vdev_linux_sysfs_register_devices os w
                        \<lparr>lc_sysfs_mountpoint = mp, lc_initial_requests = [], lc_coldplug_only = coldplug_only,
                         lc_coldplug_finished = False\<rparr> of
                   None \<Rightarrow> None
                 | Some (rc, ctx) \<Rightarrow> Some (if rc \<noteq> 0 then (rc, None) else (0, Some ctx)))))"

text \<open>\<open>vdev_os_init\<close>: the result, the configuration (a quirk may be set) and the context.\<close>

definition vdev_os_init ::
  "linux_os \<Rightarrow> world \<Rightarrow> cstr \<Rightarrow> bool \<Rightarrow> vdev_config \<Rightarrow> (rc \<times> vdev_config \<times> vdev_linux_context option) option" where
  "vdev_os_init os w mountpoint coldplug_only config =
     (let rc = vdev_linux_mountpoint_on_devtmpfs os mountpoint
      in if rc < 0 then Some (rc, config, None)
         else
           (let config1 = (if rc > 0 then config\<lparr>conf_OS_quirks := vdev_config_set_OS_quirk (conf_OS_quirks config) VDEV_OS_QUIRK_DEVICE_EXISTS\<rparr>
                           else config)
            in map_option (\<lambda>(rc, ctx). (rc, config1, ctx)) (vdev_linux_context_init os w coldplug_only)))"

definition vdev_linux_context_shutdown :: "vdev_linux_context \<Rightarrow> vdev_linux_context" where
  "vdev_linux_context_shutdown ctx = ctx\<lparr>lc_initial_requests := []\<rparr>"

section \<open>linux.c: the next device\<close>

text \<open>
  What \<open>poll\<close> and \<open>recvmsg\<close> give: errno values, or a message with the user ID of its credentials, if
  there are any, and the sender's port.
\<close>

record nl_message =
  nm_bytes :: "char list"
  nm_uid :: "nat option"
  nm_pid :: nat

datatype nl_event = PollError rc | RecvError rc | NlMessage nl_message

definition VDEV_LINUX_NETLINK_BUF_MAX :: nat where "VDEV_LINUX_NETLINK_BUF_MAX = 4097"

definition VDEV_LINUX_NETLINK_UDEV_HEADER :: "char list" where
  "VDEV_LINUX_NETLINK_UDEV_HEADER = ''libudev'' @ [NUL]"

definition linux_receive ::
  "linux_os \<Rightarrow> world \<Rightarrow> vdev_linux_context \<Rightarrow> vdev_device_request \<Rightarrow> nl_event \<Rightarrow> (rc \<times> vdev_device_request) option" where
  "linux_receive os w ctx vreq ev =
     (case ev of
        PollError e \<Rightarrow> Some (if e = EINTR then - EAGAIN else - e, vreq)
      | RecvError e \<Rightarrow> Some (- e, vreq)
      | NlMessage m \<Rightarrow>
          (let buf = take VDEV_LINUX_NETLINK_BUF_MAX (nm_bytes m)
           in if length buf < 32 \<or> length buf \<ge> VDEV_LINUX_NETLINK_BUF_MAX then Some (- EAGAIN, vreq)
              else if nm_uid m \<noteq> Some 0 then Some (- EAGAIN, vreq)
              else if take 8 buf = VDEV_LINUX_NETLINK_UDEV_HEADER then Some (- EAGAIN, vreq)
              else if nm_pid m > 0 then Some (- EAGAIN, vreq)
              else
                (case vdev_linux_parse_request os (lc_sysfs_mountpoint ctx) vreq buf w of
                   None \<Rightarrow> None
                 | Some (rc, vreq') \<Rightarrow> Some (if rc \<noteq> 0 then - EAGAIN else 0, vreq'))))"

definition vdev_os_context_signal_coldplug_finished :: "vdev_linux_context \<Rightarrow> vdev_linux_context" where
  "vdev_os_context_signal_coldplug_finished ctx = ctx\<lparr>lc_coldplug_finished := True\<rparr>"

text \<open>
  \<open>vdev_os_next_device\<close>. The first result is \<open>None\<close> if there is no event to take, so that \<open>poll\<close> waits.
\<close>

definition vdev_os_next_device ::
  "linux_os \<Rightarrow> world \<Rightarrow> vdev_device_request \<Rightarrow> nl_event list \<Rightarrow> vdev_linux_context \<Rightarrow>
   (rc option \<times> vdev_device_request \<times> nl_event list \<times> vdev_linux_context) option" where
  "vdev_os_next_device os w vreq evs ctx =
     (case lc_initial_requests ctx of
        req # reqs \<Rightarrow>
          (let ctx1 = ctx\<lparr>lc_initial_requests := reqs\<rparr>
           in Some (Some 0, req, evs, if reqs = [] then vdev_os_context_signal_coldplug_finished ctx1 else ctx1))
      | [] \<Rightarrow>
          if lc_coldplug_only ctx then Some (Some 1, vreq, evs, ctx)
          else
            (case evs of
               [] \<Rightarrow> Some (None, vreq, [], ctx)
             | ev # evs' \<Rightarrow> map_option (\<lambda>(rc, vreq'). (Some rc, vreq', evs', ctx)) (linux_receive os w ctx vreq ev)))"

section \<open>common.c: the main loop\<close>

text \<open>A request that is queued also posts the worker's semaphore; one that is refused is freed.\<close>

definition os_enqueue :: "device_work vdev_wq \<Rightarrow> vdev_device_request \<Rightarrow> device_work vdev_wq" where
  "os_enqueue wq vreq =
     (case vdev_device_request_enqueue True wq vreq of (rc, wq') \<Rightarrow> if rc \<noteq> 0 then wq' else wq_post wq')"

text \<open>
  The world is the one the back end reads sysfs from; \<open>running\<close> is set before the loop and never cleared. The result is the return code (\<open>None\<close> while the
  loop waits in \<open>poll\<close>), the context and the queue.
\<close>

function vdev_os_main ::
  "linux_os \<Rightarrow> world \<Rightarrow> nl_event list \<Rightarrow> vdev_linux_context \<Rightarrow> device_work vdev_wq \<Rightarrow>
   (rc option \<times> vdev_linux_context \<times> device_work vdev_wq) option" where
  "vdev_os_main os w evs ctx wq =
     (case vdev_os_next_device os w (vdev_device_request_init VDEV_DEVICE_INVALID None) evs ctx of
        None \<Rightarrow> None
      | Some (None, _, _, ctx') \<Rightarrow> Some (None, ctx', wq)
      | Some (Some rc, vreq, evs', ctx') \<Rightarrow>
          if rc = - EAGAIN then vdev_os_main os w evs' ctx' wq
          else if rc < 0 then Some (Some rc, ctx', wq)
          else if rc > 0 then Some (Some 0, ctx', wq)
          else vdev_os_main os w evs' ctx' (os_enqueue wq vreq))"
  by pat_completeness auto

lemma next_device_progress:
  assumes "vdev_os_next_device os w vreq evs ctx = Some (Some rc, vreq', evs', ctx')" "rc \<le> 0"
  shows "length (lc_initial_requests ctx') + length evs' < length (lc_initial_requests ctx) + length evs"
  using assms by (auto simp: vdev_os_next_device_def vdev_os_context_signal_coldplug_finished_def Let_def split: list.splits if_splits)

termination vdev_os_main
proof (relation "measure (\<lambda>(os, w, evs, ctx, wq). length (lc_initial_requests ctx) + length evs)", goal_cases)
  case (2 os w evs ctx wq r a b rc vreq c evs' ctx')
  then show ?case using next_device_progress [of os w _ evs ctx rc vreq evs' ctx'] by simp
next
  case (3 os w evs ctx wq r a b rc vreq c evs' ctx')
  then show ?case using next_device_progress [of os w _ evs ctx rc vreq evs' ctx'] by simp
qed simp

declare vdev_os_main.simps [simp del]

definition vdev_os_context_init ::
  "linux_os \<Rightarrow> world \<Rightarrow> cstr \<Rightarrow> bool \<Rightarrow> vdev_config \<Rightarrow> (rc \<times> vdev_config \<times> vdev_linux_context option) option" where
  "vdev_os_context_init os w mountpoint coldplug_only config = vdev_os_init os w mountpoint coldplug_only config"

section \<open>Only the kernel is listened to\<close>

lemma last_drop_NUL: "b = [] \<or> last b = NUL \<Longrightarrow> drop n b = [] \<or> last (drop n b) = NUL"
  by (cases "n < length b") auto

lemma uevent_loop_total: "buf = [] \<or> last buf = NUL \<Longrightarrow> uevent_loop buf s \<noteq> None"
proof (induction buf s rule: uevent_loop.induct)
  case (1 buf s)
  have "\<exists>l. block_str buf = Some l" if "buf \<noteq> []" using that 1(2) last_in_set [of buf] by (auto simp: block_str_def)
  then consider "buf = []" | l where "buf \<noteq> []" "block_str buf = Some l" by blast
  then show ?case
  proof cases
    case 2
    with 1(1) last_drop_NUL [OF 1(2)] show ?thesis
      by (subst uevent_loop.simps) (auto split: option.splits prod.splits)
  qed (simp add: uevent_loop.simps)
qed

text \<open>A block whose last byte ends a string is never read past its end.\<close>

lemma parse_request_total:
  assumes "buf \<noteq> []" "last buf = NUL"
  shows "vdev_linux_parse_request os mp vreq buf w \<noteq> None"
proof -
  have "block_str buf = Some (cstr_of buf)" using assms last_in_set [of buf] by (simp add: block_str_def)
  moreover have "uevent_loop (if strchr (cstr_of buf) CHR ''@'' \<noteq> None then drop (length (cstr_of buf) + 1) buf else buf) (uevent_init vreq) \<noteq> None"
    using last_drop_NUL [of buf "length (cstr_of buf) + 1"] assms by (intro uevent_loop_total) auto
  ultimately show ?thesis
    unfolding vdev_linux_parse_request_def by auto
qed

text \<open>What makes a message one of the kernel's: long enough, not cut off, sent by root, not by udev, and not by a process.\<close>

definition nl_kernel :: "nl_message \<Rightarrow> bool" where
  "nl_kernel m \<longleftrightarrow> 32 \<le> length (nm_bytes m) \<and> length (nm_bytes m) < 4097 \<and> nm_uid m = Some 0 \<and> nm_pid m = 0 \<and>
     \<not> prefix (''libudev'' @ [NUL]) (nm_bytes m)"

definition nl_terminated :: "nl_event \<Rightarrow> bool" where
  "nl_terminated ev \<longleftrightarrow> (case ev of NlMessage m \<Rightarrow> nl_kernel m \<longrightarrow> last (nm_bytes m) = NUL | _ \<Rightarrow> True)"

definition nl_fatal :: "nl_event \<Rightarrow> bool" where
  "nl_fatal ev \<longleftrightarrow> (case ev of PollError e \<Rightarrow> e \<noteq> EINTR \<and> e \<noteq> EAGAIN | RecvError e \<Rightarrow> e \<noteq> EAGAIN | _ \<Rightarrow> False)"

text \<open>The request of an event: there is one exactly if a kernel message parses.\<close>

definition nl_request :: "linux_os \<Rightarrow> world \<Rightarrow> cstr \<Rightarrow> nl_event \<Rightarrow> vdev_device_request option" where
  "nl_request os w mp ev =
     (case ev of
        NlMessage m \<Rightarrow>
          if nl_kernel m then
            (case vdev_linux_parse_request os mp (vdev_device_request_init VDEV_DEVICE_INVALID None) (nm_bytes m) w of
               Some (rc, req) \<Rightarrow> if rc = 0 then Some req else None
             | None \<Rightarrow> None)
          else None
      | _ \<Rightarrow> None)"

lemma receive_refines:
  assumes "nl_terminated ev" "\<not> nl_fatal ev"
  shows "\<exists>r. linux_receive os w ctx (vdev_device_request_init VDEV_DEVICE_INVALID None) ev =
    Some (case nl_request os w (lc_sysfs_mountpoint ctx) ev of None \<Rightarrow> (- EAGAIN, r) | Some req \<Rightarrow> (0, req))"
proof (cases ev)
  case (NlMessage m)
  have hdr: "take 8 b = VDEV_LINUX_NETLINK_UDEV_HEADER \<longleftrightarrow> prefix (''libudev'' @ [NUL]) b" for b
    by (auto simp: VDEV_LINUX_NETLINK_UDEV_HEADER_def prefix_def dest: arg_cong [where f = length])
      (metis append_take_drop_id append_Cons)
  show ?thesis
  proof (cases "nl_kernel m")
    case True
    with NlMessage assms(1) have m: "32 \<le> length (nm_bytes m)" "length (nm_bytes m) < 4097" "last (nm_bytes m) = NUL"
      by (auto simp: nl_kernel_def nl_terminated_def)
    then have "nm_bytes m \<noteq> []" by auto
    then obtain rc req where "vdev_linux_parse_request os (lc_sysfs_mountpoint ctx)
        (vdev_device_request_init VDEV_DEVICE_INVALID None) (nm_bytes m) w = Some (rc, req)"
      using parse_request_total m(3) by (metis not_None_eq surj_pair)
    with True m NlMessage show ?thesis
      by (auto simp: linux_receive_def nl_request_def nl_kernel_def VDEV_LINUX_NETLINK_BUF_MAX_def Let_def hdr)
  next
    case False
    then show ?thesis using NlMessage
      by (auto simp: linux_receive_def nl_request_def nl_kernel_def VDEV_LINUX_NETLINK_BUF_MAX_def Let_def hdr)
  qed
qed (use assms in \<open>auto simp: linux_receive_def nl_request_def nl_fatal_def\<close>)

definition request_work :: "vdev_device_request \<Rightarrow> device_work list" where
  "request_work req =
     (case (req_path req, req_type req) of
        (Some _, VDEV_DEVICE_ADD) \<Rightarrow> [WorkAdd req] | (Some _, VDEV_DEVICE_REMOVE) \<Rightarrow> [WorkRemove req]
      | (Some _, VDEV_DEVICE_CHANGE) \<Rightarrow> [WorkChange req] | _ \<Rightarrow> [])"

lemma os_enqueue_added: "wq_added (os_enqueue wq req) = wq_added wq @ request_work req"
  by (simp add: request_work_def os_enqueue_def vdev_device_request_enqueue_def vdev_device_request_sanity_check_def vdev_wq_add_def wq_post_def
      split: option.splits vdev_device_request_t.splits)


definition linux_idle :: "vdev_linux_context \<Rightarrow> vdev_linux_context" where
  "linux_idle ctx = ctx\<lparr>lc_initial_requests := [], lc_coldplug_finished := lc_coldplug_finished ctx \<or> lc_initial_requests ctx \<noteq> []\<rparr>"

lemma next_device_initial:
  assumes "lc_initial_requests ctx = req # reqs"
  shows "\<exists>ctx'. vdev_os_next_device os w vreq evs ctx = Some (Some 0, req, evs, ctx') \<and> lc_initial_requests ctx' = reqs \<and>
    lc_sysfs_mountpoint ctx' = lc_sysfs_mountpoint ctx \<and> lc_coldplug_only ctx' = lc_coldplug_only ctx \<and> linux_idle ctx' = linux_idle ctx"
  using assms by (auto simp: vdev_os_next_device_def vdev_os_context_signal_coldplug_finished_def Let_def linux_idle_def)

lemma os_main_initial:
  "lc_initial_requests ctx = req # reqs \<Longrightarrow> \<exists>ctx'. vdev_os_main os w evs ctx wq = vdev_os_main os w evs ctx' (os_enqueue wq req) \<and>
    lc_initial_requests ctx' = reqs \<and> lc_sysfs_mountpoint ctx' = lc_sysfs_mountpoint ctx \<and>
    lc_coldplug_only ctx' = lc_coldplug_only ctx \<and> linux_idle ctx' = linux_idle ctx"
  using next_device_initial [of ctx req reqs os w "vdev_device_request_init VDEV_DEVICE_INVALID None" evs]
  by (subst vdev_os_main.simps) auto

lemma os_main_event:
  assumes "lc_initial_requests ctx = []" "\<not> lc_coldplug_only ctx" "nl_terminated ev" "\<not> nl_fatal ev"
  shows "vdev_os_main os w (ev # evs) ctx wq =
    vdev_os_main os w evs ctx (case nl_request os w (lc_sysfs_mountpoint ctx) ev of None \<Rightarrow> wq | Some req \<Rightarrow> os_enqueue wq req)"
proof -
  obtain r where r: "linux_receive os w ctx (vdev_device_request_init VDEV_DEVICE_INVALID None) ev =
    Some (case nl_request os w (lc_sysfs_mountpoint ctx) ev of None \<Rightarrow> (- EAGAIN, r) | Some req \<Rightarrow> (0, req))"
    using receive_refines [OF assms(3,4)] by blast
  with assms(1,2) show ?thesis
    by (subst vdev_os_main.simps) (auto simp: vdev_os_next_device_def split: option.splits)
qed

text \<open>
  C24: The queue gets every device once, in order, and nothing else. While no socket error is fatal, the main
  loop takes all the devices found at start-up, then every message, and waits for more; to the queue it has added
  exactly the work of the initial requests and then of those messages that come from the kernel (sent by root,
  by no process, not by udev, complete, and well-formed), in the order they came. Everything else is ignored.
\<close>

theorem os_main_requests:
  assumes "\<not> lc_coldplug_only ctx" "list_all nl_terminated evs" "list_all (\<lambda>ev. \<not> nl_fatal ev) evs"
  shows "\<exists>wq'. vdev_os_main os w evs ctx wq = Some (None, linux_idle ctx, wq') \<and>
    wq_added wq' = wq_added wq @ concat (map request_work
      (lc_initial_requests ctx @ List.map_filter (nl_request os w (lc_sysfs_mountpoint ctx)) evs))"
  using assms
proof (induction "lc_initial_requests ctx" arbitrary: ctx wq)
  case Nil
  then show ?case
  proof (induction evs arbitrary: wq)
    case Nil
    then show ?case
      by (subst vdev_os_main.simps) (auto simp: vdev_os_next_device_def linux_idle_def List.map_filter_def)
  next
    case (Cons ev evs)
    note ih = Cons.IH [OF Cons.prems(1,2)]
    show ?case
      using os_main_event [of ctx ev os w evs wq] Cons.prems
        ih [of "case nl_request os w (lc_sysfs_mountpoint ctx) ev of None \<Rightarrow> wq | Some req \<Rightarrow> os_enqueue wq req"]
      by (auto simp: List.map_filter_simps os_enqueue_added split: option.splits)
  qed
next
  case (Cons req reqs)
  obtain ctx' where c: "vdev_os_main os w evs ctx wq = vdev_os_main os w evs ctx' (os_enqueue wq req)"
    "lc_initial_requests ctx' = reqs" "lc_sysfs_mountpoint ctx' = lc_sysfs_mountpoint ctx"
    "lc_coldplug_only ctx' = lc_coldplug_only ctx" "linux_idle ctx' = linux_idle ctx"
    using os_main_initial [OF Cons.hyps(2) [symmetric], of os w evs wq] by blast
  from Cons.hyps(1) [of ctx' "os_enqueue wq req"] c Cons.prems show ?case
    by (auto simp: Cons.hyps(2) [symmetric] os_enqueue_added)
qed


definition witness_uevent :: cbuf where
  "witness_uevent = ''add@/devices/sda'' @ [NUL] @ uevent_print [(''ACTION'', ''add''), (''DEVNAME'', ''sda''), (''SUBSYSTEM'', ''block'')]"

definition witness_message :: "nat \<Rightarrow> nl_event" where
  "witness_message uid = NlMessage \<lparr>nm_bytes = witness_uevent, nm_uid = Some uid, nm_pid = 0\<rparr>"

lemma witness_message_request:
  "map_option (\<lambda>r. (req_type r, req_path r)) (nl_request calm_linux calm_world ''/sys'' (witness_message 0)) =
     Some (VDEV_DEVICE_ADD, Some ''sda'')"
  "nl_request calm_linux calm_world ''/sys'' (witness_message 1000) = None"
  "nl_terminated (witness_message 0)" "nl_terminated (witness_message 1000)"
  by code_simp+

definition witness_context :: vdev_linux_context where
  "witness_context = \<lparr>lc_sysfs_mountpoint = ''/sys'', lc_initial_requests = [], lc_coldplug_only = False, lc_coldplug_finished = False\<rparr>"

theorem os_main_requests_witness:
  "\<exists>wq' req. vdev_os_main calm_linux calm_world [PollError EINTR, witness_message 1000, witness_message 0] witness_context vdev_wq_init =
      Some (None, linux_idle witness_context, wq') \<and>
    wq_added wq' = [WorkAdd req] \<and> req_path req = Some ''sda''"
proof -
  obtain req where req: "nl_request calm_linux calm_world ''/sys'' (witness_message 0) = Some req"
    "req_type req = VDEV_DEVICE_ADD" "req_path req = Some ''sda''"
    using witness_message_request(1) by auto
  have "list_all nl_terminated [PollError EINTR, witness_message 1000, witness_message 0]"
    "list_all (\<lambda>ev. \<not> nl_fatal ev) [PollError EINTR, witness_message 1000, witness_message 0]"
    using witness_message_request(3,4) by (simp_all add: nl_terminated_def [of "PollError _"] nl_fatal_def witness_message_def)
  from os_main_requests [OF _ this, of witness_context calm_linux calm_world vdev_wq_init]
  show ?thesis using req witness_message_request(2)
    by (auto simp: witness_context_def List.map_filter_simps nl_request_def [of _ _ _ "PollError _"] request_work_def vdev_wq_init_def)
qed

end
