(* ===== verification/Vdevd_Sysfs.thy ===== *)
theory Vdevd_Sysfs
  imports Vdevd_Linux
begin

text \<open>
  The coldplug walk of \<^verbatim>\<open>vdevd/os/linux.c\<close> over the directories of sysfs: it ends, finds every device once, and lists
  parents before their children. \<open>walk_inv\<close> is the invariant of the walk on paths; \<open>find_loop\<close> carries it
  over to the code, whose frontier and result are vectors (\<open>Sglib_Vector\<close>, through its contract).
\<close>

section \<open>Every device of sysfs is found, parents first\<close>

text \<open>The walk on paths: \<open>V\<close> has been visited, \<open>ps\<close> is the frontier.\<close>

definition below :: "fs \<Rightarrow> fpath \<Rightarrow> fpath set" where
  "below fs p = {q \<in> fst ` set fs. prefix p q}"

definition sysfs_dirs :: "fs \<Rightarrow> fpath \<Rightarrow> fpath set" where
  "sysfs_dirs fs r = {q. strict_prefix r q \<and> fs_get fs q = Some FDir}"

definition dir_children :: "fs \<Rightarrow> fpath \<Rightarrow> cstr list \<Rightarrow> bool" where
  "dir_children fs p cs \<longleftrightarrow> distinct cs \<and> set cs = {c. fs_get fs (p @ [c]) = Some FDir}"

definition walk_inv :: "fs \<Rightarrow> fpath \<Rightarrow> fpath list \<Rightarrow> fpath list \<Rightarrow> bool" where
  "walk_inv fs r V ps \<longleftrightarrow>
     set V \<union> set ps \<subseteq> sysfs_dirs fs r \<and>
     sysfs_dirs fs r \<subseteq> set V \<union> {q. \<exists>p \<in> set ps. prefix p q} \<and>
     sorted_wrt (\<lambda>a b. \<not> prefix b a) V \<and>
     (\<forall>p \<in> set ps. \<forall>v \<in> set V. \<not> prefix p v) \<and>
     sorted_wrt (\<lambda>a b. \<not> prefix a b \<and> \<not> prefix b a) ps \<and>
     length V + (\<Sum>p \<leftarrow> ps. card (below fs p)) \<le> length fs"

lemma finite_below [simp]: "finite (below fs p)"
  by (simp add: below_def)

lemma card_below: "card (below fs p) \<le> length fs"
proof -
  have "card (below fs p) \<le> card (fst ` set fs)" by (rule card_mono) (auto simp: below_def)
  also have "\<dots> \<le> length fs" by (metis card_image_le card_length finite_set le_trans)
  finally show ?thesis .
qed

lemma below_children_union:
  "distinct cs \<Longrightarrow> (\<Sum>c \<leftarrow> cs. card (below fs (p @ [c]))) = card (\<Union>c \<in> set cs. below fs (p @ [c]))"
proof (induction cs)
  case (Cons c cs)
  have "below fs (p @ [c]) \<inter> (\<Union>c \<in> set cs. below fs (p @ [c])) = {}"
    using Cons.prems by (auto simp: below_def prefix_def)
  with Cons show ?case by (simp add: card_Un_disjoint)
qed simp

lemma below_children:
  assumes "distinct cs" "fs_get fs p \<noteq> None" "p \<noteq> []"
  shows "(\<Sum>c \<leftarrow> cs. card (below fs (p @ [c]))) < card (below fs p)"
proof -
  have "p \<in> below fs p" using assms(2,3) by (force simp: below_def dest!: fs_get_entry)
  moreover have "(\<Union>c \<in> set cs. below fs (p @ [c])) \<subseteq> below fs p - {p}"
    by (auto simp: below_def prefix_def)
  ultimately show ?thesis unfolding below_children_union [OF assms(1)]
    by (intro psubset_card_mono) auto
qed

lemma dir_above:
  assumes "fs_closed fs" "fs_get fs (p @ c # q) = Some FDir"
  shows "fs_get fs (p @ [c]) = Some FDir"
proof (cases q)
  case (Cons d q')
  then have "fs_get fs ((p @ [c]) @ [d]) \<noteq> None" using fs_closed_prefix [OF assms(1), of "p @ [c, d]" q'] assms(2) by simp
  then show ?thesis using fs_closedD [OF assms(1)] by blast
qed (use assms in simp)

lemma dir_children_cover:
  assumes "fs_closed fs" "dir_children fs p cs" "prefix p q" "fs_get fs q = Some FDir"
  shows "q = p \<or> (\<exists>c \<in> set cs. prefix (p @ [c]) q)"
proof -
  obtain zs where q: "q = p @ zs" using assms(3) by (auto simp: prefix_def)
  show ?thesis
  proof (cases zs)
    case (Cons c zs')
    with q assms(4) dir_above [OF assms(1), of p c zs'] assms(2) have "c \<in> set cs" by (simp add: dir_children_def)
    with q Cons show ?thesis by (auto simp: prefix_def)
  qed (simp add: q)
qed

lemma walk_init:
  assumes "fs_closed fs" "fs_get fs r = Some FDir" "r \<noteq> []" "dir_children fs r cs"
  shows "walk_inv fs r [] (map (\<lambda>c. r @ [c]) cs)"
proof -
  have "\<exists>c \<in> set cs. prefix (r @ [c]) q" if "q \<in> sysfs_dirs fs r" for q
    using that dir_children_cover [OF assms(1,4), of q] by (auto simp: sysfs_dirs_def strict_prefix_def)
  moreover have "(\<Sum>p \<leftarrow> map (\<lambda>c. r @ [c]) cs. card (below fs p)) \<le> length fs"
    using below_children [of cs fs r] card_below [of fs r] assms by (simp add: dir_children_def comp_def)
  ultimately show ?thesis
    using assms(4) by (auto simp: walk_inv_def dir_children_def sysfs_dirs_def strict_prefix_def sorted_wrt_map distinct_conv_nth sorted_wrt_iff_nth_less)
qed

lemma walk_step:
  assumes "fs_closed fs" "walk_inv fs r V (ps @ [p])" "dir_children fs p cs"
  shows "walk_inv fs r (V @ [p]) (ps @ map (\<lambda>c. p @ [c]) cs)"
proof -
  have p: "p \<in> sysfs_dirs fs r" using assms(2) by (simp add: walk_inv_def)
  then have "p \<noteq> []" "fs_get fs p = Some FDir" by (auto simp: sysfs_dirs_def)
  then have len: "(\<Sum>c \<leftarrow> cs. card (below fs (p @ [c]))) < card (below fs p)"
    using below_children [of cs fs p] assms(3) by (simp add: dir_children_def)
  have cover: "q = p \<or> (\<exists>c \<in> set cs. prefix (p @ [c]) q)" if "prefix p q" "q \<in> sysfs_dirs fs r" for q
    using that dir_children_cover [OF assms(1,3)] by (auto simp: sysfs_dirs_def)
  have up: "prefix (p @ [c]) q \<Longrightarrow> prefix p q" for c q by (auto simp: prefix_def)
  have old: "\<not> prefix q v" if "q \<in> set ps \<union> {p}" "v \<in> set V" for q v using that assms(2) by (auto simp: walk_inv_def)
  have anti: "\<not> prefix q p" "\<not> prefix p q" if "q \<in> set ps" for q
    using that assms(2) by (auto simp: walk_inv_def sorted_wrt_append)
  have "set (V @ [p]) \<union> set (ps @ map (\<lambda>c. p @ [c]) cs) \<subseteq> sysfs_dirs fs r"
    using assms(2,3) p by (auto simp: walk_inv_def sysfs_dirs_def dir_children_def strict_prefix_def)
  moreover have "sysfs_dirs fs r \<subseteq> set (V @ [p]) \<union> {q. \<exists>p \<in> set (ps @ map (\<lambda>c. p @ [c]) cs). prefix p q}"
  proof
    fix q
    assume q: "q \<in> sysfs_dirs fs r"
    with assms(2) consider "q \<in> set V" | p' where "p' \<in> set ps" "prefix p' q" | "prefix p q"
      unfolding walk_inv_def by auto
    then show "q \<in> set (V @ [p]) \<union> {q. \<exists>p \<in> set (ps @ map (\<lambda>c. p @ [c]) cs). prefix p q}"
      using cover [OF _ q] by cases auto
  qed
  moreover have "sorted_wrt (\<lambda>a b. \<not> prefix b a) (V @ [p])"
    using assms(2) old by (auto simp: walk_inv_def sorted_wrt_append)
  moreover have "\<forall>q \<in> set (ps @ map (\<lambda>c. p @ [c]) cs). \<forall>v \<in> set (V @ [p]). \<not> prefix q v"
    using old anti up by auto blast
  moreover have "sorted_wrt (\<lambda>a b. \<not> prefix a b \<and> \<not> prefix b a) (map (\<lambda>c. p @ [c]) cs)"
    using assms(3) by (auto simp: dir_children_def sorted_wrt_map distinct_conv_nth sorted_wrt_iff_nth_less)
  then have "sorted_wrt (\<lambda>a b. \<not> prefix a b \<and> \<not> prefix b a) (ps @ map (\<lambda>c. p @ [c]) cs)"
    using assms(2) anti up by (auto simp: walk_inv_def sorted_wrt_append)
  moreover have "length (V @ [p]) + (\<Sum>q \<leftarrow> ps @ map (\<lambda>c. p @ [c]) cs. card (below fs q)) \<le> length fs"
    using assms(2) len by (simp add: walk_inv_def comp_def)
  ultimately show ?thesis unfolding walk_inv_def by blast
qed

lemma walk_done: "walk_inv fs r V [] \<Longrightarrow> set V = sysfs_dirs fs r \<and> sorted_wrt (\<lambda>a b. \<not> prefix b a) V"
  by (auto simp: walk_inv_def)


section \<open>The scan of one directory\<close>

definition calm_fs :: "world \<Rightarrow> bool" where
  "calm_fs w \<longleftrightarrow> (\<forall>op p. w_fault w op p = 0) \<and> fs_wf (w_fs w) \<and> fs_closed (w_fs w)"

lemma rindex_fullpath:
  assumes "d \<noteq> []" "n \<noteq> []" "SLASH \<notin> set n"
  shows "rindex (vdev_fullpath d n) SLASH = Some (SLASH # n)"
proof -
  obtain a as where n: "n = a # as" "a \<noteq> SLASH" using assms by (cases n) auto
  obtain d' c where d: "d = d' @ [c]" using assms(1) by (cases d rule: rev_cases) auto
  have "vdev_fullpath d n = (if c = SLASH then d' @ SLASH # n else d @ SLASH # n)"
    using n by (simp add: vdev_fullpath_def d)
  moreover have "rindex (a @ SLASH # n) SLASH = Some (SLASH # n)" for a
    using assms(3) by (simp add: rindex_def takeWhile_append)
  ultimately show ?thesis by auto
qed

lemma stat_child:
  assumes "calm_fs w" "file_name c" "fs_get (w_fs w) (resolve d @ [c]) = Some n"
  shows "sys_stat (vdev_fullpath d c) w = Inr n"
proof -
  have r: "resolve (vdev_fullpath d c) = resolve d @ [c]" using assms(2) by (simp add: resolve_append_name file_name_def)
  then have "vdev_fullpath d c \<noteq> []" by (auto simp: resolve_def)
  moreover have "parent_errno (w_fs w) (resolve d @ [c]) = 0"
    using fs_closed_dirs [of "w_fs w" "resolve d @ [c]"] assms by (intro dirs_upto_parent_errno) (simp add: calm_fs_def)
  ultimately show ?thesis using assms by (simp add: sys_stat_def sys_pre_def calm_fs_def r lookup_errno_def)
qed

definition is_dots :: "cstr \<Rightarrow> bool" where
  "is_dots c \<longleftrightarrow> c = ''.'' \<or> c = ''..''"

definition uevent_in :: "fs \<Rightarrow> fpath \<Rightarrow> bool" where
  "uevent_in fs p \<longleftrightarrow> (case fs_get fs (p @ [''uevent'']) of None \<Rightarrow> False | Some n \<Rightarrow> n \<noteq> FDir)"

lemma scan_loop:
  assumes "calm_fs w" "d \<noteq> []"
  shows "list_all (\<lambda>c. is_dots c \<or> file_name c \<and> fs_get (w_fs w) (resolve d @ [c]) \<noteq> None) ns \<Longrightarrow>
    vec_inv v \<Longrightarrow> length (vec_elems v) + length ns \<le> 2 ^ 30 \<Longrightarrow>
    \<exists>v'. load_all_loop (vdev_linux_sysfs_scan_device_directory w) d ns (Some \<lparr>sc_uevent_path = u, sc_frontier = v\<rparr>) =
        (0, Some \<lparr>sc_uevent_path = (if ''uevent'' \<in> set ns \<and> uevent_in (w_fs w) (resolve d) then Some (vdev_fullpath d ''uevent'') else u),
                  sc_frontier = v'\<rparr>) \<and>
      vec_inv v' \<and>
      vec_elems v' = vec_elems v @ map (\<lambda>c. Some (vdev_fullpath d c))
        (filter (\<lambda>c. \<not> is_dots c \<and> fs_get (w_fs w) (resolve d @ [c]) = Some FDir) ns)"
proof (induction ns arbitrary: u v)
  case (Cons c ns)
  let ?scan = "vdev_linux_sysfs_scan_device_directory w (vdev_fullpath d c) (Some \<lparr>sc_uevent_path = u, sc_frontier = v\<rparr>)"
  have next_ok: ?case if "?scan = (0, Some \<lparr>sc_uevent_path = u1, sc_frontier = v1\<rparr>)" "vec_inv v1"
      "vec_elems v1 = vec_elems v @ (if \<not> is_dots c \<and> fs_get (w_fs w) (resolve d @ [c]) = Some FDir then [Some (vdev_fullpath d c)] else [])"
      "u1 = (if c = ''uevent'' \<and> uevent_in (w_fs w) (resolve d) then Some (vdev_fullpath d c) else u)" for u1 v1
    using Cons.IH [of v1 u1] Cons.prems that by auto
  show ?case
  proof (cases "is_dots c")
    case True
    then have "rindex (vdev_fullpath d c) SLASH = Some (SLASH # c)" using assms(2) by (intro rindex_fullpath) (auto simp: is_dots_def)
    with True show ?thesis by (intro next_ok [of u v]) (use Cons.prems in \<open>auto simp: vdev_linux_sysfs_scan_device_directory_def is_dots_def\<close>)
  next
    case False
    with Cons.prems(1) obtain n where c: "file_name c" "fs_get (w_fs w) (resolve d @ [c]) = Some n" by auto
    have st: "sys_stat (vdev_fullpath d c) w = Inr n" using stat_child [OF assms(1) c] .
    have ri: "rindex (vdev_fullpath d c) SLASH = Some (SLASH # c)"
      using assms(2) c(1) by (intro rindex_fullpath) (auto simp: file_name_def)
    have nd: "c \<noteq> ''.''" "c \<noteq> ''..''" using c(1) by (auto simp: file_name_def)
    show ?thesis
    proof (cases "n = FDir")
      case True
      obtain v1 where v1: "vector_push_back True (Some (vdev_fullpath d c)) v = Some (0, v1)" "vec_inv v1"
        "vec_elems v1 = vec_elems v @ [Some (vdev_fullpath d c)]"
        using vec.push_ok [OF Cons.prems(2), of "Some (vdev_fullpath d c)"] Cons.prems(3) by auto
      have "?scan = (0, Some \<lparr>sc_uevent_path = u, sc_frontier = v1\<rparr>)"
        using True st ri nd v1(1) by (simp add: vdev_linux_sysfs_scan_device_directory_def)
      then show ?thesis by (rule next_ok) (use v1 False c True in \<open>auto simp: uevent_in_def\<close>)
    next
      case nodir: False
      have "?scan = (0, Some \<lparr>sc_uevent_path = (if c = ''uevent'' then Some (vdev_fullpath d c) else u), sc_frontier = v\<rparr>)"
        using nodir st ri nd by (simp add: vdev_linux_sysfs_scan_device_directory_def)
      then show ?thesis by (rule next_ok) (use Cons.prems(2) c nodir in \<open>auto simp: uevent_in_def\<close>)
    qed
  qed
qed simp

text \<open>The scan of a directory that exists: its subdirectories go on the frontier, and its \<open>uevent\<close> file is remembered.\<close>

lemma scan_directory:
  assumes "calm_fs w" "d \<noteq> []" "fs_get (w_fs w) (resolve d) = Some FDir" "vec_inv v"
    and "length (vec_elems v) + length (w_fs w) + 2 \<le> 2 ^ 30"
  shows "\<exists>v' cs. vdev_load_all (Some d) (vdev_linux_sysfs_scan_device_directory w) w (Some \<lparr>sc_uevent_path = u, sc_frontier = v\<rparr>) =
      (0, Some \<lparr>sc_uevent_path = (if uevent_in (w_fs w) (resolve d) then Some (vdev_fullpath d ''uevent'') else u), sc_frontier = v'\<rparr>) \<and>
    vec_inv v' \<and> dir_children (w_fs w) (resolve d) cs \<and>
    vec_elems v' = vec_elems v @ map (\<lambda>c. Some (vdev_fullpath d c)) cs"
proof -
  let ?fs = "w_fs w" let ?p = "resolve d"
  define ns where "ns = sort (''.'' # ''..'' # fs_children ?fs ?p)"
  have ns: "set ns = {''.'', ''..''} \<union> set (fs_children ?fs ?p)" "length ns = length (fs_children ?fs ?p) + 2"
    unfolding ns_def set_sort length_sort by auto
  have child: "file_name c" "fs_get ?fs (?p @ [c]) \<noteq> None" if "c \<in> set (fs_children ?fs ?p)" for c
    using that assms(1) fs_children_name fs_children_get [of c ?fs ?p] by (auto simp: calm_fs_def)
  have "lookup_errno ?fs ?p = 0"
    using fs_closed_dirs [of ?fs ?p] assms(1,3) dirs_upto_parent_errno by (simp add: lookup_errno_def calm_fs_def)
  then have scandir: "sys_scandir d w = Inr ns"
    using assms by (simp add: sys_scandir_def sys_pre_def calm_fs_def ns_def)
  have "list_all (\<lambda>c. is_dots c \<or> file_name c \<and> fs_get ?fs (?p @ [c]) \<noteq> None) ns"
    using child by (auto simp: list_all_iff is_dots_def ns)
  moreover have "length (fs_children ?fs ?p) \<le> length ?fs"
    unfolding fs_children_def
    by (rule le_trans [OF length_remdups_leq]) simp
  with assms(5) have "length (vec_elems v) + length ns \<le> 2 ^ 30" by (simp add: ns)
  ultimately obtain v' where v': "load_all_loop (vdev_linux_sysfs_scan_device_directory w) d ns (Some \<lparr>sc_uevent_path = u, sc_frontier = v\<rparr>) =
        (0, Some \<lparr>sc_uevent_path = (if ''uevent'' \<in> set ns \<and> uevent_in ?fs ?p then Some (vdev_fullpath d ''uevent'') else u),
                  sc_frontier = v'\<rparr>)" "vec_inv v'"
    "vec_elems v' = vec_elems v @ map (\<lambda>c. Some (vdev_fullpath d c)) (filter (\<lambda>c. \<not> is_dots c \<and> fs_get ?fs (?p @ [c]) = Some FDir) ns)"
    using scan_loop [OF assms(1,2), of ns v u] assms(4) by blast
  have "''uevent'' \<in> set ns" if "uevent_in ?fs ?p"
    using that fs_children_get [of "''uevent''" ?fs ?p] by (auto simp: uevent_in_def ns split: option.splits)
  moreover have "dir_children ?fs ?p (filter (\<lambda>c. \<not> is_dots c \<and> fs_get ?fs (?p @ [c]) = Some FDir) ns)"
  proof -
    have "''.'' \<notin> set (fs_children ?fs ?p)" "''..'' \<notin> set (fs_children ?fs ?p)" using child(1) by (auto simp: file_name_def)
    then have "distinct ns" unfolding ns_def distinct_sort by (simp add: fs_children_def)
    moreover have "c \<in> set ns \<and> \<not> is_dots c" if "fs_get ?fs (?p @ [c]) = Some FDir" for c
      using that fs_children_get [of c ?fs ?p] child(1) [of c] by (auto simp: is_dots_def file_name_def ns)
    ultimately show ?thesis by (auto simp: dir_children_def)
  qed
  ultimately show ?thesis using v' scandir by (auto simp: vdev_load_all_def)
qed

lemma length_le_sum: "(\<And>p. p \<in> set ps \<Longrightarrow> 1 \<le> f p) \<Longrightarrow> length ps \<le> (\<Sum>p \<leftarrow> ps. f p)" for f :: "'b \<Rightarrow> nat"
  by (induction ps) fastforce+

lemma walk_bounds:
  assumes "walk_inv fs r V ps"
  shows "length V \<le> length fs" "length ps \<le> length fs"
proof -
  have "1 \<le> card (below fs p)" if "p \<in> set ps" for p
  proof -
    have "p \<in> sysfs_dirs fs r" using that assms by (auto simp: walk_inv_def)
    then have "fs_get fs p = Some FDir" "p \<noteq> []" by (auto simp: sysfs_dirs_def)
    then show ?thesis using below_children [of "[]" fs p] by simp
  qed
  then have "length ps \<le> (\<Sum>p \<leftarrow> ps. card (below fs p))" by (rule length_le_sum)
  with assms show "length V \<le> length fs" "length ps \<le> length fs" by (auto simp: walk_inv_def)
qed

lemma dir_children_name:
  "calm_fs w \<Longrightarrow> dir_children (w_fs w) p cs \<Longrightarrow> c \<in> set cs \<Longrightarrow> file_name c"
  using fs_children_get [of c "w_fs w" p] fs_children_name [of "w_fs w" c p] by (auto simp: calm_fs_def dir_children_def)

lemma frontier_children:
  assumes "calm_fs w" "dir_children (w_fs w) (resolve d) cs"
  shows "map resolve (map (vdev_fullpath d) cs) = map (\<lambda>c. resolve d @ [c]) cs"
    and "[] \<notin> set (map (vdev_fullpath d) cs)"
proof -
  have r: "resolve (vdev_fullpath d c) = resolve d @ [c]" if "c \<in> set cs" for c
    using dir_children_name [OF assms that] by (simp add: resolve_append_name file_name_def)
  then show "map resolve (map (vdev_fullpath d) cs) = map (\<lambda>c. resolve d @ [c]) cs" by simp
  have "resolve [] = []" by (simp add: resolve_def)
  with r show "[] \<notin> set (map (vdev_fullpath d) cs)" by (metis (no_types, lifting) imageE list.set_map snoc_eq_iff_butlast)
qed

text \<open>Taking a directory off the end of the frontier.\<close>

lemma frontier_take:
  assumes "vec_inv v" "vec_elems v = map Some (F @ [d])"
  shows "\<exists>v1 v2 x. vector_at (vector_size v - 1) v = Some (Some d) \<and> vector_set None (vector_size v - 1) v = Some (0, v1) \<and>
    vector_pop_back v1 = Some (x, v2) \<and> vec_inv v2 \<and> vec_elems v2 = map Some F \<and> vector_size v \<noteq> 0"
proof -
  have s: "vector_size v = Suc (length F)" using vec.size_ok [OF assms(1)] assms(2) by simp
  obtain v1 where v1: "vector_set None (length F) v = Some (0, v1)" "vec_inv v1" "vec_elems v1 = (map Some (F @ [d]))[length F := None]"
    using vec.put_ok [OF assms(1), of "length F" None] assms(2) by auto
  then have "vec_elems v1 = map Some F @ [None]" by (simp add: list_update_append)
  with vec.pop_ok [OF v1(2)] obtain v2 x where "vector_pop_back v1 = Some (x, v2)" "vec_inv v2" "vec_elems v2 = map Some F" by auto
  with v1(1) s vec.get_ok [OF assms(1), of "length F"] assms(2) show ?thesis by (auto simp: nth_append)
qed

definition uevent_files :: "fs \<Rightarrow> fpath list \<Rightarrow> cstr list \<Rightarrow> bool" where
  "uevent_files fs V U \<longleftrightarrow> map resolve U = map (\<lambda>q. q @ [''uevent'']) (filter (uevent_in fs) V)"

lemma uevent_files_length: "uevent_files fs V U \<Longrightarrow> length U \<le> length V"
  by (metis uevent_files_def length_filter_le length_map)

lemma find_loop:
  assumes calm: "calm_fs w" and bound: "length (w_fs w) < 2 ^ 29"
  shows "walk_inv (w_fs w) r V (map resolve F) \<Longrightarrow> [] \<notin> set F \<Longrightarrow> vec_inv v \<Longrightarrow> vec_elems v = map Some F \<Longrightarrow>
    vec_inv out \<Longrightarrow> vec_elems out = map Some U \<Longrightarrow> uevent_files (w_fs w) V U \<Longrightarrow>
    (\<Sum>p \<leftarrow> map resolve F. card (below (w_fs w) p)) < n \<Longrightarrow>
    \<exists>out' U' V'. find_devices_loop n w \<lparr>sc_uevent_path = None, sc_frontier = v\<rparr> out = Some (0, out') \<and>
      vec_inv out' \<and> vec_elems out' = map Some U' \<and> walk_inv (w_fs w) r V' [] \<and> uevent_files (w_fs w) V' U'"
proof (induction n arbitrary: V F v out U)
  case (Suc n)
  note inv = Suc.prems(1)
  show ?case
  proof (cases F rule: rev_cases)
    case Nil
    with Suc.prems vec.size_ok [OF Suc.prems(3)] have "vector_size v = 0" by simp
    then have "find_devices_loop (Suc n) w \<lparr>sc_uevent_path = None, sc_frontier = v\<rparr> out = Some (0, out)" by simp
    with Suc.prems Nil show ?thesis by (metis list.simps(8))
  next
    case (snoc F1 d)
    obtain v1 v2 x where v: "vector_at (vector_size v - 1) v = Some (Some d)" "vector_set None (vector_size v - 1) v = Some (0, v1)"
      "vector_pop_back v1 = Some (x, v2)" "vec_inv v2" "vec_elems v2 = map Some F1" "vector_size v \<noteq> 0"
      using frontier_take [OF Suc.prems(3)] Suc.prems(4) snoc by blast
    have d: "d \<noteq> []" "resolve d \<in> sysfs_dirs (w_fs w) r" using Suc.prems(1,2) snoc by (auto simp: walk_inv_def)
    then have dir: "fs_get (w_fs w) (resolve d) = Some FDir" "resolve d \<noteq> []" by (auto simp: sysfs_dirs_def)
    have "length F1 \<le> length (w_fs w)" using walk_bounds(2) [OF inv] snoc by simp
    then have "length (vec_elems v2) + length (w_fs w) + 2 \<le> 2 ^ 30" using bound v(5) by simp
    from scan_directory [OF calm d(1) dir(1) v(4) this, of None] obtain v3 cs where
      scan: "vdev_load_all (Some d) (vdev_linux_sysfs_scan_device_directory w) w (Some \<lparr>sc_uevent_path = None, sc_frontier = v2\<rparr>) =
        (0, Some \<lparr>sc_uevent_path = (if uevent_in (w_fs w) (resolve d) then Some (vdev_fullpath d ''uevent'') else None), sc_frontier = v3\<rparr>)"
      and v3: "vec_inv v3" "dir_children (w_fs w) (resolve d) cs"
      "vec_elems v3 = map Some (F1 @ map (vdev_fullpath d) cs)" by (auto simp: v(5) comp_def)
    note children = frontier_children [OF calm v3(2)]
    have walk: "walk_inv (w_fs w) r (V @ [resolve d]) (map resolve (F1 @ map (vdev_fullpath d) cs))"
      using walk_step [of "w_fs w" r V "map resolve F1" "resolve d" cs] inv snoc calm v3(2)
      unfolding map_append children(1) by (simp add: calm_fs_def)
    have "[] \<notin> set (F1 @ map (vdev_fullpath d) cs)" using children(2) Suc.prems(2) snoc by auto
    moreover have "(\<Sum>c \<leftarrow> cs. card (below (w_fs w) (resolve d @ [c]))) < card (below (w_fs w) (resolve d))"
      using below_children [of cs "w_fs w" "resolve d"] dir v3(2) by (simp add: dir_children_def)
    then have "(\<Sum>p \<leftarrow> map resolve (F1 @ map (vdev_fullpath d) cs). card (below (w_fs w) p)) < n"
      using Suc.prems(8) snoc unfolding map_append children(1) by (simp add: comp_def)
    ultimately have ih: "\<exists>out' U' V'. find_devices_loop n w \<lparr>sc_uevent_path = None, sc_frontier = v3\<rparr> out1 = Some (0, out') \<and>
      vec_inv out' \<and> vec_elems out' = map Some U' \<and> walk_inv (w_fs w) r V' [] \<and> uevent_files (w_fs w) V' U'"
      if "vec_inv out1" "vec_elems out1 = map Some U1" "uevent_files (w_fs w) (V @ [resolve d]) U1" for out1 U1
      using Suc.IH [OF walk _ v3(1,3)] that by blast
    show ?thesis
    proof (cases "uevent_in (w_fs w) (resolve d)")
      case True
      let ?u = "vdev_fullpath d ''uevent''"
      have "length U < 2 ^ 30" using uevent_files_length [OF Suc.prems(7)] walk_bounds(1) [OF inv] bound by simp
      then obtain out1 where out1: "vector_push_back True (Some ?u) out = Some (0, out1)" "vec_inv out1" "vec_elems out1 = map Some (U @ [?u])"
        using vec.push_ok [OF Suc.prems(5), of "Some ?u"] Suc.prems(6) by auto
      have "uevent_files (w_fs w) (V @ [resolve d]) (U @ [?u])"
        using Suc.prems(7) True by (simp add: uevent_files_def resolve_append_name)
      from ih [OF out1(2,3) this] show ?thesis using v scan True out1(1) by (simp add: Let_def)
    next
      case False
      have "uevent_files (w_fs w) (V @ [resolve d]) U" using Suc.prems(7) False by (simp add: uevent_files_def)
      from ih [OF Suc.prems(5,6) this] show ?thesis using v scan False by (simp add: Let_def)
    qed
  qed
qed simp

text \<open>
  C25: Start-up finds every device, once, and parents come first. In a sysfs without faults, the walk
  over \<open>/sys/devices\<close> ends, and its result is the list of exactly those directories, strictly below
  \<open>devices\<close> and at any depth, that have a \<open>uevent\<close> file; no directory is listed twice, and none is
  listed after a directory below it.
\<close>

theorem find_devices_complete:
  assumes "calm_fs w" "length (w_fs w) < 2 ^ 29" "sysfs_mountpoint \<noteq> []"
    and "fs_get (w_fs w) (resolve sysfs_mountpoint @ [''devices'']) = Some FDir"
    and "\<not> uevent_in (w_fs w) (resolve sysfs_mountpoint @ [''devices''])"
  shows "\<exists>v U. vdev_linux_sysfs_find_devices sysfs_mountpoint w = Some (0, v) \<and> vec_elems v = map Some U \<and>
    resolve ` set U = {q @ [''uevent''] | q. strict_prefix (resolve sysfs_mountpoint @ [''devices'']) q \<and> uevent_in (w_fs w) q} \<and>
    sorted_wrt (\<lambda>a b. \<not> prefix (butlast (resolve b)) (butlast (resolve a))) U"
proof -
  let ?fs = "w_fs w" let ?r = "resolve sysfs_mountpoint @ [''devices'']"
  define d where "d = vdev_fullpath sysfs_mountpoint ''/devices''"
  have "path_components ''/devices'' = [''devices'']" by (simp add: components_name)
  then have r: "resolve d = ?r" by (simp add: resolve_def fullpath_components d_def)
  then have "d \<noteq> []" by (auto simp: resolve_def)
  moreover have "length (vec_elems (vector_init :: cstr option vector)) + length ?fs + 2 \<le> 2 ^ 30"
    using assms(2) by (simp add: vec.empty_ok(2))
  ultimately obtain v cs where
    scan: "vdev_load_all (Some d) (vdev_linux_sysfs_scan_device_directory w) w (Some \<lparr>sc_uevent_path = None, sc_frontier = vector_init\<rparr>) =
      (0, Some \<lparr>sc_uevent_path = None, sc_frontier = v\<rparr>)"
    and v: "vec_inv v" "dir_children ?fs ?r cs" "vec_elems v = map Some (map (vdev_fullpath d) cs)"
    using scan_directory [of w d vector_init None] assms(1,4,5) r
    by (auto simp: comp_def vec.empty_ok)
  note children = frontier_children [of w d cs, unfolded r, OF assms(1) v(2)]
  have walk: "walk_inv ?fs ?r [] (map resolve (map (vdev_fullpath d) cs))"
    unfolding children(1) using walk_init [of ?fs ?r cs] assms(1,4) v(2) by (simp add: calm_fs_def)
  have fuel: "(\<Sum>p \<leftarrow> map resolve (map (vdev_fullpath d) cs). card (below ?fs p)) < Suc (length ?fs)"
    using walk by (simp add: walk_inv_def)
  obtain out U V where out: "find_devices_loop (Suc (length ?fs)) w \<lparr>sc_uevent_path = None, sc_frontier = v\<rparr> vector_init = Some (0, out)"
    "vec_elems out = map Some U" "walk_inv ?fs ?r V []" "uevent_files ?fs V U"
    using find_loop [OF assms(1,2) walk children(2) v(1,3) vec.empty_ok(1) _ _ fuel, of "[]"] vec.empty_ok(2)
    by (auto simp: uevent_files_def)
  have V: "set V = sysfs_dirs ?fs ?r" "sorted_wrt (\<lambda>a b. \<not> prefix b a) V" using walk_done [OF out(3)] by auto
  have U: "map resolve U = map (\<lambda>q. q @ [''uevent'']) (filter (uevent_in ?fs) V)" using out(4) by (simp add: uevent_files_def)
  have "fs_get ?fs q = Some FDir" if "uevent_in ?fs q" for q
    using that fs_closedD [of ?fs q "''uevent''"] assms(1) by (auto simp: uevent_in_def calm_fs_def split: option.splits)
  then have "{q \<in> set V. uevent_in ?fs q} = {q. strict_prefix ?r q \<and> uevent_in ?fs q}" unfolding V by (auto simp: sysfs_dirs_def)
  moreover have "resolve ` set U = (\<lambda>q. q @ [''uevent'']) ` {q \<in> set V. uevent_in ?fs q}"
    using arg_cong [OF U, of set] by simp
  ultimately have "resolve ` set U = {q @ [''uevent''] | q. strict_prefix ?r q \<and> uevent_in ?fs q}" by auto
  moreover have "sorted_wrt (\<lambda>a b. \<not> prefix (butlast b) (butlast a)) (map resolve U)"
    unfolding U using V(2) by (auto simp: sorted_wrt_map intro: sorted_wrt_filter)
  then have "sorted_wrt (\<lambda>a b. \<not> prefix (butlast (resolve b)) (butlast (resolve a))) U" by (simp add: sorted_wrt_map)
  ultimately show ?thesis using out(1,2) scan unfolding vdev_linux_sysfs_find_devices_def d_def by auto
qed


definition sysfs_witness :: world where
  "sysfs_witness = calm_world\<lparr>w_fs := [([''sys''], FDir), ([''sys'', ''devices''], FDir), ([''sys'', ''devices'', ''pci''], FDir),
     ([''sys'', ''devices'', ''pci'', ''uevent''], FReg ''DRIVER=x''), ([''sys'', ''devices'', ''pci'', ''sda''], FDir),
     ([''sys'', ''devices'', ''pci'', ''sda'', ''uevent''], FReg ''MAJOR=8'')]\<rparr>"

theorem find_devices_complete_witness:
  "\<exists>v U. vdev_linux_sysfs_find_devices ''/sys'' sysfs_witness = Some (0, v) \<and> vec_elems v = map Some U \<and>
    resolve ` set U = {q @ [''uevent''] | q. strict_prefix [''sys'', ''devices''] q \<and> uevent_in (w_fs sysfs_witness) q} \<and>
    uevent_in (w_fs sysfs_witness) [''sys'', ''devices'', ''pci''] \<and> uevent_in (w_fs sysfs_witness) [''sys'', ''devices'', ''pci'', ''sda''] \<and>
    sorted_wrt (\<lambda>a b. \<not> prefix (butlast (resolve b)) (butlast (resolve a))) U"
proof -
  have "resolve ''/sys'' = [''sys'']" by (simp add: resolve_def components_name)
  moreover have "calm_fs sysfs_witness"
    by (simp add: calm_fs_def sysfs_witness_def calm_world_def fs_wf_def fs_closed_def file_name_def fs_get_def)
  ultimately show ?thesis using find_devices_complete [of sysfs_witness "''/sys''"]
    by (simp add: sysfs_witness_def fs_get_def uevent_in_def)
qed

section \<open>Remarks\<close>

text \<open>The walk is depth-first, not breadth-first: the deeper directory is visited before its parent's sibling.\<close>

definition deep_witness :: world where
  "deep_witness = calm_world\<lparr>w_fs := [([''sys''], FDir), ([''sys'', ''devices''], FDir), ([''sys'', ''devices'', ''a''], FDir),
     ([''sys'', ''devices'', ''a'', ''uevent''], FReg []), ([''sys'', ''devices'', ''b''], FDir), ([''sys'', ''devices'', ''b'', ''uevent''], FReg []),
     ([''sys'', ''devices'', ''b'', ''c''], FDir), ([''sys'', ''devices'', ''b'', ''c'', ''uevent''], FReg [])]\<rparr>"

lemma find_devices_depth_first:
  "map_option (\<lambda>(rc, v). (rc, vec_elems v)) (vdev_linux_sysfs_find_devices ''/sys'' deep_witness) =
     Some (0, [Some ''/sys/devices/b/uevent'', Some ''/sys/devices/b/c/uevent'', Some ''/sys/devices/a/uevent''])"
  by code_simp

text \<open>The end of the list of mounts is taken for a parse error, although the comment promises \<open>-ENOSYS\<close>.\<close>

lemma sysfs_not_mounted: "lx_mounts os = Inr [] \<Longrightarrow> vdev_linux_find_sysfs_mountpoint os = Inl (- EINVAL)"
  by (simp add: vdev_linux_find_sysfs_mountpoint_def)

text \<open>A directory next to a devtmpfs whose name merely starts the same counts as inside it.\<close>

lemma devtmpfs_sibling: "devtmpfs_contains ''/dev'' ''/devices/x''"
  by (simp add: devtmpfs_contains_def)

text \<open>
  A uevent file whose first line is a one-letter \<open>DEVNAME\<close> makes the code free a pointer into the
  middle of a block.
\<close>

lemma register_devname_unsafe: "\<not> register_devname_safe (''DEVNAME=x'' @ [NUL] @ rest)"
  by (simp add: register_devname_safe_def cstr_of_def)

text \<open>Without devices in sysfs the end of coldplug is never announced.\<close>

lemma coldplug_never_finished:
  assumes "lc_initial_requests ctx = []" "\<not> lc_coldplug_finished ctx"
  shows "\<not> lc_coldplug_finished (linux_idle ctx)"
  using assms by (simp add: linux_idle_def)

end
