(* ===== verification/Vdevd_Preseed.thy ===== *)
theory Vdevd_Preseed
  imports Vdevd_Device
begin

text \<open>
  The devices that are known before vdevd starts (\<^verbatim>\<open>vdevd/vdev.c\<close>): a \<^emph>\<open>preseed\<close> program prints one line per
  device, \<open>type name major minor PARAM=VALUE...\<close>, and each line becomes a request on the queue.

  The result \<open>None\<close> stands for a crash. The text is the C string at the start of the output
  buffer, which must have an end.
\<close>

section \<open>vdev.c: one line\<close>

text \<open>\<open>strtok_r\<close> with the delimiters blank and tab: the token and what is left after it.\<close>

definition is_blank :: "char \<Rightarrow> bool" where
  "is_blank c \<longleftrightarrow> c = CHR '' '' \<or> c = TAB"

definition strtok :: "cstr \<Rightarrow> (cstr \<times> cstr) option" where
  "strtok s =
     (let t = dropWhile is_blank s
      in if t = [] then None
         else Some (takeWhile (\<lambda>c. \<not> is_blank c) t, drop 1 (dropWhile (\<lambda>c. \<not> is_blank c) t)))"

lemma strtok_smaller: "strtok s = Some (tok, rest) \<Longrightarrow> length rest < length s"
proof -
  assume a: "strtok s = Some (tok, rest)"
  then have ne: "dropWhile is_blank s \<noteq> []" and r: "rest = drop 1 (dropWhile (\<lambda>c. \<not> is_blank c) (dropWhile is_blank s))"
    by (auto simp: strtok_def Let_def split: if_splits)
  have "length (dropWhile is_blank s) \<le> length s" by (rule length_dropWhile_le)
  moreover have "length rest < length (dropWhile is_blank s)"
    using ne length_dropWhile_le [of "\<lambda>c. \<not> is_blank c" "dropWhile is_blank s"] unfolding r
    by (cases "dropWhile is_blank s") (auto simp: less_Suc_eq_le)
  ultimately show ?thesis by simp
qed

text \<open>A device number: \<open>strtoul\<close> on the whole token.\<close>

definition preseed_number :: "cstr \<Rightarrow> nat option" where
  "preseed_number tok = (case strtoul 10 tok of (v, tmp) \<Rightarrow> if tmp = tok \<or> tmp \<noteq> [] then None else Some v)"

text \<open>The parameters at the end of a line.\<close>

function preseed_params :: "cstr \<Rightarrow> vdev_device_request \<Rightarrow> rc \<times> vdev_device_request" where
  "preseed_params rest vreq =
     (case strtok rest of
        None \<Rightarrow> (0, vreq)
      | Some (tok, rest') \<Rightarrow>
          if length tok > 4096 then (- EINVAL, vreq)
          else
            (case vdev_keyvalue_next tok of
               (_, None) \<Rightarrow> (- EINVAL, vreq)
             | (_, Some (key, value)) \<Rightarrow>
                 (case vdev_device_request_add_param vreq key value of (rc, vreq') \<Rightarrow>
                    if rc \<noteq> 0 then (rc, vreq') else preseed_params rest' vreq')))"
  by pat_completeness auto

termination preseed_params
  by (relation "measure (\<lambda>(rest, vreq). length rest)") (auto dest: strtok_smaller)

declare preseed_params.simps [simp del]

text \<open>The path of the device is cut to \<open>PATH_MAX - 1\<close> bytes before it is looked up.\<close>

definition preseed_exists :: "'z vdev_base_state_scheme \<Rightarrow> cstr \<Rightarrow> world \<Rightarrow> bool" where
  "preseed_exists st name w =
     (let mp = (case conf_mountpoint (st_config st) of None \<Rightarrow> ''(null)'' | Some m \<Rightarrow> m)
      in case sys_stat (snprintf PATH_MAX (mp @ ''/'' @ name)) w of Inl _ \<Rightarrow> False | Inr _ \<Rightarrow> True)"

definition preseed_request ::
  "'z vdev_base_state_scheme \<Rightarrow> mode_t \<Rightarrow> cstr \<Rightarrow> nat \<Rightarrow> nat \<Rightarrow> cstr \<Rightarrow> world \<Rightarrow> rc \<times> vdev_device_request" where
  "preseed_request st mode name major minor rest w =
     (let vreq1 = vdev_device_request_init VDEV_DEVICE_ADD (Some name);
          vreq2 = vdev_device_request_set_mode (vdev_device_request_set_type vreq1 VDEV_DEVICE_ADD) mode;
          vreq3 = vdev_device_request_set_dev vreq2 (makedev (of_nat major) (of_nat minor))
      in case preseed_params rest vreq3 of (rc, vreq4) \<Rightarrow>
           if rc \<noteq> 0 then (rc, vreq4)
           else (0, vdev_device_request_set_exists vreq4 (preseed_exists st name w)))"

definition vdev_parse_device_request ::
  "'z vdev_base_state_scheme \<Rightarrow> vdev_device_request \<Rightarrow> cstr \<Rightarrow> world \<Rightarrow> (rc \<times> vdev_device_request) option" where
  "vdev_parse_device_request st vreq line w =
     (case strtok line of
        None \<Rightarrow> Some (- ENOENT, vreq)
      | Some (type, rest1) \<Rightarrow>
          if type \<notin> {''c'', ''b'', ''u''} then Some (- EINVAL, vreq)
          else
            (let mode = (if type = ''c'' then S_IFCHR else if type = ''b'' then S_IFBLK else 0)
             in case strtok rest1 of
                  None \<Rightarrow> Some (- ENOENT, vreq)
                | Some (name, rest2) \<Rightarrow>
                    if length name > 4096 then None
                    else
                      (case strtok rest2 of
                         None \<Rightarrow> Some (- ENOENT, vreq)
                       | Some (tok3, rest3) \<Rightarrow>
                           (case preseed_number tok3 of
                              None \<Rightarrow> Some (- EINVAL, vreq)
                            | Some major \<Rightarrow>
                                (case strtok rest3 of
                                   None \<Rightarrow> Some (- ENOENT, vreq)
                                 | Some (tok4, rest4) \<Rightarrow>
                                     (case preseed_number tok4 of
                                        None \<Rightarrow> Some (- EINVAL, vreq)
                                      | Some minor \<Rightarrow> Some (preseed_request st mode name major minor rest4 w)))))))"

section \<open>vdev.c: all lines\<close>

text \<open>Newlines are skipped while the count of consumed bytes is below the size of the buffer.\<close>

fun skip_newlines :: "nat \<Rightarrow> cstr \<Rightarrow> nat \<Rightarrow> cstr \<times> nat" where
  "skip_newlines buflen [] consumed = ([], consumed)"
| "skip_newlines buflen (c # cs) consumed =
     (if consumed < buflen \<and> c = NL then skip_newlines buflen cs (Suc consumed) else (c # cs, consumed))"

lemma skip_newlines_le: "consumed \<le> snd (skip_newlines buflen s consumed)"
  by (induction buflen s consumed rule: skip_newlines.induct) auto

text \<open>The current line and the rest from its newline on, if there is one: the end, too long a line, a crash, or a line.\<close>

datatype line_result = LineEnd | LineTooLong | LineOverflow | Line cstr "cstr option"

definition preseed_line :: "cstr \<Rightarrow> line_result" where
  "preseed_line cur =
     (case strchr cur NL of
        None \<Rightarrow> if cur = [] then LineEnd else if length cur < 4096 then Line cur None else LineTooLong
      | Some next_line \<Rightarrow>
          (let line_len = length cur - length next_line
           in if line_len \<le> 4096 then Line (take line_len cur) (Some next_line) else LineOverflow))"

text \<open>A request that is queued also posts the worker's semaphore.\<close>

definition preseed_enqueue :: "device_work vdev_wq \<Rightarrow> vdev_device_request \<Rightarrow> rc \<times> device_work vdev_wq" where
  "preseed_enqueue wq vreq =
     (case vdev_device_request_enqueue True wq vreq of (rc, wq') \<Rightarrow> (rc, if rc \<noteq> 0 then wq' else wq_post wq'))"

text \<open>After a line without newline the code takes the length of \<open>NULL\<close>.\<close>

function load_requests_loop ::
  "'z vdev_base_state_scheme \<Rightarrow> world \<Rightarrow> nat \<Rightarrow> nat \<Rightarrow> cstr \<Rightarrow> device_work vdev_wq \<Rightarrow> (rc \<times> device_work vdev_wq) option" where
  "load_requests_loop st w buflen consumed cur wq =
     (if \<not> consumed < buflen then Some (0, wq)
      else
        (case preseed_line cur of
           LineEnd \<Rightarrow> Some (0, wq)
         | LineTooLong \<Rightarrow> Some (- ERANGE, wq)
         | LineOverflow \<Rightarrow> None
         | Line line next_line \<Rightarrow>
             (case vdev_parse_device_request st (vdev_device_request_init VDEV_DEVICE_INVALID None) line w of
                None \<Rightarrow> None
              | Some (rc, vreq) \<Rightarrow>
                  if rc \<noteq> 0 then Some (rc, wq)
                  else
                    (case preseed_enqueue wq vreq of (rc, wq') \<Rightarrow>
                       if rc \<noteq> 0 then Some (rc, wq')
                       else
                         (case next_line of
                            None \<Rightarrow> None
                          | Some nxt \<Rightarrow>
                              (case skip_newlines buflen nxt (consumed + length nxt) of (cur', consumed') \<Rightarrow>
                                 load_requests_loop st w buflen consumed' cur' wq'))))))"
  by pat_completeness auto

lemma strchr_nonempty: "strchr s c = Some t \<Longrightarrow> t \<noteq> []"
  by (induction s) (auto split: if_splits)

lemma preseed_line_progress:
  assumes "preseed_line cur = Line line (Some nxt)"
  shows "consumed < snd (skip_newlines buflen nxt (consumed + length nxt))"
proof -
  have "nxt \<noteq> []" using assms by (auto simp: preseed_line_def Let_def split: option.splits if_splits dest: strchr_nonempty)
  then show ?thesis using skip_newlines_le [of "consumed + length nxt" buflen nxt] by (cases nxt) auto
qed

termination load_requests_loop
proof (relation "measure (\<lambda>(st, w, buflen, consumed, cur, wq). buflen - consumed)", goal_cases)
  case (2 st w buflen consumed cur wq line next_line r rc vreq rc' wq' nxt cur' consumed')
  have "snd (skip_newlines buflen nxt (consumed + length nxt)) = consumed'" using 2 by (metis snd_conv)
  with 2 preseed_line_progress [of cur line nxt consumed buflen] show ?case by auto
qed simp

declare load_requests_loop.simps [simp del]

definition vdev_load_device_requests ::
  "'z vdev_base_state_scheme \<Rightarrow> world \<Rightarrow> cbuf \<Rightarrow> device_work vdev_wq \<Rightarrow> (rc \<times> device_work vdev_wq) option" where
  "vdev_load_device_requests st w text_buf wq =
     (if NUL \<notin> set text_buf then None
      else load_requests_loop st w (length text_buf) 0 (cstr_of text_buf) wq)"

text \<open>
  \<open>vdev_preseed_run\<close>: the program is run through a shell, with an output buffer of one megabyte (a parameter here,
  to be able to evaluate examples). \<open>NULL\<close> paths are \<open>strlen(NULL)\<close>.
\<close>

definition vdev_preseed_run ::
  "nat \<Rightarrow> 'z vdev_base_state_scheme \<Rightarrow> device_work vdev_wq \<Rightarrow> world \<Rightarrow> (rc \<times> device_work vdev_wq \<times> world) option" where
  "vdev_preseed_run output_len st wq w =
     (case conf_preseed_path (st_config st) of
        None \<Rightarrow> Some (0, wq, w)
      | Some preseed \<Rightarrow>
          (case (conf_mountpoint (st_config st), conf_config_path (st_config st)) of
             (Some mp, Some cp) \<Rightarrow>
               (case vdev_subprocess (Some (preseed @ '' '' @ mp @ '' '' @ cp)) [] output_len True w of
                  (rc, exit_status, output, w1) \<Rightarrow>
                    (let rc1 = (if rc \<noteq> 0 then rc else exit_status)
                     in if rc1 \<noteq> 0 then Some (rc1, wq, w1)
                        else
                          (case output of
                             None \<Rightarrow> None
                           | Some out \<Rightarrow>
                               map_option (\<lambda>(rc2, wq'). (rc2, wq', w1))
                                 (vdev_load_device_requests st w1 out wq))))
           | _ \<Rightarrow> None))"

section \<open>A printed list of devices is loaded\<close>

record preseed_entry =
  pe_type :: char
  pe_name :: cstr
  pe_major :: nat
  pe_minor :: nat
  pe_params :: "(cstr \<times> cstr) list"

fun unwords :: "cstr list \<Rightarrow> cstr" where
  "unwords [] = []"
| "unwords [x] = x"
| "unwords (x # y # xs) = x @ CHR '' '' # unwords (y # xs)"

definition entry_words :: "preseed_entry \<Rightarrow> cstr list" where
  "entry_words e = [pe_type e] # pe_name e # show_nat (pe_major e) # show_nat (pe_minor e) #
     map (\<lambda>(k, v). k @ CHR ''='' # v) (pe_params e)"

definition entry_line :: "preseed_entry \<Rightarrow> cstr" where
  "entry_line e = unwords (entry_words e)"

definition preseed_text :: "cstr list \<Rightarrow> cstr" where
  "preseed_text ls = concat (map (\<lambda>l. l @ [NL]) ls)"

definition token :: "cstr \<Rightarrow> bool" where
  "token t \<longleftrightarrow> t \<noteq> [] \<and> (\<forall>c \<in> set t. \<not> is_blank c \<and> c \<noteq> NL \<and> c \<noteq> NUL)"

definition entry_ok :: "preseed_entry \<Rightarrow> bool" where
  "entry_ok e \<longleftrightarrow> pe_type e \<in> {CHR ''c'', CHR ''b'', CHR ''u''} \<and> list_all token (entry_words e) \<and>
     pe_major e < 2 ^ 32 \<and> pe_minor e < 2 ^ 32 \<and> list_all (\<lambda>kv. CHR ''='' \<notin> set (fst kv)) (pe_params e) \<and>
     distinct (map fst (pe_params e)) \<and> length (entry_line e) \<le> 4096"

text \<open>The request that an entry describes.\<close>

definition entry_request :: "'z vdev_base_state_scheme \<Rightarrow> world \<Rightarrow> preseed_entry \<Rightarrow> vdev_device_request \<Rightarrow> bool" where
  "entry_request st w e req \<longleftrightarrow>
     req_type req = VDEV_DEVICE_ADD \<and> req_path req = Some (pe_name e) \<and>
     req_mode req = (if pe_type e = CHR ''c'' then S_IFCHR else if pe_type e = CHR ''b'' then S_IFBLK else 0) \<and>
     req_dev req = makedev (of_nat (pe_major e)) (of_nat (pe_minor e)) \<and>
     vdev_params_lookup (req_params req) = map_of (pe_params e) \<and>
     req_exists req = preseed_exists st (pe_name e) w"

lemma token_run: "token t \<Longrightarrow> takeWhile (\<lambda>c. \<not> is_blank c) (t @ s) = t @ takeWhile (\<lambda>c. \<not> is_blank c) s"
  "token t \<Longrightarrow> dropWhile (\<lambda>c. \<not> is_blank c) (t @ s) = dropWhile (\<lambda>c. \<not> is_blank c) s"
  "token t \<Longrightarrow> dropWhile is_blank (t @ s) = t @ s"
  by (auto simp: token_def dropWhile_append takeWhile_append neq_Nil_conv)

lemma strtok_unwords: "token x \<Longrightarrow> strtok (unwords (x # xs)) = Some (x, unwords xs)"
proof (cases xs)
  case Nil
  assume "token x"
  then have "x \<noteq> []" by (simp add: token_def)
  moreover have d: "dropWhile (\<lambda>c. \<not> is_blank c) x = []" "takeWhile (\<lambda>c. \<not> is_blank c) x = x" "dropWhile is_blank x = x"
    using token_run [OF \<open>token x\<close>, of "[]"] by simp_all
  ultimately show ?thesis unfolding Nil unwords.simps strtok_def Let_def d by simp
next
  case (Cons y ys)
  assume "token x"
  then have "x \<noteq> []" by (simp add: token_def)
  with \<open>token x\<close> Cons token_run [of x] show ?thesis by (simp add: strtok_def Let_def is_blank_def)
qed

lemma strtok_Nil: "strtok [] = None"
  by (simp add: strtok_def)

lemma length_unwords: "x \<in> set xs \<Longrightarrow> length x \<le> length (unwords xs)"
  by (induction xs rule: unwords.induct) auto

lemma preseed_params_ok:
  "list_all (\<lambda>(k, v). token (k @ CHR ''='' # v) \<and> CHR ''='' \<notin> set k \<and> length (k @ CHR ''='' # v) \<le> 4096) ps \<Longrightarrow>
   distinct (map fst ps) \<Longrightarrow> vdev_params_invar (req_params vreq) \<Longrightarrow>
   (\<And>k. k \<in> fst ` set ps \<Longrightarrow> vdev_params_lookup (req_params vreq) k = None) \<Longrightarrow>
   \<exists>q. preseed_params (unwords (map (\<lambda>(k, v). k @ CHR ''='' # v) ps)) vreq = (0, vreq\<lparr>req_params := q\<rparr>) \<and>
     vdev_params_lookup q = vdev_params_lookup (req_params vreq) ++ map_of ps"
proof (induction ps arbitrary: vreq)
  case Nil
  then show ?case by (subst preseed_params.simps) (auto simp: strtok_Nil intro!: exI [of _ "req_params vreq"])
next
  case (Cons kv ps)
  obtain k v where kv: "kv = (k, v)" by (cases kv)
  let ?t = "k @ CHR ''='' # v"
  have t: "token ?t" "CHR ''='' \<notin> set k" "length ?t \<le> 4096" using Cons.prems(1) kv by auto
  have free: "vdev_params_lookup (req_params vreq) k = None" using Cons.prems(4) kv by simp
  obtain q where q: "vdev_params_add (req_params vreq) k v = (0, q)" "vdev_params_invar q"
    "vdev_params_lookup q = (vdev_params_lookup (req_params vreq))(k \<mapsto> v)"
    using params_add_lookup [OF Cons.prems(3), of k v] params_add_invar [OF Cons.prems(3), of k v] free
    by (auto simp: params_add_cases [OF Cons.prems(3)])
  have kn: "k \<notin> fst ` set ps" using Cons.prems(2) kv by simp
  have "vdev_params_lookup q k' = None" if "k' \<in> fst ` set ps" for k'
    using that Cons.prems(4) q(3) kn kv by (auto simp: fun_upd_apply)
  then obtain q' where q': "preseed_params (unwords (map (\<lambda>(k, v). k @ CHR ''='' # v) ps)) (vreq\<lparr>req_params := q\<rparr>) =
      (0, vreq\<lparr>req_params := q'\<rparr>)" "vdev_params_lookup q' = vdev_params_lookup q ++ map_of ps"
    using Cons.IH [of "vreq\<lparr>req_params := q\<rparr>"] Cons.prems q(2) by auto
  have "vdev_keyvalue_next ?t = (int (length ?t), Some (k, v))" using t(2) by (simp add: keyvalue_next_Some)
  then have "preseed_params (unwords (map (\<lambda>(k, v). k @ CHR ''='' # v) (kv # ps))) vreq = (0, vreq\<lparr>req_params := q'\<rparr>)"
    using strtok_unwords [OF t(1)] t(3) q(1) q'(1)
    by (subst preseed_params.simps) (simp add: kv vdev_device_request_add_param_def)
  moreover have "vdev_params_lookup q' = vdev_params_lookup (req_params vreq) ++ map_of (kv # ps)"
    using q'(2) q(3) kn kv by (simp add: map_add_upd_left map_of_eq_None_iff dom_map_of_conv_image_fst)
  ultimately show ?case by blast
qed

lemma preseed_number_show: "n < 2 ^ 32 \<Longrightarrow> preseed_number (show_nat n) = Some n"
  using strto_show_nat [of "[]" n] show_nat_nonempty [of n, symmetric] by (simp add: preseed_number_def strtoul_def)

lemma parse_entry:
  assumes "entry_ok e"
  shows "\<exists>req. vdev_parse_device_request st vreq (entry_line e) w = Some (0, req) \<and> entry_request st w e req"
proof -
  let ?ps = "map (\<lambda>(k, v). k @ CHR ''='' # v) (pe_params e)"
  have tok: "token [pe_type e]" "token (pe_name e)" "token (show_nat (pe_major e))" "token (show_nat (pe_minor e))"
    using assms by (simp_all add: entry_ok_def entry_words_def)
  have len: "length x \<le> 4096" if "x \<in> set (entry_words e)" for x
    using length_unwords [OF that] assms by (simp add: entry_ok_def entry_line_def)
  define mode where "mode = (if pe_type e = CHR ''c'' then S_IFCHR else if pe_type e = CHR ''b'' then S_IFBLK else 0)"
  define v where "v = vdev_device_request_set_dev (vdev_device_request_set_mode (vdev_device_request_set_type
      (vdev_device_request_init VDEV_DEVICE_ADD (Some (pe_name e))) VDEV_DEVICE_ADD) mode)
      (makedev (of_nat (pe_major e)) (of_nat (pe_minor e)))"
  have v: "vdev_params_invar (req_params v)" "vdev_params_lookup (req_params v) = Map.empty"
    by (simp_all add: v_def vdev_device_request_set_dev_def vdev_device_request_set_mode_def vdev_device_request_set_type_def
        vdev_device_request_init_def params.invar_empty params.lookup_empty)
  have "list_all (\<lambda>(k, v). token (k @ CHR ''='' # v) \<and> CHR ''='' \<notin> set k \<and> length (k @ CHR ''='' # v) \<le> 4096) (pe_params e)"
    unfolding list_all_iff
  proof clarify
    fix k v
    assume kv: "(k, v) \<in> set (pe_params e)"
    then have x: "k @ CHR ''='' # v \<in> set (entry_words e)" unfolding entry_words_def by force
    then have "token (k @ CHR ''='' # v)" using assms by (simp add: entry_ok_def list_all_iff)
    moreover have "CHR ''='' \<notin> set k" using assms kv by (fastforce simp: entry_ok_def list_all_iff)
    ultimately show "token (k @ CHR ''='' # v) \<and> CHR ''='' \<notin> set k \<and> length (k @ CHR ''='' # v) \<le> 4096" using len [OF x] by blast
  qed
  then obtain q where q: "preseed_params (unwords ?ps) v = (0, v\<lparr>req_params := q\<rparr>)" "vdev_params_lookup q = map_of (pe_params e)"
    using preseed_params_ok [of "pe_params e" v] assms v by (auto simp: entry_ok_def)
  have name: "\<not> 4096 < length (pe_name e)" using len [of "pe_name e"] by (simp add: entry_words_def)
  have r: "preseed_request st mode (pe_name e) (pe_major e) (pe_minor e) (unwords ?ps) w =
      (0, vdev_device_request_set_exists (v\<lparr>req_params := q\<rparr>) (preseed_exists st (pe_name e) w))"
    using q(1) by (simp add: preseed_request_def v_def Let_def)
  have num: "preseed_number (show_nat (pe_major e)) = Some (pe_major e)" "preseed_number (show_nat (pe_minor e)) = Some (pe_minor e)"
    using assms by (simp_all add: preseed_number_show entry_ok_def)
  have type: "[pe_type e] \<in> {''c'', ''b'', ''u''}" using assms by (auto simp: entry_ok_def)
  have m: "(if [pe_type e] = ''c'' then S_IFCHR else if [pe_type e] = ''b'' then S_IFBLK else 0) = mode" by (simp add: mode_def)
  have "vdev_parse_device_request st vreq (entry_line e) w =
      Some (0, vdev_device_request_set_exists (v\<lparr>req_params := q\<rparr>) (preseed_exists st (pe_name e) w))"
    unfolding vdev_parse_device_request_def entry_line_def entry_words_def strtok_unwords [OF tok(1)] option.case prod.case
      strtok_unwords [OF tok(2)] strtok_unwords [OF tok(3)] strtok_unwords [OF tok(4)] num Let_def if_not_P [OF name] m r
    using type by simp
  moreover have "entry_request st w e (vdev_device_request_set_exists (v\<lparr>req_params := q\<rparr>) (preseed_exists st (pe_name e) w))"
    using q(2) by (simp add: entry_request_def v_def mode_def vdev_device_request_set_exists_def vdev_device_request_set_dev_def
        vdev_device_request_set_mode_def vdev_device_request_set_type_def vdev_device_request_init_def)
  ultimately show ?thesis by blast
qed


lemma unwords_chars: "c \<in> set (unwords xs) \<Longrightarrow> c = CHR '' '' \<or> (\<exists>x \<in> set xs. c \<in> set x)"
  by (induction xs rule: unwords.induct) auto

lemma entry_line_chars:
  assumes "entry_ok e"
  shows "NL \<notin> set (entry_line e)" "NUL \<notin> set (entry_line e)" "entry_line e \<noteq> []" "length (entry_line e) \<le> 4096"
proof -
  have "list_all token (entry_words e)" using assms by (simp add: entry_ok_def)
  then show "NL \<notin> set (entry_line e)" "NUL \<notin> set (entry_line e)"
    using unwords_chars [of _ "entry_words e"] by (fastforce simp: entry_line_def list_all_iff token_def)+
  show "entry_line e \<noteq> []" by (simp add: entry_line_def entry_words_def)
  show "length (entry_line e) \<le> 4096" using assms by (simp add: entry_ok_def)
qed

text \<open>
  How far the code counts itself to have come: after each line it adds the length of the whole rest of the text.
\<close>

fun preseed_cost :: "cstr list \<Rightarrow> nat" where
  "preseed_cost [] = 0"
| "preseed_cost (l # ls) = 2 + length (preseed_text ls) + preseed_cost ls"

lemma preseed_line_first:
  assumes "NL \<notin> set l" "length l \<le> 4096"
  shows "preseed_line (preseed_text (l # ls)) = Line l (Some (NL # preseed_text ls))"
  using assms strchr_append_notin [OF assms(1), of "preseed_text ls"] by (simp add: preseed_line_def preseed_text_def)

lemma skip_one:
  assumes "consumed < buflen" "list_all (\<lambda>l. l \<noteq> [] \<and> NL \<notin> set l) ls"
  shows "skip_newlines buflen (NL # preseed_text ls) consumed = (preseed_text ls, Suc consumed)"
proof (cases ls)
  case Nil
  then show ?thesis using assms by (simp add: preseed_text_def)
next
  case (Cons l ls')
  then obtain c cs where "l = c # cs" "c \<noteq> NL" using assms(2) by (cases l) auto
  then show ?thesis using assms(1) Cons by (simp add: preseed_text_def)
qed

lemma preseed_enqueue_add:
  assumes "entry_request st w e req"
  shows "\<exists>wq'. preseed_enqueue wq req = (0, wq') \<and> wq_added wq' = wq_added wq @ [WorkAdd req]"
  using assms by (simp add: preseed_enqueue_def entry_request_def vdev_device_request_enqueue_def
      vdev_device_request_sanity_check_def vdev_wq_add_def wq_post_def)

lemma load_entries:
  "list_all entry_ok es \<Longrightarrow> consumed + preseed_cost (map entry_line es) \<le> buflen \<Longrightarrow>
   \<exists>wq' reqs. load_requests_loop st w buflen consumed (preseed_text (map entry_line es)) wq = Some (0, wq') \<and>
     wq_added wq' = wq_added wq @ map WorkAdd reqs \<and> list_all2 (entry_request st w) es reqs"
proof (induction es arbitrary: consumed wq)
  case Nil
  then show ?case by (subst load_requests_loop.simps) (simp add: preseed_text_def preseed_line_def)
next
  case (Cons e es)
  let ?ls = "map entry_line es" let ?c = "Suc (consumed + length (NL # preseed_text ?ls))"
  have e: "entry_ok e" using Cons.prems(1) by simp
  note line = entry_line_chars [OF e]
  obtain req where req: "vdev_parse_device_request st (vdev_device_request_init VDEV_DEVICE_INVALID None) (entry_line e) w = Some (0, req)"
    "entry_request st w e req" using parse_entry [OF e] by blast
  obtain wq1 where wq1: "preseed_enqueue wq req = (0, wq1)" "wq_added wq1 = wq_added wq @ [WorkAdd req]"
    using preseed_enqueue_add [OF req(2)] by blast
  have "list_all (\<lambda>l. l \<noteq> [] \<and> NL \<notin> set l) ?ls"
    using Cons.prems(1) entry_line_chars by (auto simp: list_all_iff)
  then have skip: "skip_newlines buflen (NL # preseed_text ?ls) (consumed + length (NL # preseed_text ?ls)) = (preseed_text ?ls, ?c)"
    using Cons.prems(2) by (intro skip_one) auto
  have "load_requests_loop st w buflen consumed (preseed_text (map entry_line (e # es))) wq =
      load_requests_loop st w buflen ?c (preseed_text ?ls) wq1"
    using Cons.prems(2) preseed_line_first [OF line(1,4), of ?ls] req(1) wq1(1) skip
    by (subst load_requests_loop.simps) (simp del: skip_newlines.simps)
  moreover obtain wq' reqs where "load_requests_loop st w buflen ?c (preseed_text ?ls) wq1 = Some (0, wq')"
    "wq_added wq' = wq_added wq1 @ map WorkAdd reqs" "list_all2 (entry_request st w) es reqs"
    using Cons.IH [of ?c wq1] Cons.prems by auto
  ultimately show ?case using wq1(2) req(2) by (auto intro!: exI [of _ "req # reqs"])
qed

text \<open>
  C30: Preseeded devices are loaded. A list of devices printed one per line is read back: every line becomes
  one ADD request on the queue, in order, with the type, name, numbers and parameters of its line. This
  needs a buffer that is much larger than the text (\<open>preseed_cost\<close>), since the code counts bytes it has not consumed; in a smaller one, lines are
  dropped (\<open>preseed_drops_lines\<close>). The numbers of a device of unknown type (\<open>u\<close>) are used as well,
  although the comment on \<open>vdev_load_device_requests\<close> says that they are ignored (\<open>preseed_unknown_numbers\<close>).
\<close>

theorem preseed_loads:
  assumes "list_all entry_ok es" "preseed_cost (map entry_line es) \<le> length (preseed_text (map entry_line es) @ NUL # pad)"
  shows "\<exists>wq' reqs. vdev_load_device_requests st w (preseed_text (map entry_line es) @ NUL # pad) wq = Some (0, wq') \<and>
    wq_added wq' = wq_added wq @ map WorkAdd reqs \<and> list_all2 (entry_request st w) es reqs"
proof -
  have "NUL \<notin> set (preseed_text (map entry_line es))"
    using assms(1) entry_line_chars(2) by (auto simp: preseed_text_def list_all_iff)
  then have "cstr_of (preseed_text (map entry_line es) @ NUL # pad) = preseed_text (map entry_line es)"
    by (rule takeWhile_NUL_free)
  with load_entries [OF assms(1), of 0 "length (preseed_text (map entry_line es) @ NUL # pad)" st w wq] assms(2) show ?thesis
    by (simp add: vdev_load_device_requests_def)
qed

definition preseed_witness :: "preseed_entry list" where
  "preseed_witness = [\<lparr>pe_type = CHR ''b'', pe_name = ''sda'', pe_major = 8, pe_minor = 0, pe_params = [(''k'', ''v'')]\<rparr>,
     \<lparr>pe_type = CHR ''u'', pe_name = ''x'', pe_major = 0, pe_minor = 0, pe_params = []\<rparr>]"

definition preseed_state :: vdev_base_state where
  "preseed_state = \<lparr>st_config = vdev_config_init\<lparr>conf_mountpoint := Some ''/dev''\<rparr>, st_mountpoint = ''/dev'', st_levels = default_log_levels\<rparr>"

theorem preseed_loads_witness:
  "\<exists>wq' reqs. vdev_load_device_requests preseed_state calm_world (preseed_text (map entry_line preseed_witness) @ NUL # calloc 100) vdev_wq_init =
      Some (0, wq') \<and>
    wq_added wq' = map WorkAdd reqs \<and> list_all2 (entry_request preseed_state calm_world) preseed_witness reqs"
proof -
  have "digit_char 8 = CHR ''8''" "digit_char 0 = CHR ''0''" by code_simp+
  then have "list_all entry_ok preseed_witness"
    by (simp add: entry_ok_def preseed_witness_def entry_words_def entry_line_def token_def [of "_ # _"] is_blank_def show_nat.simps)
  moreover have "preseed_cost (map entry_line preseed_witness) \<le> length (preseed_text (map entry_line preseed_witness) @ NUL # calloc 100)"
    by code_simp
  ultimately show ?thesis using preseed_loads [of preseed_witness "calloc 100" preseed_state calm_world vdev_wq_init]
    by (simp add: vdev_wq_init_def)
qed

section \<open>Where the loader fails\<close>

text \<open>Lines are dropped, although the buffer holds them all: here the third of three.\<close>

lemma preseed_drops_lines:
  "map_option (\<lambda>(rc, wq). (rc, length (wq_added wq)))
     (vdev_load_device_requests preseed_state calm_world (preseed_text [''u a 0 0'', ''u b 0 0'', ''u c 0 0''] @ [NUL]) vdev_wq_init) = Some (0, 2)"
  by code_simp

text \<open>The numbers of a device of unknown type are not ignored.\<close>

lemma preseed_unknown_numbers:
  "map_option (\<lambda>(rc, wq). map (\<lambda>x. case x of WorkAdd req \<Rightarrow> (req_dev req, req_mode req)) (wq_added wq))
     (vdev_load_device_requests preseed_state calm_world (preseed_text [''u a 8 1''] @ calloc 100) vdev_wq_init) = Some [(makedev 8 1, 0)]"
  by code_simp

text \<open>A last line without newline is loaded, and then the length of \<open>NULL\<close> is taken.\<close>

lemma preseed_last_line_crash:
  "vdev_load_device_requests preseed_state calm_world (''u a 0 0'' @ calloc 100) vdev_wq_init = None"
  by code_simp

text \<open>A line of more than 4096 characters that does end in a newline overflows the line buffer.\<close>

lemma preseed_line_overflow: "NL \<notin> set l \<Longrightarrow> 4096 < length l \<Longrightarrow> preseed_line (l @ NL # rest) = LineOverflow"
  by (simp add: preseed_line_def strchr_append_notin)

end
