(* ===== verification/Vdevd_Main.thy ===== *)
theory Vdevd_Main
  imports Vdevd_Preseed Vdevd_Linux
begin

text \<open>
  The daemon as a whole (\<^verbatim>\<open>vdevd/vdev.c\<close>, \<^verbatim>\<open>vdevd/main.c\<close>): its global state, set-up and shut-down, the reload of its
  configuration, the removal of devices that are no longer plugged in, and \<open>main\<close>.

  What the code obtains from outside (the command line as \<open>getopt\<close> delivers it, the working directory,
  random bytes, the operating system, the results of creating threads and processes) is the record \<open>daemon_env\<close>.
  A result \<open>None\<close> stands for a crash.
\<close>

section \<open>The state\<close>

record vdev_state =
  vs_config :: "vdev_config option"
  vs_mountpoint :: "cstr option"
  vs_os :: "vdev_linux_context option"
  vs_acts :: "vdev_action list"
  vs_wq :: "device_work vdev_wq"
  vs_running :: bool
  vs_coldplug_only :: bool
  vs_coldplug_fd :: int
  vs_error_running :: bool
  vs_error_fd :: int
  vs_levels :: log_levels          \<comment> \<open>global variables of the logger\<close>
  vs_getopt :: "(char \<times> cstr) list option"   \<comment> \<open>global state of \<open>getopt\<close>: the options still to come, once it has been called\<close>

record daemon_env =
  de_opts :: "(char \<times> cstr) list"
  de_args :: "cstr list"
  de_argv0 :: cstr
  de_getcwd :: "cstr option"
  de_rand :: "nat \<Rightarrow> 8 word"
  de_lib :: regex_lib
  de_linux :: linux_os
  de_fifo :: "cstr \<Rightarrow> rc + int"      \<comment> \<open>opening the error FIFO, made if it is missing: an errno value, or a descriptor\<close>
  de_thread :: rc                   \<comment> \<open>what \<open>pthread_create\<close> returns for the error thread\<close>
  de_worker :: "rc \<times> rc"            \<comment> \<open>what it returns for the worker, and the value of \<open>errno\<close> then\<close>

definition VDEV_CONFIG_FILE :: cstr where "VDEV_CONFIG_FILE = ''/etc/vdev/vdevd.conf''"

text \<open>\<open>main\<close> clears the state, and the logger starts with its defaults.\<close>

definition zero_state :: vdev_state where
  "zero_state = \<lparr>vs_config = None, vs_mountpoint = None, vs_os = None, vs_acts = [], vs_wq = vdev_wq_init, vs_running = False,
     vs_coldplug_only = False, vs_coldplug_fd = 0, vs_error_running = False, vs_error_fd = 0, vs_levels = default_log_levels,
     vs_getopt = None\<rparr>"

text \<open>What the request handlers use of the state; \<open>None\<close> if a pointer is \<open>NULL\<close>.\<close>

definition state_base :: "vdev_state \<Rightarrow> vdev_base_state option" where
  "state_base st =
     (case (vs_config st, vs_mountpoint st) of
        (Some config, Some mp) \<Rightarrow> Some \<lparr>st_config = config, st_mountpoint = mp, st_levels = vs_levels st\<rparr>
      | _ \<Rightarrow> None)"

section \<open>vdev.c: initialization\<close>

text \<open>The configuration file, from the file system.\<close>

definition load_config_file :: "daemon_env \<Rightarrow> world \<Rightarrow> vdev_config \<Rightarrow> rc \<times> vdev_config" where
  "load_config_file env w config =
     (case conf_config_path config of
        None \<Rightarrow> (- EINVAL, config)
      | Some p \<Rightarrow> vdev_config_load (de_getcwd env) (de_rand env) (sys_open_read p w) config)"

text \<open>The command line, from where \<open>getopt\<close> has got to; it is left at the options that remain.\<close>

definition pending_opts :: "daemon_env \<Rightarrow> vdev_state \<Rightarrow> (char \<times> cstr) list" where
  "pending_opts env st = (case vs_getopt st of None \<Rightarrow> de_opts env | Some opts \<Rightarrow> opts)"

definition load_config_args :: "daemon_env \<Rightarrow> (char \<times> cstr) list \<Rightarrow> vdev_config \<Rightarrow> rc \<times> vdev_config \<times> (char \<times> cstr) list" where
  "load_config_args env opts config =
     (case vdev_config_load_from_args (lx_realpath (de_linux env)) (de_argv0 env) opts (de_args env) False config of
        (rc, config', _, rest) \<Rightarrow> (rc, config', rest))"

definition default_config_path :: "vdev_config \<Rightarrow> vdev_config" where
  "default_config_path config = config\<lparr>conf_config_path := set_if_null VDEV_CONFIG_FILE (conf_config_path config)\<rparr>"

text \<open>The log levels: first those of the command line, then those of the file, if it gives any.\<close>

definition init_levels :: "vdev_config \<Rightarrow> vdev_config \<Rightarrow> log_levels \<Rightarrow> log_levels" where
  "init_levels args file l =
     (let l1 = vdev_set_error_level (conf_error_level args) (vdev_set_debug_level (conf_debug_level args) l);
          l2 = (if conf_debug_level file \<noteq> VDEV_LOGLEVEL_NONE then vdev_set_debug_level (conf_debug_level file) l1 else l1)
      in if conf_error_level file \<noteq> VDEV_LOGLEVEL_NONE then vdev_set_error_level (conf_error_level file) l2 else l2)"

definition vdev_init :: "daemon_env \<Rightarrow> world \<Rightarrow> vdev_state \<Rightarrow> (rc \<times> vdev_state) option" where
  "vdev_init env w st =
     (case load_config_args env (pending_opts env st) vdev_config_init of (rc, config1, rest) \<Rightarrow>
        (let st1 = st\<lparr>vs_error_fd := - 1, vs_coldplug_fd := - 1, vs_config := Some config1, vs_getopt := Some rest\<rparr>
         in if rc \<noteq> 0 then Some (rc, st1)
           else
             (let config2 = default_config_path config1
              in case load_config_file env w config2 of (rc, config3) \<Rightarrow>
                   if rc \<noteq> 0 then Some (rc, st1\<lparr>vs_config := Some config3\<rparr>)
                   else
                     (let st2 = st1\<lparr>vs_config := Some config3, vs_levels := init_levels config2 config3 (vs_levels st1),
                                  vs_mountpoint := conf_mountpoint config3, vs_coldplug_only := conf_coldplug_only config3\<rparr>
                      in if conf_mountpoint config3 = None then Some (- EINVAL, st2)
                         else
                           (case vdev_action_load_all (de_lib env) config3 w of
                              None \<Rightarrow> None
                            | Some (Inl rc) \<Rightarrow> Some (rc, st2)
                            | Some (Inr acts) \<Rightarrow> Some (0, st2\<lparr>vs_acts := acts, vs_wq := vdev_wq_init\<rparr>))))))"

section \<open>vdev.c: reload\<close>

definition vdev_reload :: "daemon_env \<Rightarrow> world \<Rightarrow> vdev_state \<Rightarrow> (rc \<times> vdev_state) option" where
  "vdev_reload env w st =
     (case load_config_args env (pending_opts env st) (default_config_path vdev_config_init) of (rc, config1, rest) \<Rightarrow>
        (let st1 = st\<lparr>vs_getopt := Some rest\<rparr>
         in if rc \<noteq> 0 then Some (rc, st1)
            else
              (case load_config_file env w config1 of (rc, config2) \<Rightarrow>
                 if rc \<noteq> 0 then Some (rc, st1)
                 else
                   (case vdev_action_load_all (de_lib env) config2 w of
                      None \<Rightarrow> None
                    | Some (Inl rc) \<Rightarrow> Some (rc, st1)
                    | Some (Inr acts) \<Rightarrow> Some (0, st1\<lparr>vs_config := Some config2, vs_acts := acts\<rparr>)))))"

section \<open>vdev.c: start and stop\<close>

definition vdev_error_fifo_path :: "cstr \<Rightarrow> nat \<Rightarrow> rc \<times> cstr" where
  "vdev_error_fifo_path mountpoint path_len =
     (let path = mountpoint @ ''/'' @ VDEV_METADATA_PREFIX @ ''/err.pipe''
      in (if length path \<ge> path_len then - EPERM else 0, snprintf path_len path))"

definition vdev_error_fifo_get_or_create :: "daemon_env \<Rightarrow> cstr \<Rightarrow> rc + int" where
  "vdev_error_fifo_get_or_create env mountpoint =
     (case vdev_error_fifo_path mountpoint PATH_MAX of (rc, fifo_path) \<Rightarrow>
        if rc < 0 then Inl rc
        else (case de_fifo env fifo_path of Inl e \<Rightarrow> Inl (- e) | Inr fd \<Rightarrow> Inr fd))"

definition vdev_error_thread_start :: "daemon_env \<Rightarrow> vdev_state \<Rightarrow> (rc \<times> vdev_state) option" where
  "vdev_error_thread_start env st =
     (case vs_config st of
        None \<Rightarrow> None
      | Some config \<Rightarrow>
          Some (case vdev_error_fifo_get_or_create env (case conf_mountpoint config of None \<Rightarrow> ''(null)'' | Some m \<Rightarrow> m) of
                  Inl rc \<Rightarrow> (rc, st)
                | Inr fd \<Rightarrow>
                    if de_thread env \<noteq> 0 then (- de_thread env, st\<lparr>vs_error_fd := fd, vs_error_running := False\<rparr>)
                    else (0, st\<lparr>vs_error_fd := fd, vs_error_running := True\<rparr>)))"

definition vdev_error_thread_stop :: "vdev_state \<Rightarrow> vdev_state" where
  "vdev_error_thread_stop st =
     (if \<not> vs_error_running st then st
      else st\<lparr>vs_error_fd := (if vs_error_fd st \<ge> 0 then - 1 else vs_error_fd st), vs_error_running := False\<rparr>)"

text \<open>\<open>vdev_start\<close>: the back end may set a quirk in the configuration.\<close>

definition vdev_start :: "daemon_env \<Rightarrow> world \<Rightarrow> vdev_state \<Rightarrow> (rc \<times> vdev_state) option" where
  "vdev_start env w st =
     (case vdev_error_thread_start env (st\<lparr>vs_running := True\<rparr>) of
        None \<Rightarrow> None
      | Some (rc, st1) \<Rightarrow>
          if rc \<noteq> 0 then Some (rc, st1\<lparr>vs_os := None\<rparr>)
          else
            (case vdev_wq_start (fst (de_worker env)) (snd (de_worker env)) (vs_wq st1) of (rc, wq1) \<Rightarrow>
               if rc \<noteq> 0 then Some (rc, (vdev_error_thread_stop (st1\<lparr>vs_wq := wq1\<rparr>))\<lparr>vs_os := None\<rparr>)
               else
                 (case (vs_config st1, vs_mountpoint st1) of
                    (Some config, Some mp) \<Rightarrow>
                      (case vdev_os_context_init (de_linux env) w mp (vs_coldplug_only st1) config of
                         None \<Rightarrow> None
                       | Some (rc, config', ctx) \<Rightarrow>
                           (let st2 = st1\<lparr>vs_wq := wq1, vs_config := Some config'\<rparr>
                            in if rc \<noteq> 0 then
                                 Some (rc, (vdev_error_thread_stop (st2\<lparr>vs_wq := snd (vdev_wq_stop wq1)\<rparr>))\<lparr>vs_os := None\<rparr>)
                               else Some (0, st2\<lparr>vs_os := ctx\<rparr>)))
                  | _ \<Rightarrow> None)))"

definition vdev_signal_coldplug_finished :: "vdev_state \<Rightarrow> vdev_state" where
  "vdev_signal_coldplug_finished st = (if vs_coldplug_fd st > 0 then st\<lparr>vs_coldplug_fd := - 1\<rparr> else st)"

text \<open>
  \<open>vdev_main\<close>: the metadata directory, then the main loop of the back end, which runs while the worker does;
  here \<open>evs\<close> are the netlink events, and the worker is not scheduled (see the root theory for the interleaving).
\<close>

definition vdev_main ::
  "daemon_env \<Rightarrow> nl_event list \<Rightarrow> int \<Rightarrow> vdev_state \<Rightarrow> world \<Rightarrow> (rc option \<times> vdev_state \<times> world) option" where
  "vdev_main env evs fd st w =
     (let st1 = st\<lparr>vs_coldplug_fd := fd\<rparr>
      in case (vs_mountpoint st1, vs_os st1) of
           (Some mp, Some ctx) \<Rightarrow>
             (case vdev_device_metadata_fullpath mp [] of
                None \<Rightarrow> None
              | Some metadata_dir \<Rightarrow>
                  (case vdev_mkdirs metadata_dir 0 w of (rc, w1) \<Rightarrow>
                     if rc \<noteq> 0 then Some (Some rc, st1, w1)
                     else map_option (\<lambda>(rc, ctx', wq'). (rc, st1\<lparr>vs_os := Some ctx', vs_wq := wq'\<rparr>, w1))
                            (vdev_os_main (de_linux env) w1 evs ctx (vs_wq st1))))
         | _ \<Rightarrow> None)"

text \<open>
  \<open>vdev_stop\<close>. When only coldplug is handled it first waits for the queue to drain; \<open>drained\<close> is the queue as
  the waiting thread finds it afterwards.
\<close>

definition vdev_stop ::
  "(device_work vdev_wq \<Rightarrow> device_work vdev_wq) \<Rightarrow> vdev_state \<Rightarrow> world \<Rightarrow> rc \<times> vdev_state \<times> world" where
  "vdev_stop drained st w =
     (if \<not> vs_running st then (- EINVAL, st, w)
      else
        (let st1 = st\<lparr>vs_running := False\<rparr>;
             wq = (if vs_coldplug_only st1 \<and> wq_running (vs_wq st1) then drained (vs_wq st1) else vs_wq st1)
         in case vdev_wq_stop wq of (rc, wq1) \<Rightarrow>
              if rc \<noteq> 0 then (rc, st1\<lparr>vs_wq := wq1\<rparr>, w)
              else (case vdev_action_daemonlet_stop_all (vs_acts st1) w of (acts, w1) \<Rightarrow>
                      (0, st1\<lparr>vs_wq := wq1, vs_acts := acts\<rparr>, w1))))"

definition vdev_shutdown :: "bool \<Rightarrow> vdev_state \<Rightarrow> world \<Rightarrow> (rc \<times> vdev_state \<times> world) option" where
  "vdev_shutdown unlink_pidfile st w =
     (if vs_running st then Some (- EINVAL, st, w)
      else
        (let st1 = vdev_error_thread_stop st
         in case vs_config st1 of
              None \<Rightarrow> None
            | Some config \<Rightarrow>
                (let w1 = (case conf_pidfile_path config of
                             Some p \<Rightarrow> if unlink_pidfile then snd (sys_unlink p w) else w
                           | None \<Rightarrow> w)
                 in Some (0, st1\<lparr>vs_acts := [], vs_os := None, vs_config := None, vs_wq := snd (vdev_wq_free (vs_wq st1)),
                               vs_mountpoint := None\<rparr>, w1))))"

section \<open>vdev.c: devices that are no longer plugged in\<close>

definition vdev_device_read_vdevd_instance :: "cstr \<Rightarrow> cstr \<Rightarrow> world \<Rightarrow> rc + cstr" where
  "vdev_device_read_vdevd_instance mountpoint dev_fullpath w =
     (let devpath = drop (length mountpoint) dev_fullpath;
          instance_attr_relpath = vdev_fullpath (VDEV_METADATA_PREFIX @ ''/dev'') devpath;
          instance_attr_path = vdev_fullpath mountpoint instance_attr_relpath;
          instance_path = vdev_fullpath instance_attr_path VDEV_METADATA_PARAM_INSTANCE
      in case vdev_read_file (Some instance_path) (2 * VDEV_CONFIG_INSTANCE_NONCE_LEN) w of
           Inl rc \<Rightarrow> Inl rc
         | Inr buf \<Rightarrow> Inr (cstr_of buf))"

definition unplug_request :: "cstr \<Rightarrow> mode_t \<Rightarrow> dev_t \<Rightarrow> vdev_device_request" where
  "unplug_request device_path mode dev =
     vdev_device_request_set_mode (vdev_device_request_set_dev (vdev_device_request_init VDEV_DEVICE_REMOVE (Some device_path)) dev)
       (if S_ISBLK mode then S_IFBLK else S_IFCHR)"

text \<open>
  The callback; its state is the vector of directories, the actions and the world. The node's mode tells whether it is a
  device.
\<close>

definition vdev_remove_unplugged_device ::
  "regex_lib \<Rightarrow> vdev_base_state \<Rightarrow> cstr \<Rightarrow> (cstr option vector \<times> vdev_action list \<times> world) option \<Rightarrow>
   rc \<times> (cstr option vector \<times> vdev_action list \<times> world) option" where
  "vdev_remove_unplugged_device lib st path s =
     (case s of
        None \<Rightarrow> (0, None)
      | Some (device_paths, acts, w) \<Rightarrow>
          if path = [] then (0, s)
          else if vdev_basename path \<in> {''.'', ''..''} then (0, s)
          else
            (case sys_stat path w of
               Inl _ \<Rightarrow> (0, s)
             | Inr FDir \<Rightarrow>
                 if vdev_basename path = ''metadata'' then (0, s)
                 else (case vector_push_back True (Some path) device_paths of
                         None \<Rightarrow> (0, None)
                       | Some (_, v) \<Rightarrow> (0, Some (v, acts, w)))
             | Inr (FReg _) \<Rightarrow> (0, s)
             | Inr (FDev mode dev) \<Rightarrow>
                 if \<not> (S_ISBLK mode \<or> S_ISCHR mode) then (0, s)
                 else
                   (case conf_mountpoint (st_config st) of
                      None \<Rightarrow> (0, None)
                    | Some mp \<Rightarrow>
                        (case vdev_device_read_vdevd_instance mp path w of
                           Inl _ \<Rightarrow> (0, s)
                         | Inr instance_str \<Rightarrow>
                             if conf_instance_str (st_config st) = instance_str then (0, s)
                             else
                               (case vdev_device_remove lib st acts (unplug_request (drop (length mp) path) mode dev) w of
                                  None \<Rightarrow> (0, None)
                                | Some (_, acts', w') \<Rightarrow> (0, Some (device_paths, acts', w')))))))"

text \<open>
  The walk, breadth first: \<open>i\<close> is the index of the next directory. What a command run for a removed device does to the
  file system is not limited, so neither is the number of turns; the result \<open>None\<close> stands for not returning, or a crash.
\<close>

partial_function (option) unplugged_loop ::
  "regex_lib \<Rightarrow> vdev_base_state \<Rightarrow> nat \<Rightarrow> cstr option vector \<Rightarrow> vdev_action list \<Rightarrow> world \<Rightarrow> (rc \<times> vdev_action list \<times> world) option" where
  "unplugged_loop lib st i device_paths acts w =
     (if \<not> i < vector_size device_paths then Some (0, acts, w)
      else
        Option.bind (vector_at i device_paths) (\<lambda>next_dir.
        Option.bind (vector_set None i device_paths) (\<lambda>(_, v1).
          (case vdev_load_all next_dir (vdev_remove_unplugged_device lib st) w (Some (v1, acts, w)) of
             (_, None) \<Rightarrow> None
           | (rc, Some (v2, acts', w')) \<Rightarrow>
               if rc \<noteq> 0 then Some (rc, acts', w') else unplugged_loop lib st (Suc i) v2 acts' w'))))"

definition vdev_remove_unplugged_devices ::
  "regex_lib \<Rightarrow> vdev_base_state \<Rightarrow> vdev_action list \<Rightarrow> world \<Rightarrow> (rc \<times> vdev_action list \<times> world) option" where
  "vdev_remove_unplugged_devices lib st acts w =
     (case conf_mountpoint (st_config st) of
        None \<Rightarrow> Some (- ENOMEM, acts, w)
      | Some devroot \<Rightarrow>
          (case vector_push_back True (Some devroot) vector_init of
             None \<Rightarrow> None
           | Some (rc, device_paths) \<Rightarrow>
               if rc \<noteq> 0 then Some (rc, acts, w) else unplugged_loop lib st 0 device_paths acts w))"

section \<open>main.c\<close>

text \<open>What \<open>main\<close> meets besides: logging, the pipe, \<open>fork\<close> (negative, 0 in the child, positive in the parent), the
  pidfile, and what the parent reads from the pipe.\<close>

record main_env = daemon_env +
  me_log_redirect :: rc
  me_pipe :: rc
  me_daemonize :: int
  me_pidfile_write :: rc
  me_events :: "nl_event list"
  me_drained :: "device_work vdev_wq \<Rightarrow> device_work vdev_wq"
  me_parent_read :: "int \<times> int"

datatype main_result =
    MainExit int world     \<comment> \<open>the process ends with this code\<close>
  | MainServing vdev_state world   \<comment> \<open>the main loop waits for events\<close>
  | MainCrash

definition main_fail :: "int \<Rightarrow> vdev_state \<Rightarrow> world \<Rightarrow> main_result" where
  "main_fail code st w = (case vdev_shutdown False st w of None \<Rightarrow> MainCrash | Some (_, _, w') \<Rightarrow> MainExit code w')"

text \<open>After daemonizing: the child's and the foreground process's work.\<close>

definition main_serve :: "main_env \<Rightarrow> bool \<Rightarrow> int \<Rightarrow> vdev_state \<Rightarrow> world \<Rightarrow> main_result" where
  "main_serve env is_child fd st w =
     (case vdev_start (daemon_env.truncate env) w st of
        None \<Rightarrow> MainCrash
      | Some (rc, st1) \<Rightarrow>
          if rc \<noteq> 0 then
            (case vdev_stop (me_drained env) st1 w of (_, st2, w2) \<Rightarrow>
               (case vdev_shutdown False st2 w2 of
                  None \<Rightarrow> MainCrash
                | Some (_, st3, w3) \<Rightarrow>
                    if is_child \<and> vs_config st3 = None then MainCrash else MainExit 5 w3))
          else
            (case vdev_main (daemon_env.truncate env) (me_events env) fd st1 w of
               None \<Rightarrow> MainCrash
             | Some (None, st2, w2) \<Rightarrow> MainServing st2 w2
             | Some (Some rc, st2, w2) \<Rightarrow>
                 (case (vs_config st2, state_base st2) of
                    (Some config, Some base) \<Rightarrow>
                      (case (if conf_coldplug_only config then vdev_remove_unplugged_devices (de_lib env) base (vs_acts st2) w2
                             else Some (rc, vs_acts st2, w2)) of
                         None \<Rightarrow> MainCrash
                       | Some (rc', acts', w3) \<Rightarrow>
                           (case vdev_stop (me_drained env) (st2\<lparr>vs_acts := acts'\<rparr>) w3 of (_, st4, w4) \<Rightarrow>
                              (case vdev_shutdown (\<not> conf_coldplug_only config) st4 w4 of
                                 None \<Rightarrow> MainCrash
                               | Some (_, _, w5) \<Rightarrow> MainExit rc' w5)))
                  | _ \<Rightarrow> MainCrash)))"

definition main_parent :: "main_env \<Rightarrow> vdev_state \<Rightarrow> world \<Rightarrow> main_result" where
  "main_parent env st w =
     (case me_parent_read env of (nr, rc) \<Rightarrow>
        if nr < 0 \<or> rc \<noteq> 0 then MainExit 6 w else main_fail 0 st w)"

definition main_daemonize :: "main_env \<Rightarrow> vdev_config \<Rightarrow> vdev_state \<Rightarrow> world \<Rightarrow> main_result" where
  "main_daemonize env config st w =
     (case conf_logfile_path config of
        None \<Rightarrow> main_fail 2 st w
      | Some logfile \<Rightarrow>
          if logfile \<noteq> ''syslog'' \<and> me_log_redirect env \<noteq> 0 then main_fail 2 st w
          else if conf_coldplug_only config then main_serve env False (- 1) st w
          else if me_pipe env \<noteq> 0 then main_fail 3 st w
          else if me_daemonize env < 0 then main_fail 3 st w
          else if me_daemonize env = 0 then
            (if conf_pidfile_path config \<noteq> None \<and> me_pidfile_write env \<noteq> 0 then main_fail 4 st w
             else main_serve env True 4 st w)
          else main_parent env st w)"

definition vdevd_main :: "main_env \<Rightarrow> world \<Rightarrow> main_result" where
  "vdevd_main env w =
     (case vdev_init (daemon_env.truncate env) w zero_state of
        None \<Rightarrow> MainCrash
      | Some (rc, st) \<Rightarrow>
          if rc \<noteq> 0 then main_fail 1 st w
          else
            (case (vs_config st, state_base st) of
               (Some config, Some base) \<Rightarrow>
                 (case vdev_preseed_run (1024 * 1024) base (vs_wq st) w of
                    None \<Rightarrow> MainCrash
                  | Some (rc, wq1, w1) \<Rightarrow>
                      (let st1 = st\<lparr>vs_wq := wq1\<rparr>
                       in if rc \<noteq> 0 then main_fail 1 st1 w1
                          else if \<not> conf_foreground config then main_daemonize env config st1 w1
                          else main_serve env False (- 1) st1 w1))
             | _ \<Rightarrow> MainCrash))"

section \<open>Reload\<close>

text \<open>A call that fails sets \<open>errno\<close> to a value other than 0.\<close>

definition env_errno :: "'z daemon_env_scheme \<Rightarrow> bool" where
  "env_errno env \<longleftrightarrow> (\<forall>p. lx_realpath (de_linux env) p \<noteq> Inl 0) \<and> lx_mounts (de_linux env) \<noteq> Inl 0 \<and> (\<forall>p. de_fifo env p \<noteq> Inl 0)"

lemma config_opt_default:
  "config_opt o' a (default_config_path c) f = (case config_opt o' a c f of (rc, c', f') \<Rightarrow> (rc, default_config_path c', f'))"
  by (cases c; cases "strtoll 10 a") (simp add: config_opt_def default_config_path_def set_if_null_def [of _ "Some _"])

lemma config_opts_default:
  "config_opts opts (default_config_path c) f = (case config_opts opts c f of (rc, c', f', r) \<Rightarrow> (rc, default_config_path c', f', r))"
  by (induction opts c f rule: config_opts.induct) (auto simp: config_opt_default split: prod.splits)

lemma default_mountpoint: "default_config_path (c\<lparr>conf_mountpoint := m\<rparr>) = (default_config_path c)\<lparr>conf_mountpoint := m\<rparr>"
  by (cases c) (simp add: default_config_path_def)

lemma load_config_args_default:
  "load_config_args env opts (default_config_path c) = (case load_config_args env opts c of (rc, c', r) \<Rightarrow> (rc, default_config_path c', r))"
  by (cases "config_opts opts c None")
    (simp add: load_config_args_def vdev_config_load_from_args_def config_opts_default default_mountpoint
      split: option.splits sum.splits prod.splits)

lemma config_opt_os:
  assumes "config_opt o' a c f = (rc, c', f')"
  shows "conf_os_config c' = conf_os_config c" "conf_OS_quirks c' = conf_OS_quirks c" "f = None \<Longrightarrow> f' = None"
  using assms by (auto simp: config_opt_def fuse_push_def split: prod.splits if_splits)

lemma config_opts_os:
  "config_opts opts c f = (rc, c', f', r) \<Longrightarrow>
   conf_os_config c' = conf_os_config c \<and> conf_OS_quirks c' = conf_OS_quirks c \<and> (f = None \<longrightarrow> f' = None) \<and> (rc = 0 \<longrightarrow> r = [])"
proof (induction opts c f rule: config_opts.induct)
  case (2 o' a opts c f)
  obtain rc1 c1 f1 where o: "config_opt o' a c f = (rc1, c1, f1)" by (cases "config_opt o' a c f")
  with 2 config_opt_os [OF o] show ?case by (cases "rc1 = 0") auto
qed simp

lemma load_config_args_ok:
  assumes "load_config_args env opts c = (0, c', r)" "env_errno env"
  shows "conf_mountpoint c' \<noteq> None" "conf_os_config c' = conf_os_config c" "conf_OS_quirks c' = conf_OS_quirks c" "r = []"
proof -
  obtain rc c1 f1 r1 where o: "config_opts opts c None = (rc, c1, f1, r1)" by (cases "config_opts opts c None")
  show "conf_mountpoint c' \<noteq> None" "conf_os_config c' = conf_os_config c" "conf_OS_quirks c' = conf_OS_quirks c" "r = []"
    using assms o config_opts_os [OF o]
    by (auto simp: env_errno_def load_config_args_def vdev_config_load_from_args_def split: prod.splits if_splits option.splits sum.splits)
qed

lemma init_consumes_options:
  assumes "vdev_init env w st = Some (0, st')" "env_errno env"
  shows "vs_getopt st' = Some []"
proof -
  obtain rc c r where a: "load_config_args env (pending_opts env st) vdev_config_init = (rc, c, r)"
    by (cases "load_config_args env (pending_opts env st) vdev_config_init")
  with assms have "rc = 0" "vs_getopt st' = Some r"
    by (auto simp: vdev_init_def Let_def split: if_splits prod.splits option.splits sum.splits)
  with load_config_args_ok(4) [of env _ _ c r] a assms(2) show ?thesis by blast
qed

lemma config_load_keeps:
  assumes "vdev_config_load getcwd rand f c = (0, c')" "vdev_params_invar (conf_os_config c)" "conf_mountpoint c \<noteq> None"
  shows "conf_mountpoint c' = conf_mountpoint c"
    "conf_config_path c = Some p \<Longrightarrow> absolute_path p \<Longrightarrow> conf_config_path c' = Some p"
proof (atomize (full), cases f)
  case (Inr src)
  then obtain c1 c2 where 1: "ini_parse_file vdev_config_ini_parser c src = (0, c1)" "vdev_config_fullpaths getcwd c1 = (0, c2)"
    "c' = vdev_config_make_instance_nonce rand c2"
    using assms(1) by (auto simp: vdev_config_load_def vdev_config_load_file_def split: sum.splits prod.splits if_splits)
  have "config_keeps c c1" using config_load_file_keeps [OF assms(2) 1(1)] .
  then have "conf_mountpoint c1 = conf_mountpoint c" "conf_config_path c = Some p \<Longrightarrow> conf_config_path c1 = Some p"
    using assms(3) by (simp_all add: config_keeps_def conf_path_fields_def)
  with 1(2,3) show "conf_mountpoint c' = conf_mountpoint c \<and>
      (conf_config_path c = Some p \<longrightarrow> absolute_path p \<longrightarrow> conf_config_path c' = Some p)"
    by (auto simp: vdev_config_fullpaths_def vdev_config_make_instance_nonce_def conf_fullpath_def split: option.splits)
qed (use assms in \<open>simp add: vdev_config_load_def\<close>)

text \<open>
  C27: What a reload loads. In a daemon that has been started, \<open>getopt\<close> has delivered all options (\<open>init_consumes_options\<close>), so the
  second parse finds none: if a call that fails sets \<open>errno\<close>, the reload loads what a fresh start with the same arguments, but without any options, would. If that
  start would succeed, the reload succeeds, installs that configuration and those actions, and changes nothing else; if it would
  fail, the reload returns the same error and changes nothing at all.
\<close>

theorem reload_like_restart:
  assumes "env_errno env" "vs_getopt st = Some []"
  shows "vdev_reload env w st =
     (case vdev_init (env\<lparr>de_opts := []\<rparr>) w zero_state of
        None \<Rightarrow> None
      | Some (rc, st0) \<Rightarrow>
          if rc = 0 then Some (0, st\<lparr>vs_config := vs_config st0, vs_acts := vs_acts st0\<rparr>) else Some (rc, st))"
proof -
  let ?env = "env\<lparr>de_opts := []\<rparr>"
  obtain rc c1 r where a: "load_config_args env [] vdev_config_init = (rc, c1, r)" by (cases "load_config_args env [] vdev_config_init")
  have "r = []" using a by (auto simp: load_config_args_def vdev_config_load_from_args_def split: prod.splits option.splits sum.splits)
  with a have r: "load_config_args env [] (default_config_path vdev_config_init) = (rc, default_config_path c1, [])"
    by (simp add: load_config_args_default)
  have a': "load_config_args ?env (pending_opts ?env zero_state) vdev_config_init = (rc, c1, [])"
    using a \<open>r = []\<close> by (simp add: load_config_args_def pending_opts_def zero_state_def)
  have f': "load_config_file ?env = load_config_file env" by (auto simp: load_config_file_def fun_eq_iff split: option.splits)
  have st: "st\<lparr>vs_getopt := Some []\<rparr> = st" "pending_opts env st = []" using assms(2) by (cases st; simp add: pending_opts_def)+
  show ?thesis
  proof (cases "rc = 0")
    case True
    obtain rc2 c2 where f: "load_config_file env w (default_config_path c1) = (rc2, c2)"
      by (cases "load_config_file env w (default_config_path c1)")
    have err: "rc3 \<noteq> 0" if "vdev_action_load_all (de_lib env) c2 w = Some (Inl rc3)" for rc3
      using that by (auto simp: vdev_action_load_all_def split: prod.splits option.splits if_splits)
    have "conf_mountpoint c2 \<noteq> None" if "rc2 = 0"
      using f that load_config_args_ok [OF a [unfolded True] assms(1)] config_load_keeps [of "de_getcwd env" "de_rand env" _ "default_config_path c1" c2]
      by (auto simp: load_config_file_def default_config_path_def vdev_config_init_def params.invar_empty split: option.splits)
    then show ?thesis using a' r f True err
      by (cases "rc2 = 0"; cases "vdev_action_load_all (de_lib env) c2 w")
        (auto simp: vdev_reload_def vdev_init_def zero_state_def Let_def f' st split: sum.splits)
  next
    case False
    with a' r show ?thesis by (simp add: vdev_reload_def vdev_init_def Let_def st)
  qed
qed

section \<open>Start\<close>

lemma os_context_init_ok:
  "vdev_os_context_init os w mp once config = Some (0, config', ctx) \<Longrightarrow> lx_mounts os \<noteq> Inl 0 \<Longrightarrow> ctx \<noteq> None"
  by (auto simp: vdev_linux_find_sysfs_mountpoint_def vdev_os_context_init_def vdev_os_init_def vdev_linux_context_init_def Let_def split: if_splits option.splits sum.splits prod.splits)

text \<open>
  C28: What a start leaves running, if nothing runs before and a call that fails, other than \<open>pthread_create\<close>, sets \<open>errno\<close>. The error thread runs and the back end is set up exactly if \<open>vdev_start\<close> returns 0, so that a
  failure at any of its steps leaves nothing running; the worker runs exactly if, besides, \<open>pthread_create\<close> could make
  it. A worker that could not be made is an error if \<open>errno\<close> happens not to be 0; otherwise the start reports success
  and goes on with no worker.
\<close>

theorem start_threads:
  assumes "env_errno env" "\<not> wq_running (vs_wq st)" "\<not> vs_error_running st" "vdev_start env w st = Some (rc, st')"
  shows "vs_error_running st' = (rc = 0) \<and> (vs_os st' \<noteq> None) = (rc = 0) \<and>
    wq_running (vs_wq st') = (rc = 0 \<and> fst (de_worker env) = 0) \<and>
    (fst (de_worker env) \<noteq> 0 \<and> snd (de_worker env) \<noteq> 0 \<longrightarrow> rc \<noteq> 0)"
proof -
  obtain rc1 st1 where e: "vdev_error_thread_start env (st\<lparr>vs_running := True\<rparr>) = Some (rc1, st1)"
    using assms(4) by (auto simp: vdev_start_def split: option.splits)
  have st1: "vs_wq st1 = vs_wq st" "vs_error_running st1 = (rc1 = 0)"
    using e assms(1,3) by (auto simp: vdev_error_thread_start_def vdev_error_fifo_get_or_create_def env_errno_def
        split: option.splits sum.splits if_splits prod.splits)
  have stopped: "\<not> vs_error_running (vdev_error_thread_stop s)" "vs_wq (vdev_error_thread_stop s) = vs_wq s" for s
    by (simp_all add: vdev_error_thread_stop_def)
  have wq: "wq_running (snd (vdev_wq_start err errno (vs_wq st))) = (err = 0)"
    "fst (vdev_wq_start err errno (vs_wq st)) = (if err = 0 then 0 else - errno)" for err errno
    using assms(2) by (simp_all add: vdev_wq_start_def)
  have "\<not> wq_running (snd (vdev_wq_stop q))" for q :: "device_work vdev_wq" by (simp add: vdev_wq_stop_def)
  moreover have "lx_mounts (de_linux env) \<noteq> Inl 0" using assms(1) by (simp add: env_errno_def)
  ultimately show ?thesis using assms(2,4) e st1 stopped wq [of "fst (de_worker env)" "snd (de_worker env)"] os_context_init_ok
    by (auto simp: vdev_start_def Let_def split: if_splits prod.splits option.splits)
qed

section \<open>Devices that are no longer plugged in\<close>

lemma read_file_content:
  assumes "\<And>op p. w_fault w op p = 0" "p \<noteq> []" "dirs_upto (w_fs w) (butlast (resolve p))"
    and "fs_get (w_fs w) (resolve p) = Some (FReg d)" "0 < len" "len \<le> 2 ^ 31"
  shows "vdev_read_file (Some p) len w = Inr (take len d @ calloc (len - length d))"
proof -
  have "lookup_errno (w_fs w) (resolve p) = 0"
    using dirs_upto_parent_errno [OF assms(3)] assms(4) by (simp add: lookup_errno_def)
  then have o: "sys_open_read p w = Inr d" using assms by (simp add: sys_open_read_def sys_pre_def)
  have "\<exists>evs. read_loop [IoData d, IoData []] len [] = Some (Inr (take len d), evs)"
  proof (cases "length d < len")
    case True
    then have "length d mod 2 ^ 32 < len" using mod_less_eq_dividend le_less_trans by blast
    with True assms(5) show ?thesis by auto
  next
    case False
    then show ?thesis using assms(5,6) by (cases "length d = len") auto
  qed
  moreover have "len - min (length d) len = len - length d" by simp
  ultimately show ?thesis using o assms(1) by (auto simp: vdev_read_file_def vdev_read_uninterrupted_def simp del: read_loop.simps)
qed

lemma fullpath_node_name:
  assumes "mp \<noteq> []" "node_name name"
  shows "drop (length mp) (vdev_fullpath mp name) \<in> {name, SLASH # name}"
  using assms by (cases name) (auto simp: vdev_fullpath_def node_name_def)

lemma instance_file:
  assumes "mp \<noteq> []" "dot_free mp" "node_name name"
  defines "devpath \<equiv> drop (length mp) (vdev_fullpath mp name)"
  defines "p \<equiv> vdev_fullpath (vdev_fullpath mp (vdev_fullpath (VDEV_METADATA_PREFIX @ ''/dev'') devpath)) VDEV_METADATA_PARAM_INSTANCE"
  shows "resolve p = metadata_path mp name @ [VDEV_METADATA_PARAM_INSTANCE]" "p \<noteq> []"
proof -
  have dp: "path_components devpath = path_components name"
    using fullpath_node_name [OF assms(1,3)] unfolding devpath_def by auto
  have md: "path_components ''metadata/'' = [''metadata'']" "path_components ''/dev'' = [''dev'']"
    using components_snoc_slash [of "''metadata''"] components_name [of "''metadata''"]
      components_Cons_slash [of "''dev''"] components_name [of "''dev''"] by simp_all
  have pre: "path_components (VDEV_METADATA_PREFIX @ ''/dev'') = [''metadata'', ''dev'']"
    using components_slash [of "''metadata/''" "''dev''"] components_name [of "''dev''"] md by (simp add: VDEV_METADATA_PREFIX_def)
  have inst: "path_components VDEV_METADATA_PARAM_INSTANCE = [VDEV_METADATA_PARAM_INSTANCE]"
    by (simp add: components_name VDEV_METADATA_PARAM_INSTANCE_def)
  have pc: "path_components p = metadata_path mp name @ [VDEV_METADATA_PARAM_INSTANCE]"
    unfolding p_def by (simp add: fullpath_components pre dp inst metadata_path_def)
  then have "dot_free p" using assms(2,3)
    by (auto simp: dot_free_def node_name_def metadata_path_def VDEV_METADATA_PARAM_INSTANCE_def)
  then show "resolve p = metadata_path mp name @ [VDEV_METADATA_PARAM_INSTANCE]" using pc by (simp add: resolve_dot_free)
  then show "p \<noteq> []" by (auto simp: resolve_def)
qed

lemma read_instance:
  assumes "\<And>op p. w_fault w op p = 0" "mp \<noteq> []" "dot_free mp" "node_name name" "dirs_upto (w_fs w) (metadata_path mp name)"
    and "fs_get (w_fs w) (metadata_path mp name @ [VDEV_METADATA_PARAM_INSTANCE]) = Some (FReg (inst @ [NL]))"
    and "length inst = 64" "NUL \<notin> set inst"
  shows "vdev_device_read_vdevd_instance mp (vdev_fullpath mp name) w = Inr inst"
proof -
  note p = instance_file [OF assms(2,3,4)]
  have "cstr_of inst = inst" using assms(8) by (auto simp: cstr_of_def takeWhile_eq_all_conv)
  then show ?thesis
    using read_file_content [OF assms(1) p(2), unfolded p(1), OF _ assms(6), of 64] assms(5,7)
    by (simp add: vdev_device_read_vdevd_instance_def Let_def)
qed

lemma basename_node_name:
  assumes "mp \<noteq> []" "dot_free mp" "node_name name"
  shows "vdev_basename (vdev_fullpath mp name) \<noteq> ''.''" "vdev_basename (vdev_fullpath mp name) \<noteq> ''..''"
proof -
  let ?p = "vdev_fullpath mp name"
  obtain mp' c where mp: "mp = mp' @ [c]" using assms(1) by (cases mp rule: rev_cases) auto
  obtain a as where n: "name = a # as" "a \<noteq> SLASH" using assms(3) by (cases name) (auto simp: node_name_def)
  have "SLASH \<in> set ?p" "last ?p = last name" using n mp by (auto simp: vdev_fullpath_def)
  with dirname_basename_components [of ?p] assms(3) have "vdev_basename ?p \<in> set (path_components mp @ path_components name)"
    unfolding fullpath_components [symmetric] by (simp add: node_name_def)
  with assms(2,3) show "vdev_basename ?p \<noteq> ''.''" "vdev_basename ?p \<noteq> ''..''"
    unfolding dot_free_def node_name_def by (metis Un_iff set_append)+
qed

text \<open>
  C29: Exactly the devices of other instances count as unplugged. For a device node whose metadata names the
  instance that made it, the check leaves everything as it is if that is the running instance, and otherwise
  removes the device, with the numbers and the type of the node, by the ordinary removal handler.
\<close>

theorem unplugged_device_decision:
  assumes "\<And>op p. w_fault w op p = 0" "conf_mountpoint (st_config st) = Some mp" "mp \<noteq> []" "dot_free mp" "node_name name"
    and "fs_get (w_fs w) (node_path mp name) = Some (FDev mode dev)" "S_ISBLK mode \<or> S_ISCHR mode"
    and "dirs_upto (w_fs w) (butlast (node_path mp name))" "dirs_upto (w_fs w) (metadata_path mp name)"
    and "fs_get (w_fs w) (metadata_path mp name @ [VDEV_METADATA_PARAM_INSTANCE]) = Some (FReg (inst @ [NL]))"
    and "length inst = 64" "NUL \<notin> set inst"
  shows "vdev_remove_unplugged_device lib st (vdev_fullpath mp name) (Some (v, acts, w)) =
      (0, if inst = conf_instance_str (st_config st) then Some (v, acts, w)
          else map_option (\<lambda>(rc, acts', w'). (v, acts', w'))
                 (vdev_device_remove lib st acts (unplug_request (drop (length mp) (vdev_fullpath mp name)) mode dev) w)) \<and>
    drop (length mp) (vdev_fullpath mp name) \<in> {name, SLASH # name}"
proof -
  let ?p = "vdev_fullpath mp name"
  have r: "resolve ?p = node_path mp name" using node_resolve [OF assms(4,5)] .
  have ne: "?p \<noteq> []" using assms(3) by (simp add: vdev_fullpath_def)
  have "lookup_errno (w_fs w) (node_path mp name) = 0"
    using dirs_upto_parent_errno [OF assms(8)] assms(6) by (simp add: lookup_errno_def)
  then have "sys_stat ?p w = Inr (FDev mode dev)" using assms(1,6) ne by (simp add: sys_stat_def sys_pre_def r)
  moreover have "vdev_device_read_vdevd_instance mp ?p w = Inr inst"
    using read_instance [OF assms(1,3,4,5,9,10,11,12)] .
  ultimately show ?thesis
    using basename_node_name [OF assms(3,4,5)] ne assms(2,7) fullpath_node_name [OF assms(3,5)]
    by (auto simp: vdev_remove_unplugged_device_def split: option.splits)
qed


definition stale_instance :: cstr where
  "stale_instance = replicate 64 CHR ''0''"

definition stale_world :: world where
  "stale_world = calm_world\<lparr>w_fs := [([''dev''], FDir), ([''dev'', ''sda''], FDev 0x6000 (makedev 8 0)), ([''dev'', ''metadata''], FDir),
     ([''dev'', ''metadata'', ''dev''], FDir), ([''dev'', ''metadata'', ''dev'', ''sda''], FDir),
     ([''dev'', ''metadata'', ''dev'', ''sda'', ''vdev_instance''], FReg (stale_instance @ [NL]))]\<rparr>"

definition stale_state :: "cstr \<Rightarrow> vdev_base_state" where
  "stale_state inst = \<lparr>st_config = vdev_config_init\<lparr>conf_mountpoint := Some ''/dev'', conf_instance_str := inst\<rparr>, st_mountpoint = ''/dev'',
     st_levels = default_log_levels\<rparr>"

theorem unplugged_device_decision_witness:
  "vdev_remove_unplugged_device literal_regex_lib (stale_state stale_instance) (vdev_fullpath ''/dev'' ''sda'') (Some (vector_init, [], stale_world)) =
      (0, Some (vector_init, [], stale_world)) \<and>
   vdev_remove_unplugged_device literal_regex_lib (stale_state []) (vdev_fullpath ''/dev'' ''sda'') (Some (vector_init, [], stale_world)) =
      (0, map_option (\<lambda>(rc, acts', w'). (vector_init, acts', w'))
            (vdev_device_remove literal_regex_lib (stale_state []) [] (unplug_request ''/sda'' S_IFBLK (makedev 8 0)) stale_world))"
proof -
  have w: "w_fault stale_world op p = 0" for op p by (simp add: stale_world_def calm_world_def)
  have paths: "path_components ''/dev'' = [''dev'']" "path_components ''sda'' = [''sda'']" "node_name ''sda''" "dot_free ''/dev''"
    using witness_paths by (simp_all add: node_name_def)
  have fs: "fs_get (w_fs stale_world) (node_path ''/dev'' ''sda'') = Some (FDev S_IFBLK (makedev 8 0))"
    "dirs_upto (w_fs stale_world) (butlast (node_path ''/dev'' ''sda''))" "dirs_upto (w_fs stale_world) (metadata_path ''/dev'' ''sda'')"
    "fs_get (w_fs stale_world) (metadata_path ''/dev'' ''sda'' @ [VDEV_METADATA_PARAM_INSTANCE]) = Some (FReg (stale_instance @ [NL]))"
  proof -
    have np: "node_path ''/dev'' ''sda'' = [''dev'', ''sda'']"
      and mp: "metadata_path ''/dev'' ''sda'' = [''dev'', ''metadata'', ''dev'', ''sda'']"
      unfolding node_path_def metadata_path_def paths by simp_all
    have closed: "fs_closed (w_fs stale_world)" by (simp add: fs_closed_def stale_world_def fs_get_def)
    show a: "fs_get (w_fs stale_world) (node_path ''/dev'' ''sda'') = Some (FDev S_IFBLK (makedev 8 0))"
      and b: "fs_get (w_fs stale_world) (metadata_path ''/dev'' ''sda'' @ [VDEV_METADATA_PARAM_INSTANCE]) = Some (FReg (stale_instance @ [NL]))"
      unfolding np mp by (simp_all add: stale_world_def fs_get_def VDEV_METADATA_PARAM_INSTANCE_def)
    show "dirs_upto (w_fs stale_world) (butlast (node_path ''/dev'' ''sda''))" "dirs_upto (w_fs stale_world) (metadata_path ''/dev'' ''sda'')"
      using fs_closed_dirs [OF closed] a b by (metis option.distinct(1), metis butlast_snoc option.distinct(1))
  qed
  have i: "length stale_instance = 64" "NUL \<notin> set stale_instance" by (simp_all add: stale_instance_def)
  have st: "conf_mountpoint (st_config (stale_state x)) = Some ''/dev''" "conf_instance_str (st_config (stale_state x)) = x" for x
    by (simp_all add: stale_state_def)
  have blk: "S_ISBLK S_IFBLK \<or> S_ISCHR S_IFBLK" by (simp add: S_ISBLK_def)
  have ne: "stale_instance \<noteq> []" "''/dev'' \<noteq> []" by (simp_all add: stale_instance_def)
  have d: "drop (length ''/dev'') (vdev_fullpath ''/dev'' ''sda'') = ''/sda''" by (simp add: vdev_fullpath_def)
  note th = unplugged_device_decision [OF w st(1) ne(2) paths(4,3) fs(1) blk fs(2,3,4) i, of literal_regex_lib _ vector_init "[]", unfolded d st(2)]
  show ?thesis using th [of stale_instance] th [of "[]"] ne(1) by simp
qed

section \<open>Witnesses\<close>

definition calm_env :: daemon_env where
  "calm_env = \<lparr>de_opts = [], de_args = [''/dev''], de_argv0 = ''vdevd'', de_getcwd = Some ''/'', de_rand = (\<lambda>_. 0), de_lib = literal_regex_lib,
     de_linux = calm_linux, de_fifo = (\<lambda>_. Inr 3), de_thread = 0, de_worker = (0, 0)\<rparr>"

definition daemon_world :: world where
  "daemon_world = calm_world\<lparr>w_fs := [([''dev''], FDir), ([''sys''], FDir), ([''sys'', ''devices''], FDir), ([''acts''], FDir), ([''etc''], FDir),
     ([''etc'', ''vdev''], FDir), ([''etc'', ''vdev'', ''vdevd.conf''], FReg (''[vdev-config]'' @ [NL] @ ''actions=/acts'' @ [NL]))]\<rparr>"

lemma daemon_world_init: "map_option fst (vdev_init calm_env daemon_world zero_state) = Some 0"
  by code_simp

lemma calm_env_errno: "env_errno calm_env"
  by (simp add: env_errno_def calm_env_def calm_linux_def)

text \<open>A daemon started with an option, in a system that also has the default file.\<close>

definition option_env :: daemon_env where
  "option_env = calm_env\<lparr>de_opts := [(CHR ''c'', ''/etc/my.conf'')]\<rparr>"

definition option_world :: world where
  "option_world = daemon_world\<lparr>w_fs := w_fs daemon_world @ [([''etc'', ''my.conf''], FReg (''[vdev-config]'' @ [NL] @ ''actions=/acts'' @ [NL]))]\<rparr>"

definition loaded_config_path :: "(rc \<times> vdev_state) option \<Rightarrow> (rc \<times> cstr option) option" where
  "loaded_config_path r = map_option (\<lambda>(rc, st). (rc, Option.bind (vs_config st) conf_config_path)) r"

lemma option_world_init:
  "loaded_config_path (vdev_init option_env option_world zero_state) = Some (0, Some ''/etc/my.conf'')"
  "loaded_config_path (vdev_init calm_env option_world zero_state) = Some (0, Some VDEV_CONFIG_FILE)"
  by code_simp+

theorem reload_like_restart_witness:
  "\<exists>st st0. vdev_init option_env option_world zero_state = Some (0, st) \<and>
     vdev_init (option_env\<lparr>de_opts := []\<rparr>) option_world zero_state = Some (0, st0) \<and>
     vdev_reload option_env option_world st = Some (0, st\<lparr>vs_config := vs_config st0, vs_acts := vs_acts st0\<rparr>) \<and>
     Option.bind (vs_config st) conf_config_path = Some ''/etc/my.conf'' \<and>
     Option.bind (vs_config st0) conf_config_path = Some VDEV_CONFIG_FILE"
proof -
  have env: "env_errno option_env" using calm_env_errno by (simp add: env_errno_def option_env_def)
  have calm: "option_env\<lparr>de_opts := []\<rparr> = calm_env" by (simp add: option_env_def calm_env_def)
  obtain st st0 where s: "vdev_init option_env option_world zero_state = Some (0, st)"
    "vdev_init calm_env option_world zero_state = Some (0, st0)" "Option.bind (vs_config st) conf_config_path = Some ''/etc/my.conf''"
    "Option.bind (vs_config st0) conf_config_path = Some VDEV_CONFIG_FILE"
    using option_world_init by (auto simp: loaded_config_path_def)
  have "vdev_reload option_env option_world st = Some (0, st\<lparr>vs_config := vs_config st0, vs_acts := vs_acts st0\<rparr>)"
    using reload_like_restart [OF env init_consumes_options [OF s(1) env], of option_world] s(2) by (simp add: calm)
  with s show ?thesis unfolding calm by blast
qed

definition ready_state :: vdev_state where
  "ready_state = zero_state\<lparr>vs_config := Some (vdev_config_init\<lparr>conf_mountpoint := Some ''/dev''\<rparr>), vs_mountpoint := Some ''/dev''\<rparr>"

lemma ready_state_start: "map_option fst (vdev_start calm_env daemon_world ready_state) = Some 0"
  "map_option fst (vdev_start calm_env calm_world ready_state) = Some (- ENOENT)"
  by code_simp+

text \<open>A worker that cannot be made, with \<open>errno\<close> left at 0 and at another value.\<close>

definition no_worker_env :: "rc \<Rightarrow> daemon_env" where
  "no_worker_env errno = calm_env\<lparr>de_worker := (EAGAIN, errno)\<rparr>"

lemma no_worker_start: "map_option fst (vdev_start (no_worker_env 0) daemon_world ready_state) = Some 0"
  "map_option fst (vdev_start (no_worker_env ENOENT) daemon_world ready_state) = Some (- ENOENT)"
  by code_simp+

theorem start_threads_witness:
  "(\<exists>st. vdev_start calm_env daemon_world ready_state = Some (0, st) \<and> wq_running (vs_wq st) \<and> vs_error_running st \<and> vs_os st \<noteq> None) \<and>
   (\<exists>st. vdev_start calm_env calm_world ready_state = Some (- ENOENT, st) \<and> \<not> wq_running (vs_wq st) \<and> \<not> vs_error_running st \<and> vs_os st = None) \<and>
   (\<exists>st. vdev_start (no_worker_env 0) daemon_world ready_state = Some (0, st) \<and> \<not> wq_running (vs_wq st)) \<and>
   (\<exists>st. vdev_start (no_worker_env ENOENT) daemon_world ready_state = Some (- ENOENT, st) \<and> \<not> vs_error_running st)"
proof -
  have r: "\<not> wq_running (vs_wq ready_state)" "\<not> vs_error_running ready_state"
    by (simp_all add: ready_state_def zero_state_def vdev_wq_init_def)
  have env: "env_errno (no_worker_env e)" "de_worker (no_worker_env e) = (EAGAIN, e)" "de_worker calm_env = (0, 0)" for e
    using calm_env_errno by (simp_all add: env_errno_def no_worker_env_def calm_env_def)
  obtain st1 st2 st3 st4 where "vdev_start calm_env daemon_world ready_state = Some (0, st1)"
    "vdev_start calm_env calm_world ready_state = Some (- ENOENT, st2)"
    "vdev_start (no_worker_env 0) daemon_world ready_state = Some (0, st3)"
    "vdev_start (no_worker_env ENOENT) daemon_world ready_state = Some (- ENOENT, st4)" using ready_state_start no_worker_start by auto
  with start_threads [OF calm_env_errno r, of daemon_world 0 st1] start_threads [OF calm_env_errno r, of calm_world "- ENOENT" st2]
    start_threads [OF env(1) r, of 0 daemon_world 0 st3] start_threads [OF env(1) r, of ENOENT daemon_world "- ENOENT" st4] env(2,3)
  show ?thesis by auto
qed

section \<open>Where the daemon does not do what it says\<close>

text \<open>A reload forgets that devices exist already: the quirk is set only when the back end starts.\<close>

interpretation config_quirks: ini_handler vdev_config_ini_parser "\<lambda>c. conf_OS_quirks c = q" for q
  by unfold_locales (simp add: vdev_config_ini_parser_def config_log_level_def config_coldplug_def split: prod.splits)

lemma config_load_quirks:
  assumes "vdev_config_load getcwd rand f c = (0, c')"
  shows "conf_OS_quirks c' = conf_OS_quirks c"
proof (cases f)
  case (Inr src)
  then obtain c1 c2 where 1: "ini_parse_file vdev_config_ini_parser c src = (0, c1)" "vdev_config_fullpaths getcwd c1 = (0, c2)"
    "c' = vdev_config_make_instance_nonce rand c2"
    using assms(1) by (auto simp: vdev_config_load_def vdev_config_load_file_def split: sum.splits prod.splits if_splits)
  have "conf_OS_quirks c1 = conf_OS_quirks c"
    using config_quirks.parse_invar [of c "conf_OS_quirks c" "Some src"] 1(1) by (simp add: ini_parse_def)
  with 1(2,3) show ?thesis
    by (auto simp: vdev_config_fullpaths_def vdev_config_make_instance_nonce_def split: option.splits)
qed (use assms in \<open>simp add: vdev_config_load_def\<close>)

lemma reload_loses_quirks:
  assumes "vdev_reload env w st = Some (0, st')" "env_errno env"
  shows "\<exists>c. vs_config st' = Some c \<and> conf_OS_quirks c = 0"
proof -
  obtain c1 c2 r where c: "load_config_args env (pending_opts env st) (default_config_path vdev_config_init) = (0, c1, r)"
    "load_config_file env w c1 = (0, c2)" "vs_config st' = Some c2"
    using assms(1) by (auto simp: vdev_reload_def vdev_action_load_all_def Let_def split: prod.splits if_splits option.splits sum.splits)
  have "conf_OS_quirks c1 = 0"
    using load_config_args_ok(3) [OF c(1) assms(2)] by (simp add: default_config_path_def vdev_config_init_def)
  with c(2,3) config_load_quirks [of "de_getcwd env" "de_rand env" _ c1 c2] show ?thesis
    by (auto simp: load_config_file_def split: option.splits)
qed

text \<open>
  A reload also forgets the options: whatever file \<open>-c\<close> had named, it reads the default one, because \<open>optind\<close> still stands
  behind the options (\<^verbatim>\<open>config.c\<close>, line 548, called from \<^verbatim>\<open>vdev.c\<close>, line 1122).
\<close>

lemma reload_loses_options:
  assumes "vdev_init env w0 zero_state = Some (0, st)" "env_errno env" "vdev_reload env w st = Some (0, st')"
  shows "\<exists>c. vs_config st' = Some c \<and> conf_config_path c = Some VDEV_CONFIG_FILE"
proof -
  have o: "pending_opts env st = []" using init_consumes_options [OF assms(1,2)] by (simp add: pending_opts_def)
  obtain c1 c2 r where c: "load_config_args env [] (default_config_path vdev_config_init) = (0, c1, r)"
    "load_config_file env w c1 = (0, c2)" "vs_config st' = Some c2"
    using assms(3) by (auto simp: vdev_reload_def vdev_action_load_all_def o Let_def split: prod.splits if_splits option.splits sum.splits)
  have p: "conf_config_path c1 = Some VDEV_CONFIG_FILE"
    using c(1) by (auto simp: load_config_args_def vdev_config_load_from_args_def default_config_path_def vdev_config_init_def
        set_if_null_def split: option.splits sum.splits prod.splits)
  have "absolute_path VDEV_CONFIG_FILE" by (simp add: absolute_path_def VDEV_CONFIG_FILE_def)
  moreover have "vdev_params_invar (conf_os_config c1)" "conf_mountpoint c1 \<noteq> None"
    using load_config_args_ok [OF c(1) assms(2)] by (simp_all add: default_config_path_def vdev_config_init_def params.invar_empty)
  ultimately show ?thesis using c(2,3) p config_load_keeps(2) [of "de_getcwd env" "de_rand env" _ c1 c2]
    by (auto simp: load_config_file_def)
qed

text \<open>
  When the child of \<open>main\<close> fails to start, it reads the configuration after \<open>vdev_shutdown\<close> has set its pointer to \<open>NULL\<close>,
  so that the parent is never told.
\<close>

lemma main_start_failure_crashes:
  assumes "vdev_start (daemon_env.truncate env) w st = Some (rc, st1)" "rc \<noteq> 0"
  shows "main_serve env True fd st w = MainCrash"
proof -
  obtain r2 st2 w2 where s: "vdev_stop (me_drained env) st1 w = (r2, st2, w2)" by (cases "vdev_stop (me_drained env) st1 w")
  have "vs_running st2 = False" using s by (auto simp: vdev_stop_def Let_def split: if_splits prod.splits)
  then have "vdev_shutdown False st2 w2 = Some (r, st3, w3) \<Longrightarrow> vs_config st3 = None" for r st3 w3
    by (auto simp: vdev_shutdown_def Let_def split: option.splits)
  with assms s show ?thesis by (auto simp: main_serve_def split: option.splits)
qed

end
