(* ===== verification/Udev_List.thy ===== *)
theory Udev_List
  imports Vdev_Prelude "HOL-Library.Word"
begin

text \<open>
  \<^verbatim>\<open>libudev-compat/libudev-list.c\<close>: lists of names with values. The entries are on a doubly linked ring through the
  head of the list; a list that is \<open>unique\<close> also has an array of its entries, sorted by name, which is
  searched by bisection.

  An address is a natural number; \<open>HEAD\<close> is the address of the node in the list itself, and an entry has the
  address of its node. The array is the list of its \<open>entries_cur\<close> first elements. The result \<open>None\<close> of an operation
  is a \<open>NULL\<close> dereference or an access outside the array. The \<open>alloc\<close> flag says whether the allocations of a call
  succeed.
\<close>

section \<open>The ring\<close>

type_synonym addr = nat

abbreviation (input) HEAD :: addr where "HEAD \<equiv> 0"

record udev_list_node =
  nd_next :: "addr option"
  nd_prev :: "addr option"

type_synonym nodes = "addr \<rightharpoonup> udev_list_node"

definition set_next :: "addr \<Rightarrow> addr option \<Rightarrow> nodes \<Rightarrow> nodes option" where
  "set_next a x ns = map_option (\<lambda>n. ns(a \<mapsto> n\<lparr>nd_next := x\<rparr>)) (ns a)"

definition set_prev :: "addr \<Rightarrow> addr option \<Rightarrow> nodes \<Rightarrow> nodes option" where
  "set_prev a x ns = map_option (\<lambda>n. ns(a \<mapsto> n\<lparr>nd_prev := x\<rparr>)) (ns a)"

definition udev_list_node_init :: "addr \<Rightarrow> nodes \<Rightarrow> nodes" where
  "udev_list_node_init a ns = ns(a \<mapsto> \<lparr>nd_next = Some a, nd_prev = Some a\<rparr>)"

definition udev_list_node_is_empty :: "addr \<Rightarrow> nodes \<Rightarrow> bool option" where
  "udev_list_node_is_empty a ns = map_option (\<lambda>n. nd_next n = Some a) (ns a)"

definition udev_list_node_insert_between :: "addr \<Rightarrow> addr \<Rightarrow> addr \<Rightarrow> nodes \<Rightarrow> nodes option" where
  "udev_list_node_insert_between new prev nxt ns =
     do { ns1 \<leftarrow> set_prev nxt (Some new) ns;
          ns2 \<leftarrow> set_next new (Some nxt) ns1;
          ns3 \<leftarrow> set_prev new (Some prev) ns2;
          set_next prev (Some new) ns3 }"

definition udev_list_node_append :: "addr \<Rightarrow> addr \<Rightarrow> nodes \<Rightarrow> nodes option" where
  "udev_list_node_append new lst ns =
     do { n \<leftarrow> ns lst; prev \<leftarrow> nd_prev n; udev_list_node_insert_between new prev lst ns }"

definition udev_list_node_remove :: "addr \<Rightarrow> nodes \<Rightarrow> nodes option" where
  "udev_list_node_remove entry ns =
     do { n \<leftarrow> ns entry;
          prev \<leftarrow> nd_prev n;
          nxt \<leftarrow> nd_next n;
          ns1 \<leftarrow> set_prev nxt (Some prev) ns;
          ns2 \<leftarrow> set_next prev (Some nxt) ns1;
          ns3 \<leftarrow> set_prev entry None ns2;
          set_next entry None ns3 }"

section \<open>Lists and their entries\<close>

record udev_list_entry =
  en_name :: cstr
  en_value :: "cstr option"
  en_num :: int

record udev_list =
  ul_nodes :: nodes
  ul_ents :: "addr \<rightharpoonup> udev_list_entry"
  ul_entries :: "addr list option"
  ul_entries_max :: nat
  ul_unique :: bool
  ul_fresh :: addr

definition udev_list_init :: "bool \<Rightarrow> udev_list" where
  "udev_list_init unique =
     \<lparr>ul_nodes = udev_list_node_init HEAD Map.empty, ul_ents = Map.empty, ul_entries = None, ul_entries_max = 0,
      ul_unique = unique, ul_fresh = 1\<rparr>"

definition entries_of :: "udev_list \<Rightarrow> addr list" where
  "entries_of l = (case ul_entries l of None \<Rightarrow> [] | Some es \<Rightarrow> es)"

definition udev_list_entry_append :: "addr \<Rightarrow> udev_list \<Rightarrow> udev_list option" where
  "udev_list_entry_append new l =
     do { n \<leftarrow> ul_nodes l HEAD;
          prev \<leftarrow> nd_prev n;
          ns \<leftarrow> udev_list_node_insert_between new prev HEAD (ul_nodes l);
          Some (l\<lparr>ul_nodes := ns\<rparr>) }"

definition udev_list_entry_insert_before :: "addr \<Rightarrow> addr \<Rightarrow> udev_list \<Rightarrow> udev_list option" where
  "udev_list_entry_insert_before new entry l =
     do { n \<leftarrow> ul_nodes l entry;
          prev \<leftarrow> nd_prev n;
          ns \<leftarrow> udev_list_node_insert_between new prev entry (ul_nodes l);
          Some (l\<lparr>ul_nodes := ns\<rparr>) }"

text \<open>The bisection, on 32-bit indices: the index, or the negated insertion index less one.\<close>

partial_function (option) list_search_loop ::
  "(addr \<rightharpoonup> udev_list_entry) \<Rightarrow> addr list \<Rightarrow> cstr \<Rightarrow> 32 word \<Rightarrow> 32 word \<Rightarrow> int option" where
  "list_search_loop ents es name lo hi =
     (if lo < hi then
        (let i = (lo + hi) div 2
         in if unat i \<ge> length es then None
            else
              (case ents (es ! unat i) of
                 None \<Rightarrow> None
               | Some e \<Rightarrow>
                   if strcmp name (en_name e) < 0 then list_search_loop ents es name lo i
                   else if strcmp name (en_name e) > 0 then list_search_loop ents es name (i + 1) hi
                   else Some (sint i)))
      else Some (sint (- (lo + 1))))"

definition list_search :: "udev_list \<Rightarrow> cstr \<Rightarrow> int option" where
  "list_search l name =
     list_search_loop (ul_ents l) (entries_of l) name 0 (of_nat (length (entries_of l)))"

text \<open>A new entry, not yet linked.\<close>

definition new_entry :: "udev_list \<Rightarrow> cstr \<Rightarrow> cstr option \<Rightarrow> udev_list" where
  "new_entry l name val =
     l\<lparr>ul_nodes := (ul_nodes l)(ul_fresh l \<mapsto> \<lparr>nd_next = None, nd_prev = None\<rparr>),
       ul_ents := (ul_ents l)(ul_fresh l \<mapsto> \<lparr>en_name = name, en_value = val, en_num = 0\<rparr>), ul_fresh := Suc (ul_fresh l)\<rparr>"

text \<open>The array, enlarged if it is full.\<close>

definition grow_entries :: "udev_list \<Rightarrow> udev_list" where
  "grow_entries l =
     (let add = (if ul_entries_max l < 1 then 64 else ul_entries_max l)
      in if length (entries_of l) \<ge> ul_entries_max l then l\<lparr>ul_entries := Some (entries_of l), ul_entries_max := ul_entries_max l + add\<rparr>
         else l)"

text \<open>
  Adding a name. An entry with that name gets the new value if the list is unique; otherwise a new entry is
  linked in, before its successor in the array or at the end. The result is the entry, or \<open>NULL\<close> if there is no memory.
\<close>

definition udev_list_entry_add :: "bool \<Rightarrow> udev_list \<Rightarrow> cstr \<Rightarrow> cstr option \<Rightarrow> (addr option \<times> udev_list) option" where
  "udev_list_entry_add alloc l name val =
     do { i \<leftarrow> (if ul_unique l then list_search l name else Some (- 1));
          if i \<ge> 0 then
            do { e \<leftarrow> ul_ents l (entries_of l ! nat i);
                 let ok = alloc \<or> val = None;
                 Some (if ok then Some (entries_of l ! nat i) else None,
                       l\<lparr>ul_ents := (ul_ents l)(entries_of l ! nat i \<mapsto> e\<lparr>en_value := if ok then val else None\<rparr>)\<rparr>) }
          else if \<not> alloc then Some (None, l)
          else
            do { let new = ul_fresh l;
                 let l1 = new_entry l name val;
                 if ul_unique l then
                   do { let cur = length (entries_of l);
                        let l2 = grow_entries l1;
                        let pos = nat (- i - 1);
                        l3 \<leftarrow> (if pos < cur then udev_list_entry_insert_before new (entries_of l ! pos) l2 else udev_list_entry_append new l2);
                        if ul_entries l3 = None \<or> pos > cur \<or> cur \<ge> ul_entries_max l3 then None
                        else Some (Some new, l3\<lparr>ul_entries := Some (take pos (entries_of l) @ new # drop pos (entries_of l))\<rparr>) }
                 else
                   do { l2 \<leftarrow> udev_list_entry_append new l1; Some (Some new, l2) } } }"

text \<open>Deleting an entry; the memory of the entry is freed.\<close>

definition udev_list_entry_delete :: "addr \<Rightarrow> udev_list \<Rightarrow> udev_list option" where
  "udev_list_entry_delete a l =
     do { e \<leftarrow> ul_ents l a;
          l1 \<leftarrow> (case ul_entries l of
                  None \<Rightarrow> Some l
                | Some es \<Rightarrow>
                    do { i \<leftarrow> list_search l (en_name e);
                         Some (if i \<ge> 0 then l\<lparr>ul_entries := Some (take (nat i) es @ drop (Suc (nat i)) es)\<rparr> else l) });
          ns \<leftarrow> udev_list_node_remove a (ul_nodes l1);
          Some (l1\<lparr>ul_nodes := ns(a := None), ul_ents := (ul_ents l1)(a := None)\<rparr>) }"

definition udev_list_get_entry :: "udev_list \<Rightarrow> addr option option" where
  "udev_list_get_entry l =
     do { b \<leftarrow> udev_list_node_is_empty HEAD (ul_nodes l);
          if b then Some None else do { n \<leftarrow> ul_nodes l HEAD; Some (nd_next n) } }"

definition udev_list_entry_get_next :: "addr option \<Rightarrow> udev_list \<Rightarrow> addr option option" where
  "udev_list_entry_get_next entry l =
     (case entry of
        None \<Rightarrow> Some None
      | Some a \<Rightarrow>
          do { n \<leftarrow> ul_nodes l a; Some (if nd_next n = Some HEAD then None else nd_next n) })"

definition udev_list_entry_get_by_name :: "addr option \<Rightarrow> udev_list \<Rightarrow> cstr \<Rightarrow> addr option option" where
  "udev_list_entry_get_by_name entry l name =
     (case entry of
        None \<Rightarrow> Some None
      | Some a \<Rightarrow>
          if \<not> ul_unique l then Some None
          else do { i \<leftarrow> list_search l name; Some (if i < 0 then None else Some (entries_of l ! nat i)) })"

definition udev_list_entry_get_name :: "addr option \<Rightarrow> udev_list \<Rightarrow> cstr option" where
  "udev_list_entry_get_name entry l = do { a \<leftarrow> entry; e \<leftarrow> ul_ents l a; Some (en_name e) }"

definition udev_list_entry_get_value :: "addr option \<Rightarrow> udev_list \<Rightarrow> cstr option" where
  "udev_list_entry_get_value entry l = do { a \<leftarrow> entry; e \<leftarrow> ul_ents l a; en_value e }"

definition udev_list_entry_get_num :: "addr option \<Rightarrow> udev_list \<Rightarrow> int option" where
  "udev_list_entry_get_num entry l =
     (case entry of None \<Rightarrow> Some (- EINVAL) | Some a \<Rightarrow> map_option en_num (ul_ents l a))"

definition udev_list_entry_set_num :: "addr option \<Rightarrow> int \<Rightarrow> udev_list \<Rightarrow> udev_list option" where
  "udev_list_entry_set_num entry num l =
     (case entry of
        None \<Rightarrow> Some l
      | Some a \<Rightarrow> do { e \<leftarrow> ul_ents l a; Some (l\<lparr>ul_ents := (ul_ents l)(a \<mapsto> e\<lparr>en_num := num\<rparr>)\<rparr>) })"

text \<open>
  The loop over a list, as the addresses it visits. The fuel is the number of addresses ever used, and \<open>foreach_ok\<close>
  shows that it is enough.
\<close>

fun foreach_loop :: "nat \<Rightarrow> addr option \<Rightarrow> udev_list \<Rightarrow> addr list option" where
  "foreach_loop n None l = Some []"
| "foreach_loop 0 (Some a) l = None"
| "foreach_loop (Suc n) (Some a) l =
     do { nxt \<leftarrow> udev_list_entry_get_next (Some a) l;
          as \<leftarrow> foreach_loop n nxt l;
          Some (a # as) }"

definition udev_list_entry_foreach :: "udev_list \<Rightarrow> addr list option" where
  "udev_list_entry_foreach l =
     do { first \<leftarrow> udev_list_get_entry l; foreach_loop (ul_fresh l) first l }"

text \<open>
  Emptying a list: the array is freed first, then every entry of the ring, where the successor is read before
  an entry is deleted. The fuel is one more than the number of addresses ever used.
\<close>

fun cleanup_loop :: "nat \<Rightarrow> addr option \<Rightarrow> udev_list \<Rightarrow> udev_list option" where
  "cleanup_loop n None l = Some l"
| "cleanup_loop 0 (Some a) l = None"
| "cleanup_loop (Suc n) (Some a) l =
     do { nxt \<leftarrow> udev_list_entry_get_next (Some a) l;
          l' \<leftarrow> udev_list_entry_delete a l;
          cleanup_loop n nxt l' }"

definition udev_list_cleanup :: "udev_list \<Rightarrow> udev_list option" where
  "udev_list_cleanup l =
     (let l0 = l\<lparr>ul_entries := None, ul_entries_max := 0\<rparr>
      in do { first \<leftarrow> udev_list_get_entry l0; cleanup_loop (ul_fresh l) first l0 })"

section \<open>The search\<close>

definition search_result :: "cstr list \<Rightarrow> cstr \<Rightarrow> int \<Rightarrow> bool" where
  "search_result names name r \<longleftrightarrow>
     (if r \<ge> 0 then nat r < length names \<and> names ! nat r = name
      else nat (- r - 1) \<le> length names \<and> (\<forall>x \<in> set (take (nat (- r - 1)) names). x < name) \<and>
        (\<forall>x \<in> set (drop (nat (- r - 1)) names). name < x))"

lemma sint_of_int_small: "- (2 ^ 31) \<le> k \<Longrightarrow> k < 2 ^ 31 \<Longrightarrow> sint (word_of_int k :: 32 word) = k"
  by (simp add: signed_of_int signed_take_bit_int_eq_self)

lemma sint_small: "unat x < 2 ^ 31 \<Longrightarrow> sint x = int (unat x)" for x :: "32 word"
proof -
  assume "unat x < 2 ^ 31"
  then have "int (unat x) < 2 ^ 31" using of_nat_less_iff [of "unat x" "2 ^ 31", where ?'a = int] by (simp only: of_nat_power of_nat_numeral)
  then have "sint (word_of_int (int (unat x)) :: 32 word) = int (unat x)" by (intro sint_of_int_small) linarith+
  then show ?thesis by simp
qed

lemma sint_neg_small: "unat x < 2 ^ 31 \<Longrightarrow> sint (- (x + 1)) = - (int (unat x) + 1)" for x :: "32 word"
proof -
  assume "unat x < 2 ^ 31"
  then have "int (unat x) < 2 ^ 31" using of_nat_less_iff [of "unat x" "2 ^ 31", where ?'a = int] by (simp only: of_nat_power of_nat_numeral)
  then have "- (2 ^ 31) \<le> - (int (unat x) + 1)" by linarith
  then have "sint (word_of_int (- (int (unat x) + 1)) :: 32 word) = - (int (unat x) + 1)" by (intro sint_of_int_small) linarith+
  then show ?thesis by simp
qed

lemma sorted_map_le:
  fixes f :: "'a \<Rightarrow> 'b::order"
  assumes "sorted_wrt (<) (map f xs)" "i < length xs"
  shows "a \<in> set (take (Suc i) xs) \<Longrightarrow> f a \<le> f (xs ! i)" "a \<in> set (drop i xs) \<Longrightarrow> f (xs ! i) \<le> f a"
proof -
  have n: "j < k \<Longrightarrow> k < length xs \<Longrightarrow> f (xs ! j) < f (xs ! k)" for j k
    using assms(1) by (simp add: sorted_wrt_iff_nth_less)
  show "f a \<le> f (xs ! i)" if "a \<in> set (take (Suc i) xs)"
  proof -
    from that obtain j where "j \<le> i" "a = xs ! j" by (auto simp: in_set_conv_nth less_Suc_eq_le)
    with n [of j i] assms(2) show ?thesis by (cases "j = i") auto
  qed
  show "f (xs ! i) \<le> f a" if "a \<in> set (drop i xs)"
  proof -
    from that obtain j where "j < length xs - i" "a = xs ! (i + j)" by (auto simp: in_set_conv_nth)
    moreover from this(1) have "i + j < length xs" using assms(2) by linarith
    ultimately show ?thesis using n [of i "i + j"] by (cases "j = 0") auto
  qed
qed

lemma list_search_loop_ok:
  assumes "\<forall>a \<in> set es. ents a \<noteq> None" "length es < 2 ^ 31"
    and "sorted_wrt (<) (map (\<lambda>a. en_name (the (ents a))) es)"
    and "unat lo \<le> unat hi" "unat hi \<le> length es"
    and "\<forall>a \<in> set (take (unat lo) es). en_name (the (ents a)) < name"
    and "\<forall>a \<in> set (drop (unat hi) es). name < en_name (the (ents a))"
  shows "\<exists>r. list_search_loop ents es name lo hi = Some r \<and> search_result (map (\<lambda>a. en_name (the (ents a))) es) name r"
  using assms(4-)
proof (induction "unat hi - unat lo" arbitrary: lo hi rule: less_induct)
  case less
  let ?n = "\<lambda>a. en_name (the (ents a))" and ?i = "(lo + hi) div 2"
  show ?case
  proof (cases "lo < hi")
    case True
    have i: "unat ?i = (unat lo + unat hi) div 2"
      using less.prems(1,2) assms(2) by (simp add: unat_div unat_word_ariths)
    with True less.prems have b: "unat lo \<le> unat ?i" "unat ?i < unat hi" "unat ?i < length es"
      by (simp_all add: word_less_nat_alt)
    have i1: "unat (?i + 1) = Suc (unat ?i)" using b(3) assms(2) by (simp add: unat_word_ariths)
    have e: "ents (es ! unat ?i) \<noteq> None" using assms(1) b(3) by simp
    note le = sorted_map_le(1) [OF assms(3) b(3)] and ge = sorted_map_le(2) [OF assms(3) b(3)]
    consider "name < ?n (es ! unat ?i)" | "?n (es ! unat ?i) < name" | "name = ?n (es ! unat ?i)" by (rule linorder_cases)
    then show ?thesis
    proof cases
      case 1
      have "\<exists>r. list_search_loop ents es name lo ?i = Some r \<and> search_result (map ?n es) name r"
        by (rule less.hyps) (use b less.prems 1 ge in \<open>auto intro: order_less_le_trans\<close>)
      then show ?thesis
        using True b(3) e 1 by (subst list_search_loop.simps) (auto simp: Let_def cstr_simps)
    next
      case 2
      have "\<exists>r. list_search_loop ents es name (?i + 1) hi = Some r \<and> search_result (map ?n es) name r"
        by (rule less.hyps) (use b less.prems 2 le i1 in \<open>auto intro: order_le_less_trans\<close>)
      then show ?thesis
        using True b(3) e 2 by (subst list_search_loop.simps) (auto simp: Let_def cstr_simps)
    next
      case 3
      then have "list_search_loop ents es name lo hi = Some (sint ?i)"
        using True b(3) e by (subst list_search_loop.simps) (auto simp: Let_def cstr_simps)
      moreover have "sint ?i = int (unat ?i)" using b(3) assms(2) by (intro sint_small) simp
      ultimately show ?thesis using b(3) 3 by (simp add: search_result_def)
    qed
  next
    case False
    then have "unat lo = unat hi" using less.prems(1) by (simp add: word_less_nat_alt)
    moreover have "sint (- (lo + 1)) = - (int (unat lo) + 1)"
      using less.prems(1,2) assms(2) by (intro sint_neg_small) simp
    ultimately show ?thesis using False less.prems
      by (subst list_search_loop.simps) (simp add: search_result_def nat_add_distrib take_map drop_map)
  qed
qed

section \<open>The ring as a list\<close>

definition nx :: "nodes \<Rightarrow> addr \<Rightarrow> addr option" where
  "nx ns a = (case ns a of None \<Rightarrow> None | Some n \<Rightarrow> nd_next n)"

definition pv :: "nodes \<Rightarrow> addr \<Rightarrow> addr option" where
  "pv ns a = (case ns a of None \<Rightarrow> None | Some n \<Rightarrow> nd_prev n)"

fun seg :: "nodes \<Rightarrow> addr \<Rightarrow> addr list \<Rightarrow> addr \<Rightarrow> bool" where
  "seg ns a [] b \<longleftrightarrow> nx ns a = Some b \<and> pv ns b = Some a"
| "seg ns a (x # xs) b \<longleftrightarrow> nx ns a = Some x \<and> pv ns x = Some a \<and> seg ns x xs b"

lemma seg_append: "seg ns a (xs @ y # ys) b \<longleftrightarrow> seg ns a xs y \<and> seg ns y ys b"
  by (induction xs arbitrary: a) auto

lemma seg_frame:
  "\<forall>x \<in> set (a # xs). nx ns' x = nx ns x \<Longrightarrow> \<forall>x \<in> set (xs @ [b]). pv ns' x = pv ns x \<Longrightarrow> seg ns' a xs b = seg ns a xs b"
  by (induction xs arbitrary: a) auto

text \<open>A segment may be cut at any link, and the cut end joined to another node.\<close>

lemma seg_cut:
  assumes "seg ns a (us @ vs) b"
  shows "nx ns (last (a # us)) = Some (hd (vs @ [b]))" "pv ns (hd (vs @ [b])) = Some (last (a # us))"
proof -
  have "nx ns (last (a # us)) = Some (hd (vs @ [b])) \<and> pv ns (hd (vs @ [b])) = Some (last (a # us))"
    using assms by (induction us arbitrary: a) (auto, (cases vs; simp)+)
  then show "nx ns (last (a # us)) = Some (hd (vs @ [b]))" "pv ns (hd (vs @ [b])) = Some (last (a # us))" by auto
qed

lemma seg_left:
  assumes "seg ns a (us @ vs) b"
    and "\<forall>x \<in> set (butlast (a # us)). nx ns' x = nx ns x" "\<forall>x \<in> set us. pv ns' x = pv ns x"
    and "nx ns' (last (a # us)) = Some c" "pv ns' c = Some (last (a # us))"
  shows "seg ns' a us c"
  using assms
proof (induction us arbitrary: a)
  case (Cons u us)
  then have "seg ns' u us c" by (intro Cons.IH) simp_all
  with Cons.prems show ?case by simp
qed simp

lemma seg_right:
  assumes "seg ns a (us @ vs) b"
    and "\<forall>x \<in> set vs. nx ns' x = nx ns x" "\<forall>x \<in> set (tl (vs @ [b])). pv ns' x = pv ns x"
    and "nx ns' c = Some (hd (vs @ [b]))" "pv ns' (hd (vs @ [b])) = Some c"
  shows "seg ns' c vs b"
proof (cases vs)
  case (Cons v ws)
  with assms(1) have "seg ns v ws b" by (simp add: seg_append)
  moreover have "seg ns' v ws b = seg ns v ws b" using assms(2,3) Cons by (intro seg_frame) simp_all
  ultimately show ?thesis using assms(4,5) Cons by simp
qed (use assms in simp)

section \<open>The ring operations\<close>

lemma set_next_links:
  assumes "a \<in> dom ns"
  obtains ns' where "set_next a x ns = Some ns'" "dom ns' = dom ns" "nx ns' = (nx ns)(a := x)" "pv ns' = pv ns"
proof -
  from assms obtain n where n: "ns a = Some n" by blast
  show thesis by (rule that [of "ns(a \<mapsto> n\<lparr>nd_next := x\<rparr>)"]) (auto simp: set_next_def nx_def pv_def fun_eq_iff n)
qed

lemma set_prev_links:
  assumes "a \<in> dom ns"
  obtains ns' where "set_prev a x ns = Some ns'" "dom ns' = dom ns" "nx ns' = nx ns" "pv ns' = (pv ns)(a := x)"
proof -
  from assms obtain n where n: "ns a = Some n" by blast
  show thesis by (rule that [of "ns(a \<mapsto> n\<lparr>nd_prev := x\<rparr>)"]) (auto simp: set_prev_def nx_def pv_def fun_eq_iff n)
qed

lemma insert_between_links:
  assumes "{new, p, n} \<subseteq> dom ns"
  obtains ns' where "udev_list_node_insert_between new p n ns = Some ns'" "dom ns' = dom ns"
    "nx ns' = (nx ns)(new := Some n, p := Some new)" "pv ns' = (pv ns)(n := Some new, new := Some p)"
proof -
  obtain ns1 where 1: "set_prev n (Some new) ns = Some ns1" "dom ns1 = dom ns" "nx ns1 = nx ns" "pv ns1 = (pv ns)(n := Some new)"
    by (rule set_prev_links [of n ns "Some new"]) (use assms in auto)
  obtain ns2 where 2: "set_next new (Some n) ns1 = Some ns2" "dom ns2 = dom ns" "nx ns2 = (nx ns)(new := Some n)" "pv ns2 = pv ns1"
    by (rule set_next_links [of new ns1 "Some n"]) (use assms 1(2,3) in auto)
  obtain ns3 where 3: "set_prev new (Some p) ns2 = Some ns3" "dom ns3 = dom ns" "nx ns3 = nx ns2" "pv ns3 = (pv ns1)(new := Some p)"
    by (rule set_prev_links [of new ns2 "Some p"]) (use assms 2(2,4) in auto)
  obtain ns4 where 4: "set_next p (Some new) ns3 = Some ns4" "dom ns4 = dom ns" "nx ns4 = (nx ns2)(p := Some new)" "pv ns4 = pv ns3"
    by (rule set_next_links [of p ns3 "Some new"]) (use assms 3(2,3) in auto)
  show thesis
    by (rule that [of ns4]) (simp_all add: udev_list_node_insert_between_def 1 2 3 4)
qed

lemma node_remove_links:
  assumes "nx ns a = Some n" "pv ns a = Some p" "{a, p, n} \<subseteq> dom ns"
  obtains ns' where "udev_list_node_remove a ns = Some ns'" "dom ns' = dom ns"
    "nx ns' = (nx ns)(p := Some n, a := None)" "pv ns' = (pv ns)(n := Some p, a := None)"
proof -
  obtain nd where nd: "ns a = Some nd" "nd_next nd = Some n" "nd_prev nd = Some p"
    using assms by (auto simp: nx_def pv_def)
  obtain ns1 where 1: "set_prev n (Some p) ns = Some ns1" "dom ns1 = dom ns" "nx ns1 = nx ns" "pv ns1 = (pv ns)(n := Some p)"
    by (rule set_prev_links [of n ns "Some p"]) (use assms in auto)
  obtain ns2 where 2: "set_next p (Some n) ns1 = Some ns2" "dom ns2 = dom ns" "nx ns2 = (nx ns)(p := Some n)" "pv ns2 = pv ns1"
    by (rule set_next_links [of p ns1 "Some n"]) (use assms 1(2,3) in auto)
  obtain ns3 where 3: "set_prev a None ns2 = Some ns3" "dom ns3 = dom ns" "nx ns3 = nx ns2" "pv ns3 = (pv ns1)(a := None)"
    by (rule set_prev_links [of a ns2 None]) (use assms 2(2,4) in auto)
  obtain ns4 where 4: "set_next a None ns3 = Some ns4" "dom ns4 = dom ns" "nx ns4 = (nx ns2)(a := None)" "pv ns4 = pv ns3"
    by (rule set_next_links [of a ns3 None]) (use assms 3(2,3) in auto)
  show thesis
    by (rule that [of ns4]) (simp_all add: udev_list_node_remove_def nd 1 2 3 4)
qed

definition ring :: "nodes \<Rightarrow> addr list \<Rightarrow> bool" where
  "ring ns as \<longleftrightarrow> seg ns HEAD as HEAD \<and> distinct (HEAD # as) \<and> dom ns = set (HEAD # as)"

lemma ring_init: "ring (udev_list_node_init HEAD Map.empty) []"
  by (simp add: ring_def udev_list_node_init_def nx_def pv_def)

lemma ring_insert:
  assumes "ring ns (us @ vs)" "new \<notin> set (HEAD # us @ vs)"
  shows "\<exists>ns'. udev_list_node_insert_between new (last (HEAD # us)) (hd (vs @ [HEAD])) (ns(new \<mapsto> nd)) = Some ns' \<and> ring ns' (us @ new # vs)"
proof -
  let ?p = "last (HEAD # us)" and ?n = "hd (vs @ [HEAD])" and ?ns = "ns(new \<mapsto> nd)"
  have d: "distinct (HEAD # us @ vs)" and sg: "seg ns HEAD (us @ vs) HEAD" and dm: "dom ns = set (HEAD # us @ vs)"
    using assms(1) by (simp_all only: ring_def)
  have pn: "?p \<in> set (HEAD # us)" "?n \<in> set (vs @ [HEAD])" by (rule last_in_set, simp, rule hd_in_set, simp)
  obtain ns' where ns': "udev_list_node_insert_between new ?p ?n ?ns = Some ns'" "dom ns' = dom ?ns"
    "nx ns' = (nx ?ns)(new := Some ?n, ?p := Some new)" "pv ns' = (pv ?ns)(?n := Some new, new := Some ?p)"
    using insert_between_links [of new ?p ?n ?ns] pn dm by auto
  have nx: "nx ns' x = nx ns x" if "x \<notin> {new, ?p}" for x using that by (simp add: ns'(3)) (simp add: nx_def)
  have pv: "pv ns' x = pv ns x" if "x \<notin> {new, ?n}" for x using that by (simp add: ns'(4)) (simp add: pv_def)
  have ne: "new \<noteq> ?p" "new \<noteq> ?n" "?n \<notin> set us" "?p \<notin> set vs" using assms(2) pn d by auto
  have l: "?p \<notin> set (butlast (HEAD # us))" using d by (cases us rule: rev_cases) auto
  have r: "?n \<notin> set (tl (vs @ [HEAD]))" "new \<notin> set (tl (vs @ [HEAD]))" using d assms(2) by (cases vs; auto)+
  have "seg ns' HEAD us new"
  proof (rule seg_left [OF sg])
    show "\<forall>x \<in> set (butlast (HEAD # us)). nx ns' x = nx ns x"
      using nx l assms(2) in_set_butlastD [of _ "HEAD # us"] by (metis Un_iff empty_iff insert_iff set_append list.set(2))
    show "\<forall>x \<in> set us. pv ns' x = pv ns x" using pv ne(3) assms(2) by (metis Un_iff empty_iff insert_iff set_append list.set(2))
    show "nx ns' ?p = Some new" "pv ns' new = Some ?p" by (simp_all add: ns'(3,4))
  qed
  moreover have "seg ns' new vs HEAD"
  proof (rule seg_right [OF sg])
    show "\<forall>x \<in> set vs. nx ns' x = nx ns x" using nx ne(4) assms(2) by (metis Un_iff empty_iff insert_iff set_append list.set(2))
    show "\<forall>x \<in> set (tl (vs @ [HEAD])). pv ns' x = pv ns x" using pv r by (metis empty_iff insert_iff)
    show "nx ns' new = Some ?n" "pv ns' ?n = Some new" using ne by (simp_all add: ns'(3,4))
  qed
  ultimately have "ring ns' (us @ new # vs)" using assms(2) d dm ns'(2) by (auto simp: ring_def seg_append)
  with ns'(1) show ?thesis by blast
qed

lemma ring_remove:
  assumes "ring ns (us @ a # vs)"
  shows "\<exists>ns'. udev_list_node_remove a ns = Some ns' \<and> ring (ns'(a := None)) (us @ vs)"
proof -
  let ?p = "last (HEAD # us)" and ?n = "hd (vs @ [HEAD])"
  have d: "distinct (HEAD # us @ a # vs)" and sg: "seg ns HEAD (us @ a # vs) HEAD" and dm: "dom ns = set (HEAD # us @ a # vs)"
    using assms(1) by (simp_all only: ring_def)
  have pn: "?p \<in> set (HEAD # us)" "?n \<in> set (vs @ [HEAD])" by (rule last_in_set, simp, rule hd_in_set, simp)
  have "pv ns a = Some ?p" "nx ns a = Some ?n"
    using seg_cut(2) [OF sg] seg_cut(1) [of ns HEAD "us @ [a]" vs HEAD] sg by simp_all
  then obtain ns' where ns': "udev_list_node_remove a ns = Some ns'" "dom ns' = dom ns"
    "nx ns' = (nx ns)(?p := Some ?n, a := None)" "pv ns' = (pv ns)(?n := Some ?p, a := None)"
    using node_remove_links [of ns a ?n ?p] pn dm by auto
  let ?ns = "ns'(a := None)"
  have nx: "nx ?ns x = (if x = ?p then Some ?n else nx ns x)" and pv: "pv ?ns x = (if x = ?n then Some ?p else pv ns x)" if "x \<noteq> a" for x
    using that ns'(3,4) by (auto simp: fun_eq_iff nx_def pv_def)
  have ne: "a \<noteq> ?p" "a \<noteq> ?n" "?n \<notin> set us" "?p \<notin> set vs" using pn d by auto
  have l: "?p \<notin> set (butlast (HEAD # us))" using d by (cases us rule: rev_cases) auto
  have r: "?n \<notin> set (tl (vs @ [HEAD]))" "a \<notin> set (tl (vs @ [HEAD]))" using d by (cases vs; auto)+
  have L: "seg ?ns HEAD us ?n"
  proof (rule seg_left [OF sg])
    show "\<forall>x \<in> set (butlast (HEAD # us)). nx ?ns x = nx ns x"
      using nx l d in_set_butlastD [of _ "HEAD # us"] by (metis distinct.simps(2) distinct_append not_distinct_conv_prefix append_Cons)
    show "\<forall>x \<in> set us. pv ?ns x = pv ns x" using pv ne(3) d by (metis Un_iff distinct.simps(2) distinct_append disjoint_iff list.set_intros(1))
    show "nx ?ns ?p = Some ?n" "pv ?ns ?n = Some ?p" using nx pv ne by auto
  qed
  have "seg ?ns HEAD (us @ vs) HEAD"
  proof (cases vs)
    case (Cons v ws)
    have "nx ?ns x = nx ns x" if "x \<in> set vs" for x using that nx ne(4) d by (metis distinct.simps(2) distinct_append)
    moreover have "pv ?ns x = pv ns x" if "x \<in> set (tl (vs @ [HEAD]))" for x using that pv r by metis
    ultimately have "seg ?ns v ws HEAD = seg ns v ws HEAD" using Cons by (intro seg_frame) auto
    with L sg Cons show ?thesis by (simp add: seg_append)
  qed (use L in simp)
  then have "ring ?ns (us @ vs)" using d dm ns'(2) by (auto simp: ring_def)
  with ns'(1) show ?thesis by blast
qed

section \<open>The list as an association list\<close>

definition name_of :: "udev_list \<Rightarrow> addr \<Rightarrow> cstr" where
  "name_of l a = en_name (the (ul_ents l a))"

definition value_of :: "udev_list \<Rightarrow> addr \<Rightarrow> cstr option" where
  "value_of l a = en_value (the (ul_ents l a))"

definition ul_alist :: "udev_list \<Rightarrow> addr list \<Rightarrow> (cstr \<times> cstr option) list" where
  "ul_alist l as = map (\<lambda>a. (name_of l a, value_of l a)) as"

definition ul_ring :: "udev_list \<Rightarrow> addr list \<Rightarrow> bool" where
  "ul_ring l as \<longleftrightarrow> ring (ul_nodes l) as \<and> dom (ul_ents l) = set as \<and> (\<forall>a \<in> set (HEAD # as). a < ul_fresh l)"

lemma ul_alist_append: "ul_alist l (us @ a # vs) = ul_alist l us @ (name_of l a, value_of l a) # ul_alist l vs"
  by (simp add: ul_alist_def)

text \<open>The invariant: the ring holds exactly the entries, and a unique list has them in its array too, sorted by name.\<close>

definition ul_inv :: "udev_list \<Rightarrow> addr list \<Rightarrow> bool" where
  "ul_inv l as \<longleftrightarrow> ul_ring l as \<and>
     (if ul_unique l
      then entries_of l = as \<and> length as \<le> ul_entries_max l \<and> (ul_entries l = None \<longrightarrow> ul_entries_max l = 0) \<and>
        sorted_wrt (<) (map (name_of l) as)
      else ul_entries l = None)"

lemma ul_inv_init: "ul_inv (udev_list_init unique) []"
  by (simp add: ul_inv_def ul_ring_def udev_list_init_def ring_init entries_of_def)

lemma search_ok:
  assumes "ul_inv l as" "ul_unique l" "length as < 2 ^ 31"
  obtains r where "list_search l name = Some r" "search_result (map (name_of l) as) name r"
proof -
  have u: "unat (of_nat (length as) :: 32 word) = length as" using assms(3) by (simp add: unat_of_nat)
  have "\<exists>r. list_search_loop (ul_ents l) as name 0 (of_nat (length as)) = Some r \<and>
      search_result (map (\<lambda>a. en_name (the (ul_ents l a))) as) name r"
    by (rule list_search_loop_ok) (use assms in \<open>auto simp: ul_inv_def ul_ring_def name_of_def [abs_def] u dom_def\<close>)
  with assms(1,2) that show thesis by (auto simp: list_search_def ul_inv_def name_of_def [abs_def])
qed

lemma unique_names:
  assumes "ul_inv l as" "ul_unique l"
  shows "distinct (map fst (ul_alist l as))"
proof -
  have "map fst (ul_alist l as) = map (name_of l) as" by (simp add: ul_alist_def)
  with assms show ?thesis by (simp add: ul_inv_def strict_sorted_iff)
qed

text \<open>Linking a new entry in, at the end or before another entry.\<close>

lemma entry_link:
  assumes "ul_ring l (us @ vs)" and l1: "ul_nodes l1 = ul_nodes (new_entry l name val)" "ul_ents l1 = ul_ents (new_entry l name val)"
    "ul_fresh l1 = Suc (ul_fresh l)"
  obtains ns where
    "(case vs of [] \<Rightarrow> udev_list_entry_append (ul_fresh l) l1 | v # _ \<Rightarrow> udev_list_entry_insert_before (ul_fresh l) v l1) = Some (l1\<lparr>ul_nodes := ns\<rparr>)"
    "ul_ring (l1\<lparr>ul_nodes := ns\<rparr>) (us @ ul_fresh l # vs)"
proof -
  let ?p = "last (HEAD # us)" and ?n = "hd (vs @ [HEAD])" and ?new = "ul_fresh l"
  have r: "ring (ul_nodes l) (us @ vs)" and f: "?new \<notin> set (HEAD # us @ vs)" using assms(1) by (auto simp: ul_ring_def)
  obtain ns where ns: "udev_list_node_insert_between ?new ?p ?n (ul_nodes l1) = Some ns" "ring ns (us @ ?new # vs)"
    using ring_insert [OF r f] by (auto simp: l1 new_entry_def)
  have "pv (ul_nodes l) ?n = Some ?p" using seg_cut(2) r by (simp add: ring_def)
  moreover have "?n \<noteq> ?new" using f by (cases vs) auto
  ultimately obtain nd where "ul_nodes l1 ?n = Some nd" "nd_prev nd = Some ?p"
    by (auto simp: pv_def l1 new_entry_def split: option.splits)
  with ns(1) have "(case vs of [] \<Rightarrow> udev_list_entry_append ?new l1 | v # _ \<Rightarrow> udev_list_entry_insert_before ?new v l1) = Some (l1\<lparr>ul_nodes := ns\<rparr>)"
    by (cases vs) (simp_all add: udev_list_entry_append_def udev_list_entry_insert_before_def)
  moreover have "ul_ring (l1\<lparr>ul_nodes := ns\<rparr>) (us @ ?new # vs)"
    using assms(1) ns(2) by (auto simp: ul_ring_def l1 new_entry_def less_SucI)
  ultimately show thesis by (rule that)
qed

lemma alist_new_entry:
  assumes "ul_ents l' = ul_ents (new_entry l name val)" "ul_fresh l \<notin> set as"
  shows "map (name_of l') as = map (name_of l) as" "ul_alist l' as = ul_alist l as"
    "name_of l' (ul_fresh l) = name" "value_of l' (ul_fresh l) = val"
  using assms by (auto simp: name_of_def value_of_def ul_alist_def new_entry_def)

section \<open>Adding, finding and deleting\<close>

text \<open>A new name in a unique list: at the place that the search gives.\<close>

lemma add_new:
  assumes "ul_inv l as" "ul_unique l" "list_search l name = Some i" "i < 0" "search_result (map (name_of l) as) name i"
  obtains us vs l' where "as = us @ vs" "udev_list_entry_add True l name val = Some (Some (ul_fresh l), l')"
    "ul_inv l' (us @ ul_fresh l # vs)" "ul_unique l'" "ul_alist l' (us @ ul_fresh l # vs) = ul_alist l us @ (name, val) # ul_alist l vs"
    "name \<notin> set (map fst (ul_alist l as))"
proof -
  let ?new = "ul_fresh l" and ?pos = "nat (- i - 1)"
  define us vs where "us = take ?pos as" and "vs = drop ?pos as"
  have as: "as = us @ vs" by (simp add: us_def vs_def)
  have pos: "?pos \<le> length as" and lu: "?pos = length us" and lt: "\<forall>a \<in> set us. name_of l a < name" and gt: "\<forall>a \<in> set vs. name < name_of l a"
    using assms(4,5) by (auto simp: search_result_def us_def vs_def take_map drop_map)
  have es: "entries_of l = as" "length as \<le> ul_entries_max l" "ul_entries l = None \<longrightarrow> ul_entries_max l = 0"
    and so: "sorted_wrt (<) (map (name_of l) (us @ vs))" and ri: "ul_ring l (us @ vs)"
    using assms(1,2) by (auto simp: ul_inv_def as)
  have fr: "?new \<notin> set us" "?new \<notin> set vs" using ri by (auto simp: ul_ring_def)
  define l2 where "l2 = grow_entries (new_entry l name val)"
  have l2: "ul_nodes l2 = ul_nodes (new_entry l name val)" "ul_ents l2 = ul_ents (new_entry l name val)" "ul_fresh l2 = Suc ?new"
    "ul_unique l2" "ul_entries l2 \<noteq> None" "length as < ul_entries_max l2"
    using assms(2) es by (auto simp: l2_def grow_entries_def new_entry_def entries_of_def Let_def)
  obtain ns where ns: "(case vs of [] \<Rightarrow> udev_list_entry_append ?new l2 | v # _ \<Rightarrow> udev_list_entry_insert_before ?new v l2) = Some (l2\<lparr>ul_nodes := ns\<rparr>)"
    "ul_ring (l2\<lparr>ul_nodes := ns\<rparr>) (us @ ?new # vs)"
    using entry_link [OF ri l2(1-3)] .
  define l' where "l' = l2\<lparr>ul_nodes := ns, ul_entries := Some (us @ ?new # vs)\<rparr>"
  have "(if ?pos < length as then udev_list_entry_insert_before ?new (as ! ?pos) l2 else udev_list_entry_append ?new l2) = Some (l2\<lparr>ul_nodes := ns\<rparr>)"
    using ns(1) by (cases vs) (simp_all add: lu as nth_append)
  with assms(2-4) es(1) l2(5,6) pos have "udev_list_entry_add True l name val = Some (Some ?new, l')"
    by (cases "?pos < length as") (simp_all add: udev_list_entry_add_def Let_def l2_def [symmetric] l'_def us_def vs_def)
  moreover have al: "map (name_of l') (us @ ?new # vs) = map (name_of l) us @ name # map (name_of l) vs"
    "ul_alist l' (us @ ?new # vs) = ul_alist l us @ (name, val) # ul_alist l vs"
    using alist_new_entry [of l' l name val us] alist_new_entry [of l' l name val vs] fr l2(2) by (simp_all add: l'_def ul_alist_def)
  moreover have "sorted_wrt (<) (map (name_of l') (us @ ?new # vs))" "ul_ring l' (us @ ?new # vs)"
    unfolding al(1) using so lt gt ns(2) by (auto simp: sorted_wrt_append ul_ring_def l'_def)
  then have "ul_inv l' (us @ ?new # vs)" using l2(4,6) by (auto simp: ul_inv_def as entries_of_def l'_def)
  moreover have "name \<notin> set (map fst (ul_alist l as))" using lt gt by (auto simp: as ul_alist_def)
  moreover have "ul_unique l'" using l2(4) by (simp add: l'_def)
  ultimately show thesis using as that by blast
qed

text \<open>A name that is there: its value is replaced.\<close>

lemma set_value_inv:
  fixes v :: "cstr option"
  assumes "ul_inv l as" "a \<in> set as" "ul_ents l a = Some e"
  defines "l' \<equiv> l\<lparr>ul_ents := (ul_ents l)(a \<mapsto> e\<lparr>en_value := v\<rparr>)\<rparr>"
  shows "ul_inv l' as" "name_of l' = name_of l" "value_of l' = (value_of l)(a := v)"
proof -
  show n: "name_of l' = name_of l" "value_of l' = (value_of l)(a := v)"
    using assms(3) by (auto simp: fun_eq_iff name_of_def value_of_def l'_def)
  show "ul_inv l' as"
    using assms(1,2) unfolding ul_inv_def ul_ring_def n(1) by (auto simp: l'_def entries_of_def)
qed

lemma add_existing:
  assumes "ul_inv l as" "ul_unique l" "list_search l name = Some i" "i \<ge> 0" "search_result (map (name_of l) as) name i"
  obtains a l' where "a \<in> set as" "name_of l a = name" "udev_list_entry_add True l name val = Some (Some a, l')" "ul_inv l' as" "ul_unique l'"
    "name_of l' = name_of l" "value_of l' = (value_of l)(a := val)"
proof -
  let ?a = "as ! nat i"
  have a: "?a \<in> set as" "name_of l ?a = name" and es: "entries_of l = as" using assms by (auto simp: search_result_def ul_inv_def)
  obtain e where e: "ul_ents l ?a = Some e" using a(1) assms(1) by (auto simp: ul_inv_def ul_ring_def)
  have "udev_list_entry_add True l name val = Some (Some ?a, l\<lparr>ul_ents := (ul_ents l)(?a \<mapsto> e\<lparr>en_value := val\<rparr>)\<rparr>)"
    using assms(2-4) e es by (simp add: udev_list_entry_add_def Let_def)
  with set_value_inv [OF assms(1) a(1) e, of val] a assms(2) show thesis by (intro that [of ?a]) simp_all
qed

lemma map_of_insert: "k \<notin> fst ` set xs \<Longrightarrow> map_of (xs @ (k, v) # ys) = (map_of (xs @ ys))(k \<mapsto> v)"
  by (induction xs) auto

lemma alist_remove_map:
  "k \<notin> fst ` set (xs @ ys) \<Longrightarrow> map_of (xs @ ys) k' = (if k' = k then None else map_of (xs @ (k, v) # ys) k')"
  by (induction xs) (auto simp: map_of_eq_None_iff)

lemma map_of_alist_upd:
  assumes "distinct (map fst (ul_alist l as))" "a \<in> set as" "name_of l' = name_of l" "value_of l' = (value_of l)(a := v)"
  shows "map_of (ul_alist l' as) = (map_of (ul_alist l as))(name_of l a \<mapsto> v)"
proof -
  obtain us vs where as: "as = us @ a # vs" using assms(2) by (auto dest: split_list)
  then have "a \<notin> set us" "a \<notin> set vs" and n: "name_of l a \<notin> fst ` set (ul_alist l us)" using assms(1) by (auto simp: ul_alist_def image_iff)
  then have "ul_alist l' as = ul_alist l us @ (name_of l a, v) # ul_alist l vs"
    "ul_alist l as = ul_alist l us @ (name_of l a, value_of l a) # ul_alist l vs"
    using assms(3,4) by (auto simp: as ul_alist_def)
  with n show ?thesis by (simp add: map_of_insert del: map_of_append)
qed

lemma add_unique:
  assumes "ul_inv l as" "ul_unique l" "length as < 2 ^ 31"
  obtains a l' as' where "udev_list_entry_add True l name val = Some (Some a, l')" "ul_inv l' as'" "ul_unique l'"
    "map_of (ul_alist l' as') = (map_of (ul_alist l as))(name \<mapsto> val)" "length as' \<le> Suc (length as)" "a \<in> set as'" "name_of l' a = name"
proof -
  obtain i where i: "list_search l name = Some i" "search_result (map (name_of l) as) name i"
    using search_ok [OF assms] .
  show thesis
  proof (cases "i \<ge> 0")
    case True
    from add_existing [OF assms(1,2) i(1) True i(2), of val] obtain a l' where
      a: "a \<in> set as" "name_of l a = name" "udev_list_entry_add True l name val = Some (Some a, l')" "ul_inv l' as" "ul_unique l'"
      "name_of l' = name_of l" "value_of l' = (value_of l)(a := val)" by metis
    with map_of_alist_upd [OF unique_names [OF assms(1,2)] a(1,6,7)] show thesis by (intro that [of a l' as]) simp_all
  next
    case False
    from add_new [OF assms(1,2) i(1) _ i(2), of val] False obtain us vs l' where
      n: "as = us @ vs" "udev_list_entry_add True l name val = Some (Some (ul_fresh l), l')" "ul_inv l' (us @ ul_fresh l # vs)" "ul_unique l'"
      "ul_alist l' (us @ ul_fresh l # vs) = ul_alist l us @ (name, val) # ul_alist l vs" "name \<notin> set (map fst (ul_alist l as))" by (metis not_le)
    have "map_of (ul_alist l' (us @ ul_fresh l # vs)) = (map_of (ul_alist l as))(name \<mapsto> val)"
      using n(6) map_of_insert [of name "ul_alist l us" val "ul_alist l vs"] unfolding n(5) by (simp add: n(1) ul_alist_def image_image)
    moreover have "name_of l' (ul_fresh l) = name" using n(5) by (auto simp: ul_alist_def append_eq_append_conv)
    ultimately show thesis using n by (intro that [of "ul_fresh l" l' "us @ ul_fresh l # vs"]) simp_all
  qed
qed

lemma add_plain:
  assumes "ul_inv l as" "\<not> ul_unique l"
  obtains l' where "udev_list_entry_add True l name val = Some (Some (ul_fresh l), l')" "ul_inv l' (as @ [ul_fresh l])" "\<not> ul_unique l'"
    "ul_alist l' (as @ [ul_fresh l]) = ul_alist l as @ [(name, val)]"
proof -
  let ?new = "ul_fresh l" and ?l1 = "new_entry l name val"
  have r: "ul_ring l (as @ [])" and e: "ul_entries l = None" using assms by (auto simp: ul_inv_def)
  obtain ns where ns: "udev_list_entry_append ?new ?l1 = Some (?l1\<lparr>ul_nodes := ns\<rparr>)" "ul_ring (?l1\<lparr>ul_nodes := ns\<rparr>) (as @ [?new])"
    using entry_link [OF r, of ?l1 name val] by (auto simp: new_entry_def)
  have "?new \<notin> set as" using r by (auto simp: ul_ring_def)
  then have "ul_alist (?l1\<lparr>ul_nodes := ns\<rparr>) (as @ [?new]) = ul_alist l as @ [(name, val)]"
    using alist_new_entry [of "?l1\<lparr>ul_nodes := ns\<rparr>" l name val as] by (simp add: ul_alist_def)
  moreover have "udev_list_entry_add True l name val = Some (Some ?new, ?l1\<lparr>ul_nodes := ns\<rparr>)"
    using assms(2) ns(1) by (simp add: udev_list_entry_add_def Let_def)
  moreover have "ul_inv (?l1\<lparr>ul_nodes := ns\<rparr>) (as @ [?new])" "\<not> ul_unique (?l1\<lparr>ul_nodes := ns\<rparr>)"
    using assms(2) ns(2) e by (simp_all add: ul_inv_def new_entry_def)
  ultimately show thesis by (intro that)
qed

text \<open>Finding a name, and walking the list.\<close>

lemma get_by_name_ok:
  assumes "ul_inv l as" "ul_unique l" "length as < 2 ^ 31" "as \<noteq> []"
  shows "map_option (\<lambda>a. (map_option (name_of l) a, map_option (value_of l) a)) (udev_list_entry_get_by_name (Some (hd as)) l name) =
    Some (if name \<in> name_of l ` set as then Some name else None, map_of (ul_alist l as) name)"
proof -
  obtain i where i: "list_search l name = Some i" "search_result (map (name_of l) as) name i"
    using search_ok [OF assms(1-3)] .
  have es: "entries_of l = as" using assms(1,2) by (simp add: ul_inv_def)
  show ?thesis
  proof (cases "i \<ge> 0")
    case True
    then have a: "as ! nat i \<in> set as" "name_of l (as ! nat i) = name" using i(2) by (auto simp: search_result_def)
    then have "(name, value_of l (as ! nat i)) \<in> set (ul_alist l as)" by (auto simp: ul_alist_def)
    then have "map_of (ul_alist l as) name = Some (value_of l (as ! nat i))"
      using unique_names [OF assms(1,2)] by simp
    with a i(1) True assms(2) es show ?thesis by (auto simp: udev_list_entry_get_by_name_def image_iff)
  next
    case False
    then have n: "name \<notin> name_of l ` set as"
      using i(2) set_append [of "take (nat (- i - 1)) as" "drop (nat (- i - 1)) as"] by (auto simp: search_result_def take_map drop_map)
    then have "map_of (ul_alist l as) name = None" by (auto simp: ul_alist_def map_of_eq_None_iff image_image)
    with n i(1) False assms(2) show ?thesis by (auto simp: udev_list_entry_get_by_name_def)
  qed
qed

lemma ring_next: "ring ns (us @ a # vs) \<Longrightarrow> nx ns a = Some (hd (vs @ [HEAD]))"
  using seg_cut(1) [of ns HEAD "us @ [a]" vs HEAD] by (simp add: ring_def)

lemma walk_ok:
  assumes "ul_ring l as"
  shows "udev_list_get_entry l = Some (case as of [] \<Rightarrow> None | a # _ \<Rightarrow> Some a)"
    "as = us @ a # vs \<Longrightarrow> udev_list_entry_get_next (Some a) l = Some (case vs of [] \<Rightarrow> None | b # _ \<Rightarrow> Some b)"
proof -
  have "nx (ul_nodes l) HEAD = Some (hd (as @ [HEAD]))" "HEAD \<notin> set as"
    using assms seg_cut(1) [of "ul_nodes l" HEAD "[]" as HEAD] by (auto simp: ul_ring_def ring_def)
  then show "udev_list_get_entry l = Some (case as of [] \<Rightarrow> None | a # _ \<Rightarrow> Some a)"
    by (cases as) (auto simp: udev_list_get_entry_def udev_list_node_is_empty_def nx_def split: option.splits)
  assume as: "as = us @ a # vs"
  then have "nx (ul_nodes l) a = Some (hd (vs @ [HEAD]))" "HEAD \<notin> set vs" using ring_next assms by (auto simp: ul_ring_def ring_def)
  then show "udev_list_entry_get_next (Some a) l = Some (case vs of [] \<Rightarrow> None | b # _ \<Rightarrow> Some b)"
    by (cases vs) (auto simp: udev_list_entry_get_next_def nx_def split: option.splits)
qed

text \<open>Deleting an entry.\<close>

lemma delete_links:
  assumes "ul_ring l (us @ a # vs)"
  obtains ns e where "ul_ents l a = Some e" "udev_list_node_remove a (ul_nodes l) = Some ns"
    "ul_ring (l\<lparr>ul_nodes := ns(a := None), ul_ents := (ul_ents l)(a := None)\<rparr>) (us @ vs)"
proof -
  have r: "ring (ul_nodes l) (us @ a # vs)" using assms(1) by (simp add: ul_ring_def)
  obtain ns where ns: "udev_list_node_remove a (ul_nodes l) = Some ns" "ring (ns(a := None)) (us @ vs)" using ring_remove [OF r] by blast
  obtain e where e: "ul_ents l a = Some e" using assms(1) by (auto simp: ul_ring_def dom_def)
  have d: "a \<notin> set (us @ vs)" using r by (auto simp: ring_def)
  have "ul_ring (l\<lparr>ul_nodes := ns(a := None), ul_ents := (ul_ents l)(a := None)\<rparr>) (us @ vs)"
    using assms(1) ns(2) d by (auto simp: ul_ring_def)
  with ns(1) e show thesis by (intro that)
qed

lemma delete_ring:
  assumes "ul_ring l (us @ a # vs)" "ul_entries l = None"
  obtains l' where "udev_list_entry_delete a l = Some l'" "ul_ring l' (us @ vs)" "ul_entries l' = None" "ul_unique l' = ul_unique l"
    "ul_entries_max l' = ul_entries_max l" "ul_ents l' = (ul_ents l)(a := None)"
proof -
  obtain ns e where "ul_ents l a = Some e" "udev_list_node_remove a (ul_nodes l) = Some ns"
    "ul_ring (l\<lparr>ul_nodes := ns(a := None), ul_ents := (ul_ents l)(a := None)\<rparr>) (us @ vs)" using delete_links [OF assms(1)] .
  with assms(2) show thesis
    by (intro that [of "l\<lparr>ul_nodes := ns(a := None), ul_ents := (ul_ents l)(a := None)\<rparr>"]) (simp_all add: udev_list_entry_delete_def)
qed

lemma alist_delete:
  assumes "ul_ents l' = (ul_ents l)(a := None)" "a \<notin> set as"
  shows "map (name_of l') as = map (name_of l) as" "ul_alist l' as = ul_alist l as"
  using assms by (auto simp: name_of_def value_of_def ul_alist_def)

lemma search_entry:
  assumes "ul_inv l (us @ a # vs)" "ul_unique l" "length (us @ a # vs) < 2 ^ 31"
  shows "list_search l (name_of l a) = Some (int (length us))"
proof -
  obtain i where i: "list_search l (name_of l a) = Some i" "search_result (map (name_of l) (us @ a # vs)) (name_of l a) i"
    using search_ok [OF assms] .
  have d: "distinct (map (name_of l) (us @ a # vs))" using assms(1,2) by (simp add: ul_inv_def strict_sorted_iff)
  have "i \<ge> 0"
  proof (rule ccontr)
    assume "\<not> i \<ge> 0"
    with i(2) have "name_of l a \<notin> set (map (name_of l) (us @ a # vs))"
      unfolding search_result_def by (metis append_take_drop_id order_less_irrefl set_append Un_iff)
    then show False by simp
  qed
  with i(2) have "nat i < length (us @ a # vs)" "map (name_of l) (us @ a # vs) ! nat i = map (name_of l) (us @ a # vs) ! length us"
    by (simp_all add: search_result_def nth_append)
  with d have "nat i = length us" by (subst (asm) nth_eq_iff_index_eq) simp_all
  with i(1) \<open>i \<ge> 0\<close> show ?thesis by auto
qed

lemma delete_ok:
  assumes "ul_inv l (us @ a # vs)" "length (us @ a # vs) < 2 ^ 31"
  obtains l' where "udev_list_entry_delete a l = Some l'" "ul_inv l' (us @ vs)" "ul_unique l' = ul_unique l"
    "ul_alist l' (us @ vs) = ul_alist l us @ ul_alist l vs"
proof -
  have r: "ul_ring l (us @ a # vs)" using assms(1) by (simp add: ul_inv_def)
  then have na: "a \<notin> set us" "a \<notin> set vs" by (auto simp: ul_ring_def ring_def)
  have al: "ul_alist l' (us @ vs) = ul_alist l us @ ul_alist l vs" if "ul_ents l' = (ul_ents l)(a := None)" for l'
    using alist_delete(2) [OF that] na by (simp add: ul_alist_def)
  show thesis
  proof (cases "ul_unique l")
    case True
    obtain ns e where ns: "ul_ents l a = Some e" "udev_list_node_remove a (ul_nodes l) = Some ns"
      "ul_ring (l\<lparr>ul_nodes := ns(a := None), ul_ents := (ul_ents l)(a := None)\<rparr>) (us @ vs)" using delete_links [OF r] .
    define l' where "l' = l\<lparr>ul_entries := Some (us @ vs), ul_nodes := ns(a := None), ul_ents := (ul_ents l)(a := None)\<rparr>"
    have es: "ul_entries l = Some (us @ a # vs)" using assms(1) True by (auto simp: ul_inv_def entries_of_def split: option.splits)
    have "en_name e = name_of l a" by (simp add: name_of_def ns(1))
    with search_entry [OF assms(1) True assms(2)] ns(1,2) es have "udev_list_entry_delete a l = Some l'"
      by (simp add: udev_list_entry_delete_def l'_def)
    moreover have "sorted_wrt (<) (map (name_of l') (us @ vs))"
    proof -
      have "ul_ents l' = (ul_ents l)(a := None)" by (simp add: l'_def)
      then have "map (name_of l') (us @ vs) = map (name_of l) (us @ vs)" using na by (intro alist_delete(1)) simp_all
      moreover have "sorted_wrt (<) (map (name_of l) (us @ vs))" using assms(1) True by (simp add: ul_inv_def sorted_wrt_append)
      ultimately show ?thesis by metis
    qed
    then have "ul_inv l' (us @ vs)" using assms(1) True ns(3) unfolding ul_inv_def ul_ring_def by (simp add: l'_def entries_of_def)
    ultimately show thesis using al [of l'] True by (intro that [of l']) (simp_all add: l'_def)
  next
    case False
    then have "ul_entries l = None" using assms(1) by (simp add: ul_inv_def)
    from delete_ring [OF r this] obtain l' where "udev_list_entry_delete a l = Some l'" "ul_ring l' (us @ vs)" "ul_entries l' = None"
      "ul_unique l' = ul_unique l" "ul_ents l' = (ul_ents l)(a := None)" by metis
    with False al show thesis by (intro that [of l']) (simp_all add: ul_inv_def)
  qed
qed

lemma cleanup_loop_ok:
  assumes "ul_ring l as" "ul_entries l = None" "length as \<le> n"
  shows "\<exists>l'. cleanup_loop n (case as of [] \<Rightarrow> None | a # _ \<Rightarrow> Some a) l = Some l' \<and> ul_ring l' [] \<and> ul_entries l' = None \<and>
    ul_unique l' = ul_unique l \<and> ul_entries_max l' = ul_entries_max l"
  using assms
proof (induction as arbitrary: n l)
  case (Cons a as)
  then obtain m where m: "n = Suc m" by (cases n) auto
  obtain l1 where l1: "udev_list_entry_delete a l = Some l1" "ul_ring l1 as" "ul_entries l1 = None" "ul_unique l1 = ul_unique l"
    "ul_entries_max l1 = ul_entries_max l"
    using delete_ring [of l "[]" a as] Cons.prems(1,2) by auto
  have nxt: "udev_list_entry_get_next (Some a) l = Some (case as of [] \<Rightarrow> None | b # _ \<Rightarrow> Some b)"
    using walk_ok(2) [OF Cons.prems(1), of "[]"] by simp
  obtain l' where "cleanup_loop m (case as of [] \<Rightarrow> None | b # _ \<Rightarrow> Some b) l1 = Some l'" "ul_ring l' []" "ul_entries l' = None"
    "ul_unique l' = ul_unique l1" "ul_entries_max l' = ul_entries_max l1"
    using Cons.IH [of l1 m] l1(2,3) Cons.prems(3) m by auto
  with nxt l1 m show ?case by simp
qed simp

lemma ring_length:
  assumes "ul_ring l as"
  shows "length as < ul_fresh l"
proof -
  have "card (set (HEAD # as)) \<le> card {..<ul_fresh l}" using assms by (intro card_mono) (auto simp: ul_ring_def)
  moreover have "card (set (HEAD # as)) = Suc (length as)" using assms by (intro distinct_card [THEN trans]) (auto simp: ul_ring_def ring_def)
  ultimately show ?thesis by simp
qed

lemma foreach_loop_ok:
  "ul_ring l (us @ as) \<Longrightarrow> length as \<le> n \<Longrightarrow> foreach_loop n (case as of [] \<Rightarrow> None | a # _ \<Rightarrow> Some a) l = Some as"
proof (induction as arbitrary: us n)
  case (Cons a as)
  then obtain m where m: "n = Suc m" by (cases n) auto
  have "foreach_loop m (case as of [] \<Rightarrow> None | b # _ \<Rightarrow> Some b) l = Some as"
    using Cons.IH [of "us @ [a]" m] Cons.prems m by simp
  with walk_ok(2) [OF Cons.prems(1), of us a as] m show ?case by simp
qed simp

lemma foreach_ok:
  assumes "ul_inv l as"
  shows "udev_list_entry_foreach l = Some as"
proof -
  have r: "ul_ring l ([] @ as)" using assms by (simp add: ul_inv_def)
  with foreach_loop_ok [OF r, of "ul_fresh l"] ring_length [of l as] walk_ok(1) [of l as] show ?thesis
    by (simp add: udev_list_entry_foreach_def)
qed

lemma cleanup_ok:
  assumes "ul_inv l as"
  obtains l' where "udev_list_cleanup l = Some l'" "ul_inv l' []" "ul_unique l' = ul_unique l"
proof -
  let ?l = "l\<lparr>ul_entries := None, ul_entries_max := 0\<rparr>"
  have r: "ul_ring ?l as" "length as \<le> ul_fresh l" using assms ring_length [of l as] by (auto simp: ul_inv_def ul_ring_def)
  obtain l' where "cleanup_loop (ul_fresh l) (case as of [] \<Rightarrow> None | a # _ \<Rightarrow> Some a) ?l = Some l'" "ul_ring l' []" "ul_entries l' = None"
    "ul_unique l' = ul_unique l" "ul_entries_max l' = 0"
    using cleanup_loop_ok [of ?l as "ul_fresh l"] r by auto
  with walk_ok(1) [OF r(1)] show thesis
    by (intro that [of l']) (simp_all add: udev_list_cleanup_def ul_inv_def entries_of_def)
qed

section \<open>The contract of a unique list\<close>

text \<open>
  What the users of a unique list rely on: it is a finite map from names to values, up to a capacity.
\<close>

locale name_map =
  fixes add :: "'s \<Rightarrow> cstr \<Rightarrow> cstr option \<Rightarrow> 's option"
    and lookup :: "'s \<Rightarrow> cstr \<Rightarrow> cstr option option"
    and good :: "'s \<Rightarrow> bool"
    and abs :: "'s \<Rightarrow> cstr \<rightharpoonup> cstr option"
    and size_of :: "'s \<Rightarrow> nat"
    and capacity :: nat
  assumes add_ok: "good s \<Longrightarrow> size_of s < capacity \<Longrightarrow>
      \<exists>s'. add s k v = Some s' \<and> good s' \<and> abs s' = (abs s)(k \<mapsto> v) \<and> size_of s' \<le> Suc (size_of s)"
    and lookup_ok: "good s \<Longrightarrow> size_of s < capacity \<Longrightarrow> lookup s k = abs s k"
begin

fun add_all :: "'s \<Rightarrow> (cstr \<times> cstr option) list \<Rightarrow> 's option" where
  "add_all s [] = Some s"
| "add_all s ((k, v) # kvs) = (case add s k v of None \<Rightarrow> None | Some s' \<Rightarrow> add_all s' kvs)"

lemma add_all_ok:
  "good s \<Longrightarrow> size_of s + length kvs \<le> capacity \<Longrightarrow>
     \<exists>s'. add_all s kvs = Some s' \<and> good s' \<and> abs s' = abs s ++ map_of (rev kvs) \<and> size_of s' \<le> size_of s + length kvs"
proof (induction kvs arbitrary: s)
  case (Cons kv kvs)
  obtain k v where kv: "kv = (k, v)" by (cases kv)
  obtain s1 where s1: "add s k v = Some s1" "good s1" "abs s1 = (abs s)(k \<mapsto> v)" "size_of s1 \<le> Suc (size_of s)"
    using add_ok [of s k v] Cons.prems by auto
  then have "abs s1 ++ map_of (rev kvs) = abs s ++ map_of (rev (kv # kvs))"
    by (auto simp: kv map_add_def fun_eq_iff split: option.split)
  moreover have "size_of s1 + length kvs \<le> capacity" using Cons.prems(2) s1(4) by simp
  from Cons.IH [OF s1(2) this] obtain s' where "add_all s1 kvs = Some s'" "good s'" "abs s' = abs s1 ++ map_of (rev kvs)"
    "size_of s' \<le> size_of s1 + length kvs" by blast
  ultimately show ?case using s1 kv by auto
qed simp

lemma last_value_found:
  assumes "good s" "size_of s + length kvs < capacity"
  shows "\<exists>s'. add_all s kvs = Some s' \<and> (\<forall>k. lookup s' k = (abs s ++ map_of (rev kvs)) k)"
  using add_all_ok [OF assms(1), of kvs] assms(2) lookup_ok by fastforce

end

definition ulist_add :: "udev_list \<Rightarrow> cstr \<Rightarrow> cstr option \<Rightarrow> udev_list option" where
  "ulist_add l k v = map_option snd (udev_list_entry_add True l k v)"

text \<open>A look-up as the callers do it: from the first entry.\<close>

definition ulist_lookup :: "udev_list \<Rightarrow> cstr \<Rightarrow> cstr option option" where
  "ulist_lookup l k =
     do { first \<leftarrow> udev_list_get_entry l;
          found \<leftarrow> udev_list_entry_get_by_name first l k;
          a \<leftarrow> found;
          Some (udev_list_entry_get_value (Some a) l) }"

definition ulist_good :: "udev_list \<Rightarrow> bool" where
  "ulist_good l \<longleftrightarrow> ul_unique l \<and> ul_inv l (entries_of l)"

definition ulist_map :: "udev_list \<Rightarrow> cstr \<rightharpoonup> cstr option" where
  "ulist_map l = map_of (ul_alist l (entries_of l))"

lemma ulist_lookup_ok:
  assumes "ulist_good l" "length (entries_of l) < 2 ^ 31"
  shows "ulist_lookup l k = ulist_map l k"
proof -
  have inv: "ul_inv l (entries_of l)" "ul_unique l" using assms(1) by (simp_all add: ulist_good_def)
  then have r: "ul_ring l (entries_of l)" by (simp add: ul_inv_def)
  show ?thesis
  proof (cases "entries_of l")
    case Nil
    with walk_ok(1) [OF r] show ?thesis
      by (simp add: ulist_lookup_def ulist_map_def ul_alist_def udev_list_entry_get_by_name_def)
  next
    case (Cons a as)
    then obtain found where f: "udev_list_entry_get_by_name (Some a) l k = Some found" "map_option (value_of l) found = ulist_map l k"
      using get_by_name_ok [OF inv assms(2), of k] by (auto simp: ulist_map_def)
    obtain i where "list_search l k = Some i" "search_result (map (name_of l) (entries_of l)) k i" using search_ok [OF inv assms(2)] .
    then have "\<forall>b. found = Some b \<longrightarrow> ul_ents l b \<noteq> None"
      using f(1) inv(2) r by (auto simp: udev_list_entry_get_by_name_def search_result_def ul_ring_def dom_def split: if_splits)
    with f walk_ok(1) [OF r] Cons show ?thesis
      by (cases found) (auto simp: ulist_lookup_def udev_list_entry_get_value_def value_of_def)
  qed
qed

interpretation ulist: name_map ulist_add ulist_lookup ulist_good ulist_map "\<lambda>l. length (entries_of l)" "2 ^ 31"
proof
  fix l k v
  assume a: "ulist_good l" "length (entries_of l) < 2 ^ 31"
  obtain b l' as' where "udev_list_entry_add True l k v = Some (Some b, l')" "ul_inv l' as'" "ul_unique l'"
    "map_of (ul_alist l' as') = (map_of (ul_alist l (entries_of l)))(k \<mapsto> v)" "length as' \<le> Suc (length (entries_of l))"
    using add_unique [of l "entries_of l"] a by (metis ulist_good_def)
  moreover from this(2,3) have "entries_of l' = as'" by (simp add: ul_inv_def)
  ultimately show "\<exists>l'. ulist_add l k v = Some l' \<and> ulist_good l' \<and> ulist_map l' = (ulist_map l)(k \<mapsto> v) \<and>
      length (entries_of l') \<le> Suc (length (entries_of l))"
    by (auto simp: ulist_add_def ulist_good_def ulist_map_def)
qed (rule ulist_lookup_ok)

text \<open>
  C36: A unique list is a finite map that is kept sorted. From any state of the invariant, adding a name gives a state of the
  invariant (the ring is closed in both directions, the array holds the same entries as the ring, sorted by name) in
  which the bisection finds the new value under that name and everything else as before. Deleting an entry takes exactly
  its name out of the map, and \<open>udev_list_cleanup\<close> ends and leaves an empty list.
\<close>

theorem udev_list_refines_map:
  assumes "ul_inv l as" "ul_unique l" "Suc (length as) < 2 ^ 31"
  shows "(\<exists>a l' as'. udev_list_entry_add True l name val = Some (Some a, l') \<and> ul_inv l' as' \<and> ul_unique l' \<and>
      (\<forall>k. ulist_lookup l' k = (if k = name then Some val else ulist_lookup l k))) \<and>
    (\<forall>us b vs. as = us @ b # vs \<longrightarrow>
      (\<exists>l'. udev_list_entry_delete b l = Some l' \<and> ul_inv l' (us @ vs) \<and> ul_unique l' \<and>
        (\<forall>k. ulist_lookup l' k = (if k = name_of l b then None else ulist_lookup l k)))) \<and>
    (\<exists>l'. udev_list_cleanup l = Some l' \<and> ul_inv l' [] \<and> ul_unique l')"
proof (intro conjI allI impI)
  have good: "ul_inv m bs \<Longrightarrow> ul_unique m \<Longrightarrow> length bs < 2 ^ 31 \<Longrightarrow> ulist_lookup m k = map_of (ul_alist m bs) k" for m bs k
    using ulist_lookup_ok [of m k] by (auto simp: ulist_good_def ulist_map_def ul_inv_def)
  obtain a l' as' where "udev_list_entry_add True l name val = Some (Some a, l')" "ul_inv l' as'" "ul_unique l'"
    "map_of (ul_alist l' as') = (map_of (ul_alist l as))(name \<mapsto> val)" "length as' \<le> Suc (length as)"
    using add_unique [OF assms(1,2), of name val] assms(3) by (metis Suc_lessD)
  with good [of l' as'] good [OF assms(1,2)] assms(3)
  show "\<exists>a l' as'. udev_list_entry_add True l name val = Some (Some a, l') \<and> ul_inv l' as' \<and> ul_unique l' \<and>
      (\<forall>k. ulist_lookup l' k = (if k = name then Some val else ulist_lookup l k))"
    by (intro exI [of _ a] exI [of _ l'] exI [of _ as']) auto
  show "\<exists>l'. udev_list_cleanup l = Some l' \<and> ul_inv l' [] \<and> ul_unique l'"
    using cleanup_ok [OF assms(1)] assms(2) by metis
  fix us b vs
  assume as: "as = us @ b # vs"
  then obtain l1 where l1: "udev_list_entry_delete b l = Some l1" "ul_inv l1 (us @ vs)" "ul_unique l1 = ul_unique l"
    "ul_alist l1 (us @ vs) = ul_alist l us @ ul_alist l vs"
    using delete_ok [of l us b vs] assms(1,3) by auto
  have "name_of l b \<notin> fst ` set (ul_alist l us)" "name_of l b \<notin> fst ` set (ul_alist l vs)"
    using unique_names [OF assms(1,2)] by (auto simp: as ul_alist_def)
  then have "map_of (ul_alist l1 (us @ vs)) k = (if k = name_of l b then None else map_of (ul_alist l as) k)" for k
    using alist_remove_map [of "name_of l b" "ul_alist l us" "ul_alist l vs" k "value_of l b"] unfolding l1(4) as ul_alist_append
    by (simp only: set_append image_Un Un_iff) simp
  with l1 good [of l1 "us @ vs"] good [OF assms(1,2)] assms(2,3) as
  show "\<exists>l'. udev_list_entry_delete b l = Some l' \<and> ul_inv l' (us @ vs) \<and> ul_unique l' \<and>
      (\<forall>k. ulist_lookup l' k = (if k = name_of l b then None else ulist_lookup l k))"
    by (intro exI [of _ l1]) auto
qed

theorem udev_list_refines_map_witness:
  "\<exists>a l'. udev_list_entry_add True (udev_list_init True) ''ID'' (Some ''x'') = Some (Some a, l') \<and> ulist_lookup l' ''ID'' = Some (Some ''x'')"
  using udev_list_refines_map [OF ul_inv_init [of True], of "''ID''" "Some ''x''"] by (auto simp: udev_list_init_def)

end
