(* ===== verification/Udev_Utf8.thy ===== *)
theory Udev_Utf8
  imports Vdev_Prelude "HOL-Library.Word"
begin

text \<open>
  \<^verbatim>\<open>libudev-compat/utf8.c\<close>: checking, decoding and encoding of UTF-8, and the escaping of what is not
  printable. Bytes are 8-bit words, code points 32-bit words. A C string is the list of its bytes before the NUL; no function
  reads past the NUL, since it is not a continuation byte.
\<close>

unbundle bit_operations_syntax

section \<open>Bytes\<close>

type_synonym byte = "8 word"

definition bytes_of :: "cstr \<Rightarrow> byte list" where
  "bytes_of s = map of_char s"

section \<open>Code points\<close>

definition is_unicode_valid :: "32 word \<Rightarrow> bool" where
  "is_unicode_valid ch =
     (if ch \<ge> 0x110000 then False
      else if ch AND 0xFFFFF800 = 0xD800 then False
      else if ch \<ge> 0xFDD0 \<and> ch \<le> 0xFDEF then False
      else if ch AND 0xFFFE = 0xFFFE then False
      else True)"

definition is_unicode_control :: "32 word \<Rightarrow> bool" where
  "is_unicode_control ch \<longleftrightarrow> (ch < 0x20 \<and> ch \<noteq> 0x09 \<and> ch \<noteq> 0x0a) \<or> (0x7F \<le> ch \<and> ch \<le> 0x9F)"

section \<open>Decoding\<close>

definition utf8_encoded_expected_len :: "byte \<Rightarrow> nat" where
  "utf8_encoded_expected_len c =
     (if c < 0x80 then 1
      else if c AND 0xe0 = 0xc0 then 2
      else if c AND 0xf0 = 0xe0 then 3
      else if c AND 0xf8 = 0xf0 then 4
      else if c AND 0xfc = 0xf8 then 5
      else if c AND 0xfe = 0xfc then 6
      else 0)"

text \<open>The first byte of a string, which is the NUL if it is empty.\<close>

definition first_byte :: "byte list \<Rightarrow> byte" where
  "first_byte str = (case str of [] \<Rightarrow> 0 | c # _ \<Rightarrow> c)"

text \<open>The continuation bytes; \<open>None\<close> stands for \<open>- EINVAL\<close>.\<close>

fun utf8_continue :: "nat \<Rightarrow> byte list \<Rightarrow> 32 word \<Rightarrow> 32 word option" where
  "utf8_continue 0 str unichar = Some unichar"
| "utf8_continue (Suc n) [] unichar = None"
| "utf8_continue (Suc n) (c # str) unichar =
     (if c AND 0xc0 \<noteq> 0x80 then None
      else utf8_continue n str (push_bit 6 unichar OR ucast (c AND 0x3f)))"

definition utf8_encoded_to_unichar :: "byte list \<Rightarrow> 32 word option" where
  "utf8_encoded_to_unichar str =
     (let c = first_byte str; len = utf8_encoded_expected_len c
      in if len = 1 then Some (ucast c)
         else if len = 2 then utf8_continue 1 (tl str) (ucast (c AND 0x1f))
         else if len = 3 then utf8_continue 2 (tl str) (ucast (c AND 0x0f))
         else if len = 4 then utf8_continue 3 (tl str) (ucast (c AND 0x07))
         else if len = 5 then utf8_continue 4 (tl str) (ucast (c AND 0x03))
         else if len = 6 then utf8_continue 5 (tl str) (ucast (c AND 0x01))
         else None)"

definition utf8_unichar_to_encoded_len :: "32 word \<Rightarrow> nat" where
  "utf8_unichar_to_encoded_len unichar =
     (if unichar < 0x80 then 1
      else if unichar < 0x800 then 2
      else if unichar < 0x10000 then 3
      else if unichar < 0x200000 then 4
      else if unichar < 0x4000000 then 5
      else 6)"

text \<open>
  The length of the valid encoding at the start of a string. A character that cannot be decoded is the negative number \<open>- EINVAL\<close>,
  whose encoded length counts as one.
\<close>

definition utf8_encoded_valid_unichar :: "byte list \<Rightarrow> int" where
  "utf8_encoded_valid_unichar str =
     (let len = utf8_encoded_expected_len (first_byte str)
      in if len = 0 then - EINVAL
         else if len = 1 then 1
         else if \<not> (len \<le> length str \<and> (\<forall>c \<in> set (take len str). c AND 0x80 = 0x80)) then - EINVAL
         else
           (case utf8_encoded_to_unichar str of
              None \<Rightarrow> - EINVAL
            | Some unichar \<Rightarrow>
                if utf8_unichar_to_encoded_len unichar \<noteq> len then - EINVAL
                else if \<not> is_unicode_valid unichar then - EINVAL
                else int len))"

section \<open>Encoding\<close>

definition utf8_encode_unichar :: "32 word \<Rightarrow> byte list" where
  "utf8_encode_unichar g =
     (if g < 0x80 then [ucast (g AND 0x7f)]
      else if g < 0x800 then [0xc0 OR ucast (drop_bit 6 g AND 0x1f), 0x80 OR ucast (g AND 0x3f)]
      else if g < 0x10000 then
        [0xe0 OR ucast (drop_bit 12 g AND 0x0f), 0x80 OR ucast (drop_bit 6 g AND 0x3f), 0x80 OR ucast (g AND 0x3f)]
      else if g < 0x200000 then
        [0xf0 OR ucast (drop_bit 18 g AND 0x07), 0x80 OR ucast (drop_bit 12 g AND 0x3f), 0x80 OR ucast (drop_bit 6 g AND 0x3f),
         0x80 OR ucast (g AND 0x3f)]
      else [])"

section \<open>Strings\<close>

text \<open>A loop over a string goes on by the length of a valid character, or by one byte.\<close>

function utf8_is_valid :: "byte list \<Rightarrow> bool" where
  "utf8_is_valid str =
     (if str = [] then True
      else
        (let len = utf8_encoded_valid_unichar str
         in if len < 0 then False else utf8_is_valid (drop (nat len) str)))"
  by pat_completeness auto

lemma utf8_valid_len: "utf8_encoded_valid_unichar str < 0 \<or> (0 < utf8_encoded_valid_unichar str \<and> (str \<noteq> [] \<longrightarrow> utf8_encoded_valid_unichar str \<le> int (length str)))"
  by (auto simp: utf8_encoded_valid_unichar_def Let_def Suc_le_eq split: option.splits)

termination utf8_is_valid
proof (relation "measure length", goal_cases)
  case (2 str len)
  then show ?case using utf8_valid_len [of str] by auto
qed simp

declare utf8_is_valid.simps [simp del]

definition UTF8_REPLACEMENT_CHARACTER :: "byte list" where
  "UTF8_REPLACEMENT_CHARACTER = [0xef, 0xbf, 0xbd]"

function utf8_is_printable_newline :: "byte list \<Rightarrow> nat \<Rightarrow> bool \<Rightarrow> bool" where
  "utf8_is_printable_newline str len newline =
     (if len = 0 then True
      else
        (let encoded_len = utf8_encoded_valid_unichar str
         in if encoded_len < 0 \<or> encoded_len > int len then False
            else
              (case utf8_encoded_to_unichar str of
                 None \<Rightarrow> False
               | Some val \<Rightarrow>
                   if is_unicode_control val \<or> (\<not> newline \<and> val = 0x0a) then False
                   else utf8_is_printable_newline (drop (nat encoded_len) str) (len - nat encoded_len) newline)))"
  by pat_completeness auto
termination
proof (relation "measure (\<lambda>(str, len, newline). len)", goal_cases)
  case (2 str len newline encoded_len val)
  then show ?case using utf8_valid_len [of str] by auto
qed simp

declare utf8_is_printable_newline.simps [simp del]

function utf8_escape_invalid :: "byte list \<Rightarrow> byte list" where
  "utf8_escape_invalid str =
     (if str = [] then []
      else
        (let len = utf8_encoded_valid_unichar str
         in if len > 0 then take (nat len) str @ utf8_escape_invalid (drop (nat len) str)
            else UTF8_REPLACEMENT_CHARACTER @ utf8_escape_invalid (tl str)))"
  by pat_completeness auto
termination
proof (relation "measure length", goal_cases)
  case (2 str len)
  then show ?case by auto
next
  case (3 str len)
  then show ?case by (cases str) auto
qed simp

declare utf8_escape_invalid.simps [simp del]

text \<open>\<open>hexchar\<close> of \<^verbatim>\<open>util.c\<close>; the byte is extended with its sign, of which the mask keeps nothing.\<close>

definition hexchar :: "byte \<Rightarrow> byte" where
  "hexchar x = bytes_of ''0123456789abcdef'' ! unat (x AND 15)"

definition hex_escape :: "byte \<Rightarrow> byte list" where
  "hex_escape c = bytes_of [CHR 0x5c, CHR ''x''] @ [hexchar (drop_bit 4 c), hexchar c]"

function utf8_escape_non_printable :: "byte list \<Rightarrow> byte list" where
  "utf8_escape_non_printable str =
     (if str = [] then []
      else
        (let len = utf8_encoded_valid_unichar str
         in if len > 0 then
              (if utf8_is_printable_newline str (nat len) True then take (nat len) str else concat (map hex_escape (take (nat len) str))) @
              utf8_escape_non_printable (drop (nat len) str)
            else UTF8_REPLACEMENT_CHARACTER @ utf8_escape_non_printable (tl str)))"
  by pat_completeness auto
termination
proof (relation "measure length", goal_cases)
  case (2 str len)
  then show ?case by auto
next
  case (3 str len)
  then show ?case by (cases str) auto
qed simp

declare utf8_escape_non_printable.simps [simp del]

definition ascii_is_valid :: "byte list \<Rightarrow> bool" where
  "ascii_is_valid str \<longleftrightarrow> (\<forall>c \<in> set str. \<not> c \<ge> 128)"

section \<open>UTF-16\<close>

definition utf16_is_surrogate :: "16 word \<Rightarrow> bool" where
  "utf16_is_surrogate c \<longleftrightarrow> 0xd800 \<le> c \<and> c \<le> 0xdfff"

definition utf16_is_trailing_surrogate :: "16 word \<Rightarrow> bool" where
  "utf16_is_trailing_surrogate c \<longleftrightarrow> 0xdc00 \<le> c \<and> c \<le> 0xdfff"

definition utf16_surrogate_pair_to_unichar :: "16 word \<Rightarrow> 16 word \<Rightarrow> 32 word" where
  "utf16_surrogate_pair_to_unichar lead trail = push_bit 10 (ucast lead - 0xd800) + (ucast trail - 0xdc00) + 0x10000"

text \<open>The units of a little-endian buffer; \<open>None\<close> is the read past the end of a buffer of odd length.\<close>

function utf16_to_utf8 :: "byte list \<Rightarrow> byte list option" where
  "utf16_to_utf8 [] = Some []"
| "utf16_to_utf8 [a] = None"
| "utf16_to_utf8 (a # b # f) =
     (let w1 = push_bit 8 (ucast b) OR (ucast a :: 16 word)
      in if \<not> utf16_is_surrogate w1 then map_option ((@) (utf8_encode_unichar (ucast w1))) (utf16_to_utf8 f)
         else if utf16_is_trailing_surrogate w1 then utf16_to_utf8 f
         else
           (case f of
              [] \<Rightarrow> Some []
            | [c] \<Rightarrow> None
            | c # d # f' \<Rightarrow>
                (let w2 = push_bit 8 (ucast d) OR (ucast c :: 16 word)
                 in if \<not> utf16_is_trailing_surrogate w2 then utf16_to_utf8 f
                    else map_option ((@) (utf8_encode_unichar (utf16_surrogate_pair_to_unichar w1 w2))) (utf16_to_utf8 f'))))"
  by pat_completeness auto
termination by (relation "measure length") auto

section \<open>Bits of the constants\<close>

lemma bit_low:
  "bit (0x3f :: 'a::len word) n \<longleftrightarrow> n < 6 \<and> n < LENGTH('a)" "bit (0x1f :: 'a word) n \<longleftrightarrow> n < 5 \<and> n < LENGTH('a)"
  "bit (0x0f :: 'a word) n \<longleftrightarrow> n < 4 \<and> n < LENGTH('a)" "bit (0x07 :: 'a word) n \<longleftrightarrow> n < 3 \<and> n < LENGTH('a)"
  "bit (0x7f :: 'a word) n \<longleftrightarrow> n < 7 \<and> n < LENGTH('a)"
proof -
  have m: "(0x3f :: 'a word) = mask 6" "(0x1f :: 'a word) = mask 5" "(0x0f :: 'a word) = mask 4" "(0x07 :: 'a word) = mask 3" "(0x7f :: 'a word) = mask 7"
    by (simp_all add: mask_numeral)
  show "bit (0x3f :: 'a::len word) n \<longleftrightarrow> n < 6 \<and> n < LENGTH('a)" "bit (0x1f :: 'a word) n \<longleftrightarrow> n < 5 \<and> n < LENGTH('a)"
    "bit (0x0f :: 'a word) n \<longleftrightarrow> n < 4 \<and> n < LENGTH('a)" "bit (0x07 :: 'a word) n \<longleftrightarrow> n < 3 \<and> n < LENGTH('a)"
    "bit (0x7f :: 'a word) n \<longleftrightarrow> n < 7 \<and> n < LENGTH('a)"
    unfolding m bit_mask_iff by auto
qed

lemma bit_lead:
  "bit (0x80 :: byte) n \<longleftrightarrow> n = 7" "bit (0xc0 :: byte) n \<longleftrightarrow> 6 \<le> n \<and> n < 8" "bit (0xe0 :: byte) n \<longleftrightarrow> 5 \<le> n \<and> n < 8"
  "bit (0xf0 :: byte) n \<longleftrightarrow> 4 \<le> n \<and> n < 8" "bit (0xf8 :: byte) n \<longleftrightarrow> 3 \<le> n \<and> n < 8"
proof -
  have m: "(0x80 :: byte) = 2 ^ 7" "(0xc0 :: byte) = push_bit 6 (mask 2)" "(0xe0 :: byte) = push_bit 5 (mask 3)"
    "(0xf0 :: byte) = push_bit 4 (mask 4)" "(0xf8 :: byte) = push_bit 3 (mask 5)"
    by (simp_all add: mask_numeral)
  show "bit (0x80 :: byte) n \<longleftrightarrow> n = 7" "bit (0xc0 :: byte) n \<longleftrightarrow> 6 \<le> n \<and> n < 8" "bit (0xe0 :: byte) n \<longleftrightarrow> 5 \<le> n \<and> n < 8"
    "bit (0xf0 :: byte) n \<longleftrightarrow> 4 \<le> n \<and> n < 8" "bit (0xf8 :: byte) n \<longleftrightarrow> 3 \<le> n \<and> n < 8"
    unfolding m by (auto simp: bit_push_bit_iff bit_mask_iff bit_exp_iff simp del: semiring_norm power_numeral)
qed


lemma word_less_exp_iff:
  assumes "k < LENGTH('a)"
  shows "(g :: 'a::len word) < 2 ^ k \<longleftrightarrow> (\<forall>n. bit g n \<longrightarrow> n < k)"
proof -
  have "unat (2 ^ k :: 'a word) = 2 ^ k" using unat_of_nat [of "2 ^ k", where ?'a = 'a] assms by simp
  then have u: "g < 2 ^ k \<longleftrightarrow> unat g < 2 ^ k" by (simp add: word_less_nat_alt)
  have "unat g < 2 ^ k \<longleftrightarrow> take_bit k (unat g) = unat g" by (metis take_bit_nat_eq_self take_bit_nat_less_exp)
  also have "\<dots> \<longleftrightarrow> (\<forall>n. bit (unat g) n \<longrightarrow> n < k)" by (auto simp: bit_eq_iff bit_take_bit_iff)
  also have "\<dots> \<longleftrightarrow> (\<forall>n. bit g n \<longrightarrow> n < k)" by (auto simp: bit_unsigned_iff dest: bit_imp_le_length)
  finally show ?thesis using u by simp
qed

lemmas less_bits =
  word_less_exp_iff [of 7, where ?'a = 32, simplified] word_less_exp_iff [of 11, where ?'a = 32, simplified]
  word_less_exp_iff [of 16, where ?'a = 32, simplified] word_less_exp_iff [of 21, where ?'a = 32, simplified]
  word_less_exp_iff [of 7, where ?'a = 8, simplified]

lemmas utf8_bits = bit_or_iff bit_and_iff bit_low bit_lead bit_unsigned_iff bit_push_bit_iff bit_drop_bit_eq

lemma lead_len:
  "utf8_encoded_expected_len (0xc0 OR ucast (y AND 0x1f)) = 2"
  "utf8_encoded_expected_len (0xe0 OR ucast (y AND 0x0f)) = 3"
  "utf8_encoded_expected_len (0xf0 OR ucast (y AND 0x07)) = 4" for y :: "32 word"
proof -
  let ?c2 = "0xc0 OR ucast (y AND 0x1f) :: byte" and ?c3 = "0xe0 OR ucast (y AND 0x0f) :: byte" and ?c4 = "0xf0 OR ucast (y AND 0x07) :: byte"
  have b: "bit ?c2 7" "bit ?c3 7" "bit ?c4 7" "bit (?c3 AND 0xe0) 5" "bit (?c4 AND 0xe0) 5" "\<not> bit (0xc0 :: byte) 5" "bit (?c4 AND 0xf0) 4" "\<not> bit (0xe0 :: byte) 4"
    unfolding utf8_bits by simp_all
  have lt: "\<not> ?c2 < 0x80" "\<not> ?c3 < 0x80" "\<not> ?c4 < 0x80" unfolding less_bits using b(1-3) by blast+
  have "?c2 AND 0xe0 = 0xc0" "?c3 AND 0xf0 = 0xe0" "?c4 AND 0xf8 = 0xf0" by (rule bit_word_eqI, unfold utf8_bits, auto)+
  moreover have "?c3 AND 0xe0 \<noteq> 0xc0" "?c4 AND 0xe0 \<noteq> 0xc0" "?c4 AND 0xf0 \<noteq> 0xe0" using b by metis+
  ultimately show "utf8_encoded_expected_len ?c2 = 2" "utf8_encoded_expected_len ?c3 = 3" "utf8_encoded_expected_len ?c4 = 4"
    using lt by (simp_all add: utf8_encoded_expected_len_def)
qed

lemma continuation_byte:
  "(0x80 OR ucast (y AND 0x3f) :: byte) AND 0xc0 = 0x80" "(0x80 OR ucast (y AND 0x3f) :: byte) AND 0x80 = 0x80"
  "ucast ((0x80 OR ucast (y AND 0x3f) :: byte) AND 0x3f) = y AND 0x3f" for y :: "32 word"
  by (rule bit_word_eqI, unfold utf8_bits, auto)+

lemma lead_byte:
  "ucast ((0xc0 OR ucast (y AND 0x1f) :: byte) AND 0x1f) = y AND 0x1f"
  "ucast ((0xe0 OR ucast (y AND 0x0f) :: byte) AND 0x0f) = y AND 0x0f"
  "ucast ((0xf0 OR ucast (y AND 0x07) :: byte) AND 0x07) = y AND 0x07" for y :: "32 word"
  by (rule bit_word_eqI, unfold utf8_bits, auto)+

lemma assemble:
  "g < 0x80 \<Longrightarrow> g AND 0x7f = g"
  "g < 0x800 \<Longrightarrow> push_bit 6 (drop_bit 6 g AND 0x1f) OR (g AND 0x3f) = g"
  "g < 0x10000 \<Longrightarrow> push_bit 6 (push_bit 6 (drop_bit 12 g AND 0x0f) OR (drop_bit 6 g AND 0x3f)) OR (g AND 0x3f) = g"
  "g < 0x200000 \<Longrightarrow> push_bit 6 (push_bit 6 (push_bit 6 (drop_bit 18 g AND 0x07) OR (drop_bit 12 g AND 0x3f)) OR (drop_bit 6 g AND 0x3f)) OR (g AND 0x3f) = g"
  for g :: "32 word"
  unfolding less_bits by (rule bit_word_eqI, unfold utf8_bits, (auto dest: spec)[])+

section \<open>Encoding and decoding\<close>

lemma lead_high:
  "(0xc0 OR x :: byte) AND 0x80 = 0x80" "(0xe0 OR x :: byte) AND 0x80 = 0x80" "(0xf0 OR x :: byte) AND 0x80 = 0x80"
  by (rule bit_word_eqI, unfold utf8_bits, auto)+

lemma ascii_byte:
  assumes "g < 0x80"
  shows "(ucast (g AND 0x7f) :: byte) < 0x80" "ucast (ucast (g AND 0x7f) :: byte) = (g :: 32 word)"
proof -
  show "(ucast (g AND 0x7f) :: byte) < 0x80" unfolding less_bits utf8_bits by auto
  show "ucast (ucast (g AND 0x7f) :: byte) = g"
    using assms unfolding less_bits by (intro bit_word_eqI, unfold utf8_bits, auto)
qed

lemma valid_range: "is_unicode_valid g \<Longrightarrow> g < 0x200000"
  by (auto simp: is_unicode_valid_def not_le intro: order_less_trans split: if_splits)

lemma decode_steps:
  "utf8_encoded_expected_len a = 2 \<Longrightarrow> utf8_encoded_to_unichar (a # str) = utf8_continue 1 str (ucast (a AND 0x1f))"
  "utf8_encoded_expected_len a = 3 \<Longrightarrow> utf8_encoded_to_unichar (a # str) = utf8_continue 2 str (ucast (a AND 0x0f))"
  "utf8_encoded_expected_len a = 4 \<Longrightarrow> utf8_encoded_to_unichar (a # str) = utf8_continue 3 str (ucast (a AND 0x07))"
  by (simp_all add: utf8_encoded_to_unichar_def first_byte_def Let_def)

lemma continue_step:
  "utf8_continue (Suc n) ((0x80 OR ucast (y AND 0x3f)) # str) u = utf8_continue n str (push_bit 6 u OR (y AND 0x3f))" for y :: "32 word"
  using continuation_byte [of y] by simp

lemma accepted:
  assumes "utf8_encoded_expected_len (hd str) = n" "1 < n" "n \<le> length str" "\<forall>c \<in> set (take n str). c AND 0x80 = 0x80"
    and "utf8_encoded_to_unichar str = Some g" "utf8_unichar_to_encoded_len g = n" "is_unicode_valid g"
  shows "utf8_encoded_valid_unichar str = int n"
  using assms by (cases str) (auto simp: utf8_encoded_valid_unichar_def first_byte_def Let_def)

lemma decode_encode:
  assumes "is_unicode_valid g"
  shows "utf8_encoded_valid_unichar (utf8_encode_unichar g @ str) = int (length (utf8_encode_unichar g)) \<and>
    utf8_encoded_to_unichar (utf8_encode_unichar g @ str) = Some g"
proof -
  consider "g < 0x80" | "\<not> g < 0x80" "g < 0x800" | "\<not> g < 0x80" "\<not> g < 0x800" "g < 0x10000" | "\<not> g < 0x80" "\<not> g < 0x800" "\<not> g < 0x10000" "g < 0x200000"
    using valid_range [OF assms] by blast
  then show ?thesis
  proof cases
    case 1
    then show ?thesis
      using ascii_byte [OF 1] by (simp add: utf8_encode_unichar_def utf8_encoded_valid_unichar_def utf8_encoded_to_unichar_def first_byte_def utf8_encoded_expected_len_def)
  next
    case 2
    then have e: "utf8_encode_unichar g = [0xc0 OR ucast (drop_bit 6 g AND 0x1f), 0x80 OR ucast (g AND 0x3f)]"
      by (simp add: utf8_encode_unichar_def)
    have d: "utf8_encoded_to_unichar (utf8_encode_unichar g @ str) = Some g"
      unfolding e by (simp only: append.simps decode_steps(1) [OF lead_len(1)] One_nat_def continue_step utf8_continue.simps(1) lead_byte assemble(2) [OF 2(2)])
    have "utf8_encoded_valid_unichar (utf8_encode_unichar g @ str) = int 2"
      by (rule accepted [OF _ _ _ _ d _ assms]) (use 2 in \<open>simp_all add: e lead_len utf8_unichar_to_encoded_len_def numeral_2_eq_2 lead_high continuation_byte\<close>)
    with d e show ?thesis by simp
  next
    case 3
    then have e: "utf8_encode_unichar g = [0xe0 OR ucast (drop_bit 12 g AND 0x0f), 0x80 OR ucast (drop_bit 6 g AND 0x3f), 0x80 OR ucast (g AND 0x3f)]"
      by (simp add: utf8_encode_unichar_def)
    have d: "utf8_encoded_to_unichar (utf8_encode_unichar g @ str) = Some g"
      unfolding e by (simp only: append.simps decode_steps(2) [OF lead_len(2)] numeral_2_eq_2 continue_step utf8_continue.simps(1) lead_byte assemble(3) [OF 3(3)])
    have "utf8_encoded_valid_unichar (utf8_encode_unichar g @ str) = int 3"
      by (rule accepted [OF _ _ _ _ d _ assms]) (use 3 in \<open>simp_all add: e lead_len utf8_unichar_to_encoded_len_def numeral_3_eq_3 lead_high continuation_byte\<close>)
    with d e show ?thesis by simp
  next
    case 4
    then have e: "utf8_encode_unichar g = [0xf0 OR ucast (drop_bit 18 g AND 0x07), 0x80 OR ucast (drop_bit 12 g AND 0x3f),
        0x80 OR ucast (drop_bit 6 g AND 0x3f), 0x80 OR ucast (g AND 0x3f)]"
      by (simp add: utf8_encode_unichar_def)
    have d: "utf8_encoded_to_unichar (utf8_encode_unichar g @ str) = Some g"
      unfolding e by (simp only: append.simps decode_steps(3) [OF lead_len(3)] numeral_3_eq_3 continue_step utf8_continue.simps(1) lead_byte assemble(4) [OF 4(4)])
    have "utf8_encoded_valid_unichar (utf8_encode_unichar g @ str) = int 4"
      by (rule accepted [OF _ _ _ _ d _ assms]) (use 4 in \<open>simp_all add: e lead_len utf8_unichar_to_encoded_len_def numeral_eq_Suc lead_high continuation_byte\<close>)
    with d e show ?thesis by simp
  qed
qed

text \<open>Conversely, a sequence of more than one byte that is accepted is the encoding of a valid code point.\<close>

lemma masked_bits:
  "(c :: byte) AND 0xe0 = 0xc0 \<Longrightarrow> bit c n = (6 \<le> n \<and> n < 8 \<or> n < 5 \<and> bit c n)"
  "(c :: byte) AND 0xf0 = 0xe0 \<Longrightarrow> bit c n = (5 \<le> n \<and> n < 8 \<or> n < 4 \<and> bit c n)"
  "(c :: byte) AND 0xf8 = 0xf0 \<Longrightarrow> bit c n = (4 \<le> n \<and> n < 8 \<or> n < 3 \<and> bit c n)"
  "(c :: byte) AND 0xc0 = 0x80 \<Longrightarrow> bit c n = (n = 7 \<or> n < 6 \<and> bit c n)"
proof -
  have l: "bit c n \<Longrightarrow> n < 8" using bit_imp_le_length [of c n] by simp
  {
    fix m v :: byte
    assume "c AND m = v"
    then have "(bit c n \<and> bit m n) = bit v n" by (metis bit_and_iff)
  } note b = this
  show "c AND 0xe0 = 0xc0 \<Longrightarrow> bit c n = (6 \<le> n \<and> n < 8 \<or> n < 5 \<and> bit c n)"
    using b [of "0xe0" "0xc0"] l unfolding bit_lead by auto
  show "c AND 0xf0 = 0xe0 \<Longrightarrow> bit c n = (5 \<le> n \<and> n < 8 \<or> n < 4 \<and> bit c n)"
    using b [of "0xf0" "0xe0"] l unfolding bit_lead by auto
  show "c AND 0xf8 = 0xf0 \<Longrightarrow> bit c n = (4 \<le> n \<and> n < 8 \<or> n < 3 \<and> bit c n)"
    using b [of "0xf8" "0xf0"] l unfolding bit_lead by auto
  show "c AND 0xc0 = 0x80 \<Longrightarrow> bit c n = (n = 7 \<or> n < 6 \<and> bit c n)"
    using b [of "0xc0" "0x80"] l unfolding bit_lead by auto
qed

lemma reassemble2:
  fixes a b :: byte and g :: "32 word"
  assumes "a AND 0xe0 = 0xc0" "b AND 0xc0 = 0x80" "g = push_bit 6 (ucast (a AND 0x1f)) OR ucast (b AND 0x3f)"
  shows "0xc0 OR ucast (drop_bit 6 g AND 0x1f) = a" "0x80 OR ucast (g AND 0x3f) = b"
  unfolding assms(3)
  subgoal by (rule bit_word_eqI, subst masked_bits(1) [OF assms(1)], unfold utf8_bits, auto)
  subgoal by (rule bit_word_eqI, subst masked_bits(4) [OF assms(2)], unfold utf8_bits, auto)
  done

lemma reassemble3:
  fixes a b c :: byte and g :: "32 word"
  assumes "a AND 0xf0 = 0xe0" "b AND 0xc0 = 0x80" "c AND 0xc0 = 0x80"
    and "g = push_bit 6 (push_bit 6 (ucast (a AND 0x0f)) OR ucast (b AND 0x3f)) OR ucast (c AND 0x3f)"
  shows "0xe0 OR ucast (drop_bit 12 g AND 0x0f) = a" "0x80 OR ucast (drop_bit 6 g AND 0x3f) = b" "0x80 OR ucast (g AND 0x3f) = c"
  unfolding assms(4)
  subgoal by (rule bit_word_eqI, subst masked_bits(2) [OF assms(1)], unfold utf8_bits, auto)
  subgoal by (rule bit_word_eqI, subst masked_bits(4) [OF assms(2)], unfold utf8_bits, auto)
  subgoal by (rule bit_word_eqI, subst masked_bits(4) [OF assms(3)], unfold utf8_bits, auto)
  done

lemma reassemble4:
  fixes a b c d :: byte and g :: "32 word"
  assumes "a AND 0xf8 = 0xf0" "b AND 0xc0 = 0x80" "c AND 0xc0 = 0x80" "d AND 0xc0 = 0x80"
    and "g = push_bit 6 (push_bit 6 (push_bit 6 (ucast (a AND 0x07)) OR ucast (b AND 0x3f)) OR ucast (c AND 0x3f)) OR ucast (d AND 0x3f)"
  shows "0xf0 OR ucast (drop_bit 18 g AND 0x07) = a" "0x80 OR ucast (drop_bit 12 g AND 0x3f) = b" "0x80 OR ucast (drop_bit 6 g AND 0x3f) = c"
    "0x80 OR ucast (g AND 0x3f) = d"
  unfolding assms(5)
  subgoal by (rule bit_word_eqI, subst masked_bits(3) [OF assms(1)], unfold utf8_bits, auto)
  subgoal by (rule bit_word_eqI, subst masked_bits(4) [OF assms(2)], unfold utf8_bits, auto)
  subgoal by (rule bit_word_eqI, subst masked_bits(4) [OF assms(3)], unfold utf8_bits, auto)
  subgoal by (rule bit_word_eqI, subst masked_bits(4) [OF assms(4)], unfold utf8_bits, auto)
  done

lemma continue_Suc: "utf8_continue (Suc n) str u = Some g \<longleftrightarrow>
    (\<exists>c str'. str = c # str' \<and> c AND 0xc0 = 0x80 \<and> utf8_continue n str' (push_bit 6 u OR ucast (c AND 0x3f)) = Some g)"
  by (cases str) auto

lemma expected_len_mask:
  "utf8_encoded_expected_len c = 2 \<Longrightarrow> c AND 0xe0 = 0xc0" "utf8_encoded_expected_len c = 3 \<Longrightarrow> c AND 0xf0 = 0xe0"
  "utf8_encoded_expected_len c = 4 \<Longrightarrow> c AND 0xf8 = 0xf0"
  by (simp_all add: utf8_encoded_expected_len_def split: if_splits)

lemma encode_by_len:
  "utf8_unichar_to_encoded_len g = 2 \<Longrightarrow> utf8_encode_unichar g = [0xc0 OR ucast (drop_bit 6 g AND 0x1f), 0x80 OR ucast (g AND 0x3f)]"
  "utf8_unichar_to_encoded_len g = 3 \<Longrightarrow> utf8_encode_unichar g =
     [0xe0 OR ucast (drop_bit 12 g AND 0x0f), 0x80 OR ucast (drop_bit 6 g AND 0x3f), 0x80 OR ucast (g AND 0x3f)]"
  "utf8_unichar_to_encoded_len g = 4 \<Longrightarrow> utf8_encode_unichar g =
     [0xf0 OR ucast (drop_bit 18 g AND 0x07), 0x80 OR ucast (drop_bit 12 g AND 0x3f), 0x80 OR ucast (drop_bit 6 g AND 0x3f), 0x80 OR ucast (g AND 0x3f)]"
  by (simp_all add: utf8_unichar_to_encoded_len_def utf8_encode_unichar_def split: if_splits)

lemma valid_is_encoding:
  assumes "utf8_encoded_valid_unichar str = int n" "1 < n"
  obtains g where "is_unicode_valid g" "utf8_encoded_to_unichar str = Some g" "take n str = utf8_encode_unichar g"
proof -
  obtain g where g: "utf8_encoded_to_unichar str = Some g" "utf8_unichar_to_encoded_len g = n" "is_unicode_valid g"
    "utf8_encoded_expected_len (first_byte str) = n" "n \<le> length str"
    using assms by (auto simp: utf8_encoded_valid_unichar_def Let_def split: if_splits option.splits)
  obtain a s where s: "str = a # s" using g(5) assms(2) by (cases str) auto
  have a: "utf8_encoded_expected_len a = n" using g(4) by (simp add: s first_byte_def)
  have "n \<le> 4" using g(2) valid_range [OF g(3)] by (auto simp: utf8_unichar_to_encoded_len_def split: if_splits)
  then consider "n = 2" | "n = 3" | "n = 4" using assms(2) by linarith
  then have "take n str = utf8_encode_unichar g"
  proof cases
    case 1
    with g(1) a obtain b s' where "s = b # s'" "b AND 0xc0 = 0x80" "g = push_bit 6 (ucast (a AND 0x1f)) OR ucast (b AND 0x3f)"
      by (auto simp: s decode_steps(1) continue_Suc simp del: utf8_continue.simps(2,3))
    with reassemble2 [OF expected_len_mask(1) this(2,3)] encode_by_len(1) g(2) a 1 s show ?thesis by simp
  next
    case 2
    with g(1) a obtain b c s' where "s = b # c # s'" "b AND 0xc0 = 0x80" "c AND 0xc0 = 0x80"
      "g = push_bit 6 (push_bit 6 (ucast (a AND 0x0f)) OR ucast (b AND 0x3f)) OR ucast (c AND 0x3f)"
      by (auto simp: s decode_steps(2) continue_Suc numeral_2_eq_2 simp del: utf8_continue.simps(2,3) push_bit_or)
    with reassemble3 [OF expected_len_mask(2) this(2-4)] encode_by_len(2) g(2) a 2 s show ?thesis by simp
  next
    case 3
    with g(1) a obtain b c d s' where "s = b # c # d # s'" "b AND 0xc0 = 0x80" "c AND 0xc0 = 0x80" "d AND 0xc0 = 0x80"
      "g = push_bit 6 (push_bit 6 (push_bit 6 (ucast (a AND 0x07)) OR ucast (b AND 0x3f)) OR ucast (c AND 0x3f)) OR ucast (d AND 0x3f)"
      by (auto simp: s decode_steps(3) continue_Suc numeral_3_eq_3 simp del: utf8_continue.simps(2,3) push_bit_or)
    with reassemble4 [OF expected_len_mask(3) this(2-5)] encode_by_len(3) g(2) a 3 s show ?thesis by simp
  qed
  with g show thesis by (intro that)
qed

text \<open>
  C38: The decoder accepts exactly the encodings of valid code points. The encoding of a valid code point, followed by anything, is
  accepted with its length and decoded to that code point; and every accepted sequence of more than one byte is the encoding of the
  valid code point that it is decoded to, so no overlong form and no surrogate gets through.
\<close>

theorem utf8_roundtrip:
  "(is_unicode_valid g \<longrightarrow>
      utf8_encoded_valid_unichar (utf8_encode_unichar g @ str) = int (length (utf8_encode_unichar g)) \<and>
      utf8_encoded_to_unichar (utf8_encode_unichar g @ str) = Some g) \<and>
   (utf8_encoded_valid_unichar str = int n \<and> 1 < n \<longrightarrow>
      (\<exists>h. is_unicode_valid h \<and> utf8_encoded_to_unichar str = Some h \<and> take n str = utf8_encode_unichar h))"
  using decode_encode [of g str] valid_is_encoding [of str n] by metis

theorem utf8_roundtrip_witness:
  "utf8_encoded_to_unichar (utf8_encode_unichar 0x20ac @ [0x41]) = Some 0x20ac \<and> utf8_encode_unichar 0x20ac = [0xe2, 0x82, 0xac] \<and>
   (\<exists>h. is_unicode_valid h \<and> take 3 [0xe2, 0x82, 0xac, 0x41] = utf8_encode_unichar h)"
proof -
  have v: "is_unicode_valid 0x20ac" by (simp add: is_unicode_valid_def)
  have e: "utf8_encode_unichar 0x20ac = [0xe2, 0x82, 0xac]" by (simp add: utf8_encode_unichar_def)
  have r: "utf8_encoded_valid_unichar ([0xe2, 0x82, 0xac] @ [0x41]) = int 3 \<and> utf8_encoded_to_unichar ([0xe2, 0x82, 0xac] @ [0x41]) = Some 0x20ac"
    using utf8_roundtrip [of "0x20ac" "[0x41]" 3] v e by simp
  moreover have "(1 :: nat) < 3" by simp
  ultimately have "\<exists>h. is_unicode_valid h \<and> take 3 ([0xe2, 0x82, 0xac] @ [0x41]) = utf8_encode_unichar h"
    using utf8_roundtrip [of "0x20ac" "[0xe2, 0x82, 0xac] @ [0x41]" 3, THEN conjunct2] by blast
  with r e show ?thesis by simp
qed

section \<open>Strings\<close>

lemma valid_prefix:
  assumes "utf8_encoded_valid_unichar str = int n" "0 < n" "str \<noteq> []"
  shows "utf8_encoded_valid_unichar (take n str @ rest) = int n" "utf8_encoded_to_unichar (take n str @ rest) = utf8_encoded_to_unichar str"
proof -
  have "utf8_encoded_valid_unichar (take n str @ rest) = int n \<and> utf8_encoded_to_unichar (take n str @ rest) = utf8_encoded_to_unichar str"
  proof (cases "n = 1")
    case True
    with assms have "utf8_encoded_expected_len (first_byte str) = 1"
      by (auto simp: utf8_encoded_valid_unichar_def Let_def split: if_splits option.splits)
    with assms(3) True show ?thesis
      by (cases str) (simp_all add: utf8_encoded_valid_unichar_def utf8_encoded_to_unichar_def first_byte_def)
  next
    case False
    with assms(2) have "1 < n" by simp
    from valid_is_encoding [OF assms(1) this] obtain g where
      g: "is_unicode_valid g" "utf8_encoded_to_unichar str = Some g" "take n str = utf8_encode_unichar g" .
    have "n \<le> length str" using utf8_valid_len [of str] assms by auto
    then have "length (utf8_encode_unichar g) = n" by (simp flip: g(3))
    with decode_encode [OF g(1), of rest] g(2,3) show ?thesis by simp
  qed
  then show "utf8_encoded_valid_unichar (take n str @ rest) = int n" "utf8_encoded_to_unichar (take n str @ rest) = utf8_encoded_to_unichar str"
    by auto
qed

lemma replacement_valid:
  "utf8_encoded_valid_unichar (UTF8_REPLACEMENT_CHARACTER @ str) = 3" "utf8_encoded_to_unichar (UTF8_REPLACEMENT_CHARACTER @ str) = Some 0xfffd"
proof -
  have "is_unicode_valid 0xfffd" "utf8_encode_unichar 0xfffd = UTF8_REPLACEMENT_CHARACTER"
    by (simp_all add: is_unicode_valid_def utf8_encode_unichar_def UTF8_REPLACEMENT_CHARACTER_def)
  with decode_encode [of "0xfffd" str] show "utf8_encoded_valid_unichar (UTF8_REPLACEMENT_CHARACTER @ str) = 3"
    "utf8_encoded_to_unichar (UTF8_REPLACEMENT_CHARACTER @ str) = Some 0xfffd" by (simp_all add: UTF8_REPLACEMENT_CHARACTER_def)
qed

lemma is_valid_step:
  "x \<noteq> [] \<Longrightarrow> utf8_encoded_valid_unichar (x @ str) = int (length x) \<Longrightarrow> utf8_is_valid (x @ str) = utf8_is_valid str"
  by (subst utf8_is_valid.simps) simp

text \<open>Replacing what is not valid gives a valid string, changes nothing in a valid one, and fits the buffer of \<open>4 * strlen + 1\<close>.\<close>

lemma escape_invalid_ok:
  "utf8_is_valid (utf8_escape_invalid str)" "utf8_is_valid str \<Longrightarrow> utf8_escape_invalid str = str"
  "length (utf8_escape_invalid str) \<le> 4 * length str"
proof (induction str rule: utf8_escape_invalid.induct)
  case (1 str)
  let ?len = "utf8_encoded_valid_unichar str"
  consider "str = []" | "str \<noteq> []" "?len > 0" | c s where "str = c # s" "?len < 0"
    using utf8_valid_len [of str] by (cases str) auto
  then have "utf8_is_valid (utf8_escape_invalid str) \<and> (utf8_is_valid str \<longrightarrow> utf8_escape_invalid str = str) \<and>
      length (utf8_escape_invalid str) \<le> 4 * length str"
  proof cases
    case 1
    then show ?thesis by (simp add: utf8_escape_invalid.simps [of "[]"] utf8_is_valid.simps [of "[]"])
  next
    case 2
    let ?n = "nat ?len" and ?r = "drop (nat ?len) str"
    have n: "?len = int ?n" "0 < ?n" "?n \<le> length str" using 2 utf8_valid_len [of str] by auto
    note ih = "1.IH"(1-3) [OF 2(1) refl 2(2)]
    have e: "utf8_escape_invalid str = take ?n str @ utf8_escape_invalid ?r" using 2 by (subst utf8_escape_invalid.simps) (simp add: Let_def)
    have "utf8_is_valid (take ?n str @ utf8_escape_invalid ?r)"
      using ih(1) n valid_prefix(1) [OF n(1,2) 2(1)] 2(1) by (subst is_valid_step) simp_all
    moreover have "utf8_is_valid str = utf8_is_valid ?r" using 2 by (subst utf8_is_valid.simps) simp
    ultimately show ?thesis using ih(2,3) n by (auto simp: e)
  next
    case (3 c s)
    have e: "utf8_escape_invalid str = UTF8_REPLACEMENT_CHARACTER @ utf8_escape_invalid s" using 3 by (subst utf8_escape_invalid.simps) (simp add: Let_def)
    have "utf8_is_valid (utf8_escape_invalid s)" "length (utf8_escape_invalid s) \<le> 4 * length s"
      using "1.IH"(4,6) 3 by auto
    moreover have "\<not> utf8_is_valid str" using 3 by (subst utf8_is_valid.simps) simp
    moreover have "utf8_is_valid (UTF8_REPLACEMENT_CHARACTER @ utf8_escape_invalid s) = utf8_is_valid (utf8_escape_invalid s)"
      using replacement_valid(1) by (intro is_valid_step) (simp_all add: UTF8_REPLACEMENT_CHARACTER_def)
    ultimately show ?thesis using 3(1) unfolding e by (simp add: UTF8_REPLACEMENT_CHARACTER_def)
  qed
  then show "utf8_is_valid (utf8_escape_invalid str)" "utf8_is_valid str \<Longrightarrow> utf8_escape_invalid str = str"
    "length (utf8_escape_invalid str) \<le> 4 * length str" by auto
qed

text \<open>Escaping what is not printable gives a printable string, within the same buffer.\<close>

lemma printable_step:
  assumes "x \<noteq> []" "utf8_encoded_valid_unichar (x @ str) = int (length x)" "utf8_encoded_to_unichar (x @ str) = Some v" "\<not> is_unicode_control v"
  shows "utf8_is_printable_newline (x @ str) (length x + k) True = utf8_is_printable_newline str k True"
  using assms by (subst utf8_is_printable_newline.simps) (simp add: Let_def)

lemma printable_char:
  assumes "utf8_is_printable_newline str n True" "utf8_encoded_valid_unichar str = int n" "0 < n" "str \<noteq> []"
  shows "utf8_is_printable_newline (take n str @ rest) (n + k) True = utf8_is_printable_newline rest k True"
proof -
  have "n \<le> length str" using utf8_valid_len [of str] assms by auto
  moreover obtain v where "utf8_encoded_to_unichar str = Some v" "\<not> is_unicode_control v"
    using assms(1-3) by (subst (asm) utf8_is_printable_newline.simps) (auto simp: Let_def split: if_splits option.splits)
  ultimately show ?thesis
    using printable_step [of "take n str" rest v k] valid_prefix [OF assms(2-4), of rest] assms(3,4) by simp
qed

lemma hex_escape_printable:
  "utf8_is_printable_newline (hex_escape c @ str) (4 + k) True = utf8_is_printable_newline str k True"
proof -
  have ascii: "utf8_is_printable_newline (b # s) (Suc m) True = utf8_is_printable_newline s m True" if "0x20 \<le> b" "b < 0x7f" for b :: byte and s m
  proof -
    have u: "unat b \<ge> 32" "unat b < 127" using that by (simp_all add: word_le_nat_alt word_less_nat_alt)
    have "unat (ucast b :: 32 word) = unat b" using u by (simp add: unsigned_ucast_eq unsigned_take_bit_eq take_bit_nat_eq_self)
    with u have "b < 0x80" "\<not> is_unicode_control (ucast b)"
      by (auto simp: word_less_nat_alt word_le_nat_alt is_unicode_control_def)
    then have "utf8_encoded_valid_unichar ([b] @ s) = int (length [b])" "utf8_encoded_to_unichar ([b] @ s) = Some (ucast b)" "\<not> is_unicode_control (ucast b)"
      by (simp_all add: utf8_encoded_valid_unichar_def utf8_encoded_to_unichar_def first_byte_def utf8_encoded_expected_len_def)
    from printable_step [OF _ this, of m] show ?thesis by simp
  qed
  have "\<forall>b \<in> set (bytes_of ''0123456789abcdef''). 0x20 \<le> b \<and> b < 0x7f" by (simp add: bytes_of_def)
  moreover have "unat (x AND 15) < length (bytes_of ''0123456789abcdef'')" for x :: byte
  proof -
    have "x AND 15 \<le> 15" by (metis word_and_le1)
    then show ?thesis by (simp add: word_le_nat_alt bytes_of_def)
  qed
  ultimately have "0x20 \<le> hexchar x \<and> hexchar x < 0x7f" for x unfolding hexchar_def by (meson nth_mem)
  moreover have "4 + k = Suc (Suc (Suc (Suc k)))" by simp
  ultimately show ?thesis unfolding hex_escape_def bytes_of_def by (simp only: list.map append.simps ascii) (simp add: ascii)
qed

lemma hex_escapes_printable:
  "utf8_is_printable_newline (concat (map hex_escape cs) @ str) (4 * length cs + k) True = utf8_is_printable_newline str k True"
  by (induction cs) (simp_all add: hex_escape_printable add.assoc)

lemma length_hex_escapes: "length (concat (map hex_escape cs)) = 4 * length cs"
  by (induction cs) (simp_all add: hex_escape_def bytes_of_def)

lemma escape_non_printable_ok:
  "utf8_is_printable_newline (utf8_escape_non_printable str) (length (utf8_escape_non_printable str)) True"
  "length (utf8_escape_non_printable str) \<le> 4 * length str"
proof (induction str rule: utf8_escape_non_printable.induct)
  case (1 str)
  let ?len = "utf8_encoded_valid_unichar str"
  consider "str = []" | "str \<noteq> []" "?len > 0" | c s where "str = c # s" "?len < 0"
    using utf8_valid_len [of str] by (cases str) auto
  then have "utf8_is_printable_newline (utf8_escape_non_printable str) (length (utf8_escape_non_printable str)) True \<and>
      length (utf8_escape_non_printable str) \<le> 4 * length str"
  proof cases
    case 1
    then show ?thesis by (simp add: utf8_escape_non_printable.simps [of "[]"] utf8_is_printable_newline.simps [of "[]"])
  next
    case 2
    let ?n = "nat ?len" and ?r = "utf8_escape_non_printable (drop (nat ?len) str)"
    have n: "?len = int ?n" "0 < ?n" "?n \<le> length str" using 2 utf8_valid_len [of str] by auto
    note ih = "1.IH"(1,2) [OF 2(1) refl 2(2)]
    have e: "utf8_escape_non_printable str =
        (if utf8_is_printable_newline str ?n True then take ?n str else concat (map hex_escape (take ?n str))) @ ?r"
      using 2 by (subst utf8_escape_non_printable.simps) (simp add: Let_def)
    have l: "length (take ?n str) = ?n" using n by simp
    show ?thesis
    proof (cases "utf8_is_printable_newline str ?n True")
      case True
      with ih n printable_char [OF True n(1,2) 2(1), of ?r "length ?r"] l show ?thesis unfolding e by (simp del: length_take)
    next
      case False
      with ih n hex_escapes_printable [of "take ?n str" ?r "length ?r"] l show ?thesis unfolding e by (simp add: length_hex_escapes del: length_take)
    qed
  next
    case (3 c s)
    have e: "utf8_escape_non_printable str = UTF8_REPLACEMENT_CHARACTER @ utf8_escape_non_printable s"
      using 3 by (subst utf8_escape_non_printable.simps) (simp add: Let_def)
    have "utf8_is_printable_newline (utf8_escape_non_printable s) (length (utf8_escape_non_printable s)) True"
      "length (utf8_escape_non_printable s) \<le> 4 * length s" using "1.IH"(3,4) 3 by auto
    moreover have "utf8_is_printable_newline (UTF8_REPLACEMENT_CHARACTER @ utf8_escape_non_printable s)
        (length UTF8_REPLACEMENT_CHARACTER + length (utf8_escape_non_printable s)) True =
        utf8_is_printable_newline (utf8_escape_non_printable s) (length (utf8_escape_non_printable s)) True"
      using replacement_valid by (intro printable_step [of _ _ "0xfffd"]) (simp_all add: UTF8_REPLACEMENT_CHARACTER_def is_unicode_control_def)
    ultimately show ?thesis using 3(1) unfolding e by (simp add: UTF8_REPLACEMENT_CHARACTER_def)
  qed
  then show "utf8_is_printable_newline (utf8_escape_non_printable str) (length (utf8_escape_non_printable str)) True"
    "length (utf8_escape_non_printable str) \<le> 4 * length str" by auto
qed

text \<open>The buffer of \<open>utf16_to_utf8\<close> is long enough; a buffer of odd length is read past its end.\<close>

lemma length_encode: "length (utf8_encode_unichar g) \<le> 4" "g < 0x10000 \<Longrightarrow> length (utf8_encode_unichar g) \<le> 3"
  by (simp_all add: utf8_encode_unichar_def)

lemma utf16_fits: "utf16_to_utf8 f = Some r \<Longrightarrow> 2 * length r \<le> 3 * length f"
proof (induction f arbitrary: r rule: utf16_to_utf8.induct)
  case (3 a b f)
  have w: "(ucast w :: 32 word) < 0x10000" for w :: "16 word"
    unfolding less_bits by (auto simp: bit_unsigned_iff dest: bit_imp_le_length)
  let ?w = "push_bit 8 (ucast b) OR (ucast a :: 16 word)"
  consider "\<not> utf16_is_surrogate ?w" | "utf16_is_surrogate ?w" "utf16_is_trailing_surrogate ?w"
    | "utf16_is_surrogate ?w" "\<not> utf16_is_trailing_surrogate ?w" by blast
  then show ?case
  proof cases
    case 1
    with "3.prems" obtain r' where "utf16_to_utf8 f = Some r'" "r = utf8_encode_unichar (ucast ?w) @ r'" by (auto simp: Let_def)
    with "3.IH"(1) [OF refl 1] length_encode(2) [OF w, of ?w] show ?thesis by simp
  next
    case 2
    with "3.prems" "3.IH"(2) [OF refl _ 2(2)] show ?thesis by (simp add: Let_def)
  next
    case 3
    show ?thesis
    proof (cases "\<exists>c d f'. f = c # d # f'")
      case True
      then obtain c d f' where f: "f = c # d # f'" by blast
      let ?v = "push_bit 8 (ucast d) OR (ucast c :: 16 word)"
      show ?thesis
      proof (cases "utf16_is_trailing_surrogate ?v")
        case True
        with "3.prems" 3 f obtain r' where "utf16_to_utf8 f' = Some r'" "r = utf8_encode_unichar (utf16_surrogate_pair_to_unichar ?w ?v) @ r'"
          by (auto simp: Let_def)
        with "3.IH"(4) [OF refl _ 3(2) f refl refl] 3(1) True length_encode(1) [of "utf16_surrogate_pair_to_unichar ?w ?v"] f show ?thesis by simp
      next
        case False
        with "3.prems" 3 f "3.IH"(3) [OF refl _ 3(2) f refl refl] show ?thesis by (simp add: Let_def)
      qed
    next
      case False
      with "3.prems" 3 show ?thesis by (auto simp: Let_def split: list.splits)
    qed
  qed
qed simp_all

end
