(* ===== verification/Udev_Monitor.thy ===== *)
theory Udev_Monitor
  imports Udev_List Udev_Utf8
begin

text \<open>
  \<^verbatim>\<open>libudev-compat/libudev-monitor.c\<close>, with the hashes it uses from \<^verbatim>\<open>MurmurHash2.c\<close> and \<^verbatim>\<open>libudev-util.c\<close>: a
  monitor keeps lists of subsystems and of tags, compiles them into a program for the kernel's packet filter,
  sends devices as messages with a header of hashes, and checks and filters the messages it receives.

  The machine is little-endian, as \<open>MurmurHash2\<close> assumes. A device is what the monitor sees of it: its
  subsystem, type and tags, and its serialised properties.
\<close>

unbundle bit_operations_syntax

section \<open>Bytes and hashes\<close>

definition be32 :: "32 word \<Rightarrow> byte list" where
  "be32 x = [ucast (drop_bit 24 x), ucast (drop_bit 16 x), ucast (drop_bit 8 x), ucast x]"

definition le32 :: "32 word \<Rightarrow> byte list" where
  "le32 x = [ucast x, ucast (drop_bit 8 x), ucast (drop_bit 16 x), ucast (drop_bit 24 x)]"

fun of_be32 :: "byte list \<Rightarrow> 32 word" where
  "of_be32 [a, b, c, d] = push_bit 24 (ucast a) OR push_bit 16 (ucast b) OR push_bit 8 (ucast c) OR ucast d"
| "of_be32 _ = 0"

definition of_le32 :: "byte list \<Rightarrow> 32 word" where
  "of_le32 bs = of_be32 (rev bs)"

abbreviation murmur_m :: "32 word" where "murmur_m \<equiv> 0x5bd1e995"

fun murmur_loop :: "byte list \<Rightarrow> 32 word \<Rightarrow> 32 word" where
  "murmur_loop (a # b # c # d # data) h =
     (let k = of_le32 [a, b, c, d];
          k = k * murmur_m;
          k = k XOR drop_bit 24 k;
          k = k * murmur_m
      in murmur_loop data (h * murmur_m XOR k))"
| "murmur_loop [a, b, c] h = (h XOR push_bit 16 (ucast c) XOR push_bit 8 (ucast b) XOR ucast a) * murmur_m"
| "murmur_loop [a, b] h = (h XOR push_bit 8 (ucast b) XOR ucast a) * murmur_m"
| "murmur_loop [a] h = (h XOR ucast a) * murmur_m"
| "murmur_loop [] h = h"

definition MurmurHash2 :: "byte list \<Rightarrow> 32 word \<Rightarrow> 32 word" where
  "MurmurHash2 key seed =
     (let h = murmur_loop key (seed XOR of_nat (length key));
          h = h XOR drop_bit 13 h;
          h = h * murmur_m
      in h XOR drop_bit 15 h)"

definition util_string_hash32 :: "cstr \<Rightarrow> 32 word" where
  "util_string_hash32 str = MurmurHash2 (bytes_of str) 0"

text \<open>Four bits of the hash, as a set of bit positions.\<close>

definition util_string_bloom64 :: "cstr \<Rightarrow> 64 word" where
  "util_string_bloom64 str =
     (let hash = util_string_hash32 str
      in push_bit (unat (hash AND 63)) 1 OR push_bit (unat (drop_bit 6 hash AND 63)) 1 OR
         push_bit (unat (drop_bit 12 hash AND 63)) 1 OR push_bit (unat (drop_bit 18 hash AND 63)) 1)"

section \<open>The packet filter\<close>

text \<open>
  The instructions of the kernel's classic packet filter that the program uses. \<open>jt\<close> and \<open>jf\<close> have eight bits. A jump is
  relative to the next instruction and goes forward; a load is big-endian, and a load past the end of the packet drops
  it. \<open>None\<close> is a program that the kernel refuses, since it can leave its end.
\<close>

datatype bpf_code = BPF_LD_W_ABS | BPF_ALU_AND_K | BPF_JMP_JEQ_K | BPF_RET_K

record sock_filter =
  sf_code :: bpf_code
  sf_jt :: "8 word"
  sf_jf :: "8 word"
  sf_k :: "32 word"

function bpf_run :: "sock_filter list \<Rightarrow> byte list \<Rightarrow> 32 word \<Rightarrow> 32 word option" where
  "bpf_run [] pkt a = None"
| "bpf_run (i # rest) pkt a =
     (case sf_code i of
        BPF_LD_W_ABS \<Rightarrow>
          if unat (sf_k i) + 4 \<le> length pkt then bpf_run rest pkt (of_be32 (take 4 (drop (unat (sf_k i)) pkt))) else Some 0
      | BPF_ALU_AND_K \<Rightarrow> bpf_run rest pkt (a AND sf_k i)
      | BPF_JMP_JEQ_K \<Rightarrow> bpf_run (drop (unat (if a = sf_k i then sf_jt i else sf_jf i)) rest) pkt a
      | BPF_RET_K \<Rightarrow> Some (sf_k i))"
  by pat_completeness auto
termination by (relation "measure (\<lambda>(prog, pkt, a). length prog)") auto

section \<open>Messages\<close>

definition UDEV_MONITOR_MAGIC :: "32 word" where "UDEV_MONITOR_MAGIC = 0xfeedcafe"

abbreviation (input) E2BIG :: rc where "E2BIG \<equiv> 7"

record udev_monitor_netlink_header =
  nlh_prefix :: "byte list"
  nlh_magic :: "32 word"
  nlh_header_size :: "32 word"
  nlh_properties_off :: "32 word"
  nlh_properties_len :: "32 word"
  nlh_filter_subsystem_hash :: "32 word"
  nlh_filter_devtype_hash :: "32 word"
  nlh_filter_tag_bloom_hi :: "32 word"
  nlh_filter_tag_bloom_lo :: "32 word"

text \<open>The header in memory; the fields that the filter reads are in network order. Their offsets follow.\<close>

definition nlh_bytes :: "udev_monitor_netlink_header \<Rightarrow> byte list" where
  "nlh_bytes h =
     nlh_prefix h @ be32 (nlh_magic h) @ le32 (nlh_header_size h) @ le32 (nlh_properties_off h) @ le32 (nlh_properties_len h) @
     be32 (nlh_filter_subsystem_hash h) @ be32 (nlh_filter_devtype_hash h) @ be32 (nlh_filter_tag_bloom_hi h) @ be32 (nlh_filter_tag_bloom_lo h)"

abbreviation off_magic :: "32 word" where "off_magic \<equiv> 8"
abbreviation off_subsystem :: "32 word" where "off_subsystem \<equiv> 24"
abbreviation off_devtype :: "32 word" where "off_devtype \<equiv> 28"
abbreviation off_bloom_hi :: "32 word" where "off_bloom_hi \<equiv> 32"
abbreviation off_bloom_lo :: "32 word" where "off_bloom_lo \<equiv> 36"

record udev_device =
  dv_subsystem :: "cstr option"
  dv_devtype :: "cstr option"
  dv_tags :: "cstr list"
  dv_monitor_buf :: "byte list"

definition hi32 :: "64 word \<Rightarrow> 32 word" where "hi32 x = ucast (drop_bit 32 x)"
definition lo32 :: "64 word \<Rightarrow> 32 word" where "lo32 x = ucast (x AND 0xffffffff)"

definition device_bloom :: "udev_device \<Rightarrow> 64 word" where
  "device_bloom d = fold (\<lambda>t bits. bits OR util_string_bloom64 t) (dv_tags d) 0"

text \<open>The message for a device: an error, or its bytes. A device without a subsystem makes \<open>strlen\<close> read \<open>NULL\<close>.\<close>

definition device_message :: "udev_device \<Rightarrow> (rc + byte list) option" where
  "device_message d =
     (if length (dv_monitor_buf d) < 32 then Some (Inl (- EINVAL))
      else
        (case dv_subsystem d of
           None \<Rightarrow> None
         | Some subsystem \<Rightarrow>
             (let bloom = device_bloom d;
                  nlh = \<lparr>nlh_prefix = bytes_of ''libudev'' @ [0], nlh_magic = UDEV_MONITOR_MAGIC, nlh_header_size = 40, nlh_properties_off = 40,
                         nlh_properties_len = of_nat (length (dv_monitor_buf d)),
                         nlh_filter_subsystem_hash = util_string_hash32 subsystem,
                         nlh_filter_devtype_hash = (case dv_devtype d of None \<Rightarrow> 0 | Some t \<Rightarrow> util_string_hash32 t),
                         nlh_filter_tag_bloom_hi = (if bloom > 0 then hi32 bloom else 0),
                         nlh_filter_tag_bloom_lo = (if bloom > 0 then lo32 bloom else 0)\<rparr>
              in Some (Inr (nlh_bytes nlh @ dv_monitor_buf d)))))"

section \<open>Monitors and their filters\<close>

record udev_monitor =
  um_filter_subsystem_list :: udev_list
  um_filter_tag_list :: udev_list
  um_trusted_sender :: nat

definition udev_monitor_new :: udev_monitor where
  "udev_monitor_new = \<lparr>um_filter_subsystem_list = udev_list_init False, um_filter_tag_list = udev_list_init True, um_trusted_sender = 0\<rparr>"

definition udev_monitor_filter_add_match_subsystem_devtype ::
  "bool \<Rightarrow> udev_monitor option \<Rightarrow> cstr option \<Rightarrow> cstr option \<Rightarrow> (rc \<times> udev_monitor option) option" where
  "udev_monitor_filter_add_match_subsystem_devtype alloc m subsystem devtype =
     (case (m, subsystem) of
        (Some m, Some s) \<Rightarrow>
          do { (e, l) \<leftarrow> udev_list_entry_add alloc (um_filter_subsystem_list m) s devtype;
               Some (if e = None then - ENOMEM else 0, Some (m\<lparr>um_filter_subsystem_list := l\<rparr>)) }
      | _ \<Rightarrow> Some (- EINVAL, m))"

definition udev_monitor_filter_add_match_tag ::
  "bool \<Rightarrow> udev_monitor option \<Rightarrow> cstr option \<Rightarrow> (rc \<times> udev_monitor option) option" where
  "udev_monitor_filter_add_match_tag alloc m tag =
     (case (m, tag) of
        (Some m, Some t) \<Rightarrow>
          do { (e, l) \<leftarrow> udev_list_entry_add alloc (um_filter_tag_list m) t None;
               Some (if e = None then - ENOMEM else 0, Some (m\<lparr>um_filter_tag_list := l\<rparr>)) }
      | _ \<Rightarrow> Some (- EINVAL, m))"

text \<open>Removing the filters; the result is that of \<open>setsockopt\<close> with an empty program.\<close>

definition udev_monitor_filter_remove :: "rc \<Rightarrow> udev_monitor \<Rightarrow> (rc \<times> udev_monitor) option" where
  "udev_monitor_filter_remove err m =
     do { l \<leftarrow> udev_list_cleanup (um_filter_subsystem_list m);
          Some (err, m\<lparr>um_filter_subsystem_list := l\<rparr>) }"

text \<open>The names and values that a loop over a list sees.\<close>

definition list_contents :: "udev_list \<Rightarrow> (cstr \<times> cstr option) list option" where
  "list_contents l =
     do { as \<leftarrow> udev_list_entry_foreach l;
          those (map (\<lambda>a. do { n \<leftarrow> udev_list_entry_get_name (Some a) l; Some (n, udev_list_entry_get_value (Some a) l) }) as) }"

text \<open>The test in the library, on the strings themselves.\<close>

fun subsystem_loop :: "udev_device \<Rightarrow> (cstr \<times> cstr option) list \<Rightarrow> bool option" where
  "subsystem_loop d [] = Some False"
| "subsystem_loop d ((subsys, devtype) # xs) =
     (case dv_subsystem d of
        None \<Rightarrow> None
      | Some dsubsys \<Rightarrow>
          if dsubsys \<noteq> subsys then subsystem_loop d xs
          else
            (case devtype of
               None \<Rightarrow> Some True
             | Some t \<Rightarrow>
                 (case dv_devtype d of
                    None \<Rightarrow> subsystem_loop d xs
                  | Some ddevtype \<Rightarrow> if ddevtype = t then Some True else subsystem_loop d xs)))"

definition passes_filter :: "udev_monitor \<Rightarrow> udev_device \<Rightarrow> bool option" where
  "passes_filter m d =
     do { subs \<leftarrow> list_contents (um_filter_subsystem_list m);
          tags \<leftarrow> list_contents (um_filter_tag_list m);
          ok \<leftarrow> (if subs = [] then Some True else subsystem_loop d subs);
          Some (ok \<and> (tags = [] \<or> (\<exists>t \<in> set tags. fst t \<in> set (dv_tags d)))) }"

section \<open>Compiling the filter\<close>

text \<open>Writing an instruction to the array of 512; \<open>None\<close> is a write past its end.\<close>

definition bpf_stmt :: "bpf_code \<Rightarrow> 32 word \<Rightarrow> sock_filter list \<Rightarrow> sock_filter list option" where
  "bpf_stmt code data ins =
     (if length ins < 512 then Some (ins @ [\<lparr>sf_code = code, sf_jt = 0, sf_jf = 0, sf_k = data\<rparr>]) else None)"

definition bpf_jmp :: "bpf_code \<Rightarrow> 32 word \<Rightarrow> nat \<Rightarrow> nat \<Rightarrow> sock_filter list \<Rightarrow> sock_filter list option" where
  "bpf_jmp code data jt jf ins =
     (if length ins < 512 then Some (ins @ [\<lparr>sf_code = code, sf_jt = of_nat jt, sf_jf = of_nat jf, sf_k = data\<rparr>]) else None)"

fun filter_tags :: "cstr list \<Rightarrow> nat \<Rightarrow> sock_filter list \<Rightarrow> sock_filter list option" where
  "filter_tags [] tag_matches ins = Some ins"
| "filter_tags (t # ts) tag_matches ins =
     (let bloom = util_string_bloom64 t; tag_matches = tag_matches - 1
      in do { ins \<leftarrow> bpf_stmt BPF_LD_W_ABS off_bloom_hi ins;
              ins \<leftarrow> bpf_stmt BPF_ALU_AND_K (hi32 bloom) ins;
              ins \<leftarrow> bpf_jmp BPF_JMP_JEQ_K (hi32 bloom) 0 3 ins;
              ins \<leftarrow> bpf_stmt BPF_LD_W_ABS off_bloom_lo ins;
              ins \<leftarrow> bpf_stmt BPF_ALU_AND_K (lo32 bloom) ins;
              ins \<leftarrow> bpf_jmp BPF_JMP_JEQ_K (lo32 bloom) (1 + tag_matches * 6) 0 ins;
              filter_tags ts tag_matches ins })"

fun filter_subsystems :: "(cstr \<times> cstr option) list \<Rightarrow> sock_filter list \<Rightarrow> (rc + sock_filter list) option" where
  "filter_subsystems [] ins = Some (Inr ins)"
| "filter_subsystems ((subsys, devtype) # xs) ins =
     do { ins \<leftarrow> bpf_stmt BPF_LD_W_ABS off_subsystem ins;
          ins \<leftarrow> (case devtype of
                   None \<Rightarrow> bpf_jmp BPF_JMP_JEQ_K (util_string_hash32 subsys) 0 1 ins
                 | Some t \<Rightarrow>
                     do { ins \<leftarrow> bpf_jmp BPF_JMP_JEQ_K (util_string_hash32 subsys) 0 3 ins;
                          ins \<leftarrow> bpf_stmt BPF_LD_W_ABS off_devtype ins;
                          bpf_jmp BPF_JMP_JEQ_K (util_string_hash32 t) 0 1 ins });
          ins \<leftarrow> bpf_stmt BPF_RET_K 0xffffffff ins;
          if length ins + 1 \<ge> 512 then Some (Inl (- E2BIG)) else filter_subsystems xs ins }"

text \<open>The program, if there is anything to filter; installing it is left to \<open>setsockopt\<close>.\<close>

definition filter_program :: "udev_monitor \<Rightarrow> (rc + sock_filter list) option" where
  "filter_program m =
     do { subs \<leftarrow> list_contents (um_filter_subsystem_list m);
          tags \<leftarrow> list_contents (um_filter_tag_list m);
          if subs = [] \<and> tags = [] then Some (Inl 0)
          else
            do { ins \<leftarrow> bpf_stmt BPF_LD_W_ABS off_magic [];
                 ins \<leftarrow> bpf_jmp BPF_JMP_JEQ_K UDEV_MONITOR_MAGIC 1 0 ins;
                 ins \<leftarrow> bpf_stmt BPF_RET_K 0xffffffff ins;
                 ins \<leftarrow> (if tags = [] then Some ins
                        else do { ins \<leftarrow> filter_tags (map fst tags) (length tags) ins; bpf_stmt BPF_RET_K 0 ins });
                 r \<leftarrow> (if subs = [] then Some (Inr ins)
                      else do { r \<leftarrow> filter_subsystems subs ins;
                                (case r of Inl e \<Rightarrow> Some (Inl e) | Inr ins \<Rightarrow> map_option Inr (bpf_stmt BPF_RET_K 0 ins)) });
                 (case r of Inl e \<Rightarrow> Some (Inl e) | Inr ins \<Rightarrow> map_option Inr (bpf_stmt BPF_RET_K 0xffffffff ins)) } }"

definition udev_monitor_filter_update :: "(sock_filter list \<Rightarrow> rc) \<Rightarrow> udev_monitor \<Rightarrow> rc option" where
  "udev_monitor_filter_update setsockopt m =
     map_option (\<lambda>r. case r of Inl rc \<Rightarrow> rc | Inr ins \<Rightarrow> setsockopt ins) (filter_program m)"

section \<open>Words and bits\<close>

lemma of_be32_be32: "of_be32 (be32 x) = x"
proof (rule bit_word_eqI)
  fix n assume n: "n < LENGTH(32)"
  consider "n < 8" | "8 \<le> n" "n < 16" | "16 \<le> n" "n < 24" | "24 \<le> n" "n < 32" using n by fastforce
  then show "bit (of_be32 (be32 x)) n = bit x n" by cases (auto simp: be32_def bit_simps)
qed

lemma bit_low_mask: "bit (0xffffffff :: 64 word) n \<longleftrightarrow> n < 32"
  using bit_mask_iff [of 32 n, where ?'a = "64 word"] by (auto simp: mask_eq_exp_minus_1)

lemma bit_lo32: "bit (lo32 x) n \<longleftrightarrow> n < 32 \<and> bit x n"
  unfolding lo32_def bit_unsigned_iff bit_and_iff bit_low_mask by auto

lemma bit_hi32: "bit (hi32 x) n \<longleftrightarrow> n < 32 \<and> bit x (32 + n)"
  by (auto simp: hi32_def bit_simps)

lemma hi_lo_and: "hi32 d AND hi32 t = hi32 t \<and> lo32 d AND lo32 t = lo32 t \<longleftrightarrow> d AND t = t" for d t :: "64 word"
proof
  assume "d AND t = t"
  then have "bit t n \<Longrightarrow> bit d n" for n by (metis bit_and_iff)
  then show "hi32 d AND hi32 t = hi32 t \<and> lo32 d AND lo32 t = lo32 t"
    unfolding bit_eq_iff by (auto simp: bit_hi32 bit_lo32 bit_and_iff)
next
  assume h: "hi32 d AND hi32 t = hi32 t \<and> lo32 d AND lo32 t = lo32 t"
  show "d AND t = t"
  proof (rule bit_word_eqI)
    fix n assume n: "n < LENGTH(64)"
    show "bit (d AND t) n = bit t n"
    proof (cases "n < 32")
      case True
      with h have "bit (lo32 d AND lo32 t) n = bit (lo32 t) n" by simp
      with True show ?thesis by (auto simp: bit_lo32 bit_and_iff)
    next
      case False
      with h have "bit (hi32 d AND hi32 t) (n - 32) = bit (hi32 t) (n - 32)" by simp
      with False n show ?thesis by (auto simp: bit_hi32 bit_and_iff)
    qed
  qed
qed

lemma and_fold_or: "t \<in> set ts \<or> bits AND f t = f t \<Longrightarrow> fold (\<lambda>t bits. bits OR f t) ts bits AND f t = (f t :: 64 word)"
proof (induction ts arbitrary: bits)
  case (Cons x ts)
  have "(bits OR f x) AND f t = f t" if "x = t \<or> bits AND f t = f t" using that by (auto simp: bit_eq_iff bit_simps)
  with Cons show ?case by auto
qed simp

lemma list_contents_ok:
  assumes "ul_inv l as"
  shows "list_contents l = Some (ul_alist l as)"
proof -
  have "those (map (\<lambda>a. do { n \<leftarrow> udev_list_entry_get_name (Some a) l; Some (n, udev_list_entry_get_value (Some a) l) }) bs) = Some (ul_alist l bs)"
    if "set bs \<subseteq> set as" for bs
    using that
  proof (induction bs)
    case (Cons b bs)
    then have "b \<in> dom (ul_ents l)" using assms by (auto simp: ul_inv_def ul_ring_def)
    then obtain e where "ul_ents l b = Some e" by blast
    with Cons show ?case
      by (simp add: ul_alist_def udev_list_entry_get_name_def udev_list_entry_get_value_def name_of_def value_of_def)
  qed (simp add: ul_alist_def)
  with foreach_ok [OF assms] show ?thesis by (simp add: list_contents_def)
qed

section \<open>What the program does\<close>

text \<open>The code of the tags and of the subsystems, as blocks.\<close>

definition ins_stmt :: "bpf_code \<Rightarrow> 32 word \<Rightarrow> sock_filter" where
  "ins_stmt code k = \<lparr>sf_code = code, sf_jt = 0, sf_jf = 0, sf_k = k\<rparr>"

definition ins_jeq :: "32 word \<Rightarrow> nat \<Rightarrow> nat \<Rightarrow> sock_filter" where
  "ins_jeq k jt jf = \<lparr>sf_code = BPF_JMP_JEQ_K, sf_jt = of_nat jt, sf_jf = of_nat jf, sf_k = k\<rparr>"

fun tag_code :: "cstr list \<Rightarrow> sock_filter list" where
  "tag_code [] = []"
| "tag_code (t # ts) =
     [ins_stmt BPF_LD_W_ABS off_bloom_hi, ins_stmt BPF_ALU_AND_K (hi32 (util_string_bloom64 t)),
      ins_jeq (hi32 (util_string_bloom64 t)) 0 3,
      ins_stmt BPF_LD_W_ABS off_bloom_lo, ins_stmt BPF_ALU_AND_K (lo32 (util_string_bloom64 t)),
      ins_jeq (lo32 (util_string_bloom64 t)) (1 + length ts * 6) 0] @ tag_code ts"

fun subsystem_code :: "(cstr \<times> cstr option) list \<Rightarrow> sock_filter list" where
  "subsystem_code [] = []"
| "subsystem_code ((s, None) # xs) =
     [ins_stmt BPF_LD_W_ABS off_subsystem, ins_jeq (util_string_hash32 s) 0 1, ins_stmt BPF_RET_K 0xffffffff] @ subsystem_code xs"
| "subsystem_code ((s, Some t) # xs) =
     [ins_stmt BPF_LD_W_ABS off_subsystem, ins_jeq (util_string_hash32 s) 0 3,
      ins_stmt BPF_LD_W_ABS off_devtype, ins_jeq (util_string_hash32 t) 0 1, ins_stmt BPF_RET_K 0xffffffff] @ subsystem_code xs"

lemma length_tag_code: "length (tag_code ts) = 6 * length ts"
  by (induction ts) auto

lemma length_subsystem_code: "length (subsystem_code xs) \<le> 5 * length xs"
  by (induction xs rule: subsystem_code.induct) auto

lemma bpf_emit:
  "length ins < 512 \<Longrightarrow> bpf_stmt code k ins = Some (ins @ [ins_stmt code k])"
  "length ins < 512 \<Longrightarrow> bpf_jmp BPF_JMP_JEQ_K k jt jf ins = Some (ins @ [ins_jeq k jt jf])"
  by (simp_all add: bpf_stmt_def bpf_jmp_def ins_stmt_def ins_jeq_def)

lemma filter_tags_code:
  "length ins + 6 * length ts \<le> 512 \<Longrightarrow> filter_tags ts (length ts) ins = Some (ins @ tag_code ts)"
  by (induction ts arbitrary: ins) (auto simp: bpf_emit Let_def)

lemma filter_subsystems_code:
  "length ins + 5 * length xs \<le> 510 \<Longrightarrow> filter_subsystems xs ins = Some (Inr (ins @ subsystem_code xs))"
proof (induction xs arbitrary: ins rule: subsystem_code.induct)
  case (2 s xs)
  then show ?case by (simp add: bpf_emit)
next
  case (3 s t xs)
  then show ?case by (simp add: bpf_emit)
qed simp

text \<open>Running a block, on a packet with given words at the offsets of the header.\<close>

definition word_at :: "byte list \<Rightarrow> 32 word \<Rightarrow> 32 word \<Rightarrow> bool" where
  "word_at pkt off x \<longleftrightarrow> unat off + 4 \<le> length pkt \<and> of_be32 (take 4 (drop (unat off) pkt)) = x"

lemma bpf_run_ins:
  "word_at pkt off x \<Longrightarrow> bpf_run (ins_stmt BPF_LD_W_ABS off # rest) pkt a = bpf_run rest pkt x"
  "bpf_run (ins_stmt BPF_ALU_AND_K k # rest) pkt a = bpf_run rest pkt (a AND k)"
  "jt < 256 \<Longrightarrow> jf < 256 \<Longrightarrow> bpf_run (ins_jeq k jt jf # rest) pkt a = bpf_run (drop (if a = k then jt else jf) rest) pkt a"
  "bpf_run (ins_stmt BPF_RET_K k # rest) pkt a = Some k"
  by (simp_all add: ins_stmt_def ins_jeq_def word_at_def unat_of_nat)

declare bpf_run.simps(2) [simp del]

lemma run_tags:
  assumes "word_at pkt off_bloom_hi dh" "word_at pkt off_bloom_lo dl" "length ts \<le> 43" "\<And>a b. bpf_run rest pkt a = bpf_run rest pkt b"
  shows "bpf_run (tag_code ts @ ins_stmt BPF_RET_K 0 # rest) pkt a =
    (if \<exists>t \<in> set ts. dh AND hi32 (util_string_bloom64 t) = hi32 (util_string_bloom64 t) \<and> dl AND lo32 (util_string_bloom64 t) = lo32 (util_string_bloom64 t)
     then bpf_run rest pkt 0 else Some 0)"
  using assms(3)
proof (induction ts arbitrary: a)
  case (Cons t ts)
  let ?ok = "dh AND hi32 (util_string_bloom64 t) = hi32 (util_string_bloom64 t) \<and> dl AND lo32 (util_string_bloom64 t) = lo32 (util_string_bloom64 t)"
  have skip: "drop (Suc (length ts * 6)) (tag_code ts @ ins_stmt BPF_RET_K 0 # rest) = rest"
    by (simp add: length_tag_code)
  have jt: "Suc (length ts * 6) < 256" using Cons.prems by simp
  have IH: "bpf_run (tag_code ts @ ins_stmt BPF_RET_K 0 # rest) pkt b = bpf_run (tag_code ts @ ins_stmt BPF_RET_K 0 # rest) pkt 0" for b
    using Cons by simp
  have "bpf_run (tag_code (t # ts) @ ins_stmt BPF_RET_K 0 # rest) pkt a =
      (if ?ok then bpf_run rest pkt 0 else bpf_run (tag_code ts @ ins_stmt BPF_RET_K 0 # rest) pkt 0)"
    using IH skip assms(4) [of _ 0] by (simp add: bpf_run_ins(1) [OF assms(1)] bpf_run_ins(1) [OF assms(2)] bpf_run_ins(2) bpf_run_ins(3) [OF jt] bpf_run_ins(3) [of 0 3] del: drop_append)
  with Cons show ?case by auto
qed (simp add: bpf_run_ins)


lemma run_subsystems:
  assumes "word_at pkt off_subsystem sh" "word_at pkt off_devtype th" "\<And>a b. bpf_run rest pkt a = bpf_run rest pkt b"
  shows "bpf_run (subsystem_code xs @ rest) pkt a =
    (if \<exists>x \<in> set xs. util_string_hash32 (fst x) = sh \<and> (case snd x of None \<Rightarrow> True | Some t \<Rightarrow> util_string_hash32 t = th)
     then Some 0xffffffff else bpf_run rest pkt 0)"
  using assms(3) [of _ 0]
  by (induction xs arbitrary: a rule: subsystem_code.induct)
    (auto simp: bpf_run_ins(1) [OF assms(1)] bpf_run_ins(1) [OF assms(2)] bpf_run_ins(2-))

lemma length_be32 [simp]: "length (be32 x) = 4" "length (le32 x) = 4"
  by (simp_all add: be32_def le32_def)

lemma header_words:
  assumes "length (nlh_prefix h) = 8"
  shows "word_at (nlh_bytes h @ buf) off_magic (nlh_magic h)" "word_at (nlh_bytes h @ buf) off_subsystem (nlh_filter_subsystem_hash h)"
    "word_at (nlh_bytes h @ buf) off_devtype (nlh_filter_devtype_hash h)" "word_at (nlh_bytes h @ buf) off_bloom_hi (nlh_filter_tag_bloom_hi h)"
    "word_at (nlh_bytes h @ buf) off_bloom_lo (nlh_filter_tag_bloom_lo h)"
  using assms by (simp_all add: word_at_def nlh_bytes_def of_be32_be32)

definition device_type_hash :: "udev_device \<Rightarrow> 32 word" where
  "device_type_hash d = (case dv_devtype d of None \<Rightarrow> 0 | Some t \<Rightarrow> util_string_hash32 t)"

lemma message_words:
  assumes "device_message d = Some (Inr msg)"
  obtains s where "dv_subsystem d = Some s" "word_at msg off_magic UDEV_MONITOR_MAGIC" "word_at msg off_subsystem (util_string_hash32 s)"
    "word_at msg off_devtype (device_type_hash d)" "word_at msg off_bloom_hi (hi32 (device_bloom d))" "word_at msg off_bloom_lo (lo32 (device_bloom d))"
proof -
  have z: "hi32 0 = 0" "lo32 0 = 0" by (simp_all add: hi32_def lo32_def)
  obtain s where s: "dv_subsystem d = Some s" using assms by (auto simp: device_message_def split: if_splits option.splits)
  define h where "h = \<lparr>nlh_prefix = bytes_of ''libudev'' @ [0], nlh_magic = UDEV_MONITOR_MAGIC, nlh_header_size = 40, nlh_properties_off = 40,
    nlh_properties_len = of_nat (length (dv_monitor_buf d)), nlh_filter_subsystem_hash = util_string_hash32 s, nlh_filter_devtype_hash = device_type_hash d,
    nlh_filter_tag_bloom_hi = hi32 (device_bloom d), nlh_filter_tag_bloom_lo = lo32 (device_bloom d)\<rparr>"
  have msg: "msg = nlh_bytes h @ dv_monitor_buf d"
    using assms s by (auto simp: device_message_def h_def device_type_hash_def Let_def z word_gt_0 split: if_splits)
  have "length (nlh_prefix h) = 8" by (simp add: h_def bytes_of_def)
  from header_words [OF this, of "dv_monitor_buf d", folded msg] s show thesis
    by (intro that [of s]) (simp_all add: h_def)
qed

text \<open>The test that the program makes: on hashes instead of strings.\<close>

definition hash_filter :: "(cstr \<times> cstr option) list \<Rightarrow> cstr list \<Rightarrow> cstr \<Rightarrow> udev_device \<Rightarrow> bool" where
  "hash_filter subs tags s d \<longleftrightarrow>
     (tags = [] \<or> (\<exists>t \<in> set tags. device_bloom d AND util_string_bloom64 t = util_string_bloom64 t)) \<and>
     (subs = [] \<or> (\<exists>x \<in> set subs. util_string_hash32 (fst x) = util_string_hash32 s \<and>
        (case snd x of None \<Rightarrow> True | Some t \<Rightarrow> util_string_hash32 t = device_type_hash d)))"

definition filter_code :: "(cstr \<times> cstr option) list \<Rightarrow> cstr list \<Rightarrow> sock_filter list" where
  "filter_code subs tags =
     [ins_stmt BPF_LD_W_ABS off_magic, ins_jeq UDEV_MONITOR_MAGIC 1 0, ins_stmt BPF_RET_K 0xffffffff] @
     (if tags = [] then [] else tag_code tags @ [ins_stmt BPF_RET_K 0]) @
     (if subs = [] then [] else subsystem_code subs @ [ins_stmt BPF_RET_K 0]) @ [ins_stmt BPF_RET_K 0xffffffff]"

lemma filter_program_code:
  assumes "ul_inv (um_filter_subsystem_list m) as" "ul_inv (um_filter_tag_list m) bs" "as \<noteq> [] \<or> bs \<noteq> []"
    and "6 * length bs + 5 * length as \<le> 506"
  shows "filter_program m = Some (Inr (filter_code (ul_alist (um_filter_subsystem_list m) as) (map fst (ul_alist (um_filter_tag_list m) bs))))"
proof -
  define subs tags where "subs = ul_alist (um_filter_subsystem_list m) as" and "tags = ul_alist (um_filter_tag_list m) bs"
  have l: "length subs = length as" "length tags = length bs" by (simp_all add: subs_def tags_def ul_alist_def)
  have c: "list_contents (um_filter_subsystem_list m) = Some subs" "list_contents (um_filter_tag_list m) = Some tags"
    using list_contents_ok assms(1,2) by (simp_all add: subs_def tags_def)
  let ?start = "[ins_stmt BPF_LD_W_ABS off_magic, ins_jeq UDEV_MONITOR_MAGIC 1 0, ins_stmt BPF_RET_K 0xffffffff]"
  have t: "filter_tags (map fst tags) (length tags) ?start = Some (?start @ tag_code (map fst tags))"
    using filter_tags_code [of ?start "map fst tags"] assms(4) l by simp
  have s: "length ins = 3 + (if tags = [] then 0 else 6 * length bs + 1) \<Longrightarrow> filter_subsystems subs ins = Some (Inr (ins @ subsystem_code subs))" for ins
    using filter_subsystems_code [of ins subs] assms(4) l by (auto split: if_splits)
  have lt: "length (tag_code (map fst tags)) = 6 * length bs" "length (subsystem_code subs) \<le> 5 * length as"
    using length_tag_code length_subsystem_code [of subs] l by simp_all
  have e: "\<not> (subs = [] \<and> tags = [])" using assms(3) l by auto
  show ?thesis unfolding subs_def [symmetric] tags_def [symmetric]
    using e t s lt assms(4) by (cases "tags = []"; cases "subs = []") (simp_all add: filter_program_def c bpf_emit filter_code_def)
qed

lemma filter_code_run:
  assumes "device_message d = Some (Inr msg)" "dv_subsystem d = Some s" "length tags \<le> 43"
  shows "bpf_run (filter_code subs tags) msg 0 = Some (if hash_filter subs tags s d then 0xffffffff else 0)"
proof -
  let ?sub = "(if subs = [] then [] else subsystem_code subs @ [ins_stmt BPF_RET_K 0]) @ [ins_stmt BPF_RET_K 0xffffffff]"
  have w: "word_at msg off_magic UDEV_MONITOR_MAGIC" "word_at msg off_subsystem (util_string_hash32 s)" "word_at msg off_devtype (device_type_hash d)"
    "word_at msg off_bloom_hi (hi32 (device_bloom d))" "word_at msg off_bloom_lo (lo32 (device_bloom d))"
    using message_words [OF assms(1)] assms(2) by auto
  have sub: "bpf_run ?sub msg a = Some (if hash_filter subs [] s d then 0xffffffff else 0)" for a
    using run_subsystems [OF w(2,3), of "ins_stmt BPF_RET_K 0 # [ins_stmt BPF_RET_K 0xffffffff]" subs a]
    by (auto simp: bpf_run_ins hash_filter_def)
  show ?thesis
  proof (cases "tags = []")
    case True
    with sub show ?thesis by (simp add: filter_code_def bpf_run_ins(1) [OF w(1)] bpf_run_ins(3))
  next
    case False
    have "bpf_run (tag_code tags @ ins_stmt BPF_RET_K 0 # ?sub) msg UDEV_MONITOR_MAGIC = Some (if hash_filter subs tags s d then 0xffffffff else 0)"
      using False sub by (subst run_tags [OF w(4,5) assms(3)]) (auto simp: hash_filter_def hi_lo_and)
    with False show ?thesis by (simp add: filter_code_def bpf_run_ins(1) [OF w(1)] bpf_run_ins(3))
  qed
qed

text \<open>A packet without the magic number.\<close>

lemma filter_code_other:
  assumes "12 \<le> length pkt" "of_be32 (take 4 (drop 8 pkt)) \<noteq> UDEV_MONITOR_MAGIC"
  shows "bpf_run (filter_code subs tags) pkt 0 = Some 0xffffffff"
proof -
  have "word_at pkt off_magic (of_be32 (take 4 (drop 8 pkt)))" using assms(1) by (simp add: word_at_def)
  with assms(2) show ?thesis by (simp add: filter_code_def bpf_run_ins)
qed

lemma passes_hash_filter:
  assumes "passes_filter m d = Some True" "dv_subsystem d = Some s"
    and "list_contents (um_filter_subsystem_list m) = Some subs" "list_contents (um_filter_tag_list m) = Some tags"
  shows "hash_filter subs (map fst tags) s d"
proof -
  define ok where "ok x \<longleftrightarrow> fst x = s \<and> (case snd x of None \<Rightarrow> True | Some t \<Rightarrow> dv_devtype d = Some t)" for x :: "cstr \<times> cstr option"
  have "subsystem_loop d xs = Some True \<Longrightarrow> \<exists>x \<in> set xs. ok x" for xs
  proof (induction xs)
    case (Cons x xs)
    have "ok x \<or> subsystem_loop d (x # xs) = subsystem_loop d xs"
      using assms(2) by (cases x) (auto simp: ok_def split: option.splits)
    with Cons show ?case by auto
  qed simp
  then have "subs = [] \<or> (\<exists>x \<in> set subs. ok x)"
    using assms by (auto simp: passes_filter_def bind_eq_Some_conv split: if_splits)
  moreover have "tags = [] \<or> (\<exists>t \<in> set tags. fst t \<in> set (dv_tags d))"
    using assms by (auto simp: passes_filter_def bind_eq_Some_conv split: if_splits)
  moreover have "device_bloom d AND util_string_bloom64 t = util_string_bloom64 t" if "t \<in> set (dv_tags d)" for t
    using that and_fold_or [of t "dv_tags d" 0 util_string_bloom64] by (simp add: device_bloom_def)
  ultimately show ?thesis by (fastforce simp: hash_filter_def device_type_hash_def ok_def split: option.splits)
qed

text \<open>
  C37: The program in the kernel computes the filter. For at most 43 tags, and lists that fit the array of
  instructions, compiling succeeds, and the program passes the message of a device exactly if the device passes the
  test on hashes: no tag filter or one whose Bloom bits are all among the device's, and no subsystem filter or one with the hashes of
  the device's subsystem and type. So every device that passes the test on strings in the library passes the kernel's. A packet of at least
  twelve bytes that does not have the magic number of libudev in its header, such as one of the kernel, always passes.
\<close>

theorem filter_program_exact:
  assumes "ul_inv (um_filter_subsystem_list m) as" "ul_inv (um_filter_tag_list m) bs" "as \<noteq> [] \<or> bs \<noteq> []"
    and "length bs \<le> 43" "6 * length bs + 5 * length as \<le> 506"
    and "device_message d = Some (Inr msg)" "dv_subsystem d = Some s"
  shows "\<exists>prog. filter_program m = Some (Inr prog) \<and> length prog \<le> 512 \<and>
    bpf_run prog msg 0 =
      Some (if hash_filter (ul_alist (um_filter_subsystem_list m) as) (map (name_of (um_filter_tag_list m)) bs) s d then 0xffffffff else 0) \<and>
    (passes_filter m d = Some True \<longrightarrow> bpf_run prog msg 0 = Some 0xffffffff) \<and>
    (\<forall>pkt. 12 \<le> length pkt \<longrightarrow> of_be32 (take 4 (drop 8 pkt)) \<noteq> UDEV_MONITOR_MAGIC \<longrightarrow> bpf_run prog pkt 0 = Some 0xffffffff)"
proof -
  let ?subs = "ul_alist (um_filter_subsystem_list m) as" and ?tags = "map fst (ul_alist (um_filter_tag_list m) bs)"
  have t: "?tags = map (name_of (um_filter_tag_list m)) bs" by (simp add: ul_alist_def)
  then have "length ?tags \<le> 43" using assms(4) by simp
  note run = filter_code_run [OF assms(6,7) this, of ?subs]
  have "length (filter_code ?subs ?tags) \<le> 512"
    using length_subsystem_code [of ?subs] assms(5) by (auto simp: filter_code_def length_tag_code ul_alist_def)
  moreover have "passes_filter m d = Some True \<Longrightarrow> hash_filter ?subs ?tags s d"
    using passes_hash_filter assms(7) list_contents_ok [OF assms(1)] list_contents_ok [OF assms(2)] by blast
  ultimately show ?thesis
    using filter_program_code [OF assms(1-3,5)] run t filter_code_other [of _ ?subs ?tags] by auto
qed

definition witness_monitor :: udev_monitor where
  "witness_monitor = udev_monitor_new\<lparr>um_filter_tag_list := snd (the (udev_list_entry_add True (udev_list_init True) ''seat'' None))\<rparr>"

definition witness_device :: udev_device where
  "witness_device = \<lparr>dv_subsystem = Some ''input'', dv_devtype = None, dv_tags = [''seat''], dv_monitor_buf = replicate 32 0\<rparr>"

theorem filter_program_exact_witness:
  "\<exists>prog msg. filter_program witness_monitor = Some (Inr prog) \<and> device_message witness_device = Some (Inr msg) \<and>
     bpf_run prog msg 0 = Some 0xffffffff \<and> bpf_run prog (bytes_of ''add@/devices/usb1'') 0 = Some 0xffffffff"
proof -
  let ?l = "udev_list_init True"
  obtain a l' as' where l': "udev_list_entry_add True ?l ''seat'' None = Some (Some a, l')" "ul_inv l' as'" "a \<in> set as'" "length as' \<le> Suc (length ([] :: addr list))" "name_of l' a = ''seat''"
    by (rule add_unique [OF ul_inv_init [of True], of "''seat''" None]) (simp_all add: udev_list_init_def)
  then have m: "um_filter_tag_list witness_monitor = l'" "um_filter_subsystem_list witness_monitor = udev_list_init False"
    by (simp_all add: witness_monitor_def udev_monitor_new_def)
  have i: "ul_inv (um_filter_subsystem_list witness_monitor) []" "ul_inv (um_filter_tag_list witness_monitor) as'" "as' \<noteq> []"
    using l' m ul_inv_init by auto
  obtain msg where msg: "device_message witness_device = Some (Inr msg)"
    by (simp add: device_message_def witness_device_def Let_def)
  have "(''seat'', value_of l' a) \<in> set (ul_alist l' as')" using l'(3,5) by (force simp: ul_alist_def image_iff)
  then have "passes_filter witness_monitor witness_device = Some True"
    using list_contents_ok [OF i(1)] list_contents_ok [OF i(2)] m(1) by (force simp: passes_filter_def witness_device_def ul_alist_def)
  moreover have "12 \<le> length (bytes_of ''add@/devices/usb1'')" "of_be32 (take 4 (drop 8 (bytes_of ''add@/devices/usb1''))) \<noteq> UDEV_MONITOR_MAGIC"
    by (simp_all add: bytes_of_def UDEV_MONITOR_MAGIC_def)
  ultimately show ?thesis using filter_program_exact [OF i(1,2) _ _ _ msg] i(3) l'(4) msg by (fastforce simp: witness_device_def)
qed

text \<open>
  With 44 tags or more the jump behind the tags no longer fits the eight bits of \<open>jt\<close>: the jump of the first tag goes into the code of the
  second. With 85 tags the array is too short, and nothing checks it.
\<close>

lemma filter_tags_jump_wraps:
  assumes "length ts = 43"
  shows "sf_jt (tag_code (t # ts) ! 5) = 3"
  using assms by (simp add: ins_jeq_def)

lemma filter_tags_overflow:
  assumes "length ts = 85"
  shows "filter_tags ts (length ts) (replicate 3 i) = None"
proof -
  obtain us t where ts: "ts = us @ [t]" "length us = 84" using assms by (cases ts rule: rev_cases) auto
  have "filter_tags (us @ [t]) n ins = None" if "length ins + 6 * length us = 507" for n ins
    using that
  proof (induction us arbitrary: n ins)
    case Nil
    then show ?case by (simp add: bpf_emit Let_def) (simp add: bpf_stmt_def bpf_jmp_def)
  next
    case (Cons u us)
    then show ?case by (simp add: bpf_emit Let_def)
  qed
  with ts show ?thesis by simp
qed

text \<open>\<open>udev_monitor_filter_remove\<close> leaves the tags.\<close>

lemma filter_remove_keeps_tags:
  "udev_monitor_filter_remove err m = Some (rc, m') \<Longrightarrow> um_filter_tag_list m' = um_filter_tag_list m"
  by (auto simp: udev_monitor_filter_remove_def bind_eq_Some_conv)

section \<open>Receiving\<close>

record mon_packet =
  mp_bytes :: "byte list"
  mp_trunc :: bool
  mp_groups :: nat
  mp_pid :: nat
  mp_uid :: "nat option"

datatype payload = Refused | Kernel "byte list" | Udev "byte list"

definition bytes_strstr :: "byte list \<Rightarrow> byte list \<Rightarrow> bool" where
  "bytes_strstr s p = (\<exists>i \<in> set [0..<Suc (length s)]. prefix p (drop i s))"

text \<open>
  The properties in a message. The sum \<open>properties_off + 32\<close> has 32 bits. \<open>None\<close> is a read outside the message: an
  offset past its end, or a header without NUL.
\<close>

definition message_payload :: "byte list \<Rightarrow> payload option" where
  "message_payload buf =
     (if take 8 buf = bytes_of ''libudev'' @ [0] then
        if of_be32 (take 4 (drop 8 buf)) \<noteq> UDEV_MONITOR_MAGIC then Some Refused
        else
          (let off = of_le32 (take 4 (drop 16 buf))
           in if unat (off + 32) > length buf then Some Refused
              else if unat off > length buf then None
              else Some (Udev (drop (unat off) buf)))
      else if 0 \<notin> set buf then None
      else
        (let bufpos = length (takeWhile (\<lambda>c. c \<noteq> 0) buf) + 1
         in if bufpos < 5 \<or> bufpos \<ge> length buf then Some Refused
            else if \<not> bytes_strstr (takeWhile (\<lambda>c. c \<noteq> 0) buf) (bytes_of ''@/'') then Some Refused
            else Some (Kernel (drop bufpos buf))))"

abbreviation (input) UDEV_MONITOR_KERNEL :: nat where "UDEV_MONITOR_KERNEL \<equiv> 1"

text \<open>Who may send: root, and in unicast only the trusted sender, in the kernel's group only the kernel.\<close>

definition sender_ok :: "udev_monitor \<Rightarrow> mon_packet \<Rightarrow> bool" where
  "sender_ok m p \<longleftrightarrow>
     \<not> (length (mp_bytes p) < 32 \<or> mp_trunc p) \<and>
     \<not> (mp_groups p = 0 \<and> (um_trusted_sender m = 0 \<or> mp_pid p \<noteq> um_trusted_sender m)) \<and>
     \<not> (mp_groups p = UDEV_MONITOR_KERNEL \<and> mp_pid p > 0) \<and>
     mp_uid p = Some 0"

text \<open>
  Receiving from netlink. \<open>new_from_nulstr\<close> makes a device of properties; the list is what is queued on the socket. A device that does not
  pass the filter is skipped if more is queued. The flag of the result is \<open>is_initialized\<close>.
\<close>

definition payload_device :: "(byte list \<Rightarrow> udev_device option) \<Rightarrow> payload \<Rightarrow> (udev_device \<times> bool) option" where
  "payload_device new_from_nulstr pl =
     (case pl of
        Refused \<Rightarrow> None
      | Kernel b \<Rightarrow> map_option (\<lambda>d. (d, False)) (new_from_nulstr b)
      | Udev b \<Rightarrow> map_option (\<lambda>d. (d, True)) (new_from_nulstr b))"

fun udev_monitor_receive_device_netlink ::
  "(byte list \<Rightarrow> udev_device option) \<Rightarrow> udev_monitor \<Rightarrow> mon_packet list \<Rightarrow> ((udev_device \<times> bool) option \<times> mon_packet list) option" where
  "udev_monitor_receive_device_netlink new_from_nulstr m [] = Some (None, [])"
| "udev_monitor_receive_device_netlink new_from_nulstr m (p # ps) =
     (if \<not> sender_ok m p then Some (None, ps)
      else
        do { pl \<leftarrow> message_payload (mp_bytes p);
             (case payload_device new_from_nulstr pl of
                None \<Rightarrow> Some (None, ps)
              | Some (d, init) \<Rightarrow>
                  do { ok \<leftarrow> passes_filter m d;
                       if ok then Some (Some (d, init), ps)
                       else if ps \<noteq> [] then udev_monitor_receive_device_netlink new_from_nulstr m ps
                       else Some (None, ps) }) })"

lemma receive_device_safe:
  assumes "udev_monitor_receive_device_netlink mk m ps = Some (Some (d, init), ps')"
  shows "\<exists>p \<in> set ps. sender_ok m p \<and> passes_filter m d = Some True \<and>
    (\<exists>pl. message_payload (mp_bytes p) = Some pl \<and> payload_device mk pl = Some (d, init))"
  using assms
proof (induction ps)
  case (Cons p ps)
  then have "(sender_ok m p \<and> passes_filter m d = Some True \<and> (\<exists>pl. message_payload (mp_bytes p) = Some pl \<and> payload_device mk pl = Some (d, init))) \<or>
      udev_monitor_receive_device_netlink mk m ps = Some (Some (d, init), ps')"
    by (auto simp: bind_eq_Some_conv split: if_splits option.splits prod.splits)
  with Cons.IH show ?case by auto
qed simp

text \<open>What is sent is received: the payload of the message of a device is its properties.\<close>

lemma of_le32_le32: "of_le32 (le32 x) = x"
  using of_be32_be32 [of x] by (simp add: of_le32_def le32_def be32_def)

lemma message_roundtrip:
  assumes "device_message d = Some (Inr msg)"
  shows "message_payload msg = Some (Udev (dv_monitor_buf d))"
proof -
  obtain h where h: "msg = nlh_bytes h @ dv_monitor_buf d" "nlh_prefix h = bytes_of ''libudev'' @ [0]" "nlh_magic h = UDEV_MONITOR_MAGIC"
    "nlh_properties_off h = 40" "length (dv_monitor_buf d) \<ge> 32"
    using assms by (auto simp: device_message_def Let_def split: if_splits option.splits)
  have l: "length (bytes_of ''libudev'') = 7" by (simp add: bytes_of_def)
  have "take 8 msg = bytes_of ''libudev'' @ [0]" "take 4 (drop 8 msg) = be32 UDEV_MONITOR_MAGIC" "take 4 (drop 16 msg) = le32 40"
    "length msg = 40 + length (dv_monitor_buf d)" "drop 40 msg = dv_monitor_buf d"
    by (simp_all add: h nlh_bytes_def l)
  with h(5) show ?thesis by (simp add: message_payload_def of_be32_be32 of_le32_le32)
qed

text \<open>The check of the offset wraps around: for an offset close to $2^{32}$ it succeeds, and the properties are read outside the message.\<close>

lemma payload_offset_wraps:
  "message_payload (bytes_of ''libudev'' @ [0] @ be32 UDEV_MONITOR_MAGIC @ le32 40 @ le32 0xfffffff0 @ replicate 20 0) = None"
proof -
  let ?m = "bytes_of ''libudev'' @ [0] @ be32 UDEV_MONITOR_MAGIC @ le32 40 @ le32 0xfffffff0 @ replicate 20 0"
  have l: "length (bytes_of ''libudev'') = 7" by (simp add: bytes_of_def)
  have "take 8 ?m = bytes_of ''libudev'' @ [0]" "take 4 (drop 8 ?m) = be32 UDEV_MONITOR_MAGIC" "take 4 (drop 16 ?m) = le32 0xfffffff0" "length ?m = 40"
    by (simp_all add: l)
  then show ?thesis unfolding message_payload_def by (simp add: of_be32_be32 of_le32_le32 Let_def)
qed

section \<open>Sending\<close>

definition udev_monitor_send_device ::
  "(byte list \<Rightarrow> int) \<Rightarrow> udev_monitor option \<Rightarrow> udev_monitor option \<Rightarrow> udev_device \<Rightarrow> rc option" where
  "udev_monitor_send_device sendmsg m destination d =
     (case m of
        None \<Rightarrow> Some (- EINVAL)
      | Some _ \<Rightarrow>
          do { msg \<leftarrow> device_message d;
               (case msg of
                  Inl rc \<Rightarrow> Some rc
                | Inr bytes \<Rightarrow>
                    (let count = sendmsg bytes
                     in Some (if count < 0 then (if destination = None then 0 else count) else count))) })"

end
