(* ===== verification/Udev_Util.thy ===== *)
theory Udev_Util
  imports Udev_Utf8
begin

text \<open>
  The string utilities of libudev-compat: \<^verbatim>\<open>strxcpyx.c\<close> (bounded copies), \<^verbatim>\<open>device-nodes.c\<close> (encoding of
  names for device nodes) and \<^verbatim>\<open>libudev-util.c\<close> (paths in sysfs, encodings and replacements).
\<close>

unbundle bit_operations_syntax

section \<open>Bounded copies\<close>

text \<open>
  \<open>dest\<close> is the pair of what is in the buffer and the size that is left; the NUL behind is always written, so a
  first call with size 0 is a write outside the buffer, which is \<open>None\<close> in the functions that make it.
\<close>

definition strpcpy :: "cstr \<times> nat \<Rightarrow> cstr \<Rightarrow> cstr \<times> nat" where
  "strpcpy dest src =
     (case dest of (text, room) \<Rightarrow>
        if length src \<ge> room then (if room > 1 then text @ take (room - 1) src else text, 0)
        else (text @ src, room - length src))"

definition strpcpyl :: "cstr \<times> nat \<Rightarrow> cstr list \<Rightarrow> cstr \<times> nat" where
  "strpcpyl dest srcs = foldl strpcpy dest srcs"

definition strscpyl :: "nat \<Rightarrow> cstr list \<Rightarrow> (cstr \<times> nat) option" where
  "strscpyl room srcs = (if room = 0 then None else Some (strpcpyl ([], room) srcs))"

definition strscpy :: "nat \<Rightarrow> cstr \<Rightarrow> (cstr \<times> nat) option" where
  "strscpy room src = strscpyl room [src]"

text \<open>A copy of formatted text; \<open>vsnprintf\<close> has printed as much of the text as fits.\<close>

definition strpcpyf :: "cstr \<times> nat \<Rightarrow> cstr \<Rightarrow> (cstr \<times> nat) option" where
  "strpcpyf dest formatted =
     (case dest of (text, room) \<Rightarrow>
        if length formatted < room then Some (text @ formatted, room - length formatted) else None)"

section \<open>Names of device nodes\<close>

definition whitelisted_char_for_devnode :: "byte \<Rightarrow> byte list option \<Rightarrow> bool" where
  "whitelisted_char_for_devnode c white \<longleftrightarrow>
     (0x30 \<le> c \<and> c \<le> 0x39) \<or> (0x41 \<le> c \<and> c \<le> 0x5a) \<or> (0x61 \<le> c \<and> c \<le> 0x7a) \<or>
     c \<in> set (bytes_of ''#+-.:=@_'') \<or>
     (case white of None \<Rightarrow> False | Some w \<Rightarrow> c \<in> set w)"

abbreviation BACKSLASH :: byte where "BACKSLASH \<equiv> 0x5c"

text \<open>
  The encoding, into a buffer of \<open>len\<close> bytes of which \<open>out\<close> is written. \<open>None\<close> is a write past the buffer: \<open>sprintf\<close>
  writes four characters and a NUL where four are checked.
\<close>

function encode_devnode_loop :: "nat \<Rightarrow> byte list \<Rightarrow> byte list \<Rightarrow> (rc \<times> byte list) option" where
  "encode_devnode_loop len str out =
     (case str of
        [] \<Rightarrow> Some (if len - length out < 1 then (- EINVAL, out) else (0, out))
      | c # rest \<Rightarrow>
          (let seqlen = utf8_encoded_valid_unichar str
           in if seqlen > 1 then
                if len - length out < nat seqlen then Some (- EINVAL, out)
                else encode_devnode_loop len (drop (nat seqlen) str) (out @ take (nat seqlen) str)
              else if c = BACKSLASH \<or> \<not> whitelisted_char_for_devnode c None then
                if len - length out < 4 then Some (- EINVAL, out)
                else if len - length out < 5 then None
                else encode_devnode_loop len rest (out @ hex_escape c)
              else if len - length out < 1 then Some (- EINVAL, out)
              else encode_devnode_loop len rest (out @ [c])))"
  by pat_completeness auto
termination by (relation "measure (\<lambda>(len, str, out). length str)") auto

declare encode_devnode_loop.simps [simp del]

definition encode_devnode_name :: "byte list option \<Rightarrow> nat \<Rightarrow> (rc \<times> byte list) option" where
  "encode_devnode_name str len =
     (case str of None \<Rightarrow> Some (- EINVAL, []) | Some s \<Rightarrow> encode_devnode_loop len s [])"

definition udev_util_encode_string :: "byte list option \<Rightarrow> nat \<Rightarrow> (rc \<times> byte list) option" where
  "udev_util_encode_string str len = encode_devnode_name str len"

section \<open>Encodings and replacements\<close>

text \<open>Paths as names; the result is the length, and 0 if the buffer of \<open>room\<close> bytes is too small (\<open>None\<close>: no room for the NUL).\<close>

fun path_encode_loop :: "nat \<Rightarrow> cstr \<Rightarrow> cstr \<Rightarrow> cstr" where
  "path_encode_loop room [] dest = dest"
| "path_encode_loop room (c # src) dest =
     (if c = SLASH then
        if length dest + 4 \<ge> room then [] else path_encode_loop room src (dest @ [CHR 0x5c, CHR ''x'', CHR ''2'', CHR ''f''])
      else if c = CHR 0x5c then
        if length dest + 4 \<ge> room then [] else path_encode_loop room src (dest @ [CHR 0x5c, CHR ''x'', CHR ''5'', CHR ''c''])
      else if length dest + 1 \<ge> room then [] else path_encode_loop room src (dest @ [c]))"

definition util_path_encode :: "cstr \<Rightarrow> nat \<Rightarrow> (nat \<times> cstr) option" where
  "util_path_encode src room =
     (if room = 0 then None else (let dest = path_encode_loop room src [] in Some (length dest, dest)))"

definition util_remove_trailing_chars :: "cstr \<Rightarrow> char \<Rightarrow> cstr" where
  "util_remove_trailing_chars path c = rev (dropWhile (\<lambda>x. x = c) (rev path))"

text \<open>Every run of white space inside becomes one underscore.\<close>

function collapse_spaces :: "cstr \<Rightarrow> cstr" where
  "collapse_spaces [] = []"
| "collapse_spaces (c # s) =
     (if isspace c then
        (case dropWhile isspace s of [] \<Rightarrow> [CHR ''_''] | d # s' \<Rightarrow> CHR ''_'' # d # collapse_spaces s')
      else c # collapse_spaces s)"
  by pat_completeness auto
termination
proof (relation "measure length", goal_cases)
  case (2 c s d s')
  then have "length (d # s') \<le> length s" by (metis length_dropWhile_le)
  then show ?case by simp
qed simp_all

definition util_replace_whitespace :: "cstr \<Rightarrow> nat \<Rightarrow> cstr" where
  "util_replace_whitespace str len =
     collapse_spaces (dropWhile isspace (rev (dropWhile isspace (rev (take len str)))))"

definition isspace_byte :: "byte \<Rightarrow> bool" where
  "isspace_byte c \<longleftrightarrow> c = 0x20 \<or> (0x09 \<le> c \<and> c \<le> 0x0d)"

text \<open>Replacing what is not allowed; the number of replacements, and the string.\<close>

function util_replace_chars :: "byte list option \<Rightarrow> byte list \<Rightarrow> nat \<times> byte list" where
  "util_replace_chars white str =
     (case str of
        [] \<Rightarrow> (0, [])
      | c # rest \<Rightarrow>
          if whitelisted_char_for_devnode c white then apsnd ((#) c) (util_replace_chars white rest)
          else if c = BACKSLASH \<and> first_byte rest = 0x78 then apsnd ((@) [c, 0x78]) (util_replace_chars white (tl rest))
          else
            (let len = utf8_encoded_valid_unichar str
             in if len > 1 then apsnd ((@) (take (nat len) str)) (util_replace_chars white (drop (nat len) str))
                else if isspace_byte c \<and> (case white of None \<Rightarrow> False | Some w \<Rightarrow> 0x20 \<in> set w)
                then map_prod Suc ((#) 0x20) (util_replace_chars white rest)
                else map_prod Suc ((#) 0x5f) (util_replace_chars white rest)))"
  by pat_completeness auto
termination
proof (relation "measure (\<lambda>(white, str). length str)", goal_cases)
  case (3 white str c rest)
  then show ?case by (cases rest) auto
qed auto

declare util_replace_chars.simps [simp del]

section \<open>Paths in sysfs\<close>

abbreviation UTIL_PATH_SIZE :: nat where "UTIL_PATH_SIZE \<equiv> 1024"

text \<open>
  The format \<open>[subsystem/name]attribute\<close>. The devices are parameters: \<open>lookup\<close> gives the path of the device of a subsystem, and
  \<open>attr_value\<close> its attributes.
\<close>

definition parse_subsys_kernel :: "cstr \<Rightarrow> (cstr \<times> cstr \<times> cstr option) option" where
  "parse_subsys_kernel string =
     (let temp = take (UTIL_PATH_SIZE - 1) string
      in if string = [] \<or> hd string \<noteq> CHR ''['' then None
         else
           (case strchr (tl temp) SLASH of
              None \<Rightarrow> None
            | Some s \<Rightarrow>
                (let subsys = takeWhile (\<lambda>c. c \<noteq> SLASH) (tl temp); sysname = tl s
                 in case strchr sysname (CHR '']'') of
                      None \<Rightarrow> None
                    | Some a \<Rightarrow>
                        (let attr = (if tl a \<noteq> [] \<and> hd (tl a) = SLASH then tl (tl a) else tl a)
                         in Some (subsys, takeWhile (\<lambda>c. c \<noteq> CHR '']'') sysname, if attr = [] then None else Some attr)))))"


text \<open>
  \<open>device subsys sysname\<close> is the path of the device in sysfs, if there is one; \<open>sysattr path attr\<close> an attribute of it. The result buffer has
  \<open>maxsize\<close> bytes.
\<close>

definition util_resolve_subsys_kernel ::
  "(cstr \<Rightarrow> cstr \<Rightarrow> cstr option) \<Rightarrow> (cstr \<Rightarrow> cstr \<Rightarrow> cstr option) \<Rightarrow> cstr \<Rightarrow> nat \<Rightarrow> bool \<Rightarrow> (rc \<times> cstr) option" where
  "util_resolve_subsys_kernel device sysattr string maxsize read_value =
     (case parse_subsys_kernel string of
        None \<Rightarrow> Some (- 1, [])
      | Some (subsys, sysname, attr) \<Rightarrow>
          if read_value \<and> attr = None then Some (- 1, [])
          else
            (case device subsys sysname of
               None \<Rightarrow> Some (- 1, [])
             | Some syspath \<Rightarrow>
                 if maxsize = 0 then None
                 else if read_value then
                   (case sysattr syspath (the attr) of
                      Some val \<Rightarrow> Some (0, fst (strpcpyl ([], maxsize) [val]))
                    | None \<Rightarrow> Some (0, []))
                 else Some (0, fst (strpcpyl (strpcpyl ([], maxsize) [syspath]) (case attr of None \<Rightarrow> [] | Some a \<Rightarrow> [[SLASH], a])))))"

text \<open>The text after the last slash.\<close>

definition after_slash :: "cstr \<Rightarrow> cstr option" where
  "after_slash s = (if SLASH \<in> set s then Some (rev (takeWhile (\<lambda>c. c \<noteq> SLASH) (rev s))) else None)"

text \<open>The text before the last slash: what is left when the slash is overwritten.\<close>

definition before_slash :: "cstr \<Rightarrow> cstr option" where
  "before_slash s = (if SLASH \<in> set s then Some (rev (tl (dropWhile (\<lambda>c. c \<noteq> SLASH) (rev s)))) else None)"

text \<open>\<open>readlink\<close> gives the target of a link, at most \<open>UTIL_PATH_SIZE\<close> bytes of it; a target that fills the buffer is refused.\<close>

definition link_target :: "(cstr \<Rightarrow> cstr option) \<Rightarrow> cstr \<Rightarrow> cstr option" where
  "link_target readlink path =
     (case readlink path of
        None \<Rightarrow> None
      | Some t \<Rightarrow> if t = [] \<or> length t \<ge> UTIL_PATH_SIZE then None else Some t)"

definition util_get_sys_core_link_value :: "(cstr \<Rightarrow> cstr option) \<Rightarrow> cstr \<Rightarrow> cstr \<Rightarrow> nat \<Rightarrow> (int \<times> cstr) option" where
  "util_get_sys_core_link_value readlink slink syspath room =
     (case link_target readlink (fst (strpcpyl ([], UTIL_PATH_SIZE) [syspath, [SLASH], slink])) of
        None \<Rightarrow> Some (- 1, [])
      | Some target \<Rightarrow>
          (case after_slash target of
             None \<Rightarrow> Some (- 1, [])
           | Some pos \<Rightarrow> map_option (\<lambda>(text, left). (int left, text)) (strscpy room pos)))"

fun count_back :: "cstr \<Rightarrow> nat \<times> cstr" where
  "count_back (a # b # c # s) =
     (if [a, b, c] = ''../'' then apfst Suc (count_back s) else (0, a # b # c # s))"
| "count_back s = (0, s)"

text \<open>The path without its last components, or what was left when there was none.\<close>

fun strip_components :: "nat \<Rightarrow> cstr \<Rightarrow> cstr + cstr" where
  "strip_components 0 s = Inr s"
| "strip_components (Suc n) s = (case before_slash s of None \<Rightarrow> Inl s | Some t \<Rightarrow> strip_components n t)"

text \<open>Replacing the path of a link by the path it points to, in a buffer of \<open>room\<close> bytes.\<close>

definition util_resolve_sys_link :: "(cstr \<Rightarrow> cstr option) \<Rightarrow> cstr \<Rightarrow> nat \<Rightarrow> (rc \<times> cstr) option" where
  "util_resolve_sys_link readlink syspath room =
     (case link_target readlink syspath of
        None \<Rightarrow> Some (- 1, syspath)
      | Some target \<Rightarrow>
          (case count_back target of
             (back, rest) \<Rightarrow>
               (case strip_components (Suc back) syspath of
                  Inl left \<Rightarrow> Some (- EINVAL, left)
                | Inr base \<Rightarrow>
                    if room \<le> length base then None
                    else Some (0, fst (strpcpyl (base, room - length base) [[SLASH], rest])))))"

text \<open>
  Levels of the log. \<open>strtoul\<close> gives an \<open>unsigned long\<close>, of which \<open>int\<close> keeps 32 bits.
\<close>

definition util_log_priority :: "cstr \<Rightarrow> rc" where
  "util_log_priority priority =
     (case strtoul 10 priority of
        (n, rest) \<Rightarrow>
          (let prio = sint (of_nat n :: 32 word)
           in if rest = [] \<or> isspace (hd rest) then if prio \<ge> 0 \<and> prio \<le> 7 then prio else - ERANGE
              else if strcasecmp_eq priority ''err'' then 3
              else if strcasecmp_eq priority ''debug'' then 7
              else if strcasecmp_eq priority ''info'' then 6
              else - EINVAL))"

section \<open>Copies\<close>

text \<open>A copy of several strings is the beginning of their concatenation that fits, and the room that is left tells whether it is whole.\<close>

lemma strpcpyl_acc:
  assumes "0 < room"
  shows "strpcpyl (take (room - 1) t, room - length t) srcs =
    (take (room - 1) (t @ concat srcs), room - length (t @ concat srcs))"
proof (induction srcs arbitrary: t)
  case (Cons src srcs)
  have "strpcpy (take (room - 1) t, room - length t) src = (take (room - 1) (t @ src), room - length (t @ src))"
    using assms by (auto simp: strpcpy_def min_def take_Suc_conv_app_nth)
  with Cons [of "t @ src"] show ?case by (simp add: strpcpyl_def)
qed (simp add: strpcpyl_def)

lemma strscpyl_ok:
  assumes "0 < room"
  shows "strscpyl room srcs = Some (take (room - 1) (concat srcs), room - length (concat srcs))"
  using strpcpyl_acc [OF assms, of "[]" srcs] assms by (simp add: strscpyl_def)

section \<open>The encoding of device names\<close>

text \<open>The encoding without a buffer, and its inverse with \<open>unhexchar\<close> of \<^verbatim>\<open>util.c\<close>.\<close>

function devnode_enc :: "byte list \<Rightarrow> byte list" where
  "devnode_enc str =
     (case str of
        [] \<Rightarrow> []
      | c # rest \<Rightarrow>
          (let seqlen = utf8_encoded_valid_unichar str
           in if seqlen > 1 then take (nat seqlen) str @ devnode_enc (drop (nat seqlen) str)
              else if c = BACKSLASH \<or> \<not> whitelisted_char_for_devnode c None then hex_escape c @ devnode_enc rest
              else c # devnode_enc rest))"
  by pat_completeness auto
termination by (relation "measure length") auto

declare devnode_enc.simps [simp del]

definition unhexchar :: "byte \<Rightarrow> int" where
  "unhexchar c =
     (if 0x30 \<le> c \<and> c \<le> 0x39 then uint c - 0x30
      else if 0x61 \<le> c \<and> c \<le> 0x66 then uint c - 0x61 + 10
      else if 0x41 \<le> c \<and> c \<le> 0x46 then uint c - 0x41 + 10
      else - EINVAL)"

fun devnode_dec :: "byte list \<Rightarrow> byte list" where
  "devnode_dec (a # b # c # d # s) =
     (if a = BACKSLASH \<and> b = 0x78 then (push_bit 4 (word_of_int (unhexchar c)) OR word_of_int (unhexchar d)) # devnode_dec s
      else a # devnode_dec (b # c # d # s))"
| "devnode_dec (a # s) = a # devnode_dec s"
| "devnode_dec [] = []"

lemma dec_plain: "a \<noteq> BACKSLASH \<Longrightarrow> devnode_dec (a # s) = a # devnode_dec s"
  by (cases "a # s" rule: devnode_dec.cases) auto

lemma dec_plain_append: "BACKSLASH \<notin> set x \<Longrightarrow> devnode_dec (x @ s) = x @ devnode_dec s"
  by (induction x) (simp_all add: dec_plain)

lemma unhex_hex: "word_of_int (unhexchar (hexchar x)) = x AND 15"
proof -
  have "x AND 15 \<le> 15" by (metis word_and_le1)
  then have "unat (x AND 15) \<in> set [0..<16]" by (simp add: word_le_nat_alt)
  moreover have "\<forall>n \<in> set [0..<16]. unhexchar (bytes_of ''0123456789abcdef'' ! n) = int n"
    by (simp add: upt_rec bytes_of_def unhexchar_def)
  ultimately have "unhexchar (bytes_of ''0123456789abcdef'' ! unat (x AND 15)) = int (unat (x AND 15))" by blast
  then show ?thesis by (simp add: hexchar_def)
qed

lemma dec_hex: "devnode_dec (hex_escape c @ s) = c # devnode_dec s"
proof -
  have "push_bit 4 (drop_bit 4 c AND 15) OR (c AND 15) = c" for c :: byte
    by (rule bit_word_eqI, unfold utf8_bits, auto)
  then show ?thesis by (simp add: hex_escape_def bytes_of_def unhex_hex)
qed

lemma valid_high:
  "utf8_encoded_valid_unichar str > 1 \<Longrightarrow> b \<in> set (take (nat (utf8_encoded_valid_unichar str)) str) \<Longrightarrow> b AND 0x80 = 0x80"
  by (auto simp: utf8_encoded_valid_unichar_def Let_def split: if_splits option.splits)

lemma enc_cases:
  assumes "str \<noteq> []"
  obtains (multi) n where "utf8_encoded_valid_unichar str = int n" "1 < n" "n \<le> length str" "BACKSLASH \<notin> set (take n str)"
      "devnode_enc str = take n str @ devnode_enc (drop n str)"
  | (escape) c rest where "str = c # rest" "\<not> utf8_encoded_valid_unichar str > 1" "c = BACKSLASH \<or> \<not> whitelisted_char_for_devnode c None"
      "devnode_enc str = hex_escape c @ devnode_enc rest"
  | (plain) c rest where "str = c # rest" "\<not> utf8_encoded_valid_unichar str > 1" "c \<noteq> BACKSLASH" "whitelisted_char_for_devnode c None"
      "devnode_enc str = c # devnode_enc rest"
proof -
  let ?len = "utf8_encoded_valid_unichar str"
  obtain c rest where str: "str = c # rest" using assms by (cases str) auto
  show thesis
  proof (cases "?len > 1")
    case True
    then have "BACKSLASH \<notin> set (take (nat ?len) str)" using valid_high [of str BACKSLASH] by auto
    moreover have "nat ?len \<le> length str" using utf8_valid_len [of str] assms True by auto
    moreover have "devnode_enc str = take (nat ?len) str @ devnode_enc (drop (nat ?len) str)"
      using True str by (subst devnode_enc.simps) (simp add: Let_def)
    ultimately show thesis using True by (intro multi [of "nat ?len"]) auto
  next
    case False
    then have "devnode_enc str = (if c = BACKSLASH \<or> \<not> whitelisted_char_for_devnode c None then hex_escape c @ devnode_enc rest else c # devnode_enc rest)"
      using str by (subst devnode_enc.simps) (simp add: Let_def)
    with False str show thesis
      by (cases "c = BACKSLASH \<or> \<not> whitelisted_char_for_devnode c None") (auto intro: escape plain)
  qed
qed

lemma devnode_dec_enc: "devnode_dec (devnode_enc str) = str"
proof (induction "length str" arbitrary: str rule: less_induct)
  case less
  show ?case
  proof (cases "str = []")
    case False
    then show ?thesis
    proof (cases rule: enc_cases)
      case (multi n)
      have "devnode_dec (devnode_enc (drop n str)) = drop n str" using multi less.hyps by simp
      with multi show ?thesis by (simp add: dec_plain_append)
    qed (use less.hyps in \<open>simp_all add: dec_hex dec_plain\<close>)
  qed (simp add: devnode_enc.simps)
qed

lemma length_devnode_enc: "length (devnode_enc str) \<le> 4 * length str"
proof (induction "length str" arbitrary: str rule: less_induct)
  case less
  show ?case
  proof (cases "str = []")
    case False
    then show ?thesis
    proof (cases rule: enc_cases)
      case (multi n)
      then have "length (devnode_enc (drop n str)) \<le> 4 * length (drop n str)" using less.hyps [of "drop n str"] by simp
      with multi show ?thesis by simp
    next
      case (escape c rest)
      with less.hyps [of rest] show ?thesis by (simp add: hex_escape_def bytes_of_def)
    next
      case (plain c rest)
      with less.hyps [of rest] show ?thesis by simp
    qed
  qed (simp add: devnode_enc.simps)
qed

lemma encode_loop_fits:
  "length out + length (devnode_enc str) < len \<Longrightarrow> encode_devnode_loop len str out = Some (0, out @ devnode_enc str)"
proof (induction "length str" arbitrary: str out rule: less_induct)
  case less
  show ?case
  proof (cases "str = []")
    case True
    with less.prems show ?thesis by (simp add: devnode_enc.simps encode_devnode_loop.simps)
  next
    case False
    then show ?thesis
    proof (cases rule: enc_cases)
      case (multi n)
      then obtain c rest where "str = c # rest" by (cases str) auto
      moreover have "encode_devnode_loop len (drop n str) (out @ take n str) = Some (0, (out @ take n str) @ devnode_enc (drop n str))"
        using multi less.prems by (intro less.hyps) simp_all
      ultimately show ?thesis using multi less.prems by (subst encode_devnode_loop.simps) (simp add: Let_def)
    next
      case (escape c rest)
      then have l: "length (hex_escape c) = 4" by (simp add: hex_escape_def bytes_of_def)
      then have "encode_devnode_loop len rest (out @ hex_escape c) = Some (0, (out @ hex_escape c) @ devnode_enc rest)"
        using escape less.prems by (intro less.hyps) simp_all
      with escape less.prems l show ?thesis by (subst encode_devnode_loop.simps) (simp add: Let_def)
    next
      case (plain c rest)
      then have "encode_devnode_loop len rest (out @ [c]) = Some (0, (out @ [c]) @ devnode_enc rest)"
        using less.prems by (intro less.hyps) simp_all
      with plain less.prems show ?thesis by (subst encode_devnode_loop.simps) (simp add: Let_def)
    qed
  qed
qed

lemma hexchar_allowed: "whitelisted_char_for_devnode (hexchar x) None"
proof -
  have "x AND 15 \<le> 15" by (metis word_and_le1)
  then have "unat (x AND 15) \<in> set [0..<16]" by (simp add: word_le_nat_alt)
  moreover have "\<forall>n \<in> set [0..<16]. whitelisted_char_for_devnode (bytes_of ''0123456789abcdef'' ! n) None"
    by (simp add: upt_rec bytes_of_def whitelisted_char_for_devnode_def)
  ultimately show ?thesis by (simp add: hexchar_def)
qed

lemma high_bit: "(c :: byte) AND 0x80 = 0x80 \<Longrightarrow> 0x80 \<le> c"
  by (metis word_and_le2)

lemma devnode_enc_allowed:
  "c \<in> set (devnode_enc str) \<Longrightarrow> whitelisted_char_for_devnode c None \<or> c = BACKSLASH \<or> c \<ge> 0x80"
proof (induction "length str" arbitrary: str rule: less_induct)
  case less
  then have "str \<noteq> []" by (auto simp: devnode_enc.simps)
  then show ?case
  proof (cases rule: enc_cases)
    case (multi n)
    then have "\<forall>b \<in> set (take n str). 0x80 \<le> b" using valid_high [of str] by (auto intro: high_bit)
    with multi less.prems less.hyps [of "drop n str"] show ?thesis by auto
  next
    case (escape d rest)
    with less.prems less.hyps [of rest] show ?thesis
      by (auto simp: hex_escape_def bytes_of_def hexchar_allowed) (simp_all add: whitelisted_char_for_devnode_def)
  next
    case (plain d rest)
    with less.prems less.hyps [of rest] show ?thesis by auto
  qed
qed

text \<open>
  C39: Encoded device names are safe and can be decoded. With the buffer that the documentation asks for, four times the string and its
  NUL, the encoding of any string succeeds without writing past the buffer; what it writes has no byte besides the allowed
  characters, backslashes of an escape and the bytes of valid UTF-8 characters; and decoding the escapes gives back the string.
\<close>

theorem encode_devnode_ok:
  assumes "4 * length str + 1 \<le> len"
  shows "\<exists>out. encode_devnode_name (Some str) len = Some (0, out) \<and> length out < len \<and> devnode_dec out = str \<and>
    (\<forall>c \<in> set out. whitelisted_char_for_devnode c None \<or> c = BACKSLASH \<or> c \<ge> 0x80)"
proof (intro exI conjI ballI)
  have fits: "length (devnode_enc str) < len" using assms length_devnode_enc [of str] by linarith
  then show "encode_devnode_name (Some str) len = Some (0, devnode_enc str)"
    by (simp add: encode_devnode_name_def encode_loop_fits)
  show "length (devnode_enc str) < len" by (rule fits)
qed (simp_all add: devnode_dec_enc devnode_enc_allowed)

theorem encode_devnode_ok_witness:
  "\<exists>out. encode_devnode_name (Some [0x61, 0x20, 0x5c, 0xc3, 0xa4]) 21 = Some (0, out) \<and> length out < 21 \<and>
     devnode_dec out = [0x61, 0x20, 0x5c, 0xc3, 0xa4] \<and>
     (\<forall>c \<in> set out. whitelisted_char_for_devnode c None \<or> c = BACKSLASH \<or> c \<ge> 0x80)"
  using encode_devnode_ok [of "[0x61, 0x20, 0x5c, 0xc3, 0xa4]" 21] by simp

text \<open>With a buffer of exactly four bytes the escape of one byte is written with its NUL past the end.\<close>

lemma encode_devnode_overflow: "encode_devnode_name (Some [0x20]) 4 = None"
  by (simp add: encode_devnode_name_def encode_devnode_loop.simps utf8_encoded_valid_unichar_def first_byte_def
      utf8_encoded_expected_len_def whitelisted_char_for_devnode_def bytes_of_def)

section \<open>Paths as names\<close>

definition path_enc :: "cstr \<Rightarrow> cstr" where
  "path_enc src =
     concat (map (\<lambda>c. if c = SLASH then [CHR 0x5c, CHR ''x'', CHR ''2'', CHR ''f'']
                      else if c = CHR 0x5c then [CHR 0x5c, CHR ''x'', CHR ''5'', CHR ''c''] else [c]) src)"

fun path_dec :: "cstr \<Rightarrow> cstr" where
  "path_dec (a # b # c # d # s) =
     (if a = CHR 0x5c then (if c = CHR ''2'' then SLASH else CHR 0x5c) # path_dec s else a # path_dec (b # c # d # s))"
| "path_dec (a # s) = a # path_dec s"
| "path_dec [] = []"

lemma path_dec_plain: "a \<noteq> CHR 0x5c \<Longrightarrow> path_dec (a # s) = a # path_dec s"
  by (cases "a # s" rule: path_dec.cases) auto

lemma path_dec_enc: "path_dec (path_enc src) = src"
  by (induction src) (auto simp: path_enc_def path_dec_plain)

lemma path_encode_loop_eq:
  "length dest < room \<Longrightarrow>
   path_encode_loop room src dest = (if length dest + length (path_enc src) < room then dest @ path_enc src else [])"
  by (induction src arbitrary: dest) (auto simp: path_enc_def)

text \<open>A path is encoded without a slash if it fits, and can be decoded; otherwise the result is empty.\<close>

lemma util_path_encode_spec:
  assumes "0 < room"
  shows "\<exists>enc. SLASH \<notin> set enc \<and> path_dec enc = src \<and>
    util_path_encode src room = Some (if length enc < room then (length enc, enc) else (0, []))"
proof (intro exI conjI)
  show "SLASH \<notin> set (path_enc src)" by (auto simp: path_enc_def)
  show "util_path_encode src room = Some (if length (path_enc src) < room then (length (path_enc src), path_enc src) else (0, []))"
    using assms by (simp add: util_path_encode_def path_encode_loop_eq Let_def)
qed (rule path_dec_enc)

section \<open>White space and other characters\<close>

lemma collapse_no_space: "c \<in> set (collapse_spaces s) \<Longrightarrow> \<not> isspace c"
proof (induction s rule: collapse_spaces.induct)
  case (2 a s)
  have u: "\<not> isspace (CHR ''_'')" by code_simp
  show ?case
  proof (cases "dropWhile isspace s")
    case (Cons d s')
    then have "\<not> isspace d" using hd_dropWhile [of isspace s] by simp
    with Cons 2 u show ?thesis by (auto split: if_splits)
  next
    case Nil
    show ?thesis
    proof (cases "isspace a")
      case True
      then have "collapse_spaces (a # s) = ''_''" by (simp only: collapse_spaces.simps Nil if_True list.case)
      with 2 u show ?thesis by simp
    qed (use 2 in auto)
  qed
qed simp

lemma replace_whitespace_none_left: "c \<in> set (util_replace_whitespace str len) \<Longrightarrow> \<not> isspace c"
  by (simp add: util_replace_whitespace_def collapse_no_space)

lemma replace_chars_utf8:
  assumes "x = c # y" "c \<noteq> BACKSLASH" "\<not> whitelisted_char_for_devnode c white"
    "utf8_encoded_valid_unichar (x @ r) = int (length x)" "1 < length x"
  shows "util_replace_chars white (x @ r) = apsnd ((@) x) (util_replace_chars white r)"
  using assms by (subst util_replace_chars.simps) (simp add: Let_def nat_add_distrib)

text \<open>What \<open>util_replace_chars\<close> leaves is accepted as it is by a second run.\<close>

lemma replace_chars_idem: "util_replace_chars white (snd (util_replace_chars white str)) = (0, snd (util_replace_chars white str))"
proof (induction "length str" arbitrary: str rule: less_induct)
  case less
  show ?case
  proof (cases str)
    case Nil
    then show ?thesis by (simp add: util_replace_chars.simps)
  next
    case (Cons c rest)
    let ?len = "utf8_encoded_valid_unichar str"
    have u: "whitelisted_char_for_devnode 0x5f white" by (simp add: whitelisted_char_for_devnode_def bytes_of_def)
    have step: "util_replace_chars white (d # t) = apsnd ((#) d) (util_replace_chars white t)"
      if "whitelisted_char_for_devnode d white" for d t
      using that by (subst util_replace_chars.simps) simp
    have rest: "util_replace_chars white (snd (util_replace_chars white rest)) = (0, snd (util_replace_chars white rest))"
      using less.hyps [of rest] Cons by simp
    consider (white) "whitelisted_char_for_devnode c white"
      | (hex) "\<not> whitelisted_char_for_devnode c white" "c = BACKSLASH" "first_byte rest = 0x78"
      | (utf8) "\<not> whitelisted_char_for_devnode c white" "\<not> (c = BACKSLASH \<and> first_byte rest = 0x78)" "?len > 1"
      | (space) "\<not> whitelisted_char_for_devnode c white" "\<not> (c = BACKSLASH \<and> first_byte rest = 0x78)" "\<not> ?len > 1" by blast
    then show ?thesis
    proof cases
      case white
      with Cons rest show ?thesis by (subst (2 3) util_replace_chars.simps) (simp add: step)
    next
      case hex
      then obtain t where t: "rest = 0x78 # t" by (cases rest) (auto simp: first_byte_def)
      have s: "util_replace_chars white str = apsnd ((@) [c, 0x78]) (util_replace_chars white t)"
        using hex Cons t by (subst util_replace_chars.simps) simp
      have "util_replace_chars white (c # 0x78 # snd (util_replace_chars white t)) = (0, c # 0x78 # snd (util_replace_chars white t))"
        using hex Cons t less.hyps [of t] by (subst util_replace_chars.simps) (simp add: first_byte_def)
      with s show ?thesis by simp
    next
      case utf8
      let ?r = "snd (util_replace_chars white (drop (nat ?len) str))" and ?c = "take (nat ?len) str"
      have c: "?c = c # take (nat ?len - 1) rest" using utf8 Cons by (simp add: take_Cons')
      have b: "c \<noteq> BACKSLASH" using valid_high [OF utf8(3), of c] c by auto
      have s: "util_replace_chars white str = apsnd ((@) (take (nat ?len) str)) (util_replace_chars white (drop (nat ?len) str))"
        using utf8 Cons b by (subst util_replace_chars.simps) (simp add: Let_def)
      have v: "utf8_encoded_valid_unichar (?c @ ?r) = ?len"
        using valid_prefix(1) [of str "nat ?len" ?r] utf8 Cons by simp
      have "nat ?len \<le> length str" using utf8_valid_len [of str] utf8 Cons by auto
      then have "util_replace_chars white (?c @ ?r) = apsnd ((@) ?c) (util_replace_chars white ?r)"
        using utf8 b v by (intro replace_chars_utf8 [OF c]) simp_all
      with s less.hyps [of "drop (nat ?len) str"] utf8 Cons show ?thesis by simp
    next
      case space
      define d :: byte where
        "d = (if isspace_byte c \<and> (case white of None \<Rightarrow> False | Some w \<Rightarrow> 0x20 \<in> set w) then 0x20 else 0x5f)"
      have "util_replace_chars white str = map_prod Suc ((#) d) (util_replace_chars white rest)"
        using space Cons by (subst util_replace_chars.simps) (auto simp: Let_def d_def)
      moreover have "whitelisted_char_for_devnode d white"
        using u by (auto simp: d_def whitelisted_char_for_devnode_def split: option.splits)
      ultimately show ?thesis using rest by (simp add: step)
    qed
  qed
qed

section \<open>Links in sysfs\<close>

lemma before_slash_append: "SLASH \<notin> set q \<Longrightarrow> before_slash (p @ SLASH # q) = Some p"
  by (induction q rule: rev_induct) (auto simp: before_slash_def)

lemma strip_components_join:
  "\<forall>q \<in> set qs. SLASH \<notin> set q \<Longrightarrow> strip_components (length qs) (p @ concat (map ((#) SLASH) qs)) = Inr p"
proof (induction qs rule: rev_induct)
  case (snoc q qs)
  then show ?case using before_slash_append [of q "p @ concat (map ((#) SLASH) qs)"] by simp
qed simp

lemma count_back_ups: "count_back (concat (replicate n ''../'') @ t) = apfst (\<lambda>k. n + k) (count_back t)"
  by (induction n) (simp_all add: apfst_def map_prod_def split: prod.splits)

text \<open>
  A link relative to its directory is resolved: \<open>../\<close> at the start of the target take away directories of the path, and the rest of the target is
  appended, cut off at the end of the buffer.
\<close>

lemma resolve_sys_link_ok:
  assumes link: "readlink (base @ concat (map ((#) SLASH) dirs)) = Some (concat (replicate back ''../'') @ t)"
    and target: "concat (replicate back ''../'') @ t \<noteq> []" "length (concat (replicate back ''../'') @ t) < UTIL_PATH_SIZE"
    and dirs: "length dirs = Suc back" "\<forall>d \<in> set dirs. SLASH \<notin> set d"
    and t: "take 3 t \<noteq> ''../''" and room: "length base < room"
  shows "util_resolve_sys_link readlink (base @ concat (map ((#) SLASH) dirs)) room =
    Some (0, take (room - 1) (base @ SLASH # t))"
proof -
  have "count_back t = (0, t)" using t by (cases t rule: count_back.cases) auto
  then have "count_back (concat (replicate back ''../'') @ t) = (back, t)" by (simp add: count_back_ups)
  moreover have "strip_components (Suc back) (base @ concat (map ((#) SLASH) dirs)) = Inr base"
    using strip_components_join [OF dirs(2), of base] dirs(1) by simp
  moreover have "strpcpyl (base, room - length base) [[SLASH], t] = (take (room - 1) (base @ SLASH # t), room - length (base @ SLASH # t))"
    using strpcpyl_acc [of room base "[[SLASH], t]"] room by simp
  ultimately show ?thesis using link target room by (simp add: util_resolve_sys_link_def link_target_def)
qed

end
