(* ===== verification/Udev_Hashmap.thy ===== *)
theory Udev_Hashmap
  imports Udev_Utf8 "HOL-Library.Monad_Syntax"
begin

text \<open>
  \<^verbatim>\<open>libudev-compat/hashmap.c\<close> and \<^verbatim>\<open>siphash24.c\<close>: hash tables with open addressing, linear probing and Robin Hood
  swaps, for plain maps, maps that remember the order of insertion, and sets. Keys and values are pointers, that is, 64-bit words; indexes of
  buckets are numbers below \<open>UINT_MAX\<close>, of which the last four are reserved as in the source. The buckets and the array of distances,
  which share one block of memory in the source, are two lists. The result \<open>None\<close> of an operation is a failed assertion or an access outside
  of the table.
\<close>

unbundle bit_operations_syntax

section \<open>SipHash\<close>

type_synonym ptr = "64 word"
type_synonym hash_key = "byte list"

definition ROTL :: "64 word \<Rightarrow> nat \<Rightarrow> 64 word" where
  "ROTL x b = push_bit b x OR drop_bit (64 - b) x"

fun U8TO64_LE :: "byte list \<Rightarrow> 64 word" where
  "U8TO64_LE [] = 0"
| "U8TO64_LE (p # ps) = ucast p OR push_bit 8 (U8TO64_LE ps)"

definition U64TO8_LE :: "64 word \<Rightarrow> byte list" where
  "U64TO8_LE v = map (\<lambda>i. ucast (drop_bit (8 * i) v)) [0..<8]"

type_synonym sip_state = "64 word \<times> 64 word \<times> 64 word \<times> 64 word"

definition SIPROUND :: "sip_state \<Rightarrow> sip_state" where
  "SIPROUND v =
     (case v of (v0, v1, v2, v3) \<Rightarrow>
        let v0 = v0 + v1; v1 = ROTL v1 13; v1 = v1 XOR v0; v0 = ROTL v0 32;
            v2 = v2 + v3; v3 = ROTL v3 16; v3 = v3 XOR v2;
            v0 = v0 + v3; v3 = ROTL v3 21; v3 = v3 XOR v0;
            v2 = v2 + v1; v1 = ROTL v1 17; v1 = v1 XOR v2; v2 = ROTL v2 32
        in (v0, v1, v2, v3))"

definition sip_compress :: "64 word \<Rightarrow> sip_state \<Rightarrow> sip_state" where
  "sip_compress m v =
     (case v of (v0, v1, v2, v3) \<Rightarrow>
        case SIPROUND (SIPROUND (v0, v1, v2, v3 XOR m)) of (v0, v1, v2, v3) \<Rightarrow> (v0 XOR m, v1, v2, v3))"

text \<open>The whole words of the input, and then the last bytes with the length.\<close>

function sip_words :: "byte list \<Rightarrow> sip_state \<Rightarrow> sip_state \<times> byte list" where
  "sip_words bs v = (if length bs < 8 then (v, bs) else sip_words (drop 8 bs) (sip_compress (U8TO64_LE (take 8 bs)) v))"
  by pat_completeness auto
termination by (relation "measure (\<lambda>(bs, v). length bs)") auto

declare sip_words.simps [simp del]

definition siphash24 :: "byte list \<Rightarrow> hash_key \<Rightarrow> byte list" where
  "siphash24 data k =
     (let k0 = U8TO64_LE (take 8 k); k1 = U8TO64_LE (take 8 (drop 8 k));
          v = (0x736f6d6570736575 XOR k0, 0x646f72616e646f6d XOR k1, 0x6c7967656e657261 XOR k0, 0x7465646279746573 XOR k1);
          (v, left) = sip_words data v;
          b = push_bit 56 (of_nat (length data)) OR U8TO64_LE left
      in case sip_compress b v of (v0, v1, v2, v3) \<Rightarrow>
           (case (SIPROUND ^^ 4) (v0, v1, v2 XOR 0xff, v3) of (v0, v1, v2, v3) \<Rightarrow> U64TO8_LE (v0 XOR v1 XOR v2 XOR v3)))"

text \<open>The test vector of the SipHash paper, with the key \<open>00 01 \<dots> 0f\<close> and the message \<open>00 01 \<dots> 0e\<close>.\<close>

lemma siphash24_rounds:
  "SIPROUND (0x7469686173716475, 0x6b617f6d656e6665, 0x6b7f62616d677361, 0x7c6d6c6a717c6d7b) = (0x64668a929363847f, 0x4ed232083d9aa8dc, 0xf2f74892d8141a2e, 0x9290f9810552f4a8)"
  "SIPROUND (0x64668a929363847f, 0x4ed232083d9aa8dc, 0xf2f74892d8141a2e, 0x9290f9810552f4a8) = (0x4d07749cdd0858e0, 0xd52f6f62a4f59a4, 0x634cb3577b01fd3d, 0xa5224d6f55c7d9c8)"
  "SIPROUND (0x4a017198de0a59e0, 0xd52f6f62a4f59a4, 0x634cb3577b01fd3d, 0xaa2c40635ecdd0c0) = (0x557560fb6063d060, 0x4c8e675bd961133e, 0xbd3d002b1703a181, 0xfb9441179a4a7315)"
  "SIPROUND (0x557560fb6063d060, 0x4c8e675bd961133e, 0xbd3d002b1703a181, 0xfb9441179a4a7315) = (0x338bbea7645fb759, 0x414fc3fb98efe374, 0xccf13ea527b9f4bd, 0x5293f5da84008f82)"
  "SIPROUND (0x3c85b3ab6f55be51, 0x414fc3fb98efe374, 0xccf13ea527b9f442, 0x5293f5da84008f82) = (0xf2a55244a20e48fe, 0xac5ad16ccc3ca6e4, 0x9fe5adb0a52f393a, 0xfd41d55e88f30308)"
  "SIPROUND (0xf2a55244a20e48fe, 0xac5ad16ccc3ca6e4, 0x9fe5adb0a52f393a, 0xfd41d55e88f30308) = (0xb6c3fbdecc2ae4b4, 0x1638c86adc6b3cf0, 0x28b8b6ab62553d46, 0xc9465e86ec43eb95)"
  "SIPROUND (0xb6c3fbdecc2ae4b4, 0x1638c86adc6b3cf0, 0x28b8b6ab62553d46, 0xc9465e86ec43eb95) = (0x58101b167209a5e6, 0xf8792ae75b66e7dd, 0x1da14c3ec7f0b4f7, 0x7624ba8a41bc4ad9)"
  "SIPROUND (0x58101b167209a5e6, 0xf8792ae75b66e7dd, 0x1da14c3ec7f0b4f7, 0x7624ba8a41bc4ad9) = (0xf6bcd53893fecff1, 0x54b9964c7ea0d937, 0x1b38329c099bb55a, 0x1814bb89ad7be679)"
  by (simp_all add: SIPROUND_def ROTL_def Let_def)

lemma siphash24_vector:
  "siphash24 [0, 1, 2, 3, 4, 5, 6, 7, 8, 9, 10, 11, 12, 13, 14] [0, 1, 2, 3, 4, 5, 6, 7, 8, 9, 10, 11, 12, 13, 14, 15] = [0xe5, 0x45, 0xbe, 0x49, 0x61, 0xca, 0x29, 0xa1]"
proof -
  have four: "(f ^^ 4) v = f (f (f (f v)))" for f :: "sip_state \<Rightarrow> sip_state" and v by (simp add: numeral_eq_Suc)
  have i8: "[0..<8] = [0, 1, 2, 3, 4, 5, 6, 7 :: nat]" by (simp add: upt_rec)
  show ?thesis
    by (simp add: siphash24_def sip_words.simps sip_compress_def siphash24_rounds Let_def U64TO8_LE_def four i8)
qed

section \<open>Hash operations\<close>

record hash_ops =
  ho_hash :: "ptr \<Rightarrow> hash_key \<Rightarrow> 64 word"
  ho_compare :: "ptr \<Rightarrow> ptr \<Rightarrow> int"

text \<open>What a pointer points to is a parameter: the string, or the number, at an address.\<close>

definition string_hash_func :: "(ptr \<Rightarrow> cstr) \<Rightarrow> ptr \<Rightarrow> hash_key \<Rightarrow> 64 word" where
  "string_hash_func mem p hash_key = U8TO64_LE (siphash24 (bytes_of (mem p)) hash_key)"

definition string_compare_func :: "(ptr \<Rightarrow> cstr) \<Rightarrow> ptr \<Rightarrow> ptr \<Rightarrow> int" where
  "string_compare_func mem a b = strcmp (mem a) (mem b)"

definition string_hash_ops :: "(ptr \<Rightarrow> cstr) \<Rightarrow> hash_ops" where
  "string_hash_ops mem = \<lparr>ho_hash = string_hash_func mem, ho_compare = string_compare_func mem\<rparr>"

definition trivial_hash_func :: "ptr \<Rightarrow> hash_key \<Rightarrow> 64 word" where
  "trivial_hash_func p hash_key = U8TO64_LE (siphash24 (U64TO8_LE p) hash_key)"

definition trivial_compare_func :: "ptr \<Rightarrow> ptr \<Rightarrow> int" where
  "trivial_compare_func a b = (if a < b then - 1 else if a > b then 1 else 0)"

definition trivial_hash_ops :: hash_ops where
  "trivial_hash_ops = \<lparr>ho_hash = trivial_hash_func, ho_compare = trivial_compare_func\<rparr>"

definition uint64_hash_func :: "(ptr \<Rightarrow> 64 word) \<Rightarrow> ptr \<Rightarrow> hash_key \<Rightarrow> 64 word" where
  "uint64_hash_func mem p hash_key = U8TO64_LE (siphash24 (U64TO8_LE (mem p)) hash_key)"

definition uint64_compare_func :: "(ptr \<Rightarrow> 64 word) \<Rightarrow> ptr \<Rightarrow> ptr \<Rightarrow> int" where
  "uint64_compare_func mem a b = (if mem a < mem b then - 1 else if mem a > mem b then 1 else 0)"

definition uint64_hash_ops :: "(ptr \<Rightarrow> 64 word) \<Rightarrow> hash_ops" where
  "uint64_hash_ops mem = \<lparr>ho_hash = uint64_hash_func mem, ho_compare = uint64_compare_func mem\<rparr>"

section \<open>Tables\<close>

definition UINT_MAX :: nat where "UINT_MAX = 4294967295"
definition IDX_SWAP_BEGIN :: nat where "IDX_SWAP_BEGIN = UINT_MAX - 3"
definition IDX_PUT :: nat where "IDX_PUT = IDX_SWAP_BEGIN + 0"
definition IDX_TMP :: nat where "IDX_TMP = IDX_SWAP_BEGIN + 1"
definition IDX_FIRST :: nat where "IDX_FIRST = UINT_MAX - 1"
definition IDX_NIL :: nat where "IDX_NIL = UINT_MAX"

abbreviation DIB_RAW_OVERFLOW :: nat where "DIB_RAW_OVERFLOW \<equiv> 0xfd"
abbreviation DIB_RAW_REHASH :: nat where "DIB_RAW_REHASH \<equiv> 0xfe"
abbreviation DIB_RAW_FREE :: nat where "DIB_RAW_FREE \<equiv> 0xff"
abbreviation INV_KEEP_FREE :: nat where "INV_KEEP_FREE \<equiv> 5"

abbreviation DIB_FREE :: nat where "DIB_FREE \<equiv> UINT_MAX"

datatype HashmapType = HASHMAP_TYPE_PLAIN | HASHMAP_TYPE_ORDERED | HASHMAP_TYPE_SET

text \<open>An entry, with the fields that an ordered map has in addition, and a value that is unused in a set.\<close>

record hashmap_entry =
  he_key :: ptr
  he_value :: ptr
  iterate_next :: nat
  iterate_previous :: nat

definition zero_entry :: hashmap_entry where
  "zero_entry = \<lparr>he_key = 0, he_value = 0, iterate_next = 0, iterate_previous = 0\<rparr>"

record hashmap =
  hm_ops :: hash_ops
  hm_type :: HashmapType
  has_indirect :: bool
  hm_buckets :: "hashmap_entry list"
  hm_dibs :: "nat list"
  hm_n_buckets :: nat
  hm_n_entries :: nat
  hm_hash_key :: hash_key
  hm_shared_key :: hash_key
  idx_lowest_entry :: nat
  iterate_list_head :: nat
  iterate_list_tail :: nat

text \<open>Sizes on a machine with 64-bit pointers.\<close>

definition entry_size :: "HashmapType \<Rightarrow> nat" where
  "entry_size t = (case t of HASHMAP_TYPE_PLAIN \<Rightarrow> 16 | HASHMAP_TYPE_ORDERED \<Rightarrow> 24 | HASHMAP_TYPE_SET \<Rightarrow> 8)"

abbreviation sizeof_direct_storage :: nat where "sizeof_direct_storage \<equiv> 39"

definition n_direct_buckets :: "HashmapType \<Rightarrow> nat" where
  "n_direct_buckets t = sizeof_direct_storage div (entry_size t + 1)"

definition n_buckets :: "hashmap \<Rightarrow> nat" where
  "n_buckets h = (if has_indirect h then hm_n_buckets h else n_direct_buckets (hm_type h))"

definition hash_key :: "hashmap \<Rightarrow> hash_key" where
  "hash_key h = (if has_indirect h then hm_hash_key h else hm_shared_key h)"

definition base_bucket_hash :: "hashmap \<Rightarrow> ptr \<Rightarrow> nat" where
  "base_bucket_hash h p = unat (ho_hash (hm_ops h) p (hash_key h)) mod n_buckets h"

text \<open>
  What operations take from outside: whether the next allocation succeeds, the next random bytes, and the keys that the
  static variables hold.
\<close>

record hash_env =
  env_alloc :: "nat \<Rightarrow> bool"
  env_allocs :: nat
  env_random :: "nat \<Rightarrow> hash_key"
  env_draws :: nat
  env_current :: "hash_key option"
  env_shared :: "hash_key option"

definition random_bytes :: "hash_env \<Rightarrow> hash_key \<times> hash_env" where
  "random_bytes env = (env_random env (env_draws env), env\<lparr>env_draws := Suc (env_draws env)\<rparr>)"

definition alloc :: "hash_env \<Rightarrow> bool \<times> hash_env" where
  "alloc env = (env_alloc env (env_allocs env), env\<lparr>env_allocs := Suc (env_allocs env)\<rparr>)"

definition get_hash_key :: "bool \<Rightarrow> hash_env \<Rightarrow> hash_key \<times> hash_env" where
  "get_hash_key reuse_is_ok env =
     (case env_current env of
        Some k \<Rightarrow>
          if reuse_is_ok then (k, env)
          else (case random_bytes env of (k', env') \<Rightarrow> (k', env'\<lparr>env_current := Some k'\<rparr>))
      | None \<Rightarrow> (case random_bytes env of (k', env') \<Rightarrow> (k', env'\<lparr>env_current := Some k'\<rparr>)))"

subsection \<open>Buckets\<close>

text \<open>A table with the swap entries of an operation that has some.\<close>

type_synonym swapped = "hashmap \<times> (hashmap_entry \<times> hashmap_entry) option"

definition at :: "'a list \<Rightarrow> nat \<Rightarrow> 'a option" where
  "at xs i = (if i < length xs then Some (xs ! i) else None)"

definition bucket_at :: "hashmap \<Rightarrow> nat \<Rightarrow> hashmap_entry option" where
  "bucket_at h idx = at (hm_buckets h) idx"

definition bucket_at_virtual :: "swapped \<Rightarrow> nat \<Rightarrow> hashmap_entry option" where
  "bucket_at_virtual s idx =
     (if idx < IDX_SWAP_BEGIN then bucket_at (fst s) idx
      else if idx = IDX_PUT then map_option fst (snd s)
      else if idx = IDX_TMP then map_option snd (snd s)
      else None)"

definition set_bucket_virtual :: "nat \<Rightarrow> hashmap_entry \<Rightarrow> swapped \<Rightarrow> swapped" where
  "set_bucket_virtual idx e s =
     (if idx < IDX_SWAP_BEGIN then (fst s\<lparr>hm_buckets := (hm_buckets (fst s))[idx := e]\<rparr>, snd s)
      else if idx = IDX_PUT then (fst s, map_option (apfst (\<lambda>_. e)) (snd s))
      else (fst s, map_option (apsnd (\<lambda>_. e)) (snd s)))"

text \<open>Updating the entry that an index points to; \<open>None\<close> if there is none.\<close>

definition upd_bucket :: "nat \<Rightarrow> (hashmap_entry \<Rightarrow> hashmap_entry) \<Rightarrow> swapped \<Rightarrow> swapped option" where
  "upd_bucket idx f s = map_option (\<lambda>e. set_bucket_virtual idx (f e) s) (bucket_at_virtual s idx)"

definition bucket_distance :: "hashmap \<Rightarrow> nat \<Rightarrow> nat \<Rightarrow> nat" where
  "bucket_distance h idx from = (if idx \<ge> from then idx - from else n_buckets h + idx - from)"

definition bucket_calculate_dib :: "hashmap \<Rightarrow> nat \<Rightarrow> nat \<Rightarrow> nat option" where
  "bucket_calculate_dib h idx raw_dib =
     (if raw_dib = DIB_RAW_FREE then Some DIB_FREE
      else if raw_dib < DIB_RAW_OVERFLOW then Some raw_dib
      else map_option (\<lambda>e. bucket_distance h idx (base_bucket_hash h (he_key e))) (bucket_at h idx))"

definition bucket_set_dib :: "nat \<Rightarrow> nat \<Rightarrow> hashmap \<Rightarrow> hashmap" where
  "bucket_set_dib idx dib h =
     h\<lparr>hm_dibs := (hm_dibs h)[idx := if dib \<noteq> DIB_FREE then min dib DIB_RAW_OVERFLOW else DIB_RAW_FREE]\<rparr>"

function skip_free_buckets :: "hashmap \<Rightarrow> nat \<Rightarrow> nat" where
  "skip_free_buckets h idx =
     (if idx < n_buckets h then if hm_dibs h ! idx \<noteq> DIB_RAW_FREE then idx else skip_free_buckets h (Suc idx)
      else IDX_NIL)"
  by pat_completeness auto
termination by (relation "measure (\<lambda>(h, idx). n_buckets h - idx)") auto

declare skip_free_buckets.simps [simp del]

definition bucket_mark_free :: "nat \<Rightarrow> hashmap \<Rightarrow> hashmap" where
  "bucket_mark_free idx h = bucket_set_dib idx DIB_FREE (h\<lparr>hm_buckets := (hm_buckets h)[idx := zero_entry]\<rparr>)"

definition bucket_move_entry :: "nat \<Rightarrow> nat \<Rightarrow> swapped \<Rightarrow> swapped option" where
  "bucket_move_entry from to s =
     (if from = to then None
      else
        do { e_from \<leftarrow> bucket_at_virtual s from;
             s \<leftarrow> upd_bucket to (\<lambda>_. e_from) s;
             if hm_type (fst s) = HASHMAP_TYPE_ORDERED then
               do { le_to \<leftarrow> bucket_at_virtual s to;
                    s \<leftarrow> (if iterate_next le_to \<noteq> IDX_NIL
                         then upd_bucket (iterate_next le_to) (\<lambda>le. le\<lparr>iterate_previous := to\<rparr>) s else Some s);
                    le_to \<leftarrow> bucket_at_virtual s to;
                    s \<leftarrow> (if iterate_previous le_to \<noteq> IDX_NIL
                         then upd_bucket (iterate_previous le_to) (\<lambda>le. le\<lparr>iterate_next := to\<rparr>) s else Some s);
                    Some (apfst (\<lambda>h. h\<lparr>iterate_list_head := if iterate_list_head h = from then to else iterate_list_head h,
                                       iterate_list_tail := if iterate_list_tail h = from then to else iterate_list_tail h\<rparr>) s) }
             else Some s })"

definition next_idx :: "hashmap \<Rightarrow> nat \<Rightarrow> nat" where
  "next_idx h idx = (idx + 1) mod n_buckets h"

definition prev_idx :: "hashmap \<Rightarrow> nat \<Rightarrow> nat" where
  "prev_idx h idx = (n_buckets h + idx - 1) mod n_buckets h"

definition entry_value :: "hashmap \<Rightarrow> hashmap_entry \<Rightarrow> ptr" where
  "entry_value h e =
     (case hm_type h of HASHMAP_TYPE_PLAIN \<Rightarrow> he_value e | HASHMAP_TYPE_ORDERED \<Rightarrow> he_value e | HASHMAP_TYPE_SET \<Rightarrow> he_key e)"

subsection \<open>Removal\<close>

partial_function (option) find_right :: "hashmap \<Rightarrow> nat \<Rightarrow> nat \<Rightarrow> nat option" where
  "find_right h left right =
     do { raw_dib \<leftarrow> at (hm_dibs h) right;
          if raw_dib = 0 \<or> raw_dib = DIB_RAW_FREE then Some right
          else if left = right then None
          else find_right h left (next_idx h right) }"

partial_function (option) shift_back :: "hashmap \<Rightarrow> nat \<Rightarrow> nat \<Rightarrow> nat \<Rightarrow> (hashmap \<times> nat) option" where
  "shift_back h prev left right =
     (if left = right then Some (h, prev)
      else
        do { raw_dib \<leftarrow> at (hm_dibs h) left;
             dib \<leftarrow> bucket_calculate_dib h left raw_dib;
             if dib = 0 then None
             else
               do { (h, _) \<leftarrow> bucket_move_entry left prev (h, None);
                    shift_back (bucket_set_dib prev (dib - 1) h) left (next_idx h left) right } })"

definition unlink_entry :: "nat \<Rightarrow> hashmap \<Rightarrow> hashmap option" where
  "unlink_entry idx h =
     (if hm_type h = HASHMAP_TYPE_ORDERED then
        do { le \<leftarrow> bucket_at h idx;
             (h, _) \<leftarrow> (if iterate_next le \<noteq> IDX_NIL
                        then upd_bucket (iterate_next le) (\<lambda>n. n\<lparr>iterate_previous := iterate_previous le\<rparr>) (h, None)
                        else Some (h\<lparr>iterate_list_tail := iterate_previous le\<rparr>, None));
             le \<leftarrow> bucket_at h idx;
             (h, _) \<leftarrow> (if iterate_previous le \<noteq> IDX_NIL
                        then upd_bucket (iterate_previous le) (\<lambda>p. p\<lparr>iterate_next := iterate_next le\<rparr>) (h, None)
                        else Some (h\<lparr>iterate_list_head := iterate_next le\<rparr>, None));
             Some h }
      else Some h)"

definition base_remove_entry :: "nat \<Rightarrow> hashmap \<Rightarrow> hashmap option" where
  "base_remove_entry idx h =
     do { raw_dib \<leftarrow> at (hm_dibs h) idx;
          if raw_dib = DIB_RAW_FREE then None
          else
            do { right \<leftarrow> find_right h idx (next_idx h idx);
                 h \<leftarrow> unlink_entry idx h;
                 (h, prev) \<leftarrow> shift_back h idx (next_idx h idx) right;
                 h \<leftarrow> Some (bucket_mark_free prev h);
                 Some (h\<lparr>hm_n_entries := hm_n_entries h - 1\<rparr>) } }"

subsection \<open>Insertion\<close>

partial_function (option) put_robin_hood_loop :: "nat \<Rightarrow> nat \<Rightarrow> swapped \<Rightarrow> (bool \<times> swapped) option" where
  "put_robin_hood_loop idx distance s =
     do { raw_dib \<leftarrow> at (hm_dibs (fst s)) idx;
          if raw_dib = DIB_RAW_FREE \<or> raw_dib = DIB_RAW_REHASH then
            do { s \<leftarrow> (if raw_dib = DIB_RAW_REHASH then bucket_move_entry idx IDX_TMP s else Some s);
                 s \<leftarrow> Some (apfst (\<lambda>h. if has_indirect h \<and> idx_lowest_entry h > idx then h\<lparr>idx_lowest_entry := idx\<rparr> else h) s);
                 s \<leftarrow> bucket_move_entry IDX_PUT idx (apfst (bucket_set_dib idx distance) s);
                 if raw_dib = DIB_RAW_REHASH then
                   do { s \<leftarrow> bucket_move_entry IDX_TMP IDX_PUT s; Some (True, s) }
                 else Some (False, s) }
          else
            do { dib \<leftarrow> bucket_calculate_dib (fst s) idx raw_dib;
                 if dib < distance then
                   do { s \<leftarrow> bucket_move_entry idx IDX_TMP (apfst (bucket_set_dib idx distance) s);
                        s \<leftarrow> bucket_move_entry IDX_PUT idx s;
                        s \<leftarrow> bucket_move_entry IDX_TMP IDX_PUT s;
                        put_robin_hood_loop (next_idx (fst s) idx) (dib + 1) s }
                 else put_robin_hood_loop (next_idx (fst s) idx) (distance + 1) s } }"

definition hashmap_put_robin_hood :: "nat \<Rightarrow> swapped \<Rightarrow> (bool \<times> swapped) option" where
  "hashmap_put_robin_hood idx s = put_robin_hood_loop idx 0 s"

subsection \<open>Growing\<close>

fun log2u :: "nat \<Rightarrow> nat" where
  "log2u x = (if x < 2 then 0 else Suc (log2u (x div 2)))"

declare log2u.simps [simp del]

definition log2u_round_up :: "nat \<Rightarrow> nat" where
  "log2u_round_up x = (if x = 1 then 0 else log2u (x - 1) + 1)"

text \<open>Placing an entry may displace another one, which is then placed in turn; the number of entries placed is counted.\<close>

partial_function (option) rehash_chain :: "nat \<Rightarrow> nat \<Rightarrow> swapped \<Rightarrow> (nat \<times> swapped) option" where
  "rehash_chain n_rehashed optimal_idx s =
     do { (rehash_next, s) \<leftarrow> hashmap_put_robin_hood optimal_idx s;
          if rehash_next then
            do { e \<leftarrow> bucket_at_virtual s IDX_PUT;
                 rehash_chain (n_rehashed + 1) (base_bucket_hash (fst s) (he_key e)) s }
          else Some (n_rehashed + 1, s) }"

definition rehash_one :: "nat \<Rightarrow> nat \<times> swapped \<Rightarrow> (nat \<times> swapped) option" where
  "rehash_one idx st =
     (case st of (n_rehashed, s) \<Rightarrow>
        do { raw_dib \<leftarrow> at (hm_dibs (fst s)) idx;
             if raw_dib \<noteq> DIB_RAW_REHASH then Some (n_rehashed, s)
             else
               do { e \<leftarrow> bucket_at (fst s) idx;
                    let optimal_idx = base_bucket_hash (fst s) (he_key e);
                        free = apfst (\<lambda>h. h\<lparr>hm_dibs := (hm_dibs h)[idx := DIB_RAW_FREE]\<rparr>) s
                    in if optimal_idx = idx
                       then Some (n_rehashed + 1, apfst (\<lambda>h. h\<lparr>hm_dibs := (hm_dibs h)[idx := 0]\<rparr>) s)
                       else
                         do { s \<leftarrow> bucket_move_entry idx IDX_PUT free;
                              rehash_chain n_rehashed optimal_idx
                                (apfst (\<lambda>h. h\<lparr>hm_buckets := (hm_buckets h)[idx := zero_entry]\<rparr>) s) } } })"

fun rehash_all :: "nat list \<Rightarrow> nat \<times> swapped \<Rightarrow> (nat \<times> swapped) option" where
  "rehash_all [] st = Some st"
| "rehash_all (idx # is) st = do { st \<leftarrow> rehash_one idx st; rehash_all is st }"

text \<open>The table with the new number of buckets, in which every entry waits to be placed.\<close>

definition grow_storage :: "nat \<Rightarrow> hash_key \<Rightarrow> hashmap \<Rightarrow> hashmap" where
  "grow_storage new_n key h =
     (let old_n = n_buckets h
      in h\<lparr>has_indirect := True, hm_hash_key := key, hm_n_buckets := new_n,
           idx_lowest_entry := if has_indirect h then idx_lowest_entry h else 0,
           hm_dibs := map (\<lambda>d. if d = DIB_RAW_FREE then DIB_RAW_FREE else DIB_RAW_REHASH) (hm_dibs h) @ replicate (new_n - old_n) DIB_RAW_FREE,
           hm_buckets := hm_buckets h @ replicate (new_n - old_n) zero_entry\<rparr>)"

definition resize_buckets :: "nat \<Rightarrow> hashmap \<Rightarrow> hash_env \<Rightarrow> (rc \<times> hashmap \<times> hash_env) option" where
  "resize_buckets entries_add h env =
     (let new_n_entries = (hm_n_entries h + entries_add) mod (UINT_MAX + 1);
          new_n_buckets = (new_n_entries + new_n_entries div (INV_KEEP_FREE - 1)) mod (UINT_MAX + 1);
          tile = entry_size (hm_type h) + 1
      in if new_n_entries < entries_add then Some (- ENOMEM, h, env)
         else if \<not> has_indirect h \<and> new_n_entries \<le> n_direct_buckets (hm_type h) then Some (0, h, env)
         else if new_n_buckets < new_n_entries then Some (- ENOMEM, h, env)
         else if new_n_buckets > UINT_MAX div tile then Some (- ENOMEM, h, env)
         else if new_n_buckets \<le> n_buckets h then Some (0, h, env)
         else
           (let new_shift = log2u_round_up (max (new_n_buckets * tile) (2 * sizeof_direct_storage))
            in if new_shift \<ge> 32 then None
               else
                 (case alloc env of (ok, env) \<Rightarrow>
                    if \<not> ok then Some (- ENOMEM, h, env)
                    else
                      (case get_hash_key (\<not> has_indirect h) env of (key, env) \<Rightarrow>
                         if DIB_RAW_REHASH \<in> set (hm_dibs h) \<or> 2 ^ new_shift div tile < n_buckets h then None
                         else
                           do { (n_rehashed, s) \<leftarrow>
                                  rehash_all [0..<n_buckets h] (0, grow_storage (2 ^ new_shift div tile) key h, Some (zero_entry, zero_entry));
                                if n_rehashed \<noteq> hm_n_entries (fst s) then None else Some (1, fst s, env) }))))"

subsection \<open>Putting an entry\<close>

definition link_entry :: "swapped \<Rightarrow> swapped option" where
  "link_entry s =
     (if hm_type (fst s) = HASHMAP_TYPE_ORDERED then
        (let tail = iterate_list_tail (fst s)
         in do { s \<leftarrow> upd_bucket IDX_PUT (\<lambda>e. e\<lparr>iterate_next := IDX_NIL, iterate_previous := tail\<rparr>) s;
                 s \<leftarrow> (if tail \<noteq> IDX_NIL then
                        do { old_tail \<leftarrow> bucket_at (fst s) tail;
                             if iterate_next old_tail \<noteq> IDX_NIL then None
                             else upd_bucket tail (\<lambda>e. e\<lparr>iterate_next := IDX_PUT\<rparr>) s }
                      else Some s);
                 Some (apfst (\<lambda>h. h\<lparr>iterate_list_tail := IDX_PUT,
                                    iterate_list_head := if iterate_list_head h = IDX_NIL then IDX_PUT else iterate_list_head h\<rparr>) s) })
      else Some s)"

text \<open>The entry goes in with its key and value; \<open>idx\<close> is the hash of the key.\<close>

definition hashmap_base_put_boldly :: "nat \<Rightarrow> hashmap_entry \<Rightarrow> bool \<Rightarrow> hashmap \<Rightarrow> hash_env \<Rightarrow> (rc \<times> hashmap \<times> hash_env) option" where
  "hashmap_base_put_boldly idx swap_entry may_resize h env =
     do { (r, h, env) \<leftarrow> (if idx \<ge> n_buckets h then None else if may_resize then resize_buckets 1 h env else Some (0, h, env));
          if r < 0 then Some (r, h, env)
          else
            (let idx = (if r > 0 then base_bucket_hash h (he_key swap_entry) else idx)
             in if hm_n_entries h \<ge> n_buckets h then None
                else
                  do { s \<leftarrow> link_entry (h, Some (swap_entry, zero_entry));
                       (displaced, s) \<leftarrow> hashmap_put_robin_hood idx s;
                       if displaced then None
                       else Some (1, (fst s)\<lparr>hm_n_entries := hm_n_entries (fst s) + 1\<rparr>, env) }) }"

subsection \<open>Searching\<close>

partial_function (option) bucket_scan_loop :: "hashmap \<Rightarrow> ptr \<Rightarrow> nat \<Rightarrow> nat \<Rightarrow> nat option" where
  "bucket_scan_loop h key idx distance =
     do { raw_dib \<leftarrow> at (hm_dibs h) idx;
          if raw_dib = DIB_RAW_FREE then Some IDX_NIL
          else
            do { dib \<leftarrow> bucket_calculate_dib h idx raw_dib;
                 if dib < distance then Some IDX_NIL
                 else
                   do { e \<leftarrow> bucket_at h idx;
                        if dib = distance \<and> ho_compare (hm_ops h) (he_key e) key = 0 then Some idx
                        else bucket_scan_loop h key (next_idx h idx) (distance + 1) } } }"

definition base_bucket_scan :: "hashmap \<Rightarrow> nat \<Rightarrow> ptr \<Rightarrow> nat option" where
  "base_bucket_scan h idx key = (if idx \<ge> n_buckets h then None else bucket_scan_loop h key idx 0)"

section \<open>Operations\<close>

definition swap_entry :: "ptr \<Rightarrow> ptr \<Rightarrow> hashmap_entry" where
  "swap_entry key val = \<lparr>he_key = key, he_value = val, iterate_next = 0, iterate_previous = 0\<rparr>"

definition hashmap_put :: "ptr \<Rightarrow> ptr \<Rightarrow> hashmap \<Rightarrow> hash_env \<Rightarrow> (rc \<times> hashmap \<times> hash_env) option" where
  "hashmap_put key val h env =
     do { idx \<leftarrow> base_bucket_scan h (base_bucket_hash h key) key;
          if idx \<noteq> IDX_NIL then
            do { e \<leftarrow> bucket_at h idx; Some (if he_value e = val then 0 else - EEXIST, h, env) }
          else hashmap_base_put_boldly (base_bucket_hash h key) (swap_entry key val) True h env }"

definition set_put :: "ptr \<Rightarrow> hashmap \<Rightarrow> hash_env \<Rightarrow> (rc \<times> hashmap \<times> hash_env) option" where
  "set_put key s env =
     do { idx \<leftarrow> base_bucket_scan s (base_bucket_hash s key) key;
          if idx \<noteq> IDX_NIL then Some (0, s, env)
          else hashmap_base_put_boldly (base_bucket_hash s key) (swap_entry key 0) True s env }"

definition hashmap_replace :: "ptr \<Rightarrow> ptr \<Rightarrow> hashmap \<Rightarrow> hash_env \<Rightarrow> (rc \<times> hashmap \<times> hash_env) option" where
  "hashmap_replace key val h env =
     do { idx \<leftarrow> base_bucket_scan h (base_bucket_hash h key) key;
          if idx \<noteq> IDX_NIL then
            do { s \<leftarrow> upd_bucket idx (\<lambda>e. e\<lparr>he_key := key, he_value := val\<rparr>) (h, None); Some (0, fst s, env) }
          else hashmap_base_put_boldly (base_bucket_hash h key) (swap_entry key val) True h env }"

definition hashmap_update :: "ptr \<Rightarrow> ptr \<Rightarrow> hashmap \<Rightarrow> (rc \<times> hashmap) option" where
  "hashmap_update key val h =
     do { idx \<leftarrow> base_bucket_scan h (base_bucket_hash h key) key;
          if idx = IDX_NIL then Some (- ENOENT, h)
          else do { s \<leftarrow> upd_bucket idx (\<lambda>e. e\<lparr>he_value := val\<rparr>) (h, None); Some (0, fst s) } }"

definition internal_hashmap_get :: "hashmap option \<Rightarrow> ptr \<Rightarrow> ptr option" where
  "internal_hashmap_get h key =
     (case h of
        None \<Rightarrow> Some 0
      | Some h \<Rightarrow>
          do { idx \<leftarrow> base_bucket_scan h (base_bucket_hash h key) key;
               if idx = IDX_NIL then Some 0 else do { e \<leftarrow> bucket_at h idx; Some (entry_value h e) } })"

definition hashmap_get2 :: "hashmap option \<Rightarrow> ptr \<Rightarrow> (ptr \<times> ptr option) option" where
  "hashmap_get2 h key =
     (case h of
        None \<Rightarrow> Some (0, None)
      | Some h \<Rightarrow>
          do { idx \<leftarrow> base_bucket_scan h (base_bucket_hash h key) key;
               if idx = IDX_NIL then Some (0, None) else do { e \<leftarrow> bucket_at h idx; Some (he_value e, Some (he_key e)) } })"

definition internal_hashmap_contains :: "hashmap option \<Rightarrow> ptr \<Rightarrow> bool option" where
  "internal_hashmap_contains h key =
     (case h of
        None \<Rightarrow> Some False
      | Some h \<Rightarrow> do { idx \<leftarrow> base_bucket_scan h (base_bucket_hash h key) key; Some (idx \<noteq> IDX_NIL) })"

definition internal_hashmap_remove :: "ptr \<Rightarrow> hashmap \<Rightarrow> (ptr \<times> hashmap) option" where
  "internal_hashmap_remove key h =
     do { idx \<leftarrow> base_bucket_scan h (base_bucket_hash h key) key;
          if idx = IDX_NIL then Some (0, h)
          else do { e \<leftarrow> bucket_at h idx; h' \<leftarrow> base_remove_entry idx h; Some (entry_value h e, h') } }"

definition hashmap_remove2 :: "ptr \<Rightarrow> hashmap \<Rightarrow> (ptr \<times> ptr \<times> hashmap) option" where
  "hashmap_remove2 key h =
     do { idx \<leftarrow> base_bucket_scan h (base_bucket_hash h key) key;
          if idx = IDX_NIL then Some (0, 0, h)
          else do { e \<leftarrow> bucket_at h idx; h' \<leftarrow> base_remove_entry idx h; Some (he_value e, he_key e, h') } }"

definition hashmap_remove_and_put :: "ptr \<Rightarrow> ptr \<Rightarrow> ptr \<Rightarrow> hashmap \<Rightarrow> hash_env \<Rightarrow> (rc \<times> hashmap \<times> hash_env) option" where
  "hashmap_remove_and_put old_key new_key val h env =
     do { idx \<leftarrow> base_bucket_scan h (base_bucket_hash h old_key) old_key;
          if idx = IDX_NIL then Some (- ENOENT, h, env)
          else
            do { new_idx \<leftarrow> base_bucket_scan h (base_bucket_hash h new_key) new_key;
                 if new_idx \<noteq> IDX_NIL then Some (- EEXIST, h, env)
                 else
                   do { h' \<leftarrow> base_remove_entry idx h;
                        (r, h', env) \<leftarrow> hashmap_base_put_boldly (base_bucket_hash h new_key) (swap_entry new_key val) False h' env;
                        if r \<noteq> 1 then None else Some (0, h', env) } } }"

definition set_remove_and_put :: "ptr \<Rightarrow> ptr \<Rightarrow> hashmap \<Rightarrow> hash_env \<Rightarrow> (rc \<times> hashmap \<times> hash_env) option" where
  "set_remove_and_put old_key new_key s env = hashmap_remove_and_put old_key new_key 0 s env"

definition hashmap_remove_and_replace :: "ptr \<Rightarrow> ptr \<Rightarrow> ptr \<Rightarrow> hashmap \<Rightarrow> hash_env \<Rightarrow> (rc \<times> hashmap \<times> hash_env) option" where
  "hashmap_remove_and_replace old_key new_key val h env =
     do { idx_old \<leftarrow> base_bucket_scan h (base_bucket_hash h old_key) old_key;
          if idx_old = IDX_NIL then Some (- ENOENT, h, env)
          else
            do { old \<leftarrow> bucket_at h idx_old;
                 let new_hash = base_bucket_hash h new_key
                 in do { idx_new \<leftarrow> base_bucket_scan h new_hash new_key;
                         (h, idx_old) \<leftarrow>
                           (if idx_new \<noteq> IDX_NIL \<and> idx_old \<noteq> idx_new then
                              do { h \<leftarrow> base_remove_entry idx_new h;
                                   e \<leftarrow> bucket_at h idx_old;
                                   let idx_old = (if he_key old \<noteq> he_key e then prev_idx h idx_old else idx_old)
                                   in do { e \<leftarrow> bucket_at h idx_old;
                                           if he_key old \<noteq> he_key e then None else Some (h, idx_old) } }
                            else Some (h, idx_old));
                         h \<leftarrow> base_remove_entry idx_old h;
                         (r, h, env) \<leftarrow> hashmap_base_put_boldly new_hash (swap_entry new_key val) False h env;
                         if r \<noteq> 1 then None else Some (0, h, env) } } }"

definition hashmap_remove_value :: "ptr \<Rightarrow> ptr \<Rightarrow> hashmap \<Rightarrow> (ptr \<times> hashmap) option" where
  "hashmap_remove_value key val h =
     do { idx \<leftarrow> base_bucket_scan h (base_bucket_hash h key) key;
          if idx = IDX_NIL then Some (0, h)
          else do { e \<leftarrow> bucket_at h idx;
                    if he_value e \<noteq> val then Some (0, h)
                    else do { h' \<leftarrow> base_remove_entry idx h; Some (val, h') } } }"

subsection \<open>Making and clearing\<close>

definition reset_direct_storage :: "hashmap \<Rightarrow> hashmap" where
  "reset_direct_storage h =
     h\<lparr>hm_buckets := replicate (n_direct_buckets (hm_type h)) zero_entry, hm_dibs := replicate (n_direct_buckets (hm_type h)) DIB_RAW_FREE\<rparr>"

definition hashmap_base_new :: "hash_ops option \<Rightarrow> HashmapType \<Rightarrow> hash_env \<Rightarrow> hashmap option \<times> hash_env" where
  "hashmap_base_new ops type env =
     (case alloc env of (ok, env) \<Rightarrow>
        if \<not> ok then (None, env)
        else
          (let (shared, env) =
                 (case env_shared env of
                    Some k \<Rightarrow> (k, env)
                  | None \<Rightarrow> (case random_bytes env of (k, env) \<Rightarrow> (k, env\<lparr>env_shared := Some k\<rparr>)))
           in (Some (reset_direct_storage
                 \<lparr>hm_ops = (case ops of None \<Rightarrow> trivial_hash_ops | Some ops \<Rightarrow> ops), hm_type = type, has_indirect = False,
                  hm_buckets = [], hm_dibs = [], hm_n_buckets = 0, hm_n_entries = 0, hm_hash_key = [], hm_shared_key = shared,
                  idx_lowest_entry = 0, iterate_list_head = IDX_NIL, iterate_list_tail = IDX_NIL\<rparr>), env)))"

definition hashmap_base_ensure_allocated ::
  "hashmap option \<Rightarrow> hash_ops option \<Rightarrow> HashmapType \<Rightarrow> hash_env \<Rightarrow> rc \<times> hashmap option \<times> hash_env" where
  "hashmap_base_ensure_allocated h ops type env =
     (case h of
        Some h \<Rightarrow> (0, Some h, env)
      | None \<Rightarrow> (case hashmap_base_new ops type env of (None, env) \<Rightarrow> (- ENOMEM, None, env) | (Some q, env) \<Rightarrow> (0, Some q, env)))"

definition internal_hashmap_clear :: "hashmap \<Rightarrow> hashmap" where
  "internal_hashmap_clear h =
     reset_direct_storage
       (h\<lparr>has_indirect := False, hm_n_entries := 0, iterate_list_head := IDX_NIL, iterate_list_tail := IDX_NIL\<rparr>)"

text \<open>
  The pointers that are freed when the values, or the keys and the values, are freed: those of all buckets that are not free, from left to
  right.
\<close>

definition internal_hashmap_clear_free :: "hashmap \<Rightarrow> ptr list \<times> hashmap" where
  "internal_hashmap_clear_free h =
     (map (\<lambda>idx. entry_value h (hm_buckets h ! idx)) (filter (\<lambda>idx. hm_dibs h ! idx \<noteq> DIB_RAW_FREE) [0..<n_buckets h]),
      internal_hashmap_clear h)"

definition hashmap_clear_free_free :: "hashmap \<Rightarrow> ptr list \<times> hashmap" where
  "hashmap_clear_free_free h =
     (concat (map (\<lambda>idx. [he_key (hm_buckets h ! idx), he_value (hm_buckets h ! idx)])
        (filter (\<lambda>idx. hm_dibs h ! idx \<noteq> DIB_RAW_FREE) [0..<n_buckets h])),
      internal_hashmap_clear h)"

text \<open>Freeing a map asserts that clearing it has left nothing.\<close>

definition hashmap_free_no_clear :: "hashmap \<Rightarrow> unit option" where
  "hashmap_free_no_clear h = (if has_indirect h \<or> hm_n_entries h \<noteq> 0 then None else Some ())"

definition internal_hashmap_free :: "hashmap option \<Rightarrow> unit option" where
  "internal_hashmap_free h = (case h of None \<Rightarrow> Some () | Some h \<Rightarrow> hashmap_free_no_clear (internal_hashmap_clear h))"

definition internal_hashmap_size :: "hashmap option \<Rightarrow> nat" where
  "internal_hashmap_size h = (case h of None \<Rightarrow> 0 | Some h \<Rightarrow> hm_n_entries h)"

definition internal_hashmap_buckets :: "hashmap option \<Rightarrow> nat" where
  "internal_hashmap_buckets h = (case h of None \<Rightarrow> 0 | Some h \<Rightarrow> n_buckets h)"

definition internal_hashmap_reserve :: "nat \<Rightarrow> hashmap \<Rightarrow> hash_env \<Rightarrow> (rc \<times> hashmap \<times> hash_env) option" where
  "internal_hashmap_reserve entries_add h env =
     do { (r, h, env) \<leftarrow> resize_buckets entries_add h env; Some (if r < 0 then r else 0, h, env) }"

subsection \<open>Iteration\<close>

record iterator =
  it_idx :: nat
  it_next_key :: ptr

definition ITERATOR_FIRST :: iterator where
  "ITERATOR_FIRST = \<lparr>it_idx = IDX_FIRST, it_next_key = 0\<rparr>"

definition hashmap_iterate_in_insertion_order :: "hashmap \<Rightarrow> iterator \<Rightarrow> (nat \<times> iterator) option" where
  "hashmap_iterate_in_insertion_order h i =
     (if it_idx i = IDX_NIL \<or> it_idx i = IDX_FIRST \<and> iterate_list_head h = IDX_NIL then Some (IDX_NIL, i\<lparr>it_idx := IDX_NIL\<rparr>)
      else
        do { idx \<leftarrow> (if it_idx i = IDX_FIRST then Some (iterate_list_head h)
                    else
                      do { e \<leftarrow> bucket_at h (it_idx i);
                           let idx = (if he_key e \<noteq> it_next_key i then prev_idx h (it_idx i) else it_idx i)
                           in do { e \<leftarrow> bucket_at h idx; if he_key e \<noteq> it_next_key i then None else Some idx } });
             e \<leftarrow> bucket_at h idx;
             if iterate_next e \<noteq> IDX_NIL then
               do { n \<leftarrow> bucket_at h (iterate_next e); Some (idx, \<lparr>it_idx = iterate_next e, it_next_key = he_key n\<rparr>) }
             else Some (idx, i\<lparr>it_idx := IDX_NIL\<rparr>) })"

text \<open>Iteration from left to right; it remembers the first bucket that is used in the table.\<close>

definition hashmap_iterate_in_internal_order :: "hashmap \<Rightarrow> iterator \<Rightarrow> (nat \<times> iterator \<times> hashmap) option" where
  "hashmap_iterate_in_internal_order h i =
     (if it_idx i = IDX_NIL then Some (IDX_NIL, i, h)
      else
        do { (idx, h) \<leftarrow>
               (if it_idx i = IDX_FIRST then
                  (let idx = skip_free_buckets h (if has_indirect h then idx_lowest_entry h else 0)
                   in Some (idx, if has_indirect h then h\<lparr>idx_lowest_entry := idx\<rparr> else h))
                else if it_idx i = 0 then None
                else
                  do { e \<leftarrow> bucket_at h (it_idx i);
                       let idx = (if he_key e \<noteq> it_next_key i then it_idx i - 1 else it_idx i)
                       in do { e \<leftarrow> bucket_at h idx; if he_key e \<noteq> it_next_key i then None else Some (idx, h) } });
             if idx = IDX_NIL then Some (IDX_NIL, i\<lparr>it_idx := IDX_NIL\<rparr>, h)
             else
               (let nxt = skip_free_buckets h (idx + 1)
                in if nxt \<noteq> IDX_NIL then do { e \<leftarrow> bucket_at h nxt; Some (idx, \<lparr>it_idx = nxt, it_next_key = he_key e\<rparr>, h) }
                   else Some (idx, i\<lparr>it_idx := IDX_NIL\<rparr>, h)) })"

definition hashmap_iterate_entry :: "hashmap \<Rightarrow> iterator \<Rightarrow> (nat \<times> iterator \<times> hashmap) option" where
  "hashmap_iterate_entry h i =
     (if hm_type h = HASHMAP_TYPE_ORDERED
      then map_option (\<lambda>(idx, i). (idx, i, h)) (hashmap_iterate_in_insertion_order h i)
      else hashmap_iterate_in_internal_order h i)"

definition internal_hashmap_iterate :: "hashmap \<Rightarrow> iterator \<Rightarrow> ((ptr \<times> ptr) option \<times> iterator \<times> hashmap) option" where
  "internal_hashmap_iterate h i =
     do { (idx, i, h) \<leftarrow> hashmap_iterate_entry h i;
          if idx = IDX_NIL then Some (None, i, h)
          else do { e \<leftarrow> bucket_at h idx; Some (Some (he_key e, entry_value h e), i, h) } }"

text \<open>A loop over a map that the body does not change, as it collects the entries.\<close>

partial_function (option) foreach_entries :: "hashmap \<Rightarrow> iterator \<Rightarrow> hashmap_entry list \<Rightarrow> (hashmap_entry list \<times> hashmap) option" where
  "foreach_entries h i acc =
     do { (idx, i, h) \<leftarrow> hashmap_iterate_entry h i;
          if idx = IDX_NIL then Some (acc, h)
          else do { e \<leftarrow> bucket_at h idx; foreach_entries h i (acc @ [e]) } }"

definition find_first_entry :: "hashmap option \<Rightarrow> (nat \<times> hashmap option) option" where
  "find_first_entry h =
     (case h of
        None \<Rightarrow> Some (IDX_NIL, None)
      | Some h \<Rightarrow>
          if hm_n_entries h = 0 then Some (IDX_NIL, Some h)
          else do { (idx, _, h) \<leftarrow> hashmap_iterate_entry h ITERATOR_FIRST; Some (idx, Some h) })"

definition internal_hashmap_first :: "hashmap option \<Rightarrow> (ptr \<times> hashmap option) option" where
  "internal_hashmap_first h =
     do { (idx, h) \<leftarrow> find_first_entry h;
          (case h of
             Some h \<Rightarrow> if idx = IDX_NIL then Some (0, Some h) else do { e \<leftarrow> bucket_at h idx; Some (entry_value h e, Some h) }
           | None \<Rightarrow> Some (0, None)) }"

definition internal_hashmap_first_key :: "hashmap option \<Rightarrow> (ptr \<times> hashmap option) option" where
  "internal_hashmap_first_key h =
     do { (idx, h) \<leftarrow> find_first_entry h;
          (case h of
             Some h \<Rightarrow> if idx = IDX_NIL then Some (0, Some h) else do { e \<leftarrow> bucket_at h idx; Some (he_key e, Some h) }
           | None \<Rightarrow> Some (0, None)) }"

definition internal_hashmap_steal_first :: "hashmap option \<Rightarrow> (ptr \<times> hashmap option) option" where
  "internal_hashmap_steal_first h =
     do { (idx, h) \<leftarrow> find_first_entry h;
          (case h of
             Some h \<Rightarrow>
               if idx = IDX_NIL then Some (0, Some h)
               else do { e \<leftarrow> bucket_at h idx; h' \<leftarrow> base_remove_entry idx h; Some (entry_value h e, Some h') }
           | None \<Rightarrow> Some (0, None)) }"

definition internal_hashmap_steal_first_key :: "hashmap option \<Rightarrow> (ptr \<times> hashmap option) option" where
  "internal_hashmap_steal_first_key h =
     do { (idx, h) \<leftarrow> find_first_entry h;
          (case h of
             Some h \<Rightarrow>
               if idx = IDX_NIL then Some (0, Some h)
               else do { e \<leftarrow> bucket_at h idx; h' \<leftarrow> base_remove_entry idx h; Some (he_key e, Some h') }
           | None \<Rightarrow> Some (0, None)) }"

definition ordered_hashmap_next :: "hashmap option \<Rightarrow> ptr \<Rightarrow> ptr option" where
  "ordered_hashmap_next h key =
     (if key = 0 then None
      else
        (case h of
           None \<Rightarrow> Some 0
         | Some h \<Rightarrow>
             do { idx \<leftarrow> base_bucket_scan h (base_bucket_hash h key) key;
                  if idx = IDX_NIL then Some 0
                  else
                    do { e \<leftarrow> bucket_at h idx;
                         if iterate_next e = IDX_NIL then Some 0
                         else do { n \<leftarrow> bucket_at h (iterate_next e); Some (he_value n) } } }))"

subsection \<open>Two maps\<close>

fun merge_loop :: "hashmap_entry list \<Rightarrow> hashmap \<Rightarrow> hash_env \<Rightarrow> (rc \<times> hashmap \<times> hash_env) option" where
  "merge_loop [] h env = Some (0, h, env)"
| "merge_loop (pe # pes) h env =
     do { (r, h, env) \<leftarrow> hashmap_put (he_key pe) (he_value pe) h env;
          if r < 0 \<and> r \<noteq> - EEXIST then Some (r, h, env) else merge_loop pes h env }"

definition internal_hashmap_merge :: "hashmap \<Rightarrow> hashmap option \<Rightarrow> hash_env \<Rightarrow> (rc \<times> hashmap \<times> hashmap option \<times> hash_env) option" where
  "internal_hashmap_merge h other env =
     (case other of
        None \<Rightarrow> Some (0, h, None, env)
      | Some other \<Rightarrow>
          do { (pes, other) \<leftarrow> foreach_entries other ITERATOR_FIRST [];
               (r, h, env) \<leftarrow> merge_loop pes h env;
               Some (r, h, Some other, env) })"

fun set_merge_loop :: "hashmap_entry list \<Rightarrow> hashmap \<Rightarrow> hash_env \<Rightarrow> (rc \<times> hashmap \<times> hash_env) option" where
  "set_merge_loop [] s env = Some (0, s, env)"
| "set_merge_loop (se # ses) s env =
     do { (r, s, env) \<leftarrow> set_put (he_key se) s env; if r < 0 then Some (r, s, env) else set_merge_loop ses s env }"

definition set_merge :: "hashmap \<Rightarrow> hashmap option \<Rightarrow> hash_env \<Rightarrow> (rc \<times> hashmap \<times> hashmap option \<times> hash_env) option" where
  "set_merge s other env =
     (case other of
        None \<Rightarrow> Some (0, s, None, env)
      | Some other \<Rightarrow>
          do { (ses, other) \<leftarrow> foreach_entries other ITERATOR_FIRST [];
               (r, s, env) \<leftarrow> set_merge_loop ses s env;
               Some (r, s, Some other, env) })"

text \<open>Moving removes the entry that the iterator is at.\<close>

definition move_put :: "hashmap_entry \<Rightarrow> bool \<Rightarrow> hashmap \<Rightarrow> hash_env \<Rightarrow> (rc \<times> hashmap \<times> hash_env) option" where
  "move_put e may_resize h env =
     hashmap_base_put_boldly (base_bucket_hash h (he_key e))
       (swap_entry (he_key e) (if hm_type h \<noteq> HASHMAP_TYPE_SET then he_value e else 0)) may_resize h env"

partial_function (option) move_loop :: "hashmap \<Rightarrow> hashmap \<Rightarrow> iterator \<Rightarrow> hash_env \<Rightarrow> (hashmap \<times> hashmap \<times> hash_env) option" where
  "move_loop h other i env =
     do { (idx, i, other) \<leftarrow> hashmap_iterate_entry other i;
          if idx = IDX_NIL then Some (h, other, env)
          else
            do { e \<leftarrow> bucket_at other idx;
                 found \<leftarrow> base_bucket_scan h (base_bucket_hash h (he_key e)) (he_key e);
                 if found \<noteq> IDX_NIL then move_loop h other i env
                 else
                   do { (r, h, env) \<leftarrow> move_put e False h env;
                        if r \<noteq> 1 then None
                        else do { other \<leftarrow> base_remove_entry idx other; move_loop h other i env } } } }"

definition internal_hashmap_move :: "hashmap \<Rightarrow> hashmap option \<Rightarrow> hash_env \<Rightarrow> (rc \<times> hashmap \<times> hashmap option \<times> hash_env) option" where
  "internal_hashmap_move h other env =
     (case other of
        None \<Rightarrow> Some (0, h, None, env)
      | Some other \<Rightarrow>
          if hm_type other \<noteq> hm_type h then None
          else
            do { (r, h, env) \<leftarrow> resize_buckets (hm_n_entries other) h env;
                 if r < 0 then Some (r, h, Some other, env)
                 else do { (h, other, env) \<leftarrow> move_loop h other ITERATOR_FIRST env; Some (0, h, Some other, env) } })"

definition internal_hashmap_move_one ::
  "hashmap \<Rightarrow> hashmap option \<Rightarrow> ptr \<Rightarrow> hash_env \<Rightarrow> (rc \<times> hashmap \<times> hashmap option \<times> hash_env) option" where
  "internal_hashmap_move_one h other key env =
     do { found \<leftarrow> base_bucket_scan h (base_bucket_hash h key) key;
          if found \<noteq> IDX_NIL then Some (- EEXIST, h, other, env)
          else
            (case other of
               None \<Rightarrow> Some (- ENOENT, h, None, env)
             | Some other \<Rightarrow>
                 if hm_type other \<noteq> hm_type h then None
                 else
                   do { idx \<leftarrow> base_bucket_scan other (base_bucket_hash other key) key;
                        if idx = IDX_NIL then Some (- ENOENT, h, Some other, env)
                        else
                          do { e \<leftarrow> bucket_at other idx;
                               (r, h, env) \<leftarrow>
                                 hashmap_base_put_boldly (base_bucket_hash h key)
                                   (swap_entry (he_key e) (if hm_type h \<noteq> HASHMAP_TYPE_SET then he_value e else 0)) True h env;
                               if r < 0 then Some (r, h, Some other, env)
                               else do { other \<leftarrow> base_remove_entry idx other; Some (0, h, Some other, env) } } }) }"

definition internal_hashmap_copy :: "hashmap \<Rightarrow> hash_env \<Rightarrow> (hashmap option \<times> hashmap option \<times> hash_env) option" where
  "internal_hashmap_copy h env =
     (case hashmap_base_new (Some (hm_ops h)) (hm_type h) env of
        (None, env) \<Rightarrow> Some (None, Some h, env)
      | (Some copy, env) \<Rightarrow>
          do { (r, copy, h, env) \<leftarrow>
                 (if hm_type h = HASHMAP_TYPE_SET then set_merge copy (Some h) env else internal_hashmap_merge copy (Some h) env);
               if r < 0 then do { _ \<leftarrow> internal_hashmap_free (Some copy); Some (None, h, env) } else Some (Some copy, h, env) })"

definition internal_hashmap_get_strv :: "hashmap \<Rightarrow> hash_env \<Rightarrow> (ptr list option \<times> hashmap \<times> hash_env) option" where
  "internal_hashmap_get_strv h env =
     (case alloc env of (ok, env) \<Rightarrow>
        if \<not> ok then Some (None, h, env)
        else do { (es, h') \<leftarrow> foreach_entries h ITERATOR_FIRST [];
                  if length es > hm_n_entries h then None else Some (Some (map (entry_value h) es @ [0]), h', env) })"

text \<open>Putting a value that is freed if the set has it already; the second result tells whether it was freed.\<close>

definition set_consume :: "ptr \<Rightarrow> hashmap \<Rightarrow> hash_env \<Rightarrow> (rc \<times> bool \<times> hashmap \<times> hash_env) option" where
  "set_consume val s env = do { (r, s, env) \<leftarrow> set_put val s env; Some (r, r \<le> 0, s, env) }"

text \<open>Putting copies of strings; \<open>c\<close> is the address that \<open>strdup\<close> returns for a string if there is memory.\<close>

definition set_put_strdup :: "ptr \<Rightarrow> hashmap \<Rightarrow> hash_env \<Rightarrow> (rc \<times> hashmap \<times> hash_env) option" where
  "set_put_strdup c s env =
     (case alloc env of (ok, env) \<Rightarrow>
        if \<not> ok then Some (- ENOMEM, s, env)
        else do { (r, _, s, env) \<leftarrow> set_consume c s env; Some (if r = - EEXIST then 0 else r, s, env) })"

fun set_put_strdupv :: "ptr list \<Rightarrow> rc \<Rightarrow> hashmap \<Rightarrow> hash_env \<Rightarrow> (rc \<times> hashmap \<times> hash_env) option" where
  "set_put_strdupv [] n s env = Some (n, s, env)"
| "set_put_strdupv (c # cs) n s env =
     do { (r, s, env) \<leftarrow> set_put_strdup c s env; if r < 0 then Some (r, s, env) else set_put_strdupv cs (n + r) s env }"

definition internal_hashmap_free_free :: "hashmap option \<Rightarrow> ptr list option" where
  "internal_hashmap_free_free h =
     (case h of
        None \<Rightarrow> Some []
      | Some h \<Rightarrow> (case internal_hashmap_clear_free h of (ps, h) \<Rightarrow> do { _ \<leftarrow> hashmap_free_no_clear h; Some ps }))"

definition hashmap_free_free_free :: "hashmap option \<Rightarrow> ptr list option" where
  "hashmap_free_free_free h =
     (case h of
        None \<Rightarrow> Some []
      | Some h \<Rightarrow> (case hashmap_clear_free_free h of (ps, h) \<Rightarrow> do { _ \<leftarrow> hashmap_free_no_clear h; Some ps }))"

end
