(* ===== verification/Udev_Robin_Hood.thy ===== *)
theory Udev_Robin_Hood
  imports Udev_Hashmap
begin

text \<open>
  The steps of the hash tables of \<^verbatim>\<open>libudev-compat/hashmap.c\<close>: distances on the circle of buckets, the Robin Hood condition that bounds
  how far an entry is from its first bucket, the links in the order of insertion and how moving an entry keeps them, the loop that puts an
  entry, the backward shift that closes a gap, and taking an entry out of the list.
\<close>

section \<open>Indexes in a circle\<close>

text \<open>The next and the previous bucket of \<open>n\<close>, and the number of steps from \<open>j\<close> to \<open>i\<close>.\<close>

definition nx :: "nat \<Rightarrow> nat \<Rightarrow> nat" where "nx n i = (if Suc i = n then 0 else Suc i)"
definition pv :: "nat \<Rightarrow> nat \<Rightarrow> nat" where "pv n i = (if i = 0 then n - 1 else i - 1)"
definition cd :: "nat \<Rightarrow> nat \<Rightarrow> nat \<Rightarrow> nat" where "cd n i j = (if i \<ge> j then i - j else n + i - j)"

lemma circle [simp]:
  "i < n \<Longrightarrow> nx n i < n" "i < n \<Longrightarrow> pv n i < n" "i < n \<Longrightarrow> pv n (nx n i) = i" "i < n \<Longrightarrow> nx n (pv n i) = i"
  "i < n \<Longrightarrow> cd n i i = 0" "i < n \<Longrightarrow> j < n \<Longrightarrow> cd n i j < n" "i < n \<Longrightarrow> j < n \<Longrightarrow> cd n i j = 0 \<longleftrightarrow> i = j"
  by (auto simp: nx_def pv_def cd_def)

lemma cd_nx: "i < n \<Longrightarrow> j < n \<Longrightarrow> Suc (cd n i j) < n \<Longrightarrow> cd n (nx n i) j = Suc (cd n i j)"
  by (auto simp: nx_def cd_def split: if_splits)

lemma cd_from_nx: "i < n \<Longrightarrow> j < n \<Longrightarrow> i \<noteq> j \<Longrightarrow> Suc (cd n i (nx n j)) = cd n i j"
  by (auto simp: nx_def cd_def split: if_splits)

lemma cd_pv: "i < n \<Longrightarrow> j < n \<Longrightarrow> i \<noteq> j \<Longrightarrow> Suc (cd n (pv n i) j) = cd n i j"
  by (auto simp: pv_def cd_def split: if_splits)

lemma cd_inj: "i < n \<Longrightarrow> i' < n \<Longrightarrow> j < n \<Longrightarrow> cd n i j = cd n i' j \<Longrightarrow> i = i'"
  by (auto simp: cd_def split: if_splits)

lemma cd_add: "i < n \<Longrightarrow> j < n \<Longrightarrow> k < n \<Longrightarrow> cd n i j + cd n j k < n \<Longrightarrow> cd n i k = cd n i j + cd n j k"
  by (auto simp: cd_def split: if_splits)

section \<open>Distances\<close>

text \<open>
  The distances of the entries from their first bucket; \<open>None\<close> is a bucket without an entry that is in its place. An entry that is not in its
  first bucket has an entry before it, whose distance is at most one less.
\<close>

type_synonym dists = "nat \<Rightarrow> nat option"

definition behind :: "nat \<Rightarrow> dists \<Rightarrow> nat \<Rightarrow> nat \<Rightarrow> bool" where
  "behind n st i d \<longleftrightarrow> (0 < d \<longrightarrow> (\<exists>d'. st (pv n i) = Some d' \<and> d \<le> Suc d'))"

definition robin :: "nat \<Rightarrow> dists \<Rightarrow> bool" where
  "robin n st \<longleftrightarrow> (\<forall>i < n. \<forall>d. st i = Some d \<longrightarrow> behind n st i d)"

lemma robin_place:
  assumes "robin n st" "i < n" "st i = None" "behind n st i d"
  shows "robin n (st(i := Some d))"
  unfolding robin_def
proof (intro allI impI)
  fix j e assume j: "j < n" "(st(i := Some d)) j = Some e"
  show "behind n (st(i := Some d)) j e"
  proof (cases "j = i")
    case True
    with j assms(3,4) show ?thesis by (auto simp: behind_def)
  next
    case False
    with j assms(1) have "behind n st j e" by (auto simp: robin_def)
    with assms(3) show ?thesis by (auto simp: behind_def)
  qed
qed

lemma robin_raise:
  assumes "robin n st" "i < n" "st i = Some d0" "d0 \<le> d" "behind n st i d"
  shows "robin n (st(i := Some d))"
  unfolding robin_def
proof (intro allI impI)
  fix j e assume j: "j < n" "(st(i := Some d)) j = Some e"
  show "behind n (st(i := Some d)) j e"
  proof (cases "j = i")
    case True
    with j assms(3,4,5) show ?thesis by (auto simp: behind_def)
  next
    case False
    with j assms(1) have "behind n st j e" by (auto simp: robin_def)
    with assms(3,4) show ?thesis by (fastforce simp: behind_def)
  qed
qed

text \<open>On the way from the first bucket of an entry to the entry, all distances are at least those of the way.\<close>

lemma robin_way:
  assumes "robin n st" "i < n" "f < n" "st i = Some d" "cd n i f \<le> d" "j < n" "cd n j f \<le> cd n i f"
  shows "\<exists>e. st j = Some e \<and> cd n j f \<le> e"
  using assms
proof (induction "cd n i f" arbitrary: i d)
  case 0
  then show ?case by (metis circle(7) cd_inj le_zero_eq)
next
  case (Suc m)
  show ?case
  proof (cases "j = i")
    case False
    have ne: "i \<noteq> f" using Suc.hyps(2) Suc.prems(2) by (metis circle(5) nat.distinct(1))
    have m: "cd n (pv n i) f = m" using cd_pv [OF Suc.prems(2,3) ne] Suc.hyps(2) by simp
    have "cd n j f \<noteq> cd n i f" using False cd_inj [of j n i f] Suc.prems by blast
    then have "cd n j f \<le> cd n (pv n i) f" using m Suc.prems(7) Suc.hyps(2) by simp
    moreover have "0 < d" using Suc.hyps(2) Suc.prems(5) by simp
    then obtain d' where "st (pv n i) = Some d'" "d \<le> Suc d'"
      using Suc.prems(1,2,4) by (auto simp: robin_def behind_def)
    ultimately show ?thesis using Suc.hyps(1) [of "pv n i" d'] m Suc.hyps(2) Suc.prems by simp
  qed (use Suc.prems in auto)
qed

text \<open>Removal shifts a hole to the right: the entry behind the hole may be one step further than it should be.\<close>

definition holed :: "nat \<Rightarrow> dists \<Rightarrow> nat \<Rightarrow> bool" where
  "holed n st hole \<longleftrightarrow> hole < n \<and> st hole = None \<and>
     (\<forall>i < n. \<forall>d. st i = Some d \<longrightarrow>
        (if i = nx n hole then behind n st hole (d - 1) else behind n st i d))"

lemma robin_holed:
  assumes "robin n st" "i < n" "st i = Some d" "\<forall>j < n. \<forall>e. st j = Some e \<longrightarrow> e < n"
  shows "holed n (st(i := None)) i"
  unfolding holed_def
proof (intro conjI allI impI)
  fix j e assume j: "j < n" "(st(i := None)) j = Some e"
  then have ne: "j \<noteq> i" and b: "behind n st j e" using assms(1) by (auto simp: robin_def split: if_splits)
  have bi: "behind n st i d" using assms by (auto simp: robin_def)
  show "if j = nx n i then behind n (st(i := None)) i (e - 1) else behind n (st(i := None)) j e"
  proof (cases "j = nx n i")
    case True
    have e: "e - 1 \<le> d" using b assms(2,3) True by (auto simp: behind_def)
    show ?thesis
    proof (cases "e - 1 = 0")
      case False
      with e bi obtain d' where d': "st (pv n i) = Some d'" "d \<le> Suc d'" by (auto simp: behind_def)
      have "pv n i \<noteq> i"
      proof
        assume "pv n i = i"
        then have "n = 1" using assms(2) by (auto simp: pv_def split: if_splits)
        with j assms(2) ne show False by simp
      qed
      with d' e True show ?thesis by (auto simp: behind_def)
    qed (use True in \<open>auto simp: behind_def\<close>)
  next
    case False
    then have "pv n j \<noteq> i" using circle(4) [OF j(1)] by metis
    with False b show ?thesis by (simp add: behind_def)
  qed
qed (use assms in auto)

lemma holed_shift:
  assumes h: "holed n st hole" and d: "st (nx n hole) = Some d" "0 < d" "d < n"
  shows "holed n (st(hole := Some (d - 1), nx n hole := None)) (nx n hole)"
proof -
  let ?l = "nx n hole"
  have hole: "hole < n" "st hole = None" using h by (auto simp: holed_def)
  then have ne: "?l \<noteq> hole" using d by auto
  show ?thesis
    unfolding holed_def
  proof (intro conjI allI impI)
    fix j e assume j: "j < n" "(st(hole := Some (d - 1), ?l := None)) j = Some e"
    then have jl: "j \<noteq> ?l" by auto
    show "if j = nx n ?l then behind n (st(hole := Some (d - 1), ?l := None)) ?l (e - 1)
      else behind n (st(hole := Some (d - 1), ?l := None)) j e"
    proof (cases "j = hole")
      case True
      then have e: "e = d - 1" using j ne by simp
      have b: "behind n st hole (d - 1)" using h d circle(1) [OF hole(1)] unfolding holed_def by presburger
      show ?thesis
      proof (cases "d - 1 = 0")
        case False
        then have n3: "2 < n" using d by linarith
        then have "pv n hole \<noteq> ?l" "pv n hole \<noteq> hole" "hole \<noteq> nx n ?l" using hole(1) by (auto simp: pv_def nx_def)
        with b e True False show ?thesis by (auto simp: behind_def)
      qed (use e in \<open>auto simp: behind_def\<close>)
    next
      case False
      then have st: "st j = Some e" using j jl by simp
      with False jl h j(1) have b: "behind n st j e" by (auto simp: holed_def)
      have "pv n j \<noteq> hole" using jl circle(4) [OF j(1)] by metis
      show ?thesis
      proof (cases "j = nx n ?l")
        case True
        then have "pv n j = ?l" using hole by simp
        then have "e - 1 \<le> d" using b d by (auto simp: behind_def)
        then show ?thesis using True ne hole d by (auto simp: behind_def)
      next
        case False
        then have "pv n j \<noteq> ?l" using circle(4) [OF j(1)] by metis
        with b False \<open>pv n j \<noteq> hole\<close> show ?thesis by (simp add: behind_def)
      qed
    qed
  qed (use hole in auto)
qed

lemma holed_robin:
  assumes "holed n st hole" "st (nx n hole) = None \<or> st (nx n hole) = Some 0"
  shows "robin n st"
  unfolding robin_def
proof (intro allI impI)
  fix i d assume i: "i < n" "st i = Some d"
  show "behind n st i d"
  proof (cases "i = nx n hole")
    case True
    with i assms(2) show ?thesis by (simp add: behind_def)
  qed (use i assms(1) in \<open>auto simp: holed_def\<close>)
qed

section \<open>Entries\<close>

text \<open>The entry at an index of the table or of the swap entries, and what of it does not depend on the order.\<close>

definition valid :: "swapped \<Rightarrow> nat \<Rightarrow> bool" where
  "valid s i \<longleftrightarrow> bucket_at_virtual s i \<noteq> None"

definition cell :: "swapped \<Rightarrow> nat \<Rightarrow> hashmap_entry" where
  "cell s i = the (bucket_at_virtual s i)"

definition kv :: "hashmap_entry \<Rightarrow> ptr \<times> ptr" where
  "kv e = (he_key e, he_value e)"

lemma idx_simps [simp]:
  "IDX_PUT \<noteq> IDX_TMP" "IDX_TMP \<noteq> IDX_PUT" "\<not> IDX_PUT < IDX_SWAP_BEGIN" "\<not> IDX_TMP < IDX_SWAP_BEGIN" "IDX_NIL \<noteq> IDX_PUT" "IDX_NIL \<noteq> IDX_TMP"
  "\<not> IDX_NIL < IDX_SWAP_BEGIN" "\<not> IDX_FIRST < IDX_SWAP_BEGIN" "IDX_FIRST \<noteq> IDX_NIL" "IDX_NIL \<noteq> IDX_FIRST"
  "i < IDX_SWAP_BEGIN \<Longrightarrow> i \<noteq> IDX_PUT" "i < IDX_SWAP_BEGIN \<Longrightarrow> i \<noteq> IDX_TMP" "i < IDX_SWAP_BEGIN \<Longrightarrow> i \<noteq> IDX_NIL"
  by (simp_all add: IDX_PUT_def IDX_TMP_def IDX_SWAP_BEGIN_def IDX_NIL_def IDX_FIRST_def UINT_MAX_def)

lemma valid_iff:
  "valid s i \<longleftrightarrow> (if i < IDX_SWAP_BEGIN then i < length (hm_buckets (fst s)) else snd s \<noteq> None \<and> (i = IDX_PUT \<or> i = IDX_TMP))"
  by (auto simp: valid_def bucket_at_virtual_def bucket_at_def at_def)

lemma valid_not_NIL: "valid s i \<Longrightarrow> i \<noteq> IDX_NIL"
  by (auto simp: valid_iff split: if_splits)

lemma valid_cell: "valid s i \<Longrightarrow> bucket_at_virtual s i = Some (cell s i)"
  by (simp add: valid_def cell_def)

lemma set_bucket_valid [simp]: "valid (set_bucket_virtual j e s) i = valid s i"
  by (auto simp: valid_iff set_bucket_virtual_def)

lemma set_bucket_cell: "valid s i \<Longrightarrow> valid s j \<Longrightarrow> cell (set_bucket_virtual j e s) i = (if i = j then e else cell s i)"
  by (auto simp: valid_iff cell_def set_bucket_virtual_def bucket_at_virtual_def bucket_at_def at_def split: if_splits)

text \<open>Tables that differ at most in the entries and in the ends of the list.\<close>

definition same_table :: "hashmap \<Rightarrow> hashmap \<Rightarrow> bool" where
  "same_table h h' \<longleftrightarrow>
     hm_ops h' = hm_ops h \<and> hm_type h' = hm_type h \<and> has_indirect h' = has_indirect h \<and> hm_dibs h' = hm_dibs h \<and>
     hm_n_buckets h' = hm_n_buckets h \<and> hm_n_entries h' = hm_n_entries h \<and> hm_hash_key h' = hm_hash_key h \<and>
     hm_shared_key h' = hm_shared_key h \<and> idx_lowest_entry h' = idx_lowest_entry h \<and>
     length (hm_buckets h') = length (hm_buckets h)"

lemma same_table_refl [simp]: "same_table h h"
  by (simp add: same_table_def)

lemma same_table_trans: "same_table a b \<Longrightarrow> same_table b c \<Longrightarrow> same_table a c"
  by (simp add: same_table_def)

lemma same_set_bucket: "valid s i \<Longrightarrow> same_table (fst s) (fst (set_bucket_virtual i e s))"
  by (auto simp: same_table_def set_bucket_virtual_def)

lemma upd_bucket_ok: "valid s i \<Longrightarrow> upd_bucket i f s = Some (set_bucket_virtual i (f (cell s i)) s)"
  by (simp add: upd_bucket_def valid_cell)

section \<open>The list in the order of insertion\<close>

text \<open>
  The indexes of all entries, in the order in which the entries came in. In a map that remembers the order, the entries are linked in this way.
\<close>

definition links :: "swapped \<Rightarrow> nat list \<Rightarrow> bool" where
  "links s xs \<longleftrightarrow>
     (hm_type (fst s) = HASHMAP_TYPE_ORDERED \<longrightarrow>
        iterate_list_head (fst s) = (if xs = [] then IDX_NIL else hd xs) \<and>
        iterate_list_tail (fst s) = (if xs = [] then IDX_NIL else last xs) \<and>
        (\<forall>j < length xs.
           iterate_next (cell s (xs ! j)) = (if Suc j < length xs then xs ! Suc j else IDX_NIL) \<and>
           iterate_previous (cell s (xs ! j)) = (if j = 0 then IDX_NIL else xs ! (j - 1))))"

definition live :: "swapped \<Rightarrow> nat list \<Rightarrow> bool" where
  "live s xs \<longleftrightarrow> distinct xs \<and> (\<forall>i \<in> set xs. valid s i) \<and> links s xs"

definition ren :: "nat \<Rightarrow> nat \<Rightarrow> nat list \<Rightarrow> nat list" where
  "ren from to xs = map (\<lambda>i. if i = from then to else i) xs"

lemma set_ren: "from \<in> set xs \<Longrightarrow> set (ren from to xs) = insert to (set xs - {from})"
  by (auto simp: ren_def)

lemma distinct_ren: "distinct xs \<Longrightarrow> to \<notin> set xs \<Longrightarrow> distinct (ren from to xs)"
  by (induction xs) (auto simp: ren_def)

lemma bucket_move_entry_ok:
  assumes live: "live s xs" and frm: "from \<in> set xs" and to: "to \<notin> set xs" "valid s to"
  shows "\<exists>s'. bucket_move_entry from to s = Some s' \<and> same_table (fst s) (fst s') \<and> live s' (ren from to xs) \<and>
    (\<forall>i. valid s' i = valid s i) \<and> (\<forall>i. valid s i \<longrightarrow> kv (cell s' i) = kv (cell s (if i = to then from else i)))"
proof (cases "hm_type (fst s) = HASHMAP_TYPE_ORDERED")
  case False
  have vf: "valid s from" using live frm by (auto simp: live_def)
  have ne: "from \<noteq> to" using frm to by auto
  let ?s = "set_bucket_virtual to (cell s from) s"
  have same: "same_table (fst s) (fst ?s)" by (rule same_set_bucket [OF to(2)])
  then have same_type: "hm_type (fst ?s) = hm_type (fst s)" by (simp add: same_table_def)
  have "bucket_move_entry from to s = Some ?s"
    using ne False vf to by (simp add: bucket_move_entry_def valid_cell upd_bucket_ok same_type)
  moreover have "live ?s (ren from to xs)"
    using live to frm False by (auto simp: live_def distinct_ren set_ren links_def same_type)
  ultimately show ?thesis using same vf to by (auto simp: set_bucket_cell)
next
  case True
  have vf: "valid s from" using live frm by (auto simp: live_def)
  have ne: "from \<noteq> to" using frm to by auto
  have val: "\<And>j. j < length xs \<Longrightarrow> valid s (xs ! j)" and dist: "distinct xs"
    and hd: "iterate_list_head (fst s) = (if xs = [] then IDX_NIL else hd xs)"
    and tl: "iterate_list_tail (fst s) = (if xs = [] then IDX_NIL else last xs)"
    and nxt: "\<And>j. j < length xs \<Longrightarrow> iterate_next (cell s (xs ! j)) = (if Suc j < length xs then xs ! Suc j else IDX_NIL)"
    and prv: "\<And>j. j < length xs \<Longrightarrow> iterate_previous (cell s (xs ! j)) = (if j = 0 then IDX_NIL else xs ! (j - 1))"
    using live True by (auto simp: live_def links_def)
  obtain j where j: "j < length xs" "xs ! j = from" using frm by (auto simp: in_set_conv_nth)
  define e where "e = cell s from"
  define s1 where "s1 = set_bucket_virtual to e s"
  define s2 where "s2 = (if Suc j < length xs then set_bucket_virtual (xs ! Suc j) ((cell s1 (xs ! Suc j))\<lparr>iterate_previous := to\<rparr>) s1 else s1)"
  define s3 where "s3 = (if j = 0 then s2 else set_bucket_virtual (xs ! (j - 1)) ((cell s2 (xs ! (j - 1)))\<lparr>iterate_next := to\<rparr>) s2)"
  define s4 where "s4 = apfst (\<lambda>h. h\<lparr>iterate_list_head := if iterate_list_head h = from then to else iterate_list_head h,
                                       iterate_list_tail := if iterate_list_tail h = from then to else iterate_list_tail h\<rparr>) s3"
  have e: "iterate_next e = (if Suc j < length xs then xs ! Suc j else IDX_NIL)" "iterate_previous e = (if j = 0 then IDX_NIL else xs ! (j - 1))"
    using nxt [OF j(1)] prv [OF j(1)] j(2) by (simp_all add: e_def)
  have v [simp]: "valid s1 i = valid s i" "valid s2 i = valid s i" "valid s3 i = valid s i" "valid s4 i = valid s i" for i
    by (simp_all add: s1_def s2_def s3_def s4_def valid_iff) (auto simp: set_bucket_virtual_def)
  have nth: "xs ! k = xs ! l \<longleftrightarrow> k = l" if "k < length xs" "l < length xs" for k l
    using that dist by (simp add: nth_eq_iff_index_eq)
  have nto: "xs ! k \<noteq> to" if "k < length xs" for k using that to(1) by auto
  have to_new: "to \<noteq> xs ! (j - 1)" "\<not> (Suc j < length xs \<and> to = xs ! Suc j)"
    using nto [of "j - 1"] nto [of "Suc j"] j(1) by fastforce+
  have c1: "cell s1 i = (if i = to then e else cell s i)" if "valid s i" for i
    using that to by (simp add: s1_def set_bucket_cell)
  have c2: "cell s2 i = (if Suc j < length xs \<and> i = xs ! Suc j then (cell s i)\<lparr>iterate_previous := to\<rparr> else if i = to then e else cell s i)"
    if "valid s i" for i
    using that val [of "Suc j"] nto [of "Suc j"] by (auto simp: s2_def set_bucket_cell c1)
  have c3: "cell s3 i = (if j \<noteq> 0 \<and> i = xs ! (j - 1) then (cell s i)\<lparr>iterate_next := to\<rparr>
      else if Suc j < length xs \<and> i = xs ! Suc j then (cell s i)\<lparr>iterate_previous := to\<rparr> else if i = to then e else cell s i)"
    if "valid s i" for i
  proof (cases "j = 0")
    case True
    with that show ?thesis by (simp add: s3_def c2)
  next
    case False
    have "valid s (xs ! (j - 1))" "xs ! (j - 1) \<noteq> to" "Suc j < length xs \<Longrightarrow> xs ! (j - 1) \<noteq> xs ! Suc j"
      using val [of "j - 1"] nto [of "j - 1"] nth [of "j - 1" "Suc j"] j(1) by simp_all
    with False that show ?thesis by (auto simp: s3_def set_bucket_cell c2)
  qed
  have c4: "cell s4 i = cell s3 i" for i by (simp add: s4_def cell_def bucket_at_virtual_def bucket_at_def)
  have same: "same_table (fst s) (fst s1)" "same_table (fst s) (fst s2)" "same_table (fst s) (fst s3)" "same_table (fst s) (fst s4)"
    using val to j by (auto simp: s1_def s2_def s3_def s4_def same_table_def set_bucket_virtual_def)
  have ends: "iterate_list_head (fst s3) = iterate_list_head (fst s)" "iterate_list_tail (fst s3) = iterate_list_tail (fst s)"
    by (simp_all add: s1_def s2_def s3_def set_bucket_virtual_def)
  have steps: "bucket_at_virtual s from = Some e" "upd_bucket to (\<lambda>_. e) s = Some s1" "bucket_at_virtual s1 to = Some e"
    "bucket_at_virtual s2 to = Some e"
    using vf to nto [of "Suc j"] by (auto simp: valid_cell e_def [symmetric] upd_bucket_ok s1_def [symmetric] c1 c2)
  have step2: "(if iterate_next e \<noteq> IDX_NIL then upd_bucket (iterate_next e) (\<lambda>le. le\<lparr>iterate_previous := to\<rparr>) s1 else Some s1) = Some s2"
    using val [of "Suc j"] valid_not_NIL [of s "xs ! Suc j"] e(1) by (auto simp: upd_bucket_ok s2_def)
  have step3: "(if iterate_previous e \<noteq> IDX_NIL then upd_bucket (iterate_previous e) (\<lambda>le. le\<lparr>iterate_next := to\<rparr>) s2 else Some s2) = Some s3"
    using val [of "j - 1"] valid_not_NIL [of s "xs ! (j - 1)"] e(2) j(1) by (auto simp: upd_bucket_ok s3_def)
  have move: "bucket_move_entry from to s = Some s4"
    using ne True same(1) steps step2 step3 by (simp add: bucket_move_entry_def same_table_def s4_def del: if_split)
  have r: "ren from to xs ! k = (if k = j then to else xs ! k)" if "k < length xs" for k
    using that nth j by (auto simp: ren_def)
  have ht: "iterate_list_head (fst s4) = (if xs = [] then IDX_NIL else hd (ren from to xs))"
    "iterate_list_tail (fst s4) = (if xs = [] then IDX_NIL else last (ren from to xs))"
    using hd tl j(1) by (auto simp: s4_def ends ren_def hd_map last_map)
  have "iterate_next (cell s4 (ren from to xs ! k)) = (if Suc k < length xs then ren from to xs ! Suc k else IDX_NIL) \<and>
      iterate_previous (cell s4 (ren from to xs ! k)) = (if k = 0 then IDX_NIL else ren from to xs ! (k - 1))" if k: "k < length xs" for k
  proof (cases "k = j")
    case True
    have "cell s4 to = e" using c3 [OF to(2)] to_new by (auto simp: c4)
    then show ?thesis using True j(1) e by (auto simp: r)
  next
    case False
    have "cell s4 (xs ! k) = (if j \<noteq> 0 \<and> k = j - 1 then (cell s (xs ! k))\<lparr>iterate_next := to\<rparr>
      else if k = Suc j then (cell s (xs ! k))\<lparr>iterate_previous := to\<rparr> else cell s (xs ! k))"
    proof -
      have "(j \<noteq> 0 \<and> xs ! k = xs ! (j - 1)) = (j \<noteq> 0 \<and> k = j - 1)" using nth [OF k, of "j - 1"] j(1) by simp
      moreover have "(Suc j < length xs \<and> xs ! k = xs ! Suc j) = (k = Suc j)" using nth [OF k, of "Suc j"] k by auto
      ultimately show ?thesis using nto [OF k] by (simp only: c4 c3 [OF val [OF k]] if_False)
    qed
    moreover have "ren from to xs ! (k - 1) = (if k - 1 = j then to else xs ! (k - 1))" using k by (intro r) simp
    ultimately show ?thesis using False k j(1) nxt [OF k] prv [OF k] r [of "Suc k"] by (auto simp: r)
  qed
  then have "links s4 (ren from to xs)" using ht j(1) by (auto simp: links_def ren_def)
  then have "live s4 (ren from to xs)" using live to frm by (auto simp: live_def distinct_ren set_ren)
  moreover have "kv (cell s4 i) = kv (cell s (if i = to then from else i))" if "valid s i" for i
  proof (cases "i = to")
    case True
    show ?thesis using True to_new unfolding c4 c3 [OF that] by (simp only: if_False if_True e_def simp_thms)
  next
    case False
    then show ?thesis unfolding c4 c3 [OF that] by (simp add: kv_def)
  qed
  ultimately show ?thesis using move same(4) by (intro exI [of _ s4]) simp
qed

definition contents :: "swapped \<Rightarrow> nat list \<Rightarrow> (ptr \<times> ptr) list" where
  "contents s xs = map (\<lambda>i. kv (cell s i)) xs"

lemma bucket_move_entry_obtain:
  assumes "live s xs" "from \<in> set xs" "to \<notin> set xs" "valid s to"
  obtains s' where "bucket_move_entry from to s = Some s'" "same_table (fst s) (fst s')" "live s' (ren from to xs)"
    "\<And>i. valid s' i = valid s i" "\<And>i. valid s i \<Longrightarrow> kv (cell s' i) = kv (cell s (if i = to then from else i))"
    "contents s' (ren from to xs) = contents s xs" "set (ren from to xs) = insert to (set xs - {from})" "(snd s' = None) = (snd s = None)"
proof -
  obtain s' where s': "bucket_move_entry from to s = Some s'" "same_table (fst s) (fst s')" "live s' (ren from to xs)"
    "\<And>i. valid s' i = valid s i" "\<And>i. valid s i \<Longrightarrow> kv (cell s' i) = kv (cell s (if i = to then from else i))"
    using bucket_move_entry_ok [OF assms] by blast
  have "kv (cell s' (if i = from then to else i)) = kv (cell s i)" if "i \<in> set xs" for i
    using that s'(5) [of to] s'(5) [of i] assms by (auto simp: live_def)
  then have c: "contents s' (ren from to xs) = contents s xs" by (simp add: contents_def ren_def)
  have "valid s' IDX_PUT = valid s IDX_PUT" by (rule s'(4))
  then have "(snd s' = None) = (snd s = None)" by (auto simp: valid_iff)
  from that [OF s' c set_ren [OF assms(2)] this] show thesis .
qed

section \<open>Tables\<close>

definition settled :: "hashmap \<Rightarrow> nat \<Rightarrow> bool" where
  "settled h i \<longleftrightarrow> i < n_buckets h \<and> hm_dibs h ! i \<noteq> DIB_RAW_FREE \<and> hm_dibs h ! i \<noteq> DIB_RAW_REHASH"

definition key_at :: "hashmap \<Rightarrow> nat \<Rightarrow> ptr" where
  "key_at h i = he_key (hm_buckets h ! i)"

definition dist_of :: "hashmap \<Rightarrow> nat \<Rightarrow> ptr \<Rightarrow> nat" where
  "dist_of h i k = cd (n_buckets h) i (base_bucket_hash h k)"

definition dists :: "hashmap \<Rightarrow> dists" where
  "dists h i = (if settled h i then Some (dist_of h i (key_at h i)) else None)"

text \<open>The stored distances are right, except in one bucket if an operation is about to change it.\<close>

definition dibs_but :: "nat option \<Rightarrow> hashmap \<Rightarrow> bool" where
  "dibs_but hole h \<longleftrightarrow> 0 < n_buckets h \<and> n_buckets h \<le> IDX_SWAP_BEGIN \<and> length (hm_buckets h) = n_buckets h \<and>
     length (hm_dibs h) = n_buckets h \<and>
     (\<forall>i. settled h i \<longrightarrow> hole \<noteq> Some i \<longrightarrow> hm_dibs h ! i = min (dist_of h i (key_at h i)) DIB_RAW_OVERFLOW)"

definition table_ok :: "hashmap \<Rightarrow> bool" where
  "table_ok h \<longleftrightarrow> dibs_but None h \<and> robin (n_buckets h) (dists h)"

lemma dibs_butD:
  assumes "dibs_but hole h"
  shows "0 < n_buckets h" "n_buckets h \<le> IDX_SWAP_BEGIN" "length (hm_buckets h) = n_buckets h" "length (hm_dibs h) = n_buckets h"
    "settled h i \<Longrightarrow> hole \<noteq> Some i \<Longrightarrow> hm_dibs h ! i = min (dist_of h i (key_at h i)) DIB_RAW_OVERFLOW"
  using assms by (simp_all add: dibs_but_def)

lemma table_ok_dibs: "table_ok h \<Longrightarrow> dibs_but None h"
  by (simp add: table_ok_def)

lemma table_okD:
  assumes "table_ok h"
  shows "0 < n_buckets h" "n_buckets h \<le> IDX_SWAP_BEGIN" "length (hm_buckets h) = n_buckets h" "length (hm_dibs h) = n_buckets h"
    "robin (n_buckets h) (dists h)" "settled h i \<Longrightarrow> hm_dibs h ! i = min (dist_of h i (key_at h i)) DIB_RAW_OVERFLOW"
  using assms by (simp_all add: table_ok_def dibs_but_def)

lemma home_less [simp]: "0 < n_buckets h \<Longrightarrow> base_bucket_hash h k < n_buckets h"
  by (simp add: base_bucket_hash_def)

lemma next_idx_nx: "i < n_buckets h \<Longrightarrow> next_idx h i = nx (n_buckets h) i"
  by (auto simp: next_idx_def nx_def)

lemma prev_idx_pv: "i < n_buckets h \<Longrightarrow> prev_idx h i = pv (n_buckets h) i"
  by (auto simp: prev_idx_def pv_def mod_if)

lemma bucket_distance_cd: "bucket_distance h i j = cd (n_buckets h) i j"
  by (simp add: bucket_distance_def cd_def)

lemma settled_less: "settled h i \<Longrightarrow> i < n_buckets h"
  by (simp add: settled_def)

lemma dists_Some: "dists h i = Some d \<longleftrightarrow> settled h i \<and> d = dist_of h i (key_at h i)"
  by (auto simp: dists_def)

lemma dists_None: "dists h i = None \<longleftrightarrow> \<not> settled h i"
  by (simp add: dists_def)

lemma dist_less: "0 < n_buckets h \<Longrightarrow> i < n_buckets h \<Longrightarrow> dist_of h i k < n_buckets h"
  by (simp add: dist_of_def)

lemma bucket_at_but: "dibs_but hole h \<Longrightarrow> i < n_buckets h \<Longrightarrow> bucket_at h i = Some (hm_buckets h ! i)"
  by (simp add: bucket_at_def at_def dibs_butD)

lemma dib_at_but: "dibs_but hole h \<Longrightarrow> i < n_buckets h \<Longrightarrow> at (hm_dibs h) i = Some (hm_dibs h ! i)"
  by (simp add: at_def dibs_butD)

lemma calculate_dib_but:
  assumes "dibs_but hole h" "settled h i" "hole \<noteq> Some i"
  shows "bucket_calculate_dib h i (hm_dibs h ! i) = Some (dist_of h i (key_at h i))"
proof -
  have "hm_dibs h ! i = min (dist_of h i (key_at h i)) DIB_RAW_OVERFLOW" using assms by (rule dibs_butD)
  moreover have "bucket_at h i = Some (hm_buckets h ! i)" using assms by (intro bucket_at_but settled_less)
  ultimately show ?thesis
    by (auto simp: bucket_calculate_dib_def key_at_def dist_of_def bucket_distance_cd min_def)
qed

lemmas bucket_at_ok = bucket_at_but [OF table_ok_dibs]
  and dib_at_ok = dib_at_but [OF table_ok_dibs]
  and calculate_dib_ok = calculate_dib_but [OF table_ok_dibs, simplified]

text \<open>Tables with the same shape and the same hashes.\<close>

definition same_shape :: "hashmap \<Rightarrow> hashmap \<Rightarrow> bool" where
  "same_shape h h' \<longleftrightarrow>
     hm_ops h' = hm_ops h \<and> hm_type h' = hm_type h \<and> has_indirect h' = has_indirect h \<and>
     hm_n_buckets h' = hm_n_buckets h \<and> hm_n_entries h' = hm_n_entries h \<and> hm_hash_key h' = hm_hash_key h \<and>
     hm_shared_key h' = hm_shared_key h"

lemma same_shape_refl [simp]: "same_shape h h"
  by (simp add: same_shape_def)

lemma same_shape_trans: "same_shape a b \<Longrightarrow> same_shape b c \<Longrightarrow> same_shape a c"
  by (simp add: same_shape_def)

lemma same_table_shape: "same_table h h' \<Longrightarrow> same_shape h h'"
  by (simp add: same_shape_def same_table_def)

lemma same_shape_simps:
  assumes "same_shape h h'"
  shows "n_buckets h' = n_buckets h" "base_bucket_hash h' k = base_bucket_hash h k" "dist_of h' i k = dist_of h i k"
    "next_idx h' i = next_idx h i" "prev_idx h' i = prev_idx h i"
proof -
  show n: "n_buckets h' = n_buckets h" using assms by (simp add: same_shape_def n_buckets_def)
  show b: "base_bucket_hash h' k = base_bucket_hash h k" for k
    using assms n by (simp add: same_shape_def base_bucket_hash_def hash_key_def)
  show "dist_of h' i k = dist_of h i k" "next_idx h' i = next_idx h i" "prev_idx h' i = prev_idx h i"
    by (simp_all add: dist_of_def next_idx_def prev_idx_def n b)
qed

text \<open>Storing an entry with its distance in a bucket.\<close>

lemma table_store:
  assumes ok: "table_ok h" and shape: "same_shape h h'" and i: "i < n_buckets h"
    and buckets: "length (hm_buckets h') = length (hm_buckets h)" "\<And>j. j < n_buckets h \<Longrightarrow> j \<noteq> i \<Longrightarrow> key_at h' j = key_at h j"
    and dibs: "hm_dibs h' = (hm_dibs h)[i := min d DIB_RAW_OVERFLOW]" and d: "dist_of h i (key_at h' i) = d"
    and robin: "robin (n_buckets h) ((dists h)(i := Some d))"
  shows "table_ok h'" "dists h' = (dists h)(i := Some d)" "\<And>j. settled h' j = (j = i \<or> settled h j)"
proof -
  note [simp] = same_shape_simps [OF shape]
  have len: "length (hm_dibs h) = n_buckets h" using ok by (rule table_okD)
  show s: "settled h' j = (j = i \<or> settled h j)" for j
    using i len by (auto simp: settled_def dibs nth_list_update min_def)
  show ds: "dists h' = (dists h)(i := Some d)"
    using d buckets(2) by (auto simp: dists_def s fun_eq_iff settled_less)
  have "hm_dibs h' ! j = min (dist_of h j (key_at h' j)) DIB_RAW_OVERFLOW" if "settled h' j" for j
    using that d i len buckets(2) [of j] table_okD(6) [OF ok, of j] by (cases "j = i") (auto simp: dibs s settled_less)
  then show "table_ok h'" using ok robin ds by (simp add: table_ok_def dibs_but_def dibs buckets(1))
qed

section \<open>Insertion\<close>

lemma cell_bucket:
  assumes "table_ok (fst s)" "i < n_buckets (fst s)"
  shows "cell s i = hm_buckets (fst s) ! i" "valid s i"
  using assms table_okD(2,3) [OF assms(1)] by (simp_all add: cell_def valid_iff bucket_at_virtual_def bucket_at_ok)

text \<open>While an entry is being put: the indexes are those of the used buckets, and of the entry.\<close>

definition putting :: "swapped \<Rightarrow> nat list \<Rightarrow> bool" where
  "putting s xs \<longleftrightarrow> table_ok (fst s) \<and> live s xs \<and> snd s \<noteq> None \<and> IDX_TMP \<notin> set xs \<and>
     (\<forall>i < n_buckets (fst s). i \<in> set xs \<longleftrightarrow> hm_dibs (fst s) ! i \<noteq> DIB_RAW_FREE)"

lemma putting_set:
  assumes "putting s xs" "i \<in> set xs"
  shows "i < n_buckets (fst s) \<or> i = IDX_PUT"
  using assms table_okD(2,3) [of "fst s"] by (auto simp: putting_def live_def valid_iff split: if_splits)

text \<open>The effect of putting an entry in the bucket \<open>g\<close>, which was free or had an entry that was not in its place.\<close>

definition put_at :: "nat \<Rightarrow> swapped \<Rightarrow> nat list \<Rightarrow> swapped \<Rightarrow> nat list \<Rightarrow> bool" where
  "put_at g s xs s' xs' \<longleftrightarrow>
     g < n_buckets (fst s) \<and> \<not> settled (fst s) g \<and> putting s' xs' \<and> same_shape (fst s) (fst s') \<and>
     contents s' xs' = contents s xs \<and> (\<forall>i. settled (fst s') i \<longleftrightarrow> i = g \<or> settled (fst s) i) \<and>
     (\<forall>i < n_buckets (fst s). i \<noteq> g \<longrightarrow> (hm_dibs (fst s') ! i = DIB_RAW_REHASH \<longleftrightarrow> hm_dibs (fst s) ! i = DIB_RAW_REHASH)) \<and>
     (nx (n_buckets (fst s)) g \<noteq> g \<longrightarrow> dists (fst s') (nx (n_buckets (fst s)) g) = dists (fst s) (nx (n_buckets (fst s)) g)) \<and>
     (IDX_PUT \<in> set xs' \<longleftrightarrow> hm_dibs (fst s) ! g = DIB_RAW_REHASH) \<and>
     idx_lowest_entry (fst s') =
       (if has_indirect (fst s) \<and> idx_lowest_entry (fst s) > g then g else idx_lowest_entry (fst s))"

lemma key_at_cell:
  "i < length (hm_buckets (fst s)) \<Longrightarrow> i < IDX_SWAP_BEGIN \<Longrightarrow> key_at (fst s) i = fst (kv (cell s i))"
  by (simp add: key_at_def cell_def kv_def bucket_at_virtual_def bucket_at_def at_def)

lemma set_dib_small: "d < n_buckets h \<Longrightarrow> n_buckets h \<le> IDX_SWAP_BEGIN \<Longrightarrow> bucket_set_dib i d h = h\<lparr>hm_dibs := (hm_dibs h)[i := min d DIB_RAW_OVERFLOW]\<rparr>"
  by (simp add: bucket_set_dib_def IDX_SWAP_BEGIN_def UINT_MAX_def)

text \<open>Changes of a table that keep its entries and its list.\<close>

definition keeps_entries :: "(hashmap \<Rightarrow> hashmap) \<Rightarrow> bool" where
  "keeps_entries g \<longleftrightarrow>
     (\<forall>h. hm_buckets (g h) = hm_buckets h \<and> hm_type (g h) = hm_type h \<and> iterate_list_head (g h) = iterate_list_head h \<and>
        iterate_list_tail (g h) = iterate_list_tail h)"

lemma keeps_entries_simps:
  assumes "keeps_entries g"
  shows "cell (apfst g s) i = cell s i" "valid (apfst g s) i = valid s i" "live (apfst g s) xs = live s xs" "contents (apfst g s) xs = contents s xs"
proof -
  have g: "hm_buckets (g h) = hm_buckets h" "hm_type (g h) = hm_type h" "iterate_list_head (g h) = iterate_list_head h"
      "iterate_list_tail (g h) = iterate_list_tail h" for h using assms by (simp_all add: keeps_entries_def)
  show c: "cell (apfst g s) i = cell s i" for i by (simp add: cell_def bucket_at_virtual_def bucket_at_def g)
  show v: "valid (apfst g s) i = valid s i" for i by (simp add: valid_iff g)
  show "live (apfst g s) xs = live s xs" "contents (apfst g s) xs = contents s xs"
    by (simp_all add: live_def links_def contents_def c v g)
qed

text \<open>An entry of the table and the entry that is put change places.\<close>

lemma exchange:
  assumes live: "live s xs" and idx: "idx \<in> set xs" "idx < IDX_SWAP_BEGIN" and put: "IDX_PUT \<in> set xs" and tmp: "IDX_TMP \<notin> set xs"
    and keep: "keeps_entries g1" "keeps_entries g2"
  obtains s1 s2 s3 xs' where "bucket_move_entry idx IDX_TMP (apfst g1 s) = Some s1" "bucket_move_entry IDX_PUT idx (apfst g2 s1) = Some s2"
    "bucket_move_entry IDX_TMP IDX_PUT s2 = Some s3" "same_table (g1 (fst s)) (fst s1)" "same_table (g2 (fst s1)) (fst s2)"
    "same_table (fst s2) (fst s3)" "live s3 xs'" "set xs' = set xs" "contents s3 xs' = contents s xs" "snd s3 \<noteq> None"
    "\<And>i. i < IDX_SWAP_BEGIN \<Longrightarrow> valid s i \<Longrightarrow> kv (cell s3 i) = kv (cell s (if i = idx then IDX_PUT else i))"
    "kv (cell s3 IDX_PUT) = kv (cell s idx)"
proof -
  note k1 [simp] = keeps_entries_simps [OF keep(1)]
  note k2 [simp] = keeps_entries_simps [OF keep(2)]
  have v: "valid s IDX_PUT" "valid s idx" using live put idx by (auto simp: live_def)
  then have sw: "snd s \<noteq> None" and vt: "valid s IDX_TMP" by (auto simp: valid_iff)
  obtain s1 where s1: "bucket_move_entry idx IDX_TMP (apfst g1 s) = Some s1" "same_table (g1 (fst s)) (fst s1)" "live s1 (ren idx IDX_TMP xs)"
    "\<And>i. valid s1 i = valid s i" "\<And>i. valid s i \<Longrightarrow> kv (cell s1 i) = kv (cell s (if i = IDX_TMP then idx else i))"
    "contents s1 (ren idx IDX_TMP xs) = contents s xs" "set (ren idx IDX_TMP xs) = insert IDX_TMP (set xs - {idx})"
    using bucket_move_entry_obtain [of "apfst g1 s" xs idx IDX_TMP] live idx(1) tmp vt by (metis (no_types, lifting) k1 fst_apfst)
  define ys where "ys = ren idx IDX_TMP xs"
  have ys: "IDX_PUT \<in> set ys" "idx \<notin> set ys" "valid s1 idx" "live (apfst g2 s1) ys"
    using s1(3,4,7) put idx v by (auto simp: ys_def)
  obtain s2 where s2: "bucket_move_entry IDX_PUT idx (apfst g2 s1) = Some s2" "same_table (g2 (fst s1)) (fst s2)" "live s2 (ren IDX_PUT idx ys)"
    "\<And>i. valid s2 i = valid s i" "\<And>i. valid s i \<Longrightarrow> kv (cell s2 i) = kv (cell s1 (if i = idx then IDX_PUT else i))"
    "contents s2 (ren IDX_PUT idx ys) = contents s1 ys" "set (ren IDX_PUT idx ys) = insert idx (set ys - {IDX_PUT})"
    using bucket_move_entry_obtain [of "apfst g2 s1" ys IDX_PUT idx] ys by (metis (no_types, lifting) k2 s1(4) fst_apfst)
  define zs where "zs = ren IDX_PUT idx ys"
  have zs: "IDX_TMP \<in> set zs" "IDX_PUT \<notin> set zs" "valid s2 IDX_PUT" "live s2 zs"
    using s2(3,4,7) s1(7) idx v by (auto simp: zs_def ys_def)
  obtain s3 where s3: "bucket_move_entry IDX_TMP IDX_PUT s2 = Some s3" "same_table (fst s2) (fst s3)" "live s3 (ren IDX_TMP IDX_PUT zs)"
    "\<And>i. valid s3 i = valid s i" "\<And>i. valid s i \<Longrightarrow> kv (cell s3 i) = kv (cell s2 (if i = IDX_PUT then IDX_TMP else i))"
    "contents s3 (ren IDX_TMP IDX_PUT zs) = contents s2 zs" "set (ren IDX_TMP IDX_PUT zs) = insert IDX_PUT (set zs - {IDX_TMP})"
    using bucket_move_entry_obtain [OF zs(4,1,2,3)] by (metis (no_types, lifting) s2(4))
  have "set (ren IDX_TMP IDX_PUT zs) = set xs"
    using s3(7) s2(7) s1(7) put idx tmp by (auto simp: zs_def ys_def)
  moreover have "contents s3 (ren IDX_TMP IDX_PUT zs) = contents s xs" using s3(6) s2(6) s1(6) by (simp add: zs_def ys_def)
  moreover have "snd s3 \<noteq> None" using s3(4) [of IDX_PUT] v by (auto simp: valid_iff)
  moreover have "kv (cell s3 i) = kv (cell s (if i = idx then IDX_PUT else i))" if "i < IDX_SWAP_BEGIN" "valid s i" for i
    using that v s3(5) [of i] s2(5) [of i] s1(5) [of i] s1(5) [of IDX_PUT] by auto
  moreover have "kv (cell s3 IDX_PUT) = kv (cell s idx)"
    using v vt idx s3(5) [of IDX_PUT] s2(5) [of IDX_TMP] s1(5) [of IDX_TMP] by auto
  ultimately show thesis using that [OF s1(1) s2(1) s3(1) s1(2) s2(2) s3(2,3)] by blast
qed

lemma keeps_set_dib: "keeps_entries (bucket_set_dib i d)"
  by (simp add: keeps_entries_def bucket_set_dib_def)

lemma keeps_id: "keeps_entries (\<lambda>h. h)"
  by (simp add: keeps_entries_def)

lemma apfst_same [simp]: "apfst (\<lambda>h. h) s = s"
  by (cases s) simp

definition lower_lowest :: "nat \<Rightarrow> hashmap \<Rightarrow> hashmap" where
  "lower_lowest idx h = (if has_indirect h \<and> idx_lowest_entry h > idx then h\<lparr>idx_lowest_entry := idx\<rparr> else h)"

lemma keeps_lower: "keeps_entries (\<lambda>h. bucket_set_dib i d (lower_lowest i h))"
  by (simp add: keeps_entries_def bucket_set_dib_def lower_lowest_def)

lemma puttingD:
  assumes "putting s xs"
  shows "table_ok (fst s)" "live s xs" "snd s \<noteq> None" "IDX_TMP \<notin> set xs"
    "i < n_buckets (fst s) \<Longrightarrow> i \<in> set xs \<longleftrightarrow> hm_dibs (fst s) ! i \<noteq> DIB_RAW_FREE"
  using assms by (simp_all add: putting_def)

lemma putting_valid:
  assumes "putting s xs" "i < n_buckets (fst s)"
  shows "i < IDX_SWAP_BEGIN" "valid s i"
  using cell_bucket [OF puttingD(1) [OF assms(1)] assms(2)] table_okD(2) [OF puttingD(1) [OF assms(1)]] assms(2) by auto

lemma put_swap:
  assumes put: "putting s xs" "IDX_PUT \<in> set xs" and idx: "settled (fst s) idx" "dist_of (fst s) idx (key_at (fst s) idx) < distance"
    and dist: "dist_of (fst s) idx (fst (kv (cell s IDX_PUT))) = distance" "behind (n_buckets (fst s)) (dists (fst s)) idx distance"
  obtains s1 s2 s3 xs' where "bucket_move_entry idx IDX_TMP (apfst (bucket_set_dib idx distance) s) = Some s1"
    "bucket_move_entry IDX_PUT idx s1 = Some s2" "bucket_move_entry IDX_TMP IDX_PUT s2 = Some s3"
    "putting s3 xs'" "IDX_PUT \<in> set xs'" "same_shape (fst s) (fst s3)" "contents s3 xs' = contents s xs"
    "\<And>i. settled (fst s3) i = settled (fst s) i" "idx_lowest_entry (fst s3) = idx_lowest_entry (fst s)"
    "\<And>i. i < n_buckets (fst s) \<Longrightarrow> hm_dibs (fst s3) ! i = DIB_RAW_REHASH \<longleftrightarrow> hm_dibs (fst s) ! i = DIB_RAW_REHASH"
    "dists (fst s3) = (dists (fst s))(idx := Some distance)" "fst (kv (cell s3 IDX_PUT)) = key_at (fst s) idx"
proof -
  let ?h = "fst s"
  note tab = puttingD(1) [OF put(1)]
  have i: "idx < n_buckets ?h" using idx by (simp add: settled_def)
  have ixs: "idx \<in> set xs" using puttingD(5) [OF put(1) i] idx by (simp add: settled_def)
  have dl: "distance < n_buckets ?h" using dist(1) dist_less [OF _ i] table_okD(1) [OF tab] by blast
  have sd: "bucket_set_dib idx distance ?h = ?h\<lparr>hm_dibs := (hm_dibs ?h)[idx := min distance DIB_RAW_OVERFLOW]\<rparr>"
    using set_dib_small [OF dl table_okD(2) [OF tab]] .
  obtain s1 s2 s3 xs' where m: "bucket_move_entry idx IDX_TMP (apfst (bucket_set_dib idx distance) s) = Some s1"
    "bucket_move_entry IDX_PUT idx s1 = Some s2" "bucket_move_entry IDX_TMP IDX_PUT s2 = Some s3"
    and same: "same_table (bucket_set_dib idx distance ?h) (fst s1)" "same_table (fst s1) (fst s2)" "same_table (fst s2) (fst s3)"
    and l: "live s3 xs'" "set xs' = set xs" "contents s3 xs' = contents s xs" "snd s3 \<noteq> None"
    and c: "\<And>i. i < IDX_SWAP_BEGIN \<Longrightarrow> valid s i \<Longrightarrow> kv (cell s3 i) = kv (cell s (if i = idx then IDX_PUT else i))"
    "kv (cell s3 IDX_PUT) = kv (cell s idx)"
    using exchange [OF puttingD(2) [OF put(1)] ixs putting_valid(1) [OF put(1) i] put(2) puttingD(4) [OF put(1)] keeps_set_dib keeps_id, of idx distance]
    unfolding apfst_same by metis
  have st: "same_table (?h\<lparr>hm_dibs := (hm_dibs ?h)[idx := min distance DIB_RAW_OVERFLOW]\<rparr>) (fst s3)"
    using same same_table_trans sd by metis
  then have shape: "same_shape ?h (fst s3)" and dibs: "hm_dibs (fst s3) = (hm_dibs ?h)[idx := min distance DIB_RAW_OVERFLOW]"
    and len: "length (hm_buckets (fst s3)) = length (hm_buckets ?h)" and low: "idx_lowest_entry (fst s3) = idx_lowest_entry ?h"
    by (simp_all add: same_table_def same_shape_def)
  have keys: "key_at (fst s3) j = (if j = idx then fst (kv (cell s IDX_PUT)) else key_at ?h j)" if "j < n_buckets ?h" for j
    using that putting_valid [OF put(1) that] c(1) [of j] len table_okD(3) [OF tab] by (simp add: key_at_cell)
  have rob: "robin (n_buckets ?h) ((dists ?h)(idx := Some distance))"
    using robin_raise [OF table_okD(5) [OF tab] i _ _ dist(2)] idx by (simp add: dists_Some)
  note store = table_store [OF tab shape i len _ dibs _ rob]
  have tab': "table_ok (fst s3)" "dists (fst s3) = (dists ?h)(idx := Some distance)" "\<And>j. settled (fst s3) j = settled ?h j"
    using store keys i dist(1) idx(1) by auto
  have free: "(hm_dibs (fst s3) ! j = DIB_RAW_FREE) = (hm_dibs ?h ! j = DIB_RAW_FREE)"
    "(hm_dibs (fst s3) ! j = DIB_RAW_REHASH) = (hm_dibs ?h ! j = DIB_RAW_REHASH)" for j
    using idx(1) i table_okD(4) [OF tab] by (cases "j = idx"; auto simp: dibs settled_def min_def)+
  have "putting s3 xs'"
    using tab'(1) l puttingD(4,5) [OF put(1)] free by (simp add: putting_def same_shape_simps(1) [OF shape])
  moreover have "fst (kv (cell s3 IDX_PUT)) = key_at ?h idx" using c(2) i putting_valid [OF put(1) i] table_okD(3) [OF tab] by (simp add: key_at_cell)
  ultimately show thesis using that [OF m _ _ shape l(3) tab'(3) low free(2) tab'(2)] l(2) put(2) by blast
qed

lemma lower_simps [simp]: "n_buckets (lower_lowest idx h) = n_buckets h" "hm_dibs (lower_lowest idx h) = hm_dibs h"
  by (simp_all add: lower_lowest_def n_buckets_def)

lemma put_loop_free:
  assumes "table_ok (fst s)" "idx < n_buckets (fst s)" "\<not> settled (fst s) idx"
  shows "put_robin_hood_loop idx distance s =
    (if hm_dibs (fst s) ! idx = DIB_RAW_REHASH then
       do { s \<leftarrow> bucket_move_entry idx IDX_TMP s;
            s \<leftarrow> bucket_move_entry IDX_PUT idx (apfst (\<lambda>h. bucket_set_dib idx distance (lower_lowest idx h)) s);
            s \<leftarrow> bucket_move_entry IDX_TMP IDX_PUT s;
            Some (True, s) }
     else
       do { s \<leftarrow> bucket_move_entry IDX_PUT idx (apfst (\<lambda>h. bucket_set_dib idx distance (lower_lowest idx h)) s);
            Some (False, s) })"
  using assms
  by (subst put_robin_hood_loop.simps)
    (auto simp: dib_at_ok settled_def lower_lowest_def [abs_def] apfst_compose comp_def)

text \<open>The moves of an entry to a bucket that is free, or that has an entry to be placed.\<close>

lemma place_moves:
  assumes put: "putting s xs" "IDX_PUT \<in> set xs" and i: "idx < n_buckets (fst s)" "\<not> settled (fst s) idx"
  obtains s' xs' where
    "put_robin_hood_loop idx distance s = Some (hm_dibs (fst s) ! idx = DIB_RAW_REHASH, s')"
    "same_table (bucket_set_dib idx distance (lower_lowest idx (fst s))) (fst s')" "live s' xs'" "contents s' xs' = contents s xs"
    "snd s' \<noteq> None" "set xs' = (if hm_dibs (fst s) ! idx = DIB_RAW_REHASH then set xs else insert idx (set xs - {IDX_PUT}))"
    "\<And>i. i < n_buckets (fst s) \<Longrightarrow> kv (cell s' i) = kv (cell s (if i = idx then IDX_PUT else i))"
proof (cases "hm_dibs (fst s) ! idx = DIB_RAW_REHASH")
  case True
  let ?g = "\<lambda>h. bucket_set_dib idx distance (lower_lowest idx h)"
  have ixs: "idx \<in> set xs" using puttingD(5) [OF put(1) i(1)] True by simp
  obtain s1 s2 s3 xs' where m: "bucket_move_entry idx IDX_TMP s = Some s1"
    "bucket_move_entry IDX_PUT idx (apfst ?g s1) = Some s2" "bucket_move_entry IDX_TMP IDX_PUT s2 = Some s3"
    and same: "same_table (fst s) (fst s1)" "same_table (?g (fst s1)) (fst s2)" "same_table (fst s2) (fst s3)"
    and l: "live s3 xs'" "set xs' = set xs" "contents s3 xs' = contents s xs" "snd s3 \<noteq> None"
    and c: "\<And>i. i < IDX_SWAP_BEGIN \<Longrightarrow> valid s i \<Longrightarrow> kv (cell s3 i) = kv (cell s (if i = idx then IDX_PUT else i))"
    using exchange [OF puttingD(2) [OF put(1)] ixs putting_valid(1) [OF put(1) i(1)] put(2) puttingD(4) [OF put(1)] keeps_id keeps_lower, of idx distance]
    unfolding apfst_same by metis
  have g: "same_table (?g (fst s)) (?g (fst s1))"
    using same(1) by (auto simp: same_table_def bucket_set_dib_def lower_lowest_def)
  have t: "same_table (?g (fst s)) (fst s3)" using g same(2,3) same_table_trans by blast
  have p: "put_robin_hood_loop idx distance s = Some (hm_dibs (fst s) ! idx = DIB_RAW_REHASH, s3)"
    using True m by (simp add: put_loop_free [OF puttingD(1) [OF put(1)] i])
  show thesis
    using that [OF p t l(1,3,4)] l(2) True c putting_valid [OF put(1)] by simp
next
  case False
  let ?g = "\<lambda>h. bucket_set_dib idx distance (lower_lowest idx h)"
  have ixs: "idx \<notin> set xs" using puttingD(5) [OF put(1) i(1)] False i by (simp add: settled_def)
  note k [simp] = keeps_entries_simps [OF keeps_lower [of idx distance]]
  obtain s' where m: "bucket_move_entry IDX_PUT idx (apfst ?g s) = Some s'" "same_table (?g (fst s)) (fst s')" "live s' (ren IDX_PUT idx xs)"
    "\<And>i. valid s i \<Longrightarrow> kv (cell s' i) = kv (cell s (if i = idx then IDX_PUT else i))"
    "contents s' (ren IDX_PUT idx xs) = contents s xs" "set (ren IDX_PUT idx xs) = insert idx (set xs - {IDX_PUT})" "(snd s' = None) = (snd s = None)"
    using bucket_move_entry_obtain [of "apfst ?g s" xs IDX_PUT idx] put(2) ixs puttingD(2) [OF put(1)] putting_valid(2) [OF put(1) i(1)]
    by (metis (no_types, lifting) k fst_apfst snd_apfst)
  have p: "put_robin_hood_loop idx distance s = Some (hm_dibs (fst s) ! idx = DIB_RAW_REHASH, s')"
    using False m(1) by (simp add: put_loop_free [OF puttingD(1) [OF put(1)] i])
  show thesis
    using that [OF p m(2,3,5)] m(4,6,7) False putting_valid(2) [OF put(1)] puttingD(3) [OF put(1)] by simp
qed

lemma put_place:
  assumes put: "putting s xs" "IDX_PUT \<in> set xs" and i: "idx < n_buckets (fst s)" "\<not> settled (fst s) idx"
    and dist: "dist_of (fst s) idx (fst (kv (cell s IDX_PUT))) = distance" "behind (n_buckets (fst s)) (dists (fst s)) idx distance"
  shows "\<exists>s' xs'. put_robin_hood_loop idx distance s = Some (hm_dibs (fst s) ! idx = DIB_RAW_REHASH, s') \<and> put_at idx s xs s' xs'"
proof -
  let ?h = "fst s"
  note tab = puttingD(1) [OF put(1)]
  have dl: "distance < n_buckets ?h" using dist(1) dist_less [OF _ i(1)] table_okD(1) [OF tab] by blast
  obtain s' xs' where p: "put_robin_hood_loop idx distance s = Some (hm_dibs ?h ! idx = DIB_RAW_REHASH, s')"
    and same: "same_table (bucket_set_dib idx distance (lower_lowest idx ?h)) (fst s')" and l: "live s' xs'" "contents s' xs' = contents s xs"
    "snd s' \<noteq> None" "set xs' = (if hm_dibs ?h ! idx = DIB_RAW_REHASH then set xs else insert idx (set xs - {IDX_PUT}))"
    and c: "\<And>i. i < n_buckets ?h \<Longrightarrow> kv (cell s' i) = kv (cell s (if i = idx then IDX_PUT else i))"
    using place_moves [OF put i, of distance] by blast
  have sd: "bucket_set_dib idx distance (lower_lowest idx ?h) = (lower_lowest idx ?h)\<lparr>hm_dibs := (hm_dibs ?h)[idx := min distance DIB_RAW_OVERFLOW]\<rparr>"
    using set_dib_small [of distance "lower_lowest idx ?h" idx] dl table_okD(2) [OF tab] by simp
  have shape: "same_shape ?h (fst s')" and dibs: "hm_dibs (fst s') = (hm_dibs ?h)[idx := min distance DIB_RAW_OVERFLOW]"
    and len: "length (hm_buckets (fst s')) = length (hm_buckets ?h)" and low: "idx_lowest_entry (fst s') = idx_lowest_entry (lower_lowest idx ?h)"
    using same unfolding sd by (simp_all add: same_table_def same_shape_def lower_lowest_def)
  have keys: "key_at (fst s') j = (if j = idx then fst (kv (cell s IDX_PUT)) else key_at ?h j)" if "j < n_buckets ?h" for j
    using that putting_valid [OF put(1) that] c [OF that] len table_okD(3) [OF tab] by (simp add: key_at_cell)
  have rob: "robin (n_buckets ?h) ((dists ?h)(idx := Some distance))"
    using robin_place [OF table_okD(5) [OF tab] i(1) _ dist(2)] i(2) by (simp add: dists_None)
  note store = table_store [OF tab shape i(1) len _ dibs _ rob]
  have tab': "table_ok (fst s')" "\<And>j. settled (fst s') j \<longleftrightarrow> j = idx \<or> settled ?h j" "dists (fst s') = (dists ?h)(idx := Some distance)"
    using store keys i dist(1) by auto
  have other: "hm_dibs (fst s') ! j = hm_dibs ?h ! j" if "j \<noteq> idx" for j using that by (simp add: dibs)
  have here: "hm_dibs (fst s') ! idx = min distance DIB_RAW_OVERFLOW" using i(1) table_okD(4) [OF tab] by (simp add: dibs)
  have "j \<in> set xs' \<longleftrightarrow> hm_dibs (fst s') ! j \<noteq> DIB_RAW_FREE" if "j < n_buckets ?h" for j
    using puttingD(5) [OF put(1) that] putting_valid(1) [OF put(1) that] here other [of j] l(4) by (cases "j = idx") (auto simp: min_def)
  moreover have "IDX_TMP \<notin> set xs'" using l(4) puttingD(4) [OF put(1)] putting_valid(1) [OF put(1) i(1)] by auto
  ultimately have "putting s' xs'" using tab'(1) l by (simp add: putting_def same_shape_simps(1) [OF shape])
  moreover have "IDX_PUT \<in> set xs' \<longleftrightarrow> hm_dibs ?h ! idx = DIB_RAW_REHASH"
    using l(4) put(2) putting_valid(1) [OF put(1) i(1)] by auto
  ultimately have "put_at idx s xs s' xs'"
    unfolding put_at_def using i shape l(2) tab'(2,3) other low by (simp add: lower_lowest_def)
  with p show ?thesis by blast
qed

text \<open>The loop, with the number of steps to some bucket where an entry can be placed.\<close>

lemma put_loop:
  assumes "putting s xs" "IDX_PUT \<in> set xs" "idx < n_buckets (fst s)" "f < n_buckets (fst s)" "\<not> settled (fst s) f"
    "dist_of (fst s) idx (fst (kv (cell s IDX_PUT))) = distance" "behind (n_buckets (fst s)) (dists (fst s)) idx distance"
    "distance + cd (n_buckets (fst s)) f idx < n_buckets (fst s)"
  shows "\<exists>g s' xs'. put_robin_hood_loop idx distance s = Some (hm_dibs (fst s) ! g = DIB_RAW_REHASH, s') \<and> put_at g s xs s' xs'"
  using assms
proof (induction "cd (n_buckets (fst s)) f idx" arbitrary: s xs idx distance)
  case 0
  then have "idx = f" by simp
  with put_place [OF 0(2,3,4) _ 0(7,8)] 0(6) show ?case by blast
next
  case (Suc m)
  note put = Suc.prems(1,2) and idx = Suc.prems(3) and f = Suc.prems(4,5) and dist = Suc.prems(6,7) and room = Suc.prems(8)
  let ?h = "fst s" and ?n = "n_buckets (fst s)"
  note tab = puttingD(1) [OF put(1)]
  show ?case
  proof (cases "settled ?h idx")
    case False
    with put_place [OF put idx _ dist] show ?thesis by blast
  next
    case True
    let ?d = "dist_of ?h idx (key_at ?h idx)" and ?nx = "nx ?n idx"
    have ne: "f \<noteq> idx" using f True by auto
    have m: "m = cd ?n f ?nx" using Suc.hyps(2) cd_from_nx [OF f(1) idx ne] by simp
    have nxl: "?nx < ?n" using idx by simp
    have dn: "dist_of ?h ?nx k = Suc (dist_of ?h idx k)" if "Suc (dist_of ?h idx k) < ?n" for k
      using that cd_nx [OF idx, of "base_bucket_hash ?h k"] table_okD(1) [OF tab] by (simp add: dist_of_def)
    show ?thesis
    proof (cases "?d < distance")
      case sw: True
      obtain s1 s2 s3 xs' where mv: "bucket_move_entry idx IDX_TMP (apfst (bucket_set_dib idx distance) s) = Some s1"
        "bucket_move_entry IDX_PUT idx s1 = Some s2" "bucket_move_entry IDX_TMP IDX_PUT s2 = Some s3"
        and s3: "putting s3 xs'" "IDX_PUT \<in> set xs'" "same_shape ?h (fst s3)" "contents s3 xs' = contents s xs"
        "\<And>i. settled (fst s3) i = settled ?h i" "idx_lowest_entry (fst s3) = idx_lowest_entry ?h"
        "\<And>i. i < ?n \<Longrightarrow> hm_dibs (fst s3) ! i = DIB_RAW_REHASH \<longleftrightarrow> hm_dibs ?h ! i = DIB_RAW_REHASH"
        "dists (fst s3) = (dists ?h)(idx := Some distance)" "fst (kv (cell s3 IDX_PUT)) = key_at ?h idx"
        using put_swap [OF put True sw dist] by blast
      note sh [simp] = same_shape_simps [OF s3(3)]
      have step: "put_robin_hood_loop idx distance s = put_robin_hood_loop ?nx (?d + 1) s3"
        using mv True sw next_idx_nx [OF idx]
        by (subst put_robin_hood_loop.simps) (simp add: dib_at_ok [OF tab idx] calculate_dib_ok [OF tab True] settled_def)
      have l: "Suc ?d + cd ?n f ?nx < ?n" using room sw Suc.hyps(2) m by simp
      have "\<exists>g s' xs''. put_robin_hood_loop ?nx (Suc ?d) s3 = Some (hm_dibs (fst s3) ! g = DIB_RAW_REHASH, s') \<and> put_at g s3 xs' s' xs''"
      proof (rule Suc.hyps(1))
        show "behind (n_buckets (fst s3)) (dists (fst s3)) ?nx (Suc ?d)"
          using sw idx by (simp add: s3(8) behind_def)
        show "dist_of (fst s3) ?nx (fst (kv (cell s3 IDX_PUT))) = Suc ?d" using dn l by (simp add: s3(9))
      qed (use s3(1,2,5) f nxl l m in simp_all)
      then obtain g s' xs'' where g: "put_robin_hood_loop ?nx (Suc ?d) s3 = Some (hm_dibs (fst s3) ! g = DIB_RAW_REHASH, s')" "put_at g s3 xs' s' xs''"
        by blast
      have "\<not> settled ?h g" using g(2) s3(5) by (simp add: put_at_def)
      moreover have "settled ?h (pv ?n idx)" using dist(2) sw by (auto simp: behind_def dists_Some)
      moreover have "g < ?n" using g(2) by (simp add: put_at_def)
      ultimately have "nx ?n g \<noteq> idx" by (metis circle(3))
      then have "put_at g s xs s' xs''"
        using g(2) s3(3-8) same_shape_trans [OF s3(3)] by (auto simp: put_at_def same_shape_def [of ?h])
      with g step s3(7) show ?thesis by (auto simp: put_at_def)
    next
      case False
      have step: "put_robin_hood_loop idx distance s = put_robin_hood_loop ?nx (distance + 1) s"
        using True False next_idx_nx [OF idx]
        by (subst put_robin_hood_loop.simps) (simp add: dib_at_ok [OF tab idx] calculate_dib_ok [OF tab True] settled_def)
      have l: "Suc distance + cd ?n f ?nx < ?n" using room Suc.hyps(2) m by simp
      have "\<exists>g s' xs'. put_robin_hood_loop ?nx (Suc distance) s = Some (hm_dibs ?h ! g = DIB_RAW_REHASH, s') \<and> put_at g s xs s' xs'"
      proof (rule Suc.hyps(1))
        show "behind ?n (dists ?h) ?nx (Suc distance)"
          using False True idx by (simp add: behind_def dists_def)
        show "dist_of ?h ?nx (fst (kv (cell s IDX_PUT))) = Suc distance" using dn l dist(1) by simp
      qed (use put f nxl l m in simp_all)
      with step show ?thesis by simp
    qed
  qed
qed

text \<open>There is always a bucket that is free or has an entry in its first bucket.\<close>

definition stops :: "hashmap \<Rightarrow> bool" where
  "stops h \<longleftrightarrow> (\<exists>z < n_buckets h. dists h z = None \<or> dists h z = Some 0)"

lemma put_at_stops:
  assumes "put_at g s xs s' xs'" "table_ok (fst s)"
  shows "stops (fst s')"
proof -
  let ?n = "n_buckets (fst s)" and ?z = "nx (n_buckets (fst s)) g"
  have g: "g < ?n" "\<not> settled (fst s) g" "same_shape (fst s) (fst s')" using assms(1) by (auto simp: put_at_def)
  note sh [simp] = same_shape_simps [OF g(3)]
  show ?thesis
  proof (cases "?z = g")
    case True
    then have n: "?n = 1" using g(1) by (auto simp: nx_def split: if_splits)
    then have "g = 0" using g(1) by simp
    moreover have "dist_of (fst s) 0 k = 0" for k using dist_less [of "fst s" 0 k] n by simp
    ultimately show ?thesis using n by (auto simp: stops_def dists_def)
  next
    case False
    then have "dists (fst s') ?z = dists (fst s) ?z" using assms(1) by (simp add: put_at_def)
    moreover have "dists (fst s) ?z = None \<or> dists (fst s) ?z = Some 0"
    proof (cases "dists (fst s) ?z")
      case (Some d)
      then have "behind ?n (dists (fst s)) ?z d" using table_okD(5) [OF assms(2)] g(1) by (simp add: robin_def)
      with Some g show ?thesis by (auto simp: behind_def dists_Some)
    qed simp
    ultimately show ?thesis using g(1) unfolding stops_def by (metis sh(1) circle(1))
  qed
qed

section \<open>Removal\<close>

lemma dists_zero: "table_ok h \<Longrightarrow> settled h i \<Longrightarrow> hm_dibs h ! i = 0 \<longleftrightarrow> dists h i = Some 0"
  using table_okD(6) [of h i] by (auto simp: dists_def min_def)

text \<open>The stop bucket; all buckets before it have an entry that is not in its first bucket.\<close>

lemma find_right_ok:
  assumes "table_ok h" "\<And>i. i < n_buckets h \<Longrightarrow> hm_dibs h ! i \<noteq> DIB_RAW_REHASH" "left < n_buckets h" "right < n_buckets h"
    "z < n_buckets h" "dists h z = None \<or> dists h z = Some 0" "cd (n_buckets h) z right \<le> cd (n_buckets h) left right"
  shows "\<exists>r < n_buckets h. find_right h left right = Some r \<and> (dists h r = None \<or> dists h r = Some 0) \<and>
    (\<forall>j < n_buckets h. cd (n_buckets h) j right < cd (n_buckets h) r right \<longrightarrow> (\<exists>d. dists h j = Some d \<and> 0 < d))"
  using assms(4,7)
proof (induction "cd (n_buckets h) z right" arbitrary: right)
  case 0
  then have "right = z" using assms(5) by simp
  moreover have "hm_dibs h ! z = 0 \<or> hm_dibs h ! z = DIB_RAW_FREE"
    using assms(1,2,5,6) dists_zero [OF assms(1), of z] by (auto simp: dists_def settled_def split: if_splits)
  ultimately show ?case using assms(1,5,6) by (subst find_right.simps) (auto simp: dib_at_ok)
next
  case (Suc m)
  let ?n = "n_buckets h"
  show ?case
  proof (cases "hm_dibs h ! right = 0 \<or> hm_dibs h ! right = DIB_RAW_FREE")
    case True
    then have "dists h right = None \<or> dists h right = Some 0"
      using Suc.prems(1) assms(2) [OF Suc.prems(1)] dists_zero [OF assms(1), of right] by (auto simp: dists_def settled_def)
    then show ?thesis using True Suc.prems(1) assms(1) by (subst find_right.simps) (auto simp: dib_at_ok)
  next
    case False
    then have s: "settled h right" using Suc.prems(1) assms(2) by (simp add: settled_def)
    obtain d where d: "dists h right = Some d" "0 < d" using s False dists_zero [OF assms(1) s] by (auto simp: dists_def)
    then have ne: "z \<noteq> right" using assms(6) by auto
    have ne': "left \<noteq> right" using Suc.hyps(2) Suc.prems by auto
    have z: "m = cd ?n z (nx ?n right)" using Suc.hyps(2) cd_from_nx [OF assms(5) Suc.prems(1) ne] by simp
    have l: "cd ?n z (nx ?n right) \<le> cd ?n left (nx ?n right)"
      using Suc.prems(2) cd_from_nx [OF assms(5) Suc.prems(1) ne] cd_from_nx [OF assms(3) Suc.prems(1) ne'] by simp
    obtain r where r: "r < ?n" "find_right h left (nx ?n right) = Some r" "dists h r = None \<or> dists h r = Some 0"
      "\<And>j. j < ?n \<Longrightarrow> cd ?n j (nx ?n right) < cd ?n r (nx ?n right) \<Longrightarrow> \<exists>d. dists h j = Some d \<and> 0 < d"
      using Suc.hyps(1) [OF z _ l] Suc.prems(1) by auto
    have rr: "r \<noteq> right" using r(3) d by auto
    have "\<exists>d. dists h j = Some d \<and> 0 < d" if "j < ?n" "cd ?n j right < cd ?n r right" for j
    proof (cases "j = right")
      case False
      then show ?thesis
        using that r(4) [OF that(1)] cd_from_nx [OF that(1) Suc.prems(1) False] cd_from_nx [OF r(1) Suc.prems(1) rr] by simp
    qed (use d in auto)
    moreover have "find_right h left right = Some r"
      using r(2) False ne' Suc.prems(1) by (subst find_right.simps) (simp add: dib_at_ok [OF assms(1)] next_idx_nx)
    ultimately show ?thesis using r(1,3) by blast
  qed
qed

text \<open>One step of the shift: the entry on the right of the hole moves into it.\<close>

lemma live_valid: "live s xs \<Longrightarrow> i \<in> set xs \<Longrightarrow> valid s i"
  by (simp add: live_def)

lemma shift_step:
  assumes dibs: "dibs_but (Some hole) h" and hole: "hole < n_buckets h" "hole \<notin> set xs" and live: "live (h, None) xs"
    and left: "left = nx (n_buckets h) hole" "left \<noteq> hole" "left \<in> set xs" "settled h left"
    and d: "d = dist_of h left (key_at h left)" "0 < d"
  obtains h' where "bucket_move_entry left hole (h, None) = Some (h', None)" "live (bucket_set_dib hole (d - 1) h', None) (ren left hole xs)"
    "contents (bucket_set_dib hole (d - 1) h', None) (ren left hole xs) = contents (h, None) xs"
    "set (ren left hole xs) = insert hole (set xs - {left})"
    "dibs_but (Some left) (bucket_set_dib hole (d - 1) h')" "same_shape h (bucket_set_dib hole (d - 1) h')"
    "dists (bucket_set_dib hole (d - 1) h') = (dists h)(hole := Some (d - 1))"
    "idx_lowest_entry h' = idx_lowest_entry h"
    "hm_dibs (bucket_set_dib hole (d - 1) h') = (hm_dibs h)[hole := min (d - 1) DIB_RAW_OVERFLOW]"
proof -
  let ?n = "n_buckets h"
  have ll: "left < ?n" using left(4) by (simp add: settled_def)
  have vh: "valid (h, None) hole" "hole < IDX_SWAP_BEGIN" using hole(1) dibs_butD(2,3) [OF dibs] by (auto simp: valid_iff)
  obtain s' where m: "bucket_move_entry left hole (h, None) = Some s'" "same_table h (fst s')" "live s' (ren left hole xs)"
    "\<And>i. valid (h, None) i \<Longrightarrow> kv (cell s' i) = kv (cell (h, None) (if i = hole then left else i))"
    "contents s' (ren left hole xs) = contents (h, None) xs" "set (ren left hole xs) = insert hole (set xs - {left})" "snd s' = None"
    using bucket_move_entry_obtain [OF live left(3) hole(2) vh(1)] by (metis fst_conv snd_conv)
  obtain h' where h': "s' = (h', None)" using m(7) by (cases s') auto
  have dl: "d - 1 < ?n" using d dist_less [OF dibs_butD(1) [OF dibs] ll] by (simp add: less_imp_diff_less)
  have shape: "same_shape h h'" and dib': "hm_dibs h' = hm_dibs h" "length (hm_buckets h') = length (hm_buckets h)" and low: "idx_lowest_entry h' = idx_lowest_entry h"
    using m(2) by (simp_all add: h' same_table_def same_shape_def)
  note sh [simp] = same_shape_simps [OF shape]
  define h2 where "h2 = h'\<lparr>hm_dibs := (hm_dibs h)[hole := min (d - 1) DIB_RAW_OVERFLOW]\<rparr>"
  have sd: "bucket_set_dib hole (d - 1) h' = h2"
    using set_dib_small [of "d - 1" h' hole] dl dibs_butD(2) [OF dibs] dib' by (simp add: h2_def)
  have shape2: "same_shape h h2" using shape by (simp add: h2_def same_shape_def)
  note sh2 [simp] = same_shape_simps [OF shape2]
  have keys: "key_at h2 i = key_at h (if i = hole then left else i)" if "i < ?n" for i
  proof -
    have v: "i < IDX_SWAP_BEGIN" "valid (h, None) i" "left < IDX_SWAP_BEGIN" using that ll dibs_butD(2,3) [OF dibs] by (auto simp: valid_iff)
    have "key_at h2 i = key_at h' i" by (simp add: h2_def key_at_def)
    also have "\<dots> = fst (kv (cell (h', None) i))" using key_at_cell [of i "(h', None)"] that v dib' dibs_butD(3) [OF dibs] by simp
    also have "\<dots> = fst (kv (cell (h, None) (if i = hole then left else i)))" using m(4) [OF v(2)] by (simp add: h')
    also have "\<dots> = key_at h (if i = hole then left else i)"
      using key_at_cell [of i "(h, None)"] key_at_cell [of left "(h, None)"] that ll v dibs_butD(3) [OF dibs] by simp
    finally show ?thesis .
  qed
  have home: "left \<noteq> base_bucket_hash h (key_at h left)" using d ll by (auto simp: dist_of_def)
  have dh: "dist_of h hole (key_at h left) = d - 1"
    using cd_pv [OF ll _ home] dibs_butD(1) [OF dibs] hole(1) d(1) left(1) by (simp add: dist_of_def)
  have dibs2: "hm_dibs h2 = (hm_dibs h)[hole := min (d - 1) DIB_RAW_OVERFLOW]" by (simp add: h2_def)
  have set2: "settled h2 i \<longleftrightarrow> i = hole \<or> settled h i" for i
    using hole(1) dibs_butD(4) [OF dibs] by (auto simp: settled_def dibs2 nth_list_update min_def)
  have ok2: "dibs_but (Some left) h2"
  proof -
    have "hm_dibs h2 ! i = min (dist_of h i (key_at h2 i)) DIB_RAW_OVERFLOW" if "settled h2 i" for i
      using that keys [of i] dibs_butD(4,5) [OF dibs] dh set2 hole(1) by (cases "i = hole") (auto simp: dibs2 settled_less)
    then show ?thesis using dibs_butD [OF dibs] dib' by (simp add: dibs_but_def dibs2) (simp add: h2_def)
  qed
  have ds: "dists h2 = (dists h)(hole := Some (d - 1))"
    using keys dh hole(1) by (auto simp: dists_def set2 fun_eq_iff settled_less)
  have "cell (h2, None) i = cell (h', None) i" "live (h2, None) ys = live (h', None) ys" "contents (h2, None) ys = contents (h', None) ys" for i ys
    using keeps_entries_simps [OF keeps_set_dib [of hole "d - 1"], of "(h', None)"] unfolding sd [symmetric] by simp_all
  then show thesis
    using that [of h'] m(1,3,5,6) ok2 shape2 ds low dibs2 unfolding sd h' by simp
qed

lemma set_dib_n_buckets [simp]: "n_buckets (bucket_set_dib i d h) = n_buckets h"
  by (simp add: bucket_set_dib_def n_buckets_def)

definition hole_at :: "nat \<Rightarrow> hashmap \<Rightarrow> nat list \<Rightarrow> bool" where
  "hole_at hole h xs \<longleftrightarrow> dibs_but (Some hole) h \<and> hole < n_buckets h \<and> hole \<notin> set xs \<and> live (h, None) xs \<and>
     (\<forall>i < n_buckets h. i \<in> set xs \<longleftrightarrow> i \<noteq> hole \<and> hm_dibs h ! i \<noteq> DIB_RAW_FREE) \<and>
     (\<forall>i < n_buckets h. i \<noteq> hole \<longrightarrow> hm_dibs h ! i \<noteq> DIB_RAW_REHASH)"

lemma hole_atD:
  assumes "hole_at hole h xs"
  shows "dibs_but (Some hole) h" "hole < n_buckets h" "hole \<notin> set xs" "live (h, None) xs"
    "i < n_buckets h \<Longrightarrow> i \<in> set xs \<longleftrightarrow> i \<noteq> hole \<and> hm_dibs h ! i \<noteq> DIB_RAW_FREE"
    "i < n_buckets h \<Longrightarrow> i \<noteq> hole \<Longrightarrow> hm_dibs h ! i \<noteq> DIB_RAW_REHASH"
  using assms by (simp_all add: hole_at_def)

lemma cd_behind: "i < n \<Longrightarrow> cd n i (nx n i) = n - 1"
  by (auto simp: cd_def nx_def)

lemma shift_back_ok:
  assumes "hole_at hole h xs" "left = nx (n_buckets h) hole" "r < n_buckets h" "holed (n_buckets h) ((dists h)(hole := None)) hole"
    "\<And>j. j < n_buckets h \<Longrightarrow> cd (n_buckets h) j left < cd (n_buckets h) r left \<Longrightarrow> \<exists>d. dists h j = Some d \<and> 0 < d"
    "r \<noteq> hole \<Longrightarrow> dists h r = None \<or> dists h r = Some 0" "\<And>d. r = hole \<Longrightarrow> dists h left = Some d \<Longrightarrow> d \<le> 1"
  shows "\<exists>h' hole' xs'. shift_back h hole left r = Some (h', hole') \<and> hole_at hole' h' xs' \<and> same_shape h h' \<and>
    contents (h', None) xs' = contents (h, None) xs \<and> robin (n_buckets h) ((dists h')(hole' := None)) \<and>
    insert hole' (set xs') = insert hole (set xs) \<and> idx_lowest_entry h' = idx_lowest_entry h"
  using assms
proof (induction "cd (n_buckets h) r left" arbitrary: h hole left xs)
  case 0
  have "left < n_buckets h" using 0(3) hole_atD(2) [OF 0(2)] by simp
  then have eq: "left = r" using 0(1,4) by simp
  then have "((dists h)(hole := None)) (nx (n_buckets h) hole) = None \<or> ((dists h)(hole := None)) (nx (n_buckets h) hole) = Some 0"
    using 0(3) 0(7) by auto
  then have "robin (n_buckets h) ((dists h)(hole := None))" by (rule holed_robin [OF 0(5)])
  moreover have "shift_back h hole left r = Some (h, hole)" using eq by (subst shift_back.simps) simp
  ultimately show ?case using 0(2) same_shape_refl by blast
next
  case (Suc m)
  let ?n = "n_buckets h"
  note hole = hole_atD [OF Suc.prems(1)]
  have ll: "left < ?n" using Suc.prems(2) hole(2) by simp
  have lr: "left \<noteq> r" using Suc.hyps(2) ll by auto
  have lh: "left \<noteq> hole"
  proof
    assume "left = hole"
    then have "?n = 1" using Suc.prems(2) hole(2) by (auto simp: nx_def split: if_splits)
    with lr ll Suc.prems(3) show False by simp
  qed
  obtain d where d: "dists h left = Some d" "0 < d" using Suc.prems(5) [OF ll] Suc.hyps(2) ll by auto
  then have st: "settled h left" and dd: "d = dist_of h left (key_at h left)" by (auto simp: dists_Some)
  have lx: "left \<in> set xs" using hole(5) [OF ll] lh st by (simp add: settled_def)
  have dn: "d < ?n" using dist_less [OF dibs_butD(1) [OF hole(1)] ll] dd by simp
  obtain h' where m: "bucket_move_entry left hole (h, None) = Some (h', None)"
    and h2: "live (bucket_set_dib hole (d - 1) h', None) (ren left hole xs)"
    "contents (bucket_set_dib hole (d - 1) h', None) (ren left hole xs) = contents (h, None) xs"
    "set (ren left hole xs) = insert hole (set xs - {left})"
    "dibs_but (Some left) (bucket_set_dib hole (d - 1) h')" "same_shape h (bucket_set_dib hole (d - 1) h')"
    "dists (bucket_set_dib hole (d - 1) h') = (dists h)(hole := Some (d - 1))" "idx_lowest_entry h' = idx_lowest_entry h"
    "hm_dibs (bucket_set_dib hole (d - 1) h') = (hm_dibs h)[hole := min (d - 1) DIB_RAW_OVERFLOW]"
    using shift_step [OF hole(1-4) Suc.prems(2) lh lx st dd d(2)] by blast
  define k where "k = bucket_set_dib hole (d - 1) h'"
  note k = h2 [folded k_def]
  note sh [simp] = same_shape_simps [OF k(5)]
  have low: "idx_lowest_entry k = idx_lowest_entry h" using h2(7) by (simp add: k_def bucket_set_dib_def)
  have nn: "next_idx h' left = nx ?n left"
    using next_idx_nx [of left h'] ll sh(1) set_dib_n_buckets [of hole "d - 1" h'] by (simp add: k_def)
  have step: "shift_back h hole left r = shift_back k left (nx ?n left) r"
    using lr m d st dd nn
    by (subst shift_back.simps) (simp add: dib_at_but [OF hole(1) ll] calculate_dib_but [OF hole(1) st] lh [symmetric] k_def)
  have k_hole: "hole_at left k (ren left hole xs)"
    using k(1,4) ll k(3) hole(2,5,6) lh dibs_butD(4) [OF hole(1)]
    by (auto simp: hole_at_def k(8) nth_list_update min_def)
  have k_holed: "holed ?n ((dists k)(left := None)) left"
  proof -
    have "holed ?n (((dists h)(hole := None))(hole := Some (d - 1), nx ?n hole := None)) (nx ?n hole)"
      using holed_shift [OF Suc.prems(4), of d] d dn lh Suc.prems(2) by simp
    then show ?thesis using k(6) Suc.prems(2) by simp
  qed
  have k_between: "\<exists>d. dists k j = Some d \<and> 0 < d" if j: "j < ?n" "cd ?n j (nx ?n left) < cd ?n r (nx ?n left)" for j
  proof -
    have "cd ?n r (nx ?n left) < ?n" using Suc.prems(3) ll by simp
    then have "j \<noteq> left" using j cd_behind [OF ll] by auto
    then have jl: "cd ?n j left < cd ?n r left"
      using j cd_from_nx [OF j(1) ll] cd_from_nx [OF Suc.prems(3) ll lr [symmetric]] by simp
    moreover have "cd ?n r left < ?n" using Suc.prems(3) ll by simp
    with jl have "j \<noteq> hole" using cd_behind [OF hole(2)] Suc.prems(2) by auto
    ultimately show ?thesis using Suc.prems(5) [OF j(1)] by (simp add: k(6))
  qed
  have k_stop: "dists k r = None \<or> dists k r = Some 0"
    using Suc.prems(6) Suc.prems(7) [of d] d(1) by (cases "r = hole") (auto simp: k(6))
  have k_m: "m = cd ?n r (nx ?n left)" using Suc.hyps(2) cd_from_nx [OF Suc.prems(3) ll lr [symmetric]] by simp
  have "\<exists>h'' hole' xs'. shift_back k left (nx ?n left) r = Some (h'', hole') \<and> hole_at hole' h'' xs' \<and> same_shape k h'' \<and>
    contents (h'', None) xs' = contents (k, None) (ren left hole xs) \<and> robin (n_buckets k) ((dists h'')(hole' := None)) \<and>
    insert hole' (set xs') = insert left (set (ren left hole xs)) \<and> idx_lowest_entry h'' = idx_lowest_entry k"
  proof (rule Suc.hyps(1) [OF _ k_hole])
    fix j assume "j < n_buckets k" "cd (n_buckets k) j (nx ?n left) < cd (n_buckets k) r (nx ?n left)"
    then show "\<exists>d. dists k j = Some d \<and> 0 < d" by (intro k_between) simp_all
  qed (use k_m k_holed k_stop Suc.prems(3) lr in auto)
  then obtain h'' hole' xs' where r: "shift_back k left (nx ?n left) r = Some (h'', hole')" "hole_at hole' h'' xs'" "same_shape k h''"
    "contents (h'', None) xs' = contents (k, None) (ren left hole xs)" "robin ?n ((dists h'')(hole' := None))"
    "insert hole' (set xs') = insert left (set (ren left hole xs))" "idx_lowest_entry h'' = idx_lowest_entry k"
    by auto
  have "insert left (set (ren left hole xs)) = insert hole (set xs)" using k(3) lx by auto
  with r step k(2,5) low same_shape_trans [OF k(5) r(3)] show ?case by metis
qed

definition drop_nth :: "nat \<Rightarrow> 'a list \<Rightarrow> 'a list" where
  "drop_nth j xs = take j xs @ drop (Suc j) xs"

lemma length_drop_nth: "j < length xs \<Longrightarrow> length (drop_nth j xs) = length xs - 1"
  by (simp add: drop_nth_def)

lemma nth_drop_nth: "j < length xs \<Longrightarrow> k < length xs - 1 \<Longrightarrow> drop_nth j xs ! k = (if k < j then xs ! k else xs ! Suc k)"
  by (auto simp: drop_nth_def nth_append min_def)

lemma map_drop_nth: "map f (drop_nth j xs) = drop_nth j (map f xs)"
  by (simp add: drop_nth_def take_map drop_map)

lemma drop_nth_split:
  assumes "j < length xs"
  obtains a b where "xs = a @ xs ! j # b" "length a = j" "drop_nth j xs = a @ b"
  using that [of "take j xs" "drop (Suc j) xs"] id_take_nth_drop [OF assms] assms by (simp add: drop_nth_def min_def)

lemma set_drop_nth:
  assumes "distinct xs" "j < length xs"
  shows "set (drop_nth j xs) = set xs - {xs ! j}" "distinct (drop_nth j xs)"
proof -
  obtain a b where s: "xs = a @ xs ! j # b" "drop_nth j xs = a @ b" using drop_nth_split [OF assms(2)] by metis
  then have d: "distinct (a @ xs ! j # b)" "set xs = set (a @ xs ! j # b)" using assms(1) by metis+
  then show "set (drop_nth j xs) = set xs - {xs ! j}" "distinct (drop_nth j xs)" using s(2) by auto
qed

lemma kv_link: "kv (e\<lparr>iterate_previous := p\<rparr>) = kv e" "kv (e\<lparr>iterate_next := p\<rparr>) = kv e"
  by (simp_all add: kv_def)

text \<open>An entry is taken out of the list.\<close>

lemma unlink_entry_ok:
  assumes live: "live (h, None) xs" and j: "j < length xs"
  shows "\<exists>h'. unlink_entry (xs ! j) h = Some h' \<and> same_table h h' \<and> live (h', None) (drop_nth j xs) \<and>
    (\<forall>i. valid (h, None) i \<longrightarrow> kv (cell (h', None) i) = kv (cell (h, None) i))"
proof (cases "hm_type h = HASHMAP_TYPE_ORDERED")
  case False
  then show ?thesis using live set_drop_nth [of xs j] j by (auto simp: unlink_entry_def live_def links_def)
next
  case True
  let ?s = "(h, None) :: swapped" and ?N = "length xs"
  have val: "\<And>k. k < ?N \<Longrightarrow> valid ?s (xs ! k)" and dist: "distinct xs"
    and hd: "iterate_list_head h = (if xs = [] then IDX_NIL else hd xs)"
    and tl: "iterate_list_tail h = (if xs = [] then IDX_NIL else last xs)"
    and nxt: "\<And>k. k < ?N \<Longrightarrow> iterate_next (cell ?s (xs ! k)) = (if Suc k < ?N then xs ! Suc k else IDX_NIL)"
    and prv: "\<And>k. k < ?N \<Longrightarrow> iterate_previous (cell ?s (xs ! k)) = (if k = 0 then IDX_NIL else xs ! (k - 1))"
    using live True by (auto simp: live_def links_def)
  define e where "e = cell ?s (xs ! j)"
  have e: "iterate_next e = (if Suc j < ?N then xs ! Suc j else IDX_NIL)" "iterate_previous e = (if j = 0 then IDX_NIL else xs ! (j - 1))"
    using nxt [OF j] prv [OF j] by (simp_all add: e_def)
  define s1 :: swapped where "s1 = (if Suc j < ?N
    then set_bucket_virtual (xs ! Suc j) ((cell ?s (xs ! Suc j))\<lparr>iterate_previous := iterate_previous e\<rparr>) ?s
    else (h\<lparr>iterate_list_tail := iterate_previous e\<rparr>, None))"
  define s2 :: swapped where "s2 = (if j \<noteq> 0
    then set_bucket_virtual (xs ! (j - 1)) ((cell s1 (xs ! (j - 1)))\<lparr>iterate_next := iterate_next e\<rparr>) s1
    else ((fst s1)\<lparr>iterate_list_head := iterate_next e\<rparr>, None))"
  have nth: "xs ! k = xs ! l \<longleftrightarrow> k = l" if "k < ?N" "l < ?N" for k l
    using that dist by (simp add: nth_eq_iff_index_eq)
  have v [simp]: "valid s1 i = valid ?s i" "valid s2 i = valid ?s i" for i
    by (auto simp: s1_def s2_def valid_iff set_bucket_virtual_def)
  have vlt: "i < length (hm_buckets h)" "i < IDX_SWAP_BEGIN" if "valid ?s i" for i using that by (auto simp: valid_iff split: if_splits)
  have c1: "cell s1 i = (if Suc j < ?N \<and> i = xs ! Suc j then (cell ?s i)\<lparr>iterate_previous := iterate_previous e\<rparr> else cell ?s i)"
    if "valid ?s i" for i
  proof (cases "Suc j < ?N")
    case True
    then show ?thesis using that val [of "Suc j"] by (simp add: s1_def set_bucket_cell)
  qed (simp add: s1_def cell_def bucket_at_virtual_def bucket_at_def)
  have c2: "cell s2 i = (if j \<noteq> 0 \<and> i = xs ! (j - 1) then (cell s1 i)\<lparr>iterate_next := iterate_next e\<rparr> else cell s1 i)"
    if "valid ?s i" for i
  proof (cases "j = 0")
    case False
    then show ?thesis using that val [of "j - 1"] j by (simp add: s2_def set_bucket_cell)
  qed (simp add: s2_def cell_def bucket_at_virtual_def bucket_at_def s1_def set_bucket_virtual_def)
  have sn: "snd s1 = None" "snd s2 = None" by (simp_all add: s1_def s2_def set_bucket_virtual_def)
  have at: "bucket_at h (xs ! j) = Some e" "bucket_at (fst s1) (xs ! j) = Some e"
  proof -
    show "bucket_at h (xs ! j) = Some e" using vlt [OF val [OF j]] by (simp add: e_def cell_def bucket_at_virtual_def bucket_at_def at_def)
    have "xs ! j \<noteq> xs ! Suc j" if "Suc j < ?N" using nth [OF j that] by simp
    then have "cell s1 (xs ! j) = e" using c1 [OF val [OF j]] by (auto simp: e_def)
    moreover have "valid s1 (xs ! j)" using val [OF j] by simp
    ultimately show "bucket_at (fst s1) (xs ! j) = Some e"
      using vlt(2) [OF val [OF j]] valid_cell [of s1 "xs ! j"] by (simp add: bucket_at_virtual_def)
  qed
  have st1: "(if iterate_next e \<noteq> IDX_NIL then upd_bucket (iterate_next e) (\<lambda>n. n\<lparr>iterate_previous := iterate_previous e\<rparr>) ?s
      else Some (h\<lparr>iterate_list_tail := iterate_previous e\<rparr>, None)) = Some s1"
    using val [of "Suc j"] valid_not_NIL [of ?s "xs ! Suc j"] e(1) by (auto simp: upd_bucket_ok s1_def)
  have st2: "(if iterate_previous e \<noteq> IDX_NIL then upd_bucket (iterate_previous e) (\<lambda>p. p\<lparr>iterate_next := iterate_next e\<rparr>) s1
      else Some ((fst s1)\<lparr>iterate_list_head := iterate_next e\<rparr>, None)) = Some s2"
    using val [of "j - 1"] valid_not_NIL [of ?s "xs ! (j - 1)"] e(2) j by (auto simp: upd_bucket_ok s2_def)
  obtain h1 h2 where h12: "s1 = (h1, None)" "s2 = (h2, None)" using sn by (cases s1, cases s2) auto
  have run: "unlink_entry (xs ! j) h = Some h2"
    using True at st1 [unfolded h12] st2 [unfolded h12 fst_conv] by (simp add: unlink_entry_def h12 del: if_split)
  have h2: "h2 = fst s2" by (simp add: h12)
  have same: "same_table h h2" unfolding h2
    by (auto simp: s1_def s2_def same_table_def set_bucket_virtual_def)
  let ?ys = "drop_nth j xs"
  note ys = nth_drop_nth [OF j]
  have ends: "iterate_list_head h2 = (if j \<noteq> 0 then iterate_list_head h else iterate_next e)"
    "iterate_list_tail h2 = (if Suc j < ?N then iterate_list_tail h else iterate_previous e)"
    unfolding h2 by (auto simp: s1_def s2_def set_bucket_virtual_def)
  obtain a b where ab: "xs = a @ xs ! j # b" "length a = j" "?ys = a @ b" using drop_nth_split [OF j] .
  have ht: "iterate_list_head h2 = (if ?ys = [] then IDX_NIL else hd ?ys)" "iterate_list_tail h2 = (if ?ys = [] then IDX_NIL else last ?ys)"
  proof -
    have N: "?N = Suc (j + length b)" using ab by (metis length_append length_Cons add_Suc_right)
    have "xs ! Suc j = hd b" if "b \<noteq> []"
    proof -
      have "(a @ xs ! j # b) ! Suc j = b ! 0" using ab(2) by (simp add: nth_append)
      with ab(1) that show ?thesis by (metis hd_conv_nth)
    qed
    moreover have "xs ! (j - 1) = last a" if "a \<noteq> []"
    proof -
      have "(a @ xs ! j # b) ! (j - 1) = a ! (j - 1)" using ab(2) that by (metis nth_append diff_less length_greater_0_conv less_numeral_extra(1))
      with ab(1,2) that show ?thesis by (metis last_conv_nth)
    qed
    moreover have "hd xs = (if a = [] then xs ! j else hd a)" "last xs = (if b = [] then xs ! j else last b)"
      using ab(1) by (metis hd_append list.sel(1), metis last.simps last_appendR list.distinct(1))
    ultimately show "iterate_list_head h2 = (if ?ys = [] then IDX_NIL else hd ?ys)" "iterate_list_tail h2 = (if ?ys = [] then IDX_NIL else last ?ys)"
      using ends e hd tl N j ab(2,3) by auto
  qed
  have lk: "iterate_next (cell s2 (?ys ! k)) = (if Suc k < ?N - 1 then ?ys ! Suc k else IDX_NIL) \<and>
      iterate_previous (cell s2 (?ys ! k)) = (if k = 0 then IDX_NIL else ?ys ! (k - 1))" if k: "k < ?N - 1" for k
  proof (cases "k < j")
    case True
    have kN: "k < ?N" using k by simp
    have "xs ! k = xs ! (j - 1) \<longleftrightarrow> k = j - 1" "Suc j < ?N \<Longrightarrow> xs ! k \<noteq> xs ! Suc j"
      using nth [OF kN, of "j - 1"] nth [OF kN, of "Suc j"] True j by auto
    then have c: "cell s2 (xs ! k) = (if k = j - 1 then (cell ?s (xs ! k))\<lparr>iterate_next := iterate_next e\<rparr> else cell ?s (xs ! k))"
      using True c1 [OF val [OF kN]] c2 [OF val [OF kN]] by auto
    have pk: "k \<noteq> 0 \<Longrightarrow> ?ys ! (k - 1) = xs ! (k - 1)" using ys [of "k - 1"] k True by (metis less_imp_diff_less)
    have yk: "?ys ! k = xs ! k" using ys [OF k] True by simp
    show ?thesis
    proof (cases "Suc k = j")
      case eq: True
      then have "Suc k < ?N - 1 \<longleftrightarrow> Suc j < ?N" "Suc j < ?N \<Longrightarrow> ?ys ! Suc k = xs ! Suc j" using ys [of "Suc k"] by auto
      then show ?thesis using c yk pk eq e(1) prv [OF kN] by auto
    next
      case False
      then have "Suc k < ?N - 1" "Suc k < ?N" "k \<noteq> j - 1" "?ys ! Suc k = xs ! Suc k" using True j ys [of "Suc k"] by auto
      then show ?thesis using c yk pk nxt [OF kN] prv [OF kN] by auto
    qed
  next
    case False
    have kN: "Suc k < ?N" using k by simp
    have "j \<noteq> 0 \<Longrightarrow> xs ! Suc k \<noteq> xs ! (j - 1)" "Suc j < ?N \<Longrightarrow> xs ! Suc k = xs ! Suc j \<longleftrightarrow> k = j"
      using nth [OF kN, of "j - 1"] nth [OF kN, of "Suc j"] False j by auto
    then have c: "cell s2 (xs ! Suc k) = (if k = j then (cell ?s (xs ! Suc k))\<lparr>iterate_previous := iterate_previous e\<rparr> else cell ?s (xs ! Suc k))"
      using False kN c1 [OF val [OF kN]] c2 [OF val [OF kN]] by auto
    have pk: "k \<noteq> 0 \<Longrightarrow> ?ys ! (k - 1) = (if k = j then xs ! (k - 1) else xs ! k)" using ys [of "k - 1"] k False by auto
    have nk: "Suc k < ?N - 1 \<longleftrightarrow> Suc (Suc k) < ?N" "Suc k < ?N - 1 \<Longrightarrow> ?ys ! Suc k = xs ! Suc (Suc k)" using ys [of "Suc k"] False by auto
    have yk: "?ys ! k = xs ! Suc k" using ys [OF k] False by simp
    show ?thesis
    proof (cases "k = j")
      case True
      then show ?thesis using c yk pk nk e(2) nxt [OF kN] by auto
    next
      case kj: False
      then show ?thesis using c yk pk nk nxt [OF kN] prv [OF kN] False by auto
    qed
  qed
  have "links (h2, None) ?ys"
    using ht lk [unfolded h12(2)] length_drop_nth [OF j] by (simp add: links_def)
  moreover have "valid (h2, None) i" if "i \<in> set ?ys" for i
    using that set_drop_nth(1) [OF dist j] live_valid [OF live, of i] v(2) [unfolded h12(2), of i] by blast
  ultimately have "live (h2, None) ?ys" using set_drop_nth(2) [OF dist j] by (simp add: live_def)
  moreover have "kv (cell s2 i) = kv (cell ?s i)" if "valid ?s i" for i
    unfolding c2 [OF that] c1 [OF that]
    by (cases "Suc j < ?N \<and> i = xs ! Suc j"; cases "j \<noteq> 0 \<and> i = xs ! (j - 1)") (simp_all only: if_True if_False kv_link simp_thms)
  ultimately show ?thesis using run same unfolding h12(2) by blast
qed

end
