(* ===== verification/Udev_Hashmap_Rep.thy ===== *)
theory Udev_Hashmap_Rep
  imports Udev_Robin_Hood
begin

text \<open>
  The tables of \<^verbatim>\<open>libudev-compat/hashmap.c\<close> that stand for a list of entries, and the operations on the level of buckets: removing an
  entry (\<open>base_remove_entry\<close>), growing and rehashing (\<open>resize_buckets\<close>), and putting an entry (\<open>hashmap_base_put_boldly\<close>).
\<close>

section \<open>Tables that represent a list of entries\<close>

definition rep :: "hashmap \<Rightarrow> nat list \<Rightarrow> bool" where
  "rep h xs \<longleftrightarrow> table_ok h \<and> stops h \<and> live (h, None) xs \<and> (\<forall>i < n_buckets h. i \<in> set xs \<longleftrightarrow> hm_dibs h ! i \<noteq> DIB_RAW_FREE) \<and>
     (\<forall>i < n_buckets h. hm_dibs h ! i \<noteq> DIB_RAW_REHASH) \<and> hm_n_entries h = length xs \<and>
     (has_indirect h \<longrightarrow> (\<forall>i < n_buckets h. i < idx_lowest_entry h \<longrightarrow> hm_dibs h ! i = DIB_RAW_FREE))"

lemma repD:
  assumes "rep h xs"
  shows "table_ok h" "stops h" "live (h, None) xs" "i < n_buckets h \<Longrightarrow> i \<in> set xs \<longleftrightarrow> hm_dibs h ! i \<noteq> DIB_RAW_FREE"
    "i < n_buckets h \<Longrightarrow> hm_dibs h ! i \<noteq> DIB_RAW_REHASH" "hm_n_entries h = length xs"
    "has_indirect h \<Longrightarrow> i < n_buckets h \<Longrightarrow> i < idx_lowest_entry h \<Longrightarrow> hm_dibs h ! i = DIB_RAW_FREE"
  using assms by (simp_all add: rep_def)

lemma rep_less: "rep h xs \<Longrightarrow> i \<in> set xs \<Longrightarrow> i < n_buckets h"
  using live_valid [OF repD(3)] table_okD(3) [OF repD(1)] by (fastforce simp: valid_iff split: if_splits)

lemma rep_settled:
  assumes "rep h xs"
  shows "settled h i \<longleftrightarrow> i \<in> set xs"
  using repD(4,5) [OF assms, of i] rep_less [OF assms, of i] by (cases "i < n_buckets h") (auto simp: settled_def)

text \<open>Changing only links changes neither distances nor contents.\<close>

lemma same_keys:
  assumes "table_ok h" "same_table h h'" "\<forall>i. valid (h, None) i \<longrightarrow> kv (cell (h', None) i) = kv (cell (h, None) i)"
  shows "table_ok h'" "dists h' = dists h" "same_shape h h'" "\<And>i. settled h' i = settled h i"
proof -
  show sh: "same_shape h h'" using assms(2) by (rule same_table_shape)
  note [simp] = same_shape_simps [OF sh]
  have dibs: "hm_dibs h' = hm_dibs h" "length (hm_buckets h') = length (hm_buckets h)" using assms(2) by (simp_all add: same_table_def)
  show s: "settled h' i = settled h i" for i by (simp add: settled_def dibs)
  have "key_at h' i = key_at h i" if "i < n_buckets h" for i
    using that assms(3) dibs table_okD(2,3) [OF assms(1)] key_at_cell [of i "(h, None)"] key_at_cell [of i "(h', None)"] by (simp add: valid_iff)
  then show d: "dists h' = dists h" by (auto simp: dists_def s fun_eq_iff settled_less)
  show "table_ok h'" using assms(1) d \<open>\<And>i. i < n_buckets h \<Longrightarrow> key_at h' i = key_at h i\<close>
    by (auto simp: table_ok_def dibs_but_def dibs s settled_less)
qed

text \<open>Filling a bucket without an entry with zeros.\<close>

lemma zero_bucket:
  assumes "i \<notin> set xs" "live (h, sw) xs"
  shows "live (h\<lparr>hm_buckets := (hm_buckets h)[i := zero_entry]\<rparr>, sw) xs"
    "contents (h\<lparr>hm_buckets := (hm_buckets h)[i := zero_entry]\<rparr>, sw) xs = contents (h, sw) xs"
proof -
  let ?h = "h\<lparr>hm_buckets := (hm_buckets h)[i := zero_entry]\<rparr>"
  have c: "cell (?h, sw) j = cell (h, sw) j" if "j \<in> set xs" for j
  proof -
    have "j \<noteq> i" using that assms(1) by auto
    then show ?thesis by (simp add: cell_def bucket_at_virtual_def bucket_at_def at_def)
  qed
  have "valid (?h, sw) j = valid (h, sw) j" for j by (simp add: valid_iff)
  then show "live (?h, sw) xs" "contents (?h, sw) xs = contents (h, sw) xs"
    using assms(2) c by (simp_all add: live_def links_def contents_def)
qed

lemma mark_free_ok:
  assumes "hole_at hole h xs" "robin (n_buckets h) ((dists h)(hole := None))"
  defines "h' \<equiv> bucket_mark_free hole h"
  shows "table_ok h'" "stops h'" "live (h', None) xs" "contents (h', None) xs = contents (h, None) xs"
    "same_shape h h'" "hm_dibs h' = (hm_dibs h)[hole := DIB_RAW_FREE]" "idx_lowest_entry h' = idx_lowest_entry h"
proof -
  note hole = hole_atD [OF assms(1)]
  have h': "h' = h\<lparr>hm_buckets := (hm_buckets h)[hole := zero_entry], hm_dibs := (hm_dibs h)[hole := DIB_RAW_FREE]\<rparr>"
    by (simp add: h'_def bucket_mark_free_def bucket_set_dib_def)
  show sh: "same_shape h h'" and dibs: "hm_dibs h' = (hm_dibs h)[hole := DIB_RAW_FREE]" and "idx_lowest_entry h' = idx_lowest_entry h"
    by (simp_all add: h' same_shape_def)
  note [simp] = same_shape_simps [OF sh]
  have s: "settled h' i \<longleftrightarrow> i \<noteq> hole \<and> settled h i" for i
    using hole(2) dibs_butD(4) [OF hole(1)] by (auto simp: settled_def dibs nth_list_update)
  have key: "key_at h' i = key_at h i" if "i \<noteq> hole" for i using that by (simp add: h' key_at_def)
  have d: "dists h' = (dists h)(hole := None)" using key by (auto simp: dists_def s fun_eq_iff)
  have "hm_dibs h' ! i = min (dist_of h i (key_at h' i)) DIB_RAW_OVERFLOW" if "settled h' i" for i
    using that s key [of i] dibs_butD(5) [OF hole(1), of i] by (simp add: dibs)
  then show "table_ok h'" using assms(2) d dibs_butD(1-4) [OF hole(1)] by (simp add: table_ok_def dibs_but_def dibs) (simp add: h')
  show "stops h'" using hole(2) d by (auto simp: stops_def)
  have "live (h', None) xs = live (h\<lparr>hm_buckets := (hm_buckets h)[hole := zero_entry]\<rparr>, None) xs"
    "contents (h', None) xs = contents (h\<lparr>hm_buckets := (hm_buckets h)[hole := zero_entry]\<rparr>, None) xs"
    using keeps_entries_simps [of "\<lambda>k. k\<lparr>hm_dibs := (hm_dibs h)[hole := DIB_RAW_FREE]\<rparr>" "(h\<lparr>hm_buckets := (hm_buckets h)[hole := zero_entry]\<rparr>, None)"]
    by (simp_all add: keeps_entries_def h')
  then show "live (h', None) xs" "contents (h', None) xs = contents (h, None) xs" using zero_bucket [OF hole(3,4)] by simp_all
qed

lemma n_entries_upd [simp]:
  "n_buckets (h\<lparr>hm_n_entries := k\<rparr>) = n_buckets h" "base_bucket_hash (h\<lparr>hm_n_entries := k\<rparr>) = base_bucket_hash h"
  "dists (h\<lparr>hm_n_entries := k\<rparr>) = dists h" "table_ok (h\<lparr>hm_n_entries := k\<rparr>) = table_ok h" "stops (h\<lparr>hm_n_entries := k\<rparr>) = stops h"
  "live (h\<lparr>hm_n_entries := k\<rparr>, sw) xs = live (h, sw) xs" "contents (h\<lparr>hm_n_entries := k\<rparr>, sw) xs = contents (h, sw) xs"
proof -
  let ?h = "h\<lparr>hm_n_entries := k\<rparr>"
  show n: "n_buckets ?h = n_buckets h" by (simp add: n_buckets_def)
  show b: "base_bucket_hash ?h = base_bucket_hash h" by (simp add: base_bucket_hash_def hash_key_def n fun_eq_iff)
  have s: "settled ?h i = settled h i" "key_at ?h i = key_at h i" "dist_of ?h i p = dist_of h i p" for i p
    by (simp_all add: settled_def key_at_def dist_of_def n b)
  show d: "dists ?h = dists h" by (simp add: dists_def s fun_eq_iff)
  show "table_ok ?h = table_ok h" by (simp add: table_ok_def dibs_but_def n d s)
  show "stops ?h = stops h" by (simp add: stops_def n d)
  show "live (?h, sw) xs = live (h, sw) xs" "contents (?h, sw) xs = contents (h, sw) xs"
    using keeps_entries_simps [of "\<lambda>h. h\<lparr>hm_n_entries := k\<rparr>" "(h, sw)"] by (simp_all add: keeps_entries_def)
qed

text \<open>Removing an entry takes it out of the list, and keeps the hashes.\<close>

lemma base_remove_entry_ok:
  assumes rep: "rep h xs" and j: "j < length xs"
  shows "\<exists>h' xs'. base_remove_entry (xs ! j) h = Some h' \<and> rep h' xs' \<and> contents (h', None) xs' = drop_nth j (contents (h, None) xs) \<and>
    same_shape h (h'\<lparr>hm_n_entries := hm_n_entries h\<rparr>)"
proof -
  let ?i = "xs ! j" and ?n = "n_buckets h"
  note tab = repD(1) [OF rep]
  have ix: "?i \<in> set xs" using j by simp
  have i: "?i < ?n" "settled h ?i" using rep_less [OF rep ix] rep_settled [OF rep] ix by auto
  have dn: "\<forall>k < ?n. \<forall>e. dists h k = Some e \<longrightarrow> e < ?n" using dist_less [OF table_okD(1) [OF tab]] by (auto simp: dists_Some)
  obtain d0 where d0: "dists h ?i = Some d0" using i(2) by (simp add: dists_def)
  obtain z where z: "z < ?n" "dists h z = None \<or> dists h z = Some 0" using repD(2) [OF rep] by (auto simp: stops_def)
  have "cd ?n z (nx ?n ?i) \<le> cd ?n ?i (nx ?n ?i)" using cd_behind [OF i(1)] circle(6) [OF z(1) circle(1) [OF i(1)]] by simp
  then obtain r where r: "r < ?n" "find_right h ?i (nx ?n ?i) = Some r" "dists h r = None \<or> dists h r = Some 0"
    "\<And>k. k < ?n \<Longrightarrow> cd ?n k (nx ?n ?i) < cd ?n r (nx ?n ?i) \<Longrightarrow> \<exists>d. dists h k = Some d \<and> 0 < d"
    using find_right_ok [OF tab repD(5) [OF rep] i(1) circle(1) [OF i(1)] z] by auto
  obtain h1 where h1: "unlink_entry ?i h = Some h1" "same_table h h1" "live (h1, None) (drop_nth j xs)"
    "\<forall>i. valid (h, None) i \<longrightarrow> kv (cell (h1, None) i) = kv (cell (h, None) i)"
    using unlink_entry_ok [OF repD(3) [OF rep] j] by blast
  note same = same_keys [OF tab h1(2,4)]
  note sh [simp] = same_shape_simps [OF same(3)]
  have dib1: "hm_dibs h1 = hm_dibs h" "idx_lowest_entry h1 = idx_lowest_entry h" using h1(2) by (simp_all add: same_table_def)
  have dist: "distinct xs" using repD(3) [OF rep] by (simp add: live_def)
  have hole: "hole_at ?i h1 (drop_nth j xs)"
    using table_ok_dibs [OF same(1)] i(1) set_drop_nth [OF dist j] h1(3) repD(4,5) [OF rep] by (auto simp: hole_at_def dibs_but_def dib1)
  have c1: "contents (h1, None) (drop_nth j xs) = drop_nth j (contents (h, None) xs)"
  proof -
    have "kv (cell (h1, None) k) = kv (cell (h, None) k)" if "k \<in> set xs" for k using that h1(4) live_valid [OF repD(3) [OF rep]] by blast
    then show ?thesis using set_drop_nth(1) [OF dist j] by (simp add: contents_def map_drop_nth [symmetric])
  qed
  have "\<exists>h' hole' xs'. shift_back h1 ?i (nx ?n ?i) r = Some (h', hole') \<and> hole_at hole' h' xs' \<and> same_shape h1 h' \<and>
    contents (h', None) xs' = contents (h1, None) (drop_nth j xs) \<and> robin (n_buckets h1) ((dists h')(hole' := None)) \<and>
    insert hole' (set xs') = insert ?i (set (drop_nth j xs)) \<and> idx_lowest_entry h' = idx_lowest_entry h1"
  proof (rule shift_back_ok [OF hole])
    show "holed (n_buckets h1) ((dists h1)(?i := None)) ?i"
      using robin_holed [OF table_okD(5) [OF tab] i(1) d0 dn] by (simp add: same(2))
    fix d assume eq: "r = ?i" and d: "dists h1 (nx ?n ?i) = Some d"
    have "behind ?n (dists h) (nx ?n ?i) d" using d table_okD(5) [OF tab] i(1) by (simp add: robin_def same(2))
    then show "d \<le> 1" using r(3) i d0 eq by (auto simp: behind_def)
  qed (use r same(2) in auto)
  then obtain h2 hole' xs' where h2: "shift_back h1 ?i (nx ?n ?i) r = Some (h2, hole')" "hole_at hole' h2 xs'" "same_shape h1 h2"
    "contents (h2, None) xs' = drop_nth j (contents (h, None) xs)" "robin ?n ((dists h2)(hole' := None))"
    "insert hole' (set xs') = insert ?i (set (drop_nth j xs))" "idx_lowest_entry h2 = idx_lowest_entry h"
    using c1 dib1(2) by auto
  note sh2 [simp] = same_shape_simps [OF same_shape_trans [OF same(3) h2(3)]]
  have rob: "robin (n_buckets h2) ((dists h2)(hole' := None))" using h2(5) by simp
  note free = mark_free_ok [OF h2(2) rob]
  define h3 where "h3 = bucket_mark_free hole' h2"
  define h4 where "h4 = h3\<lparr>hm_n_entries := hm_n_entries h3 - 1\<rparr>"
  have sh3: "same_shape h h3" using same(3) h2(3) free(5) same_shape_trans unfolding h3_def by blast
  have run: "base_remove_entry ?i h = Some h4"
    using i r(2) h1(1) h2(1) next_idx_nx [OF i(1)] next_idx_nx [of ?i h1]
    by (simp add: base_remove_entry_def dib_at_ok [OF tab] settled_def h4_def h3_def)
  have n3: "hm_n_entries h3 = length xs" using sh3 repD(6) [OF rep] by (simp add: same_shape_def)
  have set': "i \<in> set xs" if "i \<in> set xs'" for i
    using that h2(6) set_drop_nth(1) [OF dist j] ix by (metis insert_Diff insert_iff)
  have "length xs' = length xs - 1" using arg_cong [OF h2(4), of length] length_drop_nth [of j "contents (h, None) xs"] j by (simp add: contents_def)
  moreover have "n_buckets h3 = ?n" using same_shape_simps(1) [OF sh3] .
  moreover have d3: "hm_dibs h3 = (hm_dibs h2)[hole' := DIB_RAW_FREE]" using free(6) by (simp add: h3_def)
  moreover have occ: "i \<in> set xs' \<longleftrightarrow> hm_dibs h3 ! i \<noteq> DIB_RAW_FREE" if "i < ?n" for i
    using that hole_atD(3,5) [OF h2(2)] dibs_butD(4) [OF hole_atD(1) [OF h2(2)]] by (cases "i = hole'") (auto simp: d3)
  moreover have "hm_dibs h3 ! i \<noteq> DIB_RAW_REHASH" if "i < ?n" for i
    using that hole_atD(6) [OF h2(2)] dibs_butD(4) [OF hole_atD(1) [OF h2(2)]] by (cases "i = hole'") (auto simp: d3)
  moreover have "hm_dibs h3 ! i = DIB_RAW_FREE" if "has_indirect h3" "i < ?n" "i < idx_lowest_entry h3" for i
    using that occ [OF that(2)] set' repD(4) [OF rep that(2)] repD(7) [OF rep _ that(2)] sh3 free(7) h2(7) by (auto simp: same_shape_def h3_def)
  ultimately have "rep h4 xs'"
    using free(1-3) n3 by (simp add: rep_def h4_def) (simp add: h3_def)
  moreover have "contents (h4, None) xs' = drop_nth j (contents (h, None) xs)" using free(4) h2(4) by (simp add: h4_def h3_def)
  moreover have "same_shape h (h4\<lparr>hm_n_entries := hm_n_entries h\<rparr>)" using sh3 by (simp add: h4_def same_shape_def)
  ultimately show ?thesis using run by blast
qed

text \<open>The entry that is put is linked behind the last one.\<close>

lemma swap_valid:
  "valid (h, None) i \<Longrightarrow> valid (h, Some sw) i" "valid (h, None) i \<Longrightarrow> cell (h, Some sw) i = cell (h, None) i"
  by (auto simp: valid_iff cell_def bucket_at_virtual_def split: if_splits)

lemma link_entry_ok:
  assumes live: "live (h, None) xs"
  shows "\<exists>s. link_entry (h, Some (e, zero_entry)) = Some s \<and> same_table h (fst s) \<and> snd s \<noteq> None \<and> live s (xs @ [IDX_PUT]) \<and>
    kv (cell s IDX_PUT) = kv e \<and> (\<forall>i. valid (h, None) i \<longrightarrow> kv (cell s i) = kv (cell (h, None) i))"
proof (cases "hm_type h = HASHMAP_TYPE_ORDERED")
  case False
  have "IDX_PUT \<notin> set xs" using live_valid [OF live, of IDX_PUT] by (auto simp: valid_iff)
  moreover have "valid (h, Some (e, zero_entry)) IDX_PUT" by (simp add: valid_iff)
  ultimately have "live (h, Some (e, zero_entry)) (xs @ [IDX_PUT])"
    using live swap_valid(1) False by (auto simp: live_def links_def)
  then show ?thesis using False swap_valid(2) by (simp add: link_entry_def cell_def bucket_at_virtual_def)
next
  case True
  let ?s = "(h, None) :: swapped" and ?N = "length xs" and ?t = "iterate_list_tail h" and ?z = "(h, Some (e, zero_entry)) :: swapped"
  have val: "\<And>k. k < ?N \<Longrightarrow> valid ?s (xs ! k)" and dist: "distinct xs"
    and hd: "iterate_list_head h = (if xs = [] then IDX_NIL else hd xs)"
    and tl: "iterate_list_tail h = (if xs = [] then IDX_NIL else last xs)"
    and nxt: "\<And>k. k < ?N \<Longrightarrow> iterate_next (cell ?s (xs ! k)) = (if Suc k < ?N then xs ! Suc k else IDX_NIL)"
    and prv: "\<And>k. k < ?N \<Longrightarrow> iterate_previous (cell ?s (xs ! k)) = (if k = 0 then IDX_NIL else xs ! (k - 1))"
    using live True by (auto simp: live_def links_def)
  have np: "i \<noteq> IDX_PUT" "i < IDX_SWAP_BEGIN" "i < length (hm_buckets h)" if "valid ?s i" for i using that by (auto simp: valid_iff split: if_splits)
  define e1 where "e1 = e\<lparr>iterate_next := IDX_NIL, iterate_previous := ?t\<rparr>"
  define s1 :: swapped where "s1 = (h, Some (e1, zero_entry))"
  have s1_fst: "fst s1 = h" by (simp add: s1_def)
  define s2 where "s2 = (if xs = [] then s1 else set_bucket_virtual (last xs) ((cell ?s (last xs))\<lparr>iterate_next := IDX_PUT\<rparr>) s1)"
  define s3 where "s3 = apfst (\<lambda>h. h\<lparr>iterate_list_tail := IDX_PUT,
                                    iterate_list_head := if iterate_list_head h = IDX_NIL then IDX_PUT else iterate_list_head h\<rparr>) s2"
  have vput: "valid ?z IDX_PUT" "valid s1 IDX_PUT" by (simp_all add: valid_iff s1_def)
  have u1: "upd_bucket IDX_PUT (\<lambda>e. e\<lparr>iterate_next := IDX_NIL, iterate_previous := ?t\<rparr>) ?z = Some s1"
    using vput by (simp add: upd_bucket_ok set_bucket_virtual_def s1_def e1_def cell_def bucket_at_virtual_def)
  have lst: "valid ?s (last xs)" "iterate_next (cell ?s (last xs)) = IDX_NIL" "last xs = xs ! (?N - 1)" if "xs \<noteq> []"
    using that val [of "?N - 1"] nxt [of "?N - 1"] by (simp_all add: last_conv_nth)
  have v1: "valid s1 i" "cell s1 i = cell ?s i" if "valid ?s i" for i using swap_valid [OF that] by (simp_all add: s1_def)
  have u2: "(if ?t \<noteq> IDX_NIL then
        do { old_tail \<leftarrow> bucket_at (fst s1) ?t;
             if iterate_next old_tail \<noteq> IDX_NIL then None else upd_bucket ?t (\<lambda>e. e\<lparr>iterate_next := IDX_PUT\<rparr>) s1 }
      else Some s1) = Some s2"
  proof (cases "xs = []")
    case False
    then have "bucket_at h (last xs) = Some (cell ?s (last xs))"
      using np [OF lst(1)] by (simp add: cell_def bucket_at_virtual_def bucket_at_def at_def)
    then show ?thesis
      using False tl lst(1,2) [OF False] valid_not_NIL [OF lst(1) [OF False]] v1 [OF lst(1) [OF False]]
      by (simp add: upd_bucket_ok s2_def s1_fst)
  qed (simp add: tl s2_def)
  have run: "link_entry ?z = Some s3"
    using True u1 u2 by (simp add: link_entry_def Let_def s3_def del: if_split)
  have v3: "valid s3 i = valid ?z i" for i
    by (auto simp: s3_def s2_def s1_def valid_iff set_bucket_virtual_def)
  have c3: "cell s3 i = (if xs \<noteq> [] \<and> i = last xs then (cell ?s i)\<lparr>iterate_next := IDX_PUT\<rparr> else cell ?s i)" if "valid ?s i" for i
  proof -
    have "cell s3 i = cell s2 i" by (simp add: s3_def cell_def bucket_at_virtual_def bucket_at_def)
    then show ?thesis using that v1 [OF that] lst v1(1) [OF lst(1)] by (auto simp: s2_def set_bucket_cell)
  qed
  have cp: "cell s3 IDX_PUT = e1"
  proof -
    have "cell s3 IDX_PUT = cell s2 IDX_PUT" by (simp add: s3_def cell_def bucket_at_virtual_def bucket_at_def)
    also have "\<dots> = cell s1 IDX_PUT"
    proof (cases "xs = []")
      case False
      then show ?thesis using vput(2) v1(1) [OF lst(1) [OF False]] np(1) [OF lst(1) [OF False]] by (simp add: s2_def set_bucket_cell)
    qed (simp add: s2_def)
    finally show ?thesis by (simp add: s1_def cell_def bucket_at_virtual_def)
  qed
  have same: "same_table h (fst s3)" by (auto simp: s3_def s2_def s1_def same_table_def set_bucket_virtual_def)
  have ends: "iterate_list_tail (fst s3) = IDX_PUT" "iterate_list_head (fst s3) = (if xs = [] then IDX_PUT else hd xs)"
    using hd valid_not_NIL [OF val, of 0] by (auto simp: s3_def s2_def s1_def set_bucket_virtual_def hd_conv_nth)
  have lk: "iterate_next (cell s3 ((xs @ [IDX_PUT]) ! k)) = (if Suc k < Suc ?N then (xs @ [IDX_PUT]) ! Suc k else IDX_NIL) \<and>
      iterate_previous (cell s3 ((xs @ [IDX_PUT]) ! k)) = (if k = 0 then IDX_NIL else (xs @ [IDX_PUT]) ! (k - 1))" if k: "k < Suc ?N" for k
  proof (cases "k = ?N")
    case True
    have "?N \<noteq> 0 \<Longrightarrow> (xs @ [IDX_PUT]) ! (?N - 1) = last xs" by (simp add: nth_append last_conv_nth)
    then show ?thesis using True cp tl by (auto simp: e1_def)
  next
    case False
    then have kN: "k < ?N" using k by simp
    have "xs \<noteq> []" using kN by auto
    moreover have "xs ! k = last xs \<longleftrightarrow> k = ?N - 1"
      using kN dist \<open>xs \<noteq> []\<close> by (simp add: last_conv_nth nth_eq_iff_index_eq)
    ultimately have c: "cell s3 (xs ! k) = (if k = ?N - 1 then (cell ?s (xs ! k))\<lparr>iterate_next := IDX_PUT\<rparr> else cell ?s (xs ! k))"
      using c3 [OF val [OF kN]] by simp
    have a: "(xs @ [IDX_PUT]) ! k = xs ! k" "(xs @ [IDX_PUT]) ! (k - 1) = xs ! (k - 1)" using kN by (auto simp: nth_append)
    show ?thesis
    proof (cases "Suc k = ?N")
      case eq: True
      then have "k = ?N - 1" "(xs @ [IDX_PUT]) ! Suc k = IDX_PUT" by (auto simp: nth_append)
      then show ?thesis using c a prv [OF kN] eq by simp
    next
      case ne: False
      then have "(xs @ [IDX_PUT]) ! Suc k = xs ! Suc k" "Suc k < ?N" "k \<noteq> ?N - 1" using kN by (auto simp: nth_append)
      then show ?thesis using c a nxt [OF kN] prv [OF kN] by simp
    qed
  qed
  have "links s3 (xs @ [IDX_PUT])" using ends lk by (auto simp: links_def)
  moreover have "IDX_PUT \<notin> set xs" using np(1) live_valid [OF live] by blast
  ultimately have "live s3 (xs @ [IDX_PUT])" using dist v3 vput(1) swap_valid(1) live_valid [OF live] by (auto simp: live_def)
  moreover have "kv (cell s3 IDX_PUT) = kv e" by (simp add: cp e1_def kv_def)
  moreover have "kv (cell s3 i) = kv (cell ?s i)" if "valid ?s i" for i using c3 [OF that] by (auto simp: kv_link)
  moreover have "snd s3 \<noteq> None" by (simp add: s3_def s2_def s1_def set_bucket_virtual_def)
  ultimately show ?thesis using run same by blast
qed

lemma real_entries:
  assumes "live s xs" "\<forall>i \<in> set xs. i < IDX_SWAP_BEGIN"
  shows "live (fst s, sw) xs" "contents (fst s, sw) xs = contents s xs"
proof -
  have c: "cell (fst s, sw) i = cell s i" "valid (fst s, sw) i = valid s i" if "i \<in> set xs" for i
    using that assms(2) by (simp_all add: cell_def valid_iff bucket_at_virtual_def)
  show "live (fst s, sw) xs" "contents (fst s, sw) xs = contents s xs"
    using assms(1) c by (auto simp: live_def links_def contents_def)
qed

lemma free_bucket:
  assumes "distinct xs" "length (filter (\<lambda>i. i < n) xs) < n"
  obtains f where "f < n" "f \<notin> set xs"
proof -
  have "\<not> {..<n} \<subseteq> set xs"
  proof
    assume "{..<n} \<subseteq> set xs"
    then have "{..<n} \<subseteq> set (filter (\<lambda>i. i < n) xs)" by auto
    then have "n \<le> card (set (filter (\<lambda>i. i < n) xs))" by (metis card_lessThan card_mono List.finite_set)
    also have "\<dots> \<le> length (filter (\<lambda>i. i < n) xs)" by (rule card_length)
    finally show False using assms(2) by simp
  qed
  then show thesis using that by blast
qed

text \<open>From the first bucket of a key on, an entry is always placed.\<close>

lemma put_robin_hood_ok:
  assumes put: "putting s xs" "IDX_PUT \<in> set xs" and f: "f < n_buckets (fst s)" "\<not> settled (fst s) f"
  shows "\<exists>g s' xs'. hashmap_put_robin_hood (base_bucket_hash (fst s) (fst (kv (cell s IDX_PUT)))) s =
    Some (hm_dibs (fst s) ! g = DIB_RAW_REHASH, s') \<and> put_at g s xs s' xs'"
  unfolding hashmap_put_robin_hood_def
proof (rule put_loop [OF put _ f])
  show home: "base_bucket_hash (fst s) (fst (kv (cell s IDX_PUT))) < n_buckets (fst s)" using table_okD(1) [OF puttingD(1) [OF put(1)]] by simp
  show "dist_of (fst s) (base_bucket_hash (fst s) (fst (kv (cell s IDX_PUT)))) (fst (kv (cell s IDX_PUT))) = 0"
    using home by (simp add: dist_of_def)
  show "0 + cd (n_buckets (fst s)) f (base_bucket_hash (fst s) (fst (kv (cell s IDX_PUT)))) < n_buckets (fst s)"
    using home f by simp
qed (simp add: behind_def)

lemma rep_not_PUT: "rep h xs \<Longrightarrow> i \<in> set xs \<Longrightarrow> i < IDX_SWAP_BEGIN"
  using rep_less table_okD(2) [OF repD(1)] by (meson less_le_trans)

text \<open>After the last entry is placed, the table represents the new list.\<close>

lemma put_at_rep:
  assumes put: "put_at g s xs s' xs'" and tab: "table_ok (fst s)" and fre: "hm_dibs (fst s) ! g = DIB_RAW_FREE"
    and no: "\<And>i. i < n_buckets (fst s) \<Longrightarrow> hm_dibs (fst s) ! i \<noteq> DIB_RAW_REHASH"
    and low: "\<And>i. has_indirect (fst s) \<Longrightarrow> i < n_buckets (fst s) \<Longrightarrow> i < idx_lowest_entry (fst s) \<Longrightarrow> hm_dibs (fst s) ! i = DIB_RAW_FREE"
  shows "rep ((fst s')\<lparr>hm_n_entries := length xs\<rparr>) xs'" "contents (fst s', None) xs' = contents s xs"
proof -
  have p: "putting s' xs'" "same_shape (fst s) (fst s')" "contents s' xs' = contents s xs" "IDX_PUT \<notin> set xs'" "g < n_buckets (fst s)"
    "\<And>i. settled (fst s') i \<longleftrightarrow> i = g \<or> settled (fst s) i"
    "\<And>i. i < n_buckets (fst s) \<Longrightarrow> i \<noteq> g \<Longrightarrow> hm_dibs (fst s') ! i = DIB_RAW_REHASH \<longleftrightarrow> hm_dibs (fst s) ! i = DIB_RAW_REHASH"
    and l: "idx_lowest_entry (fst s') = (if has_indirect (fst s) \<and> idx_lowest_entry (fst s) > g then g else idx_lowest_entry (fst s))"
    using put fre by (auto simp: put_at_def)
  note sh [simp] = same_shape_simps [OF p(2)]
  have ind: "has_indirect (fst s') = has_indirect (fst s)" using p(2) by (simp add: same_shape_def)
  have small: "\<forall>i \<in> set xs'. i < IDX_SWAP_BEGIN"
    using putting_set [OF p(1)] p(4) table_okD(2) [OF tab] by (metis sh(1) less_le_trans)
  note real = real_entries [OF puttingD(2) [OF p(1)] small, of None]
  have "hm_dibs (fst s') ! i \<noteq> DIB_RAW_REHASH" if "i < n_buckets (fst s)" for i
    using p(7) [OF that] no [OF that] p(6) [of i] by (cases "i = g") (auto simp: settled_def)
  moreover have "hm_dibs (fst s') ! i = DIB_RAW_FREE"
    if "has_indirect (fst s)" "i < n_buckets (fst s)" "i < idx_lowest_entry (fst s')" for i
  proof -
    have "i \<noteq> g" "i < idx_lowest_entry (fst s)" using that l by (auto split: if_splits)
    then show ?thesis using low [OF that(1,2)] p(6) [of i] p(7) [OF that(2)] that(2) by (auto simp: settled_def)
  qed
  moreover have "length xs' = length xs" using arg_cong [OF p(3), of length] by (simp add: contents_def)
  ultimately show "rep ((fst s')\<lparr>hm_n_entries := length xs\<rparr>) xs'"
    using puttingD(1,5) [OF p(1)] put_at_stops [OF put tab] real(1) by (simp add: rep_def ind)
  show "contents (fst s', None) xs' = contents s xs" using real(2) p(3) by simp
qed

lemma put_entry_ok:
  assumes rep: "rep h xs" and room: "hm_n_entries h < n_buckets h"
  shows "\<exists>s s' h' xs'. link_entry (h, Some (e, zero_entry)) = Some s \<and>
    hashmap_put_robin_hood (base_bucket_hash h (he_key e)) s = Some (False, s') \<and>
    h' = (fst s')\<lparr>hm_n_entries := hm_n_entries (fst s') + 1\<rparr> \<and> rep h' xs' \<and> contents (h', None) xs' = contents (h, None) xs @ [kv e] \<and>
    same_shape h (h'\<lparr>hm_n_entries := hm_n_entries h\<rparr>)"
proof -
  let ?n = "n_buckets h"
  note tab = repD(1) [OF rep]
  obtain s where s: "link_entry (h, Some (e, zero_entry)) = Some s" "same_table h (fst s)" "snd s \<noteq> None" "live s (xs @ [IDX_PUT])"
    "kv (cell s IDX_PUT) = kv e" "\<And>i. valid (h, None) i \<Longrightarrow> kv (cell s i) = kv (cell (h, None) i)"
    using link_entry_ok [OF repD(3) [OF rep]] by blast
  have "kv (cell (fst s, None) i) = kv (cell (h, None) i)" if "valid (h, None) i" for i
    using s(6) [OF that] that by (auto simp: cell_def valid_iff bucket_at_virtual_def split: if_splits)
  then have same: "table_ok (fst s)" "same_shape h (fst s)" "\<And>i. settled (fst s) i = settled h i"
    using same_keys [OF tab s(2)] by blast+
  note sh [simp] = same_shape_simps [OF same(2)]
  have dibs: "hm_dibs (fst s) = hm_dibs h" "idx_lowest_entry (fst s) = idx_lowest_entry h" "has_indirect (fst s) = has_indirect h"
    using s(2) by (simp_all add: same_table_def)
  have big: "i \<noteq> IDX_PUT" if "i < ?n" for i using that table_okD(2) [OF tab] by auto
  have tmp: "IDX_TMP \<notin> set xs" using rep_not_PUT [OF rep, of IDX_TMP] by auto
  have put: "putting s (xs @ [IDX_PUT])"
    using same(1) s(3,4) repD(4) [OF rep] big tmp by (simp add: putting_def dibs)
  have dist: "distinct xs" using repD(3) [OF rep] by (simp add: live_def)
  have "length (filter (\<lambda>i. i < ?n) xs) < ?n" using room repD(6) [OF rep] by (metis length_filter_le le_less_trans)
  then obtain f where f: "f < ?n" "f \<notin> set xs" using free_bucket [OF dist] by blast
  have ns: "\<not> settled (fst s) f" using f rep_settled [OF rep] by (simp add: same(3))
  obtain g s' xs' where g: "hashmap_put_robin_hood (base_bucket_hash (fst s) (fst (kv (cell s IDX_PUT)))) s =
    Some (hm_dibs (fst s) ! g = DIB_RAW_REHASH, s')" "put_at g s (xs @ [IDX_PUT]) s' xs'"
    using put_robin_hood_ok [OF put _ _ ns] f(1) by auto
  have gn: "g < ?n" "\<not> settled h g" using g(2) by (auto simp: put_at_def same(3))
  have no: "hm_dibs (fst s) ! i \<noteq> DIB_RAW_REHASH" if "i < n_buckets (fst s)" for i using that repD(5) [OF rep] by (simp add: dibs)
  have fre: "hm_dibs (fst s) ! g = DIB_RAW_FREE" using gn repD(5) [OF rep gn(1)] by (simp add: settled_def dibs)
  have low: "hm_dibs (fst s) ! i = DIB_RAW_FREE" if "has_indirect (fst s)" "i < n_buckets (fst s)" "i < idx_lowest_entry (fst s)" for i
    using that repD(7) [OF rep] by (simp add: dibs)
  note r = put_at_rep [OF g(2) same(1) fre no low]
  have sh': "same_shape h (fst s')" using g(2) same(2) same_shape_trans by (auto simp: put_at_def)
  have n': "hm_n_entries (fst s') + 1 = length (xs @ [IDX_PUT])" using sh' repD(6) [OF rep] by (simp add: same_shape_def)
  have c: "contents s (xs @ [IDX_PUT]) = contents (h, None) xs @ [kv e]"
    using s(5,6) live_valid [OF repD(3) [OF rep]] by (simp add: contents_def)
  have run: "hashmap_put_robin_hood (base_bucket_hash h (he_key e)) s = Some (False, s')"
    using g(1) s(5) fre by (simp add: kv_def)
  show ?thesis
    using s(1) run r c n' sh' by (intro exI [of _ s] exI [of _ s'] exI [of _ "(fst s')\<lparr>hm_n_entries := hm_n_entries (fst s') + 1\<rparr>"] exI [of _ xs'])
      (simp add: same_shape_def)
qed

section \<open>Growing\<close>

definition settled_set :: "hashmap \<Rightarrow> nat set" where "settled_set h = {i. settled h i}"

definition rehash_set :: "hashmap \<Rightarrow> nat set" where "rehash_set h = {i. i < n_buckets h \<and> hm_dibs h ! i = DIB_RAW_REHASH}"

definition low_ok :: "hashmap \<Rightarrow> bool" where
  "low_ok h \<longleftrightarrow> (has_indirect h \<longrightarrow> (\<forall>i < n_buckets h. i < idx_lowest_entry h \<longrightarrow> hm_dibs h ! i = DIB_RAW_FREE))"

lemma finite_settled: "finite (settled_set h)"
  by (rule finite_subset [of _ "{..<n_buckets h}"]) (auto simp: settled_set_def settled_def)

lemma put_at_sets:
  assumes "put_at g s xs s' xs'"
  shows "settled_set (fst s') = insert g (settled_set (fst s))" "g \<notin> settled_set (fst s)" "rehash_set (fst s') = rehash_set (fst s) - {g}"
    "low_ok (fst s) \<Longrightarrow> low_ok (fst s')"
proof -
  have p: "same_shape (fst s) (fst s')" "g < n_buckets (fst s)" "\<not> settled (fst s) g" "\<And>i. settled (fst s') i \<longleftrightarrow> i = g \<or> settled (fst s) i"
    "\<And>i. i < n_buckets (fst s) \<Longrightarrow> i \<noteq> g \<Longrightarrow> hm_dibs (fst s') ! i = DIB_RAW_REHASH \<longleftrightarrow> hm_dibs (fst s) ! i = DIB_RAW_REHASH"
    "idx_lowest_entry (fst s') = (if has_indirect (fst s) \<and> idx_lowest_entry (fst s) > g then g else idx_lowest_entry (fst s))"
    using assms by (auto simp: put_at_def)
  note sh [simp] = same_shape_simps [OF p(1)]
  have ind: "has_indirect (fst s') = has_indirect (fst s)" using p(1) by (simp add: same_shape_def)
  show "settled_set (fst s') = insert g (settled_set (fst s))" "g \<notin> settled_set (fst s)" using p(3,4) by (auto simp: settled_set_def)
  have "hm_dibs (fst s') ! g \<noteq> DIB_RAW_REHASH" using p(4) [of g] by (simp add: settled_def)
  then show "rehash_set (fst s') = rehash_set (fst s) - {g}" using p(5) by (auto simp: rehash_set_def)
  assume low: "low_ok (fst s)"
  have "hm_dibs (fst s') ! i = DIB_RAW_FREE" if i: "has_indirect (fst s)" "i < n_buckets (fst s)" "i < idx_lowest_entry (fst s')" for i
  proof -
    have "i \<noteq> g" "i < idx_lowest_entry (fst s)" using i(3) p(6) i(1) by (auto split: if_splits)
    then show ?thesis using low i p(4) [of i] p(5) [OF i(2)] by (auto simp: low_ok_def settled_def)
  qed
  then show "low_ok (fst s')" by (simp add: low_ok_def ind)
qed

lemma unsettled_exists:
  assumes "putting s xs" "IDX_PUT \<in> set xs" "length xs \<le> n_buckets (fst s)"
  obtains f where "f < n_buckets (fst s)" "\<not> settled (fst s) f"
proof -
  let ?n = "n_buckets (fst s)"
  have dist: "distinct xs" using puttingD(2) [OF assms(1)] by (simp add: live_def)
  have "\<not> IDX_PUT < ?n" using table_okD(2) [OF puttingD(1) [OF assms(1)]] by (auto dest: less_le_trans)
  then have "length (filter (\<lambda>i. i < ?n) xs) < length xs" using assms(2) by (intro length_filter_less) auto
  then obtain f where "f < ?n" "f \<notin> set xs" using free_bucket [OF dist, of ?n] assms(3) by auto
  then show thesis using that [of f] puttingD(5) [OF assms(1)] by (simp add: settled_def)
qed

text \<open>A chain of displaced entries ends, and places one entry at each step.\<close>

definition chain_result :: "nat \<Rightarrow> swapped \<Rightarrow> nat list \<Rightarrow> nat \<Rightarrow> swapped \<Rightarrow> nat list \<Rightarrow> bool" where
  "chain_result cnt s xs cnt' s' xs' \<longleftrightarrow> putting s' xs' \<and> IDX_PUT \<notin> set xs' \<and> same_shape (fst s) (fst s') \<and> contents s' xs' = contents s xs \<and>
     cnt' + card (settled_set (fst s)) = cnt + card (settled_set (fst s')) \<and> rehash_set (fst s') \<subseteq> rehash_set (fst s) \<and> low_ok (fst s')"

lemma rehash_chain_ok:
  assumes "putting s xs" "IDX_PUT \<in> set xs" "length xs \<le> n_buckets (fst s)" "low_ok (fst s)"
  shows "\<exists>cnt' s' xs'. rehash_chain cnt (base_bucket_hash (fst s) (fst (kv (cell s IDX_PUT)))) s = Some (cnt', s') \<and> chain_result cnt s xs cnt' s' xs'"
  using assms
proof (induction "card (rehash_set (fst s))" arbitrary: s xs cnt rule: less_induct)
  case less
  obtain f where f: "f < n_buckets (fst s)" "\<not> settled (fst s) f" using unsettled_exists [OF less.prems(1-3)] .
  obtain g s1 xs1 where g: "hashmap_put_robin_hood (base_bucket_hash (fst s) (fst (kv (cell s IDX_PUT)))) s =
    Some (hm_dibs (fst s) ! g = DIB_RAW_REHASH, s1)" "put_at g s xs s1 xs1"
    using put_robin_hood_ok [OF less.prems(1,2) f] by blast
  note sets = put_at_sets [OF g(2)]
  have p: "putting s1 xs1" "same_shape (fst s) (fst s1)" "contents s1 xs1 = contents s xs" "IDX_PUT \<in> set xs1 \<longleftrightarrow> hm_dibs (fst s) ! g = DIB_RAW_REHASH"
    "g < n_buckets (fst s)"
    using g(2) by (auto simp: put_at_def)
  have card: "card (settled_set (fst s1)) = Suc (card (settled_set (fst s)))" using sets(1,2) finite_settled by simp
  show ?case
  proof (cases "hm_dibs (fst s) ! g = DIB_RAW_REHASH")
    case False
    then have "rehash_chain cnt (base_bucket_hash (fst s) (fst (kv (cell s IDX_PUT)))) s = Some (cnt + 1, s1)"
      using g(1) by (subst rehash_chain.simps) simp
    moreover have "chain_result cnt s xs (cnt + 1) s1 xs1"
      using p False card sets(3) sets(4) [OF less.prems(4)] by (auto simp: chain_result_def)
    ultimately show ?thesis by blast
  next
    case True
    have put: "IDX_PUT \<in> set xs1" using p(4) True by simp
    have len: "length xs1 \<le> n_buckets (fst s1)"
      using arg_cong [OF p(3), of length] less.prems(3) same_shape_simps(1) [OF p(2)] by (simp add: contents_def)
    have "g \<in> rehash_set (fst s)" using True p(5) by (simp add: rehash_set_def)
    moreover have "finite (rehash_set (fst s))" by (simp add: rehash_set_def)
    ultimately have "card (rehash_set (fst s1)) < card (rehash_set (fst s))" unfolding sets(3) by (intro card_Diff1_less)
    then obtain cnt' s' xs' where r: "rehash_chain (cnt + 1) (base_bucket_hash (fst s1) (fst (kv (cell s1 IDX_PUT)))) s1 = Some (cnt', s')"
      "chain_result (cnt + 1) s1 xs1 cnt' s' xs'"
      using less.hyps [OF _ p(1) put len sets(4) [OF less.prems(4)]] by blast
    have "bucket_at_virtual s1 IDX_PUT = Some (cell s1 IDX_PUT)"
      using live_valid [OF puttingD(2) [OF p(1)] put] by (rule valid_cell)
    then have "rehash_chain cnt (base_bucket_hash (fst s) (fst (kv (cell s IDX_PUT)))) s = Some (cnt', s')"
      using g(1) True r(1) by (subst rehash_chain.simps) (simp add: kv_def)
    moreover have "chain_result cnt s xs cnt' s' xs'"
      using r(2) card p(2,3) sets(3) same_shape_trans [OF p(2)] by (auto simp: chain_result_def)
    ultimately show ?thesis by blast
  qed
qed

lemma table_unsettle:
  assumes tab: "table_ok h" and sh: "same_shape h h'" and i: "i < n_buckets h" "\<not> settled h i" and v: "v = DIB_RAW_FREE \<or> v = DIB_RAW_REHASH"
    and dibs: "hm_dibs h' = (hm_dibs h)[i := v]" and len: "length (hm_buckets h') = length (hm_buckets h)"
    and keys: "\<And>j. j < n_buckets h \<Longrightarrow> j \<noteq> i \<Longrightarrow> key_at h' j = key_at h j"
  shows "table_ok h'" "\<And>j. settled h' j = settled h j"
proof -
  note sh' [simp] = same_shape_simps [OF sh]
  show s: "settled h' j = settled h j" for j
    using i v table_okD(4) [OF tab] by (auto simp: settled_def dibs nth_list_update)
  have k: "key_at h' j = key_at h j" if "settled h j" for j using that i(2) by (intro keys) (auto simp: settled_less)
  have d: "dists h' = dists h" using k by (auto simp: dists_def s fun_eq_iff)
  have "hm_dibs h' ! j = min (dist_of h j (key_at h' j)) DIB_RAW_OVERFLOW" if "settled h j" for j
    using that k [OF that] table_okD(6) [OF tab that] i(2) by (cases "j = i") (auto simp: dibs)
  then show "table_ok h'" using tab d len by (auto simp: table_ok_def dibs_but_def dibs s)
qed

lemma rehash_one_ok:
  assumes put: "putting s xs" "IDX_PUT \<notin> set xs" and len: "length xs \<le> n_buckets (fst s)" and low: "low_ok (fst s)" and idx: "idx < n_buckets (fst s)"
  shows "\<exists>cnt' s' xs'. rehash_one idx (cnt, s) = Some (cnt', s') \<and> chain_result cnt s xs cnt' s' xs' \<and> idx \<notin> rehash_set (fst s')"
proof -
  let ?h = "fst s" and ?k = "key_at (fst s) idx"
  note tab = puttingD(1) [OF put(1)]
  show ?thesis
  proof (cases "hm_dibs ?h ! idx = DIB_RAW_REHASH")
    case False
    then have "rehash_one idx (cnt, s) = Some (cnt, s)" using dib_at_ok [OF tab idx] by (simp add: rehash_one_def)
    then show ?thesis using put low False by (auto simp: chain_result_def rehash_set_def)
  next
    case True
    then have ns: "\<not> settled ?h idx" by (simp add: settled_def)
    have ix: "idx \<in> set xs" using puttingD(5) [OF put(1) idx] True by simp
    note v = putting_valid [OF put(1) idx]
    show ?thesis
    proof (cases "base_bucket_hash ?h ?k = idx")
      case home: True
      let ?s = "apfst (\<lambda>h. h\<lparr>hm_dibs := (hm_dibs h)[idx := 0]\<rparr>) s"
      have run: "rehash_one idx (cnt, s) = Some (cnt + 1, ?s)"
        using True home dib_at_ok [OF tab idx] bucket_at_ok [OF tab idx] by (simp add: rehash_one_def Let_def key_at_def)
      have keep: "keeps_entries (\<lambda>h. h\<lparr>hm_dibs := (hm_dibs h)[idx := 0]\<rparr>)" by (simp add: keeps_entries_def)
      have sh: "same_shape ?h (fst ?s)" by (simp add: same_shape_def)
      have d0: "dist_of ?h idx (key_at (fst ?s) idx) = 0" using home idx by (simp add: dist_of_def key_at_def)
      have rob: "robin (n_buckets ?h) ((dists ?h)(idx := Some 0))"
        by (rule robin_place [OF table_okD(5) [OF tab] idx]) (simp_all add: dists_None ns behind_def)
      have st: "table_ok (fst ?s)" "\<And>j. settled (fst ?s) j \<longleftrightarrow> j = idx \<or> settled ?h j"
        using table_store [OF tab sh idx _ _ _ d0 rob] by (auto simp: key_at_def)
      have dibs: "hm_dibs (fst ?s) ! j = (if j = idx then 0 else hm_dibs ?h ! j)" if "j < n_buckets ?h" for j
        using that table_okD(4) [OF tab] by (simp add: nth_list_update)
      have "putting ?s xs"
        using st(1) put(1) keeps_entries_simps [OF keep] same_shape_simps(1) [OF sh] dibs ix idx True
        by (auto simp: putting_def)
      moreover have "settled_set (fst ?s) = insert idx (settled_set ?h)" "idx \<notin> settled_set ?h" using st(2) ns by (auto simp: settled_set_def)
      then have "card (settled_set (fst ?s)) = Suc (card (settled_set ?h))" using finite_settled by simp
      moreover have "rehash_set (fst ?s) = rehash_set ?h - {idx}" using same_shape_simps(1) [OF sh] dibs by (auto simp: rehash_set_def split: if_splits)
      moreover have "low_ok (fst ?s)"
        using low True idx dibs same_shape_simps(1) [OF sh] by (auto simp: low_ok_def)
      ultimately have "chain_result cnt s xs (cnt + 1) ?s xs" "idx \<notin> rehash_set (fst ?s)"
        using put(2) sh keeps_entries_simps(4) [OF keep, of s xs] by (auto simp: chain_result_def)
      with run show ?thesis by blast
    next
      case False
      let ?g = "\<lambda>h. h\<lparr>hm_dibs := (hm_dibs h)[idx := DIB_RAW_FREE]\<rparr>"
      have keep: "keeps_entries ?g" by (simp add: keeps_entries_def)
      note ke [simp] = keeps_entries_simps [OF keep]
      have vp: "valid s IDX_PUT" using puttingD(3) [OF put(1)] by (simp add: valid_iff)
      have live': "live (apfst ?g s) xs" "valid (apfst ?g s) IDX_PUT" using puttingD(2) [OF put(1)] vp by simp_all
      obtain s1 where s1: "bucket_move_entry idx IDX_PUT (apfst ?g s) = Some s1" "same_table (fst (apfst ?g s)) (fst s1)" "live s1 (ren idx IDX_PUT xs)"
        "\<And>i. valid s1 i = valid (apfst ?g s) i"
        "\<And>i. valid (apfst ?g s) i \<Longrightarrow> kv (cell s1 i) = kv (cell (apfst ?g s) (if i = IDX_PUT then idx else i))"
        "contents s1 (ren idx IDX_PUT xs) = contents (apfst ?g s) xs" "set (ren idx IDX_PUT xs) = insert IDX_PUT (set xs - {idx})"
        "(snd s1 = None) = (snd (apfst ?g s) = None)"
        using bucket_move_entry_obtain [OF live'(1) ix put(2) live'(2)] by blast
      note s1 = s1 [unfolded ke fst_apfst snd_apfst]
      define s2 where "s2 = apfst (\<lambda>h. h\<lparr>hm_buckets := (hm_buckets h)[idx := zero_entry]\<rparr>) s1"
      have s2: "s2 = ((fst s1)\<lparr>hm_buckets := (hm_buckets (fst s1))[idx := zero_entry]\<rparr>, snd s1)" by (cases s1) (simp add: s2_def)
      let ?ys = "ren idx IDX_PUT xs"
      have nin: "idx \<notin> set ?ys" using s1(7) v(1) by auto
      have l2: "live s2 ?ys" "contents s2 ?ys = contents s xs" using zero_bucket [OF nin, of "fst s1" "snd s1"] s1(3,6) by (simp_all add: s2)
      have sh: "same_shape ?h (fst s2)" and dibs: "hm_dibs (fst s2) = (hm_dibs ?h)[idx := DIB_RAW_FREE]"
        and len2: "length (hm_buckets (fst s2)) = length (hm_buckets ?h)" and low2: "idx_lowest_entry (fst s2) = idx_lowest_entry ?h"
        using s1(2) by (simp_all add: s2_def same_table_def same_shape_def)
      note shs [simp] = same_shape_simps [OF sh]
      have keys: "key_at (fst s2) j = key_at ?h j" if "j < n_buckets ?h" "j \<noteq> idx" for j
      proof -
        have vj: "j < IDX_SWAP_BEGIN" "valid s j" using putting_valid [OF put(1) that(1)] by auto
        have lb: "j < length (hm_buckets (fst s1))" "j < length (hm_buckets ?h)"
          using len2 table_okD(3) [OF tab] that(1) by (simp_all add: s2_def)
        have "key_at (fst s2) j = key_at (fst s1) j" using that(2) by (simp add: s2_def key_at_def)
        also have "\<dots> = key_at ?h j" using s1(5) [OF vj(2)] vj(1) lb by (simp add: key_at_cell)
        finally show ?thesis .
      qed
      note tab2 = table_unsettle [OF tab sh idx ns _ dibs len2 keys]
      have d2: "hm_dibs (fst s2) ! j = (if j = idx then DIB_RAW_FREE else hm_dibs ?h ! j)" if "j < n_buckets ?h" for j
        using that table_okD(4) [OF tab] by (simp add: dibs nth_list_update)
      have big: "j \<noteq> IDX_PUT" if "j < n_buckets ?h" for j using putting_valid(1) [OF put(1) that] by simp
      have "j \<in> set ?ys \<longleftrightarrow> hm_dibs (fst s2) ! j \<noteq> DIB_RAW_FREE" if "j < n_buckets ?h" for j
        using that s1(7) d2 [OF that] big [OF that] puttingD(5) [OF put(1) that] by auto
      moreover have "snd s2 \<noteq> None" using s1(8) puttingD(3) [OF put(1)] by (simp add: s2_def)
      ultimately have put2: "putting s2 ?ys" using tab2(1) l2(1) puttingD(4) [OF put(1)] s1(7) by (simp add: putting_def)
      have lp: "IDX_PUT \<in> set ?ys" using s1(7) by simp
      have kp: "fst (kv (cell s2 IDX_PUT)) = ?k"
      proof -
        have "cell s2 IDX_PUT = cell s1 IDX_PUT" by (simp add: s2 cell_def bucket_at_virtual_def)
        then show ?thesis using s1(5) [OF vp] key_at_cell [of idx s] v(1) table_okD(3) [OF tab] idx by simp
      qed
      have "length ?ys \<le> n_buckets (fst s2)" using len by (simp add: ren_def)
      moreover have "low_ok (fst s2)"
        using low d2 sh low2 by (auto simp: low_ok_def same_shape_def)
      ultimately obtain cnt' s' xs' where r: "rehash_chain cnt (base_bucket_hash (fst s2) ?k) s2 = Some (cnt', s')" "chain_result cnt s2 ?ys cnt' s' xs'"
        using rehash_chain_ok [OF put2 lp, of cnt] kp by auto
      have sets: "settled_set (fst s2) = settled_set ?h" "rehash_set (fst s2) = rehash_set ?h - {idx}"
        using tab2(2) d2 by (auto simp: settled_set_def rehash_set_def split: if_splits)
      have "rehash_one idx (cnt, s) = Some (cnt', s')"
        using True False dib_at_ok [OF tab idx] bucket_at_ok [OF tab idx] s1(1) r(1) [unfolded shs(2)] by (simp add: rehash_one_def Let_def key_at_def s2_def)
      moreover have "chain_result cnt s xs cnt' s' xs'" "idx \<notin> rehash_set (fst s')"
        using r(2) sets l2(2) same_shape_trans [OF sh] by (auto simp: chain_result_def)
      ultimately show ?thesis by blast
    qed
  qed
qed

lemma chain_result_trans:
  "chain_result a s xs b t ys \<Longrightarrow> chain_result b t ys c u zs \<Longrightarrow> chain_result a s xs c u zs"
  using same_shape_trans by (auto simp: chain_result_def)

lemma rehash_all_ok:
  assumes "putting s xs" "IDX_PUT \<notin> set xs" "length xs \<le> n_buckets (fst s)" "low_ok (fst s)" "\<forall>i \<in> set is. i < n_buckets (fst s)"
  shows "\<exists>cnt' s' xs'. rehash_all is (cnt, s) = Some (cnt', s') \<and> chain_result cnt s xs cnt' s' xs' \<and> rehash_set (fst s') \<inter> set is = {}"
  using assms
proof (induction "is" arbitrary: s xs cnt)
  case Nil
  then show ?case by (auto simp: chain_result_def)
next
  case (Cons i "is")
  obtain cnt1 s1 xs1 where s1: "rehash_one i (cnt, s) = Some (cnt1, s1)" "chain_result cnt s xs cnt1 s1 xs1" "i \<notin> rehash_set (fst s1)"
    using rehash_one_ok [OF Cons.prems(1-4), of i cnt] Cons.prems(5) by auto
  have sh: "same_shape (fst s) (fst s1)" using s1(2) by (simp add: chain_result_def)
  have "length xs1 = length xs" using s1(2) by (auto simp: chain_result_def contents_def dest: map_eq_imp_length_eq)
  then obtain cnt' s' xs' where r: "rehash_all is (cnt1, s1) = Some (cnt', s')" "chain_result cnt1 s1 xs1 cnt' s' xs'" "rehash_set (fst s') \<inter> set is = {}"
    using Cons.IH [of s1 xs1 cnt1] s1(2) Cons.prems(3,5) same_shape_simps(1) [OF sh] by (auto simp: chain_result_def)
  have "i \<notin> rehash_set (fst s')" using r(2) s1(3) by (auto simp: chain_result_def)
  with s1(1) r chain_result_trans [OF s1(2) r(2)] show ?case by auto
qed

lemma log2u_bound: "0 < x \<Longrightarrow> x < 2 ^ Suc (log2u x)"
proof (induction x rule: log2u.induct)
  case (1 x)
  show ?case
  proof (cases "x < 2")
    case True
    then show ?thesis by (simp add: log2u.simps)
  next
    case False
    then have "x div 2 < 2 ^ Suc (log2u (x div 2))" using 1 by simp
    moreover have "log2u x = Suc (log2u (x div 2))" using False by (subst log2u.simps) simp
    ultimately show ?thesis by simp
  qed
qed

lemma log2u_below: "x < 2 ^ n \<Longrightarrow> 0 < n \<Longrightarrow> log2u x < n"
proof (induction x arbitrary: n rule: log2u.induct)
  case (1 x)
  show ?case
  proof (cases "x < 2")
    case True
    then show ?thesis using 1 by (simp add: log2u.simps)
  next
    case False
    then obtain m where n: "n = Suc m" "0 < m" using 1(2,3) by (cases n; cases "n - 1") auto
    then have "log2u (x div 2) < m" using 1(1) [of m] 1(2) False by simp
    then show ?thesis using False n by (subst log2u.simps) simp
  qed
qed

text \<open>The next power of two.\<close>

lemma log2u_round_up_ok: "0 < x \<Longrightarrow> x \<le> 2 ^ log2u_round_up x"
  using log2u_bound [of "x - 1"] by (cases "x = 1") (auto simp: log2u_round_up_def)

lemma log2u_round_up_small: "0 < x \<Longrightarrow> x \<le> 2 ^ n \<Longrightarrow> log2u_round_up x \<le> n"
proof (cases "n = 0")
  case False
  assume "0 < x" "x \<le> 2 ^ n"
  moreover from this have "x - 1 < 2 ^ n" by linarith
  ultimately show ?thesis using False log2u_below [of "x - 1" n] by (cases "x = 1") (auto simp: log2u_round_up_def)
qed (auto simp: log2u_round_up_def)

lemma grow_storage_ok:
  fixes key :: hash_key
  assumes rep: "rep h xs" and n: "n_buckets h \<le> n" "n \<le> IDX_SWAP_BEGIN"
  defines "s \<equiv> (grow_storage n key h, Some (zero_entry, zero_entry))"
  shows "putting s xs" "IDX_PUT \<notin> set xs" "n_buckets (fst s) = n" "low_ok (fst s)" "settled_set (fst s) = {}"
    "rehash_set (fst s) \<subseteq> {..<n_buckets h}" "contents s xs = contents (h, None) xs" "hm_n_entries (fst s) = length xs"
    "hm_ops (fst s) = hm_ops h" "hm_type (fst s) = hm_type h"
proof -
  let ?n = "n_buckets h" and ?h = "grow_storage n key h"
  note tab = repD(1) [OF rep]
  have len: "length (hm_buckets h) = ?n" "length (hm_dibs h) = ?n" using table_okD [OF tab] by auto
  show nb: "n_buckets (fst s) = n" by (simp add: s_def grow_storage_def Let_def n_buckets_def)
  have dibs: "hm_dibs ?h ! i = (if i < ?n \<and> hm_dibs h ! i \<noteq> DIB_RAW_FREE then DIB_RAW_REHASH else DIB_RAW_FREE)" if "i < n" for i
    using that len n(1) by (auto simp: grow_storage_def Let_def nth_append)
  have ns: "\<not> settled ?h i" for i using dibs nb by (auto simp: settled_def s_def split: if_splits)
  show "settled_set (fst s) = {}" using ns by (simp add: settled_set_def s_def)
  show "rehash_set (fst s) \<subseteq> {..<?n}" using dibs nb by (auto simp: rehash_set_def s_def split: if_splits)
  have cells: "valid s i" "cell s i = cell (h, None) i" if "valid (h, None) i" for i
    using that len n(1) by (auto simp: valid_iff cell_def bucket_at_virtual_def bucket_at_def at_def s_def grow_storage_def Let_def nth_append split: if_splits)
  have ends: "hm_type ?h = hm_type h" "iterate_list_head ?h = iterate_list_head h" "iterate_list_tail ?h = iterate_list_tail h"
    by (simp_all add: grow_storage_def Let_def)
  have live: "live s xs"
  proof -
    have "links s xs"
    proof (cases "hm_type h = HASHMAP_TYPE_ORDERED")
      case True
      have "cell s (xs ! j) = cell (h, None) (xs ! j)" if "j < length xs" for j
        using cells(2) live_valid [OF repD(3) [OF rep]] that by simp
      then show ?thesis using repD(3) [OF rep] True ends by (simp add: live_def links_def s_def)
    qed (simp add: links_def s_def ends)
    then show ?thesis using repD(3) [OF rep] cells(1) by (auto simp: live_def)
  qed
  show "contents s xs = contents (h, None) xs" using cells(2) live_valid [OF repD(3) [OF rep]] by (simp add: contents_def)
  show "IDX_PUT \<notin> set xs" using rep_not_PUT [OF rep, of IDX_PUT] by auto
  have tmp: "IDX_TMP \<notin> set xs" using rep_not_PUT [OF rep, of IDX_TMP] by auto
  have "length (hm_buckets ?h) = n" "length (hm_dibs ?h) = n" using len n(1) by (simp_all add: grow_storage_def Let_def)
  then have tab': "table_ok (fst s)"
    using nb n(2) table_okD(1) [OF tab] n(1) ns by (simp add: table_ok_def dibs_but_def s_def robin_def dists_def)
  have "i \<in> set xs \<longleftrightarrow> hm_dibs ?h ! i \<noteq> DIB_RAW_FREE" if "i < n" for i
    using dibs [OF that] repD(4) [OF rep, of i] rep_less [OF rep, of i] by (cases "i < ?n") auto
  with tab' live tmp nb show "putting s xs" by (simp add: putting_def s_def)
  have "hm_dibs ?h ! i = DIB_RAW_FREE" if "i < n" "i < idx_lowest_entry ?h" for i
    using that dibs [OF that(1)] repD(7) [OF rep, of i] by (auto simp: grow_storage_def Let_def split: if_splits)
  then show "low_ok (fst s)" using nb by (simp add: low_ok_def s_def)
  show "hm_n_entries (fst s) = length xs" "hm_ops (fst s) = hm_ops h" "hm_type (fst s) = hm_type h"
    using repD(6) [OF rep] by (simp_all add: s_def grow_storage_def Let_def)
qed

text \<open>Rehashing keeps the contents and their order, and counts all entries.\<close>

lemma rehash_table_ok:
  assumes rep: "rep h xs" and n: "n_buckets h \<le> n" "n \<le> IDX_SWAP_BEGIN" "length xs < n"
  shows "\<exists>s xs'. rehash_all [0..<n_buckets h] (0, grow_storage n key h, Some (zero_entry, zero_entry)) = Some (hm_n_entries (fst s), s) \<and>
    rep (fst s) xs' \<and> contents (fst s, None) xs' = contents (h, None) xs \<and> hm_ops (fst s) = hm_ops h \<and> hm_type (fst s) = hm_type h \<and>
    n_buckets (fst s) = n"
proof -
  let ?s = "(grow_storage n key h, Some (zero_entry, zero_entry)) :: swapped"
  note g = grow_storage_ok(1) [OF rep n(1,2), of key] grow_storage_ok(2) [OF rep n(1,2)] grow_storage_ok(3-10) [OF rep n(1,2), of key]
  obtain cnt s xs' where r: "rehash_all [0..<n_buckets h] (0, ?s) = Some (cnt, s)" "chain_result 0 ?s xs cnt s xs'"
    "rehash_set (fst s) \<inter> set [0..<n_buckets h] = {}"
    using rehash_all_ok [OF g(1,2) _ g(4), of "[0..<n_buckets h]" 0] g(3) n by auto
  have c: "putting s xs'" "IDX_PUT \<notin> set xs'" "same_shape (fst ?s) (fst s)" "contents s xs' = contents (h, None) xs"
    "cnt = card (settled_set (fst s))" "rehash_set (fst s) \<subseteq> rehash_set (fst ?s)" "low_ok (fst s)"
    using r(2) g(5,7) by (auto simp: chain_result_def)
  have nb: "n_buckets (fst s) = n" using same_shape_simps(1) [OF c(3)] g(3) by simp
  have no: "rehash_set (fst s) = {}" using c(6) g(6) r(3) by fastforce
  have len: "length xs' = length xs" using arg_cong [OF c(4), of length] by (simp add: contents_def)
  have small: "\<forall>i \<in> set xs'. i < IDX_SWAP_BEGIN" using putting_set [OF c(1)] c(2) n(2) nb by (metis less_le_trans)
  note real = real_entries [OF puttingD(2) [OF c(1)] small, of None]
  have xs: "set xs' = settled_set (fst s)"
    using putting_set [OF c(1)] c(2) puttingD(5) [OF c(1)] no by (auto simp: settled_set_def settled_def rehash_set_def)
  have dist: "distinct xs'" using puttingD(2) [OF c(1)] by (simp add: live_def)
  have cnt: "cnt = length xs" using c(5) xs distinct_card [OF dist] len by simp
  have ent: "hm_n_entries (fst s) = length xs" using c(3) g(8) by (simp add: same_shape_def)
  have "length (filter (\<lambda>i. i < n) xs') < n" using n(3) len by (metis length_filter_le le_less_trans)
  then obtain f where "f < n" "f \<notin> set xs'" using free_bucket [OF dist] by blast
  then have "stops (fst s)" using xs nb by (auto simp: stops_def settled_set_def dists_None)
  then have "rep (fst s) xs'"
    using puttingD(1,5) [OF c(1)] real(1) no ent len c(7) by (auto simp: rep_def rehash_set_def low_ok_def)
  moreover have "hm_ops (fst s) = hm_ops h" "hm_type (fst s) = hm_type h" using c(3) g(9,10) by (simp_all add: same_shape_def)
  ultimately show ?thesis using r(1) cnt ent real(2) c(4) nb by (intro exI [of _ s] exI [of _ xs']) simp
qed

lemma tile_bounds: "9 \<le> entry_size t + 1" "entry_size t + 1 \<le> 25"
  by (cases t; simp add: entry_size_def)+

lemma rep_length: "rep h xs \<Longrightarrow> length xs \<le> n_buckets h"
proof -
  assume rep: "rep h xs"
  have "length xs = card (set xs)" using repD(3) [OF rep] by (simp add: live_def distinct_card)
  also have "\<dots> \<le> card {..<n_buckets h}" using rep_less [OF rep] by (intro card_mono) auto
  finally show ?thesis by simp
qed

text \<open>
  Resizing: either there is room, or memory runs out and nothing changes, or the table grows. The bound on the number of entries keeps the size
  of the block below \<open>2 ^ 31\<close> bytes.
\<close>

lemma resize_buckets_ok:
  assumes rep: "rep h xs" and small: "length xs + entries_add \<le> 2 ^ 25"
  shows "\<exists>r h' env' xs'. resize_buckets entries_add h env = Some (r, h', env') \<and> rep h' xs' \<and>
    contents (h', None) xs' = contents (h, None) xs \<and> hm_ops h' = hm_ops h \<and> hm_type h' = hm_type h \<and>
    (r = 1 \<and> length xs + entries_add \<le> n_buckets h' \<or> r = 0 \<and> h' = h \<and> length xs + entries_add \<le> n_buckets h \<or>
     r = - ENOMEM \<and> h' = h \<and> \<not> fst (alloc env))"
proof -
  let ?E = "length xs + entries_add" and ?tile = "entry_size (hm_type h) + 1"
  let ?B = "?E + ?E div 4"
  note tile = tile_bounds [of "hm_type h"]
  have E: "(hm_n_entries h + entries_add) mod (UINT_MAX + 1) = ?E" using repD(6) [OF rep] small by (simp add: UINT_MAX_def)
  have B: "(?E + ?E div (INV_KEEP_FREE - 1)) mod (UINT_MAX + 1) = ?B" using small by (simp add: UINT_MAX_def)
  have Bs: "?B \<le> 41943040" using small by simp
  have "?B \<le> UINT_MAX div ?tile"
  proof -
    have "?B * ?tile \<le> 41943040 * 25" using Bs tile(2) by (intro mult_le_mono) auto
    also have "\<dots> \<le> UINT_MAX" by (simp add: UINT_MAX_def)
    finally show ?thesis using tile(1) by (simp add: less_eq_div_iff_mult_less_eq)
  qed
  then have checks: "\<not> ?E < entries_add" "\<not> ?B < ?E" "\<not> ?B > UINT_MAX div ?tile" by simp_all
  show ?thesis
  proof (cases "\<not> has_indirect h \<and> ?E \<le> n_direct_buckets (hm_type h) \<or> ?B \<le> n_buckets h")
    case True
    then have "resize_buckets entries_add h env = Some (0, h, env)"
      unfolding resize_buckets_def Let_def E B using checks by auto
    moreover have "?E \<le> n_buckets h" using True by (auto simp: n_buckets_def)
    ultimately show ?thesis using rep by blast
  next
    case False
    let ?size = "max (?B * ?tile) (2 * sizeof_direct_storage)"
    let ?shift = "log2u_round_up ?size"
    let ?n = "2 ^ ?shift div ?tile"
    have "?B * ?tile \<le> 41943040 * 25" using Bs tile(2) by (intro mult_le_mono) auto
    then have "?size \<le> 2 ^ 30" by simp
    then have shift: "?shift \<le> 30" by (intro log2u_round_up_small) simp_all
    have "?B * ?tile \<le> 2 ^ ?shift" using log2u_round_up_ok [of ?size] by simp
    then have nB: "?B \<le> ?n" using tile(1) by (simp add: less_eq_div_iff_mult_less_eq)
    have "?n \<le> 2 ^ ?shift" by simp
    also have "(2 :: nat) ^ ?shift \<le> 2 ^ 30" using shift by (intro power_increasing) auto
    finally have n_swap: "?n \<le> IDX_SWAP_BEGIN" by (simp add: IDX_SWAP_BEGIN_def UINT_MAX_def)
    have nh: "n_buckets h \<le> ?n" "length xs < ?n" using False nB rep_length [OF rep] by auto
    obtain ok env1 where al: "alloc env = (ok, env1)" by (cases "alloc env")
    show ?thesis
    proof (cases ok)
      case no: False
      then have "resize_buckets entries_add h env = Some (- ENOMEM, h, env1)"
        unfolding resize_buckets_def Let_def E B using checks False shift al by auto
      then show ?thesis using rep al no by auto
    next
      case yes: True
      obtain key env2 where key: "get_hash_key (\<not> has_indirect h) env1 = (key, env2)" by (cases "get_hash_key (\<not> has_indirect h) env1")
      obtain s xs' where s: "rehash_all [0..<n_buckets h] (0, grow_storage ?n key h, Some (zero_entry, zero_entry)) = Some (hm_n_entries (fst s), s)"
        "rep (fst s) xs'" "contents (fst s, None) xs' = contents (h, None) xs" "hm_ops (fst s) = hm_ops h" "hm_type (fst s) = hm_type h"
        "n_buckets (fst s) = ?n"
        using rehash_table_ok [OF rep nh(1) n_swap nh(2), of key] by blast
      have "DIB_RAW_REHASH \<notin> set (hm_dibs h)" using repD(5) [OF rep] table_okD(4) [OF repD(1) [OF rep]] by (auto simp: in_set_conv_nth)
      then have "resize_buckets entries_add h env = Some (1, fst s, env2)"
        unfolding resize_buckets_def Let_def E B using checks False shift al yes key s(1) nh(1) by auto
      then show ?thesis using s nB by (intro exI [of _ 1] exI [of _ "fst s"] exI [of _ env2] exI [of _ xs']) simp
    qed
  qed
qed

lemma put_boldly_ok:
  assumes rep: "rep h xs" and idx: "idx = base_bucket_hash h (he_key e)"
    and room: "if may_resize then length xs < 2 ^ 25 else length xs < n_buckets h"
  shows "\<exists>r h' env' xs'. hashmap_base_put_boldly idx e may_resize h env = Some (r, h', env') \<and> hm_ops h' = hm_ops h \<and> hm_type h' = hm_type h \<and>
    (r = 1 \<and> rep h' xs' \<and> contents (h', None) xs' = contents (h, None) xs @ [kv e] \<or>
     r = - ENOMEM \<and> h' = h \<and> may_resize \<and> \<not> fst (alloc env))"
proof -
  have il: "idx < n_buckets h" using idx table_okD(1) [OF repD(1) [OF rep]] by simp
  obtain r h1 env1 xs1 where r: "(if may_resize then resize_buckets 1 h env else Some (0, h, env)) = Some (r, h1, env1)"
    "rep h1 xs1" "contents (h1, None) xs1 = contents (h, None) xs" "hm_ops h1 = hm_ops h" "hm_type h1 = hm_type h"
    "r = 1 \<and> length xs + 1 \<le> n_buckets h1 \<or> r = 0 \<and> h1 = h \<and> length xs + 1 \<le> n_buckets h \<or> r = - ENOMEM \<and> h1 = h \<and> may_resize \<and> \<not> fst (alloc env)"
  proof (cases may_resize)
    case True
    with resize_buckets_ok [OF rep, of 1 env] room that show thesis by (auto simp: Suc_le_eq)
  next
    case False
    with that [of 0 h env xs] room rep show thesis by simp
  qed
  show ?thesis
  proof (cases "r < 0")
    case True
    then have "hashmap_base_put_boldly idx e may_resize h env = Some (r, h1, env1)" using r(1) il by (simp add: hashmap_base_put_boldly_def)
    then show ?thesis using True r(4-6) by auto
  next
    case False
    then have rr: "r = 1 \<or> r = 0 \<and> h1 = h" "length xs + 1 \<le> n_buckets h1" using r(6) by auto
    have len: "length xs1 = length xs" using arg_cong [OF r(3), of length] by (simp add: contents_def)
    then have ne: "hm_n_entries h1 < n_buckets h1" using rr(2) repD(6) [OF r(2)] by simp
    have idx': "(if r > 0 then base_bucket_hash h1 (he_key e) else idx) = base_bucket_hash h1 (he_key e)" using rr(1) idx by auto
    obtain s s' h' xs' where s: "link_entry (h1, Some (e, zero_entry)) = Some s"
      "hashmap_put_robin_hood (base_bucket_hash h1 (he_key e)) s = Some (False, s')"
      "h' = (fst s')\<lparr>hm_n_entries := hm_n_entries (fst s') + 1\<rparr>" "rep h' xs'" "contents (h', None) xs' = contents (h1, None) xs1 @ [kv e]"
      "same_shape h1 (h'\<lparr>hm_n_entries := hm_n_entries h1\<rparr>)"
      using put_entry_ok [OF r(2) ne, of e] by blast
    have "hashmap_base_put_boldly idx e may_resize h env = Some (1, h', env1)"
      using r(1) il False ne s(1,2,3) by (simp add: hashmap_base_put_boldly_def idx' Let_def)
    moreover have "hm_ops h' = hm_ops h" "hm_type h' = hm_type h" using s(6) r(4,5) by (simp_all add: same_shape_def)
    ultimately show ?thesis using s(4,5) r(3) by auto
  qed
qed

end
