(* ===== verification/Udev_Hashmap_Map.thy ===== *)
theory Udev_Hashmap_Map
  imports Udev_Hashmap_Rep "HOL-Library.Multiset"
begin

text \<open>
  The hash tables of \<^verbatim>\<open>libudev-compat/hashmap.c\<close> as maps. What the tables need of their hash operations is the locale
  \<open>hash_ops_spec\<close>, interpreted on the three operations that the source has; under it searches find exactly the entry with the key, and every
  operation of the interface does what it does on a list of entries with different keys. Iteration visits each entry once.
\<close>

section \<open>Searching\<close>

text \<open>The list of entries that a table stands for, and the entry with a key.\<close>

definition al_find :: "hash_ops \<Rightarrow> (ptr \<times> ptr) list \<Rightarrow> ptr \<Rightarrow> (ptr \<times> ptr) option" where
  "al_find ops al k = find (\<lambda>p. ho_compare ops (fst p) k = 0) al"

definition al_remove :: "hash_ops \<Rightarrow> (ptr \<times> ptr) list \<Rightarrow> ptr \<Rightarrow> (ptr \<times> ptr) list" where
  "al_remove ops al k = filter (\<lambda>p. ho_compare ops (fst p) k \<noteq> 0) al"

definition al_update :: "hash_ops \<Rightarrow> (ptr \<times> ptr) list \<Rightarrow> ptr \<Rightarrow> (ptr \<times> ptr \<Rightarrow> ptr \<times> ptr) \<Rightarrow> (ptr \<times> ptr) list" where
  "al_update ops al k f = map (\<lambda>p. if ho_compare ops (fst p) k = 0 then f p else p) al"

definition distinct_keys :: "hash_ops \<Rightarrow> (ptr \<times> ptr) list \<Rightarrow> bool" where
  "distinct_keys ops al \<longleftrightarrow> (\<forall>i < length al. \<forall>j < length al. ho_compare ops (fst (al ! i)) (fst (al ! j)) = 0 \<longrightarrow> i = j)"

text \<open>What a table needs of its operations: an equivalence that the hashes respect.\<close>

locale hash_ops_spec =
  fixes ops :: hash_ops
  assumes compare_refl: "ho_compare ops a a = 0"
    and compare_sym: "ho_compare ops a b = 0 \<Longrightarrow> ho_compare ops b a = 0"
    and compare_trans: "ho_compare ops a b = 0 \<Longrightarrow> ho_compare ops b c = 0 \<Longrightarrow> ho_compare ops a c = 0"
    and compare_hash: "ho_compare ops a b = 0 \<Longrightarrow> ho_hash ops a k = ho_hash ops b k"
begin

lemma same_home: "hm_ops h = ops \<Longrightarrow> ho_compare ops a b = 0 \<Longrightarrow> base_bucket_hash h a = base_bucket_hash h b"
  using compare_hash by (simp add: base_bucket_hash_def)

lemma distinct_pos:
  assumes "distinct_keys ops al" "j < length al" "ho_compare ops (fst (al ! j)) k = 0" "i < length al"
  shows "ho_compare ops (fst (al ! i)) k = 0 \<longleftrightarrow> i = j"
  using assms compare_sym compare_trans unfolding distinct_keys_def by metis

lemma find_pos:
  assumes "distinct_keys ops al" "j < length al" "ho_compare ops (fst (al ! j)) k = 0"
  shows "al_find ops al k = Some (al ! j)"
  unfolding al_find_def find_Some_iff
proof (intro exI conjI allI impI)
  fix i assume "i < j"
  then show "ho_compare ops (fst (al ! i)) k \<noteq> 0" using distinct_pos [OF assms, of i] assms(2) by simp
qed (use assms in auto)

lemma remove_pos:
  assumes "distinct_keys ops al" "j < length al" "ho_compare ops (fst (al ! j)) k = 0"
  shows "al_remove ops al k = drop_nth j al"
proof -
  obtain a b where ab: "al = a @ al ! j # b" "length a = j" "drop_nth j al = a @ b" using drop_nth_split [OF assms(2)] .
  have "ho_compare ops (fst p) k \<noteq> 0" if p: "p \<in> set (a @ b)" for p
  proof -
    obtain i where i: "i < length al" "i \<noteq> j" "al ! i = p"
      using p ab(1,2)
    proof (cases "p \<in> set a")
      case True
      then obtain i where "i < j" "a ! i = p" using ab(2) by (auto simp: in_set_conv_nth)
      then have "al ! i = p" using ab(1,2) by (metis nth_append)
      then show thesis using that [of i] \<open>i < j\<close> assms(2) by simp
    next
      case False
      then obtain i where i: "i < length b" "b ! i = p" using p by (auto simp: in_set_conv_nth)
      have "al ! (Suc (j + i)) = p" using ab(1,2) i by (metis add_Suc_right nth_append_length_plus nth_Cons_Suc)
      moreover have "Suc (j + i) < length al" using ab(1,2) i by (metis add_Suc_right add_less_cancel_left length_Cons length_append not_less_eq)
      ultimately show thesis using that [of "Suc (j + i)"] by simp
    qed
    then show ?thesis using distinct_pos [OF assms i(1)] by simp
  qed
  then have "filter (\<lambda>p. ho_compare ops (fst p) k \<noteq> 0) (a @ al ! j # b) = a @ b" using assms(3) by (simp add: filter_True)
  then show ?thesis using ab(1,3) by (simp add: al_remove_def)
qed

lemma find_none: "al_find ops al k = None \<longleftrightarrow> (\<forall>i < length al. ho_compare ops (fst (al ! i)) k \<noteq> 0)"
  unfolding al_find_def find_None_iff by (metis in_set_conv_nth)

lemma find_cases:
  obtains (none) "al_find ops al k = None" "\<And>i. i < length al \<Longrightarrow> ho_compare ops (fst (al ! i)) k \<noteq> 0"
  | (some) j where "j < length al" "ho_compare ops (fst (al ! j)) k = 0"
proof (cases "al_find ops al k = None")
  case True
  then show thesis using none find_none [of al k] by blast
next
  case False
  then have "\<exists>j < length al. ho_compare ops (fst (al ! j)) k = 0" unfolding find_none by simp
  then show thesis using some by auto
qed

lemma distinct_put:
  assumes "distinct_keys ops al" "al_find ops al k = None"
  shows "distinct_keys ops (al @ [(k, v)])"
  unfolding distinct_keys_def
proof (intro allI impI)
  fix i j assume ij: "i < length (al @ [(k, v)])" "j < length (al @ [(k, v)])"
    and c: "ho_compare ops (fst ((al @ [(k, v)]) ! i)) (fst ((al @ [(k, v)]) ! j)) = 0"
  have no: "ho_compare ops (fst (al ! l)) k \<noteq> 0" if "l < length al" for l using that assms(2) find_none by blast
  consider "i < length al" "j < length al" | "i < length al" "j = length al" | "i = length al" "j < length al" | "i = j"
    using ij by (auto simp: less_Suc_eq)
  then show "i = j"
  proof cases
    case 1
    then show ?thesis using c assms(1) by (simp add: distinct_keys_def nth_append)
  next
    case 2
    then show ?thesis using c no [of i] by (simp add: nth_append)
  next
    case 3
    then show ?thesis using c no [of j] compare_sym [of k] by (simp add: nth_append)
  qed
qed

lemma distinct_drop:
  assumes "distinct_keys ops al" "j < length al"
  shows "distinct_keys ops (drop_nth j al)"
proof -
  define g where "g i = (if i < j then i else Suc i)" for i
  have g: "drop_nth j al ! i = al ! g i" "g i < length al" if "i < length al - 1" for i
    using that assms(2) nth_drop_nth [OF assms(2) that] by (auto simp: g_def)
  have inj: "i = l" if "g i = g l" for i l using that by (auto simp: g_def split: if_splits)
  show ?thesis
    unfolding distinct_keys_def length_drop_nth [OF assms(2)]
  proof (intro allI impI)
    fix i l assume il: "i < length al - 1" "l < length al - 1" and c: "ho_compare ops (fst (drop_nth j al ! i)) (fst (drop_nth j al ! l)) = 0"
    have "g i = g l" using assms(1) c g [OF il(1)] g [OF il(2)] by (simp add: distinct_keys_def)
    then show "i = l" by (rule inj)
  qed
qed

lemma distinct_same_keys:
  assumes "distinct_keys ops al" "length al' = length al" "\<And>i. i < length al \<Longrightarrow> ho_compare ops (fst (al' ! i)) (fst (al ! i)) = 0"
  shows "distinct_keys ops al'"
  unfolding distinct_keys_def assms(2)
proof (intro allI impI)
  fix i j assume ij: "i < length al" "j < length al" and c: "ho_compare ops (fst (al' ! i)) (fst (al' ! j)) = 0"
  have "ho_compare ops (fst (al ! i)) (fst (al ! j)) = 0"
    using compare_trans [OF compare_trans [OF compare_sym [OF assms(3) [OF ij(1)]] c] assms(3) [OF ij(2)]] .
  then show "i = j" using assms(1) ij by (simp add: distinct_keys_def)
qed

text \<open>The search finds the entry with the key, and only that.\<close>

lemma bucket_scan_found:
  assumes rep: "rep h xs" and ops: "hm_ops h = ops" and al: "contents (h, None) xs = al" "distinct_keys ops al"
    and j: "j < length al" "ho_compare ops (fst (al ! j)) k = 0"
  shows "base_bucket_scan h (base_bucket_hash h k) k = Some (xs ! j)"
proof -
  let ?n = "n_buckets h" and ?i = "xs ! j" and ?f = "base_bucket_hash h k"
  note tab = repD(1) [OF rep]
  have f: "?f < ?n" using table_okD(1) [OF tab] by simp
  have key: "key_at h (xs ! l) = fst (al ! l)" "xs ! l < ?n" if "l < length al" for l
  proof -
    have "l < length xs" using that al(1) by (auto simp: contents_def)
    then have "xs ! l \<in> set xs" by simp
    then have "xs ! l < ?n" "xs ! l < IDX_SWAP_BEGIN" using rep_less [OF rep] rep_not_PUT [OF rep] by auto
    moreover have "fst (al ! l) = fst (kv (cell (h, None) (xs ! l)))" using \<open>l < length xs\<close> al(1) by (auto simp: contents_def)
    ultimately show "key_at h (xs ! l) = fst (al ! l)" "xs ! l < ?n" using key_at_cell [of "xs ! l" "(h, None)"] table_okD(3) [OF tab] by auto
  qed
  have lx: "length xs = length al" using al(1) by (auto simp: contents_def)
  have home: "base_bucket_hash h (key_at h ?i) = ?f" using same_home [OF ops] key(1) [OF j(1)] j(2) by simp
  have di: "dists h ?i = Some (cd ?n ?i ?f)" using rep_settled [OF rep, of ?i] j(1) lx home by (simp add: dists_def dist_of_def)
  have "bucket_scan_loop h k idx (cd ?n idx ?f) = Some ?i" if "idx < ?n" "cd ?n idx ?f \<le> cd ?n ?i ?f" for idx
    using that
  proof (induction "cd ?n ?i ?f - cd ?n idx ?f" arbitrary: idx rule: less_induct)
    case less
    obtain e where e: "dists h idx = Some e" "cd ?n idx ?f \<le> e"
      using robin_way [OF table_okD(5) [OF tab] key(2) [OF j(1)] f di _ less.prems(1,2)] by auto
    then have st: "settled h idx" and ee: "e = dist_of h idx (key_at h idx)" by (auto simp: dists_Some)
    have ix: "idx \<in> set xs" using st rep_settled [OF rep] by simp
    then obtain l where l: "l < length al" "xs ! l = idx" using lx by (auto simp: in_set_conv_nth)
    have hit: "ho_compare ops (key_at h idx) k = 0 \<longleftrightarrow> idx = ?i"
    proof
      assume "ho_compare ops (key_at h idx) k = 0"
      then have "l = j" using distinct_pos [OF al(2) j l(1)] key(1) [OF l(1)] l(2) by simp
      then show "idx = ?i" using l(2) by simp
    next
      assume "idx = ?i"
      then show "ho_compare ops (key_at h idx) k = 0" using key(1) [OF j(1)] j(2) by simp
    qed
    show ?case
    proof (cases "idx = ?i")
      case True
      then have "e = cd ?n idx ?f" using e(1) di by simp
      then show ?thesis
        using True st hit ee ops less.prems(1) calculate_dib_ok [OF tab st] bucket_at_ok [OF tab less.prems(1)]
        by (subst bucket_scan_loop.simps) (simp add: dib_at_ok [OF tab] settled_def key_at_def)
    next
      case False
      then have lt: "cd ?n idx ?f < cd ?n ?i ?f" using less.prems cd_inj [of idx ?n ?i ?f] key(2) [OF j(1)] f by fastforce
      then have nx: "cd ?n (nx ?n idx) ?f = Suc (cd ?n idx ?f)"
        using cd_nx [OF less.prems(1) f] circle(6) [OF key(2) [OF j(1)] f] by linarith
      have "bucket_scan_loop h k (nx ?n idx) (cd ?n (nx ?n idx) ?f) = Some ?i"
        using less.hyps [of "nx ?n idx"] lt nx less.prems(1) by simp
      then show ?thesis
        using False st hit e(2) ee ops nx less.prems(1) calculate_dib_ok [OF tab st] bucket_at_ok [OF tab less.prems(1)]
        by (subst bucket_scan_loop.simps) (auto simp: dib_at_ok [OF tab] settled_def key_at_def next_idx_nx)
    qed
  qed
  from this [OF f] f show ?thesis by (simp add: base_bucket_scan_def)
qed

lemma bucket_scan_none:
  assumes rep: "rep h xs" and ops: "hm_ops h = ops" and none: "\<And>i. i < length xs \<Longrightarrow> ho_compare ops (fst (contents (h, None) xs ! i)) k \<noteq> 0"
  shows "base_bucket_scan h (base_bucket_hash h k) k = Some IDX_NIL"
proof -
  let ?n = "n_buckets h"
  note tab = repD(1) [OF rep]
  have "bucket_scan_loop h k idx d = Some IDX_NIL" if "idx < ?n" for idx d
    using that
  proof (induction "?n - d" arbitrary: idx d rule: less_induct)
    case less
    show ?case
    proof (cases "settled h idx")
      case False
      then have "hm_dibs h ! idx = DIB_RAW_FREE" using repD(5) [OF rep less.prems] less.prems by (simp add: settled_def)
      then show ?thesis using less.prems by (subst bucket_scan_loop.simps) (simp add: dib_at_ok [OF tab])
    next
      case st: True
      have ix: "idx \<in> set xs" using st rep_settled [OF rep] by simp
      then obtain l where l: "l < length xs" "xs ! l = idx" by (auto simp: in_set_conv_nth)
      have "key_at h idx = fst (contents (h, None) xs ! l)"
        using l key_at_cell [of idx "(h, None)"] rep_not_PUT [OF rep ix] table_okD(3) [OF tab] less.prems by (simp add: contents_def)
      then have miss: "ho_compare ops (key_at h idx) k \<noteq> 0" using none [OF l(1)] by simp
      have dn: "dist_of h idx (key_at h idx) < ?n" using dist_less [OF table_okD(1) [OF tab] less.prems] .
      show ?thesis
      proof (cases "dist_of h idx (key_at h idx) < d")
        case True
        then show ?thesis using st less.prems calculate_dib_ok [OF tab st]
          by (subst bucket_scan_loop.simps) (simp add: dib_at_ok [OF tab] settled_def)
      next
        case False
        then have "bucket_scan_loop h k (nx ?n idx) (d + 1) = Some IDX_NIL" using less.hyps [of "d + 1" "nx ?n idx"] dn less.prems by simp
        then show ?thesis
          using False st miss ops less.prems calculate_dib_ok [OF tab st] bucket_at_ok [OF tab less.prems]
          by (subst bucket_scan_loop.simps) (auto simp: dib_at_ok [OF tab] settled_def key_at_def next_idx_nx)
      qed
    qed
  qed
  moreover have "base_bucket_hash h k < ?n" using table_okD(1) [OF tab] by simp
  ultimately show ?thesis by (simp add: base_bucket_scan_def)
qed

end

section \<open>Maps\<close>

text \<open>A table stands for a list of entries with different keys.\<close>

definition hmap :: "hashmap \<Rightarrow> (ptr \<times> ptr) list \<Rightarrow> bool" where
  "hmap h al \<longleftrightarrow> hash_ops_spec (hm_ops h) \<and> distinct_keys (hm_ops h) al \<and> (\<exists>xs. rep h xs \<and> contents (h, None) xs = al)"

definition val_of :: "HashmapType \<Rightarrow> ptr \<times> ptr \<Rightarrow> ptr" where
  "val_of t p = (if t = HASHMAP_TYPE_SET then fst p else snd p)"

lemma entry_value_of: "entry_value h e = val_of (hm_type h) (kv e)"
  by (simp add: entry_value_def val_of_def kv_def split: HashmapType.splits)

lemma hmap_size: "hmap h al \<Longrightarrow> hm_n_entries h = length al"
  by (auto simp: hmap_def contents_def dest: repD(6))

lemma hmapD: "hmap h al \<Longrightarrow> hash_ops_spec (hm_ops h)" "hmap h al \<Longrightarrow> distinct_keys (hm_ops h) al"
  by (simp_all add: hmap_def)

lemma hmapI: "hash_ops_spec (hm_ops h) \<Longrightarrow> rep h xs \<Longrightarrow> contents (h, None) xs = al \<Longrightarrow> distinct_keys (hm_ops h) al \<Longrightarrow> hmap h al"
  by (auto simp: hmap_def)

text \<open>A search has two results.\<close>

definition found_at :: "hashmap \<Rightarrow> nat list \<Rightarrow> (ptr \<times> ptr) list \<Rightarrow> nat \<Rightarrow> ptr \<Rightarrow> bool" where
  "found_at h xs al j k \<longleftrightarrow>
     rep h xs \<and> contents (h, None) xs = al \<and> j < length al \<and> length xs = length al \<and> ho_compare (hm_ops h) (fst (al ! j)) k = 0 \<and>
     al_find (hm_ops h) al k = Some (al ! j) \<and> xs ! j \<noteq> IDX_NIL \<and> xs ! j < n_buckets h \<and>
     bucket_at h (xs ! j) = Some (hm_buckets h ! (xs ! j)) \<and> kv (hm_buckets h ! (xs ! j)) = al ! j \<and>
     base_bucket_scan h (base_bucket_hash h k) k = Some (xs ! j)"

lemma rep_entry:
  assumes rep: "rep h xs" and j: "j < length xs"
  shows "xs ! j < n_buckets h" "xs ! j \<noteq> IDX_NIL" "bucket_at h (xs ! j) = Some (hm_buckets h ! (xs ! j))"
    "kv (hm_buckets h ! (xs ! j)) = contents (h, None) xs ! j" "cell (h, None) (xs ! j) = hm_buckets h ! (xs ! j)" "valid (h, None) (xs ! j)"
    "xs ! j < IDX_SWAP_BEGIN"
proof -
  note tab = repD(1) [OF rep]
  show l: "xs ! j < n_buckets h" using rep_less [OF rep] j by simp
  then show "xs ! j \<noteq> IDX_NIL" "xs ! j < IDX_SWAP_BEGIN" using table_okD(2) [OF tab] by (auto simp: IDX_SWAP_BEGIN_def IDX_NIL_def UINT_MAX_def)
  show "bucket_at h (xs ! j) = Some (hm_buckets h ! (xs ! j))" by (rule bucket_at_ok [OF tab l])
  show "cell (h, None) (xs ! j) = hm_buckets h ! (xs ! j)" "valid (h, None) (xs ! j)" using cell_bucket [of "(h, None)"] tab l by simp_all
  then show "kv (hm_buckets h ! (xs ! j)) = contents (h, None) xs ! j" using j by (simp add: contents_def)
qed

lemma hmap_scan:
  assumes hm: "hmap h al"
  obtains (none) xs where "rep h xs" "contents (h, None) xs = al" "al_find (hm_ops h) al k = None"
      "base_bucket_scan h (base_bucket_hash h k) k = Some IDX_NIL"
  | (some) xs j where "found_at h xs al j k"
proof -
  obtain xs where xs: "rep h xs" "contents (h, None) xs = al" using hm by (auto simp: hmap_def)
  note spec = hmapD(1) [OF hm]
  have len: "length xs = length al" using xs(2) by (auto simp: contents_def)
  show thesis
  proof (cases rule: hash_ops_spec.find_cases [OF spec, of al k])
    case 1
    have "base_bucket_scan h (base_bucket_hash h k) k = Some IDX_NIL"
      using hash_ops_spec.bucket_scan_none [OF spec xs(1) refl, of k] 1(2) xs(2) len by simp
    then show thesis using none [OF xs 1(1)] by simp
  next
    case (2 j)
    note e = rep_entry [OF xs(1), of j, unfolded len xs(2), OF 2(1)]
    have "found_at h xs al j k"
      unfolding found_at_def
      using xs 2 e len hash_ops_spec.find_pos [OF spec hmapD(2) [OF hm] 2] hash_ops_spec.bucket_scan_found [OF spec xs(1) refl xs(2) hmapD(2) [OF hm] 2]
      by simp
    then show thesis by (rule some)
  qed
qed

subsection \<open>Lookups\<close>

lemma get_ok:
  assumes "hmap h al"
  shows "internal_hashmap_get (Some h) k = Some (case al_find (hm_ops h) al k of None \<Rightarrow> 0 | Some p \<Rightarrow> val_of (hm_type h) p)"
    "hashmap_get2 (Some h) k = Some (case al_find (hm_ops h) al k of None \<Rightarrow> (0, None) | Some p \<Rightarrow> (snd p, Some (fst p)))"
    "internal_hashmap_contains (Some h) k = Some (al_find (hm_ops h) al k \<noteq> None)"
  by (cases rule: hmap_scan [OF assms, of k];
      auto simp: internal_hashmap_get_def hashmap_get2_def internal_hashmap_contains_def found_at_def entry_value_of kv_def prod_eq_iff)+

subsection \<open>Removal\<close>

lemma remove_entry_ok:
  assumes hm: "hmap h al" and f: "found_at h xs al j k"
  shows "\<exists>h'. base_remove_entry (xs ! j) h = Some h' \<and> hmap h' (al_remove (hm_ops h) al k) \<and> same_shape h (h'\<lparr>hm_n_entries := hm_n_entries h\<rparr>)"
proof -
  note fD = f [unfolded found_at_def]
  have j: "j < length xs" using fD by simp
  obtain h' xs' where h': "base_remove_entry (xs ! j) h = Some h'" "rep h' xs'" "contents (h', None) xs' = drop_nth j (contents (h, None) xs)"
    "same_shape h (h'\<lparr>hm_n_entries := hm_n_entries h\<rparr>)"
    using base_remove_entry_ok [of h xs j] fD j by blast
  have ops: "hm_ops h' = hm_ops h" using h'(4) by (simp add: same_shape_def)
  have "al_remove (hm_ops h) al k = drop_nth j al" using hash_ops_spec.remove_pos [OF hmapD [OF hm]] fD by simp
  moreover have "distinct_keys (hm_ops h) (drop_nth j al)" using hash_ops_spec.distinct_drop [OF hmapD [OF hm]] fD by simp
  ultimately have "hmap h' (al_remove (hm_ops h) al k)" using hmapI [of h' xs'] h'(2,3) fD ops hmapD(1) [OF hm] by simp
  then show ?thesis using h'(1,4) by blast
qed

lemma find_remove_none: "al_find ops al k = None \<Longrightarrow> al_remove ops al k = al"
  by (auto simp: al_find_def al_remove_def find_None_iff filter_id_conv)

lemma remove_ok:
  assumes hm: "hmap h al"
  shows "\<exists>h'. internal_hashmap_remove k h = Some (case al_find (hm_ops h) al k of None \<Rightarrow> 0 | Some p \<Rightarrow> val_of (hm_type h) p, h') \<and>
    hmap h' (al_remove (hm_ops h) al k) \<and> hm_ops h' = hm_ops h \<and> hm_type h' = hm_type h"
proof (cases rule: hmap_scan [OF hm, of k])
  case (1 xs)
  then show ?thesis using hm by (auto simp: internal_hashmap_remove_def find_remove_none)
next
  case (2 xs j)
  obtain h' where "base_remove_entry (xs ! j) h = Some h'" "hmap h' (al_remove (hm_ops h) al k)" "same_shape h (h'\<lparr>hm_n_entries := hm_n_entries h\<rparr>)"
    using remove_entry_ok [OF hm 2] by blast
  then show ?thesis using 2 by (auto simp: internal_hashmap_remove_def found_at_def entry_value_of same_shape_def)
qed

subsection \<open>Insertion\<close>

lemma boldly_ok:
  assumes hm: "hmap h al" and none: "al_find (hm_ops h) al k = None" and small: "length al < 2 ^ 25"
  shows "\<exists>r h' env'. hashmap_base_put_boldly (base_bucket_hash h k) (swap_entry k v) True h env = Some (r, h', env') \<and> hm_ops h' = hm_ops h \<and>
    hm_type h' = hm_type h \<and> (r = 1 \<and> hmap h' (al @ [(k, v)]) \<or> r = - ENOMEM \<and> h' = h \<and> \<not> fst (alloc env))"
proof -
  obtain xs where xs: "rep h xs" "contents (h, None) xs = al" using hm by (auto simp: hmap_def)
  have len: "length xs < 2 ^ 25" using small arg_cong [OF xs(2), of length] by (simp add: contents_def)
  have new: "he_key (swap_entry k v) = k" "kv (swap_entry k v) = (k, v)" by (simp_all add: swap_entry_def kv_def)
  obtain r h' env' xs' where r: "hashmap_base_put_boldly (base_bucket_hash h k) (swap_entry k v) True h env = Some (r, h', env')"
    "hm_ops h' = hm_ops h" "hm_type h' = hm_type h"
    "r = 1 \<and> rep h' xs' \<and> contents (h', None) xs' = al @ [(k, v)] \<or> r = - ENOMEM \<and> h' = h \<and> \<not> fst (alloc env)"
    using put_boldly_ok [OF xs(1), of "base_bucket_hash h k" "swap_entry k v" True env] len unfolding new xs(2) by auto
  have "distinct_keys (hm_ops h) (al @ [(k, v)])" by (rule hash_ops_spec.distinct_put [OF hmapD [OF hm] none])
  then show ?thesis using r hmapI [of h' xs'] hmapD(1) [OF hm] by auto
qed

lemma put_ok:
  assumes hm: "hmap h al" and small: "length al < 2 ^ 25"
  shows "\<exists>r h' env'. hashmap_put k v h env = Some (r, h', env') \<and> hm_ops h' = hm_ops h \<and> hm_type h' = hm_type h \<and>
    (case al_find (hm_ops h) al k of
       Some p \<Rightarrow> r = (if snd p = v then 0 else - EEXIST) \<and> h' = h
     | None \<Rightarrow> r = 1 \<and> hmap h' (al @ [(k, v)]) \<or> r = - ENOMEM \<and> h' = h \<and> \<not> fst (alloc env))"
proof (cases rule: hmap_scan [OF hm, of k])
  case (1 xs)
  then show ?thesis using boldly_ok [OF hm 1(3) small, of v env] by (auto simp: hashmap_put_def)
next
  case (2 xs j)
  then show ?thesis by (auto simp: hashmap_put_def found_at_def kv_def prod_eq_iff)
qed

lemma set_put_ok:
  assumes hm: "hmap h al" and small: "length al < 2 ^ 25"
  shows "\<exists>r h' env'. set_put k h env = Some (r, h', env') \<and> hm_ops h' = hm_ops h \<and> hm_type h' = hm_type h \<and>
    (if al_find (hm_ops h) al k = None then r = 1 \<and> hmap h' (al @ [(k, 0)]) \<or> r = - ENOMEM \<and> h' = h \<and> \<not> fst (alloc env)
     else r = 0 \<and> h' = h)"
proof (cases rule: hmap_scan [OF hm, of k])
  case (1 xs)
  then show ?thesis using boldly_ok [OF hm 1(3) small, of 0 env] by (auto simp: set_put_def)
next
  case (2 xs j)
  then show ?thesis by (auto simp: set_put_def found_at_def)
qed

subsection \<open>Changing an entry in place\<close>

lemma rep_entry_upd:
  assumes rep: "rep h xs" and j: "j < length xs"
    and e: "iterate_next e = iterate_next (hm_buckets h ! (xs ! j))" "iterate_previous e = iterate_previous (hm_buckets h ! (xs ! j))"
    and home: "base_bucket_hash h (he_key e) = base_bucket_hash h (he_key (hm_buckets h ! (xs ! j)))"
  defines "h' \<equiv> h\<lparr>hm_buckets := (hm_buckets h)[xs ! j := e]\<rparr>"
  shows "rep h' xs" "contents (h', None) xs = (contents (h, None) xs)[j := kv e]"
proof -
  let ?i = "xs ! j"
  note tab = repD(1) [OF rep]
  have i: "?i < n_buckets h" "valid (h, None) ?i" "?i < IDX_SWAP_BEGIN" "cell (h, None) ?i = hm_buckets h ! ?i" using rep_entry [OF rep j] by auto
  have h'_set: "(h', None) = set_bucket_virtual ?i e (h, None)" using i(3) by (simp add: set_bucket_virtual_def h'_def)
  have shape: "same_shape h h'" by (simp add: same_shape_def h'_def)
  note sh [simp] = same_shape_simps [OF shape]
  have dibs [simp]: "hm_dibs h' = hm_dibs h" "idx_lowest_entry h' = idx_lowest_entry h" "has_indirect h' = has_indirect h"
    "hm_n_entries h' = hm_n_entries h" "hm_type h' = hm_type h" "iterate_list_head h' = iterate_list_head h" "iterate_list_tail h' = iterate_list_tail h"
    "length (hm_buckets h') = length (hm_buckets h)"
    by (simp_all add: h'_def)
  have set: "settled h' l = settled h l" for l by (simp add: settled_def)
  have key: "dist_of h l (key_at h' l) = dist_of h l (key_at h l)" for l
    using home i(1) table_okD(3) [OF tab] by (cases "l = ?i") (simp_all add: key_at_def dist_of_def h'_def)
  have ds: "dists h' = dists h" by (simp add: dists_def set key fun_eq_iff)
  have tab': "table_ok h'" using tab by (simp add: table_ok_def dibs_but_def ds set key)
  have cells: "cell (h', None) l = (if l = ?i then e else cell (h, None) l)" if "valid (h, None) l" for l
    unfolding h'_set by (rule set_bucket_cell [OF that i(2)])
  have val: "valid (h', None) l = valid (h, None) l" for l by (simp add: h'_set)
  have live: "live (h, None) xs" by (rule repD(3) [OF rep])
  have v: "valid (h, None) (xs ! l)" if "l < length xs" for l using live that by (simp add: live_def)
  have links: "iterate_next (cell (h', None) (xs ! l)) = iterate_next (cell (h, None) (xs ! l))"
    "iterate_previous (cell (h', None) (xs ! l)) = iterate_previous (cell (h, None) (xs ! l))" if "l < length xs" for l
    using e i(4) by (simp_all add: cells [OF v [OF that]])
  have "live (h', None) xs" using live links by (simp add: live_def links_def val)
  then show "rep h' xs" using rep tab' ds by (simp add: rep_def stops_def)
  have dist: "distinct xs" using live by (simp add: live_def)
  show "contents (h', None) xs = (contents (h, None) xs)[j := kv e]"
  proof (rule nth_equalityI)
    fix l assume "l < length (contents (h', None) xs)"
    then have l: "l < length xs" by (simp add: contents_def)
    then show "contents (h', None) xs ! l = (contents (h, None) xs)[j := kv e] ! l"
      using cells [OF v [OF l]] j nth_eq_iff_index_eq [OF dist l j] by (simp add: contents_def nth_list_update)
  qed (simp add: contents_def)
qed

lemma update_pos:
  assumes "hash_ops_spec ops" "distinct_keys ops al" "j < length al" "ho_compare ops (fst (al ! j)) k = 0"
  shows "al_update ops al k f = al[j := f (al ! j)]"
proof (rule nth_equalityI)
  fix i assume "i < length (al_update ops al k f)"
  then have i: "i < length al" by (simp add: al_update_def)
  then show "al_update ops al k f ! i = al[j := f (al ! j)] ! i"
    using hash_ops_spec.distinct_pos [OF assms i] assms(3) by (auto simp: al_update_def nth_list_update)
qed (simp add: al_update_def)

text \<open>An entry takes a key that is equal to its own, and any value.\<close>

lemma entry_upd_ok:
  assumes hm: "hmap h al" and f: "found_at h xs al j k"
    and g: "\<And>e. iterate_next (g e) = iterate_next e" "\<And>e. iterate_previous (g e) = iterate_previous e"
    and kv: "\<And>e. kv (g e) = f (kv e)" and key: "\<And>p. ho_compare (hm_ops h) (fst p) k = 0 \<Longrightarrow> ho_compare (hm_ops h) (fst (f p)) (fst p) = 0"
  shows "\<exists>h'. upd_bucket (xs ! j) g (h, None) = Some (h', None) \<and> hmap h' (al_update (hm_ops h) al k f) \<and> hm_ops h' = hm_ops h \<and> hm_type h' = hm_type h"
proof -
  note fD = f [unfolded found_at_def]

  note spec = hmapD(1) [OF hm]
  let ?e = "hm_buckets h ! (xs ! j)"
  let ?h = "h\<lparr>hm_buckets := (hm_buckets h)[xs ! j := g ?e]\<rparr>"
  have j: "rep h xs" "j < length xs" "j < length al" and al: "contents (h, None) xs = al" "kv ?e = al ! j"
    and cmp: "ho_compare (hm_ops h) (fst (al ! j)) k = 0" using fD by auto
  have same: "ho_compare (hm_ops h) (he_key (g ?e)) (he_key ?e) = 0" using key [OF cmp] kv [of ?e] al(2) by (simp add: kv_def prod_eq_iff)
  have home: "base_bucket_hash h (he_key (g ?e)) = base_bucket_hash h (he_key ?e)" using hash_ops_spec.same_home [OF spec refl same] .
  note upd = rep_entry_upd [OF j(1,2) g(1) g(2) home]
  have cont: "contents (?h, None) xs = al_update (hm_ops h) al k f"
    using upd(2) update_pos [OF spec hmapD(2) [OF hm] j(3) cmp] kv [of ?e] al by simp
  have "distinct_keys (hm_ops h) (al_update (hm_ops h) al k f)"
    using key hash_ops_spec.compare_refl [OF spec]
    by (intro hash_ops_spec.distinct_same_keys [OF spec hmapD(2) [OF hm]]) (auto simp: al_update_def)
  then have "hmap ?h (al_update (hm_ops h) al k f)" using hmapI [of ?h xs] upd(1) cont spec by simp
  moreover have "upd_bucket (xs ! j) g (h, None) = Some (?h, None)"
    using rep_entry [OF j(1,2)] by (simp add: upd_bucket_ok set_bucket_virtual_def)
  ultimately show ?thesis by (intro exI [of _ ?h]) simp
qed

lemma update_none: "al_find ops al k = None \<Longrightarrow> al_update ops al k f = al"
  by (auto simp: al_find_def al_update_def find_None_iff intro!: map_idI)

lemma replace_ok:
  assumes hm: "hmap h al" and small: "length al < 2 ^ 25"
  shows "\<exists>r h' env'. hashmap_replace k v h env = Some (r, h', env') \<and> hm_ops h' = hm_ops h \<and> hm_type h' = hm_type h \<and>
    (if al_find (hm_ops h) al k = None then r = 1 \<and> hmap h' (al @ [(k, v)]) \<or> r = - ENOMEM \<and> h' = h \<and> \<not> fst (alloc env)
     else r = 0 \<and> hmap h' (al_update (hm_ops h) al k (\<lambda>_. (k, v))))"
proof (cases rule: hmap_scan [OF hm, of k])
  case (1 xs)
  then show ?thesis using boldly_ok [OF hm 1(3) small, of v env] by (auto simp: hashmap_replace_def)
next
  case (2 xs j)
  have "\<exists>h'. upd_bucket (xs ! j) (\<lambda>e. e\<lparr>he_key := k, he_value := v\<rparr>) (h, None) = Some (h', None) \<and>
      hmap h' (al_update (hm_ops h) al k (\<lambda>_. (k, v))) \<and> hm_ops h' = hm_ops h \<and> hm_type h' = hm_type h"
    using hash_ops_spec.compare_sym [OF hmapD(1) [OF hm]] by (intro entry_upd_ok [OF hm 2]) (auto simp: kv_def)
  then show ?thesis using 2 by (auto simp: hashmap_replace_def found_at_def)
qed

lemma update_ok:
  assumes hm: "hmap h al"
  shows "\<exists>h'. hashmap_update k v h = Some (if al_find (hm_ops h) al k = None then - ENOENT else 0, h') \<and>
    hmap h' (al_update (hm_ops h) al k (\<lambda>p. (fst p, v))) \<and> hm_ops h' = hm_ops h \<and> hm_type h' = hm_type h"
proof (cases rule: hmap_scan [OF hm, of k])
  case (1 xs)
  then show ?thesis using hm by (auto simp: hashmap_update_def update_none)
next
  case (2 xs j)
  have "\<exists>h'. upd_bucket (xs ! j) (\<lambda>e. e\<lparr>he_value := v\<rparr>) (h, None) = Some (h', None) \<and>
      hmap h' (al_update (hm_ops h) al k (\<lambda>p. (fst p, v))) \<and> hm_ops h' = hm_ops h \<and> hm_type h' = hm_type h"
    using hash_ops_spec.compare_refl [OF hmapD(1) [OF hm]] by (intro entry_upd_ok [OF hm 2]) (auto simp: kv_def)
  then show ?thesis using 2 by (auto simp: hashmap_update_def found_at_def)
qed

subsection \<open>New and cleared tables\<close>

lemma empty_rep:
  assumes "\<not> has_indirect h" "hm_n_entries h = 0" "iterate_list_head h = IDX_NIL" "iterate_list_tail h = IDX_NIL"
  shows "rep (reset_direct_storage h) []"
proof -
  let ?h = "reset_direct_storage h"
  have n: "n_buckets ?h = n_direct_buckets (hm_type h)" using assms(1) by (simp add: n_buckets_def reset_direct_storage_def)
  have n0: "0 < n_direct_buckets (hm_type h)" "n_direct_buckets (hm_type h) \<le> IDX_SWAP_BEGIN"
    by (cases "hm_type h"; simp add: n_direct_buckets_def entry_size_def IDX_SWAP_BEGIN_def UINT_MAX_def)+
  have free: "i < n_buckets ?h \<Longrightarrow> hm_dibs ?h ! i = DIB_RAW_FREE" for i unfolding n by (simp add: reset_direct_storage_def)
  have s: "\<not> settled ?h i" for i using free by (auto simp: settled_def)
  have tab: "table_ok ?h"
    using n0 by (simp add: table_ok_def dibs_but_def s n robin_def dists_def) (simp add: reset_direct_storage_def)
  have "stops ?h" using n0 n s by (auto simp: stops_def dists_def)
  moreover have "live (?h, None) []" using assms(3,4) by (simp add: live_def links_def reset_direct_storage_def)
  ultimately show ?thesis using tab free assms by (simp add: rep_def) (simp add: reset_direct_storage_def)
qed

lemma hmap_empty:
  assumes "hash_ops_spec (hm_ops h)" "\<not> has_indirect h" "hm_n_entries h = 0" "iterate_list_head h = IDX_NIL" "iterate_list_tail h = IDX_NIL"
  shows "hmap (reset_direct_storage h) []"
  using hmapI [OF _ empty_rep [OF assms(2-5)]] assms(1) by (simp add: contents_def distinct_keys_def reset_direct_storage_def)

lemma new_ok:
  assumes "hash_ops_spec ops" "hashmap_base_new (Some ops) t env = (Some h, env')"
  shows "hmap h []" "hm_ops h = ops" "hm_type h = t"
proof -
  show "hmap h []" using assms
    by (auto simp: hashmap_base_new_def alloc_def random_bytes_def Let_def split: if_splits option.splits intro!: hmap_empty)
  show "hm_ops h = ops" "hm_type h = t" using assms
    by (auto simp: hashmap_base_new_def alloc_def random_bytes_def Let_def reset_direct_storage_def split: if_splits option.splits)
qed

lemma clear_ok:
  assumes "hmap h al"
  shows "hmap (internal_hashmap_clear h) []" "hm_ops (internal_hashmap_clear h) = hm_ops h" "hm_type (internal_hashmap_clear h) = hm_type h"
    "internal_hashmap_free (Some h) = Some ()"
proof -
  let ?h = "h\<lparr>has_indirect := False, hm_n_entries := 0, iterate_list_head := IDX_NIL, iterate_list_tail := IDX_NIL\<rparr>"
  show "hmap (internal_hashmap_clear h) []" using hmap_empty [of ?h] hmapD(1) [OF assms] by (simp add: internal_hashmap_clear_def)
qed (simp_all add: internal_hashmap_clear_def reset_direct_storage_def internal_hashmap_free_def hashmap_free_no_clear_def)

section \<open>Iteration\<close>

subsection \<open>In the order of insertion\<close>

lemma insertion_step:
  assumes rep: "rep h xs" and ord: "hm_type h = HASHMAP_TYPE_ORDERED" and j: "j < length xs"
    and i: "it_idx i = (if j = 0 then IDX_FIRST else xs ! j)" "j \<noteq> 0 \<Longrightarrow> it_next_key i = key_at h (xs ! j)"
  shows "\<exists>i'. hashmap_iterate_entry h i = Some (xs ! j, i', h) \<and>
    (if Suc j < length xs then it_idx i' = xs ! Suc j \<and> it_next_key i' = key_at h (xs ! Suc j) else it_idx i' = IDX_NIL)"
proof -
  note e = rep_entry [OF rep j]
  have l: "iterate_list_head h = hd xs" "iterate_next (hm_buckets h ! (xs ! j)) = (if Suc j < length xs then xs ! Suc j else IDX_NIL)"
    using repD(3) [OF rep] ord j e(5) by (auto simp: live_def links_def)
  have idx: "IDX_FIRST \<noteq> IDX_NIL" "xs ! j \<noteq> IDX_FIRST" using e(7) by (auto simp: IDX_FIRST_def IDX_NIL_def IDX_SWAP_BEGIN_def UINT_MAX_def)
  have hd: "j = 0 \<Longrightarrow> hd xs = xs ! j" using j by (cases xs) auto
  have cur: "(if it_idx i = IDX_FIRST then Some (iterate_list_head h)
              else do { e \<leftarrow> bucket_at h (it_idx i);
                        let idx = (if he_key e \<noteq> it_next_key i then prev_idx h (it_idx i) else it_idx i)
                        in do { e \<leftarrow> bucket_at h idx; if he_key e \<noteq> it_next_key i then None else Some idx } }) = Some (xs ! j)"
    using i e idx hd l(1) by (cases "j = 0") (auto simp: key_at_def)
  have start: "\<not> (it_idx i = IDX_NIL \<or> it_idx i = IDX_FIRST \<and> iterate_list_head h = IDX_NIL)" using i(1) e(2) idx hd l(1) by (auto split: if_splits)
  show ?thesis
  proof (cases "Suc j < length xs")
    case True
    then show ?thesis using start l(2) e(3) rep_entry [OF rep True] ord
      by (auto simp: hashmap_iterate_entry_def hashmap_iterate_in_insertion_order_def cur key_at_def)
  next
    case False
    then show ?thesis using start l(2) e(3) ord by (auto simp: hashmap_iterate_entry_def hashmap_iterate_in_insertion_order_def cur)
  qed
qed

lemma iterate_end: "it_idx i = IDX_NIL \<Longrightarrow> hashmap_iterate_entry h i = Some (IDX_NIL, i, h)"
  by (simp add: hashmap_iterate_entry_def hashmap_iterate_in_insertion_order_def hashmap_iterate_in_internal_order_def)

lemma foreach_insertion:
  assumes rep: "rep h xs" and ord: "hm_type h = HASHMAP_TYPE_ORDERED"
  shows "foreach_entries h ITERATOR_FIRST [] = Some (map (\<lambda>i. hm_buckets h ! i) xs, h)"
proof -
  have step: "foreach_entries h i acc = Some (acc @ map (\<lambda>i. hm_buckets h ! i) (drop j xs), h)"
    if "j < length xs" "it_idx i = (if j = 0 then IDX_FIRST else xs ! j)" "j \<noteq> 0 \<Longrightarrow> it_next_key i = key_at h (xs ! j)" for i j acc
    using that
  proof (induction "length xs - j" arbitrary: i j acc rule: less_induct)
    case less
    obtain i' where i': "hashmap_iterate_entry h i = Some (xs ! j, i', h)"
      "if Suc j < length xs then it_idx i' = xs ! Suc j \<and> it_next_key i' = key_at h (xs ! Suc j) else it_idx i' = IDX_NIL"
      using insertion_step [OF rep ord less.prems] by blast
    note e = rep_entry [OF rep less.prems(1)]
    have d: "drop j xs = xs ! j # drop (Suc j) xs" using less.prems(1) by (simp add: Cons_nth_drop_Suc)
    have "foreach_entries h i' (acc @ [hm_buckets h ! (xs ! j)]) = Some (acc @ map (\<lambda>i. hm_buckets h ! i) (drop j xs), h)"
    proof (cases "Suc j < length xs")
      case True
      then show ?thesis using less.hyps [of "Suc j" i'] i'(2) less.prems(1) d by simp
    next
      case False
      then show ?thesis using i'(2) d by (subst foreach_entries.simps) (simp add: iterate_end)
    qed
    then show ?case using i'(1) e(2,3) by (subst foreach_entries.simps) simp
  qed
  show ?thesis
  proof (cases xs)
    case Nil
    then have "iterate_list_head h = IDX_NIL" using repD(3) [OF rep] ord by (simp add: live_def links_def)
    then show ?thesis using ord Nil
      by (subst foreach_entries.simps) (simp add: hashmap_iterate_entry_def hashmap_iterate_in_insertion_order_def ITERATOR_FIRST_def)
  next
    case Cons
    then show ?thesis using step [of 0 ITERATOR_FIRST "[]"] by (simp add: ITERATOR_FIRST_def)
  qed
qed

subsection \<open>From left to right\<close>

definition used_from :: "hashmap \<Rightarrow> nat \<Rightarrow> nat list" where
  "used_from h p = filter (\<lambda>i. hm_dibs h ! i \<noteq> DIB_RAW_FREE) [p..<n_buckets h]"

lemma skip_free: "skip_free_buckets h p = (case used_from h p of [] \<Rightarrow> IDX_NIL | x # _ \<Rightarrow> x)"
proof (induction h p rule: skip_free_buckets.induct)
  case (1 h p)
  then show ?case by (subst skip_free_buckets.simps) (auto simp: used_from_def upt_conv_Cons)
qed

lemma used_from_rest: "used_from h p = x # ys \<Longrightarrow> used_from h (Suc x) = ys \<and> p \<le> x \<and> x < n_buckets h"
proof (induction "n_buckets h - p" arbitrary: p)
  case (Suc d)
  then have p: "p < n_buckets h" by simp
  show ?case
  proof (cases "hm_dibs h ! p \<noteq> DIB_RAW_FREE")
    case True
    then show ?thesis using Suc.prems p by (auto simp: used_from_def upt_conv_Cons)
  next
    case False
    then have "used_from h (Suc p) = x # ys" using Suc.prems p by (simp add: used_from_def upt_conv_Cons)
    moreover have "d = n_buckets h - Suc p" using Suc.hyps(2) by simp
    ultimately have "used_from h (Suc x) = ys \<and> Suc p \<le> x \<and> x < n_buckets h" using Suc.hyps(1) by blast
    then show ?thesis by simp
  qed
qed (simp add: used_from_def)

lemma used_from_lowest:
  assumes "rep h xs" "has_indirect h"
  shows "used_from h (idx_lowest_entry h) = used_from h 0"
proof (cases "idx_lowest_entry h \<le> n_buckets h")
  case True
  then have "[0..<n_buckets h] = [0..<idx_lowest_entry h] @ [idx_lowest_entry h..<n_buckets h]" using upt_add_eq_append [of 0 "idx_lowest_entry h" "n_buckets h - idx_lowest_entry h"] by simp
  moreover have "filter (\<lambda>i. hm_dibs h ! i \<noteq> DIB_RAW_FREE) [0..<idx_lowest_entry h] = []"
    using repD(7) [OF assms] True by (auto simp: filter_empty_conv)
  ultimately show ?thesis by (simp add: used_from_def)
next
  case False
  then have "filter (\<lambda>i. hm_dibs h ! i \<noteq> DIB_RAW_FREE) [0..<n_buckets h] = []" using repD(7) [OF assms] by (auto simp: filter_empty_conv)
  then show ?thesis using False by (simp add: used_from_def)
qed

lemma rep_any_order:
  assumes "rep h xs" "hm_type h \<noteq> HASHMAP_TYPE_ORDERED" "distinct ys" "set ys = set xs"
  shows "rep h ys"
  using assms distinct_card [of xs] distinct_card [of ys] by (auto simp: rep_def live_def links_def)

lemma rep_used:
  assumes "rep h xs" "hm_type h \<noteq> HASHMAP_TYPE_ORDERED"
  shows "rep h (used_from h 0)" "mset (used_from h 0) = mset xs"
proof -
  have "set (used_from h 0) = set xs" using repD(4) [OF assms(1)] rep_less [OF assms(1)] by (auto simp: used_from_def)
  moreover have "distinct xs" "distinct (used_from h 0)" using repD(3) [OF assms(1)] by (simp_all add: live_def used_from_def)
  ultimately show "rep h (used_from h 0)" "mset (used_from h 0) = mset xs" using rep_any_order [OF assms] by (auto simp: set_eq_iff_mset_eq_distinct)
qed

lemma lowest_ok:
  assumes "rep h xs" "has_indirect h" "\<And>i. i < n_buckets h \<Longrightarrow> i < p \<Longrightarrow> hm_dibs h ! i = DIB_RAW_FREE"
  defines "h' \<equiv> h\<lparr>idx_lowest_entry := p\<rparr>"
  shows "rep h' xs" "contents (h', None) xs = contents (h, None) xs" "used_from h' = used_from h" "hm_buckets h' = hm_buckets h" "same_shape h h'"
proof -
  show sh: "same_shape h h'" by (simp add: same_shape_def h'_def)
  note [simp] = same_shape_simps [OF sh]
  have d: "dists h' = dists h" by (simp add: dists_def settled_def key_at_def fun_eq_iff) (simp add: h'_def)
  have s: "settled h' i = settled h i" "key_at h' i = key_at h i" for i by (simp_all add: settled_def key_at_def) (simp_all add: h'_def)
  have f: "hm_dibs h' = hm_dibs h" "hm_buckets h' = hm_buckets h" "has_indirect h' = has_indirect h" "hm_n_entries h' = hm_n_entries h" "idx_lowest_entry h' = p"
    by (simp_all add: h'_def)
  have t: "table_ok h' = table_ok h" by (simp add: table_ok_def dibs_but_def d s f)
  have k: "live (h', None) xs = live (h, None) xs" "contents (h', None) xs = contents (h, None) xs"
    using keeps_entries_simps [of "\<lambda>h. h\<lparr>idx_lowest_entry := p\<rparr>" "(h, None)"] by (simp_all add: keeps_entries_def h'_def)
  show "rep h' xs" using assms(1-3) by (simp add: rep_def t k f stops_def d)
  show "contents (h', None) xs = contents (h, None) xs" "hm_buckets h' = hm_buckets h" by (rule k(2), rule f)
  show "used_from h' = used_from h" by (simp add: used_from_def f fun_eq_iff)
qed

text \<open>A step in the middle, at the used bucket \<open>x\<close>.\<close>

lemma internal_step:
  assumes rep: "rep h xs" and ord: "hm_type h \<noteq> HASHMAP_TYPE_ORDERED" and x: "used_from h p = x # ys" "0 < p"
    and i: "it_idx i = x" "it_next_key i = key_at h x"
  shows "\<exists>i'. hashmap_iterate_entry h i = Some (x, i', h) \<and>
    (case ys of y # _ \<Rightarrow> it_idx i' = y \<and> it_next_key i' = key_at h y | [] \<Rightarrow> it_idx i' = IDX_NIL)"
proof -
  note tab = repD(1) [OF rep]
  have u: "used_from h (Suc x) = ys" "p \<le> x" "x < n_buckets h" using used_from_rest [OF x(1)] by simp_all
  have lt: "z < n_buckets h \<Longrightarrow> z \<noteq> IDX_NIL \<and> z \<noteq> IDX_FIRST" for z
    using table_okD(2) [OF tab] by (auto simp: IDX_FIRST_def IDX_NIL_def IDX_SWAP_BEGIN_def UINT_MAX_def)
  have y: "y < n_buckets h" if "ys = y # ys'" for y ys' using used_from_rest [of h "Suc x" y ys'] u(1) that by simp
  have "\<not> x = 0" using u(2) x(2) by simp
  then show ?thesis using ord i lt [OF u(3)] lt y u(1) bucket_at_ok [OF tab u(3)] bucket_at_ok [OF tab]
    by (cases ys) (auto simp: hashmap_iterate_entry_def hashmap_iterate_in_internal_order_def skip_free key_at_def Let_def)
qed

lemma foreach_internal:
  assumes rep: "rep h xs" and ord: "hm_type h \<noteq> HASHMAP_TYPE_ORDERED"
  shows "used_from h p = ys \<Longrightarrow> 0 < p \<Longrightarrow>
    (case ys of y # _ \<Rightarrow> it_idx i = y \<and> it_next_key i = key_at h y | [] \<Rightarrow> it_idx i = IDX_NIL) \<Longrightarrow>
    foreach_entries h i acc = Some (acc @ map (\<lambda>i. hm_buckets h ! i) ys, h)"
proof (induction ys arbitrary: p i acc)
  case Nil
  then show ?case by (subst foreach_entries.simps) (simp add: iterate_end)
next
  case (Cons x ys)
  obtain i' where i': "hashmap_iterate_entry h i = Some (x, i', h)"
    "case ys of y # _ \<Rightarrow> it_idx i' = y \<and> it_next_key i' = key_at h y | [] \<Rightarrow> it_idx i' = IDX_NIL"
    using internal_step [OF rep ord Cons.prems(1,2)] Cons.prems(3) by auto
  have u: "used_from h (Suc x) = ys" "x < n_buckets h" using used_from_rest [OF Cons.prems(1)] by simp_all
  have "x \<noteq> IDX_NIL" using u(2) table_okD(2) [OF repD(1) [OF rep]] by (auto simp: IDX_NIL_def IDX_SWAP_BEGIN_def UINT_MAX_def)
  then show ?case using i'(1) Cons.IH [OF u(1) _ i'(2)] bucket_at_ok [OF repD(1) [OF rep] u(2)] by (subst foreach_entries.simps) simp
qed

lemma internal_first:
  assumes rep: "rep h xs" and ord: "hm_type h \<noteq> HASHMAP_TYPE_ORDERED"
  shows "\<exists>i h'. hashmap_iterate_entry h ITERATOR_FIRST = Some (case used_from h 0 of [] \<Rightarrow> IDX_NIL | x # _ \<Rightarrow> x, i, h') \<and>
    rep h' xs \<and> contents (h', None) xs = contents (h, None) xs \<and> used_from h' = used_from h \<and> hm_buckets h' = hm_buckets h \<and> same_shape h h' \<and>
    (case used_from h 0 of x # y # _ \<Rightarrow> it_idx i = y \<and> it_next_key i = key_at h y | _ \<Rightarrow> it_idx i = IDX_NIL)"
proof -
  note tab = repD(1) [OF rep]
  let ?u = "used_from h 0"
  let ?x = "case ?u of [] \<Rightarrow> IDX_NIL | x # _ \<Rightarrow> x"
  define h' where "h' = (if has_indirect h then h\<lparr>idx_lowest_entry := ?x\<rparr> else h)"
  have first: "skip_free_buckets h (if has_indirect h then idx_lowest_entry h else 0) = ?x"
    using used_from_lowest [OF rep] by (simp add: skip_free)
  have low: "hm_dibs h ! i = DIB_RAW_FREE" if "i < n_buckets h" "i < ?x" for i
  proof (rule ccontr)
    assume "hm_dibs h ! i \<noteq> DIB_RAW_FREE"
    then have i: "i \<in> set ?u" using that(1) by (simp add: used_from_def)
    moreover have "sorted ?u" unfolding used_from_def by (rule sorted_wrt_filter) (simp del: upt_Suc)
    ultimately have "?x \<le> i" by (cases ?u) auto
    then show False using that(2) by simp
  qed
  have ok: "rep h' xs" "contents (h', None) xs = contents (h, None) xs" "used_from h' = used_from h" "hm_buckets h' = hm_buckets h" "same_shape h h'"
    using lowest_ok [OF rep _ low] rep by (auto simp: h'_def)
  have lt: "z < n_buckets h \<Longrightarrow> z \<noteq> IDX_NIL" for z using table_okD(2) [OF tab] by (auto simp: IDX_NIL_def IDX_SWAP_BEGIN_def UINT_MAX_def)
  have ne: "IDX_FIRST \<noteq> IDX_NIL" by (simp add: IDX_FIRST_def IDX_NIL_def UINT_MAX_def)
  note [simp] = same_shape_simps [OF ok(5)]
  show ?thesis
  proof (cases ?u)
    case Nil
    then have "hashmap_iterate_entry h ITERATOR_FIRST = Some (IDX_NIL, ITERATOR_FIRST\<lparr>it_idx := IDX_NIL\<rparr>, h')"
      using ord first ne by (simp add: hashmap_iterate_entry_def hashmap_iterate_in_internal_order_def ITERATOR_FIRST_def Let_def h'_def)
    then show ?thesis using ok Nil by auto
  next
    case (Cons x ys)
    have u: "used_from h (Suc x) = ys" "x < n_buckets h" using used_from_rest [OF Cons] by simp_all
    have nxt: "skip_free_buckets h' (Suc x) = (case ys of [] \<Rightarrow> IDX_NIL | y # _ \<Rightarrow> y)" by (simp add: skip_free ok(3) u(1))
    have y: "y < n_buckets h" "y \<noteq> IDX_NIL" if "ys = y # ys'" for y ys' using used_from_rest [of h "Suc x" y ys'] u(1) that lt by auto
    let ?i = "case ys of [] \<Rightarrow> ITERATOR_FIRST\<lparr>it_idx := IDX_NIL\<rparr> | y # _ \<Rightarrow> \<lparr>it_idx = y, it_next_key = key_at h y\<rparr>"
    have "hashmap_iterate_in_internal_order h ITERATOR_FIRST = Some (x, ?i, h')"
    proof -
      have b: "bucket_at h' y = Some (hm_buckets h ! y)" if "y < n_buckets h" for y using bucket_at_ok [OF repD(1) [OF ok(1)], of y] that ok(4) by simp
      have h2: "(if has_indirect h then h\<lparr>idx_lowest_entry := x\<rparr> else h) = h'" using Cons by (simp add: h'_def)
      show ?thesis
        unfolding hashmap_iterate_in_internal_order_def Let_def first using Cons ne h2 lt [OF u(2)] nxt y b
        by (cases ys) (auto simp: ITERATOR_FIRST_def key_at_def)
    qed
    then have "hashmap_iterate_entry h ITERATOR_FIRST = Some (x, ?i, h')" using ord by (simp add: hashmap_iterate_entry_def)
    then show ?thesis using ok Cons by (intro exI [of _ ?i] exI [of _ h']) (simp split: list.splits)
  qed
qed

text \<open>Whether the keys differ does not depend on the order.\<close>

lemma distinct_keys_distinct:
  assumes "hash_ops_spec ops"
  shows "distinct_keys ops al \<longleftrightarrow> distinct al \<and> (\<forall>p \<in> set al. \<forall>q \<in> set al. ho_compare ops (fst p) (fst q) = 0 \<longrightarrow> p = q)"
proof
  assume d: "distinct_keys ops al"
  have "distinct al" using d hash_ops_spec.compare_refl [OF assms] by (simp add: distinct_keys_def distinct_conv_nth) metis
  moreover have "p = q" if "p \<in> set al" "q \<in> set al" "ho_compare ops (fst p) (fst q) = 0" for p q
  proof -
    obtain i j where ij: "i < length al" "p = al ! i" "j < length al" "q = al ! j"
      using \<open>p \<in> set al\<close> \<open>q \<in> set al\<close> by (metis in_set_conv_nth)
    then have "i = j" using d \<open>ho_compare ops (fst p) (fst q) = 0\<close> by (simp add: distinct_keys_def)
    then show ?thesis using ij by simp
  qed
  ultimately show "distinct al \<and> (\<forall>p \<in> set al. \<forall>q \<in> set al. ho_compare ops (fst p) (fst q) = 0 \<longrightarrow> p = q)" by blast
next
  assume "distinct al \<and> (\<forall>p \<in> set al. \<forall>q \<in> set al. ho_compare ops (fst p) (fst q) = 0 \<longrightarrow> p = q)"
  then show "distinct_keys ops al" unfolding distinct_keys_def by (metis nth_eq_iff_index_eq nth_mem)
qed

lemma distinct_keys_mset: "hash_ops_spec ops \<Longrightarrow> distinct_keys ops al \<Longrightarrow> mset al' = mset al \<Longrightarrow> distinct_keys ops al'"
  unfolding distinct_keys_distinct using mset_eq_imp_distinct_iff [of al' al] mset_eq_setD [of al' al] by presburger

text \<open>The loop visits every entry once; in the order of insertion, if the map remembers it.\<close>

lemma foreach_entries_ok:
  assumes hm: "hmap h al"
  shows "\<exists>es h'. foreach_entries h ITERATOR_FIRST [] = Some (es, h') \<and> hmap h' (map kv es) \<and> mset (map kv es) = mset al \<and>
    (hm_type h = HASHMAP_TYPE_ORDERED \<longrightarrow> map kv es = al) \<and> same_shape h h'"
proof -
  obtain xs where xs: "rep h xs" "contents (h, None) xs = al" using hm by (auto simp: hmap_def)
  note spec = hmapD(1) [OF hm]
  have kv: "map kv (map (\<lambda>i. hm_buckets h ! i) xs) = contents (h, None) xs" if "rep h xs" for xs
    using rep_entry(4) [OF that] by (intro nth_equalityI) (simp_all add: contents_def)
  show ?thesis
  proof (cases "hm_type h = HASHMAP_TYPE_ORDERED")
    case True
    show ?thesis unfolding foreach_insertion [OF xs(1) True]
      using kv [OF xs(1)] xs(2) hm by (intro exI [of _ "map (\<lambda>i. hm_buckets h ! i) xs"] exI [of _ h]) (simp del: mset_map map_map)
  next
    case ord: False
    let ?u = "used_from h 0"
    note u = rep_used [OF xs(1) ord]
    obtain i h' where i: "hashmap_iterate_entry h ITERATOR_FIRST = Some (case ?u of [] \<Rightarrow> IDX_NIL | x # _ \<Rightarrow> x, i, h')"
      "rep h' ?u" "contents (h', None) ?u = contents (h, None) ?u" "used_from h' = used_from h" "hm_buckets h' = hm_buckets h" "same_shape h h'"
      "case ?u of x # y # _ \<Rightarrow> it_idx i = y \<and> it_next_key i = key_at h y | _ \<Rightarrow> it_idx i = IDX_NIL"
      using internal_first [OF u(1) ord] by blast
    note [simp] = same_shape_simps [OF i(6)]
    have ty: "hm_type h' \<noteq> HASHMAP_TYPE_ORDERED" "hm_ops h' = hm_ops h" using ord i(6) by (simp_all add: same_shape_def)
    have each: "foreach_entries h ITERATOR_FIRST [] = Some (map (\<lambda>i. hm_buckets h ! i) ?u, h')"
    proof (cases ?u)
      case Nil
      then show ?thesis using i(1) by (subst foreach_entries.simps) simp
    next
      case (Cons x ys)
      have r: "used_from h' (Suc x) = ys" "x < n_buckets h'" using used_from_rest [OF Cons] i(4) by simp_all
      have x: "x \<noteq> IDX_NIL" using r(2) table_okD(2) [OF repD(1) [OF i(2)]] by (auto simp: IDX_NIL_def IDX_SWAP_BEGIN_def UINT_MAX_def)
      have "case ys of y # _ \<Rightarrow> it_idx i = y \<and> it_next_key i = key_at h' y | [] \<Rightarrow> it_idx i = IDX_NIL"
        using i(7) Cons i(5) by (simp add: key_at_def split: list.splits)
      then have "foreach_entries h' i [hm_buckets h ! x] = Some ([hm_buckets h ! x] @ map (\<lambda>i. hm_buckets h' ! i) ys, h')"
        by (intro foreach_internal [OF i(2) ty(1) r(1)]) simp_all
      then show ?thesis using i(1) Cons bucket_at_ok [OF repD(1) [OF i(2)] r(2)] i(5) x by (subst foreach_entries.simps) simp
    qed
    have ms: "mset (contents (h, None) ?u) = mset al" using u(2) xs(2) by (auto simp: contents_def)
    have inj: "distinct_keys (hm_ops h) (contents (h, None) ?u)"
      using distinct_keys_mset [OF spec hmapD(2) [OF hm] ms] .
    have "hmap h' (contents (h, None) ?u)" using hmapI [OF _ i(2,3)] ty(2) spec inj by simp
    then show ?thesis unfolding each
      using kv [OF u(1)] ms ord i(6) by (intro exI [of _ "map (\<lambda>i. hm_buckets h ! i) ?u"] exI [of _ h']) (simp del: mset_map map_map)
  qed
qed

section \<open>Merging and copying\<close>

text \<open>Merging puts the entries whose keys are new, one after the other.\<close>

fun al_merge :: "hash_ops \<Rightarrow> (ptr \<times> ptr) list \<Rightarrow> (ptr \<times> ptr) list \<Rightarrow> (ptr \<times> ptr) list" where
  "al_merge ops al [] = al"
| "al_merge ops al (p # ps) = al_merge ops (if al_find ops al (fst p) = None then al @ [p] else al) ps"

lemma al_merge_distinct: "hash_ops_spec ops \<Longrightarrow> distinct_keys ops (al @ ps) \<Longrightarrow> al_merge ops al ps = al @ ps"
proof (induction ps arbitrary: al)
  case (Cons p ps)
  have "al_find ops al (fst p) = None"
    unfolding al_find_def find_None_iff
  proof
    assume "\<exists>q. q \<in> set al \<and> ho_compare ops (fst q) (fst p) = 0"
    then obtain i where i: "i < length al" "ho_compare ops (fst (al ! i)) (fst p) = 0" by (metis in_set_conv_nth)
    have keys: "(al @ p # ps) ! i = al ! i" "(al @ p # ps) ! length al = p" using i(1) by (simp_all add: nth_append)
    have "i = length al"
      using Cons.prems(2) [unfolded distinct_keys_def, rule_format, of i "length al"] i unfolding keys by simp
    then show False using i(1) by simp
  qed
  then show ?case using Cons.IH [of "al @ [p]"] Cons.prems by simp
qed simp

definition all_allocs :: "hash_env \<Rightarrow> bool" where
  "all_allocs env \<longleftrightarrow> (\<forall>n. env_alloc env n)"

lemma allocs_kept:
  assumes "all_allocs env"
  shows "fst (alloc env)" "all_allocs (snd (alloc env))" "all_allocs (snd (get_hash_key b env))" "all_allocs (snd (random_bytes env))"
  using assms by (auto simp: all_allocs_def alloc_def get_hash_key_def random_bytes_def split: option.splits)

definition leaves_allocs :: "(rc \<times> hashmap \<times> hash_env) option \<Rightarrow> bool" where
  "leaves_allocs x \<longleftrightarrow> (\<forall>r h env. x = Some (r, h, env) \<longrightarrow> all_allocs env)"

lemma leaves_allocsI:
  "all_allocs env \<Longrightarrow> leaves_allocs (Some (r, h, env))" "leaves_allocs None"
  "leaves_allocs x \<Longrightarrow> leaves_allocs y \<Longrightarrow> leaves_allocs (if c then x else y)"
  "(\<And>a b. leaves_allocs (f a b)) \<Longrightarrow> leaves_allocs (m \<bind> (\<lambda>(a, b). f a b))"
  by (auto simp: leaves_allocs_def split: Option.bind_splits)

lemma resize_allocs:
  assumes "resize_buckets n h env = Some (r, h', env')" "all_allocs env"
  shows "all_allocs env'"
proof -
  obtain ok env1 key env2 where a: "alloc env = (ok, env1)" "get_hash_key (\<not> has_indirect h) env1 = (key, env2)" by fastforce
  then have "all_allocs env1" "all_allocs env2"
    using allocs_kept(2) [OF assms(2)] allocs_kept(3) [of env1 "\<not> has_indirect h"] by simp_all
  then have "leaves_allocs (resize_buckets n h env)"
    unfolding resize_buckets_def Let_def a prod.case using assms(2) by (intro leaves_allocsI)
  then show ?thesis using assms(1) by (simp add: leaves_allocs_def)
qed

lemma boldly_allocs: "hashmap_base_put_boldly idx e b h env = Some (r, h', env') \<Longrightarrow> all_allocs env \<Longrightarrow> all_allocs env'"
  using resize_allocs [of 1 h env]
  by (auto simp: hashmap_base_put_boldly_def Let_def split: if_splits Option.bind_splits prod.splits)

lemma put_allocs: "hashmap_put k v h env = Some (r, h', env') \<Longrightarrow> all_allocs env \<Longrightarrow> all_allocs env'"
  by (auto simp: hashmap_put_def split: if_splits Option.bind_splits dest: boldly_allocs)

lemma merge_loop_ok:
  assumes "hmap h al" "length al + length es \<le> 2 ^ 25" "all_allocs env"
  shows "\<exists>h' env'. merge_loop es h env = Some (0, h', env') \<and> hmap h' (al_merge (hm_ops h) al (map kv es)) \<and> hm_ops h' = hm_ops h \<and>
    hm_type h' = hm_type h \<and> all_allocs env'"
  using assms
proof (induction es arbitrary: h al env)
  case (Cons e es)
  let ?k = "he_key e" and ?v = "he_value e"
  obtain r h1 env1 where r: "hashmap_put ?k ?v h env = Some (r, h1, env1)" "hm_ops h1 = hm_ops h" "hm_type h1 = hm_type h"
    "case al_find (hm_ops h) al ?k of
       Some p \<Rightarrow> r = (if snd p = ?v then 0 else - EEXIST) \<and> h1 = h
     | None \<Rightarrow> r = 1 \<and> hmap h1 (al @ [(?k, ?v)]) \<or> r = - ENOMEM \<and> h1 = h \<and> \<not> fst (alloc env)"
    using put_ok [OF Cons.prems(1), of ?k ?v env] Cons.prems(2) by auto
  have env1: "all_allocs env1" using put_allocs [OF r(1) Cons.prems(3)] .
  let ?al = "if al_find (hm_ops h) al ?k = None then al @ [kv e] else al"
  have h1: "hmap h1 ?al" "r \<ge> 0 \<or> r = - EEXIST"
    using r(4) Cons.prems(1) allocs_kept(1) [OF Cons.prems(3)] by (auto simp: kv_def split: option.splits if_splits)
  have "length ?al + length es \<le> 2 ^ 25" using Cons.prems(2) by simp
  from Cons.IH [OF h1(1) this env1] show ?case using r(1-3) h1(2) by (auto simp: kv_def)
qed auto

lemma merge_ok:
  assumes "hmap h al" "hmap other bl" "length al + length bl \<le> 2 ^ 25" "all_allocs env"
  shows "\<exists>h' other' bl' env'. internal_hashmap_merge h (Some other) env = Some (0, h', Some other', env') \<and> hmap h' (al_merge (hm_ops h) al bl') \<and>
    hmap other' bl' \<and> mset bl' = mset bl \<and> (hm_type other = HASHMAP_TYPE_ORDERED \<longrightarrow> bl' = bl) \<and> hm_ops h' = hm_ops h \<and> hm_type h' = hm_type h \<and>
    same_shape other other'"
proof -
  obtain es other' where es: "foreach_entries other ITERATOR_FIRST [] = Some (es, other')" "hmap other' (map kv es)" "mset (map kv es) = mset bl"
    "hm_type other = HASHMAP_TYPE_ORDERED \<longrightarrow> map kv es = bl" "same_shape other other'"
    using foreach_entries_ok [OF assms(2)] by blast
  have "length es = length bl" using arg_cong [OF es(3), of size] by simp
  then obtain h' env' where h': "merge_loop es h env = Some (0, h', env')" "hmap h' (al_merge (hm_ops h) al (map kv es))"
    "hm_ops h' = hm_ops h" "hm_type h' = hm_type h"
    using merge_loop_ok [OF assms(1) _ assms(4), of es] assms(3) by auto
  have "internal_hashmap_merge h (Some other) env = Some (0, h', Some other', env')" using es(1) h'(1) by (simp add: internal_hashmap_merge_def)
  then show ?thesis using h'(2-4) es(2-5) by blast
qed

lemma copy_ok:
  assumes hm: "hmap h al" and ty: "hm_type h \<noteq> HASHMAP_TYPE_SET" and small: "length al \<le> 2 ^ 25" and env: "all_allocs env"
  shows "\<exists>copy h' al' env'. internal_hashmap_copy h env = Some (Some copy, Some h', env') \<and> hmap copy al' \<and> hmap h' al' \<and> mset al' = mset al \<and>
    (hm_type h = HASHMAP_TYPE_ORDERED \<longrightarrow> al' = al) \<and> hm_ops copy = hm_ops h \<and> hm_type copy = hm_type h"
proof -
  note spec = hmapD(1) [OF hm]
  obtain c env1 where c: "hashmap_base_new (Some (hm_ops h)) (hm_type h) env = (Some c, env1)" "all_allocs env1"
    using env by (cases "env_shared env") (auto simp: hashmap_base_new_def Let_def all_allocs_def random_bytes_def alloc_def)
  note new = new_ok [OF spec c(1)]
  obtain c' h' al' env' where m: "internal_hashmap_merge c (Some h) env1 = Some (0, c', Some h', env')" "hmap c' (al_merge (hm_ops c) [] al')"
    "hmap h' al'" "mset al' = mset al" "hm_type h = HASHMAP_TYPE_ORDERED \<longrightarrow> al' = al" "hm_ops c' = hm_ops c" "hm_type c' = hm_type c" "same_shape h h'"
    using merge_ok [OF new(1) hm _ c(2)] small by auto
  have "distinct_keys (hm_ops h) al'" using hmapD(2) [OF m(3)] m(8) by (simp add: same_shape_def)
  then have "al_merge (hm_ops c) [] al' = al'" using al_merge_distinct [OF spec, of "[]"] new(2) by simp
  moreover have "internal_hashmap_copy h env = Some (Some c', Some h', env')" using ty c(1) m(1) by (simp add: internal_hashmap_copy_def)
  ultimately show ?thesis using m new by auto
qed

section \<open>The operations of the source\<close>

interpretation string_ops: hash_ops_spec "string_hash_ops mem" for mem
  by unfold_locales (auto simp: string_hash_ops_def string_compare_func_def string_hash_func_def)

interpretation trivial_ops: hash_ops_spec trivial_hash_ops
  by unfold_locales (auto simp: trivial_hash_ops_def trivial_compare_func_def split: if_splits)

interpretation uint64_ops: hash_ops_spec "uint64_hash_ops mem" for mem
  by unfold_locales (auto simp: uint64_hash_ops_def uint64_compare_func_def uint64_hash_func_def split: if_splits)

section \<open>Properties\<close>

text \<open>
  C31: hash tables behave as lists of entries with different keys. For every table that stands for such a list, with fewer than \<open>2 ^ 25\<close>
  entries: a lookup finds the value that goes with the key; putting a new key appends the entry, or fails with \<open>-ENOMEM\<close> and changes nothing,
  and this only if the allocation fails; putting a key that is there changes nothing and returns 0 or \<open>-EEXIST\<close>; replacing and updating change
  the entry in its place; removing takes out the entry and returns its value. No assertion fails and no loop runs on: every probe sequence, Robin
  Hood swap, backward shift and rehash is covered.
\<close>

theorem hashmap_refines_alist:
  assumes "hmap h al" "length al < 2 ^ 25"
  shows "internal_hashmap_size (Some h) = length al \<and>
    internal_hashmap_get (Some h) k = Some (case al_find (hm_ops h) al k of None \<Rightarrow> 0 | Some p \<Rightarrow> val_of (hm_type h) p) \<and>
    internal_hashmap_contains (Some h) k = Some (al_find (hm_ops h) al k \<noteq> None) \<and>
    (\<exists>r h' env'. hashmap_put k v h env = Some (r, h', env') \<and> hm_ops h' = hm_ops h \<and> hm_type h' = hm_type h \<and>
       (case al_find (hm_ops h) al k of
          Some p \<Rightarrow> r = (if snd p = v then 0 else - EEXIST) \<and> h' = h
        | None \<Rightarrow> r = 1 \<and> hmap h' (al @ [(k, v)]) \<or> r = - ENOMEM \<and> h' = h \<and> \<not> fst (alloc env))) \<and>
    (\<exists>r h' env'. hashmap_replace k v h env = Some (r, h', env') \<and>
       (if al_find (hm_ops h) al k = None then r = 1 \<and> hmap h' (al @ [(k, v)]) \<or> r = - ENOMEM \<and> h' = h \<and> \<not> fst (alloc env)
        else r = 0 \<and> hmap h' (al_update (hm_ops h) al k (\<lambda>_. (k, v))))) \<and>
    (\<exists>h'. hashmap_update k v h = Some (if al_find (hm_ops h) al k = None then - ENOENT else 0, h') \<and>
       hmap h' (al_update (hm_ops h) al k (\<lambda>p. (fst p, v)))) \<and>
    (\<exists>h'. internal_hashmap_remove k h = Some (case al_find (hm_ops h) al k of None \<Rightarrow> 0 | Some p \<Rightarrow> val_of (hm_type h) p, h') \<and>
       hmap h' (al_remove (hm_ops h) al k))"
proof (intro conjI)
  show "internal_hashmap_size (Some h) = length al" using hmap_size [OF assms(1)] by (simp add: internal_hashmap_size_def)
qed (use get_ok [OF assms(1), of k] put_ok [OF assms, of k v env] replace_ok [OF assms, of k v env] update_ok [OF assms(1), of k v]
       remove_ok [OF assms(1), of k] in \<open>blast+\<close>)

text \<open>A new ordered map of pointers, where every allocation succeeds.\<close>

definition example_env :: hash_env where
  "example_env = \<lparr>env_alloc = (\<lambda>_. True), env_allocs = 0, env_random = (\<lambda>n. replicate 16 (of_nat n)), env_draws = 0, env_current = None,
     env_shared = None\<rparr>"

definition example_map :: hashmap where
  "example_map = the (fst (hashmap_base_new (Some trivial_hash_ops) HASHMAP_TYPE_ORDERED example_env))"

lemma example_map_ok: "hmap example_map []" "hm_ops example_map = trivial_hash_ops" "hm_type example_map = HASHMAP_TYPE_ORDERED"
proof -
  obtain h env' where "hashmap_base_new (Some trivial_hash_ops) HASHMAP_TYPE_ORDERED example_env = (Some h, env')"
    by (auto simp: hashmap_base_new_def example_env_def alloc_def random_bytes_def)
  then show "hmap example_map []" "hm_ops example_map = trivial_hash_ops" "hm_type example_map = HASHMAP_TYPE_ORDERED"
    using new_ok [OF trivial_ops.hash_ops_spec_axioms, of HASHMAP_TYPE_ORDERED example_env h env'] by (simp_all add: example_map_def)
qed

lemma example_alloc: "fst (alloc example_env)"
  by (simp add: alloc_def example_env_def)

lemma trivial_find: "al_find trivial_hash_ops [(5, 7)] 5 = Some (5, 7)" "al_find trivial_hash_ops [] k = None"
  "al_find trivial_hash_ops [(5, 7)] 6 = None" "al_remove trivial_hash_ops [(5, 7)] 5 = []"
  by (simp_all add: al_find_def al_remove_def trivial_hash_ops_def trivial_compare_func_def)

theorem hashmap_refines_alist_witness:
  "\<exists>h env' h'. hashmap_put 5 7 example_map example_env = Some (1, h, env') \<and> hmap h [(5, 7)] \<and>
    internal_hashmap_get (Some h) 5 = Some 7 \<and> internal_hashmap_get (Some h) 6 = Some 0 \<and> internal_hashmap_remove 5 h = Some (7, h') \<and> hmap h' []"
proof -
  obtain h env' where h: "hashmap_put 5 7 example_map example_env = Some (1, h, env')" "hmap h [(5, 7)]"
    "hm_ops h = trivial_hash_ops" "hm_type h = HASHMAP_TYPE_ORDERED"
    using hashmap_refines_alist [OF example_map_ok(1), of 5 7 example_env] example_alloc by (auto simp: example_map_ok trivial_find)
  obtain h' where "internal_hashmap_remove 5 h = Some (7, h')" "hmap h' []"
    using hashmap_refines_alist [OF h(2), of 5] by (auto simp: h(3,4) trivial_find val_of_def)
  moreover have "internal_hashmap_get (Some h) 5 = Some 7" "internal_hashmap_get (Some h) 6 = Some 0"
    using hashmap_refines_alist [OF h(2), of 5] hashmap_refines_alist [OF h(2), of 6] by (auto simp: h(3,4) trivial_find val_of_def)
  ultimately show ?thesis using h(1,2) by blast
qed

text \<open>
  C32: a loop over a map visits every entry exactly once, and ends; a map that remembers the order of insertion is visited in that order, which
  Robin Hood swaps, backward shifts and rehashes keep. So a copy of a map has the same entries, in the same order if the map remembers it,
  and the map that is copied keeps its entries.
\<close>

theorem hashmap_iteration_and_copy:
  assumes "hmap h al"
  shows "(\<exists>es h'. foreach_entries h ITERATOR_FIRST [] = Some (es, h') \<and> hmap h' (map kv es) \<and> mset (map kv es) = mset al \<and>
      (hm_type h = HASHMAP_TYPE_ORDERED \<longrightarrow> map kv es = al)) \<and>
    (hm_type h \<noteq> HASHMAP_TYPE_SET \<and> length al \<le> 2 ^ 25 \<and> all_allocs env \<longrightarrow>
      (\<exists>copy h' al' env'. internal_hashmap_copy h env = Some (Some copy, Some h', env') \<and> hmap copy al' \<and> hmap h' al' \<and> mset al' = mset al \<and>
        (hm_type h = HASHMAP_TYPE_ORDERED \<longrightarrow> al' = al) \<and> hm_ops copy = hm_ops h \<and> hm_type copy = hm_type h))"
  using foreach_entries_ok [OF assms] copy_ok [OF assms, of env] by blast

lemma example_put: "\<exists>h env'. hashmap_put 5 7 example_map example_env = Some (1, h, env') \<and> hmap h [(5, 7)] \<and> hm_type h = HASHMAP_TYPE_ORDERED"
  using put_ok [OF example_map_ok(1), of 5 7 example_env] example_alloc by (auto simp: example_map_ok trivial_find)

theorem hashmap_iteration_and_copy_witness:
  "\<exists>h env' es h' copy h2 env2. hashmap_put 5 7 example_map example_env = Some (1, h, env') \<and> foreach_entries h ITERATOR_FIRST [] = Some (es, h') \<and>
    map kv es = [(5, 7)] \<and> internal_hashmap_copy h example_env = Some (Some copy, Some h2, env2) \<and> hmap copy [(5, 7)]"
proof -
  obtain h env' where h: "hashmap_put 5 7 example_map example_env = Some (1, h, env')" "hmap h [(5, 7)]" "hm_type h = HASHMAP_TYPE_ORDERED"
    using example_put by blast
  have "all_allocs example_env" by (simp add: all_allocs_def example_env_def)
  then show ?thesis using hashmap_iteration_and_copy [OF h(2), of example_env] h(1,3) by fastforce
qed

text \<open>
  Reserving space for more than about \<open>2 ^ 31\<close> bytes shifts \<open>1U\<close> by 32, which is undefined, although the sizes pass the checks for
  overflow.
\<close>

lemma reserve_shift_overflow:
  assumes "hm_type h = HASHMAP_TYPE_PLAIN" "hm_n_entries h = 0" "\<not> has_indirect h"
  shows "internal_hashmap_reserve 110000000 h env = None"
proof -
  have "log2u_round_up 2337500000 = 32" by (simp add: log2u_round_up_def log2u.simps)
  then show ?thesis using assms
    by (simp add: internal_hashmap_reserve_def resize_buckets_def Let_def UINT_MAX_def entry_size_def n_direct_buckets_def n_buckets_def)
qed

end
