(* ===== verification/Udev_Hwdb.thy ===== *)
theory Udev_Hwdb
  imports Udev_Hashmap_Map
begin

text \<open>
  \<^verbatim>\<open>libudev-compat/sd-hwdb.c\<close>: the hardware database, a trie of patterns in a file that is mapped into memory. The file is a list of bytes and
  nodes are read at their offsets; a search adds the properties of the patterns that match to an ordered hash table, whose keys and values
  are pointers into the file. The result \<open>None\<close> is an access outside of the file, a failed assertion or a missing buffer.
\<close>

unbundle bit_operations_syntax

section \<open>Matching names\<close>

text \<open>
  \<open>fnmatch\<close> of the C library, without flags and in the C locale: stars, question marks, bracket expressions with ranges and negation, and
  escapes. Character classes are left out. An opening bracket that is not closed stands for itself.
\<close>

abbreviation C_STAR :: byte where "C_STAR \<equiv> 0x2a"
abbreviation C_QUEST :: byte where "C_QUEST \<equiv> 0x3f"
abbreviation C_OPEN :: byte where "C_OPEN \<equiv> 0x5b"
abbreviation C_CLOSE :: byte where "C_CLOSE \<equiv> 0x5d"
abbreviation C_BACK :: byte where "C_BACK \<equiv> 0x5c"
abbreviation C_DASH :: byte where "C_DASH \<equiv> 0x2d"

definition bracket_range :: "byte \<Rightarrow> byte list \<Rightarrow> byte \<times> byte list" where
  "bracket_range a p = (case p of b # c # p' \<Rightarrow> if b = C_DASH \<and> c \<noteq> C_CLOSE then (c, p') else (a, p) | _ \<Rightarrow> (a, p))"

lemma bracket_range_shorter [simp]: "length (snd (bracket_range a p)) \<le> length p"
  by (simp add: bracket_range_def split: list.splits)

function bracket_items :: "bool \<Rightarrow> byte list \<Rightarrow> ((byte \<times> byte) list \<times> byte list) option" where
  "bracket_items first [] = None"
| "bracket_items first (a # p) =
     (if a = C_CLOSE \<and> \<not> first then Some ([], p)
      else map_option (apfst ((#) (a, fst (bracket_range a p)))) (bracket_items False (snd (bracket_range a p))))"
  by pat_completeness auto
termination by (relation "measure (\<lambda>(first, p). length p)") (auto simp: le_imp_less_Suc)

declare bracket_items.simps(2) [simp del]

definition bracket :: "byte list \<Rightarrow> (bool \<times> (byte \<times> byte) list \<times> byte list) option" where
  "bracket p =
     (case p of
        [] \<Rightarrow> None
      | a # p' \<Rightarrow>
          if a = 0x21 \<or> a = 0x5e then map_option (Pair True) (bracket_items True p')
          else map_option (Pair False) (bracket_items True p))"

lemma bracket_items_shorter: "bracket_items first p = Some (items, rest) \<Longrightarrow> length rest < length p"
proof (induction first p arbitrary: items rest rule: bracket_items.induct)
  case (2 first a p)
  show ?case
  proof (cases "a = C_CLOSE \<and> \<not> first")
    case True
    then show ?thesis using 2(2) by (simp add: bracket_items.simps(2))
  next
    case False
    obtain is' where "bracket_items False (snd (bracket_range a p)) = Some (is', rest)"
      using 2(2) False by (auto simp: bracket_items.simps(2) simp del: not_less)
    from 2(1) [OF False this] have "length rest < length p" using bracket_range_shorter [of a p] by (rule less_le_trans)
    then show ?thesis by simp
  qed
qed simp

lemma bracket_shorter:
  assumes "bracket p = Some (neg, items, rest)"
  shows "length rest < length p"
proof (cases p)
  case (Cons a p')
  then consider "bracket_items True p' = Some (items, rest)" | "bracket_items True p = Some (items, rest)"
    using assms by (cases "a = 0x21 \<or> a = 0x5e") (auto simp: bracket_def)
  then show ?thesis by cases (auto simp: Cons dest!: bracket_items_shorter)
qed (use assms in \<open>simp add: bracket_def\<close>)

function fnmatch :: "byte list \<Rightarrow> byte list \<Rightarrow> bool" where
  "fnmatch [] s = (s = [])"
| "fnmatch (c # p) s =
     (if c = C_STAR then fnmatch p s \<or> (case s of [] \<Rightarrow> False | _ # s' \<Rightarrow> fnmatch (c # p) s')
      else if c = C_QUEST then (case s of [] \<Rightarrow> False | _ # s' \<Rightarrow> fnmatch p s')
      else if c = C_OPEN then
        (case bracket p of
           None \<Rightarrow> (case s of [] \<Rightarrow> False | d # s' \<Rightarrow> d = c \<and> fnmatch p s')
         | Some (neg, items, p') \<Rightarrow>
             (case s of [] \<Rightarrow> False | d # s' \<Rightarrow> list_ex (\<lambda>(lo, hi). lo \<le> d \<and> d \<le> hi) items \<noteq> neg \<and> fnmatch p' s'))
      else if c = C_BACK then
        (case p of
           [] \<Rightarrow> False
         | e # p' \<Rightarrow> (case s of [] \<Rightarrow> False | d # s' \<Rightarrow> d = e \<and> fnmatch p' s'))
      else (case s of [] \<Rightarrow> False | d # s' \<Rightarrow> d = c \<and> fnmatch p s'))"
  by pat_completeness auto
termination by (relation "measure (\<lambda>(p, s). length p + length s)") (auto dest: bracket_shorter)

definition is_glob :: "byte \<Rightarrow> bool" where
  "is_glob c \<longleftrightarrow> c = C_STAR \<or> c = C_QUEST \<or> c = C_OPEN"

section \<open>The file\<close>

type_synonym hw_map = "byte list"

definition le64_at :: "hw_map \<Rightarrow> nat \<Rightarrow> nat option" where
  "le64_at m off = (if off + 8 \<le> length m then Some (unat (U8TO64_LE (take 8 (drop off m)))) else None)"

definition HWDB_SIG :: "byte list" where
  "HWDB_SIG = bytes_of ''KSLPHHRH''"

record trie_header_f =
  file_size :: nat
  node_size :: nat
  child_entry_size :: nat
  nodes_root_off :: nat

definition trie_header :: "hw_map \<Rightarrow> trie_header_f option" where
  "trie_header m =
     do { fs \<leftarrow> le64_at m 16; ns \<leftarrow> le64_at m 32; cs \<leftarrow> le64_at m 40; ro \<leftarrow> le64_at m 56;
          Some \<lparr>file_size = fs, node_size = ns, child_entry_size = cs, nodes_root_off = ro\<rparr> }"

record trie_node_f =
  tn_off :: nat
  prefix_off :: nat
  children_count :: nat
  values_count :: nat

definition trie_node_from_off :: "hw_map \<Rightarrow> nat \<Rightarrow> trie_node_f option" where
  "trie_node_from_off m off =
     do { po \<leftarrow> le64_at m off; cc \<leftarrow> at m (off + 8); vc \<leftarrow> le64_at m (off + 16);
          Some \<lparr>tn_off = off, prefix_off = po, children_count = unat cc, values_count = vc\<rparr> }"

definition trie_node_children :: "trie_header_f \<Rightarrow> trie_node_f \<Rightarrow> nat" where
  "trie_node_children head node = tn_off node + node_size head"

definition trie_node_values :: "trie_header_f \<Rightarrow> trie_node_f \<Rightarrow> nat" where
  "trie_node_values head node = tn_off node + node_size head + children_count node * child_entry_size head"

definition trie_string :: "hw_map \<Rightarrow> nat \<Rightarrow> byte list option" where
  "trie_string m off = (let s = drop off m in if 0 \<in> set s then Some (takeWhile (\<lambda>c. c \<noteq> 0) s) else None)"

text \<open>The character and the offset of a child; the elements of an array of C are 16 bytes apart.\<close>

definition child_entry :: "hw_map \<Rightarrow> nat \<Rightarrow> (byte \<times> nat) option" where
  "child_entry m off = do { c \<leftarrow> at m off; co \<leftarrow> le64_at m (off + 8); Some (c, co) }"

definition value_entry :: "hw_map \<Rightarrow> nat \<Rightarrow> (nat \<times> nat) option" where
  "value_entry m off = do { k \<leftarrow> le64_at m off; v \<leftarrow> le64_at m (off + 8); Some (k, v) }"

definition trie_children_cmp_f :: "byte \<Rightarrow> byte \<Rightarrow> int" where
  "trie_children_cmp_f c1 c2 = uint c1 - uint c2"

text \<open>\<open>bsearch\<close> of the C library, between \<open>lo\<close> and \<open>hi\<close>.\<close>

function child_bsearch :: "hw_map \<Rightarrow> nat \<Rightarrow> nat \<Rightarrow> byte \<Rightarrow> nat \<Rightarrow> nat \<Rightarrow> nat option option" where
  "child_bsearch m base width c lo hi =
     (if lo < hi then
        do { (d, off) \<leftarrow> child_entry m (base + (lo + hi) div 2 * width);
             if trie_children_cmp_f c d < 0 then child_bsearch m base width c lo ((lo + hi) div 2)
             else if trie_children_cmp_f c d > 0 then child_bsearch m base width c ((lo + hi) div 2 + 1) hi
             else Some (Some off) }
      else Some None)"
  by pat_completeness auto
termination by (relation "measure (\<lambda>(m, base, width, c, lo, hi). hi - lo)") auto

declare child_bsearch.simps [simp del]

definition node_lookup_f :: "hw_map \<Rightarrow> trie_header_f \<Rightarrow> trie_node_f \<Rightarrow> byte \<Rightarrow> nat option option" where
  "node_lookup_f m head node c = child_bsearch m (trie_node_children head node) (child_entry_size head) c 0 (children_count node)"

section \<open>The database\<close>

record sd_hwdb =
  hw_map :: hw_map
  hw_base :: nat                      \<comment> \<open>the address at which the file is mapped\<close>
  hw_modalias :: "byte list option"
  hw_properties :: "hashmap option"
  hw_iterator :: iterator
  hw_modified :: bool

type_synonym hw_state = "sd_hwdb \<times> hash_env"

text \<open>What a pointer into the file points to.\<close>

definition hw_mem :: "sd_hwdb \<Rightarrow> ptr \<Rightarrow> cstr" where
  "hw_mem hwdb p =
     (case trie_string (hw_map hwdb) (unat p - hw_base hwdb) of None \<Rightarrow> [] | Some s \<Rightarrow> map (\<lambda>b. char_of (unat b)) s)"

definition hw_ptr :: "sd_hwdb \<Rightarrow> nat \<Rightarrow> ptr" where
  "hw_ptr hwdb off = of_nat (hw_base hwdb + off)"

definition hwdb_add_property :: "nat \<Rightarrow> nat \<Rightarrow> hw_state \<Rightarrow> (rc \<times> hw_state) option" where
  "hwdb_add_property key val st =
     (case st of (hwdb, env) \<Rightarrow>
        do { s \<leftarrow> trie_string (hw_map hwdb) key;
             if first_byte s \<noteq> 0x20 then Some (0, st)
             else
               (case hashmap_base_ensure_allocated (hw_properties hwdb) (Some (string_hash_ops (hw_mem hwdb))) HASHMAP_TYPE_ORDERED env of
                  (r, props, env) \<Rightarrow>
                    if r < 0 then Some (r, hwdb\<lparr>hw_properties := props\<rparr>, env)
                    else
                      do { h \<leftarrow> props;
                           (r, h, env) \<leftarrow> hashmap_replace (hw_ptr hwdb (key + 1)) (hw_ptr hwdb val) h env;
                           if r < 0 then Some (r, hwdb\<lparr>hw_properties := Some h\<rparr>, env)
                           else Some (0, hwdb\<lparr>hw_properties := Some h, hw_modified := True\<rparr>, env) }) })"

text \<open>The values of a node, one after the other.\<close>

fun add_values :: "nat \<Rightarrow> nat \<Rightarrow> hw_state \<Rightarrow> (rc \<times> hw_state) option" where
  "add_values 0 off st = Some (0, st)"
| "add_values (Suc n) off st =
     do { (k, v) \<leftarrow> value_entry (hw_map (fst st)) off;
          (r, st) \<leftarrow> hwdb_add_property k v st;
          if r < 0 then Some (r, st) else add_values n (off + 16) st }"

subsection \<open>The buffer for a pattern\<close>

abbreviation LINE_MAX :: nat where "LINE_MAX \<equiv> 2048"

definition linebuf_get :: "byte list \<Rightarrow> byte list option" where
  "linebuf_get buf = (if length buf + 1 \<ge> LINE_MAX then None else Some buf)"

definition linebuf_add :: "byte list \<Rightarrow> byte list \<Rightarrow> byte list" where
  "linebuf_add buf s = (if length buf + length s \<ge> LINE_MAX then buf else buf @ s)"

definition linebuf_add_char :: "byte list \<Rightarrow> byte \<Rightarrow> byte list" where
  "linebuf_add_char buf c = (if length buf + 1 \<ge> LINE_MAX then buf else buf @ [c])"

definition linebuf_rem :: "byte list \<Rightarrow> nat \<Rightarrow> byte list option" where
  "linebuf_rem buf n = (if length buf < n then None else Some (take (length buf - n) buf))"

definition linebuf_rem_char :: "byte list \<Rightarrow> byte list option" where
  "linebuf_rem_char buf = linebuf_rem buf 1"

subsection \<open>The search\<close>

text \<open>
  Matching all patterns below a node. The fuel bounds the depth of the recursion, which in a file without cycles is at most that of the
  trie; \<open>LINE_MAX\<close> is enough for patterns that fit the buffer, since each level adds a character.
\<close>

fun trie_fnmatch_f :: "nat \<Rightarrow> trie_header_f \<Rightarrow> nat \<Rightarrow> nat \<Rightarrow> byte list \<Rightarrow> byte list \<Rightarrow> hw_state \<Rightarrow> (rc \<times> byte list \<times> hw_state) option"
  and fnmatch_children :: "nat \<Rightarrow> trie_header_f \<Rightarrow> nat \<Rightarrow> nat \<Rightarrow> byte list \<Rightarrow> byte list \<Rightarrow> hw_state \<Rightarrow> (rc \<times> byte list \<times> hw_state) option" where
  "trie_fnmatch_f 0 head off p buf search st = None"
| "trie_fnmatch_f (Suc fuel) head off p buf search st =
     do { node \<leftarrow> trie_node_from_off (hw_map (fst st)) off;
          prefix \<leftarrow> trie_string (hw_map (fst st)) (prefix_off node);
          if length prefix < p then None
          else
            do { (err, buf, st) \<leftarrow>
                   fnmatch_children fuel head (children_count node) (trie_node_children head node) (linebuf_add buf (drop p prefix)) search st;
                 if err < 0 then Some (err, buf, st)
                 else
                   do { (err, st) \<leftarrow>
                          (if values_count node \<noteq> 0 then
                             do { pat \<leftarrow> linebuf_get buf;
                                  if fnmatch pat search then add_values (values_count node) (trie_node_values head node) st else Some (0, st) }
                           else Some (0, st));
                        if err < 0 then Some (err, buf, st)
                        else do { buf \<leftarrow> linebuf_rem buf (length (drop p prefix)); Some (0, buf, st) } } } }"
| "fnmatch_children fuel head 0 off buf search st = Some (0, buf, st)"
| "fnmatch_children fuel head (Suc n) off buf search st =
     do { (c, child_off) \<leftarrow> child_entry (hw_map (fst st)) off;
          (err, buf, st) \<leftarrow> trie_fnmatch_f fuel head child_off 0 (linebuf_add_char buf c) search st;
          if err < 0 then Some (err, buf, st)
          else do { buf \<leftarrow> linebuf_rem_char buf; fnmatch_children fuel head n (off + 16) buf search st } }"

text \<open>Comparing the prefix of a node with what is left of the name: a pattern starts, the name differs, or the prefix is at its end.\<close>

datatype prefix_result = PrefixGlob nat | PrefixDiffers | PrefixEnd nat

fun match_prefix :: "byte list \<Rightarrow> byte list \<Rightarrow> nat \<Rightarrow> prefix_result" where
  "match_prefix [] search p = PrefixEnd p"
| "match_prefix (c # pre) search p =
     (if is_glob c then PrefixGlob p
      else if c \<noteq> first_byte search then PrefixDiffers
      else match_prefix pre (tl search) (Suc p))"

text \<open>Matching below the child with a wildcard, if there is one.\<close>

definition search_wildcard :: "trie_header_f \<Rightarrow> trie_node_f \<Rightarrow> byte \<Rightarrow> byte list \<Rightarrow> byte list \<Rightarrow> hw_state \<Rightarrow> (rc \<times> byte list \<times> hw_state) option" where
  "search_wildcard head node c search buf st =
     do { child \<leftarrow> node_lookup_f (hw_map (fst st)) head node c;
          case child of
            None \<Rightarrow> Some (0, buf, st)
          | Some off \<Rightarrow>
              do { (err, buf, st) \<leftarrow> trie_fnmatch_f LINE_MAX head off 0 (linebuf_add_char buf c) search st;
                   if err < 0 then Some (err, buf, st) else do { buf \<leftarrow> linebuf_rem_char buf; Some (0, buf, st) } } }"

text \<open>The loop from node to node; \<open>search\<close> is what is left of the name.\<close>

definition search_wildcards :: "trie_header_f \<Rightarrow> trie_node_f \<Rightarrow> byte list \<Rightarrow> byte list \<Rightarrow> hw_state \<Rightarrow> (rc \<times> byte list \<times> hw_state) option" where
  "search_wildcards head node search buf st =
     do { (err, buf, st) \<leftarrow> search_wildcard head node C_STAR search buf st;
          if err < 0 then Some (err, buf, st)
          else
            do { (err, buf, st) \<leftarrow> search_wildcard head node C_QUEST search buf st;
                 if err < 0 then Some (err, buf, st) else search_wildcard head node C_OPEN search buf st } }"

definition node_prefix :: "trie_node_f \<Rightarrow> byte list \<Rightarrow> hw_state \<Rightarrow> prefix_result option" where
  "node_prefix node search st =
     (if prefix_off node = 0 then Some (PrefixEnd 0)
      else do { prefix \<leftarrow> trie_string (hw_map (fst st)) (prefix_off node); Some (match_prefix prefix search 0) })"

partial_function (option) search_loop :: "trie_header_f \<Rightarrow> nat \<Rightarrow> byte list \<Rightarrow> byte list \<Rightarrow> hw_state \<Rightarrow> (rc \<times> hw_state) option" where
  "search_loop head off search buf st =
     do { node \<leftarrow> trie_node_from_off (hw_map (fst st)) off;
          pr \<leftarrow> node_prefix node search st;
          case pr of
            PrefixGlob p \<Rightarrow> do { (err, buf, st) \<leftarrow> trie_fnmatch_f LINE_MAX head off p buf (drop p search) st; Some (err, st) }
          | PrefixDiffers \<Rightarrow> Some (0, st)
          | PrefixEnd p \<Rightarrow>
              do { (err, buf, st) \<leftarrow> search_wildcards head node (drop p search) buf st;
                   if err < 0 then Some (err, st)
                   else if drop p search = [] then add_values (values_count node) (trie_node_values head node) st
                   else
                     do { child \<leftarrow> node_lookup_f (hw_map (fst st)) head node (first_byte (drop p search));
                          case child of None \<Rightarrow> Some (0, st) | Some off \<Rightarrow> search_loop head off (tl (drop p search)) buf st } } }"

definition trie_search_f :: "byte list \<Rightarrow> hw_state \<Rightarrow> (rc \<times> hw_state) option" where
  "trie_search_f search st = do { head \<leftarrow> trie_header (hw_map (fst st)); search_loop head (nodes_root_off head) search [] st }"

section \<open>The interface\<close>

text \<open>
  \<open>opened\<close> tells for each place of the database what \<open>fopen\<close> gives: an errno value, or the size that \<open>fstat\<close> reports and the bytes; \<open>errno\<close> is
  the value that is left from before, and \<open>fstat_errno\<close> and \<open>mmap_errno\<close> are 0 if those calls succeed.
\<close>

definition hwdb_bin_paths :: "cstr list" where
  "hwdb_bin_paths = [''/etc/systemd/hwdb/hwdb.bin'', ''/etc/udev/hwdb.bin'', ''/usr/lib/systemd/hwdb/hwdb.bin'', ''/lib/systemd/hwdb.bin'']"

fun open_bin :: "(cstr \<Rightarrow> rc + hw_map) \<Rightarrow> cstr list \<Rightarrow> rc + hw_map" where
  "open_bin opened [] = Inl (- ENOENT)"
| "open_bin opened (p # ps) =
     (case opened p of
        Inr m \<Rightarrow> Inr m
      | Inl e \<Rightarrow> if e = ENOENT then open_bin opened ps else Inl (- e))"

definition sd_hwdb_new :: "(cstr \<Rightarrow> rc + hw_map) \<Rightarrow> rc \<Rightarrow> rc \<Rightarrow> rc \<Rightarrow> nat \<Rightarrow> bool \<Rightarrow> (rc \<times> sd_hwdb option) option" where
  "sd_hwdb_new opened errno fstat_errno mmap_errno base mem =
     (if \<not> mem then Some (- ENOMEM, None)
      else
        (case open_bin opened hwdb_bin_paths of
           Inl rc \<Rightarrow> Some (rc, None)
         | Inr m \<Rightarrow>
             if fstat_errno \<noteq> 0 then Some (fstat_errno, None)
             else if length m < 80 then Some (errno, None)
             else if mmap_errno \<noteq> 0 then Some (mmap_errno, None)
             else
               do { head \<leftarrow> trie_header m;
                    if take 8 m \<noteq> HWDB_SIG \<or> length m \<noteq> file_size head then Some (- EINVAL, None)
                    else Some (0, Some \<lparr>hw_map = m, hw_base = base, hw_modalias = None, hw_properties = None, hw_iterator = \<lparr>it_idx = 0, it_next_key = 0\<rparr>,
                                        hw_modified = False\<rparr>) }))"

text \<open>Whether the database should be loaded again; \<open>mtime\<close> gives the times of the files that exist.\<close>

definition hwdb_validate :: "nat option \<Rightarrow> (cstr \<Rightarrow> nat option) \<Rightarrow> bool" where
  "hwdb_validate loaded mtime =
     (case loaded of
        None \<Rightarrow> False
      | Some t \<Rightarrow> (case List.find (\<lambda>p. mtime p \<noteq> None) hwdb_bin_paths of None \<Rightarrow> True | Some p \<Rightarrow> mtime p \<noteq> Some t))"

definition properties_prepare :: "byte list \<Rightarrow> hw_state \<Rightarrow> (rc \<times> hw_state) option" where
  "properties_prepare modalias st =
     (case st of (hwdb, env) \<Rightarrow>
        if hw_modalias hwdb = Some modalias then Some (0, st)
        else
          (case alloc env of (ok, env) \<Rightarrow>
             if \<not> ok then Some (- ENOMEM, hwdb, env)
             else
               do { (r, hwdb, env) \<leftarrow>
                      trie_search_f modalias
                        (hwdb\<lparr>hw_properties := map_option internal_hashmap_clear (hw_properties hwdb), hw_modified := True\<rparr>, env);
                    if r < 0 then Some (r, hwdb, env) else Some (0, hwdb\<lparr>hw_modalias := Some modalias\<rparr>, env) }))"

definition sd_hwdb_get :: "byte list \<Rightarrow> ptr \<Rightarrow> hw_state \<Rightarrow> (rc \<times> ptr \<times> hw_state) option" where
  "sd_hwdb_get modalias key st =
     do { (r, st) \<leftarrow> properties_prepare modalias st;
          if r < 0 then Some (r, 0, st)
          else
            do { val \<leftarrow> internal_hashmap_get (hw_properties (fst st)) key;
                 if val = 0 then Some (- ENOENT, 0, st) else Some (0, val, st) } }"

definition sd_hwdb_seek :: "byte list \<Rightarrow> hw_state \<Rightarrow> (rc \<times> hw_state) option" where
  "sd_hwdb_seek modalias st =
     do { (r, st) \<leftarrow> properties_prepare modalias st;
          if r < 0 then Some (r, st) else Some (0, apfst (\<lambda>hwdb. hwdb\<lparr>hw_modified := False, hw_iterator := ITERATOR_FIRST\<rparr>) st) }"

definition sd_hwdb_enumerate :: "sd_hwdb \<Rightarrow> (rc \<times> (ptr \<times> ptr) option \<times> sd_hwdb) option" where
  "sd_hwdb_enumerate hwdb =
     (if hw_modified hwdb then Some (- EAGAIN, None, hwdb)
      else
        (case hw_properties hwdb of
           None \<Rightarrow> Some (0, None, hwdb)
         | Some h \<Rightarrow>
             do { (kv, i, h) \<leftarrow> internal_hashmap_iterate h (hw_iterator hwdb);
                  let hwdb = hwdb\<lparr>hw_properties := Some h, hw_iterator := i\<rparr>
                  in case kv of None \<Rightarrow> Some (0, None, hwdb) | Some (k, v) \<Rightarrow> if k = 0 then Some (0, None, hwdb) else Some (1, Some (k, v), hwdb) }))"

section \<open>Adding properties\<close>

fun add_list :: "(nat \<times> nat) list \<Rightarrow> hw_state \<Rightarrow> (rc \<times> hw_state) option" where
  "add_list [] st = Some (0, st)"
| "add_list ((k, v) # vs) st = do { (r, st) \<leftarrow> hwdb_add_property k v st; if r < 0 then Some (r, st) else add_list vs st }"

definition same_file :: "hw_state \<Rightarrow> hw_state \<Rightarrow> bool" where
  "same_file st st' \<longleftrightarrow> hw_map (fst st') = hw_map (fst st) \<and> hw_base (fst st') = hw_base (fst st)"

lemma add_property_file: "hwdb_add_property k v st = Some (r, st') \<Longrightarrow> same_file st st' \<and> r \<le> 0"
  by (auto simp: hwdb_add_property_def same_file_def split: if_splits prod.splits Option.bind_splits)

lemma add_list_cases:
  assumes "add_list ((k, v) # vs) st = Some (r, st')"
  obtains (stop) "r < 0" "hwdb_add_property k v st = Some (r, st')"
  | (go) r1 st1 where "hwdb_add_property k v st = Some (r1, st1)" "\<not> r1 < 0" "add_list vs st1 = Some (r, st')"
proof (cases "hwdb_add_property k v st")
  case None
  then show thesis using assms by simp
next
  case (Some p)
  obtain r1 st1 where p: "p = (r1, st1)" by (cases p)
  show thesis
  proof (cases "r1 < 0")
    case True
    then show thesis using stop assms Some p by simp
  next
    case False
    then show thesis using go [of r1 st1] assms Some p by simp
  qed
qed

lemma add_list_file: "add_list vs st = Some (r, st') \<Longrightarrow> same_file st st' \<and> r \<le> 0"
proof (induction vs arbitrary: st)
  case (Cons kv vs)
  obtain k v where kv: "kv = (k, v)" by (cases kv)
  from Cons.prems [unfolded kv] show ?case
  proof (cases rule: add_list_cases)
    case stop
    then show ?thesis using add_property_file by blast
  next
    case (go r1 st1)
    then show ?thesis using add_property_file [OF go(1)] Cons.IH [OF go(3)] by (simp add: same_file_def)
  qed
qed (simp add: same_file_def)

lemma add_list_append: "add_list (xs @ ys) st = Some (0, st') \<Longrightarrow> \<exists>st1. add_list xs st = Some (0, st1) \<and> add_list ys st1 = Some (0, st')"
proof (induction xs arbitrary: st)
  case (Cons kv xs)
  obtain k v where kv: "kv = (k, v)" by (cases kv)
  have "add_list ((k, v) # (xs @ ys)) st = Some (0, st')" using Cons.prems kv by simp
  then show ?case
  proof (cases rule: add_list_cases)
    case (go r1 st1)
    obtain st2 where "add_list xs st1 = Some (0, st2)" "add_list ys st2 = Some (0, st')" using Cons.IH [OF go(3)] by blast
    then show ?thesis using go(1,2) by (simp add: kv)
  qed simp
qed simp

lemma add_values_list:
  assumes "\<And>i. i < length vs \<Longrightarrow> value_entry m (off + i * 16) = Some (vs ! i)" "hw_map (fst st) = m"
  shows "add_values (length vs) off st = add_list vs st"
  using assms
proof (induction vs arbitrary: off st)
  case (Cons kv vs)
  obtain k v where kv: "kv = (k, v)" by (cases kv)
  have e: "value_entry m off = Some (k, v)" using Cons.prems(1) [of 0] by (simp add: kv)
  have rest: "value_entry m (off + 16 + i * 16) = Some (vs ! i)" if "i < length vs" for i
    using Cons.prems(1) [of "Suc i"] that by (simp add: ac_simps)
  have "add_values (length vs) (off + 16) st' = add_list vs st'" if "hwdb_add_property k v st = Some (r, st')" for r st'
    using Cons.IH [OF rest] add_property_file [OF that] Cons.prems(2) by (simp add: same_file_def)
  then show ?case using e Cons.prems(2) by (auto simp: kv split: Option.bind_splits)
qed simp

section \<open>Tries\<close>

datatype trie = Trie (trie_prefix: "byte list") (trie_children: "(byte \<times> trie) list") (trie_values: "(nat \<times> nat) list")

text \<open>The patterns below a node with their values, children first.\<close>

primrec patterns :: "trie \<Rightarrow> (byte list \<times> (nat \<times> nat) list) list" where
  "patterns (Trie pre ch vs) =
     concat (map (\<lambda>(c, ps). map (apfst (\<lambda>q. pre @ c # q)) ps) (map (map_prod id patterns) ch)) @ (if vs = [] then [] else [(pre, vs)])"

text \<open>No path is longer than \<open>n\<close>; names have no backslash; the characters of the children are in order.\<close>

primrec fits :: "trie \<Rightarrow> nat \<Rightarrow> bool" where
  "fits (Trie pre ch vs) n \<longleftrightarrow>
     length pre \<le> n \<and> list_all (\<lambda>(c, f). length pre < n \<and> f (n - length pre - 1)) (map (map_prod id fits) ch)"

primrec plain_trie :: "trie \<Rightarrow> bool" where
  "plain_trie (Trie pre ch vs) \<longleftrightarrow>
     C_BACK \<notin> set pre \<and> list_all (\<lambda>(c, b). c \<noteq> C_BACK \<and> b) (map (map_prod id plain_trie) ch) \<and> sorted_wrt (<) (map fst ch)"

text \<open>The trie that the file has at an offset.\<close>

inductive stored :: "hw_map \<Rightarrow> trie_header_f \<Rightarrow> nat \<Rightarrow> trie \<Rightarrow> bool" for m head where
  stored: "stored m head off (Trie pre ch vs)"
  if "trie_node_from_off m off = Some node" "prefix_off node \<noteq> 0" "trie_string m (prefix_off node) = Some pre"
    "children_count node = length ch" "values_count node = length vs"
    "\<And>i. i < length ch \<Longrightarrow>
      \<exists>o'. child_entry m (trie_node_children head node + i * 16) = Some (fst (ch ! i), o') \<and> stored m head o' (snd (ch ! i))"
    "\<And>i. i < length vs \<Longrightarrow> value_entry m (trie_node_values head node + i * 16) = Some (vs ! i)"

inductive_cases storedE: "stored m head off (Trie pre ch vs)"

lemma patterns_Trie:
  "patterns (Trie pre ch vs) =
     concat (map (\<lambda>(c, t). map (apfst (\<lambda>q. pre @ c # q)) (patterns t)) ch) @ (if vs = [] then [] else [(pre, vs)])"
  by (simp add: o_def case_prod_unfold)

lemma fits_Trie: "fits (Trie pre ch vs) n \<longleftrightarrow> length pre \<le> n \<and> (\<forall>(c, t) \<in> set ch. length pre < n \<and> fits t (n - length pre - 1))"
  by (auto simp: list_all_iff)

lemma plain_Trie:
  "plain_trie (Trie pre ch vs) \<longleftrightarrow> C_BACK \<notin> set pre \<and> (\<forall>(c, t) \<in> set ch. c \<noteq> C_BACK \<and> plain_trie t) \<and> sorted_wrt (<) (map fst ch)"
  by (auto simp: list_all_iff)

declare patterns.simps [simp del] fits.simps [simp del] plain_trie.simps [simp del]

text \<open>What is left of a trie when the first characters of its prefix are taken away.\<close>

definition cut :: "nat \<Rightarrow> trie \<Rightarrow> trie" where
  "cut p t = Trie (drop p (trie_prefix t)) (trie_children t) (trie_values t)"

definition matching :: "byte list \<Rightarrow> byte list \<Rightarrow> (byte list \<times> (nat \<times> nat) list) list \<Rightarrow> (nat \<times> nat) list" where
  "matching buf search ps = concat (map snd (filter (\<lambda>(q, _). fnmatch (buf @ q) search) ps))"

lemma matching_append [simp]: "matching buf search (ps @ qs) = matching buf search ps @ matching buf search qs"
  by (simp add: matching_def)

lemma matching_prefix: "matching buf search (map (apfst (\<lambda>q. pre @ c # q)) ps) = matching ((buf @ pre) @ [c]) search ps"
  by (induction ps) (auto simp: matching_def)

lemma linebuf_simps:
  "length buf + length s \<le> 2046 \<Longrightarrow> linebuf_add buf s = buf @ s" "length buf < 2046 \<Longrightarrow> linebuf_add_char buf c = buf @ [c]"
  "length buf \<le> 2046 \<Longrightarrow> linebuf_get buf = Some buf" "linebuf_rem (buf @ s) (length s) = Some buf" "linebuf_rem_char (buf @ [c]) = Some buf"
  by (simp_all add: linebuf_add_def linebuf_add_char_def linebuf_get_def linebuf_rem_def linebuf_rem_char_def)

text \<open>Matching below a node adds the values of the patterns that match.\<close>

lemma trie_fnmatch_ok:
  assumes "stored m head off t" "p \<le> length (trie_prefix t)" "fits (cut p t) n" "length buf + n \<le> 2046" "n < fuel" "hw_map (fst st) = m"
    "add_list (matching buf search (patterns (cut p t))) st = Some (0, st')"
  shows "trie_fnmatch_f fuel head off p buf search st = Some (0, buf, st')"
  using assms
proof (induction t arbitrary: off p n buf fuel st st' rule: trie.induct)
  case (Trie pre ch vs)
  obtain f where f: "fuel = Suc f" using Trie.prems(5) by (cases fuel) auto
  obtain node where node: "trie_node_from_off m off = Some node" "trie_string m (prefix_off node) = Some pre"
    "children_count node = length ch" "values_count node = length vs"
    "\<And>i. i < length ch \<Longrightarrow>
      \<exists>o'. child_entry m (trie_node_children head node + i * 16) = Some (fst (ch ! i), o') \<and> stored m head o' (snd (ch ! i))"
    "\<And>i. i < length vs \<Longrightarrow> value_entry m (trie_node_values head node + i * 16) = Some (vs ! i)"
    using Trie.prems(1) by (rule storedE) blast
  let ?d = "drop p pre" and ?k = "n - length (drop p pre) - 1"
  have fit: "length ?d \<le> n" "\<And>c t. (c, t) \<in> set ch \<Longrightarrow> length ?d < n \<and> fits t ?k"
    using Trie.prems(3) by (auto simp: cut_def fits_Trie)
  have buf: "linebuf_add buf ?d = buf @ ?d" using fit(1) Trie.prems(4) by (simp add: linebuf_simps)
  define pats where "pats cs = concat (map (\<lambda>(c, t). map (apfst (\<lambda>q. ?d @ c # q)) (patterns t)) cs)" for cs
  have "add_list (matching buf search (pats ch) @ matching buf search (if vs = [] then [] else [(?d, vs)])) st = Some (0, st')"
    using Trie.prems(7) by (simp add: cut_def patterns_Trie pats_def)
  then obtain st1 where st1: "add_list (matching buf search (pats ch)) st = Some (0, st1)"
    "add_list (matching buf search (if vs = [] then [] else [(?d, vs)])) st1 = Some (0, st')" using add_list_append by blast
  have children: "fnmatch_children f head (length cs) (trie_node_children head node + j * 16) (buf @ ?d) search s = Some (0, buf @ ?d, s')"
    if "drop j ch = cs" "hw_map (fst s) = m" "add_list (matching buf search (pats cs)) s = Some (0, s')" for cs j s s'
    using that
  proof (induction cs arbitrary: j s)
    case (Cons ct cs)
    obtain c t where ct: "ct = (c, t)" by (cases ct)
    have j: "j < length ch" "ch ! j = (c, t)" "drop (Suc j) ch = cs"
      using Cons.prems(1) ct by (metis drop_eq_Nil list.discI not_le, metis nth_via_drop, metis drop_Suc list.sel(3) tl_drop)
    obtain o' where o': "child_entry m (trie_node_children head node + j * 16) = Some (c, o')" "stored m head o' t"
      using node(5) [OF j(1)] j(2) by auto
    have mem: "(c, t) \<in> set ch" using j(1,2) nth_mem by metis
    have "matching buf search (pats (ct # cs)) = matching ((buf @ ?d) @ [c]) search (patterns t) @ matching buf search (pats cs)"
      by (simp add: pats_def ct matching_prefix del: append_assoc)
    then obtain s1 where s1: "add_list (matching ((buf @ ?d) @ [c]) search (patterns t)) s = Some (0, s1)"
      "add_list (matching buf search (pats cs)) s1 = Some (0, s')"
      using Cons.prems(3) add_list_append by fastforce
    have m1: "hw_map (fst s1) = m" using add_list_file [OF s1(1)] Cons.prems(2) by (simp add: same_file_def)
    have cut0: "cut 0 t = t" by (simp add: cut_def)
    have k: "length (buf @ ?d @ [c]) + ?k \<le> 2046" "?k < f" "length (buf @ ?d) < 2046"
      using fit(2) [OF mem] Trie.prems(4,5) f by auto
    have "trie_fnmatch_f f head o' 0 ((buf @ ?d) @ [c]) search s = Some (0, (buf @ ?d) @ [c], s1)"
      using Trie.IH [of "(c, t)" t o' 0 ?k "(buf @ ?d) @ [c]" f s s1] mem o'(2) fit(2) [OF mem] k Cons.prems(2) s1(1) cut0 by simp
    moreover have "fnmatch_children f head (length cs) (trie_node_children head node + Suc j * 16) (buf @ ?d) search s1 = Some (0, buf @ ?d, s')"
      by (rule Cons.IH [OF j(3) m1 s1(2)])
    ultimately show ?case
      using o'(1) Cons.prems(2) k(3) linebuf_simps(5) [of "buf @ ?d" c] by (simp add: linebuf_simps(2) ac_simps del: append_assoc)
  qed (simp add: pats_def matching_def)
  have ch: "fnmatch_children f head (length ch) (trie_node_children head node) (buf @ ?d) search st = Some (0, buf @ ?d, st1)"
    using children [of 0 ch st st1] Trie.prems(6) st1(1) by simp
  have m1: "hw_map (fst st1) = m" using add_list_file [OF st1(1)] Trie.prems(6) by (simp add: same_file_def)
  have vals: "add_values (length vs) (trie_node_values head node) st1 = add_list vs st1" by (rule add_values_list [OF node(6) m1])
  have get: "linebuf_get (buf @ ?d) = Some (buf @ ?d)" using fit(1) Trie.prems(4) by (simp add: linebuf_simps)
  have own: "(if length vs \<noteq> 0 then
               do { pat \<leftarrow> linebuf_get (buf @ ?d);
                    if fnmatch pat search then add_values (length vs) (trie_node_values head node) st1 else Some (0, st1) }
              else Some (0, st1)) = Some (0, st')"
    using st1(2) vals get by (auto simp: matching_def split: if_splits)
  show ?case
    using Trie.prems(2,6) node(1-4) ch own linebuf_simps(4) [of buf ?d] unfolding f
    by (cases "vs = []"; cases "fnmatch (buf @ ?d) search") (simp_all add: buf get)
qed

section \<open>Looking up a child\<close>

lemma child_bsearch_ok:
  assumes "\<And>i. i < length es \<Longrightarrow> child_entry m (base + i * w) = Some (es ! i)" "sorted_wrt (<) (map fst es)" "hi \<le> length es"
    "\<And>i. i < length es \<Longrightarrow> fst (es ! i) = c \<Longrightarrow> lo \<le> i \<and> i < hi"
  shows "child_bsearch m base w c lo hi = Some (map_of es c)"
  using assms(3,4)
proof (induction "hi - lo" arbitrary: lo hi rule: less_induct)
  case less
  show ?case
  proof (cases "lo < hi")
    case False
    have "c \<notin> fst ` set es"
    proof
      assume "c \<in> fst ` set es"
      then obtain i where "i < length es" "fst (es ! i) = c" by (auto simp: in_set_conv_nth)
      then show False using less.prems(2) False by fastforce
    qed
    then have "map_of es c = None" by (simp add: map_of_eq_None_iff)
    then show ?thesis using False by (simp add: child_bsearch.simps)
  next
    case True
    let ?mid = "(lo + hi) div 2"
    have mid: "lo \<le> ?mid" "?mid < hi" "?mid < length es" using True less.prems(1) by auto
    obtain d off where d: "es ! ?mid = (d, off)" by (cases "es ! ?mid")
    have order: "fst (es ! i) < fst (es ! j)" if "i < j" "j < length es" for i j
      using assms(2) that by (auto simp: sorted_wrt_iff_nth_less)
    have cmp: "trie_children_cmp_f c d < 0 \<longleftrightarrow> c < d" "trie_children_cmp_f c d > 0 \<longleftrightarrow> d < c"
      by (simp_all add: trie_children_cmp_f_def word_less_def)
    consider "c < d" | "d < c" | "c = d" by fastforce
    then show ?thesis
    proof cases
      case 1
      have "lo \<le> i \<and> i < ?mid" if "i < length es" "fst (es ! i) = c" for i
      proof -
        have "\<not> ?mid \<le> i" using order [of ?mid i] that 1 d by (cases "i = ?mid") auto
        then show ?thesis using less.prems(2) [OF that] by simp
      qed
      then have "child_bsearch m base w c lo ?mid = Some (map_of es c)" using less.hyps [of ?mid lo] mid by simp
      then show ?thesis using True 1 cmp d assms(1) [OF mid(3)] by (subst child_bsearch.simps) simp
    next
      case 2
      have "?mid + 1 \<le> i \<and> i < hi" if "i < length es" "fst (es ! i) = c" for i
      proof -
        have "\<not> i \<le> ?mid" using order [of i ?mid] that 2 d mid(3) by (cases "i = ?mid") auto
        then show ?thesis using less.prems(2) [OF that] by simp
      qed
      then have "child_bsearch m base w c (?mid + 1) hi = Some (map_of es c)" using less.hyps [of hi "?mid + 1"] mid less.prems(1) by simp
      then show ?thesis using True 2 cmp d assms(1) [OF mid(3)] by (subst child_bsearch.simps) simp
    next
      case 3
      have "distinct (map fst es)" using assms(2) by (simp add: strict_sorted_iff)
      then have "map_of es c = Some off" using d mid(3) 3 by (metis map_of_eq_Some_iff nth_mem)
      moreover have "\<not> trie_children_cmp_f c d < 0" "\<not> trie_children_cmp_f c d > 0" using 3 by (simp_all add: trie_children_cmp_f_def)
      ultimately show ?thesis using True d assms(1) [OF mid(3)] by (subst child_bsearch.simps) simp
    qed
  qed
qed

lemma lookup_ok:
  assumes ch: "\<And>i. i < length ch \<Longrightarrow>
      \<exists>o'. child_entry m (trie_node_children head node + i * 16) = Some (fst (ch ! i), o') \<and> stored m head o' (snd (ch ! i))"
    and n: "children_count node = length ch" and size: "child_entry_size head = 16" and ord: "sorted_wrt (<) (map fst ch)"
  shows "case map_of ch c of None \<Rightarrow> node_lookup_f m head node c = Some None
    | Some t \<Rightarrow> (\<exists>o'. node_lookup_f m head node c = Some (Some o') \<and> stored m head o' t)"
proof -
  define es where "es = map (\<lambda>i. the (child_entry m (trie_node_children head node + i * 16))) [0..<length ch]"
  have es: "length es = length ch" "\<And>i. i < length ch \<Longrightarrow> child_entry m (trie_node_children head node + i * 16) = Some (es ! i)"
    "\<And>i. i < length ch \<Longrightarrow> fst (es ! i) = fst (ch ! i) \<and> stored m head (snd (es ! i)) (snd (ch ! i))"
    using ch by (auto simp: es_def) fastforce+
  have keys: "map fst es = map fst ch" using es(1,3) by (intro nth_equalityI) auto
  have look: "node_lookup_f m head node c = Some (map_of es c)"
    unfolding node_lookup_f_def size n
    using es ord keys by (intro child_bsearch_ok) auto
  show ?thesis
  proof (cases "map_of ch c")
    case None
    then have "map_of es c = None" using keys by (metis map_of_eq_None_iff list.set_map)
    then show ?thesis using look None by simp
  next
    case (Some t)
    then obtain i where i: "i < length ch" "ch ! i = (c, t)" using map_of_SomeD by (metis in_set_conv_nth)
    have "distinct (map fst es)" using ord keys by (simp add: strict_sorted_iff)
    moreover have "es ! i \<in> set es" "fst (es ! i) = c" using i es(1,3) by (auto intro: nth_mem)
    ultimately have "map_of es c = Some (snd (es ! i))" by (metis map_of_eq_Some_iff prod.collapse)
    then show ?thesis using look Some es(3) [OF i(1)] i(2) by auto
  qed
qed

section \<open>Names and patterns\<close>

definition literal :: "byte \<Rightarrow> bool" where
  "literal c \<longleftrightarrow> \<not> is_glob c \<and> c \<noteq> C_BACK"

lemma fnmatch_literal: "literal c \<Longrightarrow> fnmatch (c # q) s \<longleftrightarrow> (\<exists>s'. s = c # s' \<and> fnmatch q s')"
  by (cases s) (auto simp: literal_def is_glob_def)

lemma fnmatch_literals: "list_all literal l \<Longrightarrow> fnmatch (l @ q) s \<longleftrightarrow> (\<exists>s'. s = l @ s' \<and> fnmatch q s')"
  by (induction l arbitrary: s) (auto simp: fnmatch_literal simp del: fnmatch.simps)

declare fnmatch.simps(2) [simp del]

lemma match_prefix_ok:
  assumes "0 \<notin> set pre" "C_BACK \<notin> set pre"
  shows "case match_prefix pre s k of
      PrefixGlob p \<Rightarrow> (\<exists>l r s'. pre = l @ r \<and> p = k + length l \<and> list_all literal l \<and> s = l @ s')
    | PrefixDiffers \<Rightarrow> (\<exists>l r. pre = l @ r \<and> list_all literal l \<and> (\<nexists>s'. s = l @ s'))
    | PrefixEnd p \<Rightarrow> p = k + length pre \<and> list_all literal pre \<and> (\<exists>s'. s = pre @ s')"
  using assms
proof (induction pre s k rule: match_prefix.induct)
  case (2 c pre search p)
  consider "is_glob c" | "\<not> is_glob c" "c \<noteq> first_byte search" | "\<not> is_glob c" "c = first_byte search" by blast
  then show ?case
  proof cases
    case 1
    then show ?thesis by (auto intro: exI [of _ "[]"])
  next
    case d: 2
    have "\<nexists>s'. search = [c] @ s'" using d(2) by (auto simp: first_byte_def)
    moreover have "list_all literal [c]" using d(1) 2(3) by (simp add: literal_def)
    moreover have "match_prefix (c # pre) search p = PrefixDiffers" using d by simp
    ultimately show ?thesis by (simp only: prefix_result.case) (intro exI [of _ "[c]"] exI [of _ pre], simp)
  next
    case e: 3
    have "c \<noteq> 0" using 2(2) by auto
    then obtain s where s: "search = c # s" using e(2) by (cases search) (auto simp: first_byte_def)
    have lit: "literal c" using e(1) 2(3) by (simp add: literal_def)
    have nd: "\<not> c \<noteq> first_byte search" and ps: "0 \<notin> set pre" "C_BACK \<notin> set pre" using e(2) 2(2,3) by simp_all
    have ih: "case match_prefix pre s (Suc p) of
        PrefixGlob q \<Rightarrow> (\<exists>l r s'. pre = l @ r \<and> q = Suc p + length l \<and> list_all literal l \<and> s = l @ s')
      | PrefixDiffers \<Rightarrow> (\<exists>l r. pre = l @ r \<and> list_all literal l \<and> (\<nexists>s'. s = l @ s'))
      | PrefixEnd q \<Rightarrow> q = Suc p + length pre \<and> list_all literal pre \<and> (\<exists>s'. s = pre @ s')"
      using 2(1) [OF e(1) nd ps] by (simp only: s list.sel)
    have m: "match_prefix (c # pre) search p = match_prefix pre s (Suc p)" using e(1) by (simp add: s first_byte_def)
    show ?thesis
    proof (cases "match_prefix pre s (Suc p)")
      case (PrefixGlob q)
      then obtain l r s' where "pre = l @ r" "q = Suc p + length l" "list_all literal l" "s = l @ s'" using ih by auto
      then show ?thesis unfolding m PrefixGlob prefix_result.case using lit
        by (intro exI [of _ "c # l"] exI [of _ r] exI [of _ s']) (simp add: s)
    next
      case PrefixDiffers
      then obtain l r where "pre = l @ r" "list_all literal l" "\<nexists>s'. s = l @ s'" using ih by auto
      then show ?thesis unfolding m PrefixDiffers prefix_result.case using lit
        by (intro exI [of _ "c # l"] exI [of _ r]) (simp add: s)
    next
      case (PrefixEnd q)
      then show ?thesis using ih lit unfolding m PrefixEnd prefix_result.case by (simp add: s)
    qed
  qed
qed auto

lemma patterns_cut:
  assumes "p \<le> length (trie_prefix t)"
  shows "patterns t = map (apfst (\<lambda>q. take p (trie_prefix t) @ q)) (patterns (cut p t))"
proof (cases t)
  case (Trie pre ch vs)
  have "pre = take p pre @ drop p pre" by simp
  then show ?thesis using assms
    by (simp add: Trie cut_def patterns_Trie map_concat o_def case_prod_unfold apfst_def map_prod_def append_assoc [symmetric] del: append_assoc)
qed

lemma fits_mono: "fits t n \<Longrightarrow> n \<le> n' \<Longrightarrow> fits t n'"
proof (induction t arbitrary: n n' rule: trie.induct)
  case (Trie pre ch vs)
  show ?case unfolding fits_Trie
  proof (intro conjI ballI)
    show "length pre \<le> n'" using Trie.prems by (simp add: fits_Trie)
    fix ct assume ct: "ct \<in> set ch"
    obtain c t where c: "ct = (c, t)" by (cases ct)
    have "length pre < n" "fits t (n - length pre - 1)" using Trie.prems(1) ct c by (auto simp: fits_Trie)
    then show "case ct of (c, t) \<Rightarrow> length pre < n' \<and> fits t (n' - length pre - 1)"
      using Trie.IH [of ct t "n - length pre - 1" "n' - length pre - 1"] ct c Trie.prems(2) by auto
  qed
qed

lemma fits_cut: "fits t n \<Longrightarrow> fits (cut p t) n"
proof (cases t)
  case (Trie pre ch vs)
  assume "fits t n"
  then show ?thesis by (auto simp: Trie cut_def fits_Trie intro: fits_mono)
qed

section \<open>The search\<close>

text \<open>What a search of \<open>s\<close> below a node must find, and a list of hits in the order in which they are added.\<close>

definition hits_of :: "trie \<Rightarrow> byte list \<Rightarrow> (byte list \<times> (nat \<times> nat) list) set" where
  "hits_of t s = {(q, vs) \<in> set (patterns t). fnmatch q s}"

definition adds :: "hw_map \<Rightarrow> (byte list \<times> (nat \<times> nat) list) list \<Rightarrow> (hw_state \<Rightarrow> (rc \<times> hw_state) option) \<Rightarrow> bool" where
  "adds m L f \<longleftrightarrow> (\<forall>st st'. hw_map (fst st) = m \<longrightarrow> add_list (concat (map snd L)) st = Some (0, st') \<longrightarrow> f st = Some (0, st'))"

definition with_prefix :: "byte list \<Rightarrow> (byte list \<times> 'v) list \<Rightarrow> (byte list \<times> 'v) list" where
  "with_prefix pre ps = map (apfst (\<lambda>q. pre @ q)) ps"

lemma with_prefix_snd [simp]: "map snd (with_prefix pre ps) = map snd ps"
  by (simp add: with_prefix_def o_def)

definition child_hits :: "byte list \<Rightarrow> (byte \<times> trie) list \<Rightarrow> byte list \<Rightarrow> byte \<Rightarrow> (byte list \<times> (nat \<times> nat) list) list" where
  "child_hits pre ch s c =
     (case map_of ch c of
        None \<Rightarrow> []
      | Some t \<Rightarrow> with_prefix (pre @ [c]) (filter (\<lambda>(q, _). fnmatch (c # q) s) (patterns t)))"

lemma set_child_hits:
  assumes "distinct (map fst ch)"
  shows "set (child_hits pre ch s c) = {(pre @ c # q, vs) | q vs t. (c, t) \<in> set ch \<and> (q, vs) \<in> set (patterns t) \<and> fnmatch (c # q) s}"
proof (cases "map_of ch c")
  case None
  then have "(c, t) \<notin> set ch" for t by (auto simp: map_of_eq_None_iff image_iff)
  then show ?thesis using None by (simp add: child_hits_def)
next
  case (Some t)
  then have "(c, t') \<in> set ch \<longleftrightarrow> t' = t" for t' using assms by (metis map_of_eq_Some_iff option.inject)
  then show ?thesis using Some by (force simp: child_hits_def with_prefix_def)
qed

lemma set_patterns:
  "set (patterns (Trie pre ch vs)) =
     {(pre @ c # q, v) | c q v t. (c, t) \<in> set ch \<and> (q, v) \<in> set (patterns t)} \<union> (if vs = [] then {} else {(pre, vs)})"
proof -
  have "set (concat (map (\<lambda>(c, t). map (apfst (\<lambda>q. pre @ c # q)) (patterns t)) ch)) =
      {(pre @ c # q, v) | c q v t. (c, t) \<in> set ch \<and> (q, v) \<in> set (patterns t)}"
    by (induction ch) (auto simp: image_iff, force+)
  then show ?thesis unfolding patterns_Trie by simp
qed

lemma fnmatch_same_start: "list_all literal l \<Longrightarrow> fnmatch (l @ q) (l @ s) = fnmatch q s"
  using fnmatch_literals [of l q "l @ s"] by auto

lemma with_prefix_filter:
  "list_all literal l \<Longrightarrow> {(q, v) \<in> set (with_prefix l ps). fnmatch q (l @ s)} = set (with_prefix l (filter (\<lambda>(q, _). fnmatch q s) ps))"
  by (induction ps) (auto simp: with_prefix_def fnmatch_same_start)

lemma UN_support: "(\<And>c. c \<notin> B \<Longrightarrow> f c = {}) \<Longrightarrow> (\<Union>c. f c) = (\<Union>c \<in> B. f c)"
  by blast

lemma hits_of_node:
  assumes lit: "list_all literal pre" and noback: "\<And>c t. (c, t) \<in> set ch \<Longrightarrow> c \<noteq> C_BACK" and d: "distinct (map fst ch)"
  shows "hits_of (Trie pre ch vs) (pre @ s) =
     set (child_hits pre ch s C_STAR) \<union> set (child_hits pre ch s C_QUEST) \<union> set (child_hits pre ch s C_OPEN) \<union>
     (case s of [] \<Rightarrow> if vs = [] then {} else {(pre, vs)} | c # s' \<Rightarrow> if is_glob c then {} else set (child_hits pre ch s c))"
    (is "?l = ?r")
proof -
  have fm: "fnmatch (pre @ q) (pre @ s) = fnmatch q s" for q by (rule fnmatch_same_start [OF lit])
  have own: "fnmatch pre (pre @ s) \<longleftrightarrow> s = []" using fm [of "[]"] by simp
  have l: "?l = {(pre @ c # q, v) | c q v t. (c, t) \<in> set ch \<and> (q, v) \<in> set (patterns t) \<and> fnmatch (c # q) s} \<union>
      (if s = [] \<and> vs \<noteq> [] then {(pre, vs)} else {})"
    unfolding hits_of_def set_patterns
    by (auto simp: fm own fnmatch_same_start [OF lit, of _ "[]", simplified] fnmatch_same_start [OF lit, of "[]" "[]", simplified])
  have c: "is_glob c \<or> (\<exists>s'. s = c # s')" if "(c, t) \<in> set ch" "fnmatch (c # q) s" for c t q
    using that noback [OF that(1)] fnmatch_literal [of c q s] by (auto simp: literal_def)
  have none: "set (child_hits pre ch s c) = {}" if "\<not> is_glob c" "\<nexists>s'. s = c # s'" for c
    using c that unfolding set_child_hits [OF d] by auto
  have "{(pre @ c # q, v) | c q v t. (c, t) \<in> set ch \<and> (q, v) \<in> set (patterns t) \<and> fnmatch (c # q) s} =
      (\<Union>c. {(pre @ c # q, v) | q v t. (c, t) \<in> set ch \<and> (q, v) \<in> set (patterns t) \<and> fnmatch (c # q) s})" by auto
  also have "\<dots> = (\<Union>c \<in> {c. is_glob c \<or> (\<exists>s'. s = c # s')}. set (child_hits pre ch s c))"
    unfolding set_child_hits [OF d, symmetric] using none by (intro UN_support) simp
  also have "\<dots> = set (child_hits pre ch s C_STAR) \<union> set (child_hits pre ch s C_QUEST) \<union> set (child_hits pre ch s C_OPEN) \<union>
      (case s of [] \<Rightarrow> {} | c # s' \<Rightarrow> if is_glob c then {} else set (child_hits pre ch s c))"
    by (cases s) (auto simp: is_glob_def)
  finally show ?thesis unfolding l by (cases s) auto
qed

lemma add_list_concat:
  assumes "add_list (concat (map snd (xs @ ys))) st = Some (0, st')" "hw_map (fst st) = m"
  shows "\<exists>st1. add_list (concat (map snd xs)) st = Some (0, st1) \<and> hw_map (fst st1) = m \<and> add_list (concat (map snd ys)) st1 = Some (0, st')"
proof -
  obtain st1 where st1: "add_list (concat (map snd xs)) st = Some (0, st1)" "add_list (concat (map snd ys)) st1 = Some (0, st')"
    using add_list_append [of "concat (map snd xs)" "concat (map snd ys)" st st'] assms(1) by auto
  then show ?thesis using add_list_file [OF st1(1)] assms(2) by (auto simp: same_file_def)
qed

definition node_stored :: "hw_map \<Rightarrow> trie_header_f \<Rightarrow> nat \<Rightarrow> trie_node_f \<Rightarrow> trie \<Rightarrow> bool" where
  "node_stored m head off node t \<longleftrightarrow>
     stored m head off t \<and> trie_node_from_off m off = Some node \<and> prefix_off node \<noteq> 0 \<and> trie_string m (prefix_off node) = Some (trie_prefix t) \<and>
     children_count node = length (trie_children t) \<and> values_count node = length (trie_values t) \<and>
     (\<forall>i < length (trie_children t).
        \<exists>o'. child_entry m (trie_node_children head node + i * 16) = Some (fst (trie_children t ! i), o') \<and>
             stored m head o' (snd (trie_children t ! i))) \<and>
     (\<forall>i < length (trie_values t). value_entry m (trie_node_values head node + i * 16) = Some (trie_values t ! i))"

lemma stored_node: "stored m head off t \<Longrightarrow> \<exists>node. node_stored m head off node t"
proof -
  assume st: "stored m head off t"
  obtain pre ch vs where t: "t = Trie pre ch vs" by (cases t)
  from st show ?thesis unfolding t by (rule storedE) (use st [unfolded t] in \<open>auto simp: node_stored_def\<close>)
qed

definition good_trie :: "trie_header_f \<Rightarrow> trie \<Rightarrow> bool" where
  "good_trie head t \<longleftrightarrow> child_entry_size head = 16 \<and> plain_trie t \<and> fits t 2046"

lemma good_trieD:
  assumes "good_trie head t"
  shows "sorted_wrt (<) (map fst (trie_children t))" "distinct (map fst (trie_children t))" "C_BACK \<notin> set (trie_prefix t)"
    "(c, t') \<in> set (trie_children t) \<Longrightarrow> c \<noteq> C_BACK" "(c, t') \<in> set (trie_children t) \<Longrightarrow> good_trie head t'"
    "(c, t') \<in> set (trie_children t) \<Longrightarrow> fits t' 2045"
proof -
  obtain pre ch vs where t: "t = Trie pre ch vs" by (cases t)
  have p: "plain_trie (Trie pre ch vs)" "fits (Trie pre ch vs) 2046" using assms by (simp_all add: good_trie_def t)
  show "sorted_wrt (<) (map fst (trie_children t))" "C_BACK \<notin> set (trie_prefix t)" using p(1) by (simp_all add: plain_Trie t)
  then show "distinct (map fst (trie_children t))" by (simp add: strict_sorted_iff)
  assume ct: "(c, t') \<in> set (trie_children t)"
  then show "c \<noteq> C_BACK" using p(1) by (auto simp: plain_Trie t)
  have "fits t' (2046 - length pre - 1)" using ct p(2) by (auto simp: fits_Trie t)
  then show f: "fits t' 2045" by (rule fits_mono) simp
  then have "fits t' 2046" by (rule fits_mono) simp
  then show "good_trie head t'" using ct p(1) assms by (auto simp: plain_Trie t good_trie_def)
qed

lemma wildcard_ok:
  assumes n: "node_stored m head off node t" and g: "good_trie head t" and st: "hw_map (fst st) = m"
    "add_list (concat (map snd (child_hits (trie_prefix t) (trie_children t) s c))) st = Some (0, st')"
  shows "search_wildcard head node c s [] st = Some (0, [], st')"
proof -
  let ?ch = "trie_children t"
  have look: "case map_of ?ch c of None \<Rightarrow> node_lookup_f m head node c = Some None
      | Some t \<Rightarrow> (\<exists>o'. node_lookup_f m head node c = Some (Some o') \<and> stored m head o' t)"
    using n g good_trieD(1) [OF g] by (intro lookup_ok) (auto simp: node_stored_def good_trie_def)
  show ?thesis
  proof (cases "map_of ?ch c")
    case None
    then show ?thesis using look st by (simp add: search_wildcard_def child_hits_def)
  next
    case (Some t')
    then obtain o' where o': "node_lookup_f m head node c = Some (Some o')" "stored m head o' t'" using look by auto
    have f: "fits t' 2045" using good_trieD(6) [OF g map_of_SomeD [OF Some]] .
    have "add_list (matching [c] s (patterns t')) st = Some (0, st')" using st(2) Some by (simp add: child_hits_def matching_def)
    then have "trie_fnmatch_f LINE_MAX head o' 0 [c] s st = Some (0, [c], st')"
      using trie_fnmatch_ok [OF o'(2), of 0 2045 "[c]" LINE_MAX st s st'] f st(1) by (simp add: cut_def)
    then show ?thesis using o'(1) st(1) linebuf_simps(5) [of "[]" c] by (simp add: search_wildcard_def linebuf_add_char_def)
  qed
qed

lemma wildcards_ok:
  assumes "node_stored m head off node t" "good_trie head t" "hw_map (fst st) = m"
    "add_list (concat (map snd (child_hits (trie_prefix t) (trie_children t) s C_STAR @ child_hits (trie_prefix t) (trie_children t) s C_QUEST @
       child_hits (trie_prefix t) (trie_children t) s C_OPEN))) st = Some (0, st')"
  shows "search_wildcards head node s [] st = Some (0, [], st')"
proof -
  obtain st1 where st1: "add_list (concat (map snd (child_hits (trie_prefix t) (trie_children t) s C_STAR))) st = Some (0, st1)" "hw_map (fst st1) = m"
    "add_list (concat (map snd (child_hits (trie_prefix t) (trie_children t) s C_QUEST @ child_hits (trie_prefix t) (trie_children t) s C_OPEN))) st1 =
       Some (0, st')"
    using add_list_concat [OF assms(4,3)] by blast
  obtain st2 where st2: "add_list (concat (map snd (child_hits (trie_prefix t) (trie_children t) s C_QUEST))) st1 = Some (0, st2)" "hw_map (fst st2) = m"
    "add_list (concat (map snd (child_hits (trie_prefix t) (trie_children t) s C_OPEN))) st2 = Some (0, st')"
    using add_list_concat [OF st1(3,2)] by blast
  show ?thesis
    using wildcard_ok [OF assms(1-3) st1(1)] wildcard_ok [OF assms(1,2) st1(2) st2(1)] wildcard_ok [OF assms(1,2) st2(2,3)]
    by (simp add: search_wildcards_def)
qed

lemma trie_string_no_nul: "trie_string m off = Some s \<Longrightarrow> 0 \<notin> set s"
  by (auto simp: trie_string_def Let_def dest: set_takeWhileD split: if_splits)

lemma search_glob:
  assumes n: "node_stored m head off node t" and g: "good_trie head t" and l: "trie_prefix t = l @ r" "list_all literal l"
    and mp: "match_prefix (trie_prefix t) (l @ s) 0 = PrefixGlob (length l)"
  shows "\<exists>L. set L = hits_of t (l @ s) \<and> adds m L (search_loop head off (l @ s) [])"
proof -
  let ?L = "with_prefix l (filter (\<lambda>(q, _). fnmatch q s) (patterns (cut (length l) t)))"
  have pats: "patterns t = with_prefix l (patterns (cut (length l) t))" using patterns_cut [of "length l" t] l(1) by (simp add: with_prefix_def)
  have "set ?L = hits_of t (l @ s)"
    unfolding hits_of_def pats by (rule with_prefix_filter [OF l(2), symmetric])
  moreover have "adds m ?L (search_loop head off (l @ s) [])"
    unfolding adds_def
  proof (intro allI impI)
    fix st st' assume st: "hw_map (fst st) = m" "add_list (concat (map snd ?L)) st = Some (0, st')"
    have fit: "fits (cut (length l) t) 2046" using g fits_cut by (simp add: good_trie_def)
    have "add_list (matching [] s (patterns (cut (length l) t))) st = Some (0, st')" using st(2) by (simp add: matching_def)
    then have "trie_fnmatch_f LINE_MAX head off (length l) [] s st = Some (0, [], st')"
      using trie_fnmatch_ok [of m head off t "length l" 2046 "[]" LINE_MAX st s st'] n fit st(1) l(1) by (simp add: node_stored_def)
    then show "search_loop head off (l @ s) [] st = Some (0, st')"
      using n st(1) mp by (subst search_loop.simps) (simp add: node_stored_def node_prefix_def)
  qed
  ultimately show ?thesis by blast
qed

lemma trie_search_ok:
  assumes "stored m head off t" "good_trie head t" "\<not> list_ex is_glob s" "0 \<notin> set s"
  shows "\<exists>L. set L = hits_of t s \<and> adds m L (search_loop head off s [])"
  using assms
proof (induction "length s" arbitrary: s off t rule: less_induct)
  case less
  note g = less.prems(2)
  obtain node where n: "node_stored m head off node t" using stored_node [OF less.prems(1)] by blast
  note nD = n [unfolded node_stored_def]
  let ?pre = "trie_prefix t" and ?ch = "trie_children t" and ?vs = "trie_values t"
  have t: "t = Trie ?pre ?ch ?vs" by simp
  have nul: "0 \<notin> set ?pre" using nD trie_string_no_nul by blast
  note mp = match_prefix_ok [OF nul good_trieD(3) [OF g], where s = s and k = 0]
  show ?case
  proof (cases "match_prefix ?pre s 0")
    case (PrefixGlob p)
    then obtain l r s' where "?pre = l @ r" "p = length l" "list_all literal l" "s = l @ s'" using mp by auto
    then show ?thesis using search_glob [OF n g, of l r s'] PrefixGlob by simp
  next
    case PrefixDiffers
    then obtain l r where l: "?pre = l @ r" "list_all literal l" "\<nexists>s'. s = l @ s'" using mp by auto
    have "\<not> fnmatch q s" if q: "(q, v) \<in> set (patterns t)" for q v
    proof -
      have "\<exists>q'. q = l @ q'" using q patterns_cut [of "length l" t] l(1) by (auto simp: apfst_def map_prod_def)
      then show ?thesis using fnmatch_literals [OF l(2)] l(3) by auto
    qed
    then have "hits_of t s = {}" by (auto simp: hits_of_def)
    moreover have "adds m [] (search_loop head off s [])"
      using nD PrefixDiffers by (auto simp: adds_def search_loop.simps node_prefix_def)
    ultimately show ?thesis by (metis empty_set)
  next
    case (PrefixEnd p)
    then obtain s' where s: "p = length ?pre" "list_all literal ?pre" "s = ?pre @ s'" using mp by auto
    define W where "W = child_hits ?pre ?ch s' C_STAR @ child_hits ?pre ?ch s' C_QUEST @ child_hits ?pre ?ch s' C_OPEN"
    have hits: "hits_of t s = set W \<union> (case s' of [] \<Rightarrow> if ?vs = [] then {} else {(?pre, ?vs)} | c # _ \<Rightarrow> set (child_hits ?pre ?ch s' c))"
    proof -
      have ng: "\<not> is_glob c" if "s' = c # s''" for c s'' using less.prems(3) s(3) that by simp
      have nb: "c \<noteq> C_BACK" if "(c, t') \<in> set ?ch" for c t' using good_trieD(4) [OF g that] .
      have "hits_of t (?pre @ s') = set W \<union>
          (case s' of [] \<Rightarrow> if ?vs = [] then {} else {(?pre, ?vs)} | c # s'' \<Rightarrow> if is_glob c then {} else set (child_hits ?pre ?ch s' c))"
        using hits_of_node [OF s(2) nb good_trieD(2) [OF g], where vs = ?vs and s = s'] unfolding W_def by (simp add: Un_assoc)
      then show ?thesis using s(3) ng by (cases s') simp_all
    qed
    have loop: "search_loop head off s [] st =
        (if s' = [] then add_values (length ?vs) (trie_node_values head node) st1
         else do { child \<leftarrow> node_lookup_f m head node (first_byte s');
                   case child of None \<Rightarrow> Some (0, st1) | Some off \<Rightarrow> search_loop head off (tl s') [] st1 })"
      if st: "hw_map (fst st) = m" "add_list (concat (map snd W)) st = Some (0, st1)" "hw_map (fst st1) = m" for st st1
    proof -
      have "search_wildcards head node s' [] st = Some (0, [], st1)" using wildcards_ok [OF n g st(1)] st(2) by (simp add: W_def)
      then show ?thesis using nD PrefixEnd s st(1,3) by (subst search_loop.simps) (simp add: node_prefix_def)
    qed
    show ?thesis
    proof (cases s')
      case Nil
      let ?L = "W @ (if ?vs = [] then [] else [(?pre, ?vs)])"
      have "adds m ?L (search_loop head off s [])"
        unfolding adds_def
      proof (intro allI impI)
        fix st st' assume st: "hw_map (fst st) = m" "add_list (concat (map snd ?L)) st = Some (0, st')"
        obtain st1 where st1: "add_list (concat (map snd W)) st = Some (0, st1)" "hw_map (fst st1) = m"
          "add_list (concat (map snd (if ?vs = [] then [] else [(?pre, ?vs)]))) st1 = Some (0, st')"
          using add_list_concat [OF st(2,1)] by blast
        have "add_values (length ?vs) (trie_node_values head node) st1 = add_list ?vs st1"
          using nD by (intro add_values_list [OF _ st1(2)]) auto
        then show "search_loop head off s [] st = Some (0, st')" using loop [OF st(1) st1(1,2)] Nil st1(3) by (auto split: if_splits)
      qed
      moreover have "set ?L = hits_of t s" using hits Nil by simp
      ultimately show ?thesis by blast
    next
      case (Cons c s'')
      have c: "\<not> is_glob c" "c \<noteq> 0" using less.prems(3,4) s(3) Cons by auto
      have look: "case map_of ?ch c of None \<Rightarrow> node_lookup_f m head node c = Some None
          | Some t \<Rightarrow> (\<exists>o'. node_lookup_f m head node c = Some (Some o') \<and> stored m head o' t)"
        using nD g good_trieD(1) [OF g] by (intro lookup_ok) (auto simp: good_trie_def)
      obtain C where C: "set C = set (child_hits ?pre ?ch s' c)"
        "adds m C (\<lambda>st. do { child \<leftarrow> node_lookup_f m head node c; case child of None \<Rightarrow> Some (0, st) | Some off \<Rightarrow> search_loop head off s'' [] st })"
      proof (cases "map_of ?ch c")
        case None
        then show thesis using that [of "[]"] look by (simp add: child_hits_def adds_def)
      next
        case (Some t')
        note mem = map_of_SomeD [OF Some]
        obtain o' where o': "node_lookup_f m head node c = Some (Some o')" "stored m head o' t'" using look Some by auto
        have "length s'' < length s" "\<not> list_ex is_glob s''" "0 \<notin> set s''" using less.prems(3,4) s(3) Cons by auto
        then obtain L' where L': "set L' = hits_of t' s''" "adds m L' (search_loop head o' s'' [])"
          using less.hyps [OF _ o'(2) good_trieD(5) [OF g mem]] by blast
        have lit: "literal c" using c(1) good_trieD(4) [OF g mem] by (simp add: literal_def)
        have "set (with_prefix (?pre @ [c]) L') = set (child_hits ?pre ?ch s' c)"
          using Some L'(1) fnmatch_literal [OF lit, of _ s'] Cons by (auto simp: child_hits_def with_prefix_def hits_of_def)
        moreover have "adds m (with_prefix (?pre @ [c]) L') (\<lambda>st. do { child \<leftarrow> node_lookup_f m head node c;
            case child of None \<Rightarrow> Some (0, st) | Some off \<Rightarrow> search_loop head off s'' [] st })"
          using L'(2) o'(1) by (simp add: adds_def)
        ultimately show thesis by (rule that)
      qed
      have "adds m (W @ C) (search_loop head off s [])"
        unfolding adds_def
      proof (intro allI impI)
        fix st st' assume st: "hw_map (fst st) = m" "add_list (concat (map snd (W @ C))) st = Some (0, st')"
        obtain st1 where st1: "add_list (concat (map snd W)) st = Some (0, st1)" "hw_map (fst st1) = m" "add_list (concat (map snd C)) st1 = Some (0, st')"
          using add_list_concat [OF st(2,1)] by blast
        have "do { child \<leftarrow> node_lookup_f m head node c; case child of None \<Rightarrow> Some (0, st1) | Some off \<Rightarrow> search_loop head off s'' [] st1 } =
            Some (0, st')"
          using C(2) [unfolded adds_def, rule_format, OF st1(2,3)] .
        then show "search_loop head off s [] st = Some (0, st')"
          using loop [OF st(1) st1(1,2)] Cons by (simp add: first_byte_def)
      qed
      moreover have "set (W @ C) = hits_of t s" using hits C(1) Cons by simp
      ultimately show ?thesis by blast
    qed
  qed
qed

section \<open>The properties that are found\<close>

definition hw_ops :: "sd_hwdb \<Rightarrow> hash_ops" where
  "hw_ops hwdb = string_hash_ops (hw_mem hwdb)"

text \<open>The properties of the database as a list, and what adding one does to it.\<close>

definition props_ok :: "sd_hwdb \<Rightarrow> (ptr \<times> ptr) list \<Rightarrow> bool" where
  "props_ok hwdb al \<longleftrightarrow>
     (case hw_properties hwdb of
        None \<Rightarrow> al = []
      | Some h \<Rightarrow> hmap h al \<and> hm_ops h = hw_ops hwdb \<and> hm_type h = HASHMAP_TYPE_ORDERED)"

definition al_replace :: "hash_ops \<Rightarrow> (ptr \<times> ptr) list \<Rightarrow> ptr \<Rightarrow> ptr \<Rightarrow> (ptr \<times> ptr) list" where
  "al_replace ops al k v = (if al_find ops al k = None then al @ [(k, v)] else al_update ops al k (\<lambda>_. (k, v)))"

definition add_prop :: "sd_hwdb \<Rightarrow> (ptr \<times> ptr) list \<Rightarrow> nat \<times> nat \<Rightarrow> (ptr \<times> ptr) list" where
  "add_prop hwdb al pr =
     (case trie_string (hw_map hwdb) (fst pr) of
        None \<Rightarrow> al
      | Some s \<Rightarrow> if first_byte s \<noteq> 0x20 then al else al_replace (hw_ops hwdb) al (hw_ptr hwdb (fst pr + 1)) (hw_ptr hwdb (snd pr)))"

lemma replace_allocs: "hashmap_replace k v h env = Some (r, h', env') \<Longrightarrow> all_allocs env \<Longrightarrow> all_allocs env'"
  by (auto simp: hashmap_replace_def split: if_splits Option.bind_splits dest: boldly_allocs)

lemma ensure_allocated_ok:
  assumes "all_allocs env" "hash_ops_spec ops" "case p of None \<Rightarrow> al = [] | Some h \<Rightarrow> hmap h al \<and> hm_ops h = ops \<and> hm_type h = t"
  shows "\<exists>h env'. hashmap_base_ensure_allocated p (Some ops) t env = (0, Some h, env') \<and> hmap h al \<and> hm_ops h = ops \<and> hm_type h = t \<and> all_allocs env'"
proof (cases p)
  case None
  obtain h env' where new: "hashmap_base_new (Some ops) t env = (Some h, env')" "all_allocs env'"
    using assms(1) by (cases "env_shared env") (auto simp: hashmap_base_new_def Let_def all_allocs_def random_bytes_def alloc_def)
  then show ?thesis using None new_ok [OF assms(2) new(1)] assms(3) by (simp add: hashmap_base_ensure_allocated_def)
next
  case (Some h)
  then show ?thesis using assms by (simp add: hashmap_base_ensure_allocated_def)
qed

lemma hw_mem_upd [simp]:
  "hw_mem (hwdb\<lparr>hw_properties := p\<rparr>) = hw_mem hwdb" "hw_mem (hwdb\<lparr>hw_modified := b\<rparr>) = hw_mem hwdb"
  "hw_mem (hwdb\<lparr>hw_modalias := a\<rparr>) = hw_mem hwdb"
  "hw_ptr (hwdb\<lparr>hw_properties := p\<rparr>) = hw_ptr hwdb" "hw_ptr (hwdb\<lparr>hw_modified := b\<rparr>) = hw_ptr hwdb"
  by (simp_all add: hw_mem_def hw_ptr_def fun_eq_iff)

lemma hw_ops_upd [simp]:
  "hw_ops (hwdb\<lparr>hw_properties := p\<rparr>) = hw_ops hwdb" "hw_ops (hwdb\<lparr>hw_modified := b\<rparr>) = hw_ops hwdb"
  "hw_ops (hwdb\<lparr>hw_modalias := a\<rparr>) = hw_ops hwdb"
  by (simp_all add: hw_ops_def)

lemma same_file_ops:
  assumes "same_file (hwdb, env) (hwdb', env')"
  shows "hw_ops hwdb' = hw_ops hwdb" "hw_ptr hwdb' = hw_ptr hwdb" "add_prop hwdb' = add_prop hwdb"
proof -
  have "hw_mem hwdb' = hw_mem hwdb" using assms by (simp add: same_file_def hw_mem_def fun_eq_iff)
  then show o: "hw_ops hwdb' = hw_ops hwdb" by (simp add: hw_ops_def)
  show p: "hw_ptr hwdb' = hw_ptr hwdb" using assms by (simp add: same_file_def hw_ptr_def fun_eq_iff)
  show "add_prop hwdb' = add_prop hwdb" using assms by (intro ext) (simp only: add_prop_def o p same_file_def fst_conv)
qed

lemma add_property_ok:
  assumes al: "props_ok hwdb al" "length al < 2 ^ 25" and env: "all_allocs env" and key: "trie_string (hw_map hwdb) k \<noteq> None"
  shows "\<exists>hwdb' env'. hwdb_add_property k v (hwdb, env) = Some (0, hwdb', env') \<and> props_ok hwdb' (add_prop hwdb al (k, v)) \<and> all_allocs env'"
proof -
  obtain s where s: "trie_string (hw_map hwdb) k = Some s" using key by auto
  show ?thesis
  proof (cases "first_byte s = 0x20")
    case False
    then show ?thesis using s al(1) env by (simp add: hwdb_add_property_def add_prop_def)
  next
    case True
    obtain h env1 where h: "hashmap_base_ensure_allocated (hw_properties hwdb) (Some (hw_ops hwdb)) HASHMAP_TYPE_ORDERED env = (0, Some h, env1)"
      "hmap h al" "hm_ops h = hw_ops hwdb" "hm_type h = HASHMAP_TYPE_ORDERED" "all_allocs env1"
      using ensure_allocated_ok [OF env, of "hw_ops hwdb"] al(1) string_ops.hash_ops_spec_axioms by (force simp: props_ok_def hw_ops_def)
    let ?k = "hw_ptr hwdb (k + 1)" and ?v = "hw_ptr hwdb v"
    obtain r h2 env2 where r: "hashmap_replace ?k ?v h env1 = Some (r, h2, env2)" "hm_ops h2 = hm_ops h" "hm_type h2 = hm_type h"
      "if al_find (hm_ops h) al ?k = None then r = 1 \<and> hmap h2 (al @ [(?k, ?v)]) \<or> r = - ENOMEM \<and> h2 = h \<and> \<not> fst (alloc env1)
       else r = 0 \<and> hmap h2 (al_update (hm_ops h) al ?k (\<lambda>_. (?k, ?v)))"
      using replace_ok [OF h(2) al(2), of ?k ?v env1] by blast
    have h2: "hmap h2 (al_replace (hw_ops hwdb) al ?k ?v)" "\<not> r < 0"
      using r(4) h(3) allocs_kept(1) [OF h(5)] by (auto simp: al_replace_def split: if_splits)
    have "hwdb_add_property k v (hwdb, env) = Some (0, hwdb\<lparr>hw_properties := Some h2, hw_modified := True\<rparr>, env2)"
      using s True h(1) r(1) h2(2) by (simp add: hwdb_add_property_def hw_ops_def)
    moreover have "props_ok (hwdb\<lparr>hw_properties := Some h2, hw_modified := True\<rparr>) (add_prop hwdb al (k, v))"
      using h2(1) r(2,3) h(3,4) s True by (simp add: props_ok_def add_prop_def)
    ultimately show ?thesis using replace_allocs [OF r(1) h(5)] by blast
  qed
qed

text \<open>The keys are pointers to keys of the file, and different, so there are never more entries than keys.\<close>

lemma props_distinct: "props_ok hwdb al \<Longrightarrow> distinct (map fst al)"
proof (cases "hw_properties hwdb")
  case (Some h)
  assume "props_ok hwdb al"
  then have "hmap h al" using Some by (simp add: props_ok_def)
  then have d: "distinct_keys (hm_ops h) al" "hash_ops_spec (hm_ops h)" by (rule hmapD)+
  show ?thesis unfolding distinct_conv_nth
  proof (intro allI impI)
    fix i j assume ij: "i < length (map fst al)" "j < length (map fst al)" "i \<noteq> j"
    then have "ho_compare (hm_ops h) (fst (al ! i)) (fst (al ! j)) \<noteq> 0" using d(1) by (auto simp: distinct_keys_def)
    then show "map fst al ! i \<noteq> map fst al ! j" using hash_ops_spec.compare_refl [OF d(2)] ij by auto
  qed
qed (simp add: props_ok_def)

lemma add_prop_keys: "fst ` set (add_prop hwdb al pr) \<subseteq> fst ` set al \<union> {hw_ptr hwdb (fst pr + 1)}"
  by (force simp: add_prop_def al_replace_def al_update_def split: option.splits if_splits)

lemma add_list_ok:
  assumes "props_ok hwdb al" "all_allocs env" "fst ` set al \<subseteq> (\<lambda>k. hw_ptr hwdb (k + 1)) ` K" "fst ` set vs \<subseteq> K" "finite K" "card K < 2 ^ 25"
    "\<And>k. k \<in> K \<Longrightarrow> trie_string (hw_map hwdb) k \<noteq> None"
  shows "\<exists>hwdb' env'. add_list vs (hwdb, env) = Some (0, hwdb', env') \<and> props_ok hwdb' (foldl (add_prop hwdb) al vs) \<and> same_file (hwdb, env) (hwdb', env')"
  using assms
proof (induction vs arbitrary: hwdb al env)
  case (Cons pr vs)
  obtain k v where pr: "pr = (k, v)" by (cases pr)
  have k: "k \<in> K" using Cons.prems(4) by (simp add: pr)
  have "length al = card (fst ` set al)" using distinct_card [OF props_distinct [OF Cons.prems(1)]] by simp
  also have "\<dots> \<le> card ((\<lambda>k. hw_ptr hwdb (k + 1)) ` K)" using Cons.prems(3,5) by (intro card_mono) auto
  also have "\<dots> \<le> card K" by (rule card_image_le [OF Cons.prems(5)])
  finally have len: "length al < 2 ^ 25" using Cons.prems(6) by simp
  obtain hwdb1 env1 where a: "hwdb_add_property k v (hwdb, env) = Some (0, hwdb1, env1)" "props_ok hwdb1 (add_prop hwdb al (k, v))" "all_allocs env1"
    using add_property_ok [OF Cons.prems(1) len Cons.prems(2) Cons.prems(7) [OF k]] by blast
  have sf: "same_file (hwdb, env) (hwdb1, env1)" using add_property_file [OF a(1)] by simp
  note ops = same_file_ops [OF sf]
  have keys: "fst ` set (add_prop hwdb al (k, v)) \<subseteq> (\<lambda>k. hw_ptr hwdb1 (k + 1)) ` K"
    using add_prop_keys [of hwdb al "(k, v)"] Cons.prems(3) k by (auto simp: ops(2))
  obtain hwdb' env' where r: "add_list vs (hwdb1, env1) = Some (0, hwdb', env')"
    "props_ok hwdb' (foldl (add_prop hwdb1) (add_prop hwdb al (k, v)) vs)" "same_file (hwdb1, env1) (hwdb', env')"
    using Cons.IH [OF a(2,3) keys] Cons.prems(4-7) sf by (auto simp: same_file_def)
  then show ?case using a(1) sf by (auto simp: pr ops(3) same_file_def)
qed (auto simp: same_file_def)

text \<open>
  C35: a search of the hardware database finds exactly the patterns that match. If the file holds a trie at its root, with patterns that fit the
  buffer and children in order, then preparing the properties of a name collects the properties of exactly those patterns of the trie that
  \<open>fnmatch\<close> the name, each property once under its key, with the value that was added last; keys without a leading space are left
  out. The search ends and reads only the file.
\<close>

theorem hwdb_search_exact:
  assumes "trie_header (hw_map hwdb) = Some head" "stored (hw_map hwdb) head (nodes_root_off head) t" "good_trie head t"
    "\<not> list_ex is_glob modalias" "0 \<notin> set modalias" "hw_modalias hwdb \<noteq> Some modalias" "props_ok hwdb al" "all_allocs env"
    "K = {k. \<exists>q vs v. (q, vs) \<in> set (patterns t) \<and> (k, v) \<in> set vs}" "card K < 2 ^ 25" "\<And>k. k \<in> K \<Longrightarrow> trie_string (hw_map hwdb) k \<noteq> None"
  shows "\<exists>L hwdb' env'. set L = {(q, vs) \<in> set (patterns t). fnmatch q modalias} \<and>
    properties_prepare modalias (hwdb, env) = Some (0, hwdb', env') \<and> hw_modalias hwdb' = Some modalias \<and>
    props_ok hwdb' (foldl (add_prop hwdb) [] (concat (map snd L)))"
proof -
  obtain L where L: "set L = hits_of t modalias" "adds (hw_map hwdb) L (search_loop head (nodes_root_off head) modalias [])"
    using trie_search_ok [OF assms(2-5)] by blast
  let ?hwdb = "hwdb\<lparr>hw_properties := map_option internal_hashmap_clear (hw_properties hwdb), hw_modified := True\<rparr>" and ?env = "snd (alloc env)"
  have start: "props_ok ?hwdb []" using assms(7) clear_ok by (auto simp: props_ok_def split: option.splits)
  have env: "fst (alloc env)" "all_allocs ?env" using allocs_kept [OF assms(8)] by simp_all
  have sub: "fst ` set (concat (map snd L)) \<subseteq> K" using L(1) unfolding assms(9) by (force simp: hits_of_def)
  have fin: "finite K"
  proof -
    have "K = fst ` set (concat (map snd (patterns t)))" unfolding assms(9) by force
    then show ?thesis by simp
  qed
  have sf: "same_file (hwdb, env) (?hwdb, ?env)" by (simp add: same_file_def)
  obtain hwdb' env' where r: "add_list (concat (map snd L)) (?hwdb, ?env) = Some (0, hwdb', env')"
    "props_ok hwdb' (foldl (add_prop ?hwdb) [] (concat (map snd L)))"
    using add_list_ok [OF start env(2) _ sub fin assms(10)] assms(11) by auto
  have "trie_search_f modalias (?hwdb, ?env) = Some (0, hwdb', env')"
    using L(2) r(1) assms(1) by (simp add: adds_def trie_search_f_def)
  then have "properties_prepare modalias (hwdb, env) = Some (0, hwdb'\<lparr>hw_modalias := Some modalias\<rparr>, env')"
    using assms(6) env(1) by (simp add: properties_prepare_def case_prod_unfold)
  moreover have "props_ok (hwdb'\<lparr>hw_modalias := Some modalias\<rparr>) (foldl (add_prop hwdb) [] (concat (map snd L)))"
    using r(2) same_file_ops(3) [OF sf] by (simp add: props_ok_def split: option.splits)
  ultimately show ?thesis using L(1) unfolding hits_of_def by (intro exI [of _ L]) auto
qed

text \<open>A file with one pattern, \<open>ab*\<close>, and the property \<open>K=V\<close>.\<close>

definition le64 :: "nat \<Rightarrow> byte list" where
  "le64 n = [of_nat n, 0, 0, 0, 0, 0, 0, 0]"

definition example_hwdb :: sd_hwdb where
  "example_hwdb =
     \<lparr>hw_map = HWDB_SIG @ concat (map le64 [1, 129, 80, 24, 16, 16, 80, 40, 9]) @ concat (map le64 [120, 0, 1, 124, 127]) @
         bytes_of ''ab*'' @ [0] @ bytes_of '' K'' @ [0] @ bytes_of ''V'' @ [0],
      hw_base = 4096, hw_modalias = None, hw_properties = None, hw_iterator = ITERATOR_FIRST, hw_modified = False\<rparr>"

definition example_trie :: trie where
  "example_trie = Trie (bytes_of ''ab*'') [] [(124, 127)]"

lemma example_map_bytes:
  "hw_map example_hwdb =
     [0x4b, 0x53, 0x4c, 0x50, 0x48, 0x48, 0x52, 0x48, 1, 0, 0, 0, 0, 0, 0, 0, 129, 0, 0, 0, 0, 0, 0, 0, 80, 0, 0, 0, 0, 0, 0, 0,
      24, 0, 0, 0, 0, 0, 0, 0, 16, 0, 0, 0, 0, 0, 0, 0, 16, 0, 0, 0, 0, 0, 0, 0, 80, 0, 0, 0, 0, 0, 0, 0,
      40, 0, 0, 0, 0, 0, 0, 0, 9, 0, 0, 0, 0, 0, 0, 0, 120, 0, 0, 0, 0, 0, 0, 0, 0, 0, 0, 0, 0, 0, 0, 0,
      1, 0, 0, 0, 0, 0, 0, 0, 124, 0, 0, 0, 0, 0, 0, 0, 127, 0, 0, 0, 0, 0, 0, 0, 0x61, 0x62, 0x2a, 0, 0x20, 0x4b, 0, 0x56, 0]"
  by (simp add: example_hwdb_def HWDB_SIG_def bytes_of_def le64_def of_char_def)

definition example_head :: trie_header_f where
  "example_head = \<lparr>file_size = 129, node_size = 24, child_entry_size = 16, nodes_root_off = 80\<rparr>"

lemma example_header: "trie_header (hw_map example_hwdb) = Some example_head"
  by (simp add: trie_header_def le64_at_def example_map_bytes example_head_def)

lemma example_stored: "stored (hw_map example_hwdb) example_head 80 example_trie"
proof -
  let ?m = "hw_map example_hwdb" and ?node = "\<lparr>tn_off = 80, prefix_off = 120, children_count = 0, values_count = 1\<rparr>"
  have "trie_node_from_off ?m 80 = Some ?node" by (simp add: trie_node_from_off_def le64_at_def at_def example_map_bytes)
  moreover have "trie_string ?m 120 = Some (bytes_of ''ab*'')" by (simp add: trie_string_def example_map_bytes bytes_of_def of_char_def)
  moreover have "value_entry ?m 104 = Some (124, 127)" by (simp add: value_entry_def le64_at_def example_map_bytes)
  ultimately show ?thesis unfolding example_trie_def
    by (intro stored.intros [where node = ?node]) (auto simp: trie_node_values_def example_head_def)
qed

theorem hwdb_search_exact_witness:
  "\<exists>L hwdb' env'. set L = {(bytes_of ''ab*'', [(124, 127)])} \<and>
    properties_prepare (bytes_of ''abc'') (example_hwdb, example_env) = Some (0, hwdb', env') \<and>
    props_ok hwdb' (foldl (add_prop example_hwdb) [] (concat (map snd L)))"
proof -
  have pats: "patterns example_trie = [(bytes_of ''ab*'', [(124, 127)])]" by (simp add: example_trie_def patterns_Trie)
  have K: "{k. \<exists>q vs v. (q, vs) \<in> set (patterns example_trie) \<and> (k, v) \<in> set vs} = {124}" by (auto simp: pats)
  have good: "good_trie example_head example_trie"
    by (simp add: good_trie_def example_trie_def plain_Trie fits_Trie example_head_def bytes_of_def of_char_def)
  have key: "trie_string (hw_map example_hwdb) 124 \<noteq> None" by (simp add: trie_string_def example_map_bytes)
  have m: "fnmatch (bytes_of ''ab*'') (bytes_of ''abc'')" by (simp add: bytes_of_def of_char_def fnmatch.simps(2))
  have "\<exists>L hwdb' env'. set L = {(q, vs) \<in> set (patterns example_trie). fnmatch q (bytes_of ''abc'')} \<and>
      properties_prepare (bytes_of ''abc'') (example_hwdb, example_env) = Some (0, hwdb', env') \<and> hw_modalias hwdb' = Some (bytes_of ''abc'') \<and>
      props_ok hwdb' (foldl (add_prop example_hwdb) [] (concat (map snd L)))"
  proof (rule hwdb_search_exact [OF example_header _ good _ _ _ _ _ K [symmetric]])
    show "stored (hw_map example_hwdb) example_head (nodes_root_off example_head) example_trie"
      using example_stored by (simp add: example_head_def)
    show "\<not> list_ex is_glob (bytes_of ''abc'')" "0 \<notin> set (bytes_of ''abc'')" by (simp_all add: bytes_of_def of_char_def is_glob_def)
    show "hw_modalias example_hwdb \<noteq> Some (bytes_of ''abc'')" "props_ok example_hwdb []" by (simp_all add: example_hwdb_def props_ok_def)
    show "all_allocs example_env" by (simp add: all_allocs_def example_env_def)
  qed (use key in auto)
  then show ?thesis using m by (auto simp: pats)
qed

section \<open>Errors\<close>

text \<open>A prefix that does not fit the buffer is left out without notice, and taking it off again fails.\<close>

lemma linebuf_long_prefix: "LINE_MAX \<le> length s \<Longrightarrow> linebuf_rem (linebuf_add [] s) (length s) = None"
  by (cases s) (simp_all add: linebuf_add_def linebuf_rem_def)

text \<open>A file that is too short, or cannot be mapped, gives a result that is not negative although there is no database.\<close>

lemma hwdb_new_short_file:
  assumes "opened ''/etc/systemd/hwdb/hwdb.bin'' = Inr m" "length m < 80"
  shows "sd_hwdb_new opened errno 0 mmap_errno base True = Some (errno, None)"
  using assms by (simp add: sd_hwdb_new_def hwdb_bin_paths_def)

text \<open>
  After a search that fails, the old name is kept although its properties are gone: asking for the old name again succeeds without a search.
\<close>

lemma prepare_failure_stale:
  assumes "hw_modalias hwdb = Some old" "old \<noteq> new" "fst (alloc env)"
    "trie_search_f new (hwdb\<lparr>hw_properties := map_option internal_hashmap_clear (hw_properties hwdb), hw_modified := True\<rparr>, snd (alloc env)) =
       Some (r, hwdb', env')" "r < 0" "hw_modalias hwdb' = hw_modalias hwdb"
  shows "properties_prepare new (hwdb, env) = Some (r, hwdb', env')" "properties_prepare old (hwdb', env') = Some (0, hwdb', env')"
  using assms by (simp_all add: properties_prepare_def case_prod_unfold)

end
