(* ===== verification/Helpers_Common.thy ===== *)
theory Helpers_Common
  imports Udev_Util Libvdev_Util
begin

text \<open>
  \<^verbatim>\<open>vdevd/helpers/LINUX/common.c\<close>: what the helper programs share. Strings that come from devices are made safe for file names and for the
  shell, with copies of functions of libudev; the properties that are found are kept in a list and printed; and sysfs is searched for
  attributes, parents and subsystems of devices. The result \<open>None\<close> is a crash or an access outside of a buffer.
\<close>

unbundle bit_operations_syntax

section \<open>Strings\<close>

function whitespace_loop :: "cstr \<Rightarrow> cstr" where
  "whitespace_loop [] = []"
| "whitespace_loop (c # s) =
     (if isspace c then
        (case dropWhile isspace s of [] \<Rightarrow> [CHR ''_''] | d # s' \<Rightarrow> CHR ''_'' # d # whitespace_loop s')
      else c # whitespace_loop s)"
  by pat_completeness auto
termination
proof (relation "measure length", goal_cases)
  case (2 c s d s')
  then have "length (d # s') \<le> length s" by (metis length_dropWhile_le)
  then show ?case by simp
qed simp_all

definition vdev_util_replace_whitespace :: "cstr \<Rightarrow> nat \<Rightarrow> cstr" where
  "vdev_util_replace_whitespace str len =
     (let stripped = rev (dropWhile isspace (rev (take len str))) in whitespace_loop (dropWhile isspace stripped))"

definition vdev_whitelisted_char_for_devnode :: "byte \<Rightarrow> byte list option \<Rightarrow> bool" where
  "vdev_whitelisted_char_for_devnode c white =
     ((c \<ge> 0x30 \<and> c \<le> 0x39) \<or> (c \<ge> 0x41 \<and> c \<le> 0x5a) \<or> (c \<ge> 0x61 \<and> c \<le> 0x7a) \<or> c \<in> set (bytes_of ''#+-.:=@_'') \<or>
      white \<noteq> None \<and> c \<in> set (the white))"

definition vdev_is_unicode_valid :: "32 word \<Rightarrow> bool" where
  "vdev_is_unicode_valid ch \<longleftrightarrow>
     \<not> ch \<ge> 0x110000 \<and> ch AND 0xFFFFF800 \<noteq> 0xD800 \<and> \<not> (ch \<ge> 0xFDD0 \<and> ch \<le> 0xFDEF) \<and> ch AND 0xFFFE \<noteq> 0xFFFE"

definition vdev_utf8_encoded_expected_len :: "byte list \<Rightarrow> nat" where
  "vdev_utf8_encoded_expected_len str =
     (let c = first_byte str
      in if c < 0x80 then 1
         else if c AND 0xe0 = 0xc0 then 2
         else if c AND 0xf0 = 0xe0 then 3
         else if c AND 0xf8 = 0xf0 then 4
         else if c AND 0xfc = 0xf8 then 5
         else if c AND 0xfe = 0xfc then 6
         else 0)"

text \<open>The loop over the bytes behind the first; \<open>None\<close> stands for \<open>- EINVAL\<close>.\<close>

fun unichar_loop :: "nat \<Rightarrow> byte list \<Rightarrow> 32 word \<Rightarrow> 32 word option" where
  "unichar_loop 0 str unichar = Some unichar"
| "unichar_loop (Suc n) str unichar =
     (if first_byte str AND 0xc0 \<noteq> 0x80 then None
      else unichar_loop n (tl str) (push_bit 6 unichar OR ucast (first_byte str AND 0x3f)))"

definition vdev_utf8_encoded_to_unichar :: "byte list \<Rightarrow> 32 word option" where
  "vdev_utf8_encoded_to_unichar str =
     (let len = vdev_utf8_encoded_expected_len str; c = first_byte str
      in if len = 1 then Some (ucast c)
         else if len = 0 then None
         else
           (let mask = (if len = 2 then 0x1f else if len = 3 then 0x0f else if len = 4 then 0x07 else if len = 5 then 0x03 else 0x01)
            in unichar_loop (len - 1) (tl str) (ucast (c AND mask))))"

definition vdev_utf8_unichar_to_encoded_len :: "32 word \<Rightarrow> nat" where
  "vdev_utf8_unichar_to_encoded_len unichar =
     (if unichar < 0x80 then 1
      else if unichar < 0x800 then 2
      else if unichar < 0x10000 then 3
      else if unichar < 0x200000 then 4
      else if unichar < 0x4000000 then 5
      else 6)"

definition vdev_utf8_encoded_valid_unichar :: "byte list \<Rightarrow> int" where
  "vdev_utf8_encoded_valid_unichar str =
     (let len = vdev_utf8_encoded_expected_len str
      in if len = 0 then - EINVAL
         else if len = 1 then 1
         else if \<not> (\<forall>i < len. first_byte (drop i str) AND 0x80 = 0x80) then - EINVAL
         else
           (case vdev_utf8_encoded_to_unichar str of
              None \<Rightarrow> - EINVAL
            | Some unichar \<Rightarrow>
                if vdev_utf8_unichar_to_encoded_len unichar \<noteq> len then - EINVAL
                else if \<not> vdev_is_unicode_valid unichar then - EINVAL
                else int len))"

lemma vdev_valid_unichar_le:
  assumes "vdev_utf8_encoded_valid_unichar str > 1"
  shows "nat (vdev_utf8_encoded_valid_unichar str) \<le> length str"
proof (rule ccontr)
  let ?len = "vdev_utf8_encoded_expected_len str"
  assume "\<not> ?thesis"
  moreover have "vdev_utf8_encoded_valid_unichar str = int ?len" and all: "\<forall>i < ?len. first_byte (drop i str) AND 0x80 = 0x80"
    using assms by (auto simp: vdev_utf8_encoded_valid_unichar_def Let_def split: if_splits option.splits)
  ultimately have "length str < ?len" by simp
  then have "first_byte (drop (length str) str) AND 0x80 = 0x80" using all by blast
  then show False by (simp add: first_byte_def)
qed

function vdev_util_replace_chars :: "byte list option \<Rightarrow> byte list \<Rightarrow> nat \<times> byte list" where
  "vdev_util_replace_chars white str =
     (if str = [] then (0, [])
      else if vdev_whitelisted_char_for_devnode (hd str) white then apsnd ((#) (hd str)) (vdev_util_replace_chars white (tl str))
      else if hd str = BACKSLASH \<and> first_byte (tl str) = 0x78 then apsnd ((@) [hd str, 0x78]) (vdev_util_replace_chars white (tl (tl str)))
      else
        (let len = vdev_utf8_encoded_valid_unichar str
         in if len > 1 then apsnd ((@) (take (nat len) str)) (vdev_util_replace_chars white (drop (nat len) str))
            else if isspace_byte (hd str) \<and> white \<noteq> None \<and> 0x20 \<in> set (the white)
            then map_prod Suc ((#) 0x20) (vdev_util_replace_chars white (tl str))
            else map_prod Suc ((#) 0x5f) (vdev_util_replace_chars white (tl str))))"
  by pat_completeness auto
termination
proof (relation "measure (\<lambda>(white, str). length str)", goal_cases)
  case (3 white str)
  then show ?case by (cases str; cases "tl str") auto
next
  case (4 white str len)
  then show ?case using vdev_valid_unichar_le by (cases str) auto
qed auto

declare vdev_util_replace_chars.simps [simp del]

text \<open>The encoding into a buffer of \<open>len\<close> bytes; \<open>sprintf\<close> writes a NUL behind the four characters that are checked for.\<close>

function encode_string_loop :: "nat \<Rightarrow> byte list \<Rightarrow> byte list \<Rightarrow> (rc \<times> byte list) option" where
  "encode_string_loop len str out =
     (if str = [] then Some (if len - length out < 1 then (- EINVAL, out) else (0, out))
      else
        (let seqlen = vdev_utf8_encoded_valid_unichar str
         in if seqlen > 1 then
              if len - length out < nat seqlen then Some (- EINVAL, out)
              else encode_string_loop len (drop (nat seqlen) str) (out @ take (nat seqlen) str)
            else if hd str = BACKSLASH \<or> \<not> vdev_whitelisted_char_for_devnode (hd str) None then
              if len - length out < 4 then Some (- EINVAL, out)
              else if len - length out = 4 then None
              else encode_string_loop len (tl str) (out @ hex_escape (hd str))
            else if len - length out < 1 then Some (- EINVAL, out)
            else encode_string_loop len (tl str) (out @ [hd str])))"
  by pat_completeness auto
termination
proof (relation "measure (\<lambda>(len, str, out). length str)", goal_cases)
  case (2 len str out seqlen)
  then show ?case using vdev_valid_unichar_le by (cases str) auto
qed auto

declare encode_string_loop.simps [simp del]

definition vdev_util_encode_string :: "byte list option \<Rightarrow> nat \<Rightarrow> (rc \<times> byte list) option" where
  "vdev_util_encode_string str len = (case str of None \<Rightarrow> Some (- EINVAL, []) | Some s \<Rightarrow> encode_string_loop len s [])"

text \<open>Stripping white space from the end. The index is unsigned, so a string of white space alone is read before its start.\<close>

definition vdev_util_rstrip :: "cstr \<Rightarrow> cstr option" where
  "vdev_util_rstrip str =
     (if str = [] then Some []
      else if list_all isspace str then None
      else Some (rev (dropWhile isspace (rev str))))"

section \<open>Properties\<close>

type_synonym vdev_properties = "(cstr \<times> cstr) list"

definition vdev_property_add :: "bool \<Rightarrow> cstr \<Rightarrow> cstr \<Rightarrow> vdev_properties \<Rightarrow> rc \<times> vdev_properties" where
  "vdev_property_add mem name val props = (if \<not> mem then (- ENOMEM, props) else (0, props @ [(name, val)]))"

definition QUOTE :: char where "QUOTE = CHR 0x27"

definition vdev_property_print :: "vdev_properties \<Rightarrow> cstr" where
  "vdev_property_print props =
     (if props = [] then []
      else concat (map (\<lambda>(name, val). name @ ''='' @ [QUOTE] @ val @ [QUOTE, NL]) props) @
           ''VDEV_PROPERTIES='' @ [CHR 0x22] @ concat (map (\<lambda>(name, val). name @ '' '') props) @ [CHR 0x22, NL])"

definition vdev_property_free_all :: "vdev_properties \<Rightarrow> vdev_properties" where
  "vdev_property_free_all props = []"

section \<open>Files\<close>

text \<open>
  The file system as the helpers see it: the kind and size that \<open>stat\<close> gives, which follows links; what the reads of an open file give; the
  targets of links; and absolute paths.
\<close>

datatype file_stat = RegStat nat | LnkStat nat | OtherStat nat

fun st_size :: "file_stat \<Rightarrow> nat" where
  "st_size (RegStat n) = n"
| "st_size (LnkStat n) = n"
| "st_size (OtherStat n) = n"

record helper_os =
  ho_stat :: "cstr \<Rightarrow> rc + file_stat"
  ho_open :: "cstr \<Rightarrow> rc + io_event list"
  ho_readlink :: "cstr \<Rightarrow> rc + cstr"
  ho_realpath :: "cstr \<Rightarrow> cstr option"

text \<open>\<open>sprintf\<close> into a buffer on the stack.\<close>

definition stack_str :: "nat \<Rightarrow> cstr \<Rightarrow> cstr option" where
  "stack_str room s = (if length s < room then Some s else None)"

text \<open>The content of a file as far as the reads give it, at most \<open>len\<close> bytes; no more data is the end of the file.\<close>

definition read_content :: "io_event list \<Rightarrow> nat \<Rightarrow> rc + char list" where
  "read_content evs len =
     (case vdev_read_uninterrupted (evs @ [IoData []]) len of Some (r, _) \<Rightarrow> r | None \<Rightarrow> Inr [])"

definition helper_read_file :: "helper_os \<Rightarrow> cstr \<Rightarrow> rc + char list" where
  "helper_read_file os path =
     (case ho_stat os path of
        Inl e \<Rightarrow> Inl (- e)
      | Inr sb \<Rightarrow> (case ho_open os path of Inl e \<Rightarrow> Inl (- e) | Inr evs \<Rightarrow> read_content evs (st_size sb)))"

text \<open>An attribute and its length. A regular file is read; the length is that of \<open>stat\<close>.\<close>

definition vdev_sysfs_read_attr :: "helper_os \<Rightarrow> cstr \<Rightarrow> cstr \<Rightarrow> (rc + cstr \<times> nat) option" where
  "vdev_sysfs_read_attr os sysfs_device_path attr_name =
     (case stack_str 4097 (sysfs_device_path @ ''/'' @ attr_name) of
        None \<Rightarrow> None
      | Some attr_path \<Rightarrow>
          Some (case ho_stat os attr_path of
                  Inl e \<Rightarrow> Inl (- e)
                | Inr (RegStat n) \<Rightarrow>
                    (case ho_open os attr_path of
                       Inl e \<Rightarrow> Inl (- e)
                     | Inr evs \<Rightarrow> (case read_content evs n of Inl rc \<Rightarrow> Inl rc | Inr bs \<Rightarrow> Inr (cstr_of bs, n)))
                | Inr (LnkStat n) \<Rightarrow> (case ho_readlink os attr_path of Inl e \<Rightarrow> Inl (- e) | Inr t \<Rightarrow> Inr (take n t, n + 1))
                | Inr (OtherStat n) \<Rightarrow> Inl (- EINVAL)))"

text \<open>The lines of a uevent, and the value of the first line with the key.\<close>

fun uevent_key_loop :: "cstr list \<Rightarrow> cstr \<Rightarrow> rc + cstr" where
  "uevent_key_loop [] key = Inl (- ENOENT)"
| "uevent_key_loop (tok # toks) key =
     (case strchr tok (CHR ''='') of
        None \<Rightarrow> uevent_key_loop toks key
      | Some delim \<Rightarrow>
          if takeWhile (\<lambda>c. c \<noteq> CHR ''='') tok = key then Inr (tl delim) else uevent_key_loop toks key)"

definition vdev_sysfs_uevent_get_key :: "char list \<Rightarrow> cstr \<Rightarrow> rc + cstr" where
  "vdev_sysfs_uevent_get_key uevent_buf key =
     uevent_key_loop (filter (\<lambda>tok. tok \<noteq> []) (split_on NL (cstr_of uevent_buf))) key"

definition vdev_sysfs_uevent_read_key :: "helper_os \<Rightarrow> cstr \<Rightarrow> cstr \<Rightarrow> rc + cstr" where
  "vdev_sysfs_uevent_read_key os sysfs_device_path uevent_key =
     (case helper_read_file os (sysfs_device_path @ ''/uevent'') of
        Inl rc \<Rightarrow> Inl rc
      | Inr uevent_buf \<Rightarrow> vdev_sysfs_uevent_get_key uevent_buf uevent_key)"

section \<open>Devices in sysfs\<close>

text \<open>The path without its last component, and without the slashes before it except one at the start.\<close>

definition lop_child :: "cstr \<Rightarrow> cstr" where
  "lop_child p =
     (case before_slash p of
        None \<Rightarrow> p
      | Some b \<Rightarrow> (let q = rev (dropWhile (\<lambda>c. c = SLASH) (rev b)) in if q = [] then take 1 p else q))"

lemma before_slash_length: "before_slash p = Some b \<Longrightarrow> length b < length p"
proof -
  assume "before_slash p = Some b"
  then have s: "SLASH \<in> set p" "b = rev (tl (dropWhile (\<lambda>c. c \<noteq> SLASH) (rev p)))" by (auto simp: before_slash_def split: if_splits)
  have "dropWhile (\<lambda>c. c \<noteq> SLASH) (rev p) \<noteq> []" using s(1) by (auto simp: dropWhile_eq_Nil_conv)
  moreover have "length (dropWhile (\<lambda>c. c \<noteq> SLASH) (rev p)) \<le> length p" using length_dropWhile_le [of _ "rev p"] by simp
  ultimately show ?thesis using s(2) by (cases "dropWhile (\<lambda>c. c \<noteq> SLASH) (rev p)") auto
qed

lemma lop_child_length:
  assumes "before_slash p = Some b" "b \<noteq> []"
  shows "length (lop_child p) < length p" "lop_child p \<noteq> []"
proof -
  let ?q = "rev (dropWhile (\<lambda>c. c = SLASH) (rev b))"
  have l: "length b < length p" by (rule before_slash_length [OF assms(1)])
  have q: "length ?q \<le> length b" using length_dropWhile_le [of "\<lambda>c. c = SLASH" "rev b"] by simp
  have b: "1 \<le> length b" using assms(2) by (cases b) simp_all
  have lop: "lop_child p = (if ?q = [] then take 1 p else ?q)" using assms(1) by (simp add: lop_child_def Let_def)
  show "length (lop_child p) < length p"
  proof (cases "?q = []")
    case True
    then show ?thesis using l b by (simp add: lop del: length_greater_0_conv)
  next
    case False
    then have "lop_child p = ?q" unfolding lop by (rule if_not_P)
    then show ?thesis using l q by simp
  qed
  have "take 1 p \<noteq> []" using l by (cases p) simp_all
  then show "lop_child p \<noteq> []" unfolding lop by presburger
qed

function parent_device_loop :: "helper_os \<Rightarrow> cstr \<Rightarrow> rc + cstr" where
  "parent_device_loop os parent_path =
     (if parent_path = [] then Inr []
      else
        (case before_slash parent_path of
           None \<Rightarrow> Inl (- EINVAL)
         | Some b \<Rightarrow>
             if b = [] then Inl (- ENOENT)
             else
               (case ho_stat os (lop_child parent_path @ ''/uevent'') of
                  Inl _ \<Rightarrow> parent_device_loop os (lop_child parent_path)
                | Inr _ \<Rightarrow> Inr (lop_child parent_path))))"
  by pat_completeness auto
termination by (relation "measure (\<lambda>(os, p). length p)") (auto simp: lop_child_length)

declare parent_device_loop.simps [simp del]

definition vdev_sysfs_get_parent_device :: "helper_os \<Rightarrow> cstr \<Rightarrow> rc + cstr" where
  "vdev_sysfs_get_parent_device os dev_path = parent_device_loop os dev_path"

text \<open>Whether a device with the right subsystem has the right type; \<open>None\<close> means that the search goes on.\<close>

definition devtype_test :: "helper_os \<Rightarrow> cstr \<Rightarrow> cstr option \<Rightarrow> (rc + cstr) option" where
  "devtype_test os parent devtype_name =
     (case devtype_name of
        None \<Rightarrow> Some (Inr parent)
      | Some name \<Rightarrow>
          (case helper_read_file os (parent @ ''/uevent'') of
             Inl rc \<Rightarrow> Some (Inl rc)
           | Inr uevent_buf \<Rightarrow>
               (case vdev_sysfs_uevent_get_key uevent_buf ''DEVTYPE'' of
                  Inl rc \<Rightarrow> if rc = - ENOENT then None else Some (Inl rc)
                | Inr devtype \<Rightarrow> if devtype = name then Some (Inr parent) else None)))"

partial_function (option) parent_with_loop :: "helper_os \<Rightarrow> cstr \<Rightarrow> cstr option \<Rightarrow> cstr \<Rightarrow> (rc + cstr) option" where
  "parent_with_loop os subsystem_name devtype_name cur_dir =
     (case vdev_sysfs_get_parent_device os cur_dir of
        Inl rc \<Rightarrow> Some (Inl rc)
      | Inr parent \<Rightarrow>
          if length parent + 10 \<ge> 4097 then None
          else
            (case ho_readlink os (parent @ ''/subsystem'') of
               Inl e \<Rightarrow> Some (Inl (- e))
             | Inr subsystem_link \<Rightarrow>
                 (case after_slash (take 4096 subsystem_link) of
                    None \<Rightarrow> None
                  | Some name \<Rightarrow>
                      if name \<noteq> subsystem_name then parent_with_loop os subsystem_name devtype_name parent
                      else
                        (case devtype_test os parent devtype_name of
                           Some result \<Rightarrow> Some result
                         | None \<Rightarrow> parent_with_loop os subsystem_name devtype_name parent))))"

definition vdev_sysfs_get_parent_with_subsystem_devtype :: "helper_os \<Rightarrow> cstr \<Rightarrow> cstr \<Rightarrow> cstr option \<Rightarrow> (rc + cstr) option" where
  "vdev_sysfs_get_parent_with_subsystem_devtype os sysfs_device_path subsystem_name devtype_name =
     (case stack_str 4097 sysfs_device_path of
        None \<Rightarrow> None
      | Some cur_dir \<Rightarrow> parent_with_loop os subsystem_name devtype_name cur_dir)"

definition vdev_sysfs_read_device_path :: "helper_os \<Rightarrow> cstr \<Rightarrow> (rc + cstr) option" where
  "vdev_sysfs_read_device_path os sysfs_dir =
     (case stack_str 8193 (sysfs_dir @ ''/device'') of
        None \<Rightarrow> None
      | Some path_buf \<Rightarrow>
          Some (case ho_stat os path_buf of
                  Inl e \<Rightarrow> Inl (- e)
                | Inr (LnkStat _) \<Rightarrow> (case ho_realpath os path_buf of None \<Rightarrow> Inl (- ENOMEM) | Some p \<Rightarrow> Inr p)
                | Inr _ \<Rightarrow> Inl (- EINVAL)))"

text \<open>The first of several directories that exists.\<close>

fun first_dir :: "helper_os \<Rightarrow> cstr list \<Rightarrow> (rc + cstr) option \<Rightarrow> (rc + cstr) option" where
  "first_dir os [] otherwise = otherwise"
| "first_dir os (p # ps) otherwise =
     (case stack_str 8193 p of
        None \<Rightarrow> None
      | Some path_buf \<Rightarrow>
          (case ho_stat os path_buf of
             Inr _ \<Rightarrow> vdev_sysfs_read_device_path os path_buf
           | Inl _ \<Rightarrow> first_dir os ps otherwise))"

text \<open>In the case of drivers, the name is used as a format; one with a percent sign has no defined meaning.\<close>

definition vdev_sysfs_device_path_from_subsystem_sysname :: "helper_os \<Rightarrow> cstr \<Rightarrow> cstr \<Rightarrow> cstr \<Rightarrow> (rc + cstr) option" where
  "vdev_sysfs_device_path_from_subsystem_sysname os sysfs_mount subsystem sysname =
     (let general =
            first_dir os
              [sysfs_mount @ ''/subsystem/'' @ subsystem @ ''/devices/'' @ sysname @ ''/'',
               sysfs_mount @ ''/bus/'' @ subsystem @ ''/devices/'' @ sysname @ ''/'',
               sysfs_mount @ ''/class/'' @ subsystem @ ''/'' @ sysname] (Some (Inl (- ENOENT)))
      in if subsystem = ''subsystem'' then
           first_dir os
             [sysfs_mount @ ''/subsystem/'' @ sysname @ ''/'', sysfs_mount @ ''/bus/'' @ sysname @ ''/'', sysfs_mount @ ''/class/'' @ sysname @ ''/'']
             general
         else if subsystem = ''module'' then first_dir os [sysfs_mount @ ''/module/'' @ sysname @ ''/''] general
         else if subsystem = ''drivers'' then
           if CHR ''%'' \<in> set sysname \<or> length sysname \<ge> 4096 then None
           else
             (case strchr sysname (CHR '':'') of
                None \<Rightarrow> Some (Inl (- EINVAL))
              | Some driver \<Rightarrow>
                  (let prefix = takeWhile (\<lambda>c. c \<noteq> CHR '':'') sysname
                   in first_dir os
                        [sysfs_mount @ ''/subsystem/'' @ prefix @ ''/drivers/'' @ tl driver @ ''/'',
                         sysfs_mount @ ''/bus/'' @ prefix @ ''/drivers/'' @ tl driver @ ''/''] general))
         else general)"

text \<open>A target that fills the buffer has no NUL.\<close>

definition vdev_sysfs_read_subsystem :: "helper_os \<Rightarrow> cstr \<Rightarrow> (rc + cstr) option" where
  "vdev_sysfs_read_subsystem os devpath =
     (case ho_readlink os (devpath @ ''/subsystem'') of
        Inl e \<Rightarrow> Some (Inl (- e))
      | Inr linkpath \<Rightarrow>
          if length linkpath \<ge> 4097 then None
          else Some (case after_slash linkpath of None \<Rightarrow> Inl (- EINVAL) | Some subsystem \<Rightarrow> Inr subsystem))"

definition vdev_sysfs_get_sysname :: "cstr \<Rightarrow> rc + cstr" where
  "vdev_sysfs_get_sysname devpath =
     (case after_slash devpath of
        None \<Rightarrow> Inl (- EINVAL)
      | Some sysname \<Rightarrow> Inr (map (\<lambda>c. if c = CHR ''!'' then SLASH else c) sysname))"

text \<open>
  The loop starts at the NUL behind the name, which is not a digit, so \<open>i\<close> is 1 when the number is read from the end; of an empty name, that is
  the byte before it. The number is cut to 32 bits.
\<close>

definition count_digits :: "cstr \<Rightarrow> nat" where
  "count_digits sysname = length (takeWhile (is_digit_in 10) (rev (sysname @ [NUL])))"

definition vdev_sysfs_get_sysnum :: "cstr \<Rightarrow> (rc + int) option" where
  "vdev_sysfs_get_sysnum devpath =
     (case vdev_sysfs_get_sysname devpath of
        Inl rc \<Rightarrow> Some (Inl rc)
      | Inr sysname \<Rightarrow>
          (let i = count_digits sysname + 1
           in if i > length sysname then None
              else Some (Inr (sint (word_of_int (fst (strtoll 10 (drop (length sysname - i) sysname))) :: 32 word)))))"

datatype mode_kind = ModeChr | ModeBlk | ModeOther

definition vdev_sysfs_get_syspath_from_device :: "helper_os \<Rightarrow> cstr \<Rightarrow> mode_kind \<Rightarrow> nat \<Rightarrow> nat \<Rightarrow> (rc + cstr) option" where
  "vdev_sysfs_get_syspath_from_device os sysfs_mountpoint mode major minor =
     (if mode = ModeOther then Some (Inl (- EINVAL))
      else
        (let devpath = sysfs_mountpoint @ (if mode = ModeChr then ''/dev/char/'' else ''/dev/block/'') @ show_nat major @ '':'' @ show_nat minor
         in case ho_readlink os devpath of
              Inl e \<Rightarrow> Some (Inl (- e))
            | Inr linkbuf \<Rightarrow>
                if length linkbuf \<ge> 4097 then None
                else if take 13 linkbuf \<noteq> ''../../devices'' then Some (Inl (- EIO))
                else Some (Inr (sysfs_mountpoint @ ''/'' @ drop 6 linkbuf))))"

section \<open>The copies of libudev's functions\<close>

lemma whitespace_loop_same: "whitespace_loop s = collapse_spaces s"
proof (induction s rule: whitespace_loop.induct)
  case (2 c s)
  then show ?case by (cases "dropWhile isspace s") (simp_all del: dropWhile_eq_Nil_conv)
qed simp

lemma unichar_loop_same: "unichar_loop n str u = utf8_continue n str u"
proof (induction n arbitrary: str u)
  case (Suc n)
  then show ?case by (cases str) (auto simp: first_byte_def)
qed simp

lemma expected_len_same: "vdev_utf8_encoded_expected_len str = utf8_encoded_expected_len (first_byte str)"
  by (simp add: vdev_utf8_encoded_expected_len_def utf8_encoded_expected_len_def Let_def)

lemma expected_len_range: "utf8_encoded_expected_len c \<in> {0, 1, 2, 3, 4, 5, 6}"
  by (simp add: utf8_encoded_expected_len_def)

lemma to_unichar_same: "vdev_utf8_encoded_to_unichar str = utf8_encoded_to_unichar str"
  using expected_len_range [of "first_byte str"]
  by (auto simp: vdev_utf8_encoded_to_unichar_def utf8_encoded_to_unichar_def expected_len_same unichar_loop_same Let_def eval_nat_numeral)

lemma unicode_valid_same: "vdev_is_unicode_valid ch = is_unicode_valid ch"
  by (simp add: vdev_is_unicode_valid_def is_unicode_valid_def)

lemma high_bytes_same:
  "(\<forall>i < len. first_byte (drop i str) AND 0x80 = 0x80) \<longleftrightarrow> len \<le> length str \<and> (\<forall>c \<in> set (take len str). c AND 0x80 = 0x80)"
  (is "?l \<longleftrightarrow> ?r")
proof
  assume l: ?l
  have le: "len \<le> length str"
  proof (rule ccontr)
    assume "\<not> len \<le> length str"
    then have "first_byte (drop (length str) str) AND 0x80 = 0x80" using l not_le_imp_less by blast
    then show False by (simp add: first_byte_def)
  qed
  have "c AND 0x80 = 0x80" if c: "c \<in> set (take len str)" for c
  proof -
    obtain i where "i < len" "i < length str" "c = str ! i" using c by (auto simp: in_set_conv_nth)
    then show ?thesis using l by (auto simp: first_byte_def Cons_nth_drop_Suc [symmetric])
  qed
  then show ?r using le by blast
next
  assume r: ?r
  show ?l
  proof (intro allI impI)
    fix i assume i: "i < len"
    then have "str ! i \<in> set (take len str)" using r by (auto simp: in_set_conv_nth)
    then show "first_byte (drop i str) AND 0x80 = 0x80" using r i by (auto simp: first_byte_def Cons_nth_drop_Suc [symmetric])
  qed
qed

lemma valid_unichar_same: "vdev_utf8_encoded_valid_unichar = utf8_encoded_valid_unichar"
proof
  fix str
  show "vdev_utf8_encoded_valid_unichar str = utf8_encoded_valid_unichar str"
    unfolding vdev_utf8_encoded_valid_unichar_def utf8_encoded_valid_unichar_def expected_len_same to_unichar_same unicode_valid_same
      high_bytes_same vdev_utf8_unichar_to_encoded_len_def utf8_unichar_to_encoded_len_def ..
qed

lemma whitelisted_same: "vdev_whitelisted_char_for_devnode c white = whitelisted_char_for_devnode c white"
  by (auto simp: vdev_whitelisted_char_for_devnode_def whitelisted_char_for_devnode_def split: option.splits)

lemma replace_chars_same: "vdev_util_replace_chars white str = util_replace_chars white str"
proof (induction white str rule: util_replace_chars.induct)
  case (1 white str)
  then show ?case
    by (subst vdev_util_replace_chars.simps, subst util_replace_chars.simps)
       (auto simp: valid_unichar_same whitelisted_same Let_def split: list.splits option.splits)
qed

lemma encode_loop_same: "encode_string_loop len str out = encode_devnode_loop len str out"
proof (induction len str out rule: encode_devnode_loop.induct)
  case (1 len str out)
  then show ?case
    by (subst encode_string_loop.simps, subst encode_devnode_loop.simps)
       (auto simp: valid_unichar_same whitelisted_same Let_def split: list.splits)
qed

text \<open>
  C34: the names that vdevd's helpers make are those that libudev makes: replacing white space, replacing unsafe characters, encoding, and
  recognising UTF-8 give the same results in \<^verbatim>\<open>common.c\<close> and in libudev, errors and writes past the buffer included.
\<close>

theorem helper_strings_like_libudev:
  "vdev_util_replace_whitespace str len = util_replace_whitespace str len \<and>
   vdev_util_replace_chars white bytes = util_replace_chars white bytes \<and>
   vdev_util_encode_string bs room = udev_util_encode_string bs room \<and>
   vdev_utf8_encoded_valid_unichar bytes = utf8_encoded_valid_unichar bytes"
  unfolding vdev_util_replace_whitespace_def util_replace_whitespace_def vdev_util_encode_string_def udev_util_encode_string_def
    encode_devnode_name_def Let_def whitespace_loop_same replace_chars_same encode_loop_same valid_unichar_same
  by simp

section \<open>Keys of a uevent\<close>

definition uevent_line_ok :: "cstr \<times> cstr \<Rightarrow> bool" where
  "uevent_line_ok kv \<longleftrightarrow> CHR ''='' \<notin> set (fst kv) \<and> NL \<notin> set (fst kv) \<and> NL \<notin> set (snd kv) \<and> NUL \<notin> set (fst kv) \<and> NUL \<notin> set (snd kv)"

definition print_uevent :: "(cstr \<times> cstr) list \<Rightarrow> cstr" where
  "print_uevent kvs = concat (map (\<lambda>(k, v). k @ ''='' @ v @ [NL]) kvs)"

lemma strchr_key: "CHR ''='' \<notin> set k \<Longrightarrow> strchr (k @ CHR ''='' # v) (CHR ''='') = Some (CHR ''='' # v)"
  by (induction k) auto

lemma uevent_lines:
  assumes "list_all uevent_line_ok kvs"
  shows "filter (\<lambda>tok. tok \<noteq> []) (split_on NL (print_uevent kvs)) = map (\<lambda>(k, v). k @ ''='' @ v) kvs"
  using assms
proof (induction kvs)
  case (Cons kv kvs)
  obtain k v where kv: "kv = (k, v)" by (cases kv)
  have "split_on NL (print_uevent (kv # kvs)) = split_on NL ((k @ ''='' @ v) @ NL # print_uevent kvs)" by (simp add: print_uevent_def kv)
  also have "\<dots> = [k @ ''='' @ v] @ split_on NL (print_uevent kvs)"
    using Cons.prems unfolding split_on_append by (subst split_on_notin) (auto simp: uevent_line_ok_def kv)
  finally show ?case using Cons by (simp add: kv)
qed (simp add: print_uevent_def)

lemma uevent_keys: "list_all uevent_line_ok kvs \<Longrightarrow>
  uevent_key_loop (map (\<lambda>(k, v). k @ ''='' @ v) kvs) key = (case map_of kvs key of None \<Rightarrow> Inl (- ENOENT) | Some v \<Rightarrow> Inr v)"
proof (induction kvs)
  case (Cons kv kvs)
  obtain k v where kv: "kv = (k, v)" by (cases kv)
  have k: "CHR ''='' \<notin> set k" using Cons.prems by (simp add: uevent_line_ok_def kv)
  then have "takeWhile (\<lambda>c. c \<noteq> CHR ''='') (k @ CHR ''='' # v) = k" by (induction k) auto
  then show ?case using Cons strchr_key [OF k, of v] by (simp add: kv)
qed simp

lemma print_uevent_no_nul: "list_all uevent_line_ok kvs \<Longrightarrow> NUL \<notin> set (print_uevent kvs)"
  by (induction kvs) (auto simp: print_uevent_def uevent_line_ok_def)

lemma uevent_get_key_print:
  assumes "list_all uevent_line_ok kvs"
  shows "vdev_sysfs_uevent_get_key (print_uevent kvs) key = (case map_of kvs key of None \<Rightarrow> Inl (- ENOENT) | Some v \<Rightarrow> Inr v)"
proof -
  have "cstr_of (print_uevent kvs) = print_uevent kvs"
    using print_uevent_no_nul [OF assms] by (auto simp: cstr_of_def takeWhile_eq_all_conv)
  then show ?thesis unfolding vdev_sysfs_uevent_get_key_def uevent_lines [OF assms] uevent_keys [OF assms]
    by (simp only: uevent_lines [OF assms] uevent_keys [OF assms])
qed

section \<open>Parents\<close>

text \<open>An absolute path, the paths above it from the bottom up, and those of them that are devices.\<close>

definition sys_path :: "cstr list \<Rightarrow> cstr" where
  "sys_path cs = concat (map (\<lambda>c. SLASH # c) cs)"

definition sys_name :: "cstr \<Rightarrow> bool" where
  "sys_name c \<longleftrightarrow> c \<noteq> [] \<and> SLASH \<notin> set c"

definition upwards :: "'a list \<Rightarrow> 'a list list" where
  "upwards cs = map (\<lambda>n. take n cs) (rev [1..<length cs])"

definition is_device :: "helper_os \<Rightarrow> cstr \<Rightarrow> bool" where
  "is_device os p = (case ho_stat os (p @ ''/uevent'') of Inl _ \<Rightarrow> False | Inr _ \<Rightarrow> True)"

definition device_ancestors :: "helper_os \<Rightarrow> cstr list \<Rightarrow> cstr list" where
  "device_ancestors os cs = filter (is_device os) (map sys_path (upwards cs))"

lemma upwards_snoc: "upwards (cs @ [c]) = (if cs = [] then [] else cs # upwards cs)"
proof (cases "cs = []")
  case False
  then have "[1..<length (cs @ [c])] = [1..<length cs] @ [length cs]" by (cases cs) simp_all
  then show ?thesis using False by (auto simp: upwards_def)
qed (simp add: upwards_def)

lemma sys_path_snoc: "sys_path (cs @ [c]) = sys_path cs @ SLASH # c"
  by (simp add: sys_path_def)

lemma sys_path_Nil: "sys_path cs = [] \<longleftrightarrow> cs = []"
  by (cases cs) (simp_all add: sys_path_def)

lemma sys_path_before: "SLASH \<notin> set c \<Longrightarrow> before_slash (sys_path (cs @ [c])) = Some (sys_path cs)"
  by (simp add: sys_path_snoc before_slash_append)

lemma sys_path_rstrip:
  assumes "sys_name c"
  shows "rev (dropWhile (\<lambda>x. x = SLASH) (rev (sys_path (cs @ [c])))) = sys_path (cs @ [c])"
proof -
  obtain x xs where x: "rev c = x # xs" "x \<noteq> SLASH" using assms by (cases c rule: rev_cases) (auto simp: sys_name_def)
  then show ?thesis by (simp add: sys_path_snoc)
qed

lemma lop_child_path:
  assumes "sys_name c" "list_all sys_name cs" "cs \<noteq> []"
  shows "lop_child (sys_path (cs @ [c])) = sys_path cs"
proof -
  obtain ds d where cs: "cs = ds @ [d]" using assms(3) by (metis rev_exhaust)
  have "sys_name d" using assms(2) cs by simp
  then have "rev (dropWhile (\<lambda>x. x = SLASH) (rev (sys_path cs))) = sys_path cs" unfolding cs by (rule sys_path_rstrip)
  moreover have "before_slash (sys_path (cs @ [c])) = Some (sys_path cs)" using assms(1) by (intro sys_path_before) (simp add: sys_name_def)
  ultimately show ?thesis using assms(3) by (simp add: lop_child_def Let_def sys_path_Nil del: rev_is_Nil_conv dropWhile_eq_Nil_conv)
qed

text \<open>The parent is the nearest directory above with a uevent file; the devices above it are the rest.\<close>

lemma parent_device_ok:
  assumes "list_all sys_name cs" "cs \<noteq> []"
  shows "case device_ancestors os cs of
      [] \<Rightarrow> vdev_sysfs_get_parent_device os (sys_path cs) = Inl (- ENOENT)
    | p # ps \<Rightarrow> vdev_sysfs_get_parent_device os (sys_path cs) = Inr p \<and>
        (\<exists>ds. p = sys_path ds \<and> ds \<noteq> [] \<and> list_all sys_name ds \<and> device_ancestors os ds = ps \<and> length p < length (sys_path cs))"
  using assms
proof (induction cs rule: rev_induct)
  case (snoc c cs)
  have c: "sys_name c" and cs: "list_all sys_name cs" using snoc.prems by simp_all
  have b: "before_slash (sys_path (cs @ [c])) = Some (sys_path cs)" using c by (intro sys_path_before) (simp add: sys_name_def)
  have ne: "sys_path (cs @ [c]) \<noteq> []" by (simp add: sys_path_snoc)
  show ?case
  proof (cases "cs = []")
    case True
    then show ?thesis using b ne
      by (simp add: device_ancestors_def upwards_def vdev_sysfs_get_parent_device_def) (subst parent_device_loop.simps, simp add: sys_path_def)
  next
    case False
    have lop: "lop_child (sys_path (cs @ [c])) = sys_path cs" using c cs False by (rule lop_child_path)
    have anc: "device_ancestors os (cs @ [c]) = (if is_device os (sys_path cs) then [sys_path cs] else []) @ device_ancestors os cs"
      using False by (simp add: device_ancestors_def upwards_snoc)
    have loop: "vdev_sysfs_get_parent_device os (sys_path (cs @ [c])) =
        (if is_device os (sys_path cs) then Inr (sys_path cs) else vdev_sysfs_get_parent_device os (sys_path cs))"
      unfolding vdev_sysfs_get_parent_device_def using b ne lop False
      by (subst parent_device_loop.simps) (auto simp: is_device_def sys_path_Nil split: sum.splits)
    have len: "length (sys_path cs) < length (sys_path (cs @ [c]))" by (simp add: sys_path_snoc)
    show ?thesis
    proof (cases "is_device os (sys_path cs)")
      case True
      then show ?thesis using anc loop len cs False by auto
    next
      case no: False
      then show ?thesis using snoc.IH [OF cs False] anc loop len by (auto split: list.splits)
    qed
  qed
qed simp

subsection \<open>Parents with a subsystem and a type\<close>

definition subsystem_of :: "helper_os \<Rightarrow> cstr \<Rightarrow> cstr option" where
  "subsystem_of os p = (case ho_readlink os (p @ ''/subsystem'') of Inl _ \<Rightarrow> None | Inr l \<Rightarrow> after_slash (take 4096 l))"

definition devtype_of :: "helper_os \<Rightarrow> cstr \<Rightarrow> cstr option" where
  "devtype_of os p =
     (case vdev_sysfs_uevent_read_key os p ''DEVTYPE'' of Inl _ \<Rightarrow> None | Inr v \<Rightarrow> Some v)"

definition device_matches :: "helper_os \<Rightarrow> cstr \<Rightarrow> cstr option \<Rightarrow> cstr \<Rightarrow> bool" where
  "device_matches os subsystem devtype p \<longleftrightarrow> subsystem_of os p = Some subsystem \<and> (devtype = None \<or> devtype_of os p = devtype)"

text \<open>
  Devices at which the walk stops without a match: the subsystem link cannot be read, or the device is of the subsystem, a type is asked for
  and the uevent file cannot be read. The walk then returns the error of that file.
\<close>

definition stops_walk :: "helper_os \<Rightarrow> cstr \<Rightarrow> cstr option \<Rightarrow> cstr \<Rightarrow> rc option" where
  "stops_walk os subsystem devtype p =
     (case ho_readlink os (p @ ''/subsystem'') of
        Inl e \<Rightarrow> Some (- e)
      | Inr _ \<Rightarrow>
          if subsystem_of os p = Some subsystem \<and> devtype \<noteq> None then
            (case helper_read_file os (p @ ''/uevent'') of Inl rc \<Rightarrow> Some rc | Inr _ \<Rightarrow> None)
          else None)"

text \<open>A subsystem link of sysfs is a relative path: it has a slash.\<close>

definition link_is_path :: "helper_os \<Rightarrow> cstr \<Rightarrow> bool" where
  "link_is_path os p \<longleftrightarrow> (case ho_readlink os (p @ ''/subsystem'') of Inl _ \<Rightarrow> True | Inr l \<Rightarrow> SLASH \<in> set (take 4096 l))"

lemma uevent_key_error: "uevent_key_loop toks key = Inl rc \<Longrightarrow> rc = - ENOENT"
  by (induction toks key rule: uevent_key_loop.induct) (auto split: option.splits if_splits)

lemma devtype_test_ok:
  assumes "ho_readlink os (p @ ''/subsystem'') = Inr l" "subsystem_of os p = Some subsystem"
  shows "devtype_test os p devtype =
    (case stops_walk os subsystem devtype p of
       Some rc \<Rightarrow> Some (Inl rc)
     | None \<Rightarrow> if device_matches os subsystem devtype p then Some (Inr p) else None)"
  using assms
  by (auto simp: devtype_test_def devtype_of_def stops_walk_def device_matches_def vdev_sysfs_uevent_read_key_def vdev_sysfs_uevent_get_key_def
      split: option.splits sum.splits dest: uevent_key_error)

lemma parent_with_loop_ok:
  assumes "list_all sys_name cs" "cs \<noteq> []" "length (sys_path cs) < 4087" "list_all (link_is_path os) (device_ancestors os cs)"
  shows "parent_with_loop os subsystem devtype (sys_path cs) =
    Some (case find (\<lambda>p. device_matches os subsystem devtype p \<or> stops_walk os subsystem devtype p \<noteq> None) (device_ancestors os cs) of
            None \<Rightarrow> Inl (- ENOENT)
          | Some p \<Rightarrow> (case stops_walk os subsystem devtype p of Some rc \<Rightarrow> Inl rc | None \<Rightarrow> Inr p))"
  using assms
proof (induction "length (device_ancestors os cs)" arbitrary: cs)
  case 0
  then show ?case using parent_device_ok [OF 0(2,3), of os] by (subst parent_with_loop.simps) simp
next
  case (Suc n)
  then obtain p ps where ps: "device_ancestors os cs = p # ps" by (cases "device_ancestors os cs") auto
  obtain ds where ds: "vdev_sysfs_get_parent_device os (sys_path cs) = Inr p" "p = sys_path ds" "ds \<noteq> []" "list_all sys_name ds"
    "device_ancestors os ds = ps" "length p < length (sys_path cs)"
    using parent_device_ok [OF Suc.prems(1,2), of os] ps by auto
  have link: "link_is_path os p" "list_all (link_is_path os) ps" using Suc.prems(4) ps by simp_all
  have len: "\<not> length p + 10 \<ge> 4097" "length (sys_path ds) < 4087" using ds(2,6) Suc.prems(3) by auto
  note rest = Suc.hyps(1) [of ds, folded ds(2), unfolded ds(5)]
  show ?case
  proof (cases "ho_readlink os (p @ ''/subsystem'')")
    case (Inl e)
    then have "stops_walk os subsystem devtype p = Some (- e)" by (simp add: stops_walk_def)
    with Inl ds(1) len(1) ps show ?thesis by (subst parent_with_loop.simps) simp
  next
    case (Inr l)
    then obtain name where name: "after_slash (take 4096 l) = Some name" using link(1) by (auto simp: link_is_path_def after_slash_def)
    have sub: "subsystem_of os p = Some name" using Inr name by (simp add: subsystem_of_def)
    then have no: "name \<noteq> subsystem \<Longrightarrow> stops_walk os subsystem devtype p = None \<and> \<not> device_matches os subsystem devtype p"
      using Inr by (simp add: stops_walk_def device_matches_def)
    show ?thesis
      using ds len Inr name rest Suc.hyps(2) ps link(2) no devtype_test_ok [OF Inr, of subsystem devtype] sub
      by (subst parent_with_loop.simps) (cases "name = subsystem"; auto split: option.splits)
  qed
qed

text \<open>
  C33: walking up sysfs finds the nearest ancestor that is a device of the subsystem and, if it is asked for, of the type. For a device at an
  absolute path, the search ends within its buffers: it goes up through the ancestors with a uevent file and stops at the first one that
  matches, which it returns, or at the first one that has no subsystem link, or that is of the subsystem and whose type is asked for and
  cannot be read, and then returns the error of that file; if there is no such ancestor the result is \<open>-ENOENT\<close>.
\<close>

theorem parent_with_subsystem_nearest:
  assumes "list_all sys_name cs" "cs \<noteq> []" "length (sys_path cs) < 4087" "list_all (link_is_path os) (device_ancestors os cs)"
  shows "vdev_sysfs_get_parent_with_subsystem_devtype os (sys_path cs) subsystem devtype =
    Some (case find (\<lambda>p. device_matches os subsystem devtype p \<or> stops_walk os subsystem devtype p \<noteq> None) (device_ancestors os cs) of
            None \<Rightarrow> Inl (- ENOENT)
          | Some p \<Rightarrow> (case stops_walk os subsystem devtype p of Some rc \<Rightarrow> Inl rc | None \<Rightarrow> Inr p))"
  using parent_with_loop_ok [OF assms] assms(3)
  by (simp add: vdev_sysfs_get_parent_with_subsystem_devtype_def stack_str_def)

text \<open>
  A disk on a USB stick: the interface is a device of the bus, of another type than the stick above it. The controller above the stick has a
  uevent file and no subsystem.
\<close>

definition example_sysfs :: helper_os where
  "example_sysfs =
     \<lparr>ho_stat = (\<lambda>p. if p \<in> {''/sys/devices/pci0/uevent'', ''/sys/devices/pci0/usb1/uevent'', ''/sys/devices/pci0/usb1/if0/uevent''}
                     then Inr (RegStat 4096) else Inl ENOENT),
      ho_open = (\<lambda>p. if p = ''/sys/devices/pci0/usb1/uevent'' then Inr [IoData (''DEVTYPE=usb_device'' @ [NL])]
                     else Inr [IoData (''DEVTYPE=usb_interface'' @ [NL])]),
      ho_readlink = (\<lambda>p. if p = ''/sys/devices/pci0/subsystem'' then Inl ENOENT else Inr ''../../bus/usb''), ho_realpath = (\<lambda>p. Some p)\<rparr>"

definition example_comps :: "cstr list" where
  "example_comps = [''sys'', ''devices'', ''pci0'', ''usb1'', ''if0'', ''host0'', ''sda'']"

theorem parent_with_subsystem_nearest_witness:
  "vdev_sysfs_get_parent_with_subsystem_devtype example_sysfs (sys_path example_comps) ''usb'' (Some ''usb_device'') =
     Some (Inr ''/sys/devices/pci0/usb1'') \<and>
   vdev_sysfs_get_parent_with_subsystem_devtype example_sysfs (sys_path example_comps) ''scsi'' None = Some (Inl (- ENOENT))"
proof -
  let ?if0 = "''/sys/devices/pci0/usb1/if0''" and ?usb = "''/sys/devices/pci0/usb1''" and ?pci = "''/sys/devices/pci0''"
  have anc: "device_ancestors example_sysfs example_comps = [?if0, ?usb, ?pci]"
    by (simp add: device_ancestors_def upwards_def example_comps_def sys_path_def is_device_def example_sysfs_def upt_rec)
  have rl: "ho_readlink example_sysfs (?if0 @ ''/subsystem'') = Inr ''../../bus/usb''" "ho_readlink example_sysfs (?usb @ ''/subsystem'') = Inr ''../../bus/usb''"
    "ho_readlink example_sysfs (?pci @ ''/subsystem'') = Inl ENOENT"
    by (simp_all add: example_sysfs_def)
  have sub: "subsystem_of example_sysfs ?if0 = Some ''usb''" "subsystem_of example_sysfs ?usb = Some ''usb''" "subsystem_of example_sysfs ?pci = None"
    using rl by (simp_all add: subsystem_of_def after_slash_def)
  have rd: "\<exists>c. helper_read_file example_sysfs (?if0 @ ''/uevent'') = Inr c" "\<exists>c. helper_read_file example_sysfs (?usb @ ''/uevent'') = Inr c"
    by (simp_all add: helper_read_file_def example_sysfs_def read_content_def vdev_read_uninterrupted_def)
  have dt: "devtype_of example_sysfs ?if0 = Some ''usb_interface''" "devtype_of example_sysfs ?usb = Some ''usb_device''"
    by (simp_all add: devtype_of_def vdev_sysfs_uevent_read_key_def helper_read_file_def example_sysfs_def read_content_def vdev_read_uninterrupted_def
        vdev_sysfs_uevent_get_key_def cstr_of_def)
  have st: "stops_walk example_sysfs s t ?if0 = None" "stops_walk example_sysfs s t ?usb = None" "stops_walk example_sysfs s t ?pci = Some (- ENOENT)" for s t
    using rl rd by (auto simp: stops_walk_def)
  have "list_all sys_name example_comps" "example_comps \<noteq> []" "length (sys_path example_comps) < 4087"
    by (simp_all add: example_comps_def sys_name_def sys_path_def)
  moreover have "list_all (link_is_path example_sysfs) (device_ancestors example_sysfs example_comps)"
    using rl by (simp add: anc link_is_path_def)
  ultimately show ?thesis
    using parent_with_subsystem_nearest [of example_comps example_sysfs "''usb''" "Some ''usb_device''"]
      parent_with_subsystem_nearest [of example_comps example_sysfs "''scsi''" None]
    by (simp add: anc device_matches_def sub dt st)
qed

section \<open>What the code does not do\<close>

text \<open>\<open>stat\<close> follows links and never reports one, so the path of a device is never found.\<close>

lemma read_device_path_fails:
  assumes "\<And>p n. ho_stat os p \<noteq> Inr (LnkStat n)" "vdev_sysfs_read_device_path os dir = Some r"
  shows "\<exists>rc. r = Inl rc"
  using assms by (auto simp: vdev_sysfs_read_device_path_def split: option.splits sum.splits file_stat.splits)

definition fails :: "(rc + cstr) option \<Rightarrow> bool" where
  "fails x \<longleftrightarrow> (\<forall>p. x \<noteq> Some (Inr p))"

lemma failsI: "fails None" "fails (Some (Inl rc))" "fails x \<Longrightarrow> fails y \<Longrightarrow> fails (if c then x else y)"
  "fails x \<Longrightarrow> (\<And>d. fails (f d)) \<Longrightarrow> fails (case m of None \<Rightarrow> x | Some d \<Rightarrow> f d)"
  by (auto simp: fails_def split: option.splits)

lemma first_dir_fails:
  assumes "\<And>p n. ho_stat os p \<noteq> Inr (LnkStat n)" "fails otherwise"
  shows "fails (first_dir os ps otherwise)"
  using assms(2) read_device_path_fails [OF assms(1)] by (induction ps) (fastforce simp: fails_def split: option.splits sum.splits)+

lemma device_path_never_found:
  assumes "\<And>p n. ho_stat os p \<noteq> Inr (LnkStat n)"
  shows "vdev_sysfs_device_path_from_subsystem_sysname os sysfs_mount subsystem sysname \<noteq> Some (Inr devpath)"
proof -
  have "fails (vdev_sysfs_device_path_from_subsystem_sysname os sysfs_mount subsystem sysname)"
    unfolding vdev_sysfs_device_path_from_subsystem_sysname_def Let_def by (intro failsI first_dir_fails [OF assms])
  then show ?thesis by (simp add: fails_def)
qed

text \<open>The number of a device is its last digit only.\<close>

lemma sysnum_last_digit: "vdev_sysfs_get_sysnum ''/sys/block/sda12'' = Some (Inr 2)"
  by (simp add: vdev_sysfs_get_sysnum_def vdev_sysfs_get_sysname_def after_slash_def count_digits_def is_digit_in_def strtoll_def strto_def
      digits_value_def digit_of_def LLONG_MAX_def LLONG_MIN_def isspace_def)

text \<open>White space alone is read before its start.\<close>

lemma rstrip_spaces: "vdev_util_rstrip ''  '' = None"
  by (simp add: vdev_util_rstrip_def isspace_def)

text \<open>A quote in a value ends the string that the shell reads.\<close>

lemma property_print_quote:
  "vdev_property_print [(''ID_MODEL'', [QUOTE] @ '';reboot;'' @ [QUOTE])] =
     ''ID_MODEL='' @ [QUOTE, QUOTE] @ '';reboot;'' @ [QUOTE, QUOTE, NL] @ ''VDEV_PROPERTIES='' @ [CHR 0x22] @ ''ID_MODEL '' @ [CHR 0x22, NL]"
  by (simp add: vdev_property_print_def)

end
