(* ===== verification/Spec2Isabelle.thy ===== *)
theory Spec2Isabelle
  imports Vdevfs_Acl Vdevd_Sysfs Vdevd_Main Udev_Monitor Udev_Util Udev_Hwdb Helpers_Common
begin

text \<open>
  A verification development for vdev, a device manager for \<^verbatim>\<open>/dev\<close> on Linux.

  \<^bold>\<open>The program.\<close> The kernel announces devices; \<^verbatim>\<open>vdevd\<close> turns each announcement into a \<^emph>\<open>device request\<close>
  and puts it on a \<^emph>\<open>work queue\<close>. A worker thread takes requests in order and, for each one, asks the
  \<^emph>\<open>actions\<close> (small INI files) for the device's name, makes or removes the device node and a
  directory of \<^emph>\<open>metadata\<close>, and runs the commands of the actions that match, as subprocesses or
  through long-running \<^emph>\<open>daemonlets\<close>. \<^verbatim>\<open>vdevfs\<close> is a file system that shows device nodes filtered by
  \<^emph>\<open>access control lists\<close>. Both use \<^verbatim>\<open>libvdev\<close>: an INI parser, regular expressions, parameter
  sets on a red-black tree, the configuration, and utilities for paths, files and processes. The \<^emph>\<open>helpers\<close>, programs that actions run,
  look up what sysfs knows of a device and print it as properties. \<^verbatim>\<open>libudev-compat\<close> is a replacement of libudev for applications: it
  passes on events with their properties, and looks devices up in a hardware database.

  \<^bold>\<open>The theories\<close>, and the files under \<^verbatim>\<open>src/\<close> that they model:
  \<^item> \<open>Vdev_Prelude\<close>: C strings, error numbers, number parsing and printing, shared lemmas.
  \<^item> \<open>Sglib_RBTree\<close> (\<^verbatim>\<open>libvdev/sglib.h\<close>): insertion, search, length and iteration of the red-black tree.
  \<^item> \<open>Sglib_Vector\<close> (\<^verbatim>\<open>libvdev/sglib.h\<close>): the growable array; the locale \<open>vector_spec\<close> is its contract.
  \<^item> \<open>Libvdev_Params\<close> (\<^verbatim>\<open>libvdev/param.c\<close>): parameter sets. The locale \<open>param_set\<close> is their contract, and
    is interpreted on the tree.
  \<^item> \<open>Libvdev_Util\<close> (\<^verbatim>\<open>libvdev/util.c\<close>): log levels, paths, uninterrupted reads and writes, parsing.
  \<^item> \<open>Libvdev_Match\<close> (\<^verbatim>\<open>libvdev/match.c\<close>): regular expressions over a library that is a parameter; the
    locale \<open>first_match\<close> is the contract of every search loop in the program.
  \<^item> \<open>Libvdev_Ini\<close> (\<^verbatim>\<open>libvdev/ini.c\<close>): the INI parser and a printer; the locales \<open>ini_acceptor\<close> and
    \<open>ini_handler\<close> are the contract of the callbacks.
  \<^item> \<open>Libvdev_Config\<close> (\<^verbatim>\<open>libvdev/config.c\<close>): the configuration from file and command line; the position of \<open>getopt\<close>, a global
    variable, is passed through as the options that it has still to deliver.
  \<^item> \<open>Vdevd_World\<close>: the operating system as seen by the program (file system, faults, processes), and
    the rest of \<^verbatim>\<open>libvdev/util.c\<close>; the locale \<open>dir_loader\<close> is the contract of a directory loader.
  \<^item> \<open>Vdevfs_Acl\<close> (\<^verbatim>\<open>fs/acl.c\<close>): access control lists.
  \<^item> \<open>Vdevd_Workqueue\<close> (\<^verbatim>\<open>vdevd/workqueue.c\<close>): the linked list of work items on a heap (locale \<open>worklist\<close>)
    and the interleaving of the worker with other threads, and with signals, as a step relation.
  \<^item> \<open>Vdevd_Request\<close>, \<open>Vdevd_Metadata\<close>, \<open>Vdevd_Device\<close> (\<^verbatim>\<open>vdevd/device.c\<close>): requests and their environment,
    metadata, and the handlers for added, removed and changed devices. Metadata is made under the name of a
    device after renaming and removed under its name before; the theorems say which of the two they are about.
  \<^item> \<open>Vdevd_Action\<close>, \<open>Vdevd_Daemonlet\<close>, \<open>Vdevd_Run\<close> (\<^verbatim>\<open>vdevd/action.c\<close>): actions, the daemonlet protocol, and
    running the actions of an event.
  \<^item> \<open>Vdevd_Uevent\<close> (\<^verbatim>\<open>vdevd/os/linux.c\<close>): parsing the text of a kernel event, and a printer.
  \<^item> \<open>Vdevd_Linux\<close> (\<^verbatim>\<open>vdevd/os/linux.c\<close>, \<^verbatim>\<open>vdevd/os/common.c\<close>): netlink messages, the scan of sysfs at the start, the
    registration of the devices found there, and the main loop that queues requests.
  \<^item> \<open>Vdevd_Sysfs\<close>: the scan of sysfs visits every device once.
  \<^item> \<open>Vdevd_Preseed\<close> (\<^verbatim>\<open>vdevd/vdev.c\<close>): the devices that a program named in the configuration announces at the start.
  \<^item> \<open>Vdevd_Main\<close> (\<^verbatim>\<open>vdevd/vdev.c\<close>, \<^verbatim>\<open>vdevd/main.c\<close>): initialisation, reload, start and stop, the removal of
    unplugged devices, and the main function.
  \<^item> \<open>Udev_List\<close> (\<^verbatim>\<open>libudev-compat/libudev-list.c\<close>): lists of names and values, on a heap of nodes, with a sorted array beside
    the ring; the locale \<open>name_map\<close> is their contract.
  \<^item> \<open>Udev_Utf8\<close> (\<^verbatim>\<open>libudev-compat/utf8.c\<close>) and \<open>Udev_Util\<close> (\<^verbatim>\<open>strxcpyx.c\<close>, \<^verbatim>\<open>device-nodes.c\<close>, \<^verbatim>\<open>libudev-util.c\<close>): strings.
  \<^item> \<open>Udev_Monitor\<close> (\<^verbatim>\<open>libudev-compat/libudev-monitor.c\<close>): messages, filters, and the program that the kernel runs on packets.
  \<^item> \<open>Udev_Hashmap\<close> (\<^verbatim>\<open>libudev-compat/hashmap.c\<close>, \<^verbatim>\<open>siphash24.c\<close>): hash tables, all operations. \<open>Udev_Robin_Hood\<close> has the lemmas on
    buckets and distances, \<open>Udev_Hashmap_Rep\<close> those on tables that stand for a list of entries, and \<open>Udev_Hashmap_Map\<close> shows that
    the operations are those of a map; the locale \<open>hash_ops_spec\<close> is what they need of a hash function.
  \<^item> \<open>Udev_Hwdb\<close> (\<^verbatim>\<open>libudev-compat/sd-hwdb.c\<close>): the trie of the hardware database in its file, and the search, which collects properties
    in a hash table.
  \<^item> \<open>Helpers_Common\<close> (\<^verbatim>\<open>vdevd/helpers/LINUX/common.c\<close>): strings, properties and sysfs for the helpers.
  \<^item> This theory: the back end and the worker at the same time, as one step relation over the definitions of
    the components.

  \<^bold>\<open>Conventions.\<close> Return codes are integers with the C convention (0, or a negative \<open>errno\<close>). A C string
  is a list of characters without NUL; a pointer that may be \<open>NULL\<close> is an option. A result \<open>None\<close> of
  a function that otherwise returns a pair stands for undefined behaviour: a \<open>NULL\<close> dereference, or
  a write past the end of a buffer. Allocation succeeds, except where a function takes a flag for it. The state of the
  system is a record \<open>world\<close> that is passed through and returned; a system call first
  meets a fault chosen by the world, then does what POSIX says.

  \<^bold>\<open>Fuel and termination.\<close> Loops are total functions with their measures, but for these. Waiting for the
  other end of a pipe or for a netlink message follows a finite script of what arrives, whose end means that the call blocks.
  The recursive removal of metadata has the depth of the file system as fuel, and \<open>remove_metadata_returns\<close> shows that it is
  enough. The scan of sysfs has one more than the number of entries as fuel, and \<open>find_devices_complete\<close>
  shows that it ends with the whole tree visited. The queue of directories for unplugged devices is
  a \<open>partial_function\<close>. Walking or emptying a list of \<open>Udev_List\<close> has the number of nodes ever made as fuel, which its lemmas show to be
  enough. The loops of the hash tables, whose end depends on the contents of the table, are \<open>partial_function\<close>s; \<open>hashmap_refines_alist\<close>
  and \<open>hashmap_iteration_and_copy\<close> show that they return on every table that the operations make. The recursion over the hardware database
  has 2048, the size of the buffer for a pattern, as fuel; each level adds a character to the buffer, so this is enough for
  the tries of \<open>hwdb_search_exact\<close>. The walk up sysfs in \<open>Helpers_Common\<close> is a \<open>partial_function\<close>, and
  \<open>parent_with_subsystem_nearest\<close> shows that it returns.

  \<^bold>\<open>What the theorems show.\<close> Each theory proves its invariants and the functional behaviour of its
  operations; the properties are the theorems whose text starts with a number. The main ones
  say that work is run in order, once and completely; that the daemon handles exactly the requests that the kernel
  announced, in order, however its threads are interleaved; that adding and removing a device has exactly the
  intended effect on the file system; that the action list is processed in one pass; that the
  daemonlet protocol delivers the request, reads the reply and leaves no daemonlet half open; that printed files are parsed back;
  that lists, hash tables and the hardware database behave as the maps and sets of patterns they stand for;
  and that buffers and arrays of fixed size suffice. Lemmas that record where the code does not do what
  its comments say are marked as such in the text before them.

  \<^bold>\<open>Not modelled.\<close> Logging, \<open>free\<close>, and what asynchronous commands do after they are started; the thread that
  copies the error pipe to the log, and \<open>fork\<close> and \<open>exec\<close>. The regular expression library, the account
  database, process information, the random source, sockets, \<open>poll\<close>, \<open>readlink\<close> and the table of mounts
  are parameters. The callbacks of vdevfs are calls of a library outside the
  repository and are not modelled. Of libudev-compat, the objects for devices, enumerations and queues, which read sysfs and the files of udevd,
  are not modelled; of the helpers, the programs that send commands to devices and print the answers are not.
\<close>

section \<open>The daemon: the back end and the worker at the same time\<close>

text \<open>
  The state that the two threads share: the back end's context and the netlink events to come, the queue, the
  actions, and the world. \<open>dm_taken\<close> records the requests the back end has taken, in order.
\<close>

record daemon =
  dm_ctx :: vdev_linux_context
  dm_events :: "nl_event list"
  dm_wq :: "device_work vdev_wq"
  dm_acts :: "vdev_action list"
  dm_world :: world
  dm_taken :: "vdev_device_request list"

text \<open>One turn of the back end's loop up to the semaphore, and one step of the worker, with the handler of the item it runs.\<close>

definition daemon_backend :: "linux_os \<Rightarrow> daemon \<Rightarrow> daemon option" where
  "daemon_backend os d =
     (case vdev_os_next_device os (dm_world d) (vdev_device_request_init VDEV_DEVICE_INVALID None) (dm_events d) (dm_ctx d) of
        Some (Some rc, vreq, evs', ctx') \<Rightarrow>
          if rc = 0 then
            Some (d\<lparr>dm_ctx := ctx', dm_events := evs', dm_wq := snd (vdev_device_request_enqueue True (dm_wq d) vreq),
                    dm_taken := dm_taken d @ [vreq]\<rparr>)
          else if rc = - EAGAIN then Some (d\<lparr>dm_ctx := ctx', dm_events := evs'\<rparr>)
          else None
      | _ \<Rightarrow> None)"

definition daemon_worker :: "regex_lib \<Rightarrow> 'z vdev_base_state_scheme \<Rightarrow> daemon \<Rightarrow> daemon option" where
  "daemon_worker lib st d =
     (case wq_worker (dm_wq d) of
        None \<Rightarrow> None
      | Some wq' \<Rightarrow>
          if wq_done wq' = wq_done (dm_wq d) then Some (d\<lparr>dm_wq := wq'\<rparr>)
          else
            (case device_work_run lib st (last (wq_done wq')) (dm_acts d, dm_world d) of
               None \<Rightarrow> None
             | Some (acts', w') \<Rightarrow> Some (d\<lparr>dm_wq := wq', dm_acts := acts', dm_world := w'\<rparr>)))"

inductive daemon_step :: "regex_lib \<Rightarrow> 'z vdev_base_state_scheme \<Rightarrow> linux_os \<Rightarrow> daemon \<Rightarrow> daemon \<Rightarrow> bool"
  for lib :: regex_lib and st :: "'z vdev_base_state_scheme" and os :: linux_os where
  backend: "daemon_backend os d = Some d' \<Longrightarrow> daemon_step lib st os d d'"
| post: "wq_posting (dm_wq d) > 0 \<Longrightarrow> daemon_step lib st os d (d\<lparr>dm_wq := wq_post (dm_wq d)\<rparr>)"
| coldplug: "lc_coldplug_finished (dm_ctx d) \<Longrightarrow> daemon_step lib st os d (d\<lparr>dm_wq := (dm_wq d)\<lparr>wq_os_coldplug := True\<rparr>\<rparr>)"
| worker: "daemon_worker lib st d = Some d' \<Longrightarrow> daemon_step lib st os d d'"
| interrupted: "wq_interrupted (dm_wq d) = Some wq' \<Longrightarrow> daemon_step lib st os d (d\<lparr>dm_wq := wq'\<rparr>)"

inductive daemon_reach :: "regex_lib \<Rightarrow> 'z vdev_base_state_scheme \<Rightarrow> linux_os \<Rightarrow> daemon \<Rightarrow> daemon \<Rightarrow> bool"
  for lib :: regex_lib and st :: "'z vdev_base_state_scheme" and os :: linux_os and d0 :: daemon where
  start: "vdev_wq_start 0 errno vdev_wq_init = (0, dm_wq d0) \<Longrightarrow> dm_taken d0 = [] \<Longrightarrow> daemon_reach lib st os d0 d0"
| step: "daemon_reach lib st os d0 d \<Longrightarrow> daemon_step lib st os d d' \<Longrightarrow> daemon_reach lib st os d0 d'"

text \<open>The handlers of a list of items, one after the other.\<close>

fun handle_all :: "regex_lib \<Rightarrow> 'z vdev_base_state_scheme \<Rightarrow> device_work list \<Rightarrow> vdev_action list \<times> world \<Rightarrow> (vdev_action list \<times> world) option" where
  "handle_all lib st [] s = Some s"
| "handle_all lib st (x # xs) s = (case device_work_run lib st x s of None \<Rightarrow> None | Some s' \<Rightarrow> handle_all lib st xs s')"

lemma handle_all_snoc:
  "handle_all lib st (xs @ [x]) s = (case handle_all lib st xs s of None \<Rightarrow> None | Some s' \<Rightarrow> device_work_run lib st x s')"
  by (induction xs arbitrary: s) (auto split: option.splits)

lemma worker_done:
  assumes "wq_worker wq = Some wq'"
  shows "wq_added wq' = wq_added wq" "wq_done wq' = wq_done wq \<or> (\<exists>x. wq_done wq' = wq_done wq @ [x])"
  using assms by (auto simp: wq_worker_def split: wpc.splits option.splits if_splits prod.splits)

lemma enqueue_step:
  fixes req :: vdev_device_request and wq :: "device_work vdev_wq"
  defines "wq' \<equiv> snd (vdev_device_request_enqueue True wq req)"
  shows "wq_added wq' = wq_added wq @ request_work req" "wq_done wq' = wq_done wq" "wq' = wq \<or> (\<exists>x. wq_step wq (Add x) wq')"
proof -
  show "wq_added wq' = wq_added wq @ request_work req" "wq_done wq' = wq_done wq"
    unfolding wq'_def
    by (simp_all add: vdev_device_request_enqueue_def vdev_device_request_sanity_check_def vdev_wq_add_def request_work_def
        split: option.splits vdev_device_request_t.splits)
  have "wq' = wq \<or> (\<exists>x. vdev_wq_add True x wq = (0, wq'))"
    unfolding wq'_def
    by (auto simp: vdev_device_request_enqueue_def vdev_wq_add_def split: vdev_device_request_t.splits)
  then show "wq' = wq \<or> (\<exists>x. wq_step wq (Add x) wq')" by (blast intro: wq_step.add)
qed

definition daemon_inv :: "regex_lib \<Rightarrow> 'z vdev_base_state_scheme \<Rightarrow> daemon \<Rightarrow> daemon \<Rightarrow> bool" where
  "daemon_inv lib st d0 d \<longleftrightarrow> wq_reach (dm_wq d) \<and> wq_added (dm_wq d) = concat (map request_work (dm_taken d)) \<and>
     handle_all lib st (wq_done (dm_wq d)) (dm_acts d0, dm_world d0) = Some (dm_acts d, dm_world d)"

lemma daemon_inv_step:
  assumes "daemon_inv lib st d0 d" "daemon_step lib st os d d'"
  shows "daemon_inv lib st d0 d'"
  using assms(2)
proof (cases rule: daemon_step.cases)
  case backend
  then consider vreq ctx' evs' where "d' = d\<lparr>dm_ctx := ctx', dm_events := evs', dm_wq := snd (vdev_device_request_enqueue True (dm_wq d) vreq),
      dm_taken := dm_taken d @ [vreq]\<rparr>" | ctx' evs' where "d' = d\<lparr>dm_ctx := ctx', dm_events := evs'\<rparr>"
    by (auto simp: daemon_backend_def split: option.splits prod.splits if_splits)
  then show ?thesis
  proof cases
    case (1 vreq ctx' evs')
    with assms(1) enqueue_step [of "dm_wq d" vreq] show ?thesis
      by (auto simp: daemon_inv_def intro: wq_reach.step)
  qed (use assms(1) in \<open>simp add: daemon_inv_def\<close>)
next
  case post
  then have "wq_reach (wq_post (dm_wq d))" using assms(1) by (auto simp: daemon_inv_def intro: wq_reach.step wq_step.post)
  moreover have "wq_added (wq_post (dm_wq d)) = wq_added (dm_wq d)" "wq_done (wq_post (dm_wq d)) = wq_done (dm_wq d)"
    by (simp_all add: wq_post_def)
  ultimately show ?thesis using post(1) assms(1) by (simp add: daemon_inv_def)
next
  case coldplug
  with assms(1) show ?thesis by (auto simp: daemon_inv_def intro: wq_reach.step wq_step.coldplug)
next
  case worker
  then obtain wq' where w: "wq_worker (dm_wq d) = Some wq'" by (auto simp: daemon_worker_def split: option.splits)
  have "wq_reach wq'" using assms(1) w by (auto simp: daemon_inv_def intro: wq_reach.step wq_step.worker)
  with worker worker_done [OF w] w assms(1) show ?thesis
    by (auto simp: daemon_inv_def daemon_worker_def handle_all_snoc split: if_splits option.splits)
next
  case (interrupted wq')
  then have "wq_added wq' = wq_added (dm_wq d)" "wq_done wq' = wq_done (dm_wq d)"
    by (auto simp: wq_interrupted_def split: if_splits)
  moreover have "wq_reach wq'"
    using assms(1) interrupted by (auto simp: daemon_inv_def intro: wq_reach.step wq_step.interrupted)
  ultimately show ?thesis using interrupted(1) assms(1) by (simp add: daemon_inv_def)
qed

text \<open>
  C4: The daemon as a whole. However the back end and the worker are interleaved, in every reachable state the
  queue has been given exactly the requests that the back end has taken, in that order; what has been run is a
  beginning of that list, and the rest waits in the queue; and the actions and the file system are what the handlers of the
  items that have been run make of the initial ones, each applied once, in that order.
\<close>

theorem daemon_handles_in_order:
  assumes "daemon_reach lib st os d0 d"
  shows "\<exists>ys xs. concat (map request_work (dm_taken d)) = wq_done (dm_wq d) @ ys @ xs \<and> wl_repr (wq_list (dm_wq d)) ys xs \<and>
    handle_all lib st (wq_done (dm_wq d)) (dm_acts d0, dm_world d0) = Some (dm_acts d, dm_world d)"
proof -
  have "daemon_inv lib st d0 d"
    using assms
  proof induction
    case (start errno)
    have "dm_wq d0 = snd (vdev_wq_start 0 errno vdev_wq_init)" by (simp add: start(1))
    then have "wq_added (dm_wq d0) = []" "wq_done (dm_wq d0) = []" by (simp_all add: vdev_wq_start_def vdev_wq_init_def)
    with start show ?case by (simp add: daemon_inv_def wq_reach.start)
  next
    case (step d d')
    then show ?case by (blast intro: daemon_inv_step)
  qed
  then have "wq_inv (dm_wq d)" "wq_added (dm_wq d) = concat (map request_work (dm_taken d))"
    "handle_all lib st (wq_done (dm_wq d)) (dm_acts d0, dm_world d0) = Some (dm_acts d, dm_world d)"
    using wq_reach_inv by (auto simp: daemon_inv_def)
  then show ?thesis unfolding wq_inv_def wq_shape_def by auto
qed


text \<open>An execution, for examples: the back end, the semaphore, and steps of the worker.\<close>

datatype daemon_label = Backend | PostSem | WorkerStep

definition daemon_fire :: "regex_lib \<Rightarrow> 'z vdev_base_state_scheme \<Rightarrow> linux_os \<Rightarrow> daemon_label \<Rightarrow> daemon \<Rightarrow> daemon option" where
  "daemon_fire lib st os l d =
     (case l of
        Backend \<Rightarrow> daemon_backend os d
      | PostSem \<Rightarrow> if wq_posting (dm_wq d) > 0 then Some (d\<lparr>dm_wq := wq_post (dm_wq d)\<rparr>) else None
      | WorkerStep \<Rightarrow> daemon_worker lib st d)"

fun daemon_schedule :: "regex_lib \<Rightarrow> 'z vdev_base_state_scheme \<Rightarrow> linux_os \<Rightarrow> daemon_label list \<Rightarrow> daemon \<Rightarrow> daemon option" where
  "daemon_schedule lib st os [] d = Some d"
| "daemon_schedule lib st os (l # ls) d =
     (case daemon_fire lib st os l d of None \<Rightarrow> None | Some d' \<Rightarrow> daemon_schedule lib st os ls d')"

lemma daemon_schedule_reach:
  "daemon_reach lib st os d0 d \<Longrightarrow> daemon_schedule lib st os ls d = Some d' \<Longrightarrow> daemon_reach lib st os d0 d'"
proof (induction ls arbitrary: d)
  case (Cons l ls)
  then obtain d1 where d1: "daemon_fire lib st os l d = Some d1" "daemon_schedule lib st os ls d1 = Some d'"
    by (auto split: option.splits)
  then have "daemon_step lib st os d d1"
    by (auto simp: daemon_fire_def split: daemon_label.splits if_splits intro: daemon_step.intros)
  with Cons d1(2) show ?case by (blast intro: daemon_reach.step)
qed simp

definition daemon_uevent :: "char list" where
  "daemon_uevent = ''add@/devices/cpu0'' @ NUL # ''ACTION=add'' @ NUL # ''DEVPATH=/devices/cpu0'' @ NUL # ''SUBSYSTEM=cpu'' @ [NUL]"

definition daemon_witness :: daemon where
  "daemon_witness = \<lparr>dm_ctx = witness_context, dm_events = [NlMessage \<lparr>nm_bytes = daemon_uevent, nm_uid = Some 0, nm_pid = 0\<rparr>], dm_wq = snd (vdev_wq_start 0 0 vdev_wq_init), dm_acts = [],
     dm_world = calm_world, dm_taken = []\<rparr>"

lemma daemon_witness_runs:
  "map_option (\<lambda>d. (length (dm_taken d), length (wq_done (dm_wq d))))
     (daemon_schedule literal_regex_lib preseed_state calm_linux ([Backend, PostSem] @ replicate 6 WorkerStep) daemon_witness) = Some (1, 1)"
  by code_simp

theorem daemon_handles_in_order_witness:
  "\<exists>(d :: daemon) x. concat (map request_work (dm_taken d)) = [x] \<and> wq_done (dm_wq d) = [x] \<and>
     handle_all literal_regex_lib preseed_state [x] ([], calm_world) = Some (dm_acts d, dm_world d)"
proof -
  obtain d where d: "daemon_schedule literal_regex_lib preseed_state calm_linux ([Backend, PostSem] @ replicate 6 WorkerStep) daemon_witness = Some d"
    "length (dm_taken d) = 1" "length (wq_done (dm_wq d)) = 1"
    using daemon_witness_runs by auto
  have "vdev_wq_start 0 0 vdev_wq_init = (0, dm_wq daemon_witness)"
    by (simp add: daemon_witness_def vdev_wq_start_def vdev_wq_init_def)
  then have "daemon_reach literal_regex_lib preseed_state calm_linux daemon_witness daemon_witness"
    by (rule daemon_reach.start) (simp add: daemon_witness_def)
  from daemon_handles_in_order [OF daemon_schedule_reach [OF this d(1)]] obtain ys xs where
    o: "concat (map request_work (dm_taken d)) = wq_done (dm_wq d) @ ys @ xs"
    "handle_all literal_regex_lib preseed_state (wq_done (dm_wq d)) ([], calm_world) = Some (dm_acts d, dm_world d)"
    by (auto simp: daemon_witness_def)
  obtain r where r: "dm_taken d = [r]" using d(2) by (auto simp: length_Suc_conv)
  obtain x where x: "wq_done (dm_wq d) = [x]" using d(3) by (auto simp: length_Suc_conv)
  have "length (request_work r) \<le> 1" by (simp add: request_work_def split: option.splits vdev_device_request_t.splits)
  with o(1) r x have "request_work r = [x]" by (cases "request_work r") auto
  with o(2) r x have "concat (map request_work (dm_taken d)) = [x] \<and> wq_done (dm_wq d) = [x] \<and>
     handle_all literal_regex_lib preseed_state [x] ([], calm_world) = Some (dm_acts d, dm_world d)"
    by (simp del: handle_all.simps)
  then show ?thesis by blast
qed

end
